(* ===== verification/Kprelude.thy ===== *)
theory Kprelude
  imports Main "HOL-Library.Word"
begin

unbundle bit_operations_syntax

text \<open>
  Shared vocabulary of the development: the machine integers of
  \<^verbatim>\<open>include/lib/kernel/stdint.h\<close>, the byte-addressed memory a C pointer points into, the
  result type of kernel code that may stop (an \<open>ASSERT\<close>, a bad access, a loop that never
  ends, a switch to another thread), and the generic lemmas on words and on that result type
  which the component theories use.
\<close>

section \<open>Machine integers and memory\<close>

type_synonym u8 = "8 word"
type_synonym u16 = "16 word"
type_synonym u32 = "32 word"

text \<open>A pointer is a 32-bit address; memory is a total map from addresses to bytes.\<close>

type_synonym bytes = "u32 \<Rightarrow> u8"

abbreviation NULL :: u32 where
  "NULL \<equiv> 0"

text \<open>The macro \<open>DIV_ROUND_UP\<close> of \<^verbatim>\<open>include/kernel/global.h\<close>.\<close>

definition DIV_ROUND_UP :: "u32 \<Rightarrow> u32 \<Rightarrow> u32" where
  "DIV_ROUND_UP x step = (x + step - 1) div step"

section \<open>Results of kernel code\<close>

text \<open>
  \<open>Panic\<close> is \<open>panic_spin\<close> / \<open>user_spin\<close> (a failed \<open>ASSERT\<close> or an
  explicit \<open>PANIC\<close>: interrupts off, message, endless loop). \<open>Fault\<close> is an access through
  a null or unmapped pointer. \<open>Spin\<close> is a loop of the source that does not end.
  \<open>Yield s\<close> says that the calling thread lost the CPU inside the call; \<open>s\<close> is the
  state in which another thread goes on.
\<close>

datatype 's halt = Panic string | Fault string | Spin | Yield 's

type_synonym ('s, 'a) res = "'s halt + 'a"

fun bnd :: "('s, 'a) res \<Rightarrow> ('a \<Rightarrow> ('s, 'b) res) \<Rightarrow> ('s, 'b) res" where
  "bnd (Inl e) f = Inl e"
| "bnd (Inr x) f = f x"

text \<open>A loop that may not end is an \<open>option\<close>; not returning is \<open>Spin\<close>.\<close>

fun or_spin :: "'a option \<Rightarrow> ('s, 'a) res" where
  "or_spin None = Inl Spin"
| "or_spin (Some x) = Inr x"

named_theorems res_simps
named_theorems kinv

lemma bnd_cong [fundef_cong]:
  "m = m' \<Longrightarrow> (\<And>x. m' = Inr x \<Longrightarrow> f x = f' x) \<Longrightarrow> bnd m f = bnd m' f'"
  by (cases m') auto

lemma bnd_Inr_iff [res_simps]: "bnd m f = Inr y \<longleftrightarrow> (\<exists>x. m = Inr x \<and> f x = Inr y)"
  by (cases m) auto

lemma bnd_Inr_right [simp]: "bnd m Inr = m"
  by (cases m) auto

lemma bnd_assoc: "bnd (bnd m f) g = bnd m (\<lambda>x. bnd (f x) g)"
  by (cases m) auto

lemma or_spin_Inr_iff [res_simps]: "or_spin x = Inr y \<longleftrightarrow> x = Some y"
  by (cases x) auto

lemma if_Inr_iff [res_simps]:
  "(if b then Inl e else m) = Inr y \<longleftrightarrow> \<not> b \<and> m = Inr y"
  "(if b then m else Inl e) = Inr y \<longleftrightarrow> b \<and> m = Inr y"
  by auto

section \<open>Words\<close>

lemma unat_Suc_less: "(i::'a::len word) < n \<Longrightarrow> unat (i + 1) = Suc (unat i)"
proof -
  assume "i < n"
  then have "unat i < unat n" by (simp add: word_less_nat_alt)
  moreover have "unat n < 2 ^ LENGTH('a)" by (rule unsigned_less)
  ultimately have "Suc (unat i) < 2 ^ LENGTH('a)" by linarith
  then show ?thesis by (simp add: unat_word_ariths)
qed

lemma word_less_Suc_cases: "(i::'a::len word) < n \<Longrightarrow> unat (i + 1) \<le> unat n"
  by (simp add: unat_Suc_less word_less_nat_alt Suc_leI)

lemma unat_of_nat_u32 [simp]: "n < 2 ^ 32 \<Longrightarrow> unat (of_nat n :: u32) = n"
  by (simp add: unat_of_nat)

lemma unat_less_u32: "unat (x::u32) < 2 ^ 32"
  by (rule less_le_trans [OF unsigned_less]) simp

lemma unat_div_less_u32: "unat (x::u32) div n < 2 ^ 32"
  by (rule le_less_trans [OF div_le_dividend unat_less_u32])

lemma add_of_nat_inj:
  "i < 2 ^ 32 \<Longrightarrow> j < 2 ^ 32 \<Longrightarrow> (a::u32) + of_nat i = a + of_nat j \<longleftrightarrow> i = j"
  by (metis add_left_imp_eq unat_of_nat_u32)

text \<open>The masks \<open>1 << i\<close> of the source test, set and clear one bit.\<close>

lemma and_exp_eq_0_iff:
  "2 ^ i AND w = 0 \<longleftrightarrow> \<not> bit (w::'a::len word) i"
  "w AND 2 ^ i = 0 \<longleftrightarrow> \<not> bit (w::'a::len word) i"
  by (simp_all add: and_exp_eq_0_iff_not_bit and.commute [of "2 ^ i"])

lemma bit_or_exp: "bit (w OR 2 ^ i) j \<longleftrightarrow> bit (w::'a::len word) j \<or> (i = j \<and> j < LENGTH('a))"
  by (auto simp: bit_simps)

lemma bit_and_not_exp: "bit (w AND NOT (2 ^ i)) j \<longleftrightarrow> bit (w::'a::len word) j \<and> i \<noteq> j"
  by (auto simp: bit_simps dest: bit_imp_le_length)

lemmas mask_simps = and_exp_eq_0_iff bit_or_exp bit_and_not_exp

lemma unat_div_mod_8:
  "unat (i div 8 :: u32) = unat i div 8" "unat (i mod 8 :: u32) = unat i mod 8"
  by (simp_all add: unat_div unat_mod)

lemma of_nat_unat_div_8: "of_nat (unat i div 8) = (i div 8 :: u32)"
  by (simp add: word_arith_nat_div)

lemma of_nat_u32_eq_iff:
  "i < 2 ^ 32 \<Longrightarrow> j < 2 ^ 32 \<Longrightarrow> (of_nat i :: u32) = of_nat j \<longleftrightarrow> i = j"
  by (metis unat_of_nat_u32)

end
