(* ===== verification/Kstring.thy ===== *)
theory Kstring
  imports Kprelude
begin

text \<open>
  The memory and string routines of \<^verbatim>\<open>kernel/string.c\<close> on byte memory. A loop that ends on
  a terminating zero byte is a \<open>partial_function (option)\<close>: on a region with no zero it does
  not return. \<open>cstr m a s\<close> says that a C string with the characters \<open>s\<close> starts at
  address \<open>a\<close>; the lemmas show that every routine returns on C strings and what it returns.
  \<open>char\<close> is signed on this target, so ordering is the order of \<open>sint\<close>.
\<close>

section \<open>Definitions\<close>

primrec memset_loop :: "bytes \<Rightarrow> u32 \<Rightarrow> u8 \<Rightarrow> nat \<Rightarrow> bytes" where
  "memset_loop m dst v 0 = m"
| "memset_loop m dst v (Suc n) = memset_loop (m(dst := v)) (dst + 1) v n"

definition memset :: "bytes \<Rightarrow> u32 \<Rightarrow> u8 \<Rightarrow> u32 \<Rightarrow> ('s, bytes) res" where
  "memset m dst v sz =
     (if dst = NULL then Inl (Panic ''dst_ != NULL'')
      else Inr (memset_loop m dst v (unat sz)))"

primrec memcpy_loop :: "bytes \<Rightarrow> u32 \<Rightarrow> u32 \<Rightarrow> nat \<Rightarrow> bytes" where
  "memcpy_loop m dst src 0 = m"
| "memcpy_loop m dst src (Suc n) = memcpy_loop (m(dst := m src)) (dst + 1) (src + 1) n"

definition memcpy :: "bytes \<Rightarrow> u32 \<Rightarrow> u32 \<Rightarrow> u32 \<Rightarrow> ('s, bytes) res" where
  "memcpy m dst src sz =
     (if dst = NULL \<or> src = NULL then Inl (Panic ''dst_ != NULL && src_ != NULL'')
      else Inr (memcpy_loop m dst src (unat sz)))"

primrec memcmp_loop :: "bytes \<Rightarrow> u32 \<Rightarrow> u32 \<Rightarrow> nat \<Rightarrow> int" where
  "memcmp_loop m a b 0 = 0"
| "memcmp_loop m a b (Suc n) =
     (if m a \<noteq> m b then (if sint (m a) > sint (m b) then 1 else -1)
      else memcmp_loop m (a + 1) (b + 1) n)"

definition memcmp :: "bytes \<Rightarrow> u32 \<Rightarrow> u32 \<Rightarrow> u32 \<Rightarrow> ('s, int) res" where
  "memcmp m a b sz =
     (if \<not> (a \<noteq> NULL \<or> b \<noteq> NULL) then Inl (Panic ''a != NULL || b != NULL'')
      else Inr (memcmp_loop m a b (unat sz)))"

partial_function (option) strcpy_loop :: "bytes \<Rightarrow> u32 \<Rightarrow> u32 \<Rightarrow> bytes option" where
  "strcpy_loop m dst src =
     (if m src = 0 then Some (m(dst := m src))
      else strcpy_loop (m(dst := m src)) (dst + 1) (src + 1))"

definition strcpy :: "bytes \<Rightarrow> u32 \<Rightarrow> u32 \<Rightarrow> ('s, u32 \<times> bytes) res" where
  "strcpy m dst src =
     (if dst = NULL \<or> src = NULL then Inl (Panic ''dst_ != NULL && src_ != NULL'')
      else bnd (or_spin (strcpy_loop m dst src)) (\<lambda>m'. Inr (dst, m')))"

text \<open>\<open>while (*p++);\<close> leaves \<open>p\<close> one past the terminating zero.\<close>

partial_function (option) skip_string :: "bytes \<Rightarrow> u32 \<Rightarrow> u32 option" where
  "skip_string m p = (if m p = 0 then Some (p + 1) else skip_string m (p + 1))"

definition strlen :: "bytes \<Rightarrow> u32 \<Rightarrow> ('s, u32) res" where
  "strlen m str =
     (if str = NULL then Inl (Panic ''str != NULL'')
      else bnd (or_spin (skip_string m str)) (\<lambda>p. Inr (p - str - 1)))"

partial_function (option) strcmp_loop :: "bytes \<Rightarrow> u32 \<Rightarrow> u32 \<Rightarrow> (u32 \<times> u32) option" where
  "strcmp_loop m a b =
     (if m a \<noteq> 0 \<and> m a = m b then strcmp_loop m (a + 1) (b + 1) else Some (a, b))"

definition strcmp :: "bytes \<Rightarrow> u32 \<Rightarrow> u32 \<Rightarrow> ('s, int) res" where
  "strcmp m a b =
     (if a = NULL \<or> b = NULL then Inl (Panic ''a != NULL && b != NULL'')
      else bnd (or_spin (strcmp_loop m a b))
        (\<lambda>(a, b). Inr (if sint (m a) < sint (m b) then -1
                       else if sint (m a) > sint (m b) then 1 else 0)))"

text \<open>
  In \<open>*str == ch\<close> the signed \<open>char\<close> and the \<open>uint8_t\<close> are promoted to \<open>int\<close>, so a
  character above 127 never compares equal.
\<close>

definition char_eq_u8 :: "u8 \<Rightarrow> u8 \<Rightarrow> bool" where
  "char_eq_u8 c ch \<longleftrightarrow> sint c = uint ch"

partial_function (option) strchr_loop :: "bytes \<Rightarrow> u32 \<Rightarrow> u8 \<Rightarrow> u32 option" where
  "strchr_loop m str ch =
     (if m str = 0 then Some NULL
      else if char_eq_u8 (m str) ch then Some str
      else strchr_loop m (str + 1) ch)"

definition strchr :: "bytes \<Rightarrow> u32 \<Rightarrow> u8 \<Rightarrow> ('s, u32) res" where
  "strchr m str ch =
     (if str = NULL then Inl (Panic ''str != NULL'') else or_spin (strchr_loop m str ch))"

partial_function (option) strrchr_loop :: "bytes \<Rightarrow> u32 \<Rightarrow> u8 \<Rightarrow> u32 \<Rightarrow> u32 option" where
  "strrchr_loop m str ch last_char =
     (if m str = 0 then Some last_char
      else strrchr_loop m (str + 1) ch (if char_eq_u8 (m str) ch then str else last_char))"

definition strrchr :: "bytes \<Rightarrow> u32 \<Rightarrow> u8 \<Rightarrow> ('s, u32) res" where
  "strrchr m str ch =
     (if str = NULL then Inl (Panic ''str != NULL'') else or_spin (strrchr_loop m str ch NULL))"

definition strcat :: "bytes \<Rightarrow> u32 \<Rightarrow> u32 \<Rightarrow> ('s, u32 \<times> bytes) res" where
  "strcat m dst src =
     (if dst = NULL \<or> src = NULL then Inl (Panic ''dst_ != NULL && src_ != NULL'')
      else bnd (or_spin (skip_string m dst))
        (\<lambda>str. bnd (or_spin (strcpy_loop m (str - 1) src)) (\<lambda>m'. Inr (dst, m'))))"

partial_function (option) strchrs_loop :: "bytes \<Rightarrow> u32 \<Rightarrow> u8 \<Rightarrow> u32 \<Rightarrow> u32 option" where
  "strchrs_loop m p ch ch_cnt =
     (if m p = 0 then Some ch_cnt
      else strchrs_loop m (p + 1) ch (if char_eq_u8 (m p) ch then ch_cnt + 1 else ch_cnt))"

definition strchrs :: "bytes \<Rightarrow> u32 \<Rightarrow> u8 \<Rightarrow> ('s, u32) res" where
  "strchrs m str ch =
     (if str = NULL then Inl (Panic ''str != NULL'') else or_spin (strchrs_loop m str ch 0))"

declare strcpy_loop.simps [code] skip_string.simps [code] strcmp_loop.simps [code]
  strchr_loop.simps [code] strrchr_loop.simps [code] strchrs_loop.simps [code]

text \<open>What a C string is, and the address ranges the routines touch.\<close>

primrec cstr :: "bytes \<Rightarrow> u32 \<Rightarrow> u8 list \<Rightarrow> bool" where
  "cstr m a [] \<longleftrightarrow> m a = 0"
| "cstr m a (c # cs) \<longleftrightarrow> m a = c \<and> c \<noteq> 0 \<and> cstr m (a + 1) cs"

definition region :: "u32 \<Rightarrow> nat \<Rightarrow> u32 set" where
  "region a n = (\<lambda>i. a + of_nat i) ` {..<n}"

section \<open>Regions\<close>

lemma region_0 [simp]: "region a 0 = {}"
  by (simp add: region_def)

lemma region_Suc: "region a (Suc n) = insert a (region (a + 1) n)"
  by (simp add: region_def lessThan_Suc_eq_insert_0 image_image ac_simps)

lemma regionI: "i < n \<Longrightarrow> a + of_nat i \<in> region a n"
  by (auto simp: region_def)

lemma region_mono: "n \<le> k \<Longrightarrow> region a n \<subseteq> region a k"
  by (auto simp: region_def)

lemma notin_region_next: "n < 2 ^ 32 \<Longrightarrow> a \<notin> region (a + 1) n"
proof
  assume n: "n < 2 ^ 32" and "a \<in> region (a + 1) n"
  then obtain i where i: "a = a + 1 + of_nat i" "i < n" by (auto simp: region_def)
  have "a + 1 + of_nat i = a" by (rule i(1) [symmetric])
  then have "a + (1 + of_nat i) = a + 0" by (simp only: add.assoc add_0_right)
  then have "1 + of_nat i = (0 :: u32)" by (rule add_left_imp_eq)
  then have "(of_nat (Suc i) :: u32) = 0" by simp
  moreover have "unat (of_nat (Suc i) :: u32) = Suc i"
    using i n by (intro unat_of_nat_u32) simp
  ultimately show False by simp
qed

section \<open>Block operations\<close>

lemma memset_loop_out: "x \<notin> region dst n \<Longrightarrow> memset_loop m dst v n x = m x"
  by (induction n arbitrary: m dst) (auto simp: region_Suc)

lemma memset_loop_in: "x \<in> region dst n \<Longrightarrow> memset_loop m dst v n x = v"
proof (induction n arbitrary: m dst)
  case (Suc n)
  then show ?case
    by (cases "x \<in> region (dst + 1) n") (auto simp: region_Suc memset_loop_out)
qed simp

lemma memset_loop_eq: "memset_loop m dst v n = (\<lambda>x. if x \<in> region dst n then v else m x)"
  by (auto simp: memset_loop_in memset_loop_out)

lemma memcpy_loop_out: "x \<notin> region dst n \<Longrightarrow> memcpy_loop m dst src n x = m x"
  by (induction n arbitrary: m dst src) (auto simp: region_Suc)

lemma memcpy_loop_copies:
  "n \<le> 2 ^ 32 \<Longrightarrow> region dst n \<inter> region src n = {} \<Longrightarrow> i < n \<Longrightarrow>
     memcpy_loop m dst src n (dst + of_nat i) = m (src + of_nat i)"
proof (induction n arbitrary: m dst src i)
  case (Suc n)
  have disj: "region (dst + 1) n \<inter> region (src + 1) n = {}" and dsrc: "dst \<notin> region src (Suc n)"
    using Suc.prems(2) by (auto simp: region_Suc)
  show ?case
  proof (cases i)
    case 0
    have "dst \<notin> region (dst + 1) n" using Suc.prems(1) by (intro notin_region_next) simp
    with 0 show ?thesis by (simp add: memcpy_loop_out)
  next
    case (Suc j)
    with Suc.prems have j: "j < n" "n \<le> 2 ^ 32" by auto
    have "memcpy_loop (m(dst := m src)) (dst + 1) (src + 1) n (dst + 1 + of_nat j)
          = (m(dst := m src)) (src + 1 + of_nat j)"
      using Suc.IH [OF j(2) disj j(1)] .
    moreover have "src + 1 + of_nat j \<noteq> dst"
      using dsrc regionI [OF j(1), of "src + 1"] by (auto simp: region_Suc)
    ultimately show ?thesis using Suc by (simp add: add.assoc)
  qed
qed simp

lemma memcmp_loop_zero_iff:
  "memcmp_loop m a b n = 0 \<longleftrightarrow> (\<forall>i<n. m (a + of_nat i) = m (b + of_nat i))"
proof (induction n arbitrary: a b)
  case (Suc n)
  have "(\<forall>i<Suc n. m (a + of_nat i) = m (b + of_nat i)) \<longleftrightarrow>
        m a = m b \<and> (\<forall>i<n. m (a + 1 + of_nat i) = m (b + 1 + of_nat i))"
    by (simp add: All_less_Suc2 add.assoc)
  with Suc show ?case by simp
qed simp

section \<open>C strings\<close>

lemma cstr_cong:
  "cstr m a s \<Longrightarrow> (\<And>x. x \<in> region a (Suc (length s)) \<Longrightarrow> m' x = m x) \<Longrightarrow> cstr m' a s"
proof (induction s arbitrary: a)
  case (Cons c s)
  from Cons.prems(2) have "m' x = m x" if "x \<in> region (a + 1) (Suc (length s))" for x
    using that by (simp add: region_Suc [of a])
  with Cons.IH [of "a + 1"] Cons.prems(1) have "cstr m' (a + 1) s" by simp
  with Cons.prems show ?case by (simp add: region_Suc)
qed (simp add: region_Suc)

lemma cstr_unique: "cstr m a s \<Longrightarrow> cstr m a t \<Longrightarrow> s = t"
proof (induction s arbitrary: a t)
  case Nil
  then show ?case by (cases t) auto
next
  case (Cons c s)
  then show ?case by (cases t) auto
qed

lemma cstr_append:
  "cstr m a (s @ t) \<longleftrightarrow>
     (\<forall>i<length s. m (a + of_nat i) = s ! i) \<and> 0 \<notin> set s \<and> cstr m (a + of_nat (length s)) t"
proof (induction s arbitrary: a)
  case (Cons c s)
  have "(\<forall>i<length (c # s). m (a + of_nat i) = (c # s) ! i) \<longleftrightarrow>
        m a = c \<and> (\<forall>i<length s. m (a + 1 + of_nat i) = s ! i)"
    by (simp add: All_less_Suc2 add.assoc)
  with Cons show ?case by (auto simp: add.assoc)
qed simp

lemma skip_string_cstr: "cstr m a s \<Longrightarrow> skip_string m a = Some (a + of_nat (length s) + 1)"
proof (induction s arbitrary: a)
  case Nil
  then show ?case by (simp add: skip_string.simps)
next
  case (Cons c s)
  then show ?case by (subst skip_string.simps) (simp add: ac_simps)
qed

lemma strlen_cstr: "a \<noteq> NULL \<Longrightarrow> cstr m a s \<Longrightarrow> strlen m a = Inr (of_nat (length s))"
  by (simp add: strlen_def skip_string_cstr)

text \<open>The result of \<open>strcmp\<close>: the sign of the first difference, a shorter string first.\<close>

fun scmp :: "u8 list \<Rightarrow> u8 list \<Rightarrow> int" where
  "scmp [] [] = 0"
| "scmp [] (d # ds) = sgn (- sint d)"
| "scmp (c # cs) [] = sgn (sint c)"
| "scmp (c # cs) (d # ds) = (if c = d then scmp cs ds else sgn (sint c - sint d))"

lemma strcmp_loop_cstr:
  "cstr m a s \<Longrightarrow> cstr m b t \<Longrightarrow>
     \<exists>a' b'. strcmp_loop m a b = Some (a', b') \<and> sgn (sint (m a') - sint (m b')) = scmp s t"
proof (induction s t arbitrary: a b rule: scmp.induct)
  case (4 c cs d ds)
  then show ?case by (subst strcmp_loop.simps) auto
qed (subst strcmp_loop.simps, auto)+

lemma strcmp_cstr:
  assumes "a \<noteq> NULL" "b \<noteq> NULL" "cstr m a s" "cstr m b t"
  shows "strcmp m a b = Inr (scmp s t)"
proof -
  obtain a' b' where "strcmp_loop m a b = Some (a', b')"
    and "sgn (sint (m a') - sint (m b')) = scmp s t"
    using strcmp_loop_cstr [OF assms(3,4)] by blast
  with assms(1,2) show ?thesis by (auto simp: strcmp_def sgn_if split: if_splits)
qed

lemma scmp_eq_0_iff: "0 \<notin> set s \<Longrightarrow> 0 \<notin> set t \<Longrightarrow> scmp s t = 0 \<longleftrightarrow> s = t"
  by (induction s t rule: scmp.induct) (auto simp: sgn_0_0 signed_eq_0_iff dest: signed_word_eqI)

lemma cstr_no_zero: "cstr m a s \<Longrightarrow> 0 \<notin> set s"
  by (induction s arbitrary: a) auto

text \<open>Copying a string onto a region that does not overlap it.\<close>

lemma strcpy_loop_cstr:
  "cstr m src s \<Longrightarrow> length s < 2 ^ 32 \<Longrightarrow>
     region dst (Suc (length s)) \<inter> region src (Suc (length s)) = {} \<Longrightarrow>
     \<exists>m'. strcpy_loop m dst src = Some m' \<and> cstr m' dst s \<and>
          (\<forall>x. x \<notin> region dst (Suc (length s)) \<longrightarrow> m' x = m x)"
proof (induction s arbitrary: m dst src)
  case Nil
  then show ?case by (subst strcpy_loop.simps) (auto simp: region_Suc)
next
  case (Cons c s)
  let ?n = "Suc (length s)"
  have src: "m src = c" "c \<noteq> 0" "cstr m (src + 1) s" using Cons.prems(1) by auto
  have disj: "region (dst + 1) ?n \<inter> region (src + 1) ?n = {}" "dst \<notin> region (src + 1) ?n"
    using Cons.prems(3) by (auto simp: region_Suc)
  have "cstr (m(dst := c)) (src + 1) s"
    using src(3) by (rule cstr_cong) (use disj(2) in auto)
  moreover have "length s < 2 ^ 32" using Cons.prems(2) by simp
  ultimately obtain m' where
    m': "strcpy_loop (m(dst := c)) (dst + 1) (src + 1) = Some m'" "cstr m' (dst + 1) s"
      "\<forall>x. x \<notin> region (dst + 1) ?n \<longrightarrow> m' x = (m(dst := c)) x"
    using Cons.IH disj(1) by blast
  have "dst \<notin> region (dst + 1) ?n" using Cons.prems(2) by (intro notin_region_next) simp
  with m'(3) have "m' dst = c" by simp
  moreover have "strcpy_loop m dst src = Some m'"
    using m'(1) src by (subst strcpy_loop.simps) simp
  ultimately show ?case using m' src by (auto simp: region_Suc)
qed

lemma region_split: "region a (n + k) = region a n \<union> region (a + of_nat n) k"
  by (induction n arbitrary: a) (auto simp: region_Suc add.assoc)

lemma region_disjoint:
  "n + k \<le> 2 ^ 32 \<Longrightarrow> region a n \<inter> region (a + of_nat n) k = {}"
proof (intro equalityI subsetI)
  fix x
  assume le: "n + k \<le> 2 ^ 32" and "x \<in> region a n \<inter> region (a + of_nat n) k"
  then obtain i j where "i < n" "j < k" "a + of_nat i = a + of_nat (n + j)"
    by (auto simp: region_def add.assoc)
  with le show "x \<in> {}" by (subst (asm) add_of_nat_inj) auto
qed simp

text \<open>
  \<open>strcat\<close> on two C strings returns the destination, which then holds the
  concatenation, and writes nothing beyond the end of the concatenated string.
\<close>

theorem strcat_concatenates:
  assumes "dst \<noteq> NULL" "src \<noteq> NULL" "cstr m dst s" "cstr m src t"
    and len: "length s + length t < 2 ^ 32"
    and disj: "region (dst + of_nat (length s)) (Suc (length t)) \<inter> region src (Suc (length t)) = {}"
  shows "\<exists>m'. strcat m dst src = Inr (dst, m') \<and> cstr m' dst (s @ t) \<and>
           (\<forall>x. x \<notin> region (dst + of_nat (length s)) (Suc (length t)) \<longrightarrow> m' x = m x)"
proof -
  let ?e = "dst + of_nat (length s)"
  from len have "length t < 2 ^ 32" by simp
  from strcpy_loop_cstr [OF assms(4) this disj] obtain m' where
    m': "strcpy_loop m ?e src = Some m'" "cstr m' ?e t"
      "\<forall>x. x \<notin> region ?e (Suc (length t)) \<longrightarrow> m' x = m x" by blast
  have "m' (dst + of_nat i) = s ! i" if "i < length s" for i
  proof -
    have "dst + of_nat i \<notin> region ?e (Suc (length t))"
      using region_disjoint [of "length s" "Suc (length t)" dst] regionI [OF that, of dst] len
      by auto
    with m'(3) cstr_append [of m dst s "[]"] assms(3) that show ?thesis by simp
  qed
  with m'(2) cstr_no_zero [OF assms(3)] have "cstr m' dst (s @ t)" by (simp add: cstr_append)
  with m' assms show ?thesis by (auto simp: strcat_def skip_string_cstr)
qed

theorem strcat_concatenates_witness:
  "let m = ((\<lambda>_. 0)(100 := 97, 200 := 98, 201 := 99) :: bytes) in
     \<exists>m'. (strcat m 100 200 :: (unit, u32 \<times> bytes) res) = Inr (100, m') \<and> cstr m' 100 [97, 98, 99]"
proof -
  let ?m = "((\<lambda>_. 0)(100 := 97, 200 := 98, 201 := 99) :: bytes)"
  have "\<exists>m'. (strcat ?m 100 200 :: (unit, u32 \<times> bytes) res) = Inr (100, m') \<and>
           cstr m' 100 ([97] @ [98, 99]) \<and>
           (\<forall>x. x \<notin> region (100 + of_nat (length [97::u8])) (Suc (length [98::u8, 99])) \<longrightarrow> m' x = ?m x)"
    by (rule strcat_concatenates) (simp_all add: region_Suc)
  then show ?thesis by auto
qed

lemma char_eq_u8_ascii: "ch < 128 \<Longrightarrow> char_eq_u8 c ch \<longleftrightarrow> c = ch"
proof -
  assume "ch < 128"
  then have "sint ch = uint ch"
    by (simp add: sint_uint signed_take_bit_eq_if_positive bit_uint_iff word_less_alt
        bit_iff_odd_drop_bit drop_bit_eq_div take_bit_int_eq_self)
  then show ?thesis by (metis char_eq_u8_def signed_word_eqI)
qed

lemma strchr_loop_cstr:
  "cstr m a s \<Longrightarrow> ch < 128 \<Longrightarrow>
     strchr_loop m a ch =
       Some (if ch \<in> set s then a + of_nat (length (takeWhile (\<lambda>c. c \<noteq> ch) s)) else NULL)"
proof (induction s arbitrary: a)
  case Nil
  then show ?case by (simp add: strchr_loop.simps)
next
  case (Cons c s)
  then show ?case
    by (subst strchr_loop.simps) (auto simp: char_eq_u8_ascii add.assoc)
qed

fun last_pos :: "u8 \<Rightarrow> u8 list \<Rightarrow> nat option" where
  "last_pos ch [] = None"
| "last_pos ch (c # cs) =
     (case last_pos ch cs of Some i \<Rightarrow> Some (Suc i) | None \<Rightarrow> if c = ch then Some 0 else None)"

lemma last_pos_None: "last_pos ch s = None \<longleftrightarrow> ch \<notin> set s"
  by (induction s) (auto split: option.splits)

lemma last_pos_Some:
  "last_pos ch s = Some i \<Longrightarrow> i < length s \<and> s ! i = ch \<and> ch \<notin> set (drop (Suc i) s)"
  by (induction s arbitrary: i) (auto simp: last_pos_None split: option.splits if_splits)

lemma strrchr_loop_cstr:
  "cstr m a s \<Longrightarrow> ch < 128 \<Longrightarrow>
     strrchr_loop m a ch l =
       Some (case last_pos ch s of None \<Rightarrow> l | Some i \<Rightarrow> a + of_nat i)"
proof (induction s arbitrary: a l)
  case Nil
  then show ?case by (simp add: strrchr_loop.simps)
next
  case (Cons c s)
  then show ?case
    by (subst strrchr_loop.simps) (auto simp: char_eq_u8_ascii add.assoc split: option.splits)
qed

lemma strchrs_loop_cstr:
  "cstr m a s \<Longrightarrow> ch < 128 \<Longrightarrow>
     strchrs_loop m a ch n = Some (n + of_nat (count_list s ch))"
proof (induction s arbitrary: a n)
  case Nil
  then show ?case by (simp add: strchrs_loop.simps)
next
  case (Cons c s)
  then show ?case by (subst strchrs_loop.simps) (auto simp: char_eq_u8_ascii add.assoc)
qed

lemma strchrs_counts:
  "a \<noteq> NULL \<Longrightarrow> cstr m a s \<Longrightarrow> ch < 128 \<Longrightarrow> strchrs m a ch = Inr (of_nat (count_list s ch))"
  by (simp add: strchrs_def strchrs_loop_cstr)

text \<open>
  \<open>strcmp\<close> returns on any two C strings, with \<open>0\<close> exactly for equal strings and
  otherwise with the sign of the first differing pair of (signed) characters.
\<close>

theorem strcmp_decides:
  assumes "a \<noteq> NULL" "b \<noteq> NULL" "cstr m a s" "cstr m b t"
  shows "strcmp m a b = Inr (scmp s t) \<and> (scmp s t = 0 \<longleftrightarrow> s = t)"
  using strcmp_cstr [OF assms] scmp_eq_0_iff cstr_no_zero assms(3,4) by blast

theorem strcmp_decides_witness:
  "(strcmp ((\<lambda>_. 0)(100 := 97, 200 := 97, 201 := 200)) 100 200 :: (unit, int) res) =
     Inr (scmp [97] [97, 200]) \<and> (scmp [97] [97, 200] = 0 \<longleftrightarrow> [97::u8] = [97, 200])"
  by (rule strcmp_decides) simp_all

text \<open>
  \<open>strrchr\<close> returns on any C string and ASCII character: the address of the last
  occurrence, or \<open>NULL\<close> when the character does not occur.
\<close>

theorem strrchr_last_occurrence:
  assumes "a \<noteq> NULL" "cstr m a s" "ch < 128"
  shows "\<exists>p. strrchr m a ch = Inr p \<and>
           (if ch \<in> set s
            then \<exists>i < length s. p = a + of_nat i \<and> s ! i = ch \<and> ch \<notin> set (drop (Suc i) s)
            else p = NULL)"
proof (cases "last_pos ch s")
  case None
  moreover from None have "ch \<notin> set s" by (simp add: last_pos_None)
  ultimately show ?thesis using assms by (simp add: strrchr_def strrchr_loop_cstr)
next
  case (Some i)
  moreover from Some have "ch \<in> set s" by (metis last_pos_None option.distinct(1))
  ultimately show ?thesis
    using assms last_pos_Some [OF Some] by (auto simp: strrchr_def strrchr_loop_cstr)
qed

theorem strrchr_last_occurrence_witness:
  "\<exists>p. (strrchr ((\<lambda>_. 0)(100 := 47, 101 := 97, 102 := 47, 103 := 98)) 100 47 :: (unit, u32) res) = Inr p \<and>
     (if (47::u8) \<in> set [47, 97, 47, 98]
      then \<exists>i < length [47::u8, 97, 47, 98]. p = 100 + of_nat i \<and> [47, 97, 47, 98] ! i = (47::u8) \<and>
             47 \<notin> set (drop (Suc i) [47::u8, 97, 47, 98])
      else p = NULL)"
  by (rule strrchr_last_occurrence) simp_all

end
