(* ===== verification/Bitmap.thy ===== *)
theory Bitmap
  imports Kstring
begin

unbundle bit_operations_syntax

text \<open>
  \<^verbatim>\<open>lib/kernel/bitmap.c\<close>. A \<open>bitmap\<close> is a length in bytes and a pointer; its bits live in the
  byte memory the pointer points into, so that bitmaps laid out next to each other (the
  memory pools do that) share that memory. \<open>bm_bit m b i\<close> is bit \<open>i\<close> of the bitmap; the
  lemmas give the meaning of every operation in terms of it.
\<close>

section \<open>Definitions\<close>

record bitmap =
  btmp_bytes_len :: u32
  bits :: u32

definition BITMAP_MASK :: u8 where
  "BITMAP_MASK = 1"

definition bitmap_init :: "bytes \<Rightarrow> bitmap \<Rightarrow> ('s, bytes) res" where
  "bitmap_init m btmap = memset m (bits btmap) 0 (btmp_bytes_len btmap)"

definition bitmap_scan_test :: "bytes \<Rightarrow> bitmap \<Rightarrow> u32 \<Rightarrow> u8" where
  "bitmap_scan_test m btmap index =
     (let byte_index = index div 8; bit_odd = index mod 8
      in m (bits btmap + byte_index) AND push_bit (unat bit_odd) BITMAP_MASK)"

text \<open>The three loops of \<open>bitmap_scan\<close>.\<close>

function scan_bytes :: "bytes \<Rightarrow> bitmap \<Rightarrow> u32 \<Rightarrow> u32" where
  "scan_bytes m btmp idx_byte =
     (if m (bits btmp + idx_byte) = 0xff \<and> idx_byte < btmp_bytes_len btmp
      then scan_bytes m btmp (idx_byte + 1) else idx_byte)"
  by pat_completeness auto
termination
  by (relation "measure (\<lambda>(m, b, i). unat (btmp_bytes_len b) - unat i)")
    (auto simp: unat_Suc_less word_less_nat_alt)

function scan_bits :: "u8 \<Rightarrow> nat \<Rightarrow> nat" where
  "scan_bits byte idx_bit =
     (if push_bit idx_bit BITMAP_MASK AND byte \<noteq> 0 then scan_bits byte (Suc idx_bit) else idx_bit)"
  by pat_completeness auto
termination
proof (relation "measure (\<lambda>(byte, i). 8 - i)", goal_cases)
  case (2 byte i)
  then have "bit byte i" by (simp add: BITMAP_MASK_def mask_simps)
  then have "i < 8" by (auto dest: bit_imp_le_length)
  then show ?case by simp
qed simp

primrec scan_run :: "bytes \<Rightarrow> bitmap \<Rightarrow> u32 \<Rightarrow> u32 \<Rightarrow> u32 \<Rightarrow> nat \<Rightarrow> u32" where
  "scan_run m btmp cnt next_bit count 0 = -1"
| "scan_run m btmp cnt next_bit count (Suc bit_left) =
     (let count = (if bitmap_scan_test m btmp next_bit = 0 then count + 1 else 0)
      in if count = cnt then next_bit - cnt + 1
         else scan_run m btmp cnt (next_bit + 1) count bit_left)"

text \<open>
  The \<open>ASSERT\<close> comes before the test that would return \<open>-1\<close>, so a full bitmap stops the
  kernel. The result is the \<open>int\<close> of the source as its 32-bit pattern.
\<close>

definition bitmap_scan :: "bytes \<Rightarrow> bitmap \<Rightarrow> u32 \<Rightarrow> ('s, u32) res" where
  "bitmap_scan m btmp cnt =
     (let idx_byte = scan_bytes m btmp 0
      in if \<not> idx_byte < btmp_bytes_len btmp then Inl (Panic ''idx_byte < btmp->btmp_bytes_len'')
         else if idx_byte = btmp_bytes_len btmp then Inr (-1)
         else let idx_bit = scan_bits (m (bits btmp + idx_byte)) 0;
                  bit_idx_start = idx_byte * 8 + of_nat idx_bit
              in if cnt = 1 then Inr bit_idx_start
                 else Inr (scan_run m btmp cnt (bit_idx_start + 1) 1
                             (unat (btmp_bytes_len btmp * 8 - bit_idx_start))))"

definition bitmap_set :: "bytes \<Rightarrow> bitmap \<Rightarrow> u32 \<Rightarrow> u8 \<Rightarrow> ('s, bytes) res" where
  "bitmap_set m btmap index val =
     (if \<not> (val = 0 \<or> val = 1) then Inl (Panic ''value == 0 || value == 1'')
      else let byte_index = index div 8; bit_odd = index mod 8; p = bits btmap + byte_index
           in if val \<noteq> 0
              then Inr (m(p := m p OR push_bit (unat bit_odd) BITMAP_MASK))
              else Inr (m(p := m p AND NOT (push_bit (unat bit_odd) BITMAP_MASK))))"

declare scan_bytes.simps [simp del] scan_bits.simps [simp del]

definition bm_bit :: "bytes \<Rightarrow> bitmap \<Rightarrow> nat \<Rightarrow> bool" where
  "bm_bit m b i \<longleftrightarrow> bit (m (bits b + of_nat (i div 8))) (i mod 8)"

definition bm_len :: "bitmap \<Rightarrow> nat" where
  "bm_len b = 8 * unat (btmp_bytes_len b)"

text \<open>Every index of the bitmap is a non-negative \<open>int\<close>.\<close>

definition bm_wf :: "bitmap \<Rightarrow> bool" where
  "bm_wf b \<longleftrightarrow> bm_len b < 2 ^ 31"

section \<open>Single bits\<close>

lemma bitmap_scan_test_iff: "bitmap_scan_test m b i = 0 \<longleftrightarrow> \<not> bm_bit m b (unat i)"
  by (simp add: bitmap_scan_test_def bm_bit_def BITMAP_MASK_def mask_simps Let_def
      unat_div_mod_8 of_nat_unat_div_8)

lemma bitmap_scan_test_of_nat:
  "n < 2 ^ 32 \<Longrightarrow> bitmap_scan_test m b (of_nat n) = 0 \<longleftrightarrow> \<not> bm_bit m b n"
  by (simp add: bitmap_scan_test_iff)

lemma bm_len_div: "i < bm_len b \<Longrightarrow> i div 8 < unat (btmp_bytes_len b)"
  by (simp add: bm_len_def less_mult_imp_div_less mult.commute)

lemma bm_len_less: "i < bm_len b \<Longrightarrow> i div 8 < 2 ^ 32"
proof -
  assume "i < bm_len b"
  then have "i div 8 < unat (btmp_bytes_len b)" by (rule bm_len_div)
  also have "\<dots> < 2 ^ 32" by (rule unat_less_u32)
  finally show ?thesis .
qed

lemma bitmap_set_ok: "v = 0 \<or> v = 1 \<Longrightarrow> \<exists>m'. bitmap_set m b i v = Inr m'"
  by (auto simp: bitmap_set_def Let_def)

lemma bitmap_set_frame:
  "bitmap_set m b i v = Inr m' \<Longrightarrow> x \<noteq> bits b + i div 8 \<Longrightarrow> m' x = m x"
  by (auto simp: bitmap_set_def Let_def split: if_splits)

lemma bitmap_set_bit:
  assumes set: "bitmap_set m b i v = Inr m'" and j: "j < bm_len b"
  shows "bm_bit m' b j \<longleftrightarrow> (if j = unat i then v = 1 else bm_bit m b j)"
proof -
  let ?p = "bits b + i div 8"
  have v: "v = 0 \<or> v = 1" using set by (auto simp: bitmap_set_def split: if_splits)
  have same: "bits b + of_nat (j div 8) = ?p \<longleftrightarrow> j div 8 = unat i div 8"
    using add_of_nat_inj [OF bm_len_less [OF j] unat_div_less_u32 [of i 8], of "bits b"]
    by (simp add: of_nat_unat_div_8)
  have "j = unat i \<longleftrightarrow> j div 8 = unat i div 8 \<and> j mod 8 = unat i mod 8"
    by (metis div_mult_mod_eq)
  with set v same show ?thesis
    by (auto simp: bitmap_set_def bm_bit_def Let_def BITMAP_MASK_def mask_simps unat_div_mod_8
        split: if_splits)
qed

section \<open>The byte and bit loops\<close>

lemma scan_bytes_spec:
  "i \<le> btmp_bytes_len b \<Longrightarrow>
     i \<le> scan_bytes m b i \<and> scan_bytes m b i \<le> btmp_bytes_len b \<and>
     (\<forall>k. unat i \<le> k \<and> k < unat (scan_bytes m b i) \<longrightarrow> m (bits b + of_nat k) = 0xff) \<and>
     (scan_bytes m b i < btmp_bytes_len b \<longrightarrow> m (bits b + scan_bytes m b i) \<noteq> 0xff)"
proof (induction m b i rule: scan_bytes.induct)
  case (1 m b i)
  show ?case
  proof (cases "m (bits b + i) = 0xff \<and> i < btmp_bytes_len b")
    case True
    then have suc: "unat (i + 1) = Suc (unat i)" by (auto intro: unat_Suc_less)
    with True have le: "i + 1 \<le> btmp_bytes_len b" by (simp add: word_le_nat_alt word_less_nat_alt)
    have eq: "scan_bytes m b i = scan_bytes m b (i + 1)"
      using True by (simp add: scan_bytes.simps [of m b i])
    note IH = "1.IH" [OF True le]
    have "m (bits b + of_nat k) = 0xff" if "unat i \<le> k" "k < unat (scan_bytes m b (i + 1))" for k
      using that IH True suc by (cases "k = unat i") auto
    with IH suc show ?thesis unfolding eq by (auto simp: word_le_nat_alt)
  next
    case False
    with "1.prems" show ?thesis by (auto simp: scan_bytes.simps [of m b i])
  qed
qed

lemma scan_bits_spec:
  "\<not> bit byte (scan_bits byte i) \<and> (\<forall>k. i \<le> k \<and> k < scan_bits byte i \<longrightarrow> bit byte k)"
proof (induction byte i rule: scan_bits.induct)
  case (1 byte i)
  show ?case
  proof (cases "bit byte i")
    case True
    then have eq: "scan_bits byte i = scan_bits byte (Suc i)"
      by (subst scan_bits.simps) (simp add: BITMAP_MASK_def mask_simps)
    from True "1.IH" show ?thesis
      unfolding eq by (auto simp: BITMAP_MASK_def mask_simps) (metis Suc_leI le_neq_implies_less)
  next
    case False
    then have "scan_bits byte i = i"
      by (subst scan_bits.simps) (simp add: BITMAP_MASK_def mask_simps)
    with False show ?thesis by auto
  qed
qed

lemma byte_full_iff: "(byte::u8) = 0xff \<longleftrightarrow> (\<forall>k<8. bit byte k)"
proof -
  have "(0xff::u8) = -1" by simp
  then have "byte = 0xff \<longleftrightarrow> byte = -1" by (simp only:)
  also have "\<dots> \<longleftrightarrow> (\<forall>k<8. bit byte k)" by (subst bit_eq_iff) auto
  finally show ?thesis .
qed

lemma scan_bits_less: "byte \<noteq> 0xff \<Longrightarrow> scan_bits byte 0 < 8"
  using scan_bits_spec [of byte 0] byte_full_iff [of byte] by (metis le_less_linear less_le_trans zero_le)

section \<open>Scanning for a run\<close>

text \<open>\<open>free_run m b s n\<close>: the \<open>n\<close> bits from \<open>s\<close> on are all clear.\<close>

definition free_run :: "bytes \<Rightarrow> bitmap \<Rightarrow> nat \<Rightarrow> nat \<Rightarrow> bool" where
  "free_run m b s n \<longleftrightarrow> (\<forall>i<n. \<not> bm_bit m b (s + i))"

lemma free_run_Suc: "free_run m b s (Suc n) \<longleftrightarrow> free_run m b s n \<and> \<not> bm_bit m b (s + n)"
  by (auto simp: free_run_def less_Suc_eq)

text \<open>
  What \<open>scan_run\<close> knows at bit \<open>n\<close> with counter \<open>c\<close>: \<open>c\<close> is the length of the
  maximal run that ends before \<open>n\<close>, and no run of \<open>k\<close> bits ends at or before \<open>n\<close>.
\<close>

definition run_inv :: "bytes \<Rightarrow> bitmap \<Rightarrow> nat \<Rightarrow> nat \<Rightarrow> nat \<Rightarrow> bool" where
  "run_inv m b k n c \<longleftrightarrow>
     c < k \<and> c \<le> n \<and> free_run m b (n - c) c \<and> (c < n \<longrightarrow> bm_bit m b (n - c - 1)) \<and>
     (\<forall>s. s + k \<le> n \<longrightarrow> \<not> free_run m b s k)"

lemma run_inv_set:
  assumes inv: "run_inv m b k n c" and set: "bm_bit m b n"
  shows "run_inv m b k (Suc n) 0"
proof -
  have "\<not> free_run m b s k" if "s + k = Suc n" for s
  proof -
    have "k - 1 < k" "s + (k - 1) = n" using that inv by (auto simp: run_inv_def)
    with set show ?thesis by (auto simp: free_run_def)
  qed
  with inv set show ?thesis by (auto simp: run_inv_def le_Suc_eq free_run_def)
qed

lemma run_inv_clear:
  assumes inv: "run_inv m b k n c" and clear: "\<not> bm_bit m b n" and less: "Suc c < k"
  shows "run_inv m b k (Suc n) (Suc c)"
proof -
  have run: "free_run m b (n - c) (Suc c)"
    using inv clear by (simp add: run_inv_def free_run_Suc)
  have "\<not> free_run m b s k" if s: "s + k = Suc n" for s
  proof
    assume free: "free_run m b s k"
    have "c < n" "s \<le> n - c - 1" "n - c - 1 < s + k" using s less by auto
    then obtain i where "n - c - 1 = s + i" "i < k" by (metis le_Suc_ex nat_add_left_cancel_less)
    with free inv \<open>c < n\<close> show False by (auto simp: run_inv_def free_run_def)
  qed
  with inv run less show ?thesis by (auto simp: run_inv_def le_Suc_eq Suc_diff_le)
qed

text \<open>\<open>r\<close> is the first run of \<open>k\<close> clear bits below \<open>lim\<close>, or \<open>-1\<close> when there is none.\<close>

definition first_run :: "bytes \<Rightarrow> bitmap \<Rightarrow> nat \<Rightarrow> nat \<Rightarrow> u32 \<Rightarrow> bool" where
  "first_run m b k lim r \<longleftrightarrow>
     (r = -1 \<and> (\<forall>s. s + k \<le> lim \<longrightarrow> \<not> free_run m b s k)) \<or>
     (\<exists>s. r = of_nat s \<and> s + k \<le> lim \<and> free_run m b s k \<and>
          (\<forall>t. t < s \<longrightarrow> \<not> free_run m b t k))"

lemma first_runI:
  "r = of_nat s \<Longrightarrow> s + k \<le> lim \<Longrightarrow> free_run m b s k \<Longrightarrow>
     (\<And>t. t < s \<Longrightarrow> \<not> free_run m b t k) \<Longrightarrow> first_run m b k lim r"
  by (auto simp: first_run_def)

lemma scan_run_spec:
  "run_inv m b k n c \<Longrightarrow> 2 \<le> k \<Longrightarrow> k < 2 ^ 32 \<Longrightarrow> n + L < 2 ^ 32 \<Longrightarrow>
     first_run m b k (n + L) (scan_run m b (of_nat k) (of_nat n) (of_nat c) L)"
proof (induction L arbitrary: n c)
  case 0
  then show ?case by (simp add: run_inv_def first_run_def)
next
  case (Suc L)
  let ?r = "scan_run m b (of_nat k) (of_nat n) (of_nat c) (Suc L)"
  have n: "n < 2 ^ 32" using Suc.prems by simp
  have c: "c < k" "c \<le> n" using Suc.prems(1) by (auto simp: run_inv_def)
  consider (set) "bm_bit m b n" | (hit) "\<not> bm_bit m b n" "Suc c = k"
    | (clear) "\<not> bm_bit m b n" "Suc c < k" using c by linarith
  then show ?case
  proof cases
    case set
    have "(0 :: u32) \<noteq> of_nat k"
      using of_nat_u32_eq_iff [of 0 k] Suc.prems(2,3) by simp
    then have "?r = scan_run m b (of_nat k) (of_nat (Suc n)) (of_nat 0) L"
      using set n by (simp add: bitmap_scan_test_of_nat ac_simps)
    moreover have "run_inv m b k (Suc n) 0" using Suc.prems(1) set by (rule run_inv_set)
    ultimately show ?thesis using Suc.IH [of "Suc n" 0] Suc.prems by simp
  next
    case hit
    have r: "?r = of_nat (n - c)"
      using hit n c by (auto simp: bitmap_scan_test_of_nat of_nat_diff)
    have "free_run m b (n - c) k"
      using Suc.prems(1) hit by (auto simp: run_inv_def free_run_Suc)
    moreover have "\<not> free_run m b s' k" if "s' < n - c" for s'
      using that Suc.prems(1) hit c by (auto simp: run_inv_def)
    ultimately show ?thesis using hit c by (intro first_runI [OF r]) auto
  next
    case clear
    have "(of_nat (Suc c) :: u32) \<noteq> of_nat k"
      using of_nat_u32_eq_iff [of "Suc c" k] clear Suc.prems(3) by simp
    then have "?r = scan_run m b (of_nat k) (of_nat (Suc n)) (of_nat (Suc c)) L"
      using clear n by (simp add: bitmap_scan_test_of_nat ac_simps)
    moreover have "run_inv m b k (Suc n) (Suc c)"
      using Suc.prems(1) clear by (rule run_inv_clear)
    ultimately show ?thesis using Suc.IH [of "Suc n" "Suc c"] Suc.prems by simp
  qed
qed

section \<open>The whole scan\<close>

lemma bm_bit_byte: "bm_bit m b (8 * k + j) \<longleftrightarrow> bit (m (bits b + of_nat k)) j" if "j < 8"
  using that by (simp add: bm_bit_def div_mult_self4)

text \<open>Where the first two loops of \<open>bitmap_scan\<close> stop: at the first clear bit.\<close>

definition scan_start :: "bytes \<Rightarrow> bitmap \<Rightarrow> nat" where
  "scan_start m b =
     8 * unat (scan_bytes m b 0) + scan_bits (m (bits b + scan_bytes m b 0)) 0"

lemma bits_before_byte:
  assumes "j < 8 * unat (scan_bytes m b 0)"
  shows "bm_bit m b j"
proof -
  have "m (bits b + of_nat (j div 8)) = 0xff"
    using scan_bytes_spec [of 0 b m] assms by (simp add: less_mult_imp_div_less mult.commute)
  then show ?thesis by (simp add: bm_bit_def byte_full_iff)
qed

lemma scan_start_spec:
  assumes "scan_bytes m b 0 < btmp_bytes_len b"
  shows "scan_start m b < bm_len b \<and> \<not> bm_bit m b (scan_start m b) \<and>
         (\<forall>j < scan_start m b. bm_bit m b j)"
proof -
  let ?ib = "scan_bytes m b 0" and ?byte = "m (bits b + scan_bytes m b 0)"
  have byte: "?byte \<noteq> 0xff" using scan_bytes_spec [of 0 b m] assms by simp
  have bit8: "scan_bits ?byte 0 < 8" using byte by (rule scan_bits_less)
  have ib: "unat ?ib < unat (btmp_bytes_len b)" using assms by (simp add: word_less_nat_alt)
  have less: "scan_start m b < bm_len b" using bit8 ib by (simp add: scan_start_def bm_len_def)
  have "\<not> bm_bit m b (scan_start m b)"
    using bit8 scan_bits_spec [of ?byte 0] by (simp add: scan_start_def bm_bit_byte)
  moreover have "bm_bit m b j" if "j < scan_start m b" for j
  proof (cases "j < 8 * unat ?ib")
    case True
    then show ?thesis by (rule bits_before_byte)
  next
    case False
    then obtain i where i: "j = 8 * unat ?ib + i" by (metis le_Suc_ex not_less)
    with that bit8 have "i < scan_bits ?byte 0" "i < 8" by (auto simp: scan_start_def)
    with i scan_bits_spec [of ?byte 0] show ?thesis by (simp add: bm_bit_byte)
  qed
  ultimately show ?thesis using less by blast
qed

lemma scan_bytes_full_iff:
  "scan_bytes m b 0 < btmp_bytes_len b \<longleftrightarrow> (\<exists>i < bm_len b. \<not> bm_bit m b i)"
proof
  assume "scan_bytes m b 0 < btmp_bytes_len b"
  then show "\<exists>i < bm_len b. \<not> bm_bit m b i" using scan_start_spec by blast
next
  assume "\<exists>i < bm_len b. \<not> bm_bit m b i"
  then obtain i where i: "i < bm_len b" "\<not> bm_bit m b i" by blast
  show "scan_bytes m b 0 < btmp_bytes_len b"
  proof (rule ccontr)
    assume "\<not> ?thesis"
    with scan_bytes_spec [of 0 b m] have "scan_bytes m b 0 = btmp_bytes_len b" by auto
    with i bits_before_byte [of i m b] show False by (simp add: bm_len_def)
  qed
qed

lemma scan_start_word:
  "scan_bytes m b 0 * 8 + of_nat (scan_bits (m (bits b + scan_bytes m b 0)) 0)
     = of_nat (scan_start m b)"
  by (simp add: scan_start_def)

lemma unat_bytes_len_8: "bm_wf b \<Longrightarrow> btmp_bytes_len b * 8 = of_nat (bm_len b)"
  by (simp add: bm_len_def)

lemma bitmap_scan_one:
  "\<exists>i < bm_len b. \<not> bm_bit m b i \<Longrightarrow>
     (bitmap_scan m b 1 :: ('s, u32) res) = Inr (of_nat (scan_start m b))"
  using scan_bytes_full_iff [of m b] by (auto simp: bitmap_scan_def Let_def scan_start_word)

lemma bitmap_scan_many:
  assumes wf: "bm_wf b" and free: "\<exists>i < bm_len b. \<not> bm_bit m b i" and k: "k \<noteq> 1" "k < 2 ^ 32"
  shows "(bitmap_scan m b (of_nat k) :: ('s, u32) res) =
           Inr (scan_run m b (of_nat k) (of_nat (Suc (scan_start m b))) (of_nat 1)
                  (bm_len b - scan_start m b))"
proof -
  have lt: "scan_bytes m b 0 < btmp_bytes_len b" using free by (simp add: scan_bytes_full_iff)
  have start: "scan_start m b < bm_len b" using scan_start_spec [OF lt] by blast
  have "unat (btmp_bytes_len b * 8 - of_nat (scan_start m b)) = bm_len b - scan_start m b"
    using wf start by (simp add: unat_bytes_len_8 bm_wf_def flip: of_nat_diff)
  moreover have "(of_nat k :: u32) \<noteq> 1"
    using of_nat_u32_eq_iff [of k 1] k by simp
  ultimately show ?thesis
    using lt by (auto simp: bitmap_scan_def Let_def scan_start_word ac_simps)
qed

lemma run_inv_start:
  assumes "scan_bytes m b 0 < btmp_bytes_len b" "2 \<le> k"
  shows "run_inv m b k (Suc (scan_start m b)) 1"
proof -
  have st: "\<not> bm_bit m b (scan_start m b)" "\<forall>j < scan_start m b. bm_bit m b j"
    using scan_start_spec [OF assms(1)] by auto
  have "\<not> free_run m b s k" if "s + k \<le> Suc (scan_start m b)" for s
    using that st(2) assms(2) by (auto simp: free_run_def intro!: exI [of _ 0])
  with st assms(2) show ?thesis by (auto simp: run_inv_def free_run_def)
qed

lemma bitmap_scan_first_run:
  assumes wf: "bm_wf b" and free: "\<exists>i < bm_len b. \<not> bm_bit m b i" and k: "2 \<le> k" "k < 2 ^ 32"
  shows "\<exists>r. (bitmap_scan m b (of_nat k) :: ('s, u32) res) = Inr r \<and> first_run m b k (Suc (bm_len b)) r"
proof -
  have lt: "scan_bytes m b 0 < btmp_bytes_len b" using free by (simp add: scan_bytes_full_iff)
  have start: "scan_start m b < bm_len b" using scan_start_spec [OF lt] by blast
  have "first_run m b k (Suc (scan_start m b) + (bm_len b - scan_start m b))
          (scan_run m b (of_nat k) (of_nat (Suc (scan_start m b))) (of_nat 1)
             (bm_len b - scan_start m b))"
    using wf start k by (intro scan_run_spec run_inv_start lt) (auto simp: bm_wf_def)
  with start bitmap_scan_many [OF wf free, of k, where 's = 's] k show ?thesis by simp
qed

section \<open>Properties\<close>

text \<open>
  C7: Asked for a run of \<open>k\<close> bits while the bitmap has one, \<open>bitmap_scan\<close> returns the
  first such run, and that run lies inside the bitmap.
\<close>

theorem bitmap_scan_finds_run:
  assumes wf: "bm_wf b" and k: "1 \<le> k" "k < 2 ^ 32"
    and run: "free_run m b s k" "s + k \<le> bm_len b"
  shows "\<exists>r. (bitmap_scan m b (of_nat k) :: ('s, u32) res) = Inr (of_nat r) \<and> r + k \<le> bm_len b \<and>
           free_run m b r k \<and> (\<forall>t < r. \<not> free_run m b t k)"
proof -
  have "\<not> bm_bit m b (s + 0)" "s < bm_len b" using run k by (auto simp: free_run_def)
  then have free: "\<exists>i < bm_len b. \<not> bm_bit m b i" by auto
  then have lt: "scan_bytes m b 0 < btmp_bytes_len b" by (simp add: scan_bytes_full_iff)
  show ?thesis
  proof (cases "k = 1")
    case True
    with bitmap_scan_one [OF free, where 's = 's] scan_start_spec [OF lt] show ?thesis
      by (intro exI [of _ "scan_start m b"]) (auto simp: free_run_def)
  next
    case False
    with k have "2 \<le> k" by simp
    from bitmap_scan_first_run [OF wf free this k(2)] obtain r where
      r: "(bitmap_scan m b (of_nat k) :: ('s, u32) res) = Inr r" "first_run m b k (Suc (bm_len b)) r"
      by blast
    have "s + k \<le> Suc (bm_len b)" using run(2) by simp
    with r(2) run(1) obtain t where t: "r = of_nat t" "free_run m b t k"
      "\<forall>u. u < t \<longrightarrow> \<not> free_run m b u k" by (auto simp: first_run_def)
    from t(3) run(1) have "t \<le> s" by (meson not_less)
    with run(2) t r(1) show ?thesis by (intro exI [of _ t]) auto
  qed
qed

theorem bitmap_scan_finds_run_witness:
  "\<exists>r. (bitmap_scan ((\<lambda>_. 0)(100 := 0xff, 101 := 0x05)) \<lparr>btmp_bytes_len = 2, bits = 100\<rparr> (of_nat 3)
          :: (unit, u32) res) = Inr (of_nat r) \<and>
     r + 3 \<le> bm_len \<lparr>btmp_bytes_len = 2, bits = 100\<rparr> \<and>
     free_run ((\<lambda>_. 0)(100 := 0xff, 101 := 0x05)) \<lparr>btmp_bytes_len = 2, bits = 100\<rparr> r 3 \<and>
     (\<forall>t < r. \<not> free_run ((\<lambda>_. 0)(100 := 0xff, 101 := 0x05)) \<lparr>btmp_bytes_len = 2, bits = 100\<rparr> t 3)"
proof (rule bitmap_scan_finds_run [where s = 13])
  show "free_run ((\<lambda>_. 0)(100 := 0xff, 101 := 0x05)) \<lparr>btmp_bytes_len = 2, bits = 100\<rparr> 13 3"
    unfolding free_run_def
  proof (intro allI impI)
    fix i :: nat
    assume "i < 3"
    then consider "i = 0" | "i = 1" | "i = 2" by linarith
    then show "\<not> bm_bit ((\<lambda>_. 0)(100 := 0xff, 101 := 0x05)) \<lparr>btmp_bytes_len = 2, bits = 100\<rparr> (13 + i)"
      by cases (simp_all add: bm_bit_def)
  qed
qed (simp_all add: bm_wf_def bm_len_def)

text \<open>
  On a bitmap with no clear bit \<open>bitmap_scan\<close> never returns \<open>-1\<close>: the \<open>ASSERT\<close>
  in front of that return stops the kernel.
\<close>

theorem bitmap_scan_full_panics:
  "(\<forall>i < bm_len b. bm_bit m b i) \<longleftrightarrow>
     bitmap_scan m b cnt = Inl (Panic ''idx_byte < btmp->btmp_bytes_len'')"
proof -
  have "(\<forall>i < bm_len b. bm_bit m b i) \<longleftrightarrow> \<not> scan_bytes m b 0 < btmp_bytes_len b"
    using scan_bytes_full_iff [of m b] by auto
  then show ?thesis by (simp add: bitmap_scan_def Let_def)
qed

theorem bitmap_scan_full_panics_witness:
  "(bitmap_scan (\<lambda>_. 0xff) \<lparr>btmp_bytes_len = 2, bits = 100\<rparr> 1 :: (unit, u32) res)
     = Inl (Panic ''idx_byte < btmp->btmp_bytes_len'')"
proof -
  have "bm_bit (\<lambda>_. 0xff) \<lparr>btmp_bytes_len = 2, bits = 100\<rparr> i" for i
  proof -
    have "bit (mask 8 :: u8) (i mod 8)" by (simp add: bit_mask_iff)
    then show ?thesis by (simp add: bm_bit_def mask_eq_exp_minus_1)
  qed
  then show ?thesis using bitmap_scan_full_panics by blast
qed

text \<open>
  The last iteration of the run search tests the bit one past the end. With the byte
  after a one-byte bitmap clear, a request for two bits is answered with bits 7 and 8.
\<close>

theorem bitmap_scan_overruns:
  "(bitmap_scan ((\<lambda>_. 0)(100 := 0x7f)) \<lparr>btmp_bytes_len = 1, bits = 100\<rparr> 2 :: (unit, u32) res)
     = Inr 7 \<and> bm_len \<lparr>btmp_bytes_len = 1, bits = 100\<rparr> = 8"
  by code_simp

section \<open>The allocator interface\<close>

text \<open>
  Page frames, process identifiers, inodes and disk blocks are all handed out the same way:
  scan for one clear bit, then set it. The locale states what such a client relies on.
\<close>

locale slot_allocator =
  fixes used :: "'m \<Rightarrow> 'b \<Rightarrow> nat \<Rightarrow> bool"
    and cap :: "'b \<Rightarrow> nat"
    and wf :: "'b \<Rightarrow> bool"
    and scan :: "'m \<Rightarrow> 'b \<Rightarrow> ('s, u32) res"
    and upd :: "'m \<Rightarrow> 'b \<Rightarrow> u32 \<Rightarrow> u8 \<Rightarrow> ('s, 'm) res"
  assumes cap_less: "wf b \<Longrightarrow> cap b < 2 ^ 31"
    and scan_free: "wf b \<Longrightarrow> i < cap b \<Longrightarrow> \<not> used m b i \<Longrightarrow>
      \<exists>r < cap b. scan m b = Inr (of_nat r) \<and> \<not> used m b r \<and> (\<forall>j < r. used m b j)"
    and scan_full: "wf b \<Longrightarrow> (\<And>i. i < cap b \<Longrightarrow> used m b i) \<Longrightarrow> \<exists>e. scan m b = Inl e"
    and upd_ok: "v = 0 \<or> v = 1 \<Longrightarrow> \<exists>m'. upd m b w v = Inr m'"
    and upd_used: "upd m b w v = Inr m' \<Longrightarrow> j < cap b \<Longrightarrow>
      used m' b j \<longleftrightarrow> (if j = unat w then v = 1 else used m b j)"
begin

lemma scan_sound:
  assumes "wf b" "scan m b = Inr i"
  shows "unat i < cap b \<and> \<not> used m b (unat i) \<and> (\<forall>j < unat i. used m b j)"
proof (cases "\<exists>k < cap b. \<not> used m b k")
  case True
  then obtain r where r: "r < cap b" "scan m b = Inr (of_nat r)" "\<not> used m b r" "\<forall>j < r. used m b j"
    using scan_free [OF assms(1)] by blast
  moreover have "unat i = r"
    using r(1,2) assms cap_less [OF assms(1)] by simp
  ultimately show ?thesis by simp
next
  case False
  then show ?thesis using scan_full [OF assms(1), of m] assms(2) by auto
qed

lemma take_fresh:
  assumes "wf b" "scan m b = Inr i" "upd m b i 1 = Inr m'"
  shows "unat i < cap b \<and> \<not> used m b (unat i) \<and>
         (\<forall>j < cap b. used m' b j \<longleftrightarrow> j = unat i \<or> used m b j)"
  using scan_sound [OF assms(1,2)] upd_used [OF assms(3)] by auto

lemma take_total:
  assumes "wf b" "k < cap b" "\<not> used m b k"
  shows "\<exists>i m'. scan m b = Inr i \<and> upd m b i 1 = Inr m'"
  using scan_free [OF assms] upd_ok [of 1] by blast

lemma take_take_distinct:
  assumes "wf b" "scan m b = Inr i" "upd m b i 1 = Inr m'" "scan m' b = Inr j"
  shows "i \<noteq> j"
proof
  assume "i = j"
  with take_fresh [OF assms(1-3)] scan_sound [OF assms(1,4)] show False by auto
qed

lemma give_back:
  assumes "wf b" "scan m b = Inr i" "upd m b i 1 = Inr m1" "upd m1 b i 0 = Inr m2" "j < cap b"
  shows "used m2 b j \<longleftrightarrow> used m b j"
  using scan_sound [OF assms(1,2)] upd_used [OF assms(3,5)] upd_used [OF assms(4,5)] by auto

end

interpretation bm: slot_allocator bm_bit bm_len bm_wf "\<lambda>m b. bitmap_scan m b 1" bitmap_set
proof unfold_locales
  fix b and m :: bytes and i
  assume "bm_wf b" "i < bm_len b" "\<not> bm_bit m b i"
  then have free: "\<exists>i < bm_len b. \<not> bm_bit m b i" by auto
  then have "scan_bytes m b 0 < btmp_bytes_len b" by (simp add: scan_bytes_full_iff)
  from bitmap_scan_one [OF free] scan_start_spec [OF this]
  show "\<exists>r < bm_len b. bitmap_scan m b 1 = Inr (of_nat r) \<and> \<not> bm_bit m b r \<and> (\<forall>j < r. bm_bit m b j)"
    by blast
next
  fix b and m :: bytes
  assume "\<And>i. i < bm_len b \<Longrightarrow> bm_bit m b i"
  then have "\<not> scan_bytes m b 0 < btmp_bytes_len b" using scan_bytes_full_iff [of m b] by auto
  then show "\<exists>e. bitmap_scan m b 1 = Inl e" by (simp add: bitmap_scan_def Let_def)
qed (auto simp: bm_wf_def bitmap_set_ok bitmap_set_bit)

text \<open>\<open>bitmap_init\<close> clears every bit of the bitmap and nothing outside it.\<close>

theorem bitmap_init_clears:
  assumes "bits b \<noteq> NULL"
  shows "\<exists>m'. bitmap_init m b = Inr m' \<and> (\<forall>i < bm_len b. \<not> bm_bit m' b i) \<and>
           (\<forall>x. x \<notin> region (bits b) (unat (btmp_bytes_len b)) \<longrightarrow> m' x = m x)"
proof -
  have "\<not> bm_bit (memset_loop m (bits b) 0 (unat (btmp_bytes_len b))) b i" if "i < bm_len b" for i
    using regionI [OF bm_len_div [OF that], of "bits b"]
    by (simp add: bm_bit_def memset_loop_in)
  with assms show ?thesis by (simp add: bitmap_init_def memset_def memset_loop_out)
qed

theorem bitmap_init_clears_witness:
  "\<exists>m'. (bitmap_init (\<lambda>_. 0xff) \<lparr>btmp_bytes_len = 2, bits = 100\<rparr> :: (unit, bytes) res) = Inr m' \<and>
     (\<forall>i < bm_len \<lparr>btmp_bytes_len = 2, bits = 100\<rparr>. \<not> bm_bit m' \<lparr>btmp_bytes_len = 2, bits = 100\<rparr> i) \<and>
     (\<forall>x. x \<notin> region (bits \<lparr>btmp_bytes_len = 2, bits = 100\<rparr>)
            (unat (btmp_bytes_len \<lparr>btmp_bytes_len = 2, bits = 100\<rparr>)) \<longrightarrow> m' x = 0xff)"
  by (rule bitmap_init_clears) simp

end
