(* ===== verification/Interrupt.thy ===== *)
theory Interrupt
  imports Kprelude
begin

unbundle bit_operations_syntax

text \<open>
  \<^verbatim>\<open>kernel/interrupt.c\<close>: the interrupt flag of \<open>eflags\<close>, the interrupt descriptor table with
  its gate descriptors, the table of handlers, the programming of the two 8259A chips and the
  default handler. The entry stubs of \<^verbatim>\<open>kernel/kernel.S\<close> are assembly: the table
  \<open>intr_entry_table\<close> of their addresses and \<open>syscall_handler\<close> are arguments.
\<close>

section \<open>The interrupt flag\<close>

datatype intr_status = INTR_OFF | INTR_ON

definition EFLAGS_IF :: u32 where
  "EFLAGS_IF = 0x00000200"

definition intr_get_status :: "u32 \<Rightarrow> intr_status" where
  "intr_get_status eflags = (if EFLAGS_IF AND eflags \<noteq> 0 then INTR_ON else INTR_OFF)"

text \<open>\<open>sti\<close> and \<open>cli\<close> set and clear the flag.\<close>

definition sti :: "u32 \<Rightarrow> u32" where
  "sti eflags = eflags OR EFLAGS_IF"

definition cli :: "u32 \<Rightarrow> u32" where
  "cli eflags = eflags AND NOT EFLAGS_IF"

definition intr_enable :: "u32 \<Rightarrow> intr_status \<times> u32" where
  "intr_enable eflags =
     (if INTR_ON = intr_get_status eflags then (INTR_ON, eflags) else (INTR_OFF, sti eflags))"

definition intr_disable :: "u32 \<Rightarrow> intr_status \<times> u32" where
  "intr_disable eflags =
     (if INTR_OFF = intr_get_status eflags then (INTR_OFF, eflags) else (INTR_ON, cli eflags))"

definition intr_set_status :: "intr_status \<Rightarrow> u32 \<Rightarrow> intr_status \<times> u32" where
  "intr_set_status status eflags =
     (if status = INTR_ON then intr_enable eflags else intr_disable eflags)"

lemma EFLAGS_IF_exp: "EFLAGS_IF = 2 ^ 9"
  by (simp add: EFLAGS_IF_def)

lemma intr_get_status_iff: "intr_get_status e = (if bit e 9 then INTR_ON else INTR_OFF)"
  unfolding intr_get_status_def EFLAGS_IF_exp by (subst and_exp_eq_0_iff) simp

lemma bit_sti: "bit (sti e) n \<longleftrightarrow> bit e n \<or> n = 9"
  unfolding sti_def EFLAGS_IF_exp by (subst bit_or_exp) auto

lemma bit_cli: "bit (cli e) n \<longleftrightarrow> bit e n \<and> n \<noteq> 9"
  unfolding cli_def EFLAGS_IF_exp by (subst bit_and_not_exp) auto

lemma cli_sti: "bit e 9 \<Longrightarrow> sti (cli e) = e"
  by (rule bit_eqI) (auto simp: bit_sti bit_cli)

lemma intr_status_sti [simp]: "intr_get_status (sti e) = INTR_ON"
  by (simp add: intr_get_status_iff bit_sti)

lemma intr_status_cli [simp]: "intr_get_status (cli e) = INTR_OFF"
  by (simp add: intr_get_status_iff bit_cli)

lemma intr_disable_off [simp]: "intr_get_status (snd (intr_disable e)) = INTR_OFF"
  by (simp add: intr_disable_def)

lemma intr_enable_on [simp]: "intr_get_status (snd (intr_enable e)) = INTR_ON"
  by (simp add: intr_enable_def)

lemma fst_intr_disable [simp]: "fst (intr_disable e) = intr_get_status e"
  by (simp add: intr_disable_def) (metis intr_status.exhaust)

text \<open>The idiom around every critical section puts the flags back exactly.\<close>

lemma intr_restore [simp]:
  "snd (intr_set_status (intr_get_status e) (snd (intr_disable e))) = e"
proof (cases "bit e 9")
  case True
  then show ?thesis
    by (simp add: intr_set_status_def intr_disable_def intr_enable_def intr_get_status_iff cli_sti
        bit_cli)
next
  case False
  then show ?thesis by (simp add: intr_set_status_def intr_disable_def intr_get_status_iff)
qed

section \<open>The descriptor table\<close>

definition IDT_DESC_CNT :: nat where
  "IDT_DESC_CNT = 0x81"

definition SELECTOR_K_CODE :: u16 where
  "SELECTOR_K_CODE = push_bit 3 1 + push_bit 2 0 + 0"

definition IDT_DESC_ATTR_DPL0 :: u8 where
  "IDT_DESC_ATTR_DPL0 = push_bit 7 1 + push_bit 5 0 + 0xE"

definition IDT_DESC_ATTR_DPL3 :: u8 where
  "IDT_DESC_ATTR_DPL3 = push_bit 7 1 + push_bit 5 3 + 0xE"

record gate_desc =
  func_offset_low_word :: u16
  selector :: u16
  dcount :: u8
  attribute :: u8
  func_offset_high_word :: u16

definition make_idt_desc :: "u8 \<Rightarrow> u32 \<Rightarrow> gate_desc" where
  "make_idt_desc attr func =
     \<lparr>func_offset_low_word = ucast (func AND 0x0000FFFF),
      selector = SELECTOR_K_CODE,
      dcount = 0,
      attribute = attr,
      func_offset_high_word = ucast (drop_bit 16 (func AND 0xFFFF0000))\<rparr>"

text \<open>The three tables of the file; a port write is a pair of port and byte.\<close>

record idt_state =
  idt :: "gate_desc list"
  idt_table :: "u32 list"
  intr_name :: "string list"
  port_log :: "(u16 \<times> u8) list"

definition outb :: "u16 \<Rightarrow> u8 \<Rightarrow> idt_state \<Rightarrow> idt_state" where
  "outb port data s = s\<lparr>port_log := port_log s @ [(port, data)]\<rparr>"

definition idt_desc_init :: "u32 list \<Rightarrow> u32 \<Rightarrow> idt_state \<Rightarrow> idt_state" where
  "idt_desc_init intr_entry_table syscall_handler s =
     s\<lparr>idt := (map (\<lambda>i. make_idt_desc IDT_DESC_ATTR_DPL0 (intr_entry_table ! i)) [0..<IDT_DESC_CNT])
          [0x80 := make_idt_desc IDT_DESC_ATTR_DPL3 syscall_handler]\<rparr>"

definition custom_names :: "(nat \<times> string) list" where
  "custom_names =
     [(0, ''#DE Divide Error''), (1, ''#DB Debug Exception''), (2, ''NMI Interrupt''),
      (3, ''#BP Breakpoint Exception''), (4, ''#OF Overflow Exception''),
      (5, ''#BR BOUND Range Exceeded Exception''), (6, ''#UD Invalid Opcode Exception''),
      (7, ''#NM Device Not Available Exception''), (8, ''#DF Double Fault Exception''),
      (9, ''Coprocessor Segment Overrun''), (10, ''#TS Invalid TSS Exception''),
      (11, ''#NP Segment Not Present''), (12, ''#SS Stack Fault Exception''),
      (13, ''#GP General Protection Exception''), (14, ''#PF Page-Fault Exception''),
      (16, ''#MF 0x87 FPU Floating-Point Error''), (17, ''#AC Alignment Check Exception''),
      (18, ''#MC Machine-Check Exception''), (19, ''#XF SIMD Floating-Point Exception'')]"

definition init_custom_handler_name :: "idt_state \<Rightarrow> idt_state" where
  "init_custom_handler_name s =
     s\<lparr>intr_name := fold (\<lambda>(i, n) ns. ns[i := n]) custom_names (intr_name s)\<rparr>"

definition exception_handler_init :: "u32 \<Rightarrow> idt_state \<Rightarrow> idt_state" where
  "exception_handler_init general_intr_handler s =
     init_custom_handler_name
       (s\<lparr>idt_table := replicate IDT_DESC_CNT general_intr_handler,
          intr_name := replicate IDT_DESC_CNT ''unknown''\<rparr>)"

definition pic_init :: "idt_state \<Rightarrow> idt_state" where
  "pic_init s =
     fold (\<lambda>(p, d). outb p d)
       [(0x20, 0x11), (0xA0, 0x11), (0x21, 0x20), (0xA1, 0x28), (0x21, 0x04), (0xA1, 0x02),
        (0x21, 0x01), (0xA1, 0x01), (0x21, 0xf8), (0xA1, 0xbf)] s"

definition register_handler :: "u8 \<Rightarrow> u32 \<Rightarrow> idt_state \<Rightarrow> ('s, idt_state) res" where
  "register_handler vector_no func s =
     (if unat vector_no < length (idt_table s)
      then Inr (s\<lparr>idt_table := (idt_table s)[unat vector_no := func]\<rparr>)
      else Inl (Fault ''idt_table[vector_no]''))"

text \<open>
  \<open>idt_init\<close> ends with \<open>lidt\<close> of the limit and the address \<open>idt_base\<close> of the table;
  the 64-bit operand is returned beside the state.
\<close>

definition idt_init :: "u32 list \<Rightarrow> u32 \<Rightarrow> u32 \<Rightarrow> u32 \<Rightarrow> idt_state \<Rightarrow> 64 word \<times> idt_state" where
  "idt_init intr_entry_table syscall_handler general_intr_handler idt_base s =
     (let s = idt_desc_init intr_entry_table syscall_handler s;
          s = exception_handler_init general_intr_handler s;
          s = pic_init s
      in ((of_nat (8 * IDT_DESC_CNT) - 1) OR push_bit 16 (ucast idt_base), s))"

text \<open>
  The default handler: spurious interrupts return; anything else prints the name of the vector
  and loops for ever.
\<close>

definition general_intr_handler :: "u8 \<Rightarrow> ('s, unit) res" where
  "general_intr_handler vec_nr = (if vec_nr = 0x27 \<or> vec_nr = 0x2f then Inr () else Inl Spin)"

lemma make_idt_desc_offset:
  "push_bit 16 (ucast (func_offset_high_word (make_idt_desc a f))) OR
     ucast (func_offset_low_word (make_idt_desc a f)) = f"
proof -
  have lo: "(0x0000FFFF :: u32) = mask 16" and hi: "(0xFFFF0000 :: u32) = push_bit 16 (mask 16)"
    by (simp_all add: mask_eq_exp_minus_1)
  show ?thesis
    unfolding make_idt_desc_def gate_desc.select_convs lo hi
    by (rule bit_eqI) (auto simp: bit_simps)
qed

text \<open>
  After \<open>idt_init\<close> the table has \<open>0x81\<close> gates, each of which leads back to the entry
  stub it was made for; only the system-call gate \<open>0x80\<close> can be entered from ring 3.
\<close>

theorem idt_init_gates:
  assumes "i < 0x81"
  shows "let g = idt (snd (idt_init stubs syscall general base s)) ! i
         in push_bit 16 (ucast (func_offset_high_word g)) OR ucast (func_offset_low_word g)
              = (if i = 0x80 then syscall else stubs ! i) \<and>
            selector g = 8 \<and> drop_bit 7 (attribute g) = 1 \<and>
            (drop_bit 5 (attribute g) AND 3 = 3 \<longleftrightarrow> i = 0x80)"
proof -
  have frame: "idt (snd (idt_init stubs syscall general base s)) =
      idt (idt_desc_init stubs syscall s)"
    by (simp add: idt_init_def pic_init_def outb_def exception_handler_init_def
        init_custom_handler_name_def Let_def)
  show ?thesis
  proof (cases "i = 0x80")
    case True
    then show ?thesis
      unfolding frame
      by (simp add: idt_desc_init_def IDT_DESC_CNT_def Let_def make_idt_desc_offset)
        (simp add: make_idt_desc_def SELECTOR_K_CODE_def IDT_DESC_ATTR_DPL3_def)
  next
    case False
    then show ?thesis
      unfolding frame using assms
      by (simp add: idt_desc_init_def IDT_DESC_CNT_def Let_def make_idt_desc_offset)
        (simp add: make_idt_desc_def SELECTOR_K_CODE_def IDT_DESC_ATTR_DPL0_def)
  qed
qed

theorem idt_init_gates_witness:
  "let g = idt (snd (idt_init (replicate 0x81 0xc0001500) 0xc0002000 0xc0003000 0xc0004000
                  \<lparr>idt = [], idt_table = [], intr_name = [], port_log = []\<rparr>)) ! 0x80
   in push_bit 16 (ucast (func_offset_high_word g)) OR ucast (func_offset_low_word g)
        = (if (0x80::nat) = 0x80 then (0xc0002000 :: u32) else replicate 0x81 0xc0001500 ! 0x80) \<and>
      selector g = 8 \<and> drop_bit 7 (attribute g) = 1 \<and>
      (drop_bit 5 (attribute g) AND 3 = 3 \<longleftrightarrow> (0x80::nat) = 0x80)"
  by (rule idt_init_gates) simp

end
