(* ===== verification/Klist.thy ===== *)
theory Klist
  imports Interrupt
begin

text \<open>
  \<^verbatim>\<open>lib/kernel/list.c\<close>: the kernel's intrusive doubly linked lists. The links live in a heap
  from element addresses to \<open>list_elem\<close>; a \<open>struct list\<close> at address \<open>l\<close> is the head
  sentinel at \<open>l\<close> and the tail sentinel at \<open>l + 8\<close>. The loops follow the links and are
  \<open>partial_function (option)\<close>. \<open>dll h l xs\<close> says that the heap holds a well-formed list
  with the elements \<open>xs\<close>; the locale \<open>kernel_list\<close> is the contract the rest of the kernel
  uses (it extends the first-in first-out contract \<open>fifo_queue\<close>), interpreted on the linked heap and on plain lists of addresses.
\<close>

section \<open>Definitions\<close>

record list_elem =
  prev :: u32
  "next" :: u32

record list_state =
  eflags :: u32
  links :: "u32 \<Rightarrow> list_elem"

definition head :: "u32 \<Rightarrow> u32" where
  "head plist = plist"

definition tail :: "u32 \<Rightarrow> u32" where
  "tail plist = plist + 8"

definition set_next :: "(u32 \<Rightarrow> list_elem) \<Rightarrow> u32 \<Rightarrow> u32 \<Rightarrow> ('s, u32 \<Rightarrow> list_elem) res" where
  "set_next h p v = (if p = NULL then Inl (Fault ''next'') else Inr (h(p := (h p)\<lparr>next := v\<rparr>)))"

definition set_prev :: "(u32 \<Rightarrow> list_elem) \<Rightarrow> u32 \<Rightarrow> u32 \<Rightarrow> ('s, u32 \<Rightarrow> list_elem) res" where
  "set_prev h p v = (if p = NULL then Inl (Fault ''prev'') else Inr (h(p := (h p)\<lparr>prev := v\<rparr>)))"

definition list_init :: "list_state \<Rightarrow> u32 \<Rightarrow> list_state" where
  "list_init s l =
     s\<lparr>links := (links s)(head l := \<lparr>prev = NULL, next = tail l\<rparr>,
                          tail l := \<lparr>prev = head l, next = NULL\<rparr>)\<rparr>"

definition list_insert_before :: "list_state \<Rightarrow> u32 \<Rightarrow> u32 \<Rightarrow> ('s, list_state) res" where
  "list_insert_before s before elem =
     (if before = NULL then Inl (Fault ''before'') else
      let (old_status, e) = intr_disable (eflags s)
      in bnd (set_next (links s) (prev (links s before)) elem) (\<lambda>h.
         bnd (set_prev h elem (prev (h before))) (\<lambda>h.
         bnd (set_next h elem before) (\<lambda>h.
         bnd (set_prev h before elem) (\<lambda>h.
           Inr (s\<lparr>links := h, eflags := snd (intr_set_status old_status e)\<rparr>))))))"

definition list_push :: "list_state \<Rightarrow> u32 \<Rightarrow> u32 \<Rightarrow> ('s, list_state) res" where
  "list_push s plist elem = list_insert_before s (next (links s (head plist))) elem"

definition list_append :: "list_state \<Rightarrow> u32 \<Rightarrow> u32 \<Rightarrow> ('s, list_state) res" where
  "list_append s plist elem = list_insert_before s (tail plist) elem"

definition list_remove :: "list_state \<Rightarrow> u32 \<Rightarrow> ('s, list_state) res" where
  "list_remove s pelem =
     (if pelem = NULL then Inl (Fault ''pelem'') else
      let (old_status, e) = intr_disable (eflags s)
      in bnd (set_next (links s) (prev (links s pelem)) (next (links s pelem))) (\<lambda>h.
         bnd (set_prev h (next (h pelem)) (prev (h pelem))) (\<lambda>h.
           Inr (s\<lparr>links := h, eflags := snd (intr_set_status old_status e)\<rparr>))))"

definition list_pop :: "list_state \<Rightarrow> u32 \<Rightarrow> ('s, u32 \<times> list_state) res" where
  "list_pop s plist =
     (let elem = next (links s (head plist))
      in bnd (list_remove s elem) (\<lambda>s. Inr (elem, s)))"

definition list_empty :: "list_state \<Rightarrow> u32 \<Rightarrow> bool" where
  "list_empty s plist = (next (links s (head plist)) = tail plist)"

partial_function (option) list_len_loop ::
  "(u32 \<Rightarrow> list_elem) \<Rightarrow> u32 \<Rightarrow> u32 \<Rightarrow> u32 \<Rightarrow> u32 option" where
  "list_len_loop h t elem len =
     (if elem = t then Some len else list_len_loop h t (next (h elem)) (len + 1))"

definition list_len :: "list_state \<Rightarrow> u32 \<Rightarrow> ('s, u32) res" where
  "list_len s plist = or_spin (list_len_loop (links s) (tail plist) (next (links s (head plist))) 0)"

partial_function (option) elem_find_loop ::
  "(u32 \<Rightarrow> list_elem) \<Rightarrow> u32 \<Rightarrow> u32 \<Rightarrow> u32 \<Rightarrow> bool option" where
  "elem_find_loop h t obj_elem elem =
     (if elem = t then Some False
      else if elem = obj_elem then Some True
      else elem_find_loop h t obj_elem (next (h elem)))"

definition elem_find :: "list_state \<Rightarrow> u32 \<Rightarrow> u32 \<Rightarrow> ('s, bool) res" where
  "elem_find s plist obj_elem =
     or_spin (elem_find_loop (links s) (tail plist) obj_elem (next (links s (head plist))))"

text \<open>The callback may change a state of its own, but not the links.\<close>

partial_function (option) traversal_loop ::
  "(u32 \<Rightarrow> list_elem) \<Rightarrow> u32 \<Rightarrow> (u32 \<Rightarrow> 'arg \<Rightarrow> 'x \<Rightarrow> bool \<times> 'x) \<Rightarrow> 'arg \<Rightarrow> u32 \<Rightarrow> 'x \<Rightarrow> (u32 \<times> 'x) option" where
  "traversal_loop h t func arg elem x =
     (if elem = t then Some (NULL, x)
      else let (found, x) = func elem arg x
           in if found then Some (elem, x) else traversal_loop h t func arg (next (h elem)) x)"

definition list_traversal ::
  "list_state \<Rightarrow> u32 \<Rightarrow> (u32 \<Rightarrow> 'arg \<Rightarrow> 'x \<Rightarrow> bool \<times> 'x) \<Rightarrow> 'arg \<Rightarrow> 'x \<Rightarrow> ('s, u32 \<times> 'x) res" where
  "list_traversal s plist func arg x =
     (if list_empty s plist then Inr (NULL, x)
      else or_spin (traversal_loop (links s) (tail plist) func arg (next (links s (head plist))) x))"

declare list_len_loop.simps [code] elem_find_loop.simps [code] traversal_loop.simps [code]

section \<open>Well-formed lists\<close>

text \<open>\<open>path h p xs q\<close>: from node \<open>p\<close> the links run through \<open>xs\<close> to \<open>q\<close> and back.\<close>

primrec path :: "(u32 \<Rightarrow> list_elem) \<Rightarrow> u32 \<Rightarrow> u32 list \<Rightarrow> u32 \<Rightarrow> bool" where
  "path h p [] q \<longleftrightarrow> next (h p) = q \<and> prev (h q) = p"
| "path h p (x # xs) q \<longleftrightarrow> next (h p) = x \<and> prev (h x) = p \<and> path h x xs q"

definition dll :: "list_state \<Rightarrow> u32 \<Rightarrow> u32 list \<Rightarrow> bool" where
  "dll s l xs \<longleftrightarrow> path (links s) (head l) xs (tail l) \<and>
     distinct (xs @ [head l, tail l]) \<and> NULL \<notin> set (xs @ [head l, tail l])"

lemma path_append: "path h p (xs @ y # ys) q \<longleftrightarrow> path h p xs y \<and> path h y ys q"
  by (induction xs arbitrary: p) auto

lemma path_ends:
  "path h p xs q \<Longrightarrow> next (h p) = hd (xs @ [q]) \<and> prev (h q) = last (p # xs) \<and>
     next (h (last (p # xs))) = q"
proof (induction xs arbitrary: p)
  case (Cons x xs)
  then have "prev (h q) = last (x # xs) \<and> next (h (last (x # xs))) = q" by (meson path.simps(2))
  with Cons.prems show ?case by simp
qed simp

lemma path_cong:
  "path h p xs q \<Longrightarrow> (\<And>x. x \<in> set (p # xs) \<Longrightarrow> next (h' x) = next (h x)) \<Longrightarrow>
     (\<And>x. x \<in> set (xs @ [q]) \<Longrightarrow> prev (h' x) = prev (h x)) \<Longrightarrow> path h' p xs q"
  by (induction xs arbitrary: p) simp_all

text \<open>Redirecting the last link of a path.\<close>

lemma path_retarget:
  assumes "path h p xs q" "distinct (p # xs)" "r \<notin> set xs"
    and "next (h' (last (p # xs))) = r" "prev (h' r) = last (p # xs)"
    and "\<And>x. x \<in> set (butlast (p # xs)) \<Longrightarrow> next (h' x) = next (h x)"
    and "\<And>x. x \<in> set xs \<Longrightarrow> prev (h' x) = prev (h x)"
  shows "path h' p xs r"
  using assms
proof (induction xs arbitrary: p)
  case (Cons y ys)
  have "path h' y ys r"
    by (rule Cons.IH) (use Cons.prems in \<open>auto split: if_splits\<close>)
  with Cons.prems show ?case by auto
qed auto

lemma last_notin_butlast: "distinct xs \<Longrightarrow> xs \<noteq> [] \<Longrightarrow> last xs \<notin> set (butlast xs)"
proof -
  assume "distinct xs" "xs \<noteq> []"
  then have "distinct (butlast xs @ [last xs])" by simp
  then show ?thesis by (simp only: distinct_append) simp
qed

lemma path_upd:
  "path h y zs q \<Longrightarrow> a \<notin> set (y # zs @ [q]) \<Longrightarrow> e \<notin> set (y # zs @ [q]) \<Longrightarrow> y \<notin> set (zs @ [q]) \<Longrightarrow>
     path (h(a := u, e := v, y := (h y)\<lparr>prev := w\<rparr>)) y zs q"
  by (erule path_cong) auto

lemma dist_disj:
  "distinct (xs @ ys @ [p, q]) \<Longrightarrow> set (p # xs) \<inter> set (ys @ [q]) = {}"
  by auto

lemma dll_nodes_cong:
  "dll s l xs \<Longrightarrow> (\<And>x. x \<in> set (xs @ [head l, tail l]) \<Longrightarrow> links s' x = links s x) \<Longrightarrow> dll s' l xs"
  by (auto simp: dll_def elim!: path_cong)

text \<open>
  The effect of an operation on the links: field updates at the given nodes, everything else
  unchanged. \<open>only_at s s' A\<close> bounds the nodes an operation writes.
\<close>

definition only_at :: "list_state \<Rightarrow> list_state \<Rightarrow> u32 set \<Rightarrow> bool" where
  "only_at s s' A \<longleftrightarrow> eflags s' = eflags s \<and> (\<forall>x. x \<notin> A \<longrightarrow> links s' x = links s x)"

lemma insert_before_links:
  assumes "before \<noteq> NULL" "elem \<noteq> NULL" "a \<noteq> NULL" "prev (links s before) = a"
    and "elem \<noteq> before" "elem \<noteq> a" "a \<noteq> before"
  shows "list_insert_before s before elem =
           Inr (s\<lparr>links := (links s)(a := (links s a)\<lparr>next := elem\<rparr>,
                                     elem := \<lparr>prev = a, next = before\<rparr>,
                                     before := (links s before)\<lparr>prev := elem\<rparr>)\<rparr>)"
  using assms
  by (auto simp: list_insert_before_def set_next_def set_prev_def split_beta fun_eq_iff
      intro!: list_state.equality)

lemma insert_before_dll:
  assumes dll: "dll s l (xs @ ys)" and before: "before = hd (ys @ [tail l])"
    and e: "e \<notin> set (xs @ ys @ [head l, tail l])" "e \<noteq> NULL"
  shows "\<exists>s'. list_insert_before s before e = Inr s' \<and> dll s' l (xs @ e # ys) \<and>
           only_at s s' (insert e (set (xs @ ys @ [head l, tail l])))"
proof -
  let ?h = "links s" and ?a = "last (head l # xs)"
  let ?h' = "(links s)(?a := (links s ?a)\<lparr>next := e\<rparr>, e := \<lparr>prev = ?a, next = before\<rparr>,
               before := (links s before)\<lparr>prev := e\<rparr>)"
  have dist: "distinct (xs @ ys @ [head l, tail l])" and null: "NULL \<notin> set (xs @ ys @ [head l, tail l])"
    and path: "path ?h (head l) (xs @ ys) (tail l)" using dll by (auto simp: dll_def)
  have p1: "path ?h (head l) xs before"
    using path before by (cases ys) (auto simp: path_append)
  have a: "?a \<in> set (head l # xs)" by (rule last_in_set) simp
  have b: "before \<in> set (ys @ [tail l])" using before by (metis append_is_Nil_conv hd_in_set not_Cons_self2)
  have ab: "?a \<noteq> before" "?a \<noteq> NULL" "before \<noteq> NULL" "e \<noteq> ?a" "e \<noteq> before"
    using a b dist null e by auto
  have ins: "list_insert_before s before e = Inr (s\<lparr>links := ?h'\<rparr>)"
    using ab e path_ends [OF p1] by (intro insert_before_links) auto
  have xb: "x \<noteq> before" "x \<noteq> e" if "x \<in> set (head l # xs)" for x
    using that b dist_disj [OF dist] e(1) by (metis disjoint_iff, auto)
  have front: "path ?h' (head l) xs e"
  proof (rule path_retarget [OF p1])
    show "distinct (head l # xs)" "e \<notin> set xs" using dist e(1) by simp_all
    show "next (?h' ?a) = e" using ab(1) ab(4) by simp
    show "prev (?h' e) = ?a" using ab(5) by simp
  next
    fix x assume x: "x \<in> set (butlast (head l # xs))"
    have "?a \<notin> set (butlast (head l # xs))"
      using dist by (intro last_notin_butlast) simp_all
    with x have "x \<noteq> ?a" by metis
    with xb [OF in_set_butlastD [OF x]] show "next (?h' x) = next (?h x)" by simp
  next
    fix x assume "x \<in> set xs"
    with xb [of x] show "prev (?h' x) = prev (?h x)" by simp
  qed
  have rear: "path ?h' e ys (tail l)"
  proof (cases ys)
    case Nil
    with ab before show ?thesis by auto
  next
    case (Cons y zs)
    with path have "path ?h y zs (tail l)" by (simp add: path_append)
    moreover have "?a \<notin> set (y # zs @ [tail l])"
      using a dist_disj [OF dist] Cons by (metis append_Cons disjoint_iff)
    moreover have "e \<notin> set (y # zs @ [tail l])" using e(1) Cons by simp
    moreover have "y \<notin> set (zs @ [tail l])" "before = y" using dist Cons before by auto
    ultimately have "path ?h' y zs (tail l)" using path_upd by metis
    with Cons ab before show ?thesis by simp
  qed
  have "dll (s\<lparr>links := ?h'\<rparr>) l (xs @ e # ys)"
    using front rear dist null e by (auto simp: dll_def path_append)
  moreover have "only_at s (s\<lparr>links := ?h'\<rparr>) (insert e (set (xs @ ys @ [head l, tail l])))"
    using a b by (auto simp: only_at_def)
  ultimately show ?thesis using ins by blast
qed

lemma remove_links:
  assumes "e \<noteq> NULL" "a \<noteq> NULL" "b \<noteq> NULL" "prev (links s e) = a" "next (links s e) = b"
    and "e \<noteq> a" "e \<noteq> b" "a \<noteq> b"
  shows "list_remove s e =
           Inr (s\<lparr>links := (links s)(a := (links s a)\<lparr>next := b\<rparr>, b := (links s b)\<lparr>prev := a\<rparr>)\<rparr>)"
  using assms
  by (auto simp: list_remove_def set_next_def set_prev_def split_beta intro!: list_state.equality)

lemma remove_dll:
  assumes dll: "dll s l (xs @ e # ys)"
  shows "\<exists>s'. (list_remove s e :: ('s, list_state) res) = Inr s' \<and> dll s' l (xs @ ys) \<and>
           only_at s s' (set (xs @ ys @ [head l, tail l]))"
proof -
  let ?h = "links s" and ?a = "last (head l # xs)" and ?b = "hd (ys @ [tail l])"
  let ?h' = "(links s)(?a := (links s ?a)\<lparr>next := ?b\<rparr>, ?b := (links s ?b)\<lparr>prev := ?a\<rparr>)"
  have dist: "distinct (xs @ e # ys @ [head l, tail l])"
    and null: "NULL \<notin> set (xs @ e # ys @ [head l, tail l])"
    and p1: "path ?h (head l) xs e" and p2: "path ?h e ys (tail l)"
    using dll by (auto simp: dll_def path_append)
  have disj: "set (head l # xs) \<inter> set (ys @ [tail l]) = {}" using dist by auto
  have a: "?a \<in> set (head l # xs)" by (rule last_in_set) simp
  have b: "?b \<in> set (ys @ [tail l])" by (rule hd_in_set) simp
  have ne: "?a \<noteq> ?b" "e \<noteq> ?a" "e \<noteq> ?b" "?a \<noteq> NULL" "?b \<noteq> NULL" "e \<noteq> NULL"
    using a b dist null by auto
  have rem: "list_remove s e = Inr (s\<lparr>links := ?h'\<rparr>)"
    using ne path_ends [OF p1] path_ends [OF p2] by (intro remove_links) auto
  have xb: "x \<noteq> ?b" if "x \<in> set (head l # xs)" for x
    using that b disj by (metis disjoint_iff)
  have front: "path ?h' (head l) xs ?b"
  proof (rule path_retarget [OF p1])
    show "distinct (head l # xs)" using dist by simp
    show "?b \<notin> set xs" using xb [of ?b] by (metis list.set_intros(2))
    show "next (?h' ?a) = ?b" using ne(1) by simp
    show "prev (?h' ?b) = ?a" by simp
  next
    fix x assume x: "x \<in> set (butlast (head l # xs))"
    have "?a \<notin> set (butlast (head l # xs))"
      using dist by (intro last_notin_butlast) simp_all
    with x have "x \<noteq> ?a" by metis
    with xb [OF in_set_butlastD [OF x]] show "next (?h' x) = next (?h x)" by simp
  next
    fix x assume "x \<in> set xs"
    with xb [of x] show "prev (?h' x) = prev (?h x)" by simp
  qed
  have "path ?h' (head l) (xs @ ys) (tail l)"
  proof (cases ys)
    case Nil
    with front show ?thesis by simp
  next
    case (Cons y zs)
    with p2 have "path ?h y zs (tail l)" by simp
    moreover have "?a \<notin> set (y # zs @ [tail l])"
      using a disj Cons by (metis append_Cons disjoint_iff)
    moreover have "y \<notin> set (zs @ [tail l])" "?b = y" using dist Cons by auto
    ultimately have "path ?h' y zs (tail l)" using path_upd fun_upd_upd by metis
    with Cons front show ?thesis by (simp add: path_append)
  qed
  then have "dll (s\<lparr>links := ?h'\<rparr>) l (xs @ ys)"
    using dist null by (auto simp: dll_def)
  moreover have "only_at s (s\<lparr>links := ?h'\<rparr>) (set (xs @ ys @ [head l, tail l]))"
    using a b by (auto simp: only_at_def)
  ultimately show ?thesis using rem by blast
qed

text \<open>The loops return on a well-formed list.\<close>

lemma elem_find_path:
  "path h p xs t \<Longrightarrow> t \<notin> set xs \<Longrightarrow> elem_find_loop h t e (next (h p)) = Some (e \<in> set xs)"
proof (induction xs arbitrary: p)
  case Nil
  then show ?case by (subst elem_find_loop.simps) simp
next
  case (Cons x xs)
  then show ?case by (subst elem_find_loop.simps) auto
qed

lemma list_len_path:
  "path h p xs t \<Longrightarrow> t \<notin> set xs \<Longrightarrow> list_len_loop h t (next (h p)) n = Some (n + of_nat (length xs))"
proof (induction xs arbitrary: p n)
  case Nil
  then show ?case by (subst list_len_loop.simps) simp
next
  case (Cons x xs)
  then show ?case by (subst list_len_loop.simps) (auto simp: add.assoc)
qed

text \<open>The traversal as a function of the element list.\<close>

primrec traverse :: "(u32 \<Rightarrow> 'arg \<Rightarrow> 'x \<Rightarrow> bool \<times> 'x) \<Rightarrow> 'arg \<Rightarrow> u32 list \<Rightarrow> 'x \<Rightarrow> u32 \<times> 'x" where
  "traverse func arg [] x = (NULL, x)"
| "traverse func arg (e # es) x =
     (let (found, x) = func e arg x in if found then (e, x) else traverse func arg es x)"

lemma traversal_path:
  "path h p xs t \<Longrightarrow> t \<notin> set xs \<Longrightarrow>
     traversal_loop h t func arg (next (h p)) x = Some (traverse func arg xs x)"
proof (induction xs arbitrary: p x)
  case Nil
  then show ?case by (subst traversal_loop.simps) simp
next
  case (Cons y xs)
  then show ?case by (subst traversal_loop.simps) (auto simp: split_beta Let_def)
qed

lemma elem_find_dll: "dll s l xs \<Longrightarrow> elem_find s l e = Inr (e \<in> set xs)"
  using elem_find_path [of "links s" "head l" xs "tail l" e] by (simp add: elem_find_def dll_def)

lemma list_len_dll: "dll s l xs \<Longrightarrow> list_len s l = Inr (of_nat (length xs))"
  using list_len_path [of "links s" "head l" xs "tail l" 0] by (simp add: list_len_def dll_def)

lemma list_empty_dll: "dll s l xs \<Longrightarrow> list_empty s l \<longleftrightarrow> xs = []"
  by (cases xs) (auto simp: list_empty_def dll_def)

lemma list_init_dll:
  "l \<noteq> NULL \<Longrightarrow> l + 8 \<noteq> NULL \<Longrightarrow> dll (list_init s l) l []"
  by (auto simp: dll_def list_init_def head_def tail_def)

lemma list_append_dll:
  assumes "dll s l xs" "e \<notin> set (xs @ [head l, tail l])" "e \<noteq> NULL"
  shows "\<exists>s'. list_append s l e = Inr s' \<and> dll s' l (xs @ [e]) \<and>
           only_at s s' (insert e (set (xs @ [head l, tail l])))"
  using insert_before_dll [of s l xs "[]" "tail l" e] assms by (simp add: list_append_def)

lemma list_push_dll:
  assumes "dll s l xs" "e \<notin> set (xs @ [head l, tail l])" "e \<noteq> NULL"
  shows "\<exists>s'. list_push s l e = Inr s' \<and> dll s' l (e # xs) \<and>
           only_at s s' (insert e (set (xs @ [head l, tail l])))"
proof -
  have "next (links s (head l)) = hd (xs @ [tail l])"
    using assms(1) path_ends by (auto simp: dll_def)
  then show ?thesis
    using insert_before_dll [of s l "[]" xs _ e] assms by (simp add: list_push_def)
qed

lemma list_pop_dll:
  assumes "dll s l (x # xs)"
  shows "\<exists>s'. (list_pop s l :: ('s, u32 \<times> list_state) res) = Inr (x, s') \<and> dll s' l xs \<and> only_at s s' (set (xs @ [head l, tail l]))"
proof -
  obtain s' where s': "(list_remove s x :: ('s, list_state) res) = Inr s'" "dll s' l xs"
      "only_at s s' (set (xs @ [head l, tail l]))"
    using remove_dll [of s l "[]" x xs, where 's = 's] assms by auto
  moreover have "next (links s (head l)) = x" using assms by (simp add: dll_def)
  ultimately show ?thesis by (simp add: list_pop_def)
qed

lemma list_remove_dll:
  assumes dll: "dll s l xs" and e: "e \<in> set xs"
  shows "\<exists>s'. (list_remove s e :: ('s, list_state) res) = Inr s' \<and> dll s' l (remove1 e xs)"
proof -
  from split_list_first [OF e] obtain us vs where xs: "xs = us @ e # vs" "e \<notin> set us" by blast
  then have "remove1 e xs = us @ vs" by (simp add: remove1_append)
  with remove_dll [of s l us e vs, where 's = 's] dll xs(1) show ?thesis by auto
qed

text \<open>Two lists that share no node do not disturb each other.\<close>

lemma only_at_other:
  assumes "dll s l xs" "only_at s s' A" "A \<inter> set (xs @ [head l, tail l]) = {}"
  shows "dll s' l xs"
  using assms(1) by (rule dll_nodes_cong) (use assms(2,3) in \<open>auto simp: only_at_def\<close>)

section \<open>Plain lists\<close>

text \<open>
  What the operations do to the sequence of elements. Popping an empty list follows the null
  link of the tail sentinel. The scheduler and the synchronisation theories keep their
  queues in this form.
\<close>

definition kl_append :: "'e list \<Rightarrow> 'e \<Rightarrow> ('s, 'e list) res" where
  "kl_append xs e = Inr (xs @ [e])"

definition kl_push :: "'e list \<Rightarrow> 'e \<Rightarrow> ('s, 'e list) res" where
  "kl_push xs e = Inr (e # xs)"

definition kl_pop :: "'e list \<Rightarrow> ('s, 'e \<times> 'e list) res" where
  "kl_pop xs = (case xs of [] \<Rightarrow> Inl (Fault ''next'') | x # ys \<Rightarrow> Inr (x, ys))"

definition kl_remove :: "'e list \<Rightarrow> 'e \<Rightarrow> ('s, 'e list) res" where
  "kl_remove xs e = Inr (remove1 e xs)"

definition kl_empty :: "'e list \<Rightarrow> bool" where
  "kl_empty xs \<longleftrightarrow> xs = []"

definition kl_find :: "'e list \<Rightarrow> 'e \<Rightarrow> ('s, bool) res" where
  "kl_find xs e = Inr (e \<in> set xs)"

section \<open>The contract\<close>

primrec append_all :: "('st \<Rightarrow> 'e \<Rightarrow> ('s, 'st) res) \<Rightarrow> 'st \<Rightarrow> 'e list \<Rightarrow> ('s, 'st) res" where
  "append_all app s [] = Inr s"
| "append_all app s (e # es) = bnd (app s e) (\<lambda>s. append_all app s es)"

primrec pop_n :: "('st \<Rightarrow> ('s, 'e \<times> 'st) res) \<Rightarrow> 'st \<Rightarrow> nat \<Rightarrow> ('s, 'e list \<times> 'st) res" where
  "pop_n pop s 0 = Inr ([], s)"
| "pop_n pop s (Suc n) =
     bnd (pop s) (\<lambda>(e, s). bnd (pop_n pop s n) (\<lambda>(es, s). Inr (e # es, s)))"

text \<open>
  \<open>rep s xs\<close>: the queue holds \<open>xs\<close> in state \<open>s\<close>; \<open>fresh xs e\<close>: \<open>e\<close> may be
  added.
\<close>

locale fifo_queue =
  fixes rep :: "'st \<Rightarrow> 'e list \<Rightarrow> bool"
    and fresh :: "'e list \<Rightarrow> 'e \<Rightarrow> bool"
    and app :: "'st \<Rightarrow> 'e \<Rightarrow> ('s, 'st) res"
    and pop :: "'st \<Rightarrow> ('s, 'e \<times> 'st) res"
  assumes app_rep: "rep s xs \<Longrightarrow> fresh xs e \<Longrightarrow> \<exists>s'. app s e = Inr s' \<and> rep s' (xs @ [e])"
    and pop_rep: "rep s (e # xs) \<Longrightarrow> \<exists>s'. pop s = Inr (e, s') \<and> rep s' xs"
begin

lemma append_all_rep:
  "rep s xs \<Longrightarrow> (\<And>us e vs. es = us @ e # vs \<Longrightarrow> fresh (xs @ us) e) \<Longrightarrow>
     \<exists>s'. append_all app s es = Inr s' \<and> rep s' (xs @ es)"
proof (induction es arbitrary: s xs)
  case (Cons e es)
  from Cons.prems(2) [of "[]" e es] obtain s1 where s1: "app s e = Inr s1" "rep s1 (xs @ [e])"
    using app_rep [OF Cons.prems(1)] by auto
  have "fresh ((xs @ [e]) @ us) d" if "es = us @ d # vs" for us d vs
    using Cons.prems(2) [of "e # us" d vs] that by simp
  from Cons.IH [OF s1(2) this] s1 show ?case by auto
qed simp

lemma pop_n_rep:
  "rep s (es @ xs) \<Longrightarrow> \<exists>s'. pop_n pop s (length es) = Inr (es, s') \<and> rep s' xs"
proof (induction es arbitrary: s)
  case (Cons e es)
  from pop_rep [of s e "es @ xs"] Cons.prems obtain s1 where
    s1: "pop s = Inr (e, s1)" "rep s1 (es @ xs)" by auto
  from Cons.IH [OF s1(2)] s1 show ?case by auto
qed simp

text \<open>A queue used with \<open>append\<close> and \<open>pop\<close> is first in, first out.\<close>

lemma fifo:
  assumes "rep s []" "\<And>us e vs. es = us @ e # vs \<Longrightarrow> fresh us e"
  shows "\<exists>s1 s2. append_all app s es = Inr s1 \<and> pop_n pop s1 (length es) = Inr (es, s2) \<and> rep s2 []"
proof -
  from append_all_rep [of s "[]" es] assms obtain s1 where
    s1: "append_all app s es = Inr s1" "rep s1 (es @ [])" by auto
  from pop_n_rep [OF s1(2)] s1 show ?thesis by auto
qed

end

locale kernel_list = fifo_queue rep fresh app pop
  for rep :: "'st \<Rightarrow> 'e list \<Rightarrow> bool"
    and fresh :: "'e list \<Rightarrow> 'e \<Rightarrow> bool"
    and app :: "'st \<Rightarrow> 'e \<Rightarrow> ('s, 'st) res"
    and pop :: "'st \<Rightarrow> ('s, 'e \<times> 'st) res" +
  fixes psh :: "'st \<Rightarrow> 'e \<Rightarrow> ('s, 'st) res"
    and rm :: "'st \<Rightarrow> 'e \<Rightarrow> ('s, 'st) res"
    and emp :: "'st \<Rightarrow> bool"
    and find :: "'st \<Rightarrow> 'e \<Rightarrow> ('s, bool) res"
  assumes psh_rep: "rep s xs \<Longrightarrow> fresh xs e \<Longrightarrow> \<exists>s'. psh s e = Inr s' \<and> rep s' (e # xs)"
    and rm_rep: "rep s xs \<Longrightarrow> e \<in> set xs \<Longrightarrow> \<exists>s'. rm s e = Inr s' \<and> rep s' (remove1 e xs)"
    and emp_rep: "rep s xs \<Longrightarrow> emp s \<longleftrightarrow> xs = []"
    and find_rep: "rep s xs \<Longrightarrow> find s e = Inr (e \<in> set xs)"
begin

lemma psh_pop:
  assumes "rep s xs" "fresh xs e"
  shows "\<exists>s1 s2. psh s e = Inr s1 \<and> pop s1 = Inr (e, s2) \<and> rep s2 xs"
  using psh_rep [OF assms] pop_rep by metis

lemma app_rm:
  assumes "rep s xs" "fresh xs e" "e \<notin> set xs"
  shows "\<exists>s1 s2. app s e = Inr s1 \<and> rm s1 e = Inr s2 \<and> rep s2 xs"
proof -
  from app_rep [OF assms(1,2)] obtain s1 where s1: "app s e = Inr s1" "rep s1 (xs @ [e])" by blast
  from rm_rep [OF s1(2), of e] obtain s2 where "rm s1 e = Inr s2" "rep s2 (remove1 e (xs @ [e]))"
    by auto
  with s1 assms(3) show ?thesis by (auto simp: remove1_append)
qed

end

definition linkable :: "u32 \<Rightarrow> u32 list \<Rightarrow> u32 \<Rightarrow> bool" where
  "linkable l xs e \<longleftrightarrow> e \<notin> set (xs @ [head l, tail l]) \<and> e \<noteq> NULL"

interpretation hl: kernel_list "\<lambda>s. dll s l" "linkable l" "\<lambda>s. list_append s l" "\<lambda>s. list_pop s l"
  "\<lambda>s. list_push s l" list_remove "\<lambda>s. list_empty s l" "\<lambda>s. elem_find s l" for l
proof unfold_locales
  fix s xs e
  assume "dll s l xs" "linkable l xs e"
  then show "\<exists>s'. list_append s l e = Inr s' \<and> dll s' l (xs @ [e])"
    using list_append_dll by (fastforce simp: linkable_def)
next
  fix s xs e
  assume "dll s l xs" "linkable l xs e"
  then show "\<exists>s'. list_push s l e = Inr s' \<and> dll s' l (e # xs)"
    using list_push_dll by (fastforce simp: linkable_def)
next
  fix s e xs
  assume "dll s l (e # xs)"
  then show "\<exists>s'. list_pop s l = Inr (e, s') \<and> dll s' l xs" using list_pop_dll by fastforce
qed (auto simp: list_empty_dll elem_find_dll intro: list_remove_dll)

interpretation pl: kernel_list "\<lambda>s xs. s = xs" "\<lambda>xs e. e \<notin> set xs" kl_append kl_pop kl_push
  kl_remove kl_empty kl_find
  by unfold_locales (auto simp: kl_append_def kl_push_def kl_pop_def kl_remove_def kl_empty_def
      kl_find_def)

lemma distinct_split_linkable:
  assumes "distinct es" "set es \<inter> {NULL, head l, tail l} = {}" "es = us @ e # vs"
  shows "linkable l us e"
  using assms by (auto simp: linkable_def)

text \<open>
  C6: A queue started with \<open>list_init\<close>, filled with \<open>list_append\<close> and drained with
  \<open>list_pop\<close> gives its elements back in order, every call returns, and the list is
  empty and well formed at the end.
\<close>

theorem list_fifo:
  assumes "l \<noteq> NULL" "l + 8 \<noteq> NULL" "distinct es" "set es \<inter> {NULL, head l, tail l} = {}"
  shows "\<exists>s1 s2. (append_all (\<lambda>s. list_append s l) (list_init s l) es :: ('s, list_state) res) = Inr s1 \<and>
           (pop_n (\<lambda>s. list_pop s l) s1 (length es) :: ('s, u32 list \<times> list_state) res) = Inr (es, s2) \<and>
           dll s2 l [] \<and> list_empty s2 l"
proof -
  have "\<exists>s1 s2. (append_all (\<lambda>s. list_append s l) (list_init s l) es :: ('s, list_state) res) = Inr s1 \<and>
      (pop_n (\<lambda>s. list_pop s l) s1 (length es) :: ('s, u32 list \<times> list_state) res) = Inr (es, s2) \<and>
      dll s2 l []"
    by (rule hl.fifo [OF list_init_dll [OF assms(1,2)]]) (rule distinct_split_linkable [OF assms(3,4)])
  then show ?thesis using list_empty_dll by blast
qed

theorem list_fifo_witness:
  "\<exists>s1 s2. (append_all (\<lambda>s. list_append s 0x1000)
              (list_init \<lparr>eflags = 0x202, links = \<lambda>_. \<lparr>prev = 0, next = 0\<rparr>\<rparr> 0x1000)
              [0x2000, 0x3000, 0x2800] :: (unit, list_state) res) = Inr s1 \<and>
     (pop_n (\<lambda>s. list_pop s 0x1000) s1 (length [0x2000 :: u32, 0x3000, 0x2800])
       :: (unit, u32 list \<times> list_state) res) = Inr ([0x2000, 0x3000, 0x2800], s2) \<and>
     dll s2 0x1000 [] \<and> list_empty s2 0x1000"
  by (rule list_fifo) (simp_all add: head_def tail_def)

text \<open>
  On a well-formed list \<open>list_remove\<close> takes out exactly the given element, restores
  the interrupt flag, writes only nodes of that list, and leaves every list that shares no node
  with it well formed with the same elements.
\<close>

theorem list_remove_frame:
  assumes "dll s l (xs @ e # ys)" "dll s l2 zs"
    and "set (xs @ ys @ [head l, tail l]) \<inter> set (zs @ [head l2, tail l2]) = {}"
  shows "\<exists>s'. (list_remove s e :: ('s, list_state) res) = Inr s' \<and> dll s' l (xs @ ys) \<and>
           eflags s' = eflags s \<and> dll s' l2 zs"
proof -
  from remove_dll [OF assms(1)] obtain s' where
    s': "(list_remove s e :: ('s, list_state) res) = Inr s'" "dll s' l (xs @ ys)"
      "only_at s s' (set (xs @ ys @ [head l, tail l]))" by blast
  from only_at_other [OF assms(2) s'(3) assms(3)] s' show ?thesis by (auto simp: only_at_def)
qed

definition two_lists :: list_state where
  "two_lists = list_init (list_init \<lparr>eflags = 0x202, links = \<lambda>_. \<lparr>prev = 0, next = 0\<rparr>\<rparr> 0x1000) 0x1100"

lemma two_lists_dll:
  "\<exists>s. (list_append two_lists 0x1000 0x2000 :: (unit, list_state) res) = Inr s \<and>
     dll s 0x1000 ([] @ 0x2000 # []) \<and> dll s 0x1100 []"
  by (simp add: two_lists_def list_init_def list_append_def list_insert_before_def set_next_def
      set_prev_def dll_def head_def tail_def split_beta)

theorem list_remove_frame_witness:
  "\<exists>s. dll s 0x1000 ([] @ 0x2000 # []) \<and> dll s 0x1100 [] \<and>
     (\<exists>s'. (list_remove s 0x2000 :: (unit, list_state) res) = Inr s' \<and> dll s' 0x1000 ([] @ []) \<and>
        eflags s' = eflags s \<and> dll s' 0x1100 [])"
proof -
  from two_lists_dll obtain s where s: "dll s 0x1000 ([] @ 0x2000 # [])" "dll s 0x1100 []" by blast
  from list_remove_frame [OF s, where 's = unit] s show ?thesis by (auto simp: head_def tail_def)
qed

text \<open>
  \<open>list_traversal\<close> with a callback that leaves the links alone returns, having called
  the callback on the elements in order up to the first one it accepts.
\<close>

theorem list_traversal_in_order:
  assumes "dll s l xs"
  shows "(list_traversal s l func arg x :: ('s, u32 \<times> 'x) res) = Inr (traverse func arg xs x)"
  using assms traversal_path [of "links s" "head l" xs "tail l" func arg x]
  by (auto simp: list_traversal_def list_empty_dll dll_def)

theorem list_traversal_in_order_witness:
  "\<exists>s. dll s 0x1000 [0x2000] \<and>
     (list_traversal s 0x1000 (\<lambda>e arg n. (e = arg, n + 1)) 0x2000 (0::nat) :: (unit, u32 \<times> nat) res)
       = Inr (0x2000, 1)"
proof -
  from two_lists_dll obtain s where s: "dll s 0x1000 [0x2000]" by auto
  from list_traversal_in_order [OF s, where func = "\<lambda>e arg n. (e = arg, n + 1)" and arg = "0x2000"
      and x = "0::nat" and 's = unit] s
  show ?thesis by auto
qed

end
