(* ===== verification/Kstate.thy ===== *)
theory Kstate
  imports Bitmap Klist
begin

unbundle bit_operations_syntax

text \<open>
  The state of the kernel: the structures of \<^verbatim>\<open>include/kernel/thread.h\<close>,
  \<^verbatim>\<open>include/kernel/sync.h\<close>, \<^verbatim>\<open>include/kernel/memory.h\<close>, \<^verbatim>\<open>kernel/memory.c\<close> and
  \<^verbatim>\<open>include/device/ioqueue.h\<close> as records, and one record \<open>kernel\<close> with the globals of the
  modelled files. Objects that the code reaches through pointers are maps from their
  addresses; a lock, semaphore or queue that is a global or a field of another object is named by
  a constructor of \<open>lockp\<close>, \<open>semap\<close> or \<open>ioqp\<close>. A list of threads (through
  \<open>general_tag\<close> or \<open>all_list_tag\<close>) is the list of their PCB addresses, in the form of the
  interpretation \<open>pl\<close> of \<open>kernel_list\<close>. Screen output is not part of the state.

  Physical memory is \<open>pmem\<close>, read in 32-bit words: it holds the page directories and page
  tables. The bytes the kernel keeps elsewhere (bitmaps, freshly cleared pages) are \<open>vmem\<close>, by
  virtual address.
\<close>

section \<open>Tasks\<close>

datatype task_status =
  TASK_RUNNING | TASK_READY | TASK_BLOCKED | TASK_WAITING | TASK_HANGING | TASK_DIED

record virtual_addr =
  vaddr_bitmap :: bitmap
  vaddr_start :: u32

record mem_block_desc =
  block_size :: u32
  block_per_arena :: u32
  free_list :: "u32 list"

record task_struct =
  self_kstack :: u32
  pid :: u16
  status :: task_status
  name :: string
  priority :: u8
  ticks :: u8
  elapsed_ticks :: u32
  fdtable :: "u32 list"
  pgdir :: u32
  userprog_vaddr :: virtual_addr
  u_block_desc :: "mem_block_desc list"
  cwd_inode_nr :: u32
  parent_pid :: u16
  exit_status :: u8
  stack_magic :: u32

text \<open>
  The two frames at the top of a kernel stack: the registers an interrupt saves, and the frame
  \<open>switch_to\<close> pops when the thread first runs.
\<close>

record intr_stack =
  is_vec_no :: u32
  is_edi :: u32
  is_esi :: u32
  is_ebp :: u32
  is_esp_dummy :: u32
  is_ebx :: u32
  is_edx :: u32
  is_ecx :: u32
  is_eax :: u32
  is_gs :: u32
  is_fs :: u32
  is_es :: u32
  is_ds :: u32
  is_err_code :: u32
  is_eip :: u32
  is_cs :: u32
  is_eflags :: u32
  is_esp :: u32
  is_ss :: u32

record thread_stack =
  ts_ebp :: u32
  ts_ebx :: u32
  ts_edi :: u32
  ts_esi :: u32
  ts_eip :: u32
  ts_unused_retaddr :: u32
  ts_function :: u32
  ts_func_arg :: u32

section \<open>Segments\<close>

record TSS =
  tss_backlink :: u32
  tss_esp0 :: u32
  tss_ss0 :: u32
  tss_esp1 :: u32
  tss_ss1 :: u32
  tss_esp2 :: u32
  tss_ss2 :: u32
  tss_cr3 :: u32
  tss_eip :: u32
  tss_eflags :: u32
  tss_eax :: u32
  tss_ecx :: u32
  tss_edx :: u32
  tss_ebx :: u32
  tss_esp :: u32
  tss_ebp :: u32
  tss_esi :: u32
  tss_edi :: u32
  tss_es :: u32
  tss_cs :: u32
  tss_ss :: u32
  tss_ds :: u32
  tss_fs :: u32
  tss_gs :: u32
  tss_ldt :: u32
  tss_trace :: u32
  tss_io_base :: u32

record gdt_desc =
  limit_low_word :: u16
  base_low_word :: u16
  base_mid_byte :: u8
  attr_low_byte :: u8
  limit_high_attr_high :: u8
  base_high_byte :: u8

section \<open>Locks and queues\<close>

datatype ioqp = Kbd_buf | Pipe u32

datatype lockp = Kernel_pool_lock | User_pool_lock | Pid_lock | Console_lock | Ioq_lock ioqp
  | Channel_lock nat

datatype semap = Sema_of lockp | Disk_done nat

record semaphore =
  "value" :: u8
  waiters :: "u32 list"

record lock =
  holder :: u32
  semaphore :: semaphore
  holder_repeat_nr :: u32

record ioqueue =
  producer :: u32
  consumer :: u32
  buf :: "u8 list"
  ihead :: u32
  itail :: u32

section \<open>Memory\<close>

record pool =
  pool_bitmap :: bitmap
  phy_addr_start :: u32
  pool_size :: u32

datatype pool_flags = PF_KERNEL | PF_USER

text \<open>A \<open>struct mem_block_desc *\<close>: null, an entry of \<open>k_block_descs\<close> or of a task's array.\<close>

datatype descp = Desc_null | K_desc nat | U_desc u32 nat

record arena =
  desc :: descp
  cnt :: u32
  large :: bool

section \<open>The kernel\<close>

record kernel =
  flags :: u32
  esp :: u32
  cr3 :: u32
  tss :: TSS
  pmem :: "u32 \<Rightarrow> u32"
  vmem :: bytes
  tasks :: "u32 \<Rightarrow> task_struct"
  thread_ready_list :: "u32 list"
  thread_all_list :: "u32 list"
  main_thread :: u32
  idle_thread :: u32
  pid_bitmap :: bitmap
  pid_start :: u32
  locks :: "lockp \<Rightarrow> lock"
  disk_done :: "nat \<Rightarrow> semaphore"
  ioqs :: "ioqp \<Rightarrow> ioqueue"
  kernel_pool :: pool
  user_pool :: pool
  kernel_vaddr :: virtual_addr
  k_block_descs :: "mem_block_desc list"
  arenas :: "u32 \<Rightarrow> arena"
  kticks :: u32
  thread_stacks :: "u32 \<Rightarrow> thread_stack"
  intr_stacks :: "u32 \<Rightarrow> intr_stack"
  gdt :: "u32 \<Rightarrow> gdt_desc"
  gdtr :: "64 word"
  task_reg :: u16

type_synonym 'a kres = "(kernel, 'a) res"

definition PG_SIZE :: u32 where
  "PG_SIZE = 4096"

definition upd_task :: "kernel \<Rightarrow> u32 \<Rightarrow> (task_struct \<Rightarrow> task_struct) \<Rightarrow> kernel" where
  "upd_task k t f = k\<lparr>tasks := (tasks k)(t := f (tasks k t))\<rparr>"

definition sema_at :: "kernel \<Rightarrow> semap \<Rightarrow> semaphore" where
  "sema_at k p = (case p of Sema_of l \<Rightarrow> semaphore (locks k l) | Disk_done c \<Rightarrow> disk_done k c)"

definition upd_sema :: "kernel \<Rightarrow> semap \<Rightarrow> (semaphore \<Rightarrow> semaphore) \<Rightarrow> kernel" where
  "upd_sema k p f =
     (case p of
        Sema_of l \<Rightarrow> k\<lparr>locks := (locks k)(l := (locks k l)\<lparr>semaphore := f (semaphore (locks k l))\<rparr>)\<rparr>
      | Disk_done c \<Rightarrow> k\<lparr>disk_done := (disk_done k)(c := f (disk_done k c))\<rparr>)"

definition upd_lock :: "kernel \<Rightarrow> lockp \<Rightarrow> (lock \<Rightarrow> lock) \<Rightarrow> kernel" where
  "upd_lock k l f = k\<lparr>locks := (locks k)(l := f (locks k l))\<rparr>"

text \<open>\<open>intr_disable\<close> and \<open>intr_set_status\<close> on the flags of the kernel state.\<close>

definition k_intr_disable :: "kernel \<Rightarrow> intr_status \<times> kernel" where
  "k_intr_disable k = (let (old, e) = intr_disable (flags k) in (old, k\<lparr>flags := e\<rparr>))"

definition k_intr_set_status :: "kernel \<Rightarrow> intr_status \<Rightarrow> kernel" where
  "k_intr_set_status k st = k\<lparr>flags := snd (intr_set_status st (flags k))\<rparr>"

definition intr_off :: "kernel \<Rightarrow> bool" where
  "intr_off k \<longleftrightarrow> intr_get_status (flags k) = INTR_OFF"

definition running_thread :: "kernel \<Rightarrow> u32" where
  "running_thread k = esp k AND 0xfffff000"

definition ASSERT :: "bool \<Rightarrow> string \<Rightarrow> unit kres" where
  "ASSERT b msg = (if b then Inr () else Inl (Panic msg))"

lemma ASSERT_simps [simp]:
  "ASSERT True msg = Inr ()" "ASSERT False msg = Inl (Panic msg)"
  "ASSERT b msg = Inr u \<longleftrightarrow> b"
  by (simp_all add: ASSERT_def)

lemma k_intr_disable_simps [simp]:
  "fst (k_intr_disable k) = intr_get_status (flags k)"
  "snd (k_intr_disable k) = k\<lparr>flags := snd (intr_disable (flags k))\<rparr>"
  by (simp_all add: k_intr_disable_def split_beta)

lemma k_intr_disable_off: "intr_off k \<Longrightarrow> k_intr_disable k = (INTR_OFF, k)"
  by (simp add: intr_off_def k_intr_disable_def intr_disable_def)

lemma sema_at_upd [simp]:
  "sema_at (upd_sema k p f) q = (if p = q then f (sema_at k p) else sema_at k q)"
  by (auto simp: sema_at_def upd_sema_def split: semap.splits)

lemma upd_sema_fields [simp]:
  "flags (upd_sema k p f) = flags k" "esp (upd_sema k p f) = esp k"
  "tasks (upd_sema k p f) = tasks k" "thread_ready_list (upd_sema k p f) = thread_ready_list k"
  "idle_thread (upd_sema k p f) = idle_thread k" "cr3 (upd_sema k p f) = cr3 k"
  "pmem (upd_sema k p f) = pmem k"
  by (simp_all add: upd_sema_def split: semap.splits)

section \<open>The state the loader leaves\<close>

text \<open>
  A page directory at \<open>0x100000\<close> whose entries 0 and 768 share the page table at
  \<open>0x101000\<close>, which maps the low megabyte, and whose last entry maps the directory. The
  stack is the page of the main thread. The witnesses of the development start from it.
\<close>

definition boot_pmem :: "u32 \<Rightarrow> u32" where
  "boot_pmem a =
     (if a = 0x100000 \<or> a = 0x100c00 then 0x101007
      else if a = 0x100ffc then 0x100007
      else if 0x101000 \<le> a \<and> a < 0x101400 then (a - 0x101000) * 1024 OR 7 else 0)"

definition no_bitmap :: bitmap where
  "no_bitmap = \<lparr>btmp_bytes_len = 0, bits = NULL\<rparr>"

definition zero_task :: task_struct where
  "zero_task =
     \<lparr>self_kstack = 0, pid = 0, status = TASK_RUNNING, name = [], priority = 0, ticks = 0,
      elapsed_ticks = 0, fdtable = replicate 8 0, pgdir = NULL,
      userprog_vaddr = \<lparr>vaddr_bitmap = no_bitmap, vaddr_start = 0\<rparr>,
      u_block_desc = replicate 7 \<lparr>block_size = 0, block_per_arena = 0, free_list = []\<rparr>,
      cwd_inode_nr = 0, parent_pid = 0, exit_status = 0, stack_magic = 0\<rparr>"

definition zero_tstack :: thread_stack where
  "zero_tstack = \<lparr>ts_ebp = 0, ts_ebx = 0, ts_edi = 0, ts_esi = 0, ts_eip = 0, ts_unused_retaddr = 0,
     ts_function = 0, ts_func_arg = 0\<rparr>"

definition zero_istack :: intr_stack where
  "zero_istack = \<lparr>is_vec_no = 0, is_edi = 0, is_esi = 0, is_ebp = 0, is_esp_dummy = 0, is_ebx = 0,
     is_edx = 0, is_ecx = 0, is_eax = 0, is_gs = 0, is_fs = 0, is_es = 0, is_ds = 0, is_err_code = 0,
     is_eip = 0, is_cs = 0, is_eflags = 0, is_esp = 0, is_ss = 0\<rparr>"

definition zero_tss :: TSS where
  "zero_tss = \<lparr>tss_backlink = 0, tss_esp0 = 0, tss_ss0 = 0, tss_esp1 = 0, tss_ss1 = 0, tss_esp2 = 0,
     tss_ss2 = 0, tss_cr3 = 0, tss_eip = 0, tss_eflags = 0, tss_eax = 0, tss_ecx = 0, tss_edx = 0,
     tss_ebx = 0, tss_esp = 0, tss_ebp = 0, tss_esi = 0, tss_edi = 0, tss_es = 0, tss_cs = 0,
     tss_ss = 0, tss_ds = 0, tss_fs = 0, tss_gs = 0, tss_ldt = 0, tss_trace = 0, tss_io_base = 0\<rparr>"

definition boot_kernel :: kernel where
  "boot_kernel =
     \<lparr>flags = 0x202, esp = 0xc009ef00, cr3 = 0x100000, tss = zero_tss, pmem = boot_pmem,
      vmem = (\<lambda>_. 0), tasks = (\<lambda>_. zero_task), thread_ready_list = [], thread_all_list = [],
      main_thread = 0xc009e000, idle_thread = NULL, pid_bitmap = no_bitmap, pid_start = 1,
      locks = (\<lambda>_. \<lparr>holder = NULL, semaphore = \<lparr>value = 1, waiters = []\<rparr>, holder_repeat_nr = 0\<rparr>),
      disk_done = (\<lambda>_. \<lparr>value = 0, waiters = []\<rparr>),
      ioqs = (\<lambda>_. \<lparr>producer = NULL, consumer = NULL, buf = replicate 2048 0, ihead = 0, itail = 0\<rparr>),
      kernel_pool = \<lparr>pool_bitmap = no_bitmap, phy_addr_start = 0, pool_size = 0\<rparr>,
      user_pool = \<lparr>pool_bitmap = no_bitmap, phy_addr_start = 0, pool_size = 0\<rparr>,
      kernel_vaddr = \<lparr>vaddr_bitmap = no_bitmap, vaddr_start = 0\<rparr>,
      k_block_descs = [], arenas = (\<lambda>_. \<lparr>desc = Desc_null, cnt = 0, large = False\<rparr>), kticks = 0,
      thread_stacks = (\<lambda>_. zero_tstack), intr_stacks = (\<lambda>_. zero_istack),
      gdt = (\<lambda>_. \<lparr>limit_low_word = 0, base_low_word = 0, base_mid_byte = 0, attr_low_byte = 0,
        limit_high_attr_high = 0, base_high_byte = 0\<rparr>), gdtr = 0, task_reg = 0\<rparr>"

lemma boot_fields [simp]:
  "flags boot_kernel = 0x202" "esp boot_kernel = 0xc009ef00" "cr3 boot_kernel = 0x100000"
  "pmem boot_kernel = boot_pmem" "tasks boot_kernel = (\<lambda>_. zero_task)"
  by (simp_all add: boot_kernel_def)

end
