(* ===== verification/Syscall.thy ===== *)
theory Syscall
  imports Kstate
begin

unbundle bit_operations_syntax

text \<open>
  System calls: the functions of \<^verbatim>\<open>user/syscall.c\<close> that user programs call, the entry \<open>syscall_handler\<close> of
  \<^verbatim>\<open>kernel/kernel.S\<close>, and the table that \<open>syscall_init\<close> of \<^verbatim>\<open>user/syscall-init.c\<close> fills. A call of a
  user program is a \<open>ucall\<close>, a call of a kernel function a \<open>kcall\<close>, each with arguments of the types in its
  prototype; a kernel function in the table is its name, a \<open>sysfn\<close>. What the kernel functions do is the
  argument \<open>run\<close>. The four registers that carry a call are \<open>regs\<close>.
\<close>

section \<open>The numbers\<close>

datatype SYSCALL_NR =
  SYS_GETPID | SYS_WRITE | SYS_MALLOC | SYS_FREE | SYS_FORK | SYS_READ | SYS_PUTCHAR | SYS_CLEAR | SYS_GETCWD |
  SYS_OPEN | SYS_CLOSE | SYS_LSEEK | SYS_UNLINK | SYS_MKDIR | SYS_OPENDIR | SYS_CLOSEDIR | SYS_CHDIR | SYS_RMDIR |
  SYS_READDIR | SYS_REWINDDIR | SYS_STAT | SYS_PS | SYS_EXECV | SYS_WAIT | SYS_EXIT | SYS_PIPE | SYS_FD_REDIRECT |
  SYS_HELP

primrec enum_nr :: "SYSCALL_NR \<Rightarrow> u32" where
  "enum_nr SYS_GETPID = 0"
| "enum_nr SYS_WRITE = 1"
| "enum_nr SYS_MALLOC = 2"
| "enum_nr SYS_FREE = 3"
| "enum_nr SYS_FORK = 4"
| "enum_nr SYS_READ = 5"
| "enum_nr SYS_PUTCHAR = 6"
| "enum_nr SYS_CLEAR = 7"
| "enum_nr SYS_GETCWD = 8"
| "enum_nr SYS_OPEN = 9"
| "enum_nr SYS_CLOSE = 10"
| "enum_nr SYS_LSEEK = 11"
| "enum_nr SYS_UNLINK = 12"
| "enum_nr SYS_MKDIR = 13"
| "enum_nr SYS_OPENDIR = 14"
| "enum_nr SYS_CLOSEDIR = 15"
| "enum_nr SYS_CHDIR = 16"
| "enum_nr SYS_RMDIR = 17"
| "enum_nr SYS_READDIR = 18"
| "enum_nr SYS_REWINDDIR = 19"
| "enum_nr SYS_STAT = 20"
| "enum_nr SYS_PS = 21"
| "enum_nr SYS_EXECV = 22"
| "enum_nr SYS_WAIT = 23"
| "enum_nr SYS_EXIT = 24"
| "enum_nr SYS_PIPE = 25"
| "enum_nr SYS_FD_REDIRECT = 26"
| "enum_nr SYS_HELP = 27"

definition syscall_nr :: u32 where "syscall_nr = 32"

section \<open>The kernel side\<close>

text \<open>The functions in the table, and their calls.\<close>

datatype sysfn =
  Sys_getpid | Sys_write | Sys_malloc | Sys_free | Sys_fork | Sys_read | Sys_putchar | Cls_screen | Sys_getcwd |
  Sys_open | Sys_close | Sys_lseek | Sys_unlink | Sys_mkdir | Sys_opendir | Sys_closedir | Sys_chdir | Sys_rmdir |
  Sys_readdir | Sys_rewinddir | Sys_stat | Sys_ps | Sys_execv | Sys_wait | Sys_exit | Sys_pipe | Sys_fd_redirect |
  Sys_help

datatype kcall =
  K_getpid | K_write u32 u32 u32 | K_malloc u32 | K_free u32 | K_fork | K_read u32 u32 u32 | K_putchar u8 | K_clear |
  K_getcwd u32 u32 | K_open u32 u8 | K_close u32 | K_lseek u32 u32 u8 | K_unlink u32 | K_mkdir u32 | K_opendir u32 |
  K_closedir u32 | K_chdir u32 | K_rmdir u32 | K_readdir u32 | K_rewinddir u32 | K_stat u32 u32 | K_ps |
  K_execv u32 u32 | K_wait u32 | K_exit u32 | K_pipe u32 | K_fd_redirect u32 u32 | K_help

text \<open>
  A function takes its arguments from the stack, where the handler has pushed \<open>edx\<close>, \<open>ecx\<close> and \<open>ebx\<close>; a parameter of
  one byte is the low byte of its slot.
\<close>

primrec apply_fn :: "sysfn \<Rightarrow> u32 \<Rightarrow> u32 \<Rightarrow> u32 \<Rightarrow> kcall" where
  "apply_fn Sys_getpid b c d = K_getpid"
| "apply_fn Sys_write b c d = K_write b c d"
| "apply_fn Sys_malloc b c d = K_malloc b"
| "apply_fn Sys_free b c d = K_free b"
| "apply_fn Sys_fork b c d = K_fork"
| "apply_fn Sys_read b c d = K_read b c d"
| "apply_fn Sys_putchar b c d = K_putchar (ucast b)"
| "apply_fn Cls_screen b c d = K_clear"
| "apply_fn Sys_getcwd b c d = K_getcwd b c"
| "apply_fn Sys_open b c d = K_open b (ucast c)"
| "apply_fn Sys_close b c d = K_close b"
| "apply_fn Sys_lseek b c d = K_lseek b c (ucast d)"
| "apply_fn Sys_unlink b c d = K_unlink b"
| "apply_fn Sys_mkdir b c d = K_mkdir b"
| "apply_fn Sys_opendir b c d = K_opendir b"
| "apply_fn Sys_closedir b c d = K_closedir b"
| "apply_fn Sys_chdir b c d = K_chdir b"
| "apply_fn Sys_rmdir b c d = K_rmdir b"
| "apply_fn Sys_readdir b c d = K_readdir b"
| "apply_fn Sys_rewinddir b c d = K_rewinddir b"
| "apply_fn Sys_stat b c d = K_stat b c"
| "apply_fn Sys_ps b c d = K_ps"
| "apply_fn Sys_execv b c d = K_execv b c"
| "apply_fn Sys_wait b c d = K_wait b"
| "apply_fn Sys_exit b c d = K_exit b"
| "apply_fn Sys_pipe b c d = K_pipe b"
| "apply_fn Sys_fd_redirect b c d = K_fd_redirect b c"
| "apply_fn Sys_help b c d = K_help"

definition sys_getpid :: "kernel \<Rightarrow> u32" where
  "sys_getpid k = scast (pid (tasks k (running_thread k)))"

text \<open>The array \<open>syscall_table\<close>, a map from indices; an entry that was not set is a null pointer.\<close>

definition syscall_init :: "(u32 \<Rightarrow> sysfn option) \<Rightarrow> u32 \<Rightarrow> sysfn option" where
  "syscall_init t = t(
     enum_nr SYS_GETPID \<mapsto> Sys_getpid, enum_nr SYS_WRITE \<mapsto> Sys_write,
     enum_nr SYS_MALLOC \<mapsto> Sys_malloc, enum_nr SYS_FREE \<mapsto> Sys_free, enum_nr SYS_FORK \<mapsto> Sys_fork,
     enum_nr SYS_READ \<mapsto> Sys_read, enum_nr SYS_CLEAR \<mapsto> Cls_screen,
     enum_nr SYS_GETCWD \<mapsto> Sys_getcwd, enum_nr SYS_OPEN \<mapsto> Sys_open,
     enum_nr SYS_CLOSE \<mapsto> Sys_close, enum_nr SYS_LSEEK \<mapsto> Sys_lseek,
     enum_nr SYS_UNLINK \<mapsto> Sys_unlink, enum_nr SYS_MKDIR \<mapsto> Sys_mkdir,
     enum_nr SYS_CHDIR \<mapsto> Sys_chdir, enum_nr SYS_RMDIR \<mapsto> Sys_rmdir, enum_nr SYS_STAT \<mapsto> Sys_stat,
     enum_nr SYS_PS \<mapsto> Sys_ps, enum_nr SYS_READDIR \<mapsto> Sys_readdir,
     enum_nr SYS_PUTCHAR \<mapsto> Sys_putchar, enum_nr SYS_OPENDIR \<mapsto> Sys_opendir,
     enum_nr SYS_CLOSEDIR \<mapsto> Sys_closedir, enum_nr SYS_REWINDDIR \<mapsto> Sys_rewinddir,
     enum_nr SYS_EXECV \<mapsto> Sys_execv, enum_nr SYS_WAIT \<mapsto> Sys_wait, enum_nr SYS_EXIT \<mapsto> Sys_exit,
     enum_nr SYS_PIPE \<mapsto> Sys_pipe, enum_nr SYS_HELP \<mapsto> Sys_help,
     enum_nr SYS_FD_REDIRECT \<mapsto> Sys_fd_redirect)"

record regs =
  r_eax :: u32
  r_ebx :: u32
  r_ecx :: u32
  r_edx :: u32

text \<open>The handler calls through the table without a test of the number; it returns the value in the saved \<open>eax\<close>.\<close>

definition syscall_handler ::
    "(u32 \<Rightarrow> sysfn option) \<Rightarrow> (kcall \<Rightarrow> 's \<Rightarrow> ('s, u32 \<times> 's) res) \<Rightarrow> regs \<Rightarrow> 's \<Rightarrow> ('s, regs \<times> 's) res" where
  "syscall_handler table run r s =
     (case table (r_eax r) of None \<Rightarrow> Inl (Fault ''syscall_table'')
      | Some f \<Rightarrow> bnd (run (apply_fn f (r_ebx r) (r_ecx r) (r_edx r)) s) (\<lambda>(ret, s). Inr (r\<lparr>r_eax := ret\<rparr>, s)))"

section \<open>The user side\<close>

definition syscall0 :: "u32 \<Rightarrow> regs \<Rightarrow> regs" where
  "syscall0 number r = r\<lparr>r_eax := number\<rparr>"

definition syscall1 :: "u32 \<Rightarrow> u32 \<Rightarrow> regs \<Rightarrow> regs" where
  "syscall1 number arg1 r = r\<lparr>r_eax := number, r_ebx := arg1\<rparr>"

definition syscall2 :: "u32 \<Rightarrow> u32 \<Rightarrow> u32 \<Rightarrow> regs \<Rightarrow> regs" where
  "syscall2 number arg1 arg2 r = r\<lparr>r_eax := number, r_ebx := arg1, r_ecx := arg2\<rparr>"

definition syscall3 :: "u32 \<Rightarrow> u32 \<Rightarrow> u32 \<Rightarrow> u32 \<Rightarrow> regs \<Rightarrow> regs" where
  "syscall3 number arg1 arg2 arg3 r = r\<lparr>r_eax := number, r_ebx := arg1, r_ecx := arg2, r_edx := arg3\<rparr>"

text \<open>An operand of one byte sets the low byte of its register.\<close>

definition low_byte :: "u32 \<Rightarrow> u8 \<Rightarrow> u32" where
  "low_byte x c = (x AND NOT 0xff) OR ucast c"

datatype ucall =
  U_getpid | U_write u32 u32 u32 | U_malloc u32 | U_free u32 | U_fork | U_read u32 u32 u32 | U_putchar u8 | U_clear |
  U_getcwd u32 u32 | U_open u32 u8 | U_close u32 | U_lseek u32 u32 u8 | U_unlink u32 | U_mkdir u32 | U_opendir u32 |
  U_closedir u32 | U_chdir u32 | U_rmdir u32 | U_readdir u32 | U_rewinddir u32 | U_stat u32 u32 | U_ps |
  U_execv u32 u32 | U_wait u32 | U_exit u32 | U_pipe u32 | U_fd_redirect u32 u32 | U_help

text \<open>The registers at \<open>int 0x80\<close>.\<close>

primrec stub :: "ucall \<Rightarrow> regs \<Rightarrow> regs" where
  "stub U_getpid r = syscall0 (enum_nr SYS_GETPID) r"
| "stub (U_write x y z) r = syscall3 (enum_nr SYS_WRITE) x y z r"
| "stub (U_malloc x) r = syscall1 (enum_nr SYS_MALLOC) x r"
| "stub (U_free x) r = syscall1 (enum_nr SYS_FREE) x r"
| "stub U_fork r = syscall0 (enum_nr SYS_FORK) r"
| "stub (U_read x y z) r = syscall3 (enum_nr SYS_READ) x y z r"
| "stub (U_putchar x) r = syscall1 (enum_nr SYS_PUTCHAR) (low_byte (r_ebx r) x) r"
| "stub U_clear r = syscall0 (enum_nr SYS_CLEAR) r"
| "stub (U_getcwd x y) r = syscall2 (enum_nr SYS_GETCWD) x y r"
| "stub (U_open x y) r = syscall2 (enum_nr SYS_OPEN) x (low_byte (r_ecx r) y) r"
| "stub (U_close x) r = syscall1 (enum_nr SYS_CLOSE) x r"
| "stub (U_lseek x y z) r = syscall3 (enum_nr SYS_LSEEK) x y (low_byte (r_edx r) z) r"
| "stub (U_unlink x) r = syscall1 (enum_nr SYS_UNLINK) x r"
| "stub (U_mkdir x) r = syscall1 (enum_nr SYS_MKDIR) x r"
| "stub (U_opendir x) r = syscall1 (enum_nr SYS_OPENDIR) x r"
| "stub (U_closedir x) r = syscall1 (enum_nr SYS_CLOSEDIR) x r"
| "stub (U_chdir x) r = syscall1 (enum_nr SYS_CHDIR) x r"
| "stub (U_rmdir x) r = syscall1 (enum_nr SYS_RMDIR) x r"
| "stub (U_readdir x) r = syscall1 (enum_nr SYS_READDIR) x r"
| "stub (U_rewinddir x) r = syscall1 (enum_nr SYS_REWINDDIR) x r"
| "stub (U_stat x y) r = syscall2 (enum_nr SYS_STAT) x y r"
| "stub U_ps r = syscall0 (enum_nr SYS_PS) r"
| "stub (U_execv x y) r = syscall2 (enum_nr SYS_EXECV) x y r"
| "stub (U_wait x) r = syscall1 (enum_nr SYS_WAIT) x r"
| "stub (U_exit x) r = syscall1 (enum_nr SYS_EXIT) x r"
| "stub (U_pipe x) r = syscall1 (enum_nr SYS_PIPE) x r"
| "stub (U_fd_redirect x y) r = syscall2 (enum_nr SYS_FD_REDIRECT) x y r"
| "stub U_help r = syscall0 (enum_nr SYS_HELP) r"

text \<open>The value of the function from \<open>eax\<close>; \<open>read\<close> has no \<open>return\<close>.\<close>

primrec stub_result :: "ucall \<Rightarrow> u32 \<Rightarrow> u32 option" where
  "stub_result U_getpid ret = Some ret"
| "stub_result (U_write x y z) ret = Some ret"
| "stub_result (U_malloc x) ret = Some ret"
| "stub_result (U_free x) ret = None"
| "stub_result U_fork ret = Some (scast (ucast ret :: u16))"
| "stub_result (U_read x y z) ret = None"
| "stub_result (U_putchar x) ret = None"
| "stub_result U_clear ret = None"
| "stub_result (U_getcwd x y) ret = Some ret"
| "stub_result (U_open x y) ret = Some ret"
| "stub_result (U_close x) ret = Some ret"
| "stub_result (U_lseek x y z) ret = Some ret"
| "stub_result (U_unlink x) ret = Some ret"
| "stub_result (U_mkdir x) ret = Some ret"
| "stub_result (U_opendir x) ret = Some ret"
| "stub_result (U_closedir x) ret = Some ret"
| "stub_result (U_chdir x) ret = Some ret"
| "stub_result (U_rmdir x) ret = Some ret"
| "stub_result (U_readdir x) ret = Some ret"
| "stub_result (U_rewinddir x) ret = None"
| "stub_result (U_stat x y) ret = Some ret"
| "stub_result U_ps ret = None"
| "stub_result (U_execv x y) ret = Some ret"
| "stub_result (U_wait x) ret = Some (scast (ucast ret :: u16))"
| "stub_result (U_exit x) ret = None"
| "stub_result (U_pipe x) ret = Some ret"
| "stub_result (U_fd_redirect x y) ret = None"
| "stub_result U_help ret = None"

definition user_call ::
    "(u32 \<Rightarrow> sysfn option) \<Rightarrow> (kcall \<Rightarrow> 's \<Rightarrow> ('s, u32 \<times> 's) res) \<Rightarrow> ucall \<Rightarrow> regs \<Rightarrow> 's \<Rightarrow> ('s, u32 option \<times> 's) res" where
  "user_call table run c r s =
     bnd (syscall_handler table run (stub c r) s) (\<lambda>(r, s). Inr (stub_result c (r_eax r), s))"

section \<open>Every call reaches its function\<close>

text \<open>The kernel function a user program means to call.\<close>

primrec kernel_call :: "ucall \<Rightarrow> kcall" where
  "kernel_call U_getpid = K_getpid"
| "kernel_call (U_write x y z) = K_write x y z"
| "kernel_call (U_malloc x) = K_malloc x"
| "kernel_call (U_free x) = K_free x"
| "kernel_call U_fork = K_fork"
| "kernel_call (U_read x y z) = K_read x y z"
| "kernel_call (U_putchar x) = K_putchar x"
| "kernel_call U_clear = K_clear"
| "kernel_call (U_getcwd x y) = K_getcwd x y"
| "kernel_call (U_open x y) = K_open x y"
| "kernel_call (U_close x) = K_close x"
| "kernel_call (U_lseek x y z) = K_lseek x y z"
| "kernel_call (U_unlink x) = K_unlink x"
| "kernel_call (U_mkdir x) = K_mkdir x"
| "kernel_call (U_opendir x) = K_opendir x"
| "kernel_call (U_closedir x) = K_closedir x"
| "kernel_call (U_chdir x) = K_chdir x"
| "kernel_call (U_rmdir x) = K_rmdir x"
| "kernel_call (U_readdir x) = K_readdir x"
| "kernel_call (U_rewinddir x) = K_rewinddir x"
| "kernel_call (U_stat x y) = K_stat x y"
| "kernel_call U_ps = K_ps"
| "kernel_call (U_execv x y) = K_execv x y"
| "kernel_call (U_wait x) = K_wait x"
| "kernel_call (U_exit x) = K_exit x"
| "kernel_call (U_pipe x) = K_pipe x"
| "kernel_call (U_fd_redirect x y) = K_fd_redirect x y"
| "kernel_call U_help = K_help"

text \<open>
  The results that \<^verbatim>\<open>user/syscall.h\<close> promises: none, a \<open>pid_t\<close> of 16 bits with its sign, or a whole register.
\<close>

datatype result_type = No_result | Pid_result | Word_result

primrec prototype :: "ucall \<Rightarrow> result_type" where
  "prototype U_getpid = Word_result"
| "prototype (U_write x y z) = Word_result"
| "prototype (U_malloc x) = Word_result"
| "prototype (U_free x) = No_result"
| "prototype U_fork = Pid_result"
| "prototype (U_read x y z) = Word_result"
| "prototype (U_putchar x) = No_result"
| "prototype U_clear = No_result"
| "prototype (U_getcwd x y) = Word_result"
| "prototype (U_open x y) = Word_result"
| "prototype (U_close x) = Word_result"
| "prototype (U_lseek x y z) = Word_result"
| "prototype (U_unlink x) = Word_result"
| "prototype (U_mkdir x) = Word_result"
| "prototype (U_opendir x) = Word_result"
| "prototype (U_closedir x) = Word_result"
| "prototype (U_chdir x) = Word_result"
| "prototype (U_rmdir x) = Word_result"
| "prototype (U_readdir x) = Word_result"
| "prototype (U_rewinddir x) = No_result"
| "prototype (U_stat x y) = Word_result"
| "prototype U_ps = No_result"
| "prototype (U_execv x y) = Word_result"
| "prototype (U_wait x) = Pid_result"
| "prototype (U_exit x) = No_result"
| "prototype (U_pipe x) = Word_result"
| "prototype (U_fd_redirect x y) = No_result"
| "prototype U_help = No_result"

primrec as_result :: "result_type \<Rightarrow> u32 \<Rightarrow> u32 option" where
  "as_result No_result ret = None"
| "as_result Pid_result ret = Some (scast (ucast ret :: u16))"
| "as_result Word_result ret = Some ret"

definition is_read :: "ucall \<Rightarrow> bool" where
  "is_read c \<longleftrightarrow> (\<exists>fd dst len. c = U_read fd dst len)"

lemma stub_result_prototype: "stub_result c ret = (if is_read c then None else as_result (prototype c) ret)"
  by (cases c) (simp_all add: is_read_def)

lemma low_byte_back [simp]: "ucast (low_byte x c) = c"
proof (rule bit_word_eqI)
  fix n assume "n < LENGTH(8)"
  then show "bit (ucast (low_byte x c) :: u8) n \<longleftrightarrow> bit c n"
    by (auto simp: low_byte_def bit_simps bit_numeral_rec numeral_eq_Suc less_Suc_eq)
qed

lemma syscall_regs [simp]:
  "r_eax (syscall0 n r) = n" "r_eax (syscall1 n a r) = n" "r_eax (syscall2 n a b r) = n" "r_eax (syscall3 n a b c r) = n"
  "r_ebx (syscall1 n a r) = a" "r_ebx (syscall2 n a b r) = a" "r_ebx (syscall3 n a b c r) = a"
  "r_ecx (syscall2 n a b r) = b" "r_ecx (syscall3 n a b c r) = b" "r_edx (syscall3 n a b c r) = c"
  by (simp_all add: syscall0_def syscall1_def syscall2_def syscall3_def)

lemma stub_dispatch:
  "\<exists>f. syscall_init t (r_eax (stub c r)) = Some f \<and>
     apply_fn f (r_ebx (stub c r)) (r_ecx (stub c r)) (r_edx (stub c r)) = kernel_call c"
  by (cases c) (simp_all add: syscall_init_def)

text \<open>
  C35: Whatever the kernel functions do and whatever the registers held: a function of the user library does what the
  kernel function of its name does with the same arguments, and returns its value as its prototype in \<^verbatim>\<open>user/syscall.h\<close> says,
  except \<open>read\<close>: its prototype promises a value, but it has no \<open>return\<close> and its callers get none.
\<close>

theorem user_call_correct:
  "user_call (syscall_init t) run c r s =
     bnd (run (kernel_call c) s) (\<lambda>(ret, s). Inr (if is_read c then None else as_result (prototype c) ret, s))"
proof -
  obtain f where "syscall_init t (r_eax (stub c r)) = Some f"
    "apply_fn f (r_ebx (stub c r)) (r_ecx (stub c r)) (r_edx (stub c r)) = kernel_call c"
    using stub_dispatch by blast
  then show ?thesis by (simp add: user_call_def syscall_handler_def bnd_assoc split_def stub_result_prototype cong: if_cong)
qed

text \<open>
  A number that is no system call is not refused: the handler jumps through whatever the memory holds, the null pointer for the
  unused entries of the table.
\<close>

lemma syscall_unchecked:
  assumes "27 < r_eax r" "t (r_eax r) = None"
  shows "syscall_handler (syscall_init t) run r s = Inl (Fault ''syscall_table'')"
proof -
  have "r_eax r \<noteq> enum_nr n" for n using assms(1) by (cases n) auto
  then have "syscall_init t (r_eax r) = None" using assms(2) by (simp add: syscall_init_def del: enum_nr.simps)
  then show ?thesis by (simp add: syscall_handler_def)
qed

end
