(* ===== verification/Fsstate.thy ===== *)
theory Fsstate
  imports Klist Bitmap
begin

unbundle bit_operations_syntax

text \<open>
  The state of the file system: the structures of \<^verbatim>\<open>include/fs/\<close> and of
  \<^verbatim>\<open>include/device/ide.h\<close> that it works on, and the disk as an array of sectors. A structure on the
  heap is an entry of a map from its address. \<open>sys_malloc\<close> enters through its answers: \<open>answers\<close>
  lists the addresses that the next requests get (0 is the null pointer, and so is an answer beyond
  the list), and \<open>live\<close> the blocks that were handed out and not yet freed, so that a leak can be
  seen. A buffer that only one call uses is a list of bytes. Screen output is left out.
\<close>

section \<open>Bytes\<close>

text \<open>Words in memory are little-endian.\<close>

definition le32 :: "u32 \<Rightarrow> u8 list" where
  "le32 w = map (\<lambda>i. ucast (drop_bit (8 * i) w)) [0..<4]"

definition word_at :: "u8 list \<Rightarrow> nat \<Rightarrow> u32" where
  "word_at xs i = ucast (xs ! i) OR push_bit 8 (ucast (xs ! (i + 1))) OR
     push_bit 16 (ucast (xs ! (i + 2))) OR push_bit 24 (ucast (xs ! (i + 3)))"

text \<open>\<open>memcpy(buf + off, src, n)\<close> and the \<open>n\<close> bytes at \<open>buf + off\<close>.\<close>

definition overlay :: "'a list \<Rightarrow> nat \<Rightarrow> 'a list \<Rightarrow> 'a list" where
  "overlay xs off ys = take off xs @ ys @ drop (off + length ys) xs"

definition sub :: "'a list \<Rightarrow> nat \<Rightarrow> nat \<Rightarrow> 'a list" where
  "sub xs off n = take n (drop off xs)"

lemma unat_minus_1_u32: "unat (- 1 :: u32) = 4294967295"
  by (simp add: unsigned_minus_1_eq_mask mask_eq_exp_minus_1)

lemma length_le32 [simp]: "length (le32 w) = 4"
  by (simp add: le32_def)

lemma le32_list: "le32 w = [ucast w, ucast (drop_bit 8 w), ucast (drop_bit 16 w), ucast (drop_bit 24 w)]"
  by (simp add: le32_def upt_rec)

lemma word_at_le32: "word_at (xs @ le32 w @ ys) (length xs) = w"
proof -
  have "word_at (xs @ le32 w @ ys) (length xs) = ucast (ucast w :: u8) OR push_bit 8 (ucast (ucast (drop_bit 8 w) :: u8)) OR
      push_bit 16 (ucast (ucast (drop_bit 16 w) :: u8)) OR push_bit 24 (ucast (ucast (drop_bit 24 w) :: u8))"
    by (simp add: word_at_def le32_list nth_append)
  also have "\<dots> = w"
  proof (rule bit_eqI)
    fix n :: nat
    consider "n < 8" | "8 \<le> n" "n < 16" | "16 \<le> n" "n < 24" | "24 \<le> n" by linarith
    then show "bit (ucast (ucast w :: u8) OR push_bit 8 (ucast (ucast (drop_bit 8 w) :: u8)) OR
        push_bit 16 (ucast (ucast (drop_bit 16 w) :: u8)) OR push_bit 24 (ucast (ucast (drop_bit 24 w) :: u8)) :: u32) n = bit w n"
      by cases (auto simp: bit_simps dest: bit_imp_le_length)
  qed
  finally show ?thesis .
qed

lemma length_overlay [simp]: "off + length ys \<le> length xs \<Longrightarrow> length (overlay xs off ys) = length xs"
  by (simp add: overlay_def)

lemma length_sub [simp]: "off + n \<le> length xs \<Longrightarrow> length (sub xs off n) = n"
  by (simp add: sub_def)

lemma sub_overlay_same [simp]: "off + length ys \<le> length xs \<Longrightarrow> sub (overlay xs off ys) off (length ys) = ys"
  by (simp add: sub_def overlay_def)

lemma nth_overlay:
  "off + length ys \<le> length xs \<Longrightarrow> i < length xs \<Longrightarrow>
     overlay xs off ys ! i = (if off \<le> i \<and> i < off + length ys then ys ! (i - off) else xs ! i)"
  by (auto simp: overlay_def nth_append min_def)

lemma sub_overlay_other:
  assumes "off + length ys \<le> length xs" "o' + n \<le> length xs" "o' + n \<le> off \<or> off + length ys \<le> o'"
  shows "sub (overlay xs off ys) o' n = sub xs o' n"
  using assms by (intro nth_equalityI) (auto simp: nth_overlay sub_def)

lemma sub_sub:
  assumes "r + m \<le> n"
  shows "sub (sub xs q n) r m = sub xs (q + r) m"
proof -
  have "min m (n - r) = m" using assms by simp
  then show ?thesis by (simp add: sub_def drop_take add.commute)
qed

section \<open>Structures\<close>

definition MAX_FILES_PER_PART :: u32 where "MAX_FILES_PER_PART = 4096"
definition BITS_PER_SECTOR :: u32 where "BITS_PER_SECTOR = 4096"
definition SECTOR_SIZE :: u32 where "SECTOR_SIZE = 512"
definition BLOCK_SIZE :: u32 where "BLOCK_SIZE = SECTOR_SIZE"
definition MAX_FILES_OPEN :: nat where "MAX_FILES_OPEN = 32"
definition MAX_FILES_OPEN_PER_PROC :: nat where "MAX_FILES_OPEN_PER_PROC = 8"

record super_block =
  sb_magic :: u32
  sb_sec_cnt :: u32
  inode_cnt :: u32
  part_lba_base :: u32
  block_bitmap_lba :: u32
  block_bitmap_secs :: u32
  inode_bitmap_lba :: u32
  inode_bitmap_secs :: u32
  inode_table_lba :: u32
  inode_table_secs :: u32
  data_start_lba :: u32
  root_inode_no :: u32
  dir_entry_size :: u32

record partition =
  start_lba :: u32
  sec_cnt :: u32
  sb :: super_block
  block_bitmap :: bitmap
  inode_map :: bitmap
  open_inodes :: "u32 list"

record inode =
  i_no :: u32
  i_size :: u32
  i_open_cnt :: u32
  write_deny :: bool
  i_sectors :: "u32 list"

record file_struct =
  fd_pos :: u32
  fd_flag :: u32
  fd_inode :: u32

datatype bitmap_type = INODE_BITMAP | BLOCK_BITMAP

record dir =
  dir_inode :: u32
  dir_pose :: u32
  dir_buf :: "u8 list"

text \<open>
  \<open>part\<close> is \<open>cur_part\<close>, \<open>fmem\<close> the memory its bitmaps lie in, \<open>fd_local\<close> the descriptor table of
  the running thread and \<open>cwd_inode_nr\<close> its working directory, \<open>dirs\<close> the directory structures by address, \<open>past_table\<close> the word behind
  the table of files at the place of \<open>file_table[32].fd_inode\<close>.
\<close>

record fsys =
  sectors :: "u32 \<Rightarrow> u8 list"
  fmem :: bytes
  part :: partition
  inodes :: "u32 \<Rightarrow> inode"
  file_table :: "file_struct list"
  fd_local :: "u32 list"
  dirs :: "u32 \<Rightarrow> dir"
  cwd_inode_nr :: u32
  answers :: "u32 list"
  live :: "u32 list"
  past_table :: u32

type_synonym 'a fres = "(fsys, 'a) res"

definition assert_that :: "bool \<Rightarrow> string \<Rightarrow> ('s, unit) res" where
  "assert_that b msg = (if b then Inr () else Inl (Panic msg))"

lemma assert_that_simps [simp]:
  "assert_that True msg = Inr ()" "assert_that False msg = Inl (Panic msg)" "assert_that b msg = Inr u \<longleftrightarrow> b"
  by (simp_all add: assert_that_def)

definition upd_inode :: "fsys \<Rightarrow> u32 \<Rightarrow> (inode \<Rightarrow> inode) \<Rightarrow> fsys" where
  "upd_inode s a f = s\<lparr>inodes := (inodes s)(a := f (inodes s a))\<rparr>"

definition upd_part :: "fsys \<Rightarrow> (partition \<Rightarrow> partition) \<Rightarrow> fsys" where
  "upd_part s f = s\<lparr>part := f (part s)\<rparr>"

definition fs_malloc :: "fsys \<Rightarrow> u32 \<Rightarrow> u32 \<times> fsys" where
  "fs_malloc s sz =
     (case answers s of
        [] \<Rightarrow> (NULL, s)
      | a # as \<Rightarrow> (a, s\<lparr>answers := as, live := (if a = NULL then live s else a # live s)\<rparr>))"

definition fs_free :: "fsys \<Rightarrow> u32 \<Rightarrow> fsys fres" where
  "fs_free s p = bnd (assert_that (p \<noteq> NULL) ''ptr != NULL'') (\<lambda>_. Inr (s\<lparr>live := remove1 p (live s)\<rparr>))"

section \<open>Sectors\<close>

definition max_lba :: u32 where
  "max_lba = 80 * 1024 * 1024 div 512 - 1"

text \<open>
  \<open>ide_read\<close> and \<open>ide_write\<close> as the file system sees them. The driver moves at most 256 sectors
  at a time and checks the first address of every such group.
\<close>

definition groups_ok :: "u32 \<Rightarrow> nat \<Rightarrow> bool" where
  "groups_ok lba n = list_all (\<lambda>c. lba + of_nat (256 * c) \<le> max_lba) [0..<(n + 255) div 256]"

definition disk_read :: "fsys \<Rightarrow> u32 \<Rightarrow> nat \<Rightarrow> u8 list fres" where
  "disk_read s lba n =
     bnd (assert_that (0 < n) ''sec_cnt > 0'') (\<lambda>_.
     bnd (assert_that (groups_ok lba n) ''lba <= max_lba'') (\<lambda>_.
       Inr (concat (map (\<lambda>i. sectors s (lba + of_nat i)) [0..<n]))))"

definition disk_write :: "fsys \<Rightarrow> u32 \<Rightarrow> u8 list \<Rightarrow> nat \<Rightarrow> fsys fres" where
  "disk_write s lba data n =
     bnd (assert_that (0 < n) ''sec_cnt > 0'') (\<lambda>_.
     bnd (assert_that (groups_ok lba n) ''lba <= max_lba'') (\<lambda>_.
       Inr (s\<lparr>sectors := (\<lambda>a. if unat (a - lba) < n then sub data (512 * unat (a - lba)) 512 else sectors s a)\<rparr>)))"

definition disk_ok :: "fsys \<Rightarrow> bool" where
  "disk_ok s \<longleftrightarrow> (\<forall>a. length (sectors s a) = 512)"

section \<open>The disk as an array of bytes\<close>

definition disk_image :: "(u32 \<Rightarrow> u8 list) \<Rightarrow> u32 \<Rightarrow> nat \<Rightarrow> u8 list" where
  "disk_image f lba n = concat (map (\<lambda>i. f (lba + of_nat i)) [0..<n])"

definition written :: "(u32 \<Rightarrow> u8 list) \<Rightarrow> u32 \<Rightarrow> u8 list \<Rightarrow> nat \<Rightarrow> u32 \<Rightarrow> u8 list" where
  "written f lba data n = (\<lambda>a. if unat (a - lba) < n then sub data (512 * unat (a - lba)) 512 else f a)"

lemma image_Suc: "disk_image f lba (Suc n) = disk_image f lba n @ f (lba + of_nat n)"
  by (simp add: disk_image_def)

lemma length_image [simp]: "(\<And>a. length (f a) = 512) \<Longrightarrow> length (disk_image f lba n) = 512 * n"
  by (induction n) (simp_all add: image_Suc, simp add: disk_image_def)

lemma image_nth:
  assumes len: "\<And>a. length (f a) = 512" and p: "p < 512 * n"
  shows "disk_image f lba n ! p = f (lba + of_nat (p div 512)) ! (p mod 512)"
  using p
proof (induction n)
  case (Suc n)
  show ?case
  proof (cases "p < 512 * n")
    case True
    with Suc show ?thesis by (simp add: image_Suc nth_append len)
  next
    case False
    with Suc.prems have "p div 512 = n" by (simp add: div_nat_eqI)
    moreover from this have "p mod 512 = p - 512 * n" by (simp add: modulo_nat_def)
    ultimately show ?thesis using False by (simp add: image_Suc nth_append len)
  qed
qed simp

lemma image_sub:
  assumes len: "\<And>a. length (f a) = 512" and qk: "q + k \<le> n"
  shows "sub (disk_image f lba n) (512 * q) (512 * k) = disk_image f (lba + of_nat q) k"
proof (rule nth_equalityI)
  show "length (sub (disk_image f lba n) (512 * q) (512 * k)) = length (disk_image f (lba + of_nat q) k)"
    using qk by (simp add: len)
  fix p assume "p < length (sub (disk_image f lba n) (512 * q) (512 * k))"
  then have p: "p < 512 * k" using qk by (simp add: len)
  with qk have "512 * q + p < 512 * n" by linarith
  with p show "sub (disk_image f lba n) (512 * q) (512 * k) ! p = disk_image f (lba + of_nat q) k ! p"
    by (simp add: sub_def image_nth [OF len] nth_append len add.assoc)
qed

lemma length_written:
  assumes "\<And>a. length (f a) = 512" "length data = 512 * n"
  shows "length (written f lba data n a) = 512"
proof (cases "unat (a - lba) < n")
  case True
  then have "512 * unat (a - lba) + 512 \<le> length data" using assms(2) by linarith
  with True show ?thesis by (simp add: written_def)
qed (simp add: written_def assms(1))

lemma written_one: "length d = 512 \<Longrightarrow> written f l d 1 = f(l := d)"
  by (auto simp: written_def fun_eq_iff sub_def unsigned_eq_0_iff)

lemma image_written:
  assumes len: "\<And>a. length (f a) = 512" and qk: "q + k \<le> n" "n < 2 ^ 32" and data: "length data = 512 * k"
  shows "disk_image (written f (lba + of_nat q) data k) lba n = overlay (disk_image f lba n) (512 * q) data"
proof (rule nth_equalityI)
  note len' = length_written [of f data k, OF len data]
  have fits: "512 * q + length data \<le> length (disk_image f lba n)" using qk data by (simp add: len)
  show "length (disk_image (written f (lba + of_nat q) data k) lba n) = length (overlay (disk_image f lba n) (512 * q) data)"
    using fits by (simp add: len len')
  fix p assume "p < length (disk_image (written f (lba + of_nat q) data k) lba n)"
  then have p: "p < 512 * n" by (simp add: len')
  let ?a = "lba + of_nat (p div 512) :: u32"
  have d: "p div 512 < n" using p by (simp add: less_mult_imp_div_less mult.commute)
  let ?d = "of_nat (p div 512) - of_nat q :: u32"
  have u2: "unat ?d = p div 512 - q" if "q \<le> p div 512"
  proof -
    have "?d = of_nat (p div 512 - q)" using that by (simp only: of_nat_diff)
    moreover have "p div 512 - q < 2 ^ 32" using d qk by linarith
    ultimately show ?thesis by (simp only: unat_of_nat_u32)
  qed
  have u1: "unat ?d < k \<longleftrightarrow> q \<le> p div 512 \<and> p div 512 < q + k"
  proof (cases "q \<le> p div 512")
    case True
    with u2 show ?thesis by auto
  next
    case False
    then have "unat ?d = 2 ^ 32 - (q - p div 512)"
      using d qk by (simp add: unat_sub_if' unat_of_nat)
    with False qk d show ?thesis by simp
  qed
  show "disk_image (written f (lba + of_nat q) data k) lba n ! p = overlay (disk_image f lba n) (512 * q) data ! p"
  proof (cases "q \<le> p div 512 \<and> p div 512 < q + k")
    case True
    then have r: "512 * q \<le> p" "p < 512 * q + length data" using data by (auto simp: div_less_iff_less_mult less_eq_div_iff_mult_less_eq)
    have "512 * (p div 512 - q) + p mod 512 = p - 512 * q" using True
      by (metis diff_mult_distrib2 mult_div_mod_eq r(1) Nat.add_diff_assoc2 mult_le_mono2)
    moreover have "512 * (p div 512 - q) + 512 \<le> length data" using True data by linarith
    ultimately show ?thesis
      using True r fits p by (simp add: image_nth [OF len'] nth_overlay len) (simp add: written_def u2 sub_def less_diff_conv2 add.commute)
  next
    case False
    then have "\<not> (512 * q \<le> p \<and> p < 512 * q + length data)" using data
      by (auto simp: div_less_iff_less_mult less_eq_div_iff_mult_less_eq)
    with False p fits show ?thesis
      by (simp add: image_nth [OF len'] image_nth [OF len] nth_overlay len) (auto simp: written_def u1)
  qed
qed

lemma overlay_overlay:
  assumes "q + n \<le> length xs" "r + length ys \<le> n"
  shows "overlay xs q (overlay (sub xs q n) r ys) = overlay xs (q + r) ys"
proof (rule nth_equalityI)
  have l: "length (overlay (sub xs q n) r ys) = n" using assms by simp
  show "length (overlay xs q (overlay (sub xs q n) r ys)) = length (overlay xs (q + r) ys)"
    using assms l by simp
  fix i assume "i < length (overlay xs q (overlay (sub xs q n) r ys))"
  then have i: "i < length xs" using assms l by simp
  have s: "sub xs q n ! j = xs ! (q + j)" if "j < n" for j using that assms by (simp add: sub_def)
  show "overlay xs q (overlay (sub xs q n) r ys) ! i = overlay xs (q + r) ys ! i"
    using assms i by (auto simp: nth_overlay s)
qed

lemma disk_read_eq:
  assumes "0 < n" "n \<le> 256" "lba \<le> max_lba"
  shows "disk_read s lba n = Inr (disk_image (sectors s) lba n)"
proof -
  have "(n + 255) div 256 = 1" using assms by simp
  then show ?thesis using assms by (simp add: disk_read_def groups_ok_def disk_image_def)
qed

lemma disk_write_eq:
  assumes "0 < n" "n \<le> 256" "lba \<le> max_lba"
  shows "disk_write s lba data n = Inr (s\<lparr>sectors := written (sectors s) lba data n\<rparr>)"
proof -
  have "(n + 255) div 256 = 1" using assms by simp
  then show ?thesis using assms by (simp add: disk_write_def groups_ok_def written_def)
qed

lemma disk_one:
  assumes "lba \<le> max_lba"
  shows "disk_read s lba 1 = Inr (sectors s lba)"
    "length d = 512 \<Longrightarrow> disk_write s lba d 1 = Inr (s\<lparr>sectors := (sectors s)(lba := d)\<rparr>)"
  using disk_read_eq [of 1 lba s] disk_write_eq [of 1 lba s d] assms written_one [of d "sectors s" lba]
  by (simp_all add: disk_image_def)

lemma disk_ok_written: "disk_ok s \<Longrightarrow> length data = 512 * n \<Longrightarrow> disk_ok (s\<lparr>sectors := written (sectors s) lba data n\<rparr>)"
  by (simp add: disk_ok_def length_written)

end
