(* ===== verification/Inode.thy ===== *)
theory Inode
  imports Fsstate
begin

unbundle bit_operations_syntax

text \<open>
  \<^verbatim>\<open>fs/inode.c\<close> and the three bitmap functions of \<^verbatim>\<open>fs/file.c\<close> that it calls. An i-node is 76
  bytes in the i-node table and may cross a sector boundary. The lemmas follow an i-node to the
  disk and back and through the list of open i-nodes.
\<close>

section \<open>Bitmaps of the partition\<close>

definition inode_bitmap_alloc :: "fsys \<Rightarrow> (u32 \<times> fsys) fres" where
  "inode_bitmap_alloc s =
     bnd (bitmap_scan (fmem s) (inode_map (part s)) 1) (\<lambda>bit_idx.
     if bit_idx = - 1 then Inr (- 1, s)
     else bnd (bitmap_set (fmem s) (inode_map (part s)) bit_idx 1) (\<lambda>m.
          Inr (bit_idx, s\<lparr>fmem := m\<rparr>)))"

definition block_bitmap_alloc :: "fsys \<Rightarrow> (u32 \<times> fsys) fres" where
  "block_bitmap_alloc s =
     bnd (bitmap_scan (fmem s) (block_bitmap (part s)) 1) (\<lambda>bit_idx.
     if bit_idx = - 1 then Inr (- 1, s)
     else bnd (bitmap_set (fmem s) (block_bitmap (part s)) bit_idx 1) (\<lambda>m.
          Inr (data_start_lba (sb (part s)) + bit_idx, s\<lparr>fmem := m\<rparr>)))"

text \<open>The sector of the bitmap that holds bit \<open>bit_idx\<close> goes to the disk.\<close>

definition mem_sector :: "bytes \<Rightarrow> u32 \<Rightarrow> u8 list" where
  "mem_sector m p = map (\<lambda>i. m (p + of_nat i)) [0..<512]"

definition bitmap_sync :: "fsys \<Rightarrow> u32 \<Rightarrow> bitmap_type \<Rightarrow> fsys fres" where
  "bitmap_sync s bit_idx bitmap_type =
     (let off_sec = bit_idx div 4096; off_size = off_sec * BLOCK_SIZE;
          (sec_lba, bitmap_off) =
            (case bitmap_type of
               INODE_BITMAP \<Rightarrow> (inode_bitmap_lba (sb (part s)) + off_sec, bits (inode_map (part s)) + off_size)
             | BLOCK_BITMAP \<Rightarrow> (block_bitmap_lba (sb (part s)) + off_sec, bits (block_bitmap (part s)) + off_size))
      in disk_write s sec_lba (mem_sector (fmem s) bitmap_off) 1)"

definition clear_bit :: "fsys \<Rightarrow> u32 \<Rightarrow> bitmap_type \<Rightarrow> fsys fres" where
  "clear_bit s bit_idx bitmap_type =
     bnd (bitmap_set (fmem s) (case bitmap_type of INODE_BITMAP \<Rightarrow> inode_map (part s)
                                 | BLOCK_BITMAP \<Rightarrow> block_bitmap (part s)) bit_idx 0) (\<lambda>m.
     bitmap_sync (s\<lparr>fmem := m\<rparr>) bit_idx bitmap_type)"

section \<open>I-nodes on the disk\<close>

record inode_pos =
  two_secs :: bool
  sec_lba :: u32
  off_size :: u32

definition sizeof_inode :: u32 where "sizeof_inode = 76"

definition locate_inode :: "partition \<Rightarrow> u32 \<Rightarrow> inode_pos fres" where
  "locate_inode p ino =
     bnd (assert_that (ino < 4096) ''i_no < 4096'') (\<lambda>_.
     let off = ino * sizeof_inode; off_sec = off div 512; off_size_in_sec = off mod 512;
         left_in_sec = 512 - off_size_in_sec
     in Inr \<lparr>two_secs = left_in_sec < sizeof_inode, sec_lba = off_sec + inode_table_lba (sb p),
             off_size = off_size_in_sec\<rparr>)"

text \<open>
  The layout of \<open>struct inode\<close>: four words, the 13 block addresses, and the list element, which is
  null on the disk.
\<close>

definition inode_bytes :: "inode \<Rightarrow> u8 list" where
  "inode_bytes i = le32 (i_no i) @ le32 (i_size i) @ le32 (i_open_cnt i) @
     le32 (if write_deny i then 1 else 0) @ concat (map le32 (i_sectors i)) @ replicate 8 0"

definition inode_of_bytes :: "u8 list \<Rightarrow> inode" where
  "inode_of_bytes b =
     \<lparr>i_no = word_at b 0, i_size = word_at b 4, i_open_cnt = word_at b 8, write_deny = (word_at b 12 \<noteq> 0),
      i_sectors = map (\<lambda>j. word_at b (16 + 4 * j)) [0..<13]\<rparr>"

definition pos_secs :: "inode_pos \<Rightarrow> nat" where
  "pos_secs pos = (if two_secs pos then 2 else 1)"

text \<open>
  The number of the i-node goes through a \<open>uint8_t\<close>. \<open>io_size\<close> is the size of the caller's
  buffer \<open>io_buf\<close>: reading two sectors into a smaller one is a fault.
\<close>

definition inode_sync :: "fsys \<Rightarrow> u32 \<Rightarrow> nat \<Rightarrow> fsys fres" where
  "inode_sync s inode io_size =
     (let ino = (ucast (ucast (i_no (inodes s inode)) :: u8) :: u32)
      in bnd (locate_inode (part s) ino) (\<lambda>pos.
         bnd (assert_that (sec_lba pos \<le> start_lba (part s) + sec_cnt (part s)) ''inode_pos.sec_lba'') (\<lambda>_.
         let pure_inode = (inodes s inode)\<lparr>i_open_cnt := 0, write_deny := False\<rparr>
         in if io_size < 512 * pos_secs pos then Inl (Fault ''io_buf'')
            else bnd (disk_read s (sec_lba pos) (pos_secs pos)) (\<lambda>buf.
            disk_write s (sec_lba pos) (overlay buf (unat (off_size pos)) (inode_bytes pure_inode)) (pos_secs pos)))))"

text \<open>A buffer that the source does not test for null is a fault when it is used.\<close>

definition inode_open :: "fsys \<Rightarrow> u32 \<Rightarrow> (u32 \<times> fsys) fres" where
  "inode_open s ino =
     (case find (\<lambda>a. i_no (inodes s a) = ino) (open_inodes (part s)) of
        Some a \<Rightarrow> Inr (a, upd_inode s a (\<lambda>i. i\<lparr>i_open_cnt := i_open_cnt i + 1\<rparr>))
      | None \<Rightarrow>
          bnd (locate_inode (part s) ino) (\<lambda>pos.
          let (a, s) = fs_malloc s sizeof_inode;
              (inode_buf, s) = fs_malloc s (if two_secs pos then 1024 else 512)
          in bnd (disk_read s (sec_lba pos) (pos_secs pos)) (\<lambda>buf.
             if inode_buf = NULL then Inl (Fault ''inode_buf'')
             else bnd (assert_that (a \<noteq> NULL) ''dst_ != NULL && src_ != NULL'') (\<lambda>_.
             let i = inode_of_bytes (sub buf (unat (off_size pos)) (unat sizeof_inode))
             in bnd (kl_push (open_inodes (part s)) a) (\<lambda>l.
                let s = upd_part (upd_inode s a (\<lambda>_. i\<lparr>i_open_cnt := 1\<rparr>)) (\<lambda>p. p\<lparr>open_inodes := l\<rparr>)
                in bnd (fs_free s inode_buf) (\<lambda>s. Inr (a, s)))))))"

definition inode_close :: "fsys \<Rightarrow> u32 \<Rightarrow> fsys fres" where
  "inode_close s inode =
     (let s = upd_inode s inode (\<lambda>i. i\<lparr>i_open_cnt := i_open_cnt i - 1\<rparr>)
      in if i_open_cnt (inodes s inode) = 0
         then bnd (kl_remove (open_inodes (part s)) inode) (\<lambda>l.
              fs_free (upd_part s (\<lambda>p. p\<lparr>open_inodes := l\<rparr>)) inode)
         else Inr s)"

definition inode_delete :: "fsys \<Rightarrow> u32 \<Rightarrow> fsys fres" where
  "inode_delete s ino =
     bnd (assert_that (ino < 4096) ''i_no < 4096'') (\<lambda>_.
     bnd (locate_inode (part s) ino) (\<lambda>pos.
     bnd (assert_that (sec_lba pos \<le> start_lba (part s) + sec_cnt (part s)) ''i_pos.sec_lba'') (\<lambda>_.
     bnd (disk_read s (sec_lba pos) (pos_secs pos)) (\<lambda>buf.
       disk_write s (sec_lba pos) (overlay buf (unat (off_size pos)) (replicate (unat sizeof_inode) 0))
         (pos_secs pos)))))"

section \<open>Releasing an i-node\<close>

text \<open>The block with address \<open>lba\<close> becomes free in the bitmap, in memory and on the disk.\<close>

definition free_block :: "fsys \<Rightarrow> u32 \<Rightarrow> fsys fres" where
  "free_block s lba =
     (let block_bitmap_idx = lba - data_start_lba (sb (part s))
      in bnd (assert_that (block_bitmap_idx > 0) ''block_bitmap_idx > 0'') (\<lambda>_.
         clear_bit s block_bitmap_idx BLOCK_BITMAP))"

primrec free_blocks :: "fsys \<Rightarrow> u32 list \<Rightarrow> fsys fres" where
  "free_blocks s [] = Inr s"
| "free_blocks s (b # bs) = bnd (if b \<noteq> 0 then free_block s b else Inr s) (\<lambda>s. free_blocks s bs)"

definition words_of :: "u8 list \<Rightarrow> nat \<Rightarrow> u32 list" where
  "words_of b n = map (\<lambda>j. word_at b (4 * j)) [0..<n]"

text \<open>
  The array of 140 addresses: the 12 direct ones, and the ones in the indirect block when there is
  one. The loop over it stops before the last.
\<close>

definition inode_release :: "fsys \<Rightarrow> u32 \<Rightarrow> fsys fres" where
  "inode_release s ino =
     bnd (inode_open s ino) (\<lambda>(inode_to_del, s).
     bnd (assert_that (i_no (inodes s inode_to_del) = ino) ''inode_to_del->i_no == i_no'') (\<lambda>_.
     let direct = take 12 (i_sectors (inodes s inode_to_del)); indirect = i_sectors (inodes s inode_to_del) ! 12
     in bnd (if indirect \<noteq> 0
             then bnd (disk_read s indirect 1) (\<lambda>b.
                  bnd (free_block s indirect) (\<lambda>s. Inr (direct @ words_of b 128, s)))
             else Inr (direct @ replicate 128 0, s)) (\<lambda>(all_blocks, s).
        bnd (free_blocks s (take 139 all_blocks)) (\<lambda>s.
        bnd (clear_bit s ino INODE_BITMAP) (\<lambda>s.
        let (io_buf, s) = fs_malloc s 1024
        in bnd (inode_delete s ino) (\<lambda>s.
           bnd (fs_free s io_buf) (\<lambda>s.
             inode_close s inode_to_del)))))))"

definition inode_init :: "u32 \<Rightarrow> inode" where
  "inode_init ino = \<lparr>i_no = ino, i_size = 0, i_open_cnt = 0, write_deny = False, i_sectors = replicate 13 0\<rparr>"

section \<open>The i-node table\<close>

text \<open>
  The regions of a partition in the order in which \<open>partition_format\<close> lays them out. The i-node
  table has 608 sectors: 4096 times 76 bytes.
\<close>

definition layout_ok :: "partition \<Rightarrow> bool" where
  "layout_ok p \<longleftrightarrow>
     unat (start_lba p) + 2 \<le> unat (block_bitmap_lba (sb p)) \<and>
     unat (block_bitmap_lba (sb p)) + unat (block_bitmap_secs (sb p)) \<le> unat (inode_bitmap_lba (sb p)) \<and>
     unat (inode_bitmap_lba (sb p)) + 1 \<le> unat (inode_table_lba (sb p)) \<and>
     unat (inode_table_lba (sb p)) + 608 \<le> unat (data_start_lba (sb p)) \<and>
     unat (data_start_lba (sb p)) \<le> unat (start_lba p) + unat (sec_cnt p) \<and>
     unat (start_lba p) + unat (sec_cnt p) \<le> unat max_lba"

definition itable :: "fsys \<Rightarrow> u8 list" where
  "itable s = disk_image (sectors s) (inode_table_lba (sb (part s))) 608"

definition slot :: "fsys \<Rightarrow> nat \<Rightarrow> u8 list" where
  "slot s i = sub (itable s) (76 * i) 76"

lemma max_lba_unat: "unat max_lba = 163839"
  by (simp add: max_lba_def)

lemma length_concat_le32 [simp]: "length (concat (map le32 ws)) = 4 * length ws"
  by (induction ws) simp_all

lemma length_inode_bytes: "length (i_sectors i) = 13 \<Longrightarrow> length (inode_bytes i) = 76"
  by (simp add: inode_bytes_def)

lemma concat_le32_nth:
  "j < length ws \<Longrightarrow> word_at (xs @ concat (map le32 ws) @ ys) (length xs + 4 * j) = ws ! j"
proof -
  assume j: "j < length ws"
  let ?pre = "xs @ concat (map le32 (take j ws))"
  have "ws = take j ws @ ws ! j # drop (Suc j) ws" using j by (rule id_take_nth_drop)
  then have "xs @ concat (map le32 ws) @ ys = ?pre @ le32 (ws ! j) @ concat (map le32 (drop (Suc j) ws)) @ ys"
    by (metis append.assoc concat_append list.simps(9) map_append concat.simps(2))
  moreover have "length ?pre = length xs + 4 * j" using j by simp
  ultimately show ?thesis using word_at_le32 [of ?pre "ws ! j"] by metis
qed

lemma inode_bytes_roundtrip:
  assumes "length (i_sectors i) = 13"
  shows "inode_of_bytes (inode_bytes i) = i"
proof -
  let ?b = "inode_bytes i" and ?d = "if write_deny i then 1 else 0 :: u32"
  have b: "?b = concat (map le32 [i_no i, i_size i, i_open_cnt i, ?d]) @ concat (map le32 (i_sectors i)) @ replicate 8 0"
    by (simp add: inode_bytes_def)
  have h: "word_at ?b (4 * j) = [i_no i, i_size i, i_open_cnt i, ?d] ! j" if "j < 4" for j
    using concat_le32_nth [of j "[i_no i, i_size i, i_open_cnt i, ?d]" "[]"] that by (simp add: b)
  have s: "word_at ?b (16 + 4 * j) = i_sectors i ! j" if "j < 13" for j
    using concat_le32_nth [of j "i_sectors i" "concat (map le32 [i_no i, i_size i, i_open_cnt i, ?d])"] that assms
    by (simp add: b)
  have "map (\<lambda>j. word_at ?b (16 + 4 * j)) [0..<13] = i_sectors i"
    using s assms by (intro nth_equalityI) simp_all
  then show ?thesis
    using h [of 0] h [of 1] h [of 2] h [of 3] by (simp add: inode_of_bytes_def)
qed

lemma locate_inode_eq:
  assumes "ino < 4096"
  defines "off \<equiv> 76 * unat ino"
  shows "locate_inode p ino = Inr \<lparr>two_secs = (512 - off mod 512 < 76),
    sec_lba = inode_table_lba (sb p) + of_nat (off div 512), off_size = of_nat (off mod 512)\<rparr>"
proof -
  have i: "unat ino < 4096" using assms(1) by (simp add: word_less_nat_alt)
  then have off: "unat (ino * sizeof_inode) = off" by (simp add: unat_word_ariths sizeof_inode_def off_def mult.commute)
  have d: "ino * sizeof_inode div 512 = of_nat (off div 512)" "ino * sizeof_inode mod 512 = of_nat (off mod 512)"
    using off i by (simp_all add: word_unat_eq_iff unat_div unat_mod off_def)
  have "(512 - of_nat (off mod 512) < sizeof_inode) = (512 - off mod 512 < 76)"
  proof -
    have "off mod 512 \<le> 512" by (simp add: less_imp_le)
    then have "unat (512 - of_nat (off mod 512) :: u32) = 512 - off mod 512"
      by (simp add: unat_sub word_le_nat_alt)
    then show ?thesis by (simp add: word_less_nat_alt sizeof_inode_def)
  qed
  then show ?thesis using assms(1) by (simp add: locate_inode_def d Let_def add.commute)
qed

definition fs_ok :: "fsys \<Rightarrow> bool" where
  "fs_ok s \<longleftrightarrow> disk_ok s \<and> layout_ok (part s)"

text \<open>Two states that differ in the i-node table only, in the slot of \<open>i\<close>.\<close>

definition slot_set :: "fsys \<Rightarrow> nat \<Rightarrow> u8 list \<Rightarrow> fsys \<Rightarrow> bool" where
  "slot_set s i ys s' \<longleftrightarrow> s' = s\<lparr>sectors := sectors s'\<rparr> \<and> fs_ok s' \<and> slot s' i = ys \<and>
     (\<forall>j < 4096. j \<noteq> i \<longrightarrow> slot s' j = slot s j) \<and>
     (\<forall>a. \<not> (inode_table_lba (sb (part s)) \<le> a \<and> a < data_start_lba (sb (part s))) \<longrightarrow> sectors s' a = sectors s a)"

lemma slot_cong:
  assumes "layout_ok (part s)" "part s' = part s" "\<And>c. inode_table_lba (sb (part s)) \<le> c \<Longrightarrow> c < data_start_lba (sb (part s)) \<Longrightarrow> sectors s' c = sectors s c"
  shows "slot s' j = slot s j"
proof -
  have "sectors s' (inode_table_lba (sb (part s)) + of_nat i) = sectors s (inode_table_lba (sb (part s)) + of_nat i)" if "i < 608" for i
  proof (rule assms(3))
    have "unat (inode_table_lba (sb (part s)) + of_nat i) = unat (inode_table_lba (sb (part s))) + i"
      using assms(1) that by (simp add: layout_ok_def max_lba_unat unat_word_ariths)
    then show "inode_table_lba (sb (part s)) \<le> inode_table_lba (sb (part s)) + of_nat i"
      "inode_table_lba (sb (part s)) + of_nat i < data_start_lba (sb (part s))"
      using assms(1) that by (simp_all add: layout_ok_def word_less_nat_alt word_le_nat_alt)
  qed
  then have "itable s' = itable s"
    by (auto simp: itable_def disk_image_def assms(2) intro!: arg_cong [where f = concat])
  then show ?thesis by (simp add: slot_def)
qed

lemma slot_access:
  assumes ok: "fs_ok s" and ino: "ino < 4096" and ys: "length ys = 76"
  shows "\<exists>pos buf s'. locate_inode (part s) ino = Inr pos \<and>
    sec_lba pos \<le> start_lba (part s) + sec_cnt (part s) \<and> disk_read s (sec_lba pos) (pos_secs pos) = Inr buf \<and>
    sub buf (unat (off_size pos)) 76 = slot s (unat ino) \<and>
    disk_write s (sec_lba pos) (overlay buf (unat (off_size pos)) ys) (pos_secs pos) = Inr s' \<and>
    slot_set s (unat ino) ys s' \<and> pos_secs pos = (if 436 < 76 * unat ino mod 512 then 2 else 1)"
proof -
  let ?p = "part s" and ?t = "inode_table_lba (sb (part s))" and ?f = "sectors s"
  define off where "off = 76 * unat ino"
  define q where "q = off div 512"
  define r where "r = off mod 512"
  define k where "k = (if 512 - r < 76 then 2 else 1 :: nat)"
  have i: "unat ino < 4096" using ino by (simp add: word_less_nat_alt)
  have off: "off = 512 * q + r" "r < 512" by (simp_all add: q_def r_def)
  then have k: "r + 76 \<le> 512 * k" "0 < k" "k \<le> 2" by (auto simp: k_def)
  have qk: "q + k \<le> 608" using off i by (auto simp: k_def off_def)
  have len: "length (?f a) = 512" for a using ok by (simp add: fs_ok_def disk_ok_def)
  have lay: "layout_ok ?p" using ok by (simp add: fs_ok_def)
  let ?a = "?t + of_nat q"
  have a: "unat ?a = unat ?t + q" using lay qk k(2) by (simp add: layout_ok_def max_lba_unat unat_word_ariths)
  then have "?a \<le> max_lba" using lay qk k(2) by (simp add: layout_ok_def word_le_nat_alt max_lba_unat)
  have "unat ?a \<le> unat (start_lba ?p) + unat (sec_cnt ?p)" "unat (start_lba ?p) + unat (sec_cnt ?p) < 2 ^ 32"
    using lay qk k(2) by (simp_all add: layout_ok_def a max_lba_unat)
  then have in_part: "?a \<le> start_lba ?p + sec_cnt ?p" by (simp add: word_le_nat_alt unat_word_ariths)
  let ?pos = "\<lparr>two_secs = (512 - r < 76), sec_lba = ?a, off_size = of_nat r\<rparr>"
  have pos: "locate_inode ?p ino = Inr ?pos" "pos_secs ?pos = k" "unat (off_size ?pos) = r"
    using locate_inode_eq [OF ino, of ?p] off(2) by (simp_all add: off_def q_def r_def k_def pos_secs_def)
  let ?buf = "disk_image ?f ?a k"
  let ?new = "overlay ?buf r ys"
  let ?s' = "s\<lparr>sectors := written ?f ?a ?new k\<rparr>"
  have buf: "?buf = sub (itable s) (512 * q) (512 * k)" using image_sub [of ?f, OF len qk] by (simp add: itable_def)
  have lt: "length (itable s) = 512 * 608" by (simp add: itable_def len)
  have new: "length ?new = 512 * k" using k ys by (simp add: len)
  have tab: "itable ?s' = overlay (itable s) off ys"
    using image_written [of ?f, OF len qk _ new, of ?t] overlay_overlay [of "512 * q" "512 * k" "itable s" r ys] qk k ys lt
    by (simp add: itable_def buf off(1))
  have fits: "76 * j + 76 \<le> length (itable s)" if "j < 4096" for j using that lt by simp
  have "disk_ok ?s'" using ok new by (simp add: fs_ok_def disk_ok_written)
  moreover have "slot ?s' (unat ino) = ys"
    using sub_overlay_same [of off ys "itable s"] fits [OF i] ys by (simp add: slot_def tab off_def)
  moreover have "slot ?s' j = slot s j" if "j < 4096" "j \<noteq> unat ino" for j
  proof -
    have "76 * j + 76 \<le> off \<or> off + length ys \<le> 76 * j" using that(2) ys by (auto simp: off_def)
    then show ?thesis
      using sub_overlay_other [of off ys "itable s" "76 * j" 76] fits [OF i] fits [OF that(1)] ys
      by (simp add: slot_def tab off_def)
  qed
  moreover have "sectors ?s' a = ?f a" if out: "\<not> (?t \<le> a \<and> a < data_start_lba (sb ?p))" for a
  proof -
    have "\<not> unat (a - ?a) < k"
    proof
      assume "unat (a - ?a) < k"
      moreover have "a = ?a + of_nat (unat (a - ?a))" by simp
      ultimately obtain d where d: "a = ?a + of_nat d" "d < k" by blast
      then have "unat a = unat ?t + (q + d)" using lay qk a by (simp add: layout_ok_def max_lba_unat unat_word_ariths)
      with out d(2) qk lay show False by (simp add: layout_ok_def word_le_nat_alt word_less_nat_alt)
    qed
    then show ?thesis by (simp add: written_def)
  qed
  ultimately have set: "slot_set s (unat ino) ys ?s'" using lay by (simp add: slot_set_def fs_ok_def)
  have "sub ?buf r 76 = slot s (unat ino)"
    using k sub_sub [of r 76 "512 * k" "itable s" "512 * q"] by (simp add: buf slot_def off_def [symmetric] off(1))
  moreover have "k = (if 436 < 76 * unat ino mod 512 then 2 else 1)" by (simp add: k_def r_def off_def) linarith
  ultimately show ?thesis
    using pos set in_part disk_read_eq [of k ?a s] disk_write_eq [of k ?a s ?new] k \<open>?a \<le> max_lba\<close>
    by (intro exI [of _ ?pos] exI [of _ ?buf] exI [of _ ?s']) simp
qed

lemma u8_of_u32: "unat (ucast (ucast (w :: u32) :: u8) :: u32) = unat w mod 256"
proof -
  have "unat (ucast w :: u8) = unat w mod 256" by (simp add: unsigned_ucast_eq take_bit_eq_mod)
  moreover have "unat (ucast x :: u32) = unat x" for x :: u8
  proof -
    have "unat x < 2 ^ 8" by (rule less_le_trans [OF unsigned_less]) simp
    then show ?thesis by (simp add: unsigned_ucast_eq take_bit_nat_eq_self)
  qed
  ultimately show ?thesis by simp
qed

definition pure_inode :: "inode \<Rightarrow> inode" where
  "pure_inode i = i\<lparr>i_open_cnt := 0, write_deny := False\<rparr>"

lemma inode_sync_slot_step:
  assumes ok: "fs_ok s" and len: "length (i_sectors (inodes s a)) = 13"
    and io: "io_size = 1024 \<or> io_size = 512 \<and> 76 * (unat (i_no (inodes s a)) mod 256) mod 512 \<le> 436"
  shows "\<exists>s'. inode_sync s a io_size = Inr s' \<and>
    slot_set s (unat (i_no (inodes s a)) mod 256) (inode_bytes (pure_inode (inodes s a))) s'"
proof -
  let ?n = "ucast (ucast (i_no (inodes s a)) :: u8) :: u32" and ?i = "pure_inode (inodes s a)"
  have n: "?n < 4096" using u8_of_u32 [of "i_no (inodes s a)"] by (simp add: word_less_nat_alt less_trans [of _ 256])
  have "length (inode_bytes ?i) = 76" using len by (simp add: pure_inode_def length_inode_bytes)
  from slot_access [OF ok n this] io show ?thesis
    by (auto simp: inode_sync_def Let_def u8_of_u32 pure_inode_def split: if_splits)
qed

text \<open>
  With a buffer that holds the one or two sectors of the slot, \<open>inode_sync\<close> writes the i-node, with its open count and its write lock cleared, into exactly one
  slot of the i-node table, even where the slot crosses a sector boundary, and changes nothing else on
  the disk. The slot is the one of the number modulo 256, because the source keeps the
  number in a \<open>uint8_t\<close>: i-node 256 overwrites the root directory's i-node.
\<close>

theorem inode_sync_slot:
  assumes ok: "fs_ok s" and len: "length (i_sectors (inodes s a)) = 13"
    and io: "io_size = 1024 \<or> io_size = 512 \<and> 76 * (unat (i_no (inodes s a)) mod 256) mod 512 \<le> 436"
  shows "\<exists>s'. inode_sync s a io_size = Inr s' \<and>
    slot_set s (unat (i_no (inodes s a)) mod 256) (inode_bytes (pure_inode (inodes s a))) s'"
  using assms by (rule inode_sync_slot_step)

lemma inode_open_disk:
  assumes ok: "fs_ok s" and ino: "ino < 4096" and new: "\<forall>x \<in> set (open_inodes (part s)). i_no (inodes s x) \<noteq> ino"
    and mem: "answers s = b # c # as" "b \<noteq> NULL" "c \<noteq> NULL"
  shows "inode_open s ino =
    Inr (b, s\<lparr>inodes := (inodes s)(b := (inode_of_bytes (slot s (unat ino)))\<lparr>i_open_cnt := 1\<rparr>),
             part := (part s)\<lparr>open_inodes := b # open_inodes (part s)\<rparr>, answers := as, live := b # live s\<rparr>)"
proof -
  have none: "find (\<lambda>x. i_no (inodes s x) = ino) (open_inodes (part s)) = None"
    using new by (auto simp: find_None_iff)
  obtain pos buf where p: "locate_inode (part s) ino = Inr pos" "disk_read s (sec_lba pos) (pos_secs pos) = Inr buf"
    "sub buf (unat (off_size pos)) 76 = slot s (unat ino)"
    using slot_access [OF ok ino, of "replicate 76 0"] by auto
  let ?s = "s\<lparr>answers := as, live := c # b # live s\<rparr>"
  have "disk_read ?s (sec_lba pos) (pos_secs pos) = disk_read s (sec_lba pos) (pos_secs pos)"
    by (simp add: disk_read_def)
  then show ?thesis
    using p mem
    by (simp add: inode_open_def none fs_malloc_def fs_free_def kl_push_def upd_inode_def upd_part_def sizeof_inode_def Let_def)
qed

lemma inode_close_last:
  assumes "i_open_cnt (inodes s a) = 1" "a \<noteq> NULL"
  shows "inode_close s a = Inr (s\<lparr>inodes := (inodes s)(a := (inodes s a)\<lparr>i_open_cnt := 0\<rparr>),
    part := (part s)\<lparr>open_inodes := remove1 a (open_inodes (part s))\<rparr>, live := remove1 a (live s)\<rparr>)"
  using assms by (simp add: inode_close_def upd_inode_def upd_part_def kl_remove_def fs_free_def)

text \<open>
  C19: An i-node with a number below 256 (\<open>inode_locate\<close> truncates the number to 8 bits, see \<^verbatim>\<open>inode.c:46\<close>) that is written back, closed for the last time and opened again comes back from the
  disk as it was, in the block that \<open>sys_malloc\<close> gives for it, with an open count of 1 and no write
  lock. The other slots of the table are as before, and the buffer of the read is freed.
\<close>

theorem inode_roundtrip:
  assumes ok: "fs_ok s" and i: "length (i_sectors (inodes s a)) = 13" "i_no (inodes s a) < 256"
    and op: "i_open_cnt (inodes s a) = 1" "a \<noteq> NULL" "distinct (open_inodes (part s))"
      "\<forall>x \<in> set (open_inodes (part s)). x \<noteq> a \<longrightarrow> i_no (inodes s x) \<noteq> i_no (inodes s a)"
    and mem: "answers s = b # c # as" "b \<noteq> NULL" "c \<noteq> NULL"
  shows "\<exists>s1 s2 s3. inode_sync s a 1024 = Inr s1 \<and> inode_close s1 a = Inr s2 \<and>
    inode_open s2 (i_no (inodes s a)) = Inr (b, s3) \<and>
    inodes s3 b = (inodes s a)\<lparr>i_open_cnt := 1, write_deny := False\<rparr> \<and>
    open_inodes (part s3) = b # remove1 a (open_inodes (part s)) \<and>
    (\<forall>j < 4096. j \<noteq> unat (i_no (inodes s a)) \<longrightarrow> slot s3 j = slot s j) \<and>
    live s3 = b # remove1 a (live s)"
proof -
  let ?n = "i_no (inodes s a)"
  have n: "unat ?n mod 256 = unat ?n" "?n < 4096" using i(2) by (simp_all add: word_less_nat_alt)
  obtain s1 where s1: "inode_sync s a 1024 = Inr s1" "slot_set s (unat ?n) (inode_bytes (pure_inode (inodes s a))) s1"
    using inode_sync_slot_step [OF ok i(1), of 1024] n(1) by auto
  then have eq: "s1 = s\<lparr>sectors := sectors s1\<rparr>" and ok1: "fs_ok s1" by (simp_all add: slot_set_def)
  then have f: "inodes s1 = inodes s" "part s1 = part s" "answers s1 = answers s" "live s1 = live s"
    by (metis fsys.select_convs fsys.surjective fsys.update_convs(1))+
  let ?s2 = "s1\<lparr>inodes := (inodes s1)(a := (inodes s1 a)\<lparr>i_open_cnt := 0\<rparr>),
    part := (part s1)\<lparr>open_inodes := remove1 a (open_inodes (part s1))\<rparr>, live := remove1 a (live s1)\<rparr>"
  have s2: "inode_close s1 a = Inr ?s2" using op by (intro inode_close_last) (simp_all add: f)
  have slots: "slot ?s2 j = slot s1 j" for j by (simp add: slot_def itable_def)
  have ok2: "fs_ok ?s2" using ok1 by (simp add: fs_ok_def disk_ok_def layout_ok_def)
  have "\<forall>x \<in> set (open_inodes (part ?s2)). i_no (inodes ?s2 x) \<noteq> ?n" using op(3,4) by (auto simp: f)
  from inode_open_disk [OF ok2 n(2) this, of b c as] mem slots [of "unat ?n"] obtain s3 where s3: "inode_open ?s2 ?n = Inr (b, s3)"
    "inodes s3 b = (inode_of_bytes (slot s1 (unat ?n)))\<lparr>i_open_cnt := 1\<rparr>" "sectors s3 = sectors s1"
    "part s3 = (part s)\<lparr>open_inodes := b # remove1 a (open_inodes (part s))\<rparr>" "live s3 = b # remove1 a (live s)"
    by (simp add: f)
  have "inode_of_bytes (slot s1 (unat ?n)) = pure_inode (inodes s a)"
    using s1(2) i(1) inode_bytes_roundtrip [of "pure_inode (inodes s a)"] by (simp add: slot_set_def pure_inode_def)
  then have "inodes s3 b = (inodes s a)\<lparr>i_open_cnt := 1, write_deny := False\<rparr>"
    using s3(2) by (simp add: pure_inode_def)
  moreover have "slot s3 j = slot s1 j" for j using s3(3,4) by (simp add: slot_def itable_def f)
  ultimately show ?thesis using s1 s2 s3 by (auto simp: slot_set_def)
qed

text \<open>
  Opening an i-node that is open already shares the structure: the call returns it with its open count one
  higher and touches neither the disk nor the heap, and the matching close restores the state.
\<close>

theorem inode_open_shared:
  assumes a: "a \<in> set (open_inodes (part s))" "i_no (inodes s a) = ino"
    and uniq: "inj_on (\<lambda>x. i_no (inodes s x)) (set (open_inodes (part s)))"
    and cnt: "i_open_cnt (inodes s a) \<noteq> 0"
  shows "\<exists>s1. inode_open s ino = Inr (a, s1) \<and>
    s1 = s\<lparr>inodes := (inodes s)(a := (inodes s a)\<lparr>i_open_cnt := i_open_cnt (inodes s a) + 1\<rparr>)\<rparr> \<and>
    inode_close s1 a = Inr s"
proof -
  obtain b where b: "find (\<lambda>x. i_no (inodes s x) = ino) (open_inodes (part s)) = Some b"
    using a by (cases "find (\<lambda>x. i_no (inodes s x) = ino) (open_inodes (part s))") (auto simp: find_None_iff)
  then have "b \<in> set (open_inodes (part s))" "i_no (inodes s b) = ino" by (auto simp: find_Some_iff)
  then have "b = a" using inj_onD [OF uniq, of b a] a by simp
  with b show ?thesis
    using cnt by (simp add: inode_open_def inode_close_def upd_inode_def)
qed

section \<open>Examples\<close>

definition demo_super :: super_block where
  "demo_super = \<lparr>sb_magic = 0x19590318, sb_sec_cnt = 4000, inode_cnt = 4096, part_lba_base = 100,
     block_bitmap_lba = 102, block_bitmap_secs = 1, inode_bitmap_lba = 103, inode_bitmap_secs = 1,
     inode_table_lba = 104, inode_table_secs = 608, data_start_lba = 712, root_inode_no = 0, dir_entry_size = 24\<rparr>"

definition demo_part :: partition where
  "demo_part = \<lparr>start_lba = 100, sec_cnt = 4000, sb = demo_super,
     block_bitmap = \<lparr>btmp_bytes_len = 512, bits = 0x1000\<rparr>, inode_map = \<lparr>btmp_bytes_len = 512, bits = 0x2000\<rparr>,
     open_inodes = [0x100, 0x200]\<rparr>"

text \<open>Two open i-nodes: the root directory and i-node 7, which crosses no sector; 13 crosses one.\<close>

definition demo_inode :: "u32 \<Rightarrow> inode" where
  "demo_inode ino = (inode_init ino)\<lparr>i_size := 100, i_open_cnt := 1, write_deny := True, i_sectors := 713 # replicate 12 0\<rparr>"

definition demo_fs :: fsys where
  "demo_fs = \<lparr>sectors = (\<lambda>_. replicate 512 0), fmem = (\<lambda>_. 0), part = demo_part,
     inodes = (\<lambda>a. if a = 0x200 then demo_inode 13 else demo_inode 0),
     file_table = replicate 32 \<lparr>fd_pos = 0, fd_flag = 0, fd_inode = 0\<rparr>, fd_local = [0, 1, 2, - 1, - 1, - 1, - 1, - 1],
     dirs = (\<lambda>_. \<lparr>dir_inode = 0, dir_pose = 0, dir_buf = replicate 512 0\<rparr>), cwd_inode_nr = 0,
     answers = [0x300, 0x400, 0x500, 0x600], live = [0x200, 0x100], past_table = 0\<rparr>"

lemma demo_fs_ok: "fs_ok demo_fs"
  by (simp add: fs_ok_def disk_ok_def layout_ok_def demo_fs_def demo_part_def demo_super_def max_lba_unat)

theorem inode_sync_slot_witness:
  "\<exists>s'. inode_sync demo_fs 0x200 1024 = Inr s' \<and>
     slot_set demo_fs (unat (i_no (inodes demo_fs 0x200)) mod 256) (inode_bytes (pure_inode (inodes demo_fs 0x200))) s'"
  by (rule inode_sync_slot [OF demo_fs_ok]) (simp_all add: demo_fs_def demo_inode_def)

theorem inode_roundtrip_witness:
  "\<exists>s1 s2 s3. inode_sync demo_fs 0x200 1024 = Inr s1 \<and> inode_close s1 0x200 = Inr s2 \<and>
     inode_open s2 13 = Inr (0x300, s3) \<and> inodes s3 0x300 = (demo_inode 13)\<lparr>write_deny := False\<rparr>"
proof -
  have d: "inodes demo_fs 0x200 = demo_inode 13" "answers demo_fs = [0x300, 0x400, 0x500, 0x600]"
    "open_inodes (part demo_fs) = [0x100, 0x200]" "inodes demo_fs 0x100 = demo_inode 0"
    by (simp_all add: demo_fs_def demo_part_def)
  have i: "i_no (demo_inode n) = n" "i_open_cnt (demo_inode n) = 1" "length (i_sectors (demo_inode n)) = 13" for n
    by (simp_all add: demo_inode_def inode_init_def)
  from inode_roundtrip [OF demo_fs_ok, of "0x200" "0x300" "0x400" "[0x500, 0x600]"]
  have "\<exists>s1 s2 s3. inode_sync demo_fs 0x200 1024 = Inr s1 \<and> inode_close s1 0x200 = Inr s2 \<and>
     inode_open s2 13 = Inr (0x300, s3) \<and> inodes s3 0x300 = (demo_inode 13)\<lparr>i_open_cnt := 1, write_deny := False\<rparr>"
    by (simp add: d i) blast
  moreover have "(demo_inode 13)\<lparr>i_open_cnt := 1, write_deny := False\<rparr> = (demo_inode 13)\<lparr>write_deny := False\<rparr>"
    by (simp add: demo_inode_def)
  ultimately show ?thesis by simp
qed

theorem inode_open_shared_witness:
  "\<exists>s1. inode_open demo_fs 13 = Inr (0x200, s1) \<and> inode_close s1 0x200 = Inr demo_fs"
proof -
  have "0x200 \<in> set (open_inodes (part demo_fs)) \<and> i_no (inodes demo_fs 0x200) = 13 \<and>
      inj_on (\<lambda>x. i_no (inodes demo_fs x)) (set (open_inodes (part demo_fs))) \<and> i_open_cnt (inodes demo_fs 0x200) \<noteq> 0"
    by (simp add: demo_fs_def demo_part_def demo_inode_def inode_init_def)
  with inode_open_shared [of "0x200" demo_fs 13] show ?thesis by blast
qed

end
