(* ===== verification/File.thy ===== *)
theory File
  imports Inode
begin

unbundle bit_operations_syntax

text \<open>
  \<^verbatim>\<open>fs/file.c\<close>: the table of open files and reading and writing them. A \<open>struct file *\<close> is an index of
  \<open>file_table\<close>. Data that goes to or comes from the caller's buffer is a list of bytes.
\<close>

section \<open>Open files\<close>

definition get_free_slot_in_global :: "fsys \<Rightarrow> u32" where
  "get_free_slot_in_global s =
     (case find (\<lambda>i. fd_inode (file_table s ! i) = NULL) [3..<MAX_FILES_OPEN] of
        None \<Rightarrow> - 1 | Some i \<Rightarrow> of_nat i)"

definition pcb_fd_install :: "fsys \<Rightarrow> u32 \<Rightarrow> u32 \<times> fsys" where
  "pcb_fd_install s global_fd_idx =
     (case find (\<lambda>i. fd_local s ! i = - 1) [2..<MAX_FILES_OPEN_PER_PROC] of
        None \<Rightarrow> (- 1, s) | Some i \<Rightarrow> (of_nat i, s\<lparr>fd_local := (fd_local s)[i := global_fd_idx]\<rparr>))"

definition upd_file :: "fsys \<Rightarrow> nat \<Rightarrow> (file_struct \<Rightarrow> file_struct) \<Rightarrow> fsys" where
  "upd_file s f g = s\<lparr>file_table := (file_table s)[f := g (file_table s ! f)]\<rparr>"

definition O_RDONLY :: u8 where "O_RDONLY = 0"
definition O_WRONLY :: u8 where "O_WRONLY = 1"
definition O_RDWR :: u8 where "O_RDWR = 2"
definition O_CREATE :: u8 where "O_CREATE = 4"

definition file_open :: "fsys \<Rightarrow> u32 \<Rightarrow> u8 \<Rightarrow> (u32 \<times> fsys) fres" where
  "file_open s ino oflags =
     (let fd_idx = get_free_slot_in_global s
      in if fd_idx = - 1 then Inr (- 1, s)
         else bnd (inode_open s ino) (\<lambda>(inode, s).
              let s = upd_file s (unat fd_idx) (\<lambda>f. f\<lparr>fd_inode := inode\<rparr>);
                  s = upd_file s (unat fd_idx) (\<lambda>f. f\<lparr>fd_pos := 0\<rparr>);
                  s = upd_file s (unat fd_idx) (\<lambda>f. f\<lparr>fd_flag := ucast oflags\<rparr>)
              in if oflags AND O_WRONLY \<noteq> 0 \<or> oflags AND O_RDWR \<noteq> 0 then
                   if \<not> write_deny (inodes s inode)
                   then Inr (pcb_fd_install (upd_inode s inode (\<lambda>i. i\<lparr>write_deny := True\<rparr>)) fd_idx)
                   else Inr (- 1, s)
                 else Inr (pcb_fd_install s fd_idx)))"

definition file_close :: "fsys \<Rightarrow> nat option \<Rightarrow> (u32 \<times> fsys) fres" where
  "file_close s f =
     (case f of
        None \<Rightarrow> Inr (- 1, s)
      | Some f \<Rightarrow>
          let inode = fd_inode (file_table s ! f); s = upd_inode s inode (\<lambda>i. i\<lparr>write_deny := False\<rparr>)
          in bnd (inode_close s inode) (\<lambda>s. Inr (0, upd_file s f (\<lambda>f. f\<lparr>fd_inode := NULL\<rparr>))))"

section \<open>Writing\<close>

text \<open>A failing branch of \<open>file_write\<close> returns -1 at once; what it allocated stays allocated.\<close>

datatype 'a step = Next 'a | Return u32 fsys

fun and_then :: "'a step fres \<Rightarrow> ('a \<Rightarrow> 'b step fres) \<Rightarrow> 'b step fres" where
  "and_then (Inl e) g = Inl e"
| "and_then (Inr (Return r s)) g = Inr (Return r s)"
| "and_then (Inr (Next x)) g = g x"

definition set_sector :: "fsys \<Rightarrow> u32 \<Rightarrow> nat \<Rightarrow> u32 \<Rightarrow> fsys" where
  "set_sector s inode j lba = upd_inode s inode (\<lambda>i. i\<lparr>i_sectors := (i_sectors i)[j := lba]\<rparr>)"

text \<open>
  The two loops that give the file blocks \<open>block_idx\<close> to \<open>file_will_use_blocks - 1\<close>, of which
  \<open>n\<close> are left; the addresses of indirect blocks are kept in \<open>all_blocks\<close> only.
\<close>

primrec grow :: "fsys \<Rightarrow> u32 \<Rightarrow> u32 list \<Rightarrow> nat \<Rightarrow> nat \<Rightarrow> (u32 list \<times> fsys) step fres" where
  "grow s inode all_blocks block_idx 0 = Inr (Next (all_blocks, s))"
| "grow s inode all_blocks block_idx (Suc n) =
     bnd (block_bitmap_alloc s) (\<lambda>(block_lba, s).
     if block_lba = - 1 then Inr (Return (- 1) s)
     else bnd (if block_idx < 12 then
                 bnd (assert_that (i_sectors (inodes s inode) ! block_idx = 0) ''i_sectors[block_idx] == 0'') (\<lambda>_.
                 Inr (set_sector s inode block_idx block_lba))
               else Inr s) (\<lambda>s.
          bnd (bitmap_sync s (block_lba - data_start_lba (sb (part s))) BLOCK_BITMAP) (\<lambda>s.
          grow s inode (all_blocks[block_idx := block_lba]) (Suc block_idx) n)))"

text \<open>
  The loop for a file that has indirect blocks already. Its test \<open>if (block_lba = -1)\<close> is an
  assignment, so it gives up after the first block.
\<close>

definition grow_indirect :: "fsys \<Rightarrow> u32 list \<Rightarrow> nat \<Rightarrow> nat \<Rightarrow> (u32 list \<times> fsys) step fres" where
  "grow_indirect s all_blocks block_idx n =
     (if n = 0 then Inr (Next (all_blocks, s))
      else bnd (block_bitmap_alloc s) (\<lambda>(_, s). Inr (Return (- 1) s)))"

text \<open>The block addresses that the write needs, \<open>has\<close> and \<open>will\<close> being the numbers of blocks before and after.\<close>

definition write_blocks :: "fsys \<Rightarrow> u32 \<Rightarrow> nat \<Rightarrow> nat \<Rightarrow> (u32 list \<times> fsys) step fres" where
  "write_blocks s inode has will =
     (let all_blocks = replicate 140 0; secs = i_sectors (inodes s inode)
      in if has = will then
           if has \<le> 12 then Inr (Next (all_blocks[has - 1 := secs ! (has - 1)], s))
           else bnd (assert_that (secs ! 12 \<noteq> 0) ''i_sectors[12] != 0'') (\<lambda>_.
                bnd (disk_read s (secs ! 12) 1) (\<lambda>b.
                Inr (Next (overlay all_blocks 12 (words_of b 128), s))))
         else if will \<le> 12 then
           bnd (assert_that (secs ! (has - 1) \<noteq> 0) ''i_sectors[block_idx] != 0'') (\<lambda>_.
           grow s inode (all_blocks[has - 1 := secs ! (has - 1)]) has (will - has))
         else if has \<le> 12 then
           bnd (assert_that (secs ! (has - 1) \<noteq> 0) ''i_sectors[block_idx] != 0'') (\<lambda>_.
           bnd (block_bitmap_alloc s) (\<lambda>(block_lba, s).
           if block_lba = - 1 then Inr (Return (- 1) s)
           else bnd (assert_that (secs ! 12 = 0) ''i_sectors[12] == 0'') (\<lambda>_.
                and_then (grow (set_sector s inode 12 block_lba) inode
                            (all_blocks[has - 1 := secs ! (has - 1)]) has (will - has)) (\<lambda>(all_blocks, s).
                bnd (disk_write s block_lba (concat (map le32 (drop 12 all_blocks))) 1) (\<lambda>s.
                Inr (Next (all_blocks, s)))))))
         else
           bnd (assert_that (secs ! 12 \<noteq> 0) ''i_sectors[12] != 0'') (\<lambda>_.
           bnd (disk_read s (secs ! 12) 1) (\<lambda>b.
           and_then (grow_indirect s (overlay all_blocks 12 (words_of b 128)) has (will - has)) (\<lambda>(all_blocks, s).
           bnd (disk_write s (secs ! 12) (concat (map le32 (drop 12 all_blocks))) 1) (\<lambda>s.
           Inr (Next (all_blocks, s)))))))"

text \<open>The loop that writes \<open>src\<close>, sector by sector. Only the first sector is read before it is written.\<close>

definition chunk_at :: "u32 \<Rightarrow> nat \<Rightarrow> nat" where
  "chunk_at pos size_left = min size_left (512 - unat (pos mod BLOCK_SIZE))"

lemma chunk_pos: "0 < left \<Longrightarrow> 0 < chunk_at pos left"
proof -
  have "unat (pos mod BLOCK_SIZE) < 512" by (simp add: BLOCK_SIZE_def SECTOR_SIZE_def unat_mod)
  then show "0 < left \<Longrightarrow> 0 < chunk_at pos left" by (simp add: chunk_at_def)
qed

function write_loop :: "fsys \<Rightarrow> nat \<Rightarrow> u32 list \<Rightarrow> u8 list \<Rightarrow> bool \<Rightarrow> fsys fres" where
  "write_loop s f all_blocks src first_write_block =
     (if src = [] then Inr s
      else let inode = fd_inode (file_table s ! f); pos = i_size (inodes s inode);
               sec_lba = all_blocks ! unat (pos div BLOCK_SIZE); chunk = chunk_at pos (length src)
           in bnd (if first_write_block then disk_read s sec_lba 1 else Inr (replicate 512 0)) (\<lambda>io_buf.
              bnd (disk_write s sec_lba (overlay io_buf (unat (pos mod BLOCK_SIZE)) (take chunk src)) 1) (\<lambda>s.
              let s = upd_inode s inode (\<lambda>i. i\<lparr>i_size := i_size i + of_nat chunk\<rparr>);
                  s = upd_file s f (\<lambda>f. f\<lparr>fd_pos := fd_pos f + of_nat chunk\<rparr>)
              in write_loop s f all_blocks (drop chunk src) False)))"
  by pat_completeness auto
termination
  by (relation "measure (\<lambda>(s, f, a, src, b). length src)") (auto simp: chunk_pos)

definition write_first :: "fsys \<Rightarrow> u32 \<Rightarrow> fsys step fres" where
  "write_first s inode =
     (if i_sectors (inodes s inode) ! 0 = 0 then
        bnd (block_bitmap_alloc s) (\<lambda>(block_lba, s).
        if block_lba = - 1 then Inr (Return (- 1) s)
        else let s = set_sector s inode 0 block_lba
             in bnd (bitmap_sync s (block_lba - data_start_lba (sb (part s))) BLOCK_BITMAP) (\<lambda>s. Inr (Next s)))
      else Inr (Next s))"

definition file_write :: "fsys \<Rightarrow> nat \<Rightarrow> u8 list \<Rightarrow> (u32 \<times> fsys) fres" where
  "file_write s f buf =
     (let inode = fd_inode (file_table s ! f); cnt = of_nat (length buf) :: u32
      in if i_size (inodes s inode) + cnt > BLOCK_SIZE * (12 + 128) then Inr (- 1, s)
         else let (io_buf, s) = fs_malloc s BLOCK_SIZE
         in if io_buf = NULL then Inr (- 1, s)
         else let (all_blocks_buf, s) = fs_malloc s (140 * 4)
         in if all_blocks_buf = NULL then Inr (- 1, s)
         else bnd (and_then (write_first s inode) (\<lambda>s.
              let pos = i_size (inodes s inode); has = unat (pos div BLOCK_SIZE + 1);
                  will = unat ((pos + cnt) div BLOCK_SIZE + 1)
              in bnd (assert_that (will \<le> 140) ''file_will_use_blocks <= 140'') (\<lambda>_.
                 and_then (write_blocks s inode has will) (\<lambda>(all_blocks, s).
                 let s = upd_file s f (\<lambda>f. f\<lparr>fd_pos := i_size (inodes s inode) - 1\<rparr>)
                 in bnd (write_loop s f all_blocks buf True) (\<lambda>s.
                    bnd (inode_sync s inode 512) (\<lambda>s.
                    bnd (fs_free s all_blocks_buf) (\<lambda>s.
                    bnd (fs_free s io_buf) (\<lambda>s.
                    Inr (Next (cnt, s)))))))))) (\<lambda>r.
              case r of Return n s \<Rightarrow> Inr (n, s) | Next (n, s) \<Rightarrow> Inr (n, s)))"

section \<open>Reading\<close>

text \<open>
  The addresses of the blocks that a read from block \<open>start\<close> to block \<open>end\<close> uses. Where both are
  direct blocks, the loop stops before the last one.
\<close>

definition read_blocks :: "fsys \<Rightarrow> u32 \<Rightarrow> nat \<Rightarrow> nat \<Rightarrow> u32 list fres" where
  "read_blocks s inode first_idx last_idx =
     (let all_blocks = replicate 140 0; secs = i_sectors (inodes s inode)
      in if first_idx = last_idx then
           if last_idx < 12 then Inr (all_blocks[last_idx := secs ! last_idx])
           else bnd (disk_read s (secs ! 12) 1) (\<lambda>b. Inr (overlay all_blocks 12 (words_of b 128)))
         else if last_idx < 12 then Inr (overlay all_blocks first_idx (sub secs first_idx (last_idx - first_idx)))
         else bnd (assert_that (secs ! 12 \<noteq> 0) ''i_sectors[12] != 0'') (\<lambda>_.
              bnd (disk_read s (secs ! 12) 1) (\<lambda>b.
              let all_blocks = (if first_idx < 12 then overlay all_blocks first_idx (sub secs first_idx (12 - first_idx)) else all_blocks)
              in Inr (overlay all_blocks 12 (words_of b 128)))))"

function read_loop :: "fsys \<Rightarrow> nat \<Rightarrow> u32 list \<Rightarrow> nat \<Rightarrow> (u8 list \<times> fsys) fres" where
  "read_loop s f all_blocks size_left =
     (if size_left = 0 then Inr ([], s)
      else let pos = fd_pos (file_table s ! f); sec_lba = all_blocks ! unat (pos div BLOCK_SIZE);
               chunk = chunk_at pos size_left
           in bnd (disk_read s sec_lba 1) (\<lambda>io_buf.
              bnd (read_loop (upd_file s f (\<lambda>f. f\<lparr>fd_pos := fd_pos f + of_nat chunk\<rparr>)) f all_blocks (size_left - chunk))
                (\<lambda>(rest, s). Inr (sub io_buf (unat (pos mod BLOCK_SIZE)) chunk @ rest, s))))"
  by pat_completeness auto
termination
  by (relation "measure (\<lambda>(s, f, a, n). n)") (auto simp: chunk_pos)

definition file_read :: "fsys \<Rightarrow> nat \<Rightarrow> u32 \<Rightarrow> (u32 \<times> u8 list \<times> fsys) fres" where
  "file_read s f cnt =
     (let inode = fd_inode (file_table s ! f); pos = fd_pos (file_table s ! f); len = i_size (inodes s inode);
          sz = (if pos + cnt > len then len - pos else cnt)
      in if pos + cnt > len \<and> sz = 0 then Inr (- 1, [], s)
         else let (io_buf, s) = fs_malloc s 512
         in if io_buf = NULL then Inr (- 1, [], s)
         else let (all_blocks_buf, s) = fs_malloc s (140 * 4)
         in if all_blocks_buf = NULL then Inr (- 1, [], s)
         else let first_idx = pos div BLOCK_SIZE; last_idx = (pos + sz) div BLOCK_SIZE
         in bnd (assert_that (first_idx < 139 \<and> last_idx < 139) ''block_read_start_idx < 139'') (\<lambda>_.
            bnd (read_blocks s inode (unat first_idx) (unat last_idx)) (\<lambda>all_blocks.
            bnd (read_loop s f all_blocks (unat sz)) (\<lambda>(out, s).
            bnd (fs_free s all_blocks_buf) (\<lambda>s.
            bnd (fs_free s io_buf) (\<lambda>s. Inr (sz, out, s)))))))"

section \<open>Blocks\<close>

definition free_blocks_of :: "fsys \<Rightarrow> nat set" where
  "free_blocks_of s = {b. b < bm_len (block_bitmap (part s)) \<and> \<not> bm_bit (fmem s) (block_bitmap (part s)) b}"

definition block_addr :: "fsys \<Rightarrow> nat \<Rightarrow> u32" where
  "block_addr s b = data_start_lba (sb (part s)) + of_nat b"

text \<open>Every bit of the block bitmap stands for a sector of the disk, and the bitmap fits into its sectors.\<close>

definition blocks_fit :: "partition \<Rightarrow> bool" where
  "blocks_fit p \<longleftrightarrow> bm_wf (block_bitmap p) \<and> bm_len (block_bitmap p) \<le> 4096 * unat (block_bitmap_secs (sb p)) \<and>
     unat (data_start_lba (sb p)) + bm_len (block_bitmap p) \<le> unat max_lba"

definition used_block :: "fsys \<Rightarrow> u32 \<Rightarrow> bool" where
  "used_block s l \<longleftrightarrow> (\<exists>b < bm_len (block_bitmap (part s)). l = block_addr s b \<and> b \<notin> free_blocks_of s)"

definition blocks_ok :: "fsys \<Rightarrow> u32 list \<Rightarrow> bool" where
  "blocks_ok s ls \<longleftrightarrow> distinct ls \<and> (\<forall>l \<in> set ls. used_block s l)"

lemma block_addr_unat:
  assumes "layout_ok (part s)" "blocks_fit (part s)" "b < bm_len (block_bitmap (part s))"
  shows "unat (block_addr s b) = unat (data_start_lba (sb (part s))) + b" "block_addr s b \<le> max_lba"
    "block_addr s b \<noteq> 0" "block_addr s b \<noteq> - 1" "data_start_lba (sb (part s)) \<le> block_addr s b"
proof -
  have b: "unat (data_start_lba (sb (part s))) + b \<le> 163839" "0 < unat (data_start_lba (sb (part s)))"
    using assms by (auto simp: blocks_fit_def layout_ok_def max_lba_unat)
  then show u: "unat (block_addr s b) = unat (data_start_lba (sb (part s))) + b"
    by (simp add: block_addr_def unat_word_ariths)
  show "block_addr s b \<le> max_lba" "data_start_lba (sb (part s)) \<le> block_addr s b"
    using b(1) by (simp_all add: word_le_nat_alt u max_lba_unat)
  show "block_addr s b \<noteq> 0" "block_addr s b \<noteq> - 1" using b u by (auto simp: word_unat_eq_iff [of "block_addr s b"] unat_minus_1_u32)
qed

lemma block_addr_inj:
  assumes "layout_ok (part s)" "blocks_fit (part s)" "b < bm_len (block_bitmap (part s))" "c < bm_len (block_bitmap (part s))"
  shows "block_addr s b = block_addr s c \<longleftrightarrow> b = c"
  using block_addr_unat(1) [OF assms(1,2,3)] block_addr_unat(1) [OF assms(1,2,4)] by (metis add_left_cancel)

lemma block_alloc:
  assumes lay: "layout_ok (part s)" "blocks_fit (part s)" and free: "free_blocks_of s \<noteq> {}"
  shows "\<exists>b m. block_bitmap_alloc s = Inr (block_addr s b, s\<lparr>fmem := m\<rparr>) \<and> b \<in> free_blocks_of s \<and>
    free_blocks_of (s\<lparr>fmem := m\<rparr>) = free_blocks_of s - {b}"
proof -
  let ?b = "block_bitmap (part s)"
  have wf: "bm_wf ?b" using lay by (simp add: blocks_fit_def)
  from free obtain c where "c < bm_len ?b" "\<not> bm_bit (fmem s) ?b c" by (auto simp: free_blocks_of_def)
  from bm.scan_free [OF wf this, where 'a = fsys] obtain b where
    b: "b < bm_len ?b" "(bitmap_scan (fmem s) ?b 1 :: (fsys, u32) res) = Inr (of_nat b)" "\<not> bm_bit (fmem s) ?b b" by auto
  obtain m where m: "(bitmap_set (fmem s) ?b (of_nat b) 1 :: (fsys, bytes) res) = Inr m" using bm.upd_ok by blast
  have b31: "b < 2 ^ 31" using b(1) wf by (simp add: bm_wf_def)
  then have ne: "(of_nat b :: u32) \<noteq> - 1" by (simp add: word_unat_eq_iff unat_minus_1_u32)
  have u: "unat (of_nat b :: u32) = b" using b31 by simp
  have "bm_bit m ?b j \<longleftrightarrow> j = b \<or> bm_bit (fmem s) ?b j" if "j < bm_len ?b" for j
    using bm.upd_used [OF m that] u by auto
  then have "free_blocks_of (s\<lparr>fmem := m\<rparr>) = free_blocks_of s - {b}" by (auto simp: free_blocks_of_def)
  moreover have "b \<in> free_blocks_of s" using b by (simp add: free_blocks_of_def)
  ultimately show ?thesis using b(2) m ne by (auto simp: block_bitmap_alloc_def block_addr_def)
qed

text \<open>The file system below the data: the bitmap of the blocks changes, nothing from the i-node bitmap on.\<close>

definition same_data :: "fsys \<Rightarrow> fsys \<Rightarrow> bool" where
  "same_data s s' \<longleftrightarrow> fs_ok s' \<and> part s' = part s \<and> file_table s' = file_table s \<and> fd_local s' = fd_local s \<and>
     answers s' = answers s \<and> live s' = live s \<and>
     (\<forall>l. inode_bitmap_lba (sb (part s)) \<le> l \<longrightarrow> sectors s' l = sectors s l)"

lemma same_data_trans: "same_data s s1 \<Longrightarrow> same_data s1 s2 \<Longrightarrow> same_data s s2"
  by (simp add: same_data_def)

lemma block_sync:
  assumes ok: "fs_ok s" and fit: "blocks_fit (part s)" and b: "b < bm_len (block_bitmap (part s))"
  shows "\<exists>f. bitmap_sync s (block_addr s b - data_start_lba (sb (part s))) BLOCK_BITMAP = Inr (s\<lparr>sectors := f\<rparr>) \<and>
    same_data s (s\<lparr>sectors := f\<rparr>)"
proof -
  let ?p = "part s"
  let ?l = "block_bitmap_lba (sb ?p) + of_nat b div 4096 :: u32"
  let ?d = "mem_sector (fmem s) (bits (block_bitmap ?p) + of_nat b div 4096 * BLOCK_SIZE)"
  have lay: "layout_ok ?p" using ok by (simp add: fs_ok_def)
  have b32: "b < 2 ^ 32" using b fit by (simp add: blocks_fit_def bm_wf_def)
  have "b div 4096 < unat (block_bitmap_secs (sb ?p))"
    using b fit by (simp add: blocks_fit_def less_mult_imp_div_less mult.commute)
  moreover have "unat (of_nat b div 4096 :: u32) = b div 4096" using b32 by (simp add: unat_div)
  ultimately have l: "unat ?l = unat (block_bitmap_lba (sb ?p)) + b div 4096" "unat ?l < unat (inode_bitmap_lba (sb ?p))"
    using lay by (simp_all add: unat_word_ariths layout_ok_def max_lba_unat)
  then have max: "?l \<le> max_lba" using lay by (simp add: word_le_nat_alt layout_ok_def)
  have len: "length ?d = 512" by (simp add: mem_sector_def)
  let ?s = "s\<lparr>sectors := (sectors s)(?l := ?d)\<rparr>"
  have "bitmap_sync s (block_addr s b - data_start_lba (sb ?p)) BLOCK_BITMAP = Inr ?s"
    using disk_one(2) [OF max len, of s] by (simp add: bitmap_sync_def block_addr_def Let_def)
  moreover have "sectors ?s a = sectors s a" if "inode_bitmap_lba (sb ?p) \<le> a" for a
    using that l(2) by (auto simp: word_le_nat_alt)
  moreover have "fs_ok ?s" using ok len by (simp add: fs_ok_def disk_ok_def)
  ultimately show ?thesis by (intro exI [of _ "(sectors s)(?l := ?d)"]) (simp add: same_data_def)
qed

text \<open>One block is added to the file: the common step of the loops.\<close>

lemma blocks_ok_insert:
  assumes lay: "layout_ok (part s)" "blocks_fit (part s)" and ls: "blocks_ok s ls" and b: "b \<in> free_blocks_of s"
    and s': "part s' = part s" "free_blocks_of s' = free_blocks_of s - {b}"
  shows "blocks_ok s' (ls @ [block_addr s b])" "block_addr s b \<notin> set ls"
proof -
  have a: "block_addr s' = block_addr s" by (simp add: fun_eq_iff block_addr_def s')
  have b': "b < bm_len (block_bitmap (part s))" using b by (simp add: free_blocks_of_def)
  show n: "block_addr s b \<notin> set ls"
    using ls b block_addr_inj [OF lay b'] by (auto simp: blocks_ok_def used_block_def)
  have "used_block s' l" if "used_block s l \<or> l = block_addr s b" for l
    using that b' by (auto simp: used_block_def s' a)
  with ls n show "blocks_ok s' (ls @ [block_addr s b])" by (auto simp: blocks_ok_def)
qed

lemma overlay_Cons:
  "i < length xs \<Longrightarrow> Suc i + length ys \<le> length xs \<Longrightarrow> overlay (xs[i := y]) (Suc i) ys = overlay xs i (y # ys)"
  by (rule nth_equalityI) (auto simp: nth_overlay nth_list_update nth_Cons' le_Suc_eq)

lemma free_finite: "finite (free_blocks_of s)"
  by (simp add: free_blocks_of_def)

lemma grow_direct:
  assumes "fs_ok s" "blocks_fit (part s)" "length (i_sectors (inodes s a)) = 13" "length ab = 140" "idx + m \<le> 12"
    "blocks_ok s ls" "\<And>j. idx \<le> j \<Longrightarrow> j < idx + m \<Longrightarrow> i_sectors (inodes s a) ! j = 0"
    "m \<le> card (free_blocks_of s)"
  shows "\<exists>new s'. length new = m \<and> grow s a ab idx m = Inr (Next (overlay ab idx new, s')) \<and>
    inodes s' = (inodes s)(a := (inodes s a)\<lparr>i_sectors := overlay (i_sectors (inodes s a)) idx new\<rparr>) \<and>
    blocks_ok s' (ls @ new) \<and> same_data s s' \<and> card (free_blocks_of s') = card (free_blocks_of s) - m"
  using assms
proof (induction m arbitrary: s ab idx ls)
  case 0
  then show ?case by (intro exI [of _ "[]"] exI [of _ s]) (simp add: overlay_def same_data_def)
next
  case (Suc m)
  let ?p = "part s" and ?i = "inodes s a"
  have lay: "layout_ok ?p" using Suc.prems(1) by (simp add: fs_ok_def)
  have "free_blocks_of s \<noteq> {}" using Suc.prems(8) by auto
  from block_alloc [OF lay Suc.prems(2) this] obtain b m' where
    b: "block_bitmap_alloc s = Inr (block_addr s b, s\<lparr>fmem := m'\<rparr>)" "b \<in> free_blocks_of s"
      "free_blocks_of (s\<lparr>fmem := m'\<rparr>) = free_blocks_of s - {b}" by blast
  have b': "b < bm_len (block_bitmap ?p)" using b(2) by (simp add: free_blocks_of_def)
  let ?l = "block_addr s b"
  let ?s1 = "set_sector (s\<lparr>fmem := m'\<rparr>) a idx ?l"
  have f1: "part ?s1 = ?p" "inodes ?s1 = (inodes s)(a := ?i\<lparr>i_sectors := (i_sectors ?i)[idx := ?l]\<rparr>)"
    "sectors ?s1 = sectors s" by (simp_all add: set_sector_def upd_inode_def)
  have ok1: "fs_ok ?s1" using Suc.prems(1) f1 by (simp add: fs_ok_def disk_ok_def)
  have fr1: "free_blocks_of ?s1 = free_blocks_of s - {b}" using b(3) by (simp add: free_blocks_of_def f1 set_sector_def upd_inode_def)
  have a1: "block_addr ?s1 b = ?l" by (simp add: block_addr_def set_sector_def upd_inode_def)
  from block_sync [of ?s1 b] ok1 Suc.prems(2) b' a1 obtain f where
    sy: "bitmap_sync ?s1 (?l - data_start_lba (sb ?p)) BLOCK_BITMAP = Inr (?s1\<lparr>sectors := f\<rparr>)"
      "same_data ?s1 (?s1\<lparr>sectors := f\<rparr>)" by (auto simp: f1)
  let ?s2 = "?s1\<lparr>sectors := f\<rparr>"
  have f2: "part ?s2 = ?p" "inodes ?s2 = inodes ?s1" "free_blocks_of ?s2 = free_blocks_of s - {b}"
    using fr1 by (simp_all add: f1 free_blocks_of_def)
  have sd: "same_data s ?s2" using sy(2) by (simp add: same_data_def f1 set_sector_def upd_inode_def)
  have i2: "i_sectors (inodes ?s2 a) = (i_sectors ?i)[idx := ?l]" by (simp add: f2 f1)
  have ok2: "fs_ok ?s2" using sy(2) by (simp add: same_data_def)
  have "blocks_ok ?s2 (ls @ [?l])" by (rule blocks_ok_insert [OF lay Suc.prems(2,6) b(2) f2(1,3)])
  moreover have c2: "card (free_blocks_of ?s2) = card (free_blocks_of s) - 1"
    using b(2) free_finite by (simp add: f2(3))
  moreover have "m \<le> card (free_blocks_of ?s2)" using c2 Suc.prems(8) by simp
  moreover have "length (i_sectors (inodes ?s2 a)) = 13" "blocks_fit (part ?s2)" using Suc.prems(2,3) i2 f2(1) by simp_all
  moreover have "i_sectors (inodes ?s2 a) ! j = 0" if "Suc idx \<le> j" "j < Suc idx + m" for j
    using that Suc.prems(7) [of j] unfolding i2 by simp
  ultimately have "\<exists>new s'. length new = m \<and>
    grow ?s2 a (ab[idx := ?l]) (Suc idx) m = Inr (Next (overlay (ab[idx := ?l]) (Suc idx) new, s')) \<and>
    inodes s' = (inodes ?s2)(a := (inodes ?s2 a)\<lparr>i_sectors := overlay (i_sectors (inodes ?s2 a)) (Suc idx) new\<rparr>) \<and>
    blocks_ok s' ((ls @ [?l]) @ new) \<and> same_data ?s2 s' \<and> card (free_blocks_of s') = card (free_blocks_of ?s2) - m"
    using Suc.prems(4,5) by (intro Suc.IH ok2) simp_all
  then obtain new s' where IH: "length new = m"
    "grow ?s2 a (ab[idx := ?l]) (Suc idx) m = Inr (Next (overlay (ab[idx := ?l]) (Suc idx) new, s'))"
    "inodes s' = (inodes ?s2)(a := (inodes ?s2 a)\<lparr>i_sectors := overlay (i_sectors (inodes ?s2 a)) (Suc idx) new\<rparr>)"
    "blocks_ok s' ((ls @ [?l]) @ new)" "same_data ?s2 s'" "card (free_blocks_of s') = card (free_blocks_of ?s2) - m"
    by blast
  have "grow s a ab idx (Suc m) = grow ?s2 a (ab[idx := ?l]) (Suc idx) m"
    using b(1) sy(1) Suc.prems(5) Suc.prems(7) [of idx] block_addr_unat(4) [OF lay Suc.prems(2) b'] by (simp add: f1)
  moreover have "overlay (ab[idx := ?l]) (Suc idx) new = overlay ab idx (?l # new)"
    "overlay ((i_sectors ?i)[idx := ?l]) (Suc idx) new = overlay (i_sectors ?i) idx (?l # new)"
    using Suc.prems(3,4,5) IH(1) by (simp_all add: overlay_Cons)
  ultimately show ?case
    using IH i2 f2(2) f1(2) c2 same_data_trans [OF sd IH(5)]
    by (intro exI [of _ "?l # new"] exI [of _ s']) simp
qed

section \<open>The contents of a file\<close>

definition content_on :: "(u32 \<Rightarrow> u8 list) \<Rightarrow> u32 list \<Rightarrow> nat \<Rightarrow> u8 list" where
  "content_on f bl n = take n (concat (map f bl))"

text \<open>The bytes of a file that has direct blocks only.\<close>

definition content :: "fsys \<Rightarrow> u32 \<Rightarrow> u8 list" where
  "content s a = content_on (sectors s) (take 12 (i_sectors (inodes s a))) (unat (i_size (inodes s a)))"

lemma length_concat_sectors: "(\<And>a. length (f a) = 512) \<Longrightarrow> length (concat (map f bl)) = 512 * length bl"
  by (induction bl) simp_all

lemma content_on_write:
  assumes len: "\<And>a. length (f a) = 512" and bl: "distinct bl" "q < length bl"
    and old: "length old = 512" "old = f (bl ! q) \<or> r = 0" and ys: "r + length ys \<le> 512"
  shows "content_on (f(bl ! q := overlay old r ys)) bl (512 * q + r + length ys) = content_on f bl (512 * q + r) @ ys"
proof -
  let ?f' = "f(bl ! q := overlay old r ys)"
  have split: "bl = take q bl @ bl ! q # drop (Suc q) bl" using bl(2) by (rule id_take_nth_drop)
  then have "bl ! q \<notin> set (take q bl)" using bl(1) by (metis distinct_append disjoint_iff list.set_intros(1))
  then have A: "map ?f' (take q bl) = map f (take q bl)" by simp
  let ?A = "concat (map f (take q bl))"
  have la: "length ?A = 512 * q" using length_concat_sectors [of f, OF len] bl(2) by simp
  have cc: "concat (map h bl) = concat (map h (take q bl)) @ h (bl ! q) @ concat (map h (drop (Suc q) bl))"
    for h :: "u32 \<Rightarrow> u8 list"
    using split by (metis concat.simps(2) concat_append list.simps(9) map_append)
  have "concat (map ?f' bl) = ?A @ overlay old r ys @ concat (map ?f' (drop (Suc q) bl))"
    using cc [of ?f'] A by simp
  then have new: "content_on ?f' bl (512 * q + r + length ys) = ?A @ take (r + length ys) (overlay old r ys)"
    using la ys old(1) by (simp add: content_on_def)
  have "content_on f bl (512 * q + r) = ?A @ take r (f (bl ! q))"
    using la ys cc [of f] by (simp add: content_on_def len)
  moreover have "take (r + length ys) (overlay old r ys) = take r old @ ys"
    using old(1) ys by (simp add: overlay_def)
  moreover have "take r old = take r (f (bl ! q))" using old(2) by auto
  ultimately show ?thesis using new by simp
qed

lemma content_on_frame: "(\<And>l. l \<in> set bl \<Longrightarrow> f l = g l) \<Longrightarrow> content_on f bl n = content_on g bl n"
  by (simp add: content_on_def cong: map_cong)

lemma blocks_ok_lba:
  assumes "layout_ok (part s)" "blocks_fit (part s)" "blocks_ok s ls" "l \<in> set ls"
  shows "l \<le> max_lba" "l \<noteq> 0" "data_start_lba (sb (part s)) \<le> l"
  using assms block_addr_unat [OF assms(1,2)] by (auto simp: blocks_ok_def used_block_def)

lemma pos_split:
  fixes p :: u32
  shows "unat (p div BLOCK_SIZE) = unat p div 512" "unat (p mod BLOCK_SIZE) = unat p mod 512"
    "chunk_at p n = min n (512 - unat p mod 512)"
  by (simp_all add: BLOCK_SIZE_def SECTOR_SIZE_def unat_div unat_mod chunk_at_def)

text \<open>The state after the loop: the sectors, the size of the i-node and the position of the file.\<close>

definition after_write :: "fsys \<Rightarrow> nat \<Rightarrow> u32 \<Rightarrow> u32 \<Rightarrow> (u32 \<Rightarrow> u8 list) \<Rightarrow> fsys" where
  "after_write s f a n g =
     upd_file (upd_inode (s\<lparr>sectors := g\<rparr>) a (\<lambda>i. i\<lparr>i_size := i_size i + n\<rparr>)) f (\<lambda>x. x\<lparr>fd_pos := fd_pos x + n\<rparr>)"

lemma after_write_simps [simp]:
  "sectors (after_write s f a n g) = g" "part (after_write s f a n g) = part s" "fmem (after_write s f a n g) = fmem s"
  "inodes (after_write s f a n g) = (inodes s)(a := (inodes s a)\<lparr>i_size := i_size (inodes s a) + n\<rparr>)"
  "answers (after_write s f a n g) = answers s" "live (after_write s f a n g) = live s"
  "fd_local (after_write s f a n g) = fd_local s" "length (file_table (after_write s f a n g)) = length (file_table s)"
  by (simp_all add: after_write_def upd_file_def upd_inode_def)

lemma after_write_twice:
  "f < length (file_table s) \<Longrightarrow> after_write (after_write s f a n g) f a m h = after_write s f a (n + m) h"
  by (simp add: after_write_def upd_file_def upd_inode_def add.assoc)

declare write_loop.simps [simp del] read_loop.simps [simp del]

lemma write_loop_appends:
  assumes "disk_ok s" "f < length (file_table s)" "fd_inode (file_table s ! f) = a" "distinct bl"
    "\<And>l. l \<in> set bl \<Longrightarrow> l \<le> max_lba"
    "unat (i_size (inodes s a)) + length src < 512 * length bl" "length bl \<le> 12"
    "\<And>q. unat (i_size (inodes s a)) div 512 \<le> q \<Longrightarrow> q < length bl \<Longrightarrow> ab ! q = bl ! q"
    "fw \<or> unat (i_size (inodes s a)) mod 512 = 0 \<or> src = []"
  shows "\<exists>g. write_loop s f ab src fw = Inr (after_write s f a (of_nat (length src)) g) \<and>
    (\<forall>l. length (g l) = 512) \<and> (\<forall>l. l \<notin> set bl \<longrightarrow> g l = sectors s l) \<and>
    content_on g bl (unat (i_size (inodes s a)) + length src) =
      content_on (sectors s) bl (unat (i_size (inodes s a))) @ src"
  using assms
proof (induction "length src" arbitrary: s src fw rule: less_induct)
  case (less src s fw)
  let ?i = "inodes s a" and ?n = "unat (i_size (inodes s a))"
  show ?case
  proof (cases "src = []")
    case True
    have "after_write s f a 0 (sectors s) = s"
      by (simp add: after_write_def upd_file_def upd_inode_def)
    with True less.prems(1) show ?thesis
      by (intro exI [of _ "sectors s"]) (simp add: write_loop.simps disk_ok_def)
  next
    case False
    define q where "q = ?n div 512"
    define r where "r = ?n mod 512"
    define c where "c = min (length src) (512 - r)"
    have n: "?n = 512 * q + r" "r < 512" by (simp_all add: q_def r_def)
    have q: "q < length bl" using less.prems(6) n(1) by linarith
    have c: "0 < c" "c \<le> length src" "r + c \<le> 512" using False n(2) by (auto simp: c_def)
    let ?l = "bl ! q"
    have l: "ab ! q = ?l" "?l \<le> max_lba" using less.prems(5,8) q by (simp_all add: q_def)
    define old where "old = (if fw then sectors s ?l else replicate 512 0)"
    have old: "length old = 512" "old = sectors s ?l \<or> r = 0"
      using less.prems(1,9) False by (auto simp: old_def disk_ok_def r_def)
    have rd: "(if fw then disk_read s ?l 1 else Inr (replicate 512 0)) = Inr old"
      using disk_one(1) [OF l(2), of s] by (simp add: old_def)
    let ?d = "overlay old r (take c src)"
    have d: "length ?d = 512" using old c by simp
    let ?g = "(sectors s)(?l := ?d)"
    let ?s' = "after_write s f a (of_nat c) ?g"
    have ch: "chunk_at (i_size ?i) (length src) = c" by (simp add: pos_split c_def r_def)
    have step: "write_loop s f ab src fw = write_loop ?s' f ab (drop c src) False"
    proof -
      have "write_loop s f ab src fw =
          bnd (if fw then disk_read s ?l 1 else Inr (replicate 512 0)) (\<lambda>io_buf.
          bnd (disk_write s ?l (overlay io_buf r (take c src)) 1) (\<lambda>s.
          write_loop (upd_file (upd_inode s a (\<lambda>i. i\<lparr>i_size := i_size i + of_nat c\<rparr>)) f
            (\<lambda>f. f\<lparr>fd_pos := fd_pos f + of_nat c\<rparr>)) f ab (drop c src) False))"
        using False l(1) less.prems(3)
        by (subst write_loop.simps) (simp only: Let_def ch pos_split(1,2) q_def [symmetric] r_def [symmetric] if_False)
      then show ?thesis
        unfolding rd using disk_one(2) [OF l(2) d, of s] by (simp add: after_write_def)
    qed
    have small: "?n + c < 6144" using less.prems(6,7) c(2) by linarith
    then have n': "unat (i_size (inodes ?s' a)) = ?n + c" by (simp add: unat_word_ariths)
    have IH: "\<exists>g. write_loop ?s' f ab (drop c src) False = Inr (after_write ?s' f a (of_nat (length (drop c src))) g) \<and>
      (\<forall>l. length (g l) = 512) \<and> (\<forall>l. l \<notin> set bl \<longrightarrow> g l = sectors ?s' l) \<and>
      content_on g bl (unat (i_size (inodes ?s' a)) + length (drop c src)) =
        content_on (sectors ?s') bl (unat (i_size (inodes ?s' a))) @ drop c src"
    proof (rule less.hyps)
      show "length (drop c src) < length src" using False c(1) by simp
      show "disk_ok ?s'" using less.prems(1) d by (simp add: disk_ok_def)
      show "fd_inode (file_table ?s' ! f) = a"
        using less.prems(2,3) by (simp add: after_write_def upd_file_def upd_inode_def)
      show "unat (i_size (inodes ?s' a)) + length (drop c src) < 512 * length bl"
        unfolding n' using less.prems(6) c(2) by simp
      show "ab ! j = bl ! j" if "unat (i_size (inodes ?s' a)) div 512 \<le> j" "j < length bl" for j
        using that less.prems(8) unfolding n' by (meson div_le_mono le_add1 order_trans)
      show "False \<or> unat (i_size (inodes ?s' a)) mod 512 = 0 \<or> drop c src = []"
      proof (cases "length src \<le> 512 - r")
        case True
        then show ?thesis by (simp add: c_def)
      next
        case False
        then have "?n + c = 512 * (q + 1)" using n by (simp add: c_def)
        then show ?thesis unfolding n' by simp
      qed
    qed (use less.prems in simp_all)
    have cw: "content_on ?g bl (?n + c) = content_on (sectors s) bl ?n @ take c src"
      using content_on_write [of "sectors s" bl q old r "take c src"] less.prems(1,4) q old c
      by (simp add: n(1) disk_ok_def)
    from IH obtain g where g: "write_loop ?s' f ab (drop c src) False = Inr (after_write ?s' f a (of_nat (length (drop c src))) g)"
      "\<forall>l. length (g l) = 512" "\<forall>l. l \<notin> set bl \<longrightarrow> g l = ?g l"
      "content_on g bl (?n + c + (length src - c)) = content_on ?g bl (?n + c) @ drop c src"
      unfolding n' by auto
    have "of_nat c + of_nat (length src - c) = (of_nat (length src) :: u32)"
      using c(2) by (metis le_add_diff_inverse of_nat_add)
    then have "write_loop s f ab src fw = Inr (after_write s f a (of_nat (length src)) g)"
      using step g(1) after_write_twice [OF less.prems(2), of a "of_nat c" ?g "of_nat (length src - c)" g] by simp
    moreover have "g l = sectors s l" if "l \<notin> set bl" for l using g(3) that q by auto
    moreover have "content_on g bl (?n + length src) = content_on (sectors s) bl ?n @ src"
      using g(4) cw c(2) by simp
    ultimately show ?thesis using g(2) by blast
  qed
qed

section \<open>Appending to a file\<close>

definition nblocks :: "inode \<Rightarrow> nat" where
  "nblocks i = (if i_sectors i ! 0 = 0 then 0 else unat (i_size i) div 512 + 1)"

text \<open>A file with direct blocks only: its blocks are in use and distinct, and it has one more than its full ones.\<close>

definition file_ok :: "fsys \<Rightarrow> u32 \<Rightarrow> bool" where
  "file_ok s a \<longleftrightarrow>
     (let i = inodes s a
      in length (i_sectors i) = 13 \<and> unat (i_size i) < 6144 \<and> blocks_ok s (take (nblocks i) (i_sectors i)) \<and>
         (\<forall>j < 12. nblocks i \<le> j \<longrightarrow> i_sectors i ! j = 0) \<and> (nblocks i = 0 \<longrightarrow> i_size i = 0))"

lemma content_take:
  assumes len: "\<And>a. length (f a) = 512" and n: "n \<le> 512 * k" "k \<le> length bl"
  shows "content_on f bl n = content_on f (take k bl) n"
proof -
  have "concat (map f bl) = concat (map f (take k bl)) @ concat (map f (drop k bl))"
    by (metis append_take_drop_id concat_append map_append)
  moreover have "length (concat (map f (take k bl))) = 512 * k"
    using length_concat_sectors [of f, OF len] n(2) by simp
  ultimately show ?thesis using n(1) by (simp add: content_on_def)
qed

lemma content_blocks:
  assumes "disk_ok s" "length (i_sectors (inodes s a)) = 13" "unat (i_size (inodes s a)) \<le> 512 * k" "k \<le> 12"
  shows "content s a = content_on (sectors s) (take k (i_sectors (inodes s a))) (unat (i_size (inodes s a)))"
  using content_take [of "sectors s" "unat (i_size (inodes s a))" k "take 12 (i_sectors (inodes s a))"] assms
  by (simp add: content_def disk_ok_def min_def)

lemma write_first_grow:
  assumes ok: "fs_ok s" "blocks_fit (part s)" and z: "i_sectors (inodes s a) ! 0 = 0" and free: "free_blocks_of s \<noteq> {}"
  shows "write_first s a = and_then (grow s a (replicate 140 0) 0 1) (\<lambda>(_, s). Inr (Next s))"
proof -
  have lay: "layout_ok (part s)" using ok by (simp add: fs_ok_def)
  from block_alloc [OF lay ok(2) free] obtain b m where
    b: "block_bitmap_alloc s = Inr (block_addr s b, s\<lparr>fmem := m\<rparr>)" "b \<in> free_blocks_of s" by blast
  then have "block_addr s b \<noteq> - 1" using block_addr_unat(4) [OF lay ok(2)] by (simp add: free_blocks_of_def)
  moreover have "bnd (bnd x (\<lambda>s. Inr (Next (t, s)))) g = bnd x (\<lambda>s. g (Next (t, s)))" for x :: "fsys fres" and t :: "u32 list" and g :: "_ \<Rightarrow> fsys step fres"
    by (cases x) simp_all
  moreover have "and_then (bnd x (\<lambda>s. Inr (Next (t, s)))) g = bnd x (\<lambda>s. g (t, s))" for x :: "fsys fres" and t :: "u32 list" and g :: "_ \<Rightarrow> fsys step fres"
    by (cases x) simp_all
  ultimately show ?thesis using z b(1) by (simp add: write_first_def Let_def)
qed

lemma overlay_0: "length ys = n \<Longrightarrow> overlay xs 0 ys = ys @ drop n xs"
  by (simp add: overlay_def)

lemma blocks_ok_swap: "blocks_ok s ((xs @ zs) @ ys) \<Longrightarrow> blocks_ok s ((xs @ ys) @ zs)"
  by (auto simp: blocks_ok_def)

lemma blocks_ok_left: "blocks_ok s (xs @ ys) \<Longrightarrow> blocks_ok s xs"
  by (simp add: blocks_ok_def)

definition file_blocks :: "fsys \<Rightarrow> u32 \<Rightarrow> u32 list" where
  "file_blocks s a = take (nblocks (inodes s a)) (i_sectors (inodes s a))"

lemma write_first_ok:
  assumes ok: "fs_ok s" "blocks_fit (part s)" and fi: "file_ok s a" "blocks_ok s (file_blocks s a @ others)"
    and free: "i_sectors (inodes s a) ! 0 = 0 \<Longrightarrow> 1 \<le> card (free_blocks_of s)"
  shows "\<exists>s'. write_first s a = Inr (Next s') \<and> file_ok s' a \<and> same_data s s' \<and> 1 \<le> nblocks (inodes s' a) \<and>
    (\<exists>secs. inodes s' = (inodes s)(a := (inodes s a)\<lparr>i_sectors := secs\<rparr>)) \<and> content s' a = content s a \<and>
    blocks_ok s' (file_blocks s' a @ others) \<and>
    card (free_blocks_of s') = card (free_blocks_of s) - (1 - nblocks (inodes s a))"
proof (cases "i_sectors (inodes s a) ! 0 = 0")
  case False
  have "(inodes s)(a := (inodes s a)\<lparr>i_sectors := i_sectors (inodes s a)\<rparr>) = inodes s" by simp
  with False ok fi show ?thesis
    by (intro exI [of _ s]) (auto simp: write_first_def same_data_def nblocks_def intro: exI [of _ "i_sectors (inodes s a)"])
next
  case True
  let ?i = "inodes s a"
  have i: "length (i_sectors ?i) = 13" "nblocks ?i = 0" "i_size ?i = 0" "\<And>j. j < 12 \<Longrightarrow> i_sectors ?i ! j = 0"
    using fi True by (auto simp: file_ok_def Let_def nblocks_def)
  have "blocks_ok s others" using fi(2) by (simp add: file_blocks_def i(2))
  from grow_direct [OF ok i(1) _ _ this, of "replicate 140 0" 0 1] i(4) free [OF True] obtain new s' where
    g: "length new = 1" "grow s a (replicate 140 0) 0 1 = Inr (Next (overlay (replicate 140 0) 0 new, s'))"
      "inodes s' = (inodes s)(a := ?i\<lparr>i_sectors := overlay (i_sectors ?i) 0 new\<rparr>)"
      "blocks_ok s' (others @ new)" "same_data s s'" "card (free_blocks_of s') = card (free_blocks_of s) - 1" by auto
  have g4: "blocks_ok s' (new @ others)" using blocks_ok_swap [of s' "[]" others new] g(4) by simp
  note gn = blocks_ok_left [OF g4]
  have w: "write_first s a = Inr (Next s')"
  proof -
    have "free_blocks_of s \<noteq> {}" using free [OF True] by auto
    from write_first_grow [OF ok True this] g(2) show ?thesis by (simp del: grow.simps)
  qed
  have ok': "fs_ok s'" "blocks_fit (part s')" using g(5) ok by (simp_all add: same_data_def)
  have o: "overlay (i_sectors ?i) 0 new = new @ drop 1 (i_sectors ?i)" using g(1) by (simp add: overlay_0)
  have n0: "new ! 0 \<noteq> 0"
    using blocks_ok_lba(2) [OF _ ok'(2) gn, of "new ! 0"] g(1) ok'(1) by (simp add: fs_ok_def)
  have i': "i_sectors (inodes s' a) = new @ drop 1 (i_sectors ?i)" "i_size (inodes s' a) = 0" using g(3) i(3) o by simp_all
  have nb: "nblocks (inodes s' a) = 1" using n0 g(1) by (simp add: nblocks_def i' nth_append)
  have tk: "take (Suc 0) (i_sectors (inodes s' a)) = new" using g(1) by (simp add: i')
  have z: "i_sectors (inodes s' a) ! j = 0" if "j < 12" "1 \<le> j" for j
    using that i(1,4) g(1) by (simp add: i' nth_append)
  have "file_ok s' a"
    unfolding file_ok_def Let_def using g(1) gn nb i(1) tk z i'(2) by (simp add: i'(1))
  moreover have "content s' a = content s a" by (simp add: content_def content_on_def i' i(3))
  moreover have "blocks_ok s' (file_blocks s' a @ others)" using g4 nb tk by (simp add: file_blocks_def)
  ultimately show ?thesis using w g(3,5,6) nb i(2) by auto
qed

lemma write_blocks_direct:
  assumes ok: "fs_ok s" "blocks_fit (part s)" and fi: "file_ok s a" "blocks_ok s (file_blocks s a @ others)" and has: "has = nblocks (inodes s a)" "1 \<le> has"
    and will: "has \<le> will" "will \<le> 12" and free: "will - has \<le> card (free_blocks_of s)"
  shows "\<exists>ab new s'. write_blocks s a has will = Inr (Next (ab, s')) \<and> length new = will - has \<and>
    inodes s' = (inodes s)(a := (inodes s a)\<lparr>i_sectors := overlay (i_sectors (inodes s a)) has new\<rparr>) \<and>
    blocks_ok s' ((take has (i_sectors (inodes s a)) @ new) @ others) \<and> same_data s s' \<and>
    (\<forall>q. has - 1 \<le> q \<and> q < will \<longrightarrow> ab ! q = overlay (i_sectors (inodes s a)) has new ! q)"
proof -
  let ?secs = "i_sectors (inodes s a)"
  let ?ab = "(replicate 140 0)[has - 1 := ?secs ! (has - 1)] :: u32 list"
  have i: "length ?secs = 13" "blocks_ok s (take has ?secs @ others)" "\<And>j. j < 12 \<Longrightarrow> has \<le> j \<Longrightarrow> ?secs ! j = 0"
    using fi has(1) by (auto simp: file_ok_def file_blocks_def Let_def)
  have "?secs ! (has - 1) \<in> set (take has ?secs)" using has(2) will i(1) by (auto simp: in_set_conv_nth intro: exI [of _ "has - 1"])
  then have nz: "?secs ! (has - 1) \<noteq> 0"
    using blocks_ok_lba(2) [OF _ ok(2) blocks_ok_left [OF i(2)]] ok(1) by (simp add: fs_ok_def)
  have at: "?ab ! (has - 1) = ?secs ! (has - 1)" using will has(2) by simp
  show ?thesis
  proof (cases "has = will")
    case True
    have "write_blocks s a has will = Inr (Next (?ab, s))" using True will by (simp add: write_blocks_def Let_def)
    moreover have "overlay ?secs has [] = ?secs" by (simp add: overlay_def)
    moreover have "q = has - 1" if "has - 1 \<le> q" "q < will" for q using that True by simp
    ultimately show ?thesis
      using i ok at True by (intro exI [of _ ?ab] exI [of _ "[]"] exI [of _ s]) (auto simp: same_data_def)
  next
    case False
    have "write_blocks s a has will = grow s a ?ab has (will - has)"
      using False will nz by (simp add: write_blocks_def Let_def)
    moreover have "length ?ab = 140" "has + (will - has) \<le> 12" using will by simp_all
    moreover have "?secs ! j = 0" if "has \<le> j" "j < has + (will - has)" for j using that i(3) will by simp
    ultimately obtain new s' where g: "length new = will - has"
      "write_blocks s a has will = Inr (Next (overlay ?ab has new, s'))"
      "inodes s' = (inodes s)(a := (inodes s a)\<lparr>i_sectors := overlay ?secs has new\<rparr>)"
      "blocks_ok s' ((take has ?secs @ others) @ new)" "same_data s s'"
      using grow_direct [OF ok i(1) _ _ i(2) _ free, of ?ab has] by auto
    have "overlay ?ab has new ! q = overlay ?secs has new ! q" if "has - 1 \<le> q" "q < will" for q
    proof (cases "q = has - 1")
      case True
      then show ?thesis using at g(1) has(2) will i(1) by (simp add: nth_overlay)
    next
      case False
      with that have "has \<le> q" by simp
      then show ?thesis using that g(1) will i(1) by (simp add: nth_overlay)
    qed
    with g blocks_ok_swap [OF g(4)] show ?thesis by (intro exI [of _ "overlay ?ab has new"] exI [of _ new] exI [of _ s']) simp
  qed
qed

text \<open>The outcome of appending \<open>buf\<close> to the file of i-node \<open>a\<close> beside blocks \<open>others\<close> of other files.\<close>

definition appended :: "fsys \<Rightarrow> u32 \<Rightarrow> u8 list \<Rightarrow> u32 list \<Rightarrow> fsys \<Rightarrow> bool" where
  "appended s a buf others s' \<longleftrightarrow>
     content s' a = content s a @ buf \<and> unat (i_size (inodes s' a)) = unat (i_size (inodes s a)) + length buf \<and>
     fs_ok s' \<and> file_ok s' a \<and> blocks_ok s' (file_blocks s' a @ others) \<and>
     (\<forall>l \<in> set others. sectors s' l = sectors s l) \<and> (\<forall>b. b \<noteq> a \<longrightarrow> inodes s' b = inodes s b) \<and>
     slot s' (unat (i_no (inodes s a)) mod 256) = inode_bytes (pure_inode (inodes s' a)) \<and>
     (\<forall>j < 4096. j \<noteq> unat (i_no (inodes s a)) mod 256 \<longrightarrow> slot s' j = slot s j)"

lemma blocks_ok_cong: "fmem s' = fmem s \<Longrightarrow> part s' = part s \<Longrightarrow> blocks_ok s' ls = blocks_ok s ls"
  by (simp add: blocks_ok_def used_block_def block_addr_def free_blocks_of_def)

lemma append_blocks:
  assumes ok: "fs_ok s" "blocks_fit (part s)" and f: "f < length (file_table s)" "fd_inode (file_table s ! f) = a"
    and fi: "file_ok s a" "blocks_ok s (file_blocks s a @ others)" "1 \<le> nblocks (inodes s a)"
    and buf: "unat (i_size (inodes s a)) + length buf < 6144"
    and will: "will = (unat (i_size (inodes s a)) + length buf) div 512 + 1"
    and free: "will - nblocks (inodes s a) \<le> card (free_blocks_of s)"
    and ino: "76 * (unat (i_no (inodes s a)) mod 256) mod 512 \<le> 436"
  shows "\<exists>ab s2 s3 s4. write_blocks s a (nblocks (inodes s a)) will = Inr (Next (ab, s2)) \<and>
    write_loop (upd_file s2 f (\<lambda>x. x\<lparr>fd_pos := i_size (inodes s2 a) - 1\<rparr>)) f ab buf True = Inr s3 \<and>
    inode_sync s3 a 512 = Inr s4 \<and> appended s a buf others s4 \<and> live s4 = live s"
proof -
  let ?i = "inodes s a" and ?n = "unat (i_size (inodes s a))"
  have has: "nblocks ?i = ?n div 512 + 1" using fi(3) by (auto simp: nblocks_def split: if_splits)
  have w: "nblocks ?i \<le> will" "will \<le> 12" using buf by (simp_all add: will has div_le_mono)
  from write_blocks_direct [OF ok fi(1,2) refl fi(3) w free] obtain ab new s2 where
    b: "write_blocks s a (nblocks ?i) will = Inr (Next (ab, s2))" "length new = will - nblocks ?i"
      "inodes s2 = (inodes s)(a := ?i\<lparr>i_sectors := overlay (i_sectors ?i) (nblocks ?i) new\<rparr>)"
      "blocks_ok s2 ((take (nblocks ?i) (i_sectors ?i) @ new) @ others)" "same_data s s2"
      "\<And>q. nblocks ?i - 1 \<le> q \<Longrightarrow> q < will \<Longrightarrow> ab ! q = overlay (i_sectors ?i) (nblocks ?i) new ! q" by blast
  define secs where "secs = overlay (i_sectors ?i) (nblocks ?i) new"
  have l13: "length (i_sectors ?i) = 13" using fi(1) by (simp add: file_ok_def Let_def)
  have secs: "length secs = 13" "take will secs = take (nblocks ?i) (i_sectors ?i) @ new"
    using l13 b(2) w by (simp_all add: secs_def) (simp add: overlay_def)
  have z: "secs ! j = 0" if "j < 12" "will \<le> j" for j
    using that fi(1) b(2) w l13 by (simp add: secs_def nth_overlay file_ok_def Let_def)
  let ?bl = "take will secs"
  have bl: "blocks_ok s2 (?bl @ others)" "length ?bl = will" using b(2,4) secs w l13 by simp_all
  have ok2: "fs_ok s2" "part s2 = part s" and f2: "file_table s2 = file_table s" "live s2 = live s"
    and d2: "\<And>l. inode_bitmap_lba (sb (part s)) \<le> l \<Longrightarrow> sectors s2 l = sectors s l"
    using b(5) by (simp_all add: same_data_def)
  have lay: "layout_ok (part s)" using ok by (simp add: fs_ok_def)
  have i2: "inodes s2 a = ?i\<lparr>i_sectors := secs\<rparr>" using b(3) by (simp add: secs_def)
  define t2 where "t2 = upd_file s2 f (\<lambda>x. x\<lparr>fd_pos := i_size (inodes s2 a) - 1\<rparr>)"
  have u: "inodes t2 = inodes s2" "sectors t2 = sectors s2" "part t2 = part s" "fmem t2 = fmem s2" "live t2 = live s"
    "length (file_table t2) = length (file_table s)" "fd_inode (file_table t2 ! f) = a"
    using f ok2 f2 by (simp_all add: t2_def upd_file_def)
  have it: "inodes t2 a = ?i\<lparr>i_sectors := secs\<rparr>" unfolding u(1) by (rule i2)
  have sz2: "i_size (inodes t2 a) = i_size ?i" unfolding u(1) by (simp add: i2)
  have lba: "l \<le> max_lba" "data_start_lba (sb (part s)) \<le> l" if "l \<in> set (?bl @ others)" for l
    using blocks_ok_lba [of s2, OF _ _ bl(1) that] ok2 ok(2) lay by simp_all
  have "\<exists>g. write_loop t2 f ab buf True = Inr (after_write t2 f a (of_nat (length buf)) g) \<and>
      (\<forall>l. length (g l) = 512) \<and> (\<forall>l. l \<notin> set ?bl \<longrightarrow> g l = sectors t2 l) \<and>
      content_on g ?bl (unat (i_size (inodes t2 a)) + length buf) =
        content_on (sectors t2) ?bl (unat (i_size (inodes t2 a))) @ buf"
  proof (rule write_loop_appends)
    show "disk_ok t2" using ok2 u by (simp add: fs_ok_def disk_ok_def)
    show "distinct ?bl" using bl(1) by (simp add: blocks_ok_def)
    show "l \<le> max_lba" if "l \<in> set ?bl" for l using lba that by simp
    show "unat (i_size (inodes t2 a)) + length buf < 512 * length ?bl"
      unfolding bl(2) sz2 using will by simp
    show "ab ! q = ?bl ! q" if "unat (i_size (inodes t2 a)) div 512 \<le> q" "q < length ?bl" for q
      using that b(6) [of q] bl(2) has unfolding sz2 by (simp add: secs_def)
  qed (use u f w bl in simp_all)
  then obtain g where g: "write_loop t2 f ab buf True = Inr (after_write t2 f a (of_nat (length buf)) g)"
    "\<And>l. length (g l) = 512" "\<And>l. l \<notin> set ?bl \<Longrightarrow> g l = sectors s2 l"
    "content_on g ?bl (?n + length buf) = content_on (sectors s2) ?bl ?n @ buf"
    unfolding sz2 u(2) by auto
  let ?s3 = "after_write t2 f a (of_nat (length buf)) g"
  have i3: "inodes ?s3 a = ?i\<lparr>i_sectors := secs, i_size := i_size ?i + of_nat (length buf)\<rparr>" by (simp add: it)
  have n3: "unat (i_size (inodes ?s3 a)) = ?n + length buf" using buf unfolding i3 by (simp add: unat_word_ariths)
  have ok3: "fs_ok ?s3" using lay g(2) by (simp add: fs_ok_def disk_ok_def u)
  from inode_sync_slot_step [OF ok3, of a 512] ino secs(1) obtain s4 where
    s4: "inode_sync ?s3 a 512 = Inr s4"
      "slot_set ?s3 (unat (i_no ?i) mod 256) (inode_bytes (pure_inode (inodes ?s3 a))) s4" by (auto simp: it)
  have e4: "s4 = ?s3\<lparr>sectors := sectors s4\<rparr>" using s4(2) by (simp add: slot_set_def)
  have f4: "inodes s4 = inodes ?s3" "part s4 = part s" "live s4 = live s" "fmem s4 = fmem s2"
    by (subst e4, simp add: u)+
  have d4: "sectors s4 l = g l" if "data_start_lba (sb (part s)) \<le> l" for l
    using s4(2) that by (auto simp: slot_set_def u not_less)
  have dl: "inode_bitmap_lba (sb (part s)) \<le> l" if "data_start_lba (sb (part s)) \<le> l" for l
    using that lay by (auto simp: layout_ok_def word_le_nat_alt)
  have w1: "1 \<le> will" using w fi(3) by simp
  have bl4: "blocks_ok s4 (?bl @ others)"
    using bl(1) blocks_ok_cong [of s4 s2] f4 ok2(2) by simp
  have "secs ! 0 \<in> set ?bl" using secs(1) w w1 by (auto simp: in_set_conv_nth intro!: exI [of _ 0])
  then have "secs ! 0 \<noteq> 0" using blocks_ok_lba(2) [of s2, OF _ _ bl(1)] ok2 ok(2) lay by simp
  moreover have sz: "unat (i_size (inodes s4 a)) = ?n + length buf" using n3 f4(1) by simp
  moreover have secs4: "i_sectors (inodes s4 a) = secs" using f4(1) it by simp
  ultimately have nb: "nblocks (inodes s4 a) = will" unfolding nblocks_def using will by simp
  have fb: "file_blocks s4 a = ?bl" unfolding file_blocks_def nb secs4 by simp
  have "file_ok s4 a"
    unfolding file_ok_def Let_def nb sz secs4
    using secs(1) buf blocks_ok_left [OF bl4] z w1 by simp
  moreover have "content s4 a = content s a @ buf"
  proof -
    have ok4: "disk_ok s4" using s4(2) by (simp add: slot_set_def fs_ok_def)
    have "content s4 a = content_on (sectors s4) ?bl (?n + length buf)"
      using content_blocks [OF ok4, of a will] secs(1) w(2) will by (simp add: secs4 sz)
    also have "\<dots> = content_on g ?bl (?n + length buf)" using d4 lba by (intro content_on_frame) simp
    also have "\<dots> = content_on (sectors s2) ?bl ?n @ buf" by (rule g(4))
    also have "content_on (sectors s2) ?bl ?n = content_on (sectors s) ?bl ?n"
      using d2 dl lba by (intro content_on_frame) simp
    also have "\<dots> = content_on (sectors s) (take (nblocks ?i) ?bl) ?n"
      using content_take [of "sectors s" ?n "nblocks ?i" ?bl] ok(1) w secs(1) has by (simp add: fs_ok_def disk_ok_def)
    also have "take (nblocks ?i) ?bl = take (nblocks ?i) (i_sectors ?i)" using secs(2) l13 w by simp
    also have "content_on (sectors s) (take (nblocks ?i) (i_sectors ?i)) ?n = content s a"
      using content_blocks [of s a "nblocks ?i"] ok(1) l13 w has by (simp add: fs_ok_def)
    finally show ?thesis .
  qed
  moreover have "sectors s4 l = sectors s l" if l: "l \<in> set others" for l
  proof -
    have "l \<notin> set ?bl" using bl(1) l by (auto simp: blocks_ok_def)
    then show ?thesis using d4 [of l] lba(2) [of l] l g(3) [of l] d2 [of l] dl [of l] by simp
  qed
  moreover have "inodes s4 b = inodes s b" if "b \<noteq> a" for b using that by (simp add: f4 u b(3))
  moreover have "slot s4 j = slot s j" if j: "j < 4096" "j \<noteq> unat (i_no ?i) mod 256" for j
  proof -
    have "slot ?s3 j = slot s j"
    proof (rule slot_cong [OF lay])
      fix c assume c: "inode_table_lba (sb (part s)) \<le> c" "c < data_start_lba (sb (part s))"
      have "inode_bitmap_lba (sb (part s)) \<le> c" using c(1) lay by (simp add: layout_ok_def word_le_nat_alt)
      moreover have "c \<notin> set ?bl" using lba(2) [of c] c(2) by auto
      ultimately show "sectors ?s3 c = sectors s c" using g(3) d2 by simp
    qed (simp add: u)
    then show ?thesis using s4(2) j by (simp add: slot_set_def)
  qed
  ultimately have "appended s a buf others s4"
    using s4(2) bl4 sz fb by (simp add: appended_def slot_set_def f4(1))
  with b(1) g(1) s4(1) f4(3) show ?thesis unfolding t2_def by blast
qed

lemma mem_cong:
  "fs_ok (s\<lparr>answers := x\<rparr>) = fs_ok s" "file_ok (s\<lparr>answers := x\<rparr>) a = file_ok s a" "blocks_ok (s\<lparr>answers := x\<rparr>) ls = blocks_ok s ls"
  "file_blocks (s\<lparr>answers := x\<rparr>) a = file_blocks s a" "free_blocks_of (s\<lparr>answers := x\<rparr>) = free_blocks_of s"
  "content (s\<lparr>answers := x\<rparr>) a = content s a" "slot (s\<lparr>answers := x\<rparr>) j = slot s j"
  "fs_ok (s\<lparr>live := y\<rparr>) = fs_ok s" "file_ok (s\<lparr>live := y\<rparr>) a = file_ok s a" "blocks_ok (s\<lparr>live := y\<rparr>) ls = blocks_ok s ls"
  "file_blocks (s\<lparr>live := y\<rparr>) a = file_blocks s a" "free_blocks_of (s\<lparr>live := y\<rparr>) = free_blocks_of s"
  "content (s\<lparr>live := y\<rparr>) a = content s a" "slot (s\<lparr>live := y\<rparr>) j = slot s j"
  by (simp_all add: fs_ok_def disk_ok_def file_ok_def file_blocks_def blocks_ok_def used_block_def block_addr_def
      free_blocks_of_def content_def slot_def itable_def Let_def)

lemma appended_mem:
  "appended (s\<lparr>answers := x, live := y\<rparr>) a buf others s' = appended s a buf others s'"
  "appended s a buf others (s'\<lparr>live := y\<rparr>) = appended s a buf others s'"
  by (simp_all add: appended_def mem_cong)

text \<open>Going through \<open>write_first\<close>, a file that had no block yet behaves like one with an empty block.\<close>

lemma appended_first:
  assumes "appended s1 a buf others s'" "same_data s s1" "content s1 a = content s a" "layout_ok (part s)"
    "inodes s1 = (inodes s)(a := (inodes s a)\<lparr>i_sectors := secs\<rparr>)"
    "\<And>l. l \<in> set others \<Longrightarrow> data_start_lba (sb (part s)) \<le> l"
  shows "appended s a buf others s'"
proof -
  have "slot s1 j = slot s j" for j
  proof (rule slot_cong [OF assms(4)])
    fix c assume "inode_table_lba (sb (part s)) \<le> c"
    then have "inode_bitmap_lba (sb (part s)) \<le> c" using assms(4) by (simp add: layout_ok_def word_le_nat_alt)
    then show "sectors s1 c = sectors s c" using assms(2) by (simp add: same_data_def)
  qed (use assms(2) in \<open>simp add: same_data_def\<close>)
  moreover
  have "sectors s1 l = sectors s l" if "l \<in> set others" for l
  proof -
    have "inode_bitmap_lba (sb (part s)) \<le> l"
      using assms(4) assms(6) [OF that] by (auto simp: layout_ok_def word_le_nat_alt)
    then show ?thesis using assms(2) by (simp add: same_data_def)
  qed
  ultimately show ?thesis using assms(1,3,5) by (simp add: appended_def)
qed

lemma file_write_step:
  assumes ok: "fs_ok s" "blocks_fit (part s)" and f: "f < length (file_table s)" "fd_inode (file_table s ! f) = a"
    and fi: "file_ok s a" "blocks_ok s (file_blocks s a @ others)"
    and buf: "unat (i_size (inodes s a)) + length buf < 6144"
    and free: "(unat (i_size (inodes s a)) + length buf) div 512 + 1 - nblocks (inodes s a) \<le> card (free_blocks_of s)"
    and ino: "76 * (unat (i_no (inodes s a)) mod 256) mod 512 \<le> 436"
    and mem: "answers s = x # y # as" "x \<noteq> NULL" "y \<noteq> NULL"
  shows "\<exists>s'. file_write s f buf = Inr (of_nat (length buf), s') \<and> appended s a buf others s' \<and> live s' = live s"
proof -
  let ?i = "inodes s a" and ?n = "unat (i_size (inodes s a))" and ?cnt = "of_nat (length buf) :: u32"
  let ?s0 = "s\<lparr>answers := as, live := y # x # live s\<rparr>"
  let ?will = "(?n + length buf) div 512 + 1"
  have lay: "layout_ok (part s)" using ok by (simp add: fs_ok_def)
  have others: "data_start_lba (sb (part s)) \<le> l" if "l \<in> set others" for l
    using blocks_ok_lba(3) [OF lay ok(2) fi(2)] that by simp
  have m: "fs_malloc s BLOCK_SIZE = (x, s\<lparr>answers := y # as, live := x # live s\<rparr>)"
    "fs_malloc (s\<lparr>answers := y # as, live := x # live s\<rparr>) (140 * 4) = (y, ?s0)"
    using mem by (simp_all add: fs_malloc_def)
  have sum: "unat (i_size ?i + ?cnt) = ?n + length buf" using buf by (simp add: unat_word_ariths)
  have small: "\<not> i_size ?i + ?cnt > BLOCK_SIZE * (12 + 128)"
    using buf sum by (simp add: word_less_nat_alt BLOCK_SIZE_def SECTOR_SIZE_def)
  have f1: "i_sectors (inodes ?s0 a) ! 0 = 0 \<Longrightarrow> 1 \<le> card (free_blocks_of ?s0)"
    using free by (simp add: mem_cong nblocks_def)
  have "fs_ok ?s0" "blocks_fit (part ?s0)" "file_ok ?s0 a" "blocks_ok ?s0 (file_blocks ?s0 a @ others)"
    using ok fi by (simp_all add: mem_cong)
  from write_first_ok [OF this f1] obtain s1 secs where
    s1: "write_first ?s0 a = Inr (Next s1)" "file_ok s1 a" "same_data ?s0 s1" "1 \<le> nblocks (inodes s1 a)"
      "inodes s1 = (inodes s)(a := ?i\<lparr>i_sectors := secs\<rparr>)" "content s1 a = content s a"
      "blocks_ok s1 (file_blocks s1 a @ others)"
      "card (free_blocks_of s1) = card (free_blocks_of s) - (1 - nblocks ?i)"
    by (auto simp: mem_cong)
  have p1: "fs_ok s1" "part s1 = part s" "file_table s1 = file_table s" "live s1 = y # x # live s"
    using s1(3) by (simp_all add: same_data_def)
  have i1: "i_size (inodes s1 a) = i_size ?i" "i_no (inodes s1 a) = i_no ?i" by (simp_all add: s1(5))
  have nb: "nblocks (inodes s1 a) = ?n div 512 + 1" using s1(4) i1 by (auto simp: nblocks_def split: if_splits)
  have "nblocks ?i = 0 \<longrightarrow> i_size ?i = 0" using fi(1) by (simp add: file_ok_def Let_def)
  moreover have "nblocks ?i = 0 \<or> nblocks ?i = ?n div 512 + 1" by (simp add: nblocks_def)
  ultimately have "nblocks ?i = 0 \<and> ?n = 0 \<or> nblocks ?i = ?n div 512 + 1" by auto
  then have fr: "?will - nblocks (inodes s1 a) \<le> card (free_blocks_of s1)"
    unfolding nb s1(8) using free by (elim disjE conjE) (simp_all only: diff_0_right, linarith+)
  have "blocks_fit (part s1)" "f < length (file_table s1)" "fd_inode (file_table s1 ! f) = a"
    using ok(2) f p1 by simp_all
  from append_blocks [OF p1(1) this s1(2,7,4), of buf ?will] buf fr ino i1 obtain ab s2 s3 s4 where
    b: "write_blocks s1 a (nblocks (inodes s1 a)) ?will = Inr (Next (ab, s2))"
      "write_loop (upd_file s2 f (\<lambda>x. x\<lparr>fd_pos := i_size (inodes s2 a) - 1\<rparr>)) f ab buf True = Inr s3"
      "inode_sync s3 a 512 = Inr s4" "appended s1 a buf others s4" "live s4 = live s1" by auto
  have hw: "unat (i_size (inodes s1 a) div BLOCK_SIZE + 1) = nblocks (inodes s1 a)"
    "unat ((i_size (inodes s1 a) + ?cnt) div BLOCK_SIZE + 1) = ?will"
  proof -
    have "unat (p div BLOCK_SIZE + 1) = unat p div 512 + 1" if "unat p < 6144" for p :: u32
      using that by (simp add: unat_word_ariths BLOCK_SIZE_def SECTOR_SIZE_def unat_div)
    then show "unat (i_size (inodes s1 a) div BLOCK_SIZE + 1) = nblocks (inodes s1 a)"
      "unat ((i_size (inodes s1 a) + ?cnt) div BLOCK_SIZE + 1) = ?will"
      using buf sum by (simp_all add: nb i1)
  qed
  have w140: "?will \<le> 140" using buf by simp
  have "file_write s f buf = Inr (?cnt, s4\<lparr>live := live s\<rparr>)"
    using f small m mem s1(1) b hw w140 p1(4)
    by (simp add: file_write_def Let_def fs_free_def)
  moreover have "appended s a buf others (s4\<lparr>live := live s\<rparr>)"
  proof -
    have "appended ?s0 a buf others s4"
    proof (rule appended_first [OF b(4) s1(3)])
      show "inodes s1 = (inodes ?s0)(a := (inodes ?s0 a)\<lparr>i_sectors := secs\<rparr>)" using s1(5) by simp
    qed (use s1(6) lay others in \<open>simp_all add: mem_cong\<close>)
    then show ?thesis by (simp add: appended_mem)
  qed
  ultimately show ?thesis by (intro exI [of _ "s4\<lparr>live := live s\<rparr>"]) simp
qed

section \<open>Reading\<close>

text \<open>The loop returns the bytes at the position of the file in the sectors that \<open>all_blocks\<close> lists.\<close>

definition moved :: "fsys \<Rightarrow> nat \<Rightarrow> nat \<Rightarrow> fsys" where
  "moved s f n = upd_file s f (\<lambda>x. x\<lparr>fd_pos := fd_pos x + of_nat n\<rparr>)"

lemma take_drop_split: "c \<le> n \<Longrightarrow> take n (drop p xs) = take c (drop p xs) @ take (n - c) (drop (p + c) xs)"
proof -
  assume "c \<le> n"
  then have "take n (drop p xs) = take (c + (n - c)) (drop p xs)" by simp
  also have "\<dots> = take c (drop p xs) @ take (n - c) (drop c (drop p xs))" by (rule take_add)
  finally show ?thesis by (simp add: add.commute)
qed

lemma chunk_of_concat:
  assumes len: "\<And>a. length (f a) = 512" and q: "q < length bl" and rc: "r + c \<le> 512"
  shows "take c (drop (512 * q + r) (concat (map f bl))) = sub (f (bl ! q)) r c"
proof -
  have "bl = take q bl @ bl ! q # drop (Suc q) bl" using q by (rule id_take_nth_drop)
  then have "concat (map f bl) = concat (map f (take q bl)) @ f (bl ! q) @ concat (map f (drop (Suc q) bl))"
    by (metis concat.simps(2) concat_append list.simps(9) map_append)
  moreover have "length (concat (map f (take q bl))) = 512 * q"
    using length_concat_sectors [of f, OF len] q by simp
  ultimately show ?thesis using rc by (simp add: sub_def len)
qed

lemma read_loop_bytes:
  assumes "disk_ok s" "f < length (file_table s)" "\<And>l. l \<in> set ab \<Longrightarrow> l \<le> max_lba"
    "unat (fd_pos (file_table s ! f)) + n \<le> 512 * length ab" "length ab = 140"
  shows "read_loop s f ab n =
    Inr (take n (drop (unat (fd_pos (file_table s ! f))) (concat (map (sectors s) ab))), moved s f n)"
  using assms
proof (induction n arbitrary: s rule: less_induct)
  case (less n)
  let ?x = "file_table s ! f" and ?p = "unat (fd_pos (file_table s ! f))"
  show ?case
  proof (cases "n = 0")
    case True
    then show ?thesis by (simp add: read_loop.simps moved_def upd_file_def)
  next
    case False
    define q where "q = ?p div 512"
    define r where "r = ?p mod 512"
    define c where "c = min n (512 - r)"
    have p: "?p = 512 * q + r" "r < 512" by (simp_all add: q_def r_def)
    have c: "0 < c" "c \<le> n" "r + c \<le> 512" using False p(2) by (auto simp: c_def)
    have q: "q < length ab" using less.prems(4) p(1) False by linarith
    have l: "ab ! q \<le> max_lba" using less.prems(3) q by simp
    let ?s = "moved s f c"
    have x: "file_table ?s ! f = ?x\<lparr>fd_pos := fd_pos ?x + of_nat c\<rparr>"
      using less.prems(2) by (simp add: moved_def upd_file_def)
    have pc: "unat (fd_pos (file_table ?s ! f)) = ?p + c"
      using less.prems(4,5) c by (simp add: x unat_word_ariths)
    have ch: "chunk_at (fd_pos ?x) n = c" by (simp add: pos_split c_def r_def)
    have "read_loop s f ab n =
        bnd (disk_read s (ab ! q) 1) (\<lambda>io_buf. bnd (read_loop ?s f ab (n - c)) (\<lambda>(rest, s). Inr (sub io_buf r c @ rest, s)))"
      using False by (subst read_loop.simps)
        (simp only: Let_def ch pos_split(1,2) q_def [symmetric] r_def [symmetric] if_False moved_def)
    moreover have "read_loop ?s f ab (n - c) =
        Inr (take (n - c) (drop (unat (fd_pos (file_table ?s ! f))) (concat (map (sectors ?s) ab))), moved ?s f (n - c))"
      using less.prems c pc by (intro less.IH) (simp_all add: moved_def upd_file_def disk_ok_def)
    moreover have "moved ?s f (n - c) = moved s f n"
      using less.prems(2) c(2) by (simp add: moved_def upd_file_def add.assoc)
    moreover have "sectors ?s = sectors s" by (simp add: moved_def upd_file_def)
    moreover have "take n (drop ?p (concat (map (sectors s) ab))) =
        sub (sectors s (ab ! q)) r c @ take (n - c) (drop (?p + c) (concat (map (sectors s) ab)))"
      using take_drop_split [OF c(2), of ?p "concat (map (sectors s) ab)"] chunk_of_concat [of "sectors s" q ab r c] less.prems(1) q c(3)
      by (simp add: p(1) disk_ok_def)
    ultimately show ?thesis using disk_one(1) [OF l, of s] pc by simp
  qed
qed

lemma concat_nth:
  assumes len: "\<And>a. length (f a) = 512" and p: "p < 512 * length bl"
  shows "concat (map f bl) ! p = f (bl ! (p div 512)) ! (p mod 512)"
proof -
  have q: "p div 512 < length bl" using p by (simp add: less_mult_imp_div_less mult.commute)
  have "take 1 (drop p (concat (map f bl))) = sub (f (bl ! (p div 512))) (p mod 512) 1"
    using chunk_of_concat [of f "p div 512" bl "p mod 512" 1, OF len q] by (simp add: Suc_leI)
  moreover have "p < length (concat (map f bl))" using p length_concat_sectors [of f, OF len] by simp
  ultimately show ?thesis by (simp add: sub_def take_Suc_conv_app_nth hd_drop_conv_nth [symmetric] len take_Suc drop_eq_Nil)
qed

definition blocks_read :: "u32 list \<Rightarrow> nat \<Rightarrow> nat \<Rightarrow> u32 list" where
  "blocks_read secs i j =
     (if i = j then (replicate 140 0)[j := secs ! j] else overlay (replicate 140 0) i (sub secs i (j - i)))"

lemma blocks_read_props:
  assumes "i \<le> j" "j < 12" "length secs = 13"
  shows "length (blocks_read secs i j) = 140" "i \<le> k \<Longrightarrow> k < j \<or> i = j \<and> k = j \<Longrightarrow> blocks_read secs i j ! k = secs ! k"
    "i < j \<Longrightarrow> blocks_read secs i j ! j = 0" "set (blocks_read secs i j) \<subseteq> insert 0 (set (take (Suc j) secs))"
proof -
  have o: "i + length (sub secs i (j - i)) \<le> 140" "length (sub secs i (j - i)) = j - i" using assms by simp_all
  show l: "length (blocks_read secs i j) = 140" using o by (simp add: blocks_read_def)
  have nth: "blocks_read secs i j ! k = (if i \<le> k \<and> k < j \<or> i = j \<and> k = j then secs ! k else 0)" if "k < 140" for k
    using that assms o by (auto simp: blocks_read_def nth_overlay nth_list_update sub_def)
  show "blocks_read secs i j ! k = secs ! k" if "i \<le> k" "k < j \<or> i = j \<and> k = j" using that nth [of k] assms by auto
  show "blocks_read secs i j ! j = 0" if "i < j" using that nth [of j] assms by simp
  show "set (blocks_read secs i j) \<subseteq> insert 0 (set (take (Suc j) secs))"
  proof
    fix x assume "x \<in> set (blocks_read secs i j)"
    then obtain k where "k < 140" "x = blocks_read secs i j ! k" using l by (auto simp: in_set_conv_nth)
    then have "x = 0 \<or> k \<le> j \<and> x = secs ! k" using nth [of k] by auto
    then show "x \<in> insert 0 (set (take (Suc j) secs))" using assms by (auto simp: in_set_conv_nth intro!: exI [of _ k])
  qed
qed

text \<open>What \<open>file_read\<close> returns, before comparing it with the contents of the file.\<close>

lemma file_read_step:
  assumes ok: "fs_ok s" "blocks_fit (part s)" and f: "f < length (file_table s)" "fd_inode (file_table s ! f) = a"
    and fi: "file_ok s a" and pos: "pos = unat (fd_pos (file_table s ! f))" "pos + unat cnt < 2 ^ 32"
    and n: "n = min (unat cnt) (unat (i_size (inodes s a)) - pos)" "0 < n"
    and mem: "answers s = x # y # as" "x \<noteq> NULL" "y \<noteq> NULL"
  shows "file_read s f cnt = Inr (of_nat n,
    take n (drop pos (concat (map (sectors s) (blocks_read (i_sectors (inodes s a)) (pos div 512) ((pos + n) div 512))))),
    (moved s f n)\<lparr>answers := as\<rparr>)"
proof -
  let ?i = "inodes s a" and ?len = "unat (i_size (inodes s a))" and ?x = "file_table s ! f"
  let ?fst = "pos div 512" and ?j = "(pos + n) div 512" and ?secs = "i_sectors (inodes s a)"
  let ?s0 = "s\<lparr>answers := as, live := y # x # live s\<rparr>"
  have i: "length ?secs = 13" "?len < 6144" "blocks_ok s (take (nblocks ?i) ?secs)" "nblocks ?i = 0 \<Longrightarrow> i_size ?i = 0"
    using fi by (simp_all add: file_ok_def Let_def)
  have le: "pos + n \<le> ?len" "pos < ?len" using n by auto
  have nb: "nblocks ?i = ?len div 512 + 1" using i(4) le by (auto simp: nblocks_def)
  have j: "?fst \<le> ?j" "?j < 12" "?j \<le> ?len div 512" using le i(2) by (simp_all add: div_le_mono)
  note br = blocks_read_props [OF j(1,2) i(1)]
  have lba: "l \<le> max_lba" if "l \<in> set (blocks_read ?secs ?fst ?j)" for l
  proof -
    have "set (take (Suc ?j) ?secs) \<subseteq> set (take (nblocks ?i) ?secs)" using j(3) nb by (intro set_take_subset_set_take) simp
    then have "l = 0 \<or> l \<in> set (take (nblocks ?i) ?secs)" using that br(4) by auto
    then show ?thesis using blocks_ok_lba(1) [OF _ ok(2) i(3)] ok(1) by (auto simp: fs_ok_def)
  qed
  have un: "unat (of_nat n :: u32) = n" using le i(2) by simp
  have sz: "(if fd_pos ?x + cnt > i_size ?i then i_size ?i - fd_pos ?x else cnt) = of_nat n"
  proof -
    have s: "unat (fd_pos ?x + cnt) = pos + unat cnt" using pos by (simp add: unat_word_ariths)
    have "unat (i_size ?i - fd_pos ?x) = ?len - pos" using le pos(1) by (simp add: unat_sub word_le_nat_alt)
    then have "unat (if fd_pos ?x + cnt > i_size ?i then i_size ?i - fd_pos ?x else cnt) = n"
      using s n le by (cases "i_size ?i < fd_pos ?x + cnt") (simp_all add: word_less_nat_alt)
    then show ?thesis by (simp only: word_unat_eq_iff un)
  qed
  have psum: "unat (fd_pos ?x + of_nat n) = pos + n" using pos(1) le i(2) by (simp add: unat_word_ariths)
  have m: "fs_malloc s 512 = (x, s\<lparr>answers := y # as, live := x # live s\<rparr>)"
    "fs_malloc (s\<lparr>answers := y # as, live := x # live s\<rparr>) (140 * 4) = (y, ?s0)"
    using mem by (simp_all add: fs_malloc_def)
  have ij: "unat (fd_pos ?x div BLOCK_SIZE) = ?fst" "unat ((fd_pos ?x + of_nat n) div BLOCK_SIZE) = ?j"
    using pos(1) psum by (simp_all add: pos_split)
  have a139: "fd_pos ?x div BLOCK_SIZE < 139" "(fd_pos ?x + of_nat n) div BLOCK_SIZE < 139"
    using j by (simp_all add: word_less_nat_alt ij)
  have rb: "read_blocks ?s0 a ?fst ?j = Inr (blocks_read ?secs ?fst ?j)"
    using j by (simp add: read_blocks_def blocks_read_def Let_def)
  have rl: "read_loop ?s0 f (blocks_read ?secs ?fst ?j) n =
      Inr (take n (drop pos (concat (map (sectors s) (blocks_read ?secs ?fst ?j)))), moved ?s0 f n)"
    using read_loop_bytes [of ?s0 f "blocks_read ?secs ?fst ?j" n] ok(1) f lba br(1) le i(2) pos(1)
    by (simp add: fs_ok_def disk_ok_def)
  have "of_nat n \<noteq> (0 :: u32)" using un n(2) by (metis unat_0 less_irrefl)
  then show ?thesis
    unfolding file_read_def Let_def f(2) sz m prod.case
    using mem a139 rb rl ij un by (simp add: fs_free_def moved_def upd_file_def)
qed

lemma length_content:
  assumes "disk_ok s" "length (i_sectors (inodes s a)) = 13" "unat (i_size (inodes s a)) < 6144"
  shows "length (content s a) = unat (i_size (inodes s a))"
  using assms length_concat_sectors [of "sectors s" "take 12 (i_sectors (inodes s a))"]
  by (simp add: content_def content_on_def disk_ok_def)

lemma content_nth:
  assumes ok: "disk_ok s" "length (i_sectors (inodes s a)) = 13" "unat (i_size (inodes s a)) < 6144"
    and p: "p < unat (i_size (inodes s a))"
  shows "content s a ! p = sectors s (i_sectors (inodes s a) ! (p div 512)) ! (p mod 512)"
proof -
  have "p < 512 * length (take 12 (i_sectors (inodes s a)))" "p div 512 < 12" using ok p by auto
  then show ?thesis
    using concat_nth [of "sectors s" p "take 12 (i_sectors (inodes s a))"] ok(1) p
    by (simp add: content_def content_on_def disk_ok_def)
qed

text \<open>The bytes that come from blocks in the list are those of the file.\<close>

lemma blocks_read_content:
  assumes ok: "disk_ok s" "length (i_sectors (inodes s a)) = 13" "unat (i_size (inodes s a)) < 6144"
    and n: "pos + n \<le> unat (i_size (inodes s a))" and j: "pos div 512 \<le> j" "j < 12"
    and m: "pos + n \<le> 512 * j \<or> pos div 512 = j \<and> (pos + n) div 512 = j"
  shows "take n (drop pos (concat (map (sectors s) (blocks_read (i_sectors (inodes s a)) (pos div 512) j)))) =
    take n (drop pos (content s a))"
proof (rule nth_equalityI)
  let ?ab = "blocks_read (i_sectors (inodes s a)) (pos div 512) j"
  have len: "length (sectors s x) = 512" for x using ok(1) by (simp add: disk_ok_def)
  note br = blocks_read_props [OF j ok(2)]
  have lab: "length (concat (map (sectors s) ?ab)) = 512 * 140" using length_concat_sectors [of "sectors s", OF len] br(1) by simp
  show l: "length (take n (drop pos (concat (map (sectors s) ?ab)))) = length (take n (drop pos (content s a)))"
    using n ok lab length_content [OF ok] by simp
  fix i assume "i < length (take n (drop pos (concat (map (sectors s) ?ab))))"
  then have i: "i < n" by simp
  let ?k = "(pos + i) div 512"
  have "pos div 512 \<le> ?k" by (simp add: div_le_mono)
  moreover have "?k < j \<or> pos div 512 = j \<and> ?k = j"
  proof (cases "pos + n \<le> 512 * j")
    case True
    then show ?thesis using i by (simp add: div_less_iff_less_mult)
  next
    case False
    moreover have "?k \<le> (pos + n) div 512" using i by (simp add: div_le_mono)
    ultimately show ?thesis using m \<open>pos div 512 \<le> ?k\<close> by linarith
  qed
  ultimately have "?ab ! ?k = i_sectors (inodes s a) ! ?k" by (rule br(2))
  then show "take n (drop pos (concat (map (sectors s) ?ab))) ! i = take n (drop pos (content s a)) ! i"
    using i n ok(3) lab br(1) length_content [OF ok] concat_nth [of "sectors s" "pos + i" ?ab, OF len]
      content_nth [OF ok, of "pos + i"] by simp
qed

text \<open>
  C17: \<open>file_write\<close> appends: for a file that stays within its 12 direct blocks, whose i-node lies in one sector of the table (for one that crosses a
  sector boundary, such as number 6, the buffer of one sector is too small), while the blocks it needs are free, it returns the
  number of bytes, the contents of the file become the old contents followed by the buffer, and the two buffers are freed. On the disk the slot of
  the i-node (of its number modulo 256, see \<open>inode_sync\<close>) is the one in memory, and every other slot of the table is as before. Blocks
  of other files and the other i-nodes in memory stay as they are, and the new blocks are none
  of theirs.
\<close>

theorem file_write_appends:
  assumes "fs_ok s" "blocks_fit (part s)" "f < length (file_table s)" "fd_inode (file_table s ! f) = a"
    and "file_ok s a" "blocks_ok s (file_blocks s a @ others)"
    and "unat (i_size (inodes s a)) + length buf < 6144"
    and "(unat (i_size (inodes s a)) + length buf) div 512 + 1 - nblocks (inodes s a) \<le> card (free_blocks_of s)"
    and "76 * (unat (i_no (inodes s a)) mod 256) mod 512 \<le> 436"
    and "answers s = x # y # as" "x \<noteq> NULL" "y \<noteq> NULL"
  shows "\<exists>s'. file_write s f buf = Inr (of_nat (length buf), s') \<and> appended s a buf others s' \<and> live s' = live s"
  using assms by (rule file_write_step)

text \<open>
  C18: A read inside one block, or up to a block boundary, of a file of direct blocks only (less than 6144 bytes) returns the bytes of
  the file at the position of the descriptor, at most up to the end of the file, and moves the position behind them. The
  buffers are freed and nothing else changes.
\<close>

theorem file_read_correct:
  assumes ok: "fs_ok s" "blocks_fit (part s)" and f: "f < length (file_table s)" "fd_inode (file_table s ! f) = a"
    and fi: "file_ok s a" and pos: "pos = unat (fd_pos (file_table s ! f))" "pos + unat cnt < 2 ^ 32"
    and n: "n = min (unat cnt) (unat (i_size (inodes s a)) - pos)" "0 < n"
    and block: "(pos + n) div 512 = pos div 512 \<or> (pos + n) mod 512 = 0"
    and mem: "answers s = x # y # as" "x \<noteq> NULL" "y \<noteq> NULL"
  shows "file_read s f cnt = Inr (of_nat n, take n (drop pos (content s a)), (moved s f n)\<lparr>answers := as\<rparr>)"
proof -
  have i: "length (i_sectors (inodes s a)) = 13" "unat (i_size (inodes s a)) < 6144" "disk_ok s"
    using fi ok(1) by (simp_all add: file_ok_def fs_ok_def Let_def)
  have le: "pos + n \<le> unat (i_size (inodes s a))" using n by auto
  have "pos + n \<le> 512 * ((pos + n) div 512) \<or> pos div 512 = (pos + n) div 512 \<and> (pos + n) div 512 = (pos + n) div 512"
    using block by (auto simp: mod_eq_0_iff_dvd)
  moreover have "pos div 512 \<le> (pos + n) div 512" "(pos + n) div 512 < 12" using le i(2) by (simp_all add: div_le_mono)
  ultimately show ?thesis
    using file_read_step [OF ok f fi pos n mem] blocks_read_content [OF i(3,1,2) le] by simp
qed

text \<open>
  A read that ends inside a later direct block returns wrong data: the list of blocks stops before
  that block, so its bytes are taken from sector 0 of the disk.
\<close>

theorem file_read_wrong_block:
  assumes ok: "fs_ok s" "blocks_fit (part s)" and f: "f < length (file_table s)" "fd_inode (file_table s ! f) = a"
    and fi: "file_ok s a" and pos: "pos = unat (fd_pos (file_table s ! f))" "pos + unat cnt < 2 ^ 32"
    and n: "n = min (unat cnt) (unat (i_size (inodes s a)) - pos)" "0 < n"
    and block: "j = (pos + n) div 512" "pos div 512 < j" "(pos + n) mod 512 \<noteq> 0"
    and mem: "answers s = x # y # as" "x \<noteq> NULL" "y \<noteq> NULL"
  shows "\<exists>s'. file_read s f cnt =
    Inr (of_nat n, take (512 * j - pos) (drop pos (content s a)) @ take ((pos + n) mod 512) (sectors s 0), s')"
proof -
  let ?secs = "i_sectors (inodes s a)" and ?b = "512 * j - pos" and ?r = "(pos + n) mod 512"
  let ?ab = "blocks_read ?secs (pos div 512) j"
  have i: "length ?secs = 13" "unat (i_size (inodes s a)) < 6144" "disk_ok s"
    using fi ok(1) by (simp_all add: file_ok_def fs_ok_def Let_def)
  have le: "pos + n \<le> unat (i_size (inodes s a))" using n by auto
  have j: "pos div 512 \<le> j" "j < 12" using le i(2) block by simp_all
  have pj: "pos + n = 512 * j + ?r" "pos \<le> 512 * j" "?r < 512"
    using block(1,2) by (simp_all add: div_less_iff_less_mult less_imp_le mult.commute)
  have br: "length ?ab = 140" "?ab ! j = 0" using blocks_read_props [OF j i(1)] block(2) by simp_all
  have "take n (drop pos (concat (map (sectors s) ?ab))) =
      take ?b (drop pos (concat (map (sectors s) ?ab))) @ take (n - ?b) (drop (pos + ?b) (concat (map (sectors s) ?ab)))"
    by (rule take_drop_split) (use pj in linarith)
  also have "take ?b (drop pos (concat (map (sectors s) ?ab))) = take ?b (drop pos (content s a))"
    using pj le j by (intro blocks_read_content [OF i(3,1,2)]) simp_all
  also have "take (n - ?b) (drop (pos + ?b) (concat (map (sectors s) ?ab))) = take ?r (sectors s 0)"
  proof -
    have "pos + ?b = 512 * j + 0" "n - ?b = ?r" using pj by linarith+
    then show ?thesis
      using chunk_of_concat [of "sectors s" j ?ab 0 ?r] i(3) br j pj(3) by (simp add: disk_ok_def sub_def)
  qed
  finally show ?thesis using file_read_step [OF ok f fi pos n mem] block(1) by simp
qed

text \<open>
  A file that has indirect blocks already cannot grow: the write that would need a new block takes one
  from the bitmap, writes nothing and returns -1; the block and the two buffers of the call are lost.
\<close>

theorem file_write_indirect_fails:
  assumes ok: "fs_ok s" "blocks_fit (part s)" and f: "fd_inode (file_table s ! f) = a"
    and i: "unat (i_size (inodes s a)) + length buf < 71680" "6144 \<le> unat (i_size (inodes s a))"
      "i_sectors (inodes s a) ! 0 \<noteq> 0" "i_sectors (inodes s a) ! 12 \<noteq> 0" "i_sectors (inodes s a) ! 12 \<le> max_lba"
    and grow: "unat (i_size (inodes s a)) div 512 < (unat (i_size (inodes s a)) + length buf) div 512"
    and free: "free_blocks_of s \<noteq> {}" and mem: "answers s = x # y # as" "x \<noteq> NULL" "y \<noteq> NULL"
  shows "\<exists>b s'. file_write s f buf = Inr (- 1, s') \<and> b \<in> free_blocks_of s \<and>
    free_blocks_of s' = free_blocks_of s - {b} \<and> inodes s' = inodes s \<and> sectors s' = sectors s \<and>
    live s' = y # x # live s"
proof -
  let ?i = "inodes s a" and ?n = "unat (i_size (inodes s a))" and ?cnt = "of_nat (length buf) :: u32"
  let ?s0 = "s\<lparr>answers := as, live := y # x # live s\<rparr>"
  have lay: "layout_ok (part ?s0)" "blocks_fit (part ?s0)" "free_blocks_of ?s0 \<noteq> {}"
    using ok free by (simp_all add: fs_ok_def mem_cong)
  from block_alloc [OF this] obtain b m where
    b: "block_bitmap_alloc ?s0 = Inr (block_addr ?s0 b, ?s0\<lparr>fmem := m\<rparr>)" "b \<in> free_blocks_of s"
      "free_blocks_of (?s0\<lparr>fmem := m\<rparr>) = free_blocks_of s - {b}" by (auto simp: mem_cong)
  have m: "fs_malloc s BLOCK_SIZE = (x, s\<lparr>answers := y # as, live := x # live s\<rparr>)"
    "fs_malloc (s\<lparr>answers := y # as, live := x # live s\<rparr>) (140 * 4) = (y, ?s0)"
    using mem by (simp_all add: fs_malloc_def)
  have sum: "unat (i_size ?i + ?cnt) = ?n + length buf" using i(1) by (simp add: unat_word_ariths)
  have small: "\<not> i_size ?i + ?cnt > BLOCK_SIZE * (12 + 128)"
    using i(1) sum by (simp add: word_less_nat_alt BLOCK_SIZE_def SECTOR_SIZE_def)
  have hw: "unat (p div BLOCK_SIZE + 1) = unat p div 512 + 1" if "unat p < 71680" for p :: u32
    using that by (simp add: unat_word_ariths BLOCK_SIZE_def SECTOR_SIZE_def unat_div)
  let ?has = "?n div 512 + 1" and ?will = "(?n + length buf) div 512 + 1"
  have w: "?will \<le> 140" "12 < ?has" "?has \<noteq> ?will" "\<not> ?will \<le> 12" "\<not> ?has \<le> 12" using i(1,2) grow by simp_all
  have "write_blocks ?s0 a ?has ?will = Inr (Return (- 1) (?s0\<lparr>fmem := m\<rparr>))"
    using w i(4,5) disk_one(1) [OF i(5), of ?s0] b(1) grow
    by (simp add: write_blocks_def grow_indirect_def Let_def)
  moreover have "write_first ?s0 a = Inr (Next ?s0)" using i(3) by (simp add: write_first_def)
  moreover have "unat (i_size ?i div BLOCK_SIZE + 1) = ?has" "unat ((i_size ?i + ?cnt) div BLOCK_SIZE + 1) = ?will"
    using hw [of "i_size ?i"] hw [of "i_size ?i + ?cnt"] i(1) sum by simp_all
  ultimately have "file_write s f buf = Inr (- 1, ?s0\<lparr>fmem := m\<rparr>)"
    using f small m mem w(1) by (simp add: file_write_def Let_def)
  then show ?thesis using b by (intro exI [of _ b] exI [of _ "?s0\<lparr>fmem := m\<rparr>"]) simp
qed

section \<open>Examples\<close>

text \<open>A file of 600 bytes in blocks 713 and 714, open in slot 3 of the file table, and a large one in slot 4.\<close>

definition demo_files :: fsys where
  "demo_files = demo_fs\<lparr>fmem := (\<lambda>_. 0)(0x1000 := 7),
     inodes := (inodes demo_fs)(0x200 := (inode_init 7)\<lparr>i_size := 600, i_open_cnt := 1, i_sectors := 713 # 714 # replicate 11 0\<rparr>,
       0x300 := (inode_init 8)\<lparr>i_size := 6154, i_open_cnt := 1, i_sectors := map of_nat [720..<733]\<rparr>),
     file_table := (file_table demo_fs)[3 := \<lparr>fd_pos = 0, fd_flag = 0, fd_inode = 0x200\<rparr>,
       4 := \<lparr>fd_pos = 0, fd_flag = 0, fd_inode = 0x300\<rparr>]\<rparr>"

lemma demo_files_fields:
  "part demo_files = demo_part" "sectors demo_files = (\<lambda>_. replicate 512 0)" "fmem demo_files = (\<lambda>_. 0)(0x1000 := 7)"
  "inodes demo_files 0x200 = (inode_init 7)\<lparr>i_size := 600, i_open_cnt := 1, i_sectors := 713 # 714 # replicate 11 0\<rparr>"
  "inodes demo_files 0x300 = (inode_init 8)\<lparr>i_size := 6154, i_open_cnt := 1, i_sectors := map of_nat [720..<733]\<rparr>"
  "file_table demo_files ! 3 = \<lparr>fd_pos = 0, fd_flag = 0, fd_inode = 0x200\<rparr>"
  "file_table demo_files ! 4 = \<lparr>fd_pos = 0, fd_flag = 0, fd_inode = 0x300\<rparr>" "length (file_table demo_files) = 32"
  "answers demo_files = [0x300, 0x400, 0x500, 0x600]"
  by (simp_all add: demo_files_def demo_fs_def)

lemma demo_files_ok: "fs_ok demo_files" "blocks_fit (part demo_files)"
  using demo_fs_ok
  by (simp_all add: fs_ok_def disk_ok_def demo_files_fields demo_fs_def blocks_fit_def demo_part_def demo_super_def
      bm_wf_def bm_len_def max_lba_unat)

lemma demo_used: "b \<in> {1, 2} \<Longrightarrow> used_block demo_files (712 + of_nat b)"
  by (auto simp: used_block_def block_addr_def free_blocks_of_def demo_files_fields demo_part_def demo_super_def
      bm_len_def bm_bit_def intro: exI [of _ 1] exI [of _ 2])

lemma demo_file_ok: "file_ok demo_files 0x200" "blocks_ok demo_files (file_blocks demo_files 0x200 @ [])"
proof -
  have nb: "nblocks (inodes demo_files 0x200) = 2" by (simp add: nblocks_def demo_files_fields)
  have b: "blocks_ok demo_files [713, 714]"
    using demo_used [of 1] demo_used [of 2] by (simp add: blocks_ok_def)
  have t: "take 2 (713 # 714 # replicate 11 0) = [713, 714 :: u32]" by simp
  show "blocks_ok demo_files (file_blocks demo_files 0x200 @ [])"
    using b t by (simp add: file_blocks_def nb) (simp add: demo_files_fields)
  have "(713 # 714 # replicate 11 0 :: u32 list) ! j = 0" if "j < 12" "2 \<le> j" for j
    using that by (cases j; cases "j - 1") (auto simp: nth_Cons')
  then show "file_ok demo_files 0x200"
    unfolding file_ok_def Let_def nb using b t by (simp add: demo_files_fields)
qed

theorem file_write_appends_witness:
  "\<exists>s'. file_write demo_files 3 [1, 2, 3] = Inr (3, s') \<and> content s' 0x200 = content demo_files 0x200 @ [1, 2, 3] \<and>
     live s' = live demo_files"
proof -
  have "\<exists>s'. file_write demo_files 3 [1, 2, 3] = Inr (of_nat (length [1, 2, 3 :: u8]), s') \<and>
      appended demo_files 0x200 [1, 2, 3] [] s' \<and> live s' = live demo_files"
    by (rule file_write_appends [OF demo_files_ok _ _ demo_file_ok, where x = "0x300" and y = "0x400"])
      (simp_all add: demo_files_fields nblocks_def inode_init_def)
  then show ?thesis by (auto simp: appended_def)
qed

theorem file_read_correct_witness:
  "file_read demo_files 3 100 =
     Inr (of_nat 100, take 100 (drop 0 (content demo_files 0x200)), (moved demo_files 3 100)\<lparr>answers := [0x500, 0x600]\<rparr>)"
  by (rule file_read_correct [OF demo_files_ok _ _ demo_file_ok(1), where x = "0x300" and y = "0x400"])
    (simp_all add: demo_files_fields)

theorem file_read_wrong_block_witness:
  "\<exists>s'. file_read demo_files 3 600 =
     Inr (of_nat 600, take (512 * 1 - 0) (drop 0 (content demo_files 0x200)) @ take ((0 + 600) mod 512) (sectors demo_files 0), s')"
  by (rule file_read_wrong_block [OF demo_files_ok _ _ demo_file_ok(1), where x = "0x300" and y = "0x400"])
    (simp_all add: demo_files_fields)

theorem file_write_indirect_fails_witness:
  "\<exists>b s'. file_write demo_files 4 (replicate 600 1) = Inr (- 1, s') \<and> b \<in> free_blocks_of demo_files \<and>
     free_blocks_of s' = free_blocks_of demo_files - {b} \<and> inodes s' = inodes demo_files \<and>
     sectors s' = sectors demo_files \<and> live s' = 0x400 # 0x300 # live demo_files"
proof -
  have "3 \<in> free_blocks_of demo_files"
    by (simp add: free_blocks_of_def demo_files_fields demo_part_def bm_len_def bm_bit_def)
  then have ne: "free_blocks_of demo_files \<noteq> {}" by blast
  show ?thesis
    by (rule file_write_indirect_fails [OF demo_files_ok _ _ _ _ _ _ _ ne, where a = "0x300"])
      (simp_all add: demo_files_fields inode_init_def max_lba_def)
qed

end
