(* ===== verification/Paths.thy ===== *)
theory Paths
  imports Fsstate
begin

text \<open>
  Path names: \<open>path_parse\<close> and \<open>path_depth_cnt\<close> of \<^verbatim>\<open>fs/fs.c\<close>, and the cleaning of paths in
  \<^verbatim>\<open>user/buildin_cmd.c\<close>. A C string is the list of its characters without the final zero; a local
  \<open>char\<close> array is a list of its length. \<open>components\<close> splits a path at its slashes; the lemmas say
  what the functions compute in these terms.
\<close>

section \<open>Definitions\<close>

definition MAX_FILE_NAME_LEN :: nat where "MAX_FILE_NAME_LEN = 16"
definition MAX_PATH_LEN :: nat where "MAX_PATH_LEN = 512"

abbreviation slash :: u8 where "slash \<equiv> 0x2F"
abbreviation dot :: u8 where "dot \<equiv> 0x2E"

text \<open>
  The characters up to the first zero of an array. An array without a zero is no C string: reading it
  as one runs over its end.
\<close>

definition cstring :: "u8 list \<Rightarrow> ('s, u8 list) res" where
  "cstring a = (if 0 \<in> set a then Inr (takeWhile (\<lambda>c. c \<noteq> 0) a) else Inl (Fault ''char array''))"

text \<open>
  The result is the rest of the path (\<open>None\<close> for the null pointer), the array \<open>name_store\<close> and the path
  itself, whose first character the assignment in \<open>if (pathname[0] = '/')\<close> overwrites. On
  an empty path this destroys the final zero. A name longer than the array runs over its end.
\<close>

definition path_parse :: "u8 list \<Rightarrow> u8 list \<Rightarrow> ('s, u8 list option \<times> u8 list \<times> u8 list) res" where
  "path_parse pathname name_store =
     (if pathname = [] then Inl (Fault ''pathname[0]'')
      else let p = dropWhile (\<lambda>c. c = slash) (tl pathname);
               name = takeWhile (\<lambda>c. c \<noteq> slash) p; rest = dropWhile (\<lambda>c. c \<noteq> slash) p
           in if length name > length name_store then Inl (Fault ''name_store'')
              else Inr (if rest = [] then None else Some rest, overlay name_store 0 name, slash # tl pathname))"

lemma path_parse_shorter:
  assumes "path_parse p name = Inr (Some q, name', p')"
  shows "length q < length p"
proof -
  define r where "r = dropWhile (\<lambda>c. c \<noteq> slash) (dropWhile (\<lambda>c. c = slash) (tl p))"
  have "q = r" "p \<noteq> []"
    using assms unfolding path_parse_def Let_def r_def [symmetric] by (simp_all split: if_splits)
  moreover have "length r \<le> length (tl p)" unfolding r_def by (meson length_dropWhile_le order_trans)
  ultimately show ?thesis by (cases p) auto
qed

text \<open>The loop of \<open>path_depth_cnt\<close>: \<open>name\<close> is the array, \<open>p\<close> the rest of the path.\<close>

function depth_loop :: "u8 list option \<Rightarrow> u8 list \<Rightarrow> u32 \<Rightarrow> ('s, u32) res" where
  "depth_loop p name depth =
     (if name ! 0 = 0 then Inr depth
      else let name = replicate MAX_FILE_NAME_LEN 0
           in case p of
                None \<Rightarrow> depth_loop None name (depth + 1)
              | Some q \<Rightarrow> bnd (path_parse q name) (\<lambda>(p, name, _). depth_loop p name (depth + 1)))"
  by pat_completeness auto

termination
proof (relation "measures [\<lambda>(p, name, d). case p of None \<Rightarrow> 0 | Some q \<Rightarrow> Suc (length q),
    \<lambda>(p, name, d). if name ! 0 = (0 :: u8) then 0 else 1]", goal_cases)
  case (2 p name depth x) then show ?case by (simp add: MAX_FILE_NAME_LEN_def)
next
  case (3 p name depth x q y p' z name' w)
  then show ?case using path_parse_shorter [of q "replicate MAX_FILE_NAME_LEN 0"] by (cases p') auto
qed simp

text \<open>\<open>junk\<close> is what the uninitialised array holds at first. The second result is the path after the call.\<close>

definition path_depth_cnt :: "u8 list \<Rightarrow> u8 list \<Rightarrow> ('s, u32 \<times> u8 list) res" where
  "path_depth_cnt pathname junk =
     bnd (path_parse pathname junk) (\<lambda>(p, name, pathname).
     bnd (depth_loop p name 0) (\<lambda>depth. Inr (depth, pathname)))"

text \<open>
  One turn of the loop of \<open>wash_path\<close>: \<open>slash_ptr\<close> is the index of the last slash of
  \<open>new_abs_path\<close>.
\<close>

definition wash_step :: "u8 list \<Rightarrow> u8 list \<Rightarrow> ('s, u8 list) res" where
  "wash_step new_abs_path name =
     (if name = [dot, dot] then
        if slash \<notin> set new_abs_path then Inl (Fault ''slash_ptr'')
        else let slash_ptr = length new_abs_path - 1 - length (takeWhile (\<lambda>c. c \<noteq> slash) (rev new_abs_path))
             in Inr (if slash_ptr \<noteq> 0 then take slash_ptr new_abs_path else take (slash_ptr + 1) new_abs_path)
      else if name \<noteq> [dot] then
        Inr ((if new_abs_path \<noteq> [slash] then new_abs_path @ [slash] else new_abs_path) @ name)
      else Inr new_abs_path)"

function wash_loop :: "u8 list option \<Rightarrow> u8 list \<Rightarrow> u8 list \<Rightarrow> ('s, u8 list) res" where
  "wash_loop subpath name new_abs_path =
     (if name ! 0 = 0 then Inr new_abs_path
      else bnd (cstring name) (\<lambda>nm.
           bnd (wash_step new_abs_path nm) (\<lambda>new_abs_path.
           let name = replicate MAX_FILE_NAME_LEN 0
           in case subpath of
                None \<Rightarrow> wash_loop None name new_abs_path
              | Some q \<Rightarrow> bnd (path_parse q name) (\<lambda>(subpath, name, _). wash_loop subpath name new_abs_path))))"
  by pat_completeness auto

termination
proof (relation "measures [\<lambda>(p, name, d). case p of None \<Rightarrow> 0 | Some q \<Rightarrow> Suc (length q),
    \<lambda>(p, name, d). if name ! 0 = (0 :: u8) then 0 else 1]", goal_cases)
  case (2 p name new x y z)
  then show ?case by (simp add: MAX_FILE_NAME_LEN_def)
next
  case (3 p name new nm new' z q y p' w name' v)
  then show ?case using path_parse_shorter [of q "replicate MAX_FILE_NAME_LEN 0"] by (cases p') auto
qed simp

definition wash_path :: "u8 list \<Rightarrow> ('s, u8 list) res" where
  "wash_path old_abs_path =
     bnd (assert_that (take 1 old_abs_path = [slash]) ''old_abs_path[0]'') (\<lambda>_.
     bnd (path_parse old_abs_path (replicate MAX_FILE_NAME_LEN 0)) (\<lambda>(subpath, name, _).
     if name ! 0 = 0 then Inr [slash] else wash_loop subpath name [slash]))"

text \<open>\<open>cwd\<close> is what \<open>getcwd\<close> writes, or \<open>None\<close> when it fails. The array \<open>abs_path\<close> has 512 characters.\<close>

definition make_clear_abs_path :: "u8 list \<Rightarrow> u8 list option \<Rightarrow> ('s, u8 list) res" where
  "make_clear_abs_path pname cwd =
     (let abs_path = (if take 1 pname \<noteq> [slash]
                      then (case cwd of None \<Rightarrow> [] | Some w \<Rightarrow> if w \<noteq> [slash] then w @ [slash] else w) else []);
          abs_path = abs_path @ pname
      in if MAX_PATH_LEN \<le> length abs_path then Inl (Fault ''abs_path'') else wash_path abs_path)"

section \<open>Components\<close>

lemma drop_name_shorter:
  assumes "p = dropWhile (\<lambda>c. c = x) pname" "p \<noteq> []"
  shows "length (dropWhile (\<lambda>c. c \<noteq> x) p) < length pname"
proof -
  obtain c r where p: "p = c # r" "c \<noteq> x"
    using assms by (cases p) (simp_all, metis (mono_tags, lifting) dropWhile_eq_Cons_conv)
  then have "length (dropWhile (\<lambda>c. c \<noteq> x) p) \<le> length r" by (simp add: length_dropWhile_le)
  moreover have "length p \<le> length pname" unfolding assms(1) by (rule length_dropWhile_le)
  ultimately show ?thesis using p by simp
qed

text \<open>The words of a string between the occurrences of a separator.\<close>

function tokens :: "u8 \<Rightarrow> u8 list \<Rightarrow> u8 list list" where
  "tokens x xs =
     (let p = dropWhile (\<lambda>c. c = x) xs
      in if p = [] then [] else takeWhile (\<lambda>c. c \<noteq> x) p # tokens x (dropWhile (\<lambda>c. c \<noteq> x) p))"
  by pat_completeness auto
termination by (relation "measure (\<lambda>(x, xs). length xs)") (simp_all del: dropWhile_eq_Nil_conv add: drop_name_shorter)

abbreviation components :: "u8 list \<Rightarrow> u8 list list" where
  "components \<equiv> tokens slash"

declare tokens.simps [simp del] depth_loop.simps [simp del] wash_loop.simps [simp del]
  dropWhile_eq_Nil_conv [simp del]

lemma takeWhile_stop: "x \<notin> set c \<Longrightarrow> takeWhile (\<lambda>c. c \<noteq> x) (c @ x # r) = c"
  by (induction c) auto

lemma dropWhile_stop: "x \<notin> set c \<Longrightarrow> dropWhile (\<lambda>c. c \<noteq> x) (c @ x # r) = x # r"
  by (induction c) auto

lemma takeWhile_all: "x \<notin> set c \<Longrightarrow> takeWhile (\<lambda>c. c \<noteq> x) c = c \<and> dropWhile (\<lambda>c. c \<noteq> x) c = []"
  by (induction c) auto

lemma takeWhile_subset: "set (takeWhile P xs) \<subseteq> set xs"
  by (induction xs) auto

lemma tokens_Nil [simp]: "tokens x [] = []"
  by (simp add: tokens.simps)

lemma tokens_sep [simp]: "tokens x (x # t) = tokens x t"
  by (simp add: tokens.simps [of x "x # t"] tokens.simps [of x t])

lemma tokens_name:
  fixes x :: u8
  assumes "c \<noteq> []" "x \<notin> set c" "r = [] \<or> hd r = x"
  shows "tokens x (c @ r) = c # tokens x r"
proof -
  have tw: "takeWhile (\<lambda>c. c \<noteq> x) (c @ r) = c" "dropWhile (\<lambda>c. c \<noteq> x) (c @ r) = r"
    using assms(2,3) takeWhile_stop [of x c "tl r"] dropWhile_stop [of x c "tl r"] takeWhile_all [of x c]
    by (cases r; simp)+
  have "dropWhile (\<lambda>c. c = x) (c @ r) = c @ r" using assms(1,2) by (cases c) auto
  then show ?thesis using assms(1) tw by (simp add: tokens.simps [of x "c @ r"] Let_def)
qed

lemma tokens_shape: "c \<in> set (tokens x p) \<Longrightarrow> c \<noteq> [] \<and> x \<notin> set c \<and> set c \<subseteq> set p"
proof (induction x p rule: tokens.induct)
  case (1 x p)
  let ?q = "dropWhile (\<lambda>c. c = x) p"
  have sub: "set ?q \<subseteq> set p" by (meson set_dropWhileD subsetI)
  from 1(2) have ne: "?q \<noteq> []" and c: "c = takeWhile (\<lambda>c. c \<noteq> x) ?q \<or> c \<in> set (tokens x (dropWhile (\<lambda>c. c \<noteq> x) ?q))"
    by (auto simp: tokens.simps [of x p] Let_def split: if_splits)
  from c show ?case
  proof
    assume t: "c = takeWhile (\<lambda>c. c \<noteq> x) ?q"
    have "hd ?q \<noteq> x" using hd_dropWhile [of "\<lambda>c. c = x" p] ne by simp
    then have "c \<noteq> []" unfolding t using ne by (cases ?q) simp_all
    moreover have "x \<notin> set c" unfolding t using set_takeWhileD [of x "\<lambda>c. c \<noteq> x" ?q] by blast
    moreover have "set c \<subseteq> set p" unfolding t using takeWhile_subset sub by (rule subset_trans)
    ultimately show ?thesis by blast
  next
    assume "c \<in> set (tokens x (dropWhile (\<lambda>c. c \<noteq> x) ?q))"
    from 1(1) [OF refl ne this] show ?thesis using sub by (meson set_dropWhileD subsetD subsetI)
  qed
qed

text \<open>What is left of a path after some names: nothing, or a string that starts with a slash.\<close>

definition rest_ok :: "u8 list option \<Rightarrow> bool" where
  "rest_ok r = (case r of None \<Rightarrow> True | Some q \<Rightarrow> q \<noteq> [] \<and> hd q = slash)"

definition rest_components :: "u8 list option \<Rightarrow> u8 list list" where
  "rest_components r = (case r of None \<Rightarrow> [] | Some q \<Rightarrow> components q)"

definition first_name :: "u8 list list \<Rightarrow> u8 list" where
  "first_name cs = (case cs of [] \<Rightarrow> [] | c # _ \<Rightarrow> c)"

lemma path_parse_components:
  assumes "p = slash # t" and len: "length (first_name (components p)) \<le> length name"
  shows "\<exists>r. path_parse p name = Inr (r, overlay name 0 (first_name (components p)), p) \<and>
    rest_ok r \<and> rest_components r = tl (components p)"
proof -
  define q where "q = dropWhile (\<lambda>c. c = slash) t"
  define r where "r = dropWhile (\<lambda>c. c \<noteq> slash) q"
  have c: "components p = (if q = [] then [] else takeWhile (\<lambda>c. c \<noteq> slash) q # components r)"
    unfolding assms(1) tokens_sep by (subst tokens.simps) (simp add: q_def r_def Let_def)
  have f: "first_name (components p) = takeWhile (\<lambda>c. c \<noteq> slash) q"
    by (simp add: c first_name_def)
  have "path_parse p name = Inr (if r = [] then None else Some r, overlay name 0 (first_name (components p)), p)"
    using len unfolding path_parse_def f by (simp add: assms(1) q_def r_def Let_def)
  moreover have "rest_ok (if r = [] then None else Some r)"
    using hd_dropWhile [of "\<lambda>c. c \<noteq> slash" q] by (simp add: rest_ok_def r_def)
  moreover have "rest_components (if r = [] then None else Some r) = tl (components p)"
    by (simp add: rest_components_def c r_def)
  ultimately show ?thesis by blast
qed

text \<open>The same for the rest of a path, with a cleared array: either the pointer is null or there is a name.\<close>

lemma rest_parse:
  assumes "rest_ok (Some q)" "length (first_name (components q)) \<le> MAX_FILE_NAME_LEN"
  shows "\<exists>r. path_parse q (replicate MAX_FILE_NAME_LEN 0) =
      Inr (r, overlay (replicate MAX_FILE_NAME_LEN 0) 0 (first_name (components q)), q) \<and>
    rest_ok r \<and> rest_components r = tl (components q)"
proof -
  obtain t where "q = slash # t" using assms(1) by (cases q) (auto simp: rest_ok_def)
  then show ?thesis using path_parse_components [of q t "replicate MAX_FILE_NAME_LEN 0"] assms(2) by simp
qed

lemma name_array_0:
  assumes "\<And>c. c \<in> set cs \<Longrightarrow> c \<noteq> [] \<and> 0 \<notin> set c" "0 < length a"
  shows "overlay a 0 (first_name cs) ! 0 = (if cs = [] then a ! 0 else hd (hd cs))"
    and "cs \<noteq> [] \<Longrightarrow> overlay a 0 (first_name cs) ! 0 \<noteq> 0"
proof -
  have c: "overlay a 0 (first_name (c # r)) ! 0 = hd c" if "c \<noteq> []" for c r
    using that by (cases c) (simp_all add: overlay_def first_name_def)
  show *: "overlay a 0 (first_name cs) ! 0 = (if cs = [] then a ! 0 else hd (hd cs))"
    using c assms(1) by (cases cs) (simp_all add: overlay_def first_name_def)
  show "overlay a 0 (first_name cs) ! 0 \<noteq> 0" if "cs \<noteq> []"
  proof -
    have "hd cs \<noteq> []" "0 \<notin> set (hd cs)" using assms(1) [OF hd_in_set [OF that]] by simp_all
    then show ?thesis using * that by (cases "hd cs") auto
  qed
qed

section \<open>The depth of a path\<close>

lemma depth_loop_components:
  assumes "rest_ok r" "name = overlay a 0 (first_name cs)" "tl cs = rest_components r"
    and "\<And>c. c \<in> set cs \<Longrightarrow> c \<noteq> [] \<and> 0 \<notin> set c \<and> length c \<le> MAX_FILE_NAME_LEN"
    and "length a = MAX_FILE_NAME_LEN" "cs = [] \<Longrightarrow> a ! 0 = 0"
  shows "(depth_loop r name d :: ('s, u32) res) = Inr (d + of_nat (length cs))"
  using assms
proof (induction cs arbitrary: r name a d)
  case Nil
  then show ?case by (simp add: depth_loop.simps overlay_def first_name_def)
next
  case (Cons c cs)
  let ?z = "replicate MAX_FILE_NAME_LEN 0 :: u8 list"
  have z: "length ?z = MAX_FILE_NAME_LEN" "?z ! 0 = 0" by (simp_all add: MAX_FILE_NAME_LEN_def)
  have nz: "name ! 0 \<noteq> 0"
    using name_array_0(2) [of "c # cs" a] Cons.prems(2,4,5) by (simp add: MAX_FILE_NAME_LEN_def)
  have tl: "cs = rest_components r" using Cons.prems(3) by simp
  show ?case
  proof (cases r)
    case None
    with tl have "cs = []" by (simp add: rest_components_def)
    with None nz z show ?thesis by (simp add: depth_loop.simps [of None])
  next
    case (Some q)
    with tl have cs: "components q = cs" by (simp add: rest_components_def)
    have "length (first_name cs) \<le> MAX_FILE_NAME_LEN"
      using Cons.prems(4) by (cases cs) (simp_all add: first_name_def)
    then obtain r' where r': "(path_parse q ?z :: ('s, _) res) = Inr (r', overlay ?z 0 (first_name cs), q)"
        "rest_ok r'" "rest_components r' = tl cs"
      using rest_parse [of q] Cons.prems(1) Some cs by auto
    have "(depth_loop r' (overlay ?z 0 (first_name cs)) (d + 1) :: ('s, u32) res) = Inr (d + 1 + of_nat (length cs))"
      by (rule Cons.IH [OF r'(2) refl r'(3) [symmetric]]) (use Cons.prems(4) z in auto)
    with Some nz r'(1) show ?thesis by (simp add: depth_loop.simps [of "Some q"] add.assoc)
  qed
qed

text \<open>
  For a path that starts with a slash and whose names fit into the array of 16 characters,
  \<open>path_depth_cnt\<close> returns the number of names and leaves the path as it is. For a path without
  names the answer depends on what the uninitialised array holds.
\<close>

theorem path_depth_cnt_components:
  assumes "p = slash # t" "0 \<notin> set p" "\<forall>c \<in> set (components p). length c \<le> MAX_FILE_NAME_LEN"
    and "length junk = MAX_FILE_NAME_LEN" "components p = [] \<Longrightarrow> junk ! 0 = 0"
  shows "(path_depth_cnt p junk :: ('s, u32 \<times> u8 list) res) = Inr (of_nat (length (components p)), p)"
proof -
  have c: "c \<noteq> [] \<and> 0 \<notin> set c \<and> length c \<le> MAX_FILE_NAME_LEN" if "c \<in> set (components p)" for c
    using tokens_shape [OF that] assms(2,3) that by blast
  then have "length (first_name (components p)) \<le> length junk"
    using assms(4) by (cases "components p") (simp_all add: first_name_def)
  from path_parse_components [OF assms(1) this] obtain r where
    r: "(path_parse p junk :: ('s, _) res) = Inr (r, overlay junk 0 (first_name (components p)), p)" "rest_ok r"
      "rest_components r = tl (components p)" by blast
  have "(depth_loop r (overlay junk 0 (first_name (components p))) 0 :: ('s, u32) res) = Inr (0 + of_nat (length (components p)))"
    by (rule depth_loop_components [OF r(2) refl r(3) [symmetric]]) (use c assms(4,5) in auto)
  with r(1) show ?thesis by (simp add: path_depth_cnt_def)
qed

section \<open>Cleaning a path\<close>

text \<open>The path with the names \<open>st\<close>, and the meaning of a name relative to a directory.\<close>

definition join :: "u8 list list \<Rightarrow> u8 list" where
  "join st = (if st = [] then [slash] else concat (map (\<lambda>c. slash # c) st))"

definition resolve :: "u8 list list \<Rightarrow> u8 list \<Rightarrow> u8 list list" where
  "resolve st c = (if c = [dot, dot] then butlast st else if c = [dot] then st else st @ [c])"

definition names_ok :: "u8 list list \<Rightarrow> bool" where
  "names_ok st \<longleftrightarrow> (\<forall>c \<in> set st. c \<noteq> [] \<and> slash \<notin> set c)"

lemma join_snoc: "join (st @ [c]) = (if st = [] then [] else join st) @ slash # c"
  by (simp add: join_def)

lemma join_root: "names_ok st \<Longrightarrow> join st = [slash] \<longleftrightarrow> st = []"
proof (cases st)
  case (Cons c r)
  then show "names_ok st \<Longrightarrow> ?thesis" by (cases c) (simp_all add: join_def names_ok_def)
qed (simp add: join_def)

lemma components_join: "names_ok st \<Longrightarrow> components (join st) = st"
proof (induction st)
  case Nil
  then show ?case by (simp add: join_def)
next
  case (Cons c st)
  let ?r = "if st = [] then [] else join st"
  have r: "?r = [] \<or> hd ?r = slash" by (cases st) (simp_all add: join_def)
  have "join (c # st) = slash # c @ ?r" by (simp add: join_def)
  then have "components (join (c # st)) = c # components ?r"
    using Cons.prems r by (simp add: tokens_name names_ok_def)
  with Cons show ?case by (simp add: names_ok_def)
qed

lemma wash_step_resolve:
  assumes st: "names_ok st" and c: "c \<noteq> []" "slash \<notin> set c"
  shows "wash_step (join st) c = Inr (join (resolve st c))" "names_ok (resolve st c)"
proof -
  show "names_ok (resolve st c)"
    using assms by (auto simp: names_ok_def resolve_def dest: in_set_butlastD)
  consider "c = [dot, dot]" "st = []" | a st' where "c = [dot, dot]" "st = st' @ [a]" | "c \<noteq> [dot, dot]"
    by (cases st rule: rev_cases) auto
  then show "wash_step (join st) c = Inr (join (resolve st c))"
  proof cases
    case 1
    then show ?thesis by (simp add: wash_step_def resolve_def join_def)
  next
    case 2
    let ?p = "if st' = [] then [] else join st'"
    have a: "slash \<notin> set a" using st 2 by (simp add: names_ok_def)
    have j: "join st = ?p @ slash # a" using 2 by (simp add: join_snoc)
    have "takeWhile (\<lambda>c. c \<noteq> slash) (rev (join st)) = rev a"
      unfolding j using takeWhile_stop [of slash "rev a" "rev ?p"] a by simp
    then have "length (join st) - 1 - length (takeWhile (\<lambda>c. c \<noteq> slash) (rev (join st))) = length ?p"
      by (simp add: j)
    moreover have "length ?p = 0 \<longleftrightarrow> st' = []" by (simp add: join_def)
    moreover have "slash \<in> set (join st)" by (simp add: j)
    ultimately show ?thesis
      using 2 by (simp add: wash_step_def resolve_def) (simp add: j join_def)
  next
    case 3
    then show ?thesis
      using join_root [OF st] by (auto simp: wash_step_def resolve_def join_snoc)
  qed
qed

lemma cstring_name_array:
  assumes "length c < n" "0 \<notin> set c"
  shows "cstring (overlay (replicate n 0) 0 c) = Inr c"
proof -
  have "overlay (replicate n 0) 0 c = c @ replicate (n - length c) 0" by (simp add: overlay_def)
  moreover have "replicate (n - length c) 0 = (0 :: u8) # replicate (n - length c - 1) 0"
    using assms(1) by (cases "n - length c") simp_all
  ultimately show ?thesis using assms(2) by (simp add: cstring_def takeWhile_stop)
qed

lemma wash_loop_resolve:
  assumes "rest_ok r" "name = overlay (replicate MAX_FILE_NAME_LEN 0) 0 (first_name cs)" "tl cs = rest_components r"
    and "\<And>c. c \<in> set cs \<Longrightarrow> c \<noteq> [] \<and> 0 \<notin> set c \<and> slash \<notin> set c \<and> length c < MAX_FILE_NAME_LEN"
    and "names_ok st"
  shows "(wash_loop r name (join st) :: ('s, u8 list) res) = Inr (join (foldl resolve st cs))"
  using assms
proof (induction cs arbitrary: r name st)
  case Nil
  then show ?case by (simp add: wash_loop.simps overlay_def first_name_def MAX_FILE_NAME_LEN_def)
next
  case (Cons c cs)
  let ?z = "replicate MAX_FILE_NAME_LEN 0 :: u8 list"
  have c: "c \<noteq> []" "0 \<notin> set c" "slash \<notin> set c" "length c < MAX_FILE_NAME_LEN" using Cons.prems(4) [of c] by auto
  have nz: "name ! 0 \<noteq> 0"
    using name_array_0(2) [of "c # cs" ?z] Cons.prems(2,4) by (simp add: MAX_FILE_NAME_LEN_def)
  have nm: "(cstring name :: ('s, u8 list) res) = Inr c"
    using c cstring_name_array [of c MAX_FILE_NAME_LEN] Cons.prems(2) by (simp add: first_name_def)
  note step = wash_step_resolve [OF Cons.prems(5) c(1,3)]
  have tl: "cs = rest_components r" using Cons.prems(3) by simp
  show ?case
  proof (cases r)
    case None
    with tl have "cs = []" by (simp add: rest_components_def)
    with None nz nm step(1) show ?thesis
      by (simp add: wash_loop.simps [of None name] wash_loop.simps [of None ?z]) (simp add: MAX_FILE_NAME_LEN_def)
  next
    case (Some q)
    with tl have cs: "components q = cs" by (simp add: rest_components_def)
    have "length (first_name cs) \<le> MAX_FILE_NAME_LEN"
      using Cons.prems(4) by (cases cs) (simp_all add: first_name_def less_imp_le)
    then obtain r' where r': "(path_parse q ?z :: ('s, _) res) = Inr (r', overlay ?z 0 (first_name cs), q)"
        "rest_ok r'" "rest_components r' = tl cs"
      using rest_parse [of q] Cons.prems(1) Some cs by auto
    have "(wash_loop r' (overlay ?z 0 (first_name cs)) (join (resolve st c)) :: ('s, u8 list) res) =
        Inr (join (foldl resolve (resolve st c) cs))"
      by (rule Cons.IH [OF r'(2) refl r'(3) [symmetric] _ step(2)]) (use Cons.prems(4) in auto)
    with Some nz nm r'(1) show ?thesis by (simp add: wash_loop.simps [of "Some q"] step(1))
  qed
qed

lemma names_ok_components: "names_ok (components p)"
  using tokens_shape [of _ slash p] by (auto simp: names_ok_def)

lemma foldl_resolve_plain:
  assumes "[dot] \<notin> set st" "[dot, dot] \<notin> set st"
  shows "[dot] \<notin> set (foldl resolve st cs) \<and> [dot, dot] \<notin> set (foldl resolve st cs)"
  using assms by (induction cs arbitrary: st) (auto simp: resolve_def dest: in_set_butlastD)

lemma names_ok_foldl: "names_ok st \<Longrightarrow> names_ok cs \<Longrightarrow> names_ok (foldl resolve st cs)"
proof (induction cs arbitrary: st)
  case (Cons c cs)
  from Cons.prems(2) have c: "c \<noteq> []" "slash \<notin> set c" and cs: "names_ok cs" by (simp_all add: names_ok_def)
  show ?case using Cons.IH [OF wash_step_resolve(2) [OF Cons.prems(1) c] cs] by simp
qed simp

text \<open>
  C23: For an absolute path whose names are shorter than 16 characters \<open>wash_path\<close> computes the path that
  results from walking the names from the root, where \<^verbatim>\<open>..\<close> goes back one level and stays at the
  root. The result has the walked names as its components, and none of them is \<^verbatim>\<open>.\<close> or \<^verbatim>\<open>..\<close>.
\<close>

theorem wash_path_resolves:
  assumes "p = slash # t" "0 \<notin> set p" "\<forall>c \<in> set (components p). length c < MAX_FILE_NAME_LEN"
  shows "\<exists>q. (wash_path p :: ('s, u8 list) res) = Inr q \<and> q = join (foldl resolve [] (components p)) \<and>
    components q = foldl resolve [] (components p) \<and> [dot] \<notin> set (components q) \<and> [dot, dot] \<notin> set (components q)"
proof -
  let ?z = "replicate MAX_FILE_NAME_LEN 0 :: u8 list" and ?cs = "components p"
  have c: "c \<noteq> [] \<and> 0 \<notin> set c \<and> slash \<notin> set c \<and> length c < MAX_FILE_NAME_LEN" if "c \<in> set ?cs" for c
    using tokens_shape [OF that] assms(2,3) that by blast
  then have "length (first_name ?cs) \<le> length ?z"
    by (cases ?cs) (simp_all add: first_name_def less_imp_le)
  from path_parse_components [OF assms(1) this] obtain r where
    r: "(path_parse p ?z :: ('s, _) res) = Inr (r, overlay ?z 0 (first_name ?cs), p)" "rest_ok r"
      "rest_components r = tl ?cs" by blast
  have j: "[slash] = join []" by (simp add: join_def)
  have "(wash_loop r (overlay ?z 0 (first_name ?cs)) (join []) :: ('s, u8 list) res) = Inr (join (foldl resolve [] ?cs))"
    by (rule wash_loop_resolve [OF r(2) refl r(3) [symmetric]]) (use c in \<open>auto simp: names_ok_def\<close>)
  moreover have "overlay ?z 0 (first_name ?cs) ! 0 \<noteq> 0" if "?cs \<noteq> []"
    by (rule name_array_0(2)) (use c that in \<open>auto simp: MAX_FILE_NAME_LEN_def\<close>)
  moreover have "?z ! 0 = 0" by (simp add: MAX_FILE_NAME_LEN_def)
  moreover have "take 1 p = [slash]" using assms(1) by simp
  ultimately have "(wash_path p :: ('s, u8 list) res) = Inr (join (foldl resolve [] ?cs))"
    using r(1) by (cases "?cs = []") (simp_all add: wash_path_def j del: tokens_sep)
  moreover have "names_ok (foldl resolve [] ?cs)"
    by (rule names_ok_foldl) (simp_all add: names_ok_components, simp add: names_ok_def)
  ultimately show ?thesis
    using foldl_resolve_plain [of "[]" ?cs] by (simp add: components_join)
qed

section \<open>Examples\<close>

text \<open>The path \<^verbatim>\<open>/a/./../b/\<close>.\<close>

abbreviation demo_path :: "u8 list" where
  "demo_path \<equiv> [slash, 0x61, slash, dot, slash, dot, dot, slash, 0x62, slash]"

lemma demo_components: "components demo_path = [[0x61], [dot], [dot, dot], [0x62]]"
  by code_simp

lemma path_depth_cnt_components_witness:
  "(path_depth_cnt demo_path (replicate 16 0) :: (unit, u32 \<times> u8 list) res) = Inr (4, demo_path)"
  using path_depth_cnt_components [where 's = unit, of demo_path "tl demo_path" "replicate 16 0"]
  by (simp add: demo_components MAX_FILE_NAME_LEN_def del: tokens_sep)

lemma wash_path_resolves_witness:
  "\<exists>q. (wash_path demo_path :: (unit, u8 list) res) = Inr q \<and> q = [slash, 0x62] \<and> components q = [[0x62]]"
  using wash_path_resolves [where 's = unit, of demo_path "tl demo_path"]
  by (simp add: demo_components MAX_FILE_NAME_LEN_def resolve_def join_def del: tokens_sep)

end
