(* ===== verification/Dir.thy ===== *)
theory Dir
  imports File Paths "HOL-Library.Multiset"
begin

unbundle bit_operations_syntax

text \<open>
  \<^verbatim>\<open>fs/dir.c\<close> and \<open>file_create\<close> of \<^verbatim>\<open>fs/file.c\<close>. A directory is a file of 24-byte entries, 21 to
  a sector; an entry of type \<open>FT_UNKOWN\<close> is free. \<open>dir_entries\<close> is the list of the entries in use,
  and the lemmas show what searching, adding, deleting and reading do to it.
\<close>

section \<open>Structures\<close>

text \<open>The numbers of \<open>enum file_types\<close> and the sizes of \<open>struct dir\<close> and \<open>struct dir_entry\<close>.\<close>

definition FT_UNKOWN :: u32 where "FT_UNKOWN = 0"
definition FT_REGULAR :: u32 where "FT_REGULAR = 1"
definition FT_DIR :: u32 where "FT_DIR = 2"
definition sizeof_dir :: u32 where "sizeof_dir = 520"
definition sizeof_dir_entry :: nat where "sizeof_dir_entry = 24"
definition name_len :: nat where "name_len = 16"

record dir_entry =
  filename :: "u8 list"
  de_i_no :: u32
  f_type :: u32

definition entry_bytes :: "dir_entry \<Rightarrow> u8 list" where
  "entry_bytes e = filename e @ le32 (de_i_no e) @ le32 (f_type e)"

definition entry_at :: "u8 list \<Rightarrow> nat \<Rightarrow> dir_entry" where
  "entry_at b i = \<lparr>filename = sub b (sizeof_dir_entry * i) name_len, de_i_no = word_at b (sizeof_dir_entry * i + 16),
     f_type = word_at b (sizeof_dir_entry * i + 20)\<rparr>"

text \<open>\<open>!strcmp(name, filename)\<close> for the entry \<open>i\<close> of a sector: \<open>strcmp\<close> reads as far as \<open>name\<close> and its zero.\<close>

definition name_is :: "u8 list \<Rightarrow> u8 list \<Rightarrow> nat \<Rightarrow> bool" where
  "name_is name b i \<longleftrightarrow> sub b (sizeof_dir_entry * i) (Suc (length name)) = name @ [0]"

text \<open>The address of the global variable \<open>root_dir\<close>, which lies in the kernel image and not on the heap.\<close>

definition root_dir :: u32 where "root_dir = 0xc0008000"

definition dsize :: "fsys \<Rightarrow> u32" where
  "dsize s = dir_entry_size (sb (part s))"

definition per_sec :: "fsys \<Rightarrow> nat" where
  "per_sec s = unat (SECTOR_SIZE div dsize s)"

section \<open>Opening and closing\<close>

definition open_root_dir :: "fsys \<Rightarrow> fsys fres" where
  "open_root_dir s =
     bnd (inode_open s (root_inode_no (sb (part s)))) (\<lambda>(inode, s).
     Inr (s\<lparr>dirs := (dirs s)(root_dir := (dirs s root_dir)\<lparr>dir_inode := inode, dir_pose := 0\<rparr>)\<rparr>))"

definition dir_open :: "fsys \<Rightarrow> u32 \<Rightarrow> (u32 \<times> fsys) fres" where
  "dir_open s ino =
     (let (dir, s) = fs_malloc s sizeof_dir
      in bnd (inode_open s ino) (\<lambda>(inode, s).
         if dir = NULL then Inl (Fault ''dir->inode'')
         else Inr (dir, s\<lparr>dirs := (dirs s)(dir := (dirs s dir)\<lparr>dir_inode := inode, dir_pose := 0\<rparr>)\<rparr>)))"

definition dir_close :: "fsys \<Rightarrow> u32 \<Rightarrow> fsys fres" where
  "dir_close s dir =
     (if dir = root_dir then Inr s
      else bnd (inode_close s (dir_inode (dirs s dir))) (\<lambda>s. fs_free s dir))"

section \<open>Searching\<close>

text \<open>The 140 block addresses of a directory: a heap block or an initialised array, so zero at first.\<close>

definition dir_blocks :: "fsys \<Rightarrow> u32 \<Rightarrow> u32 list fres" where
  "dir_blocks s inode =
     (let secs = i_sectors (inodes s inode)
      in if secs ! 12 \<noteq> 0 then bnd (disk_read s (secs ! 12) 1) (\<lambda>b. Inr (take 12 secs @ words_of b 128))
         else Inr (take 12 secs @ replicate 128 0))"

primrec search_blocks :: "fsys \<Rightarrow> u32 \<Rightarrow> u8 list \<Rightarrow> u32 list \<Rightarrow> dir_entry option fres" where
  "search_blocks s buf name [] = Inr None"
| "search_blocks s buf name (b # bs) =
     (if b = 0 then search_blocks s buf name bs
      else if buf = NULL then Inl (Fault ''buf'')
      else bnd (disk_read s b 1) (\<lambda>sec.
           case find (name_is name sec) [0..<per_sec s] of
             Some i \<Rightarrow> Inr (Some (entry_at sec i))
           | None \<Rightarrow> search_blocks s buf name bs))"

text \<open>The result \<open>None\<close> is \<open>false\<close>; otherwise the entry has been copied to \<open>dir_e\<close>.\<close>

definition search_dir_entry :: "fsys \<Rightarrow> u32 \<Rightarrow> u8 list \<Rightarrow> (dir_entry option \<times> fsys) fres" where
  "search_dir_entry s dir name =
     (let (all_blocks, s) = fs_malloc s (140 * 4)
      in if all_blocks = NULL then Inr (None, s)
         else bnd (dir_blocks s (dir_inode (dirs s dir))) (\<lambda>blocks.
              let (buf, s) = fs_malloc s SECTOR_SIZE
              in bnd (search_blocks s buf name blocks) (\<lambda>r.
                 bnd (fs_free s buf) (\<lambda>s.
                 bnd (fs_free s all_blocks) (\<lambda>s. Inr (r, s))))))"

section \<open>Adding an entry\<close>

text \<open>\<open>d_en\<close> is an entry that the caller has cleared.\<close>

definition create_dir_entry :: "u8 list \<Rightarrow> u32 \<Rightarrow> u32 \<Rightarrow> dir_entry fres" where
  "create_dir_entry name ino ft =
     bnd (assert_that (length name \<le> name_len) ''strlen(filename) <= MAX_FILE_NAME_LEN'') (\<lambda>_.
     Inr \<lparr>filename = overlay (replicate name_len 0) 0 name, de_i_no = ino, f_type = ft\<rparr>)"

definition grow_dir :: "fsys \<Rightarrow> u32 \<Rightarrow> fsys" where
  "grow_dir s inode = upd_inode s inode (\<lambda>i. i\<lparr>i_size := i_size i + dsize s\<rparr>)"

text \<open>The entry goes into a new block, which is otherwise zero.\<close>

definition write_new_block :: "fsys \<Rightarrow> u32 \<Rightarrow> u32 \<Rightarrow> dir_entry \<Rightarrow> (bool \<times> fsys) fres" where
  "write_new_block s inode lba e =
     bnd (disk_write s lba (overlay (replicate 512 0) 0 (take (unat (dsize s)) (entry_bytes e))) 1) (\<lambda>s.
     Inr (True, grow_dir s inode))"

text \<open>
  The loop over the block indices. \<open>all_blocks\<close> holds the direct blocks only, because the source
  has the lines that read the indirect table commented out; so index 12 always counts as free.
\<close>

primrec sync_blocks :: "fsys \<Rightarrow> u32 \<Rightarrow> dir_entry \<Rightarrow> u32 list \<Rightarrow> nat list \<Rightarrow> (bool \<times> fsys) fres" where
  "sync_blocks s inode e all_blocks [] = Inr (False, s)"
| "sync_blocks s inode e all_blocks (k # ks) =
     (if all_blocks ! k = 0 then
        bnd (block_bitmap_alloc s) (\<lambda>(block_lba, s).
        if block_lba = - 1 then Inr (False, s)
        else bnd (bitmap_sync s (block_lba - data_start_lba (sb (part s))) BLOCK_BITMAP) (\<lambda>s.
          if k < 12 then write_new_block (set_sector s inode k block_lba) inode block_lba e
          else if k = 12 then
            let s = set_sector s inode 12 block_lba
            in bnd (block_bitmap_alloc s) (\<lambda>(new_lba, s).
               if new_lba = - 1 then
                 bnd (bitmap_set (fmem s) (block_bitmap (part s))
                        (i_sectors (inodes s inode) ! 12 - data_start_lba (sb (part s))) 0) (\<lambda>m.
                 Inr (False, set_sector (s\<lparr>fmem := m\<rparr>) inode 12 0))
               else bnd (bitmap_sync s (new_lba - data_start_lba (sb (part s))) BLOCK_BITMAP) (\<lambda>s.
                    bnd (disk_write s (i_sectors (inodes s inode) ! 12)
                           (concat (map le32 (drop 12 (all_blocks[12 := new_lba])))) 1) (\<lambda>s.
                    write_new_block s inode new_lba e)))
          else
            bnd (disk_write s (i_sectors (inodes s inode) ! 12)
                   (concat (map le32 (drop 12 (all_blocks[k := block_lba])))) 1) (\<lambda>s.
            write_new_block s inode block_lba e)))
      else
        bnd (disk_read s (all_blocks ! k) 1) (\<lambda>b.
        case find (\<lambda>i. f_type (entry_at b i) = FT_UNKOWN) [0..<per_sec s] of
          Some i \<Rightarrow>
            bnd (disk_write s (all_blocks ! k)
                   (overlay b (sizeof_dir_entry * i) (take (unat (dsize s)) (entry_bytes e))) 1) (\<lambda>s.
            Inr (True, grow_dir s inode))
        | None \<Rightarrow> sync_blocks s inode e all_blocks ks))"

definition sync_dir_entry :: "fsys \<Rightarrow> u32 \<Rightarrow> dir_entry \<Rightarrow> (bool \<times> fsys) fres" where
  "sync_dir_entry s parent_dir e =
     (let inode = dir_inode (dirs s parent_dir)
      in bnd (assert_that (i_size (inodes s inode) mod dsize s = 0) ''dir_size % dir_entry_size == 0'') (\<lambda>_.
         sync_blocks s inode e (take 12 (i_sectors (inodes s inode)) @ replicate 128 0) [0..<140]))"

section \<open>Deleting an entry\<close>

text \<open>
  The search in one sector: how many ordinary entries the loop has seen when it stops, whether it has
  seen the entry \<^verbatim>\<open>.\<close> and the index of the entry with the number \<open>ino\<close>. The loop stops there.
\<close>

primrec find_entry :: "u8 list \<Rightarrow> u32 \<Rightarrow> nat \<Rightarrow> bool \<Rightarrow> nat list \<Rightarrow> nat \<times> bool \<times> nat option" where
  "find_entry b ino cnt first_block [] = (cnt, first_block, None)"
| "find_entry b ino cnt first_block (i # is) =
     (if f_type (entry_at b i) \<noteq> FT_UNKOWN then
        if name_is [0x2E] b i then find_entry b ino cnt True is
        else if \<not> name_is [0x2E] b i \<and> \<not> name_is [0x2E, 0x2E] b i then
          if de_i_no (entry_at b i) = ino then (Suc cnt, first_block, Some i)
          else find_entry b ino (Suc cnt) first_block is
        else find_entry b ino cnt first_block is
      else find_entry b ino cnt first_block is)"

text \<open>
  The loop over the block indices. In the branch for an indirect block the source counts with an index
  that it never advances, so it does not come back.
\<close>

primrec delete_blocks :: "fsys \<Rightarrow> u32 \<Rightarrow> u32 \<Rightarrow> bool \<Rightarrow> u32 list \<Rightarrow> nat list \<Rightarrow> (bool \<times> fsys) fres" where
  "delete_blocks s inode ino first_block all_blocks [] = Inr (False, s)"
| "delete_blocks s inode ino first_block all_blocks (k # ks) =
     (if all_blocks ! k = 0 then delete_blocks s inode ino first_block all_blocks ks
      else bnd (disk_read s (all_blocks ! k) 1) (\<lambda>b.
        case find_entry b ino 0 first_block [0..<per_sec s] of
          (_, first_block, None) \<Rightarrow> delete_blocks s inode ino first_block all_blocks ks
        | (cnt, first_block, Some i) \<Rightarrow>
            bnd (if cnt = 1 \<and> \<not> first_block then
                   bnd (clear_bit s (all_blocks ! k - data_start_lba (sb (part s))) BLOCK_BITMAP) (\<lambda>s.
                   if k < 12 then Inr (set_sector s inode k 0) else Inl Spin)
                 else disk_write s (all_blocks ! k)
                        (overlay b (sizeof_dir_entry * i) (replicate (unat (dsize s)) 0)) 1) (\<lambda>s.
            bnd (assert_that (i_size (inodes s inode) \<ge> dsize s) ''dir_inode->i_size >= dir_entry_size'') (\<lambda>_.
            let s = upd_inode s inode (\<lambda>i. i\<lparr>i_size := i_size i - dsize s\<rparr>)
            in bnd (inode_sync s inode 1024) (\<lambda>s. Inr (True, s))))))"

text \<open>
  The indirect table is read from the disk \<open>&p->my_disk\<close>, which is no \<open>struct disk\<close>. The callers
  pass a buffer of 1024 bytes as \<open>io_buf\<close>.
\<close>

definition delete_dir_entry :: "fsys \<Rightarrow> u32 \<Rightarrow> u32 \<Rightarrow> (bool \<times> fsys) fres" where
  "delete_dir_entry s pgdir ino =
     (let inode = dir_inode (dirs s pgdir); secs = i_sectors (inodes s inode)
      in if secs ! 12 \<noteq> 0 then Inl (Fault ''&p->my_disk'')
         else delete_blocks s inode ino False (take 12 secs @ replicate 128 0) [0..<140])"

section \<open>Reading entries\<close>

text \<open>
  The loop over the entries of the sector in \<open>dir_buf\<close>: \<open>pos\<close> is \<open>cur_dir_entry_pos\<close>; the result is the
  new position, or the index of the entry to return.
\<close>

primrec read_sector :: "u8 list \<Rightarrow> u32 \<Rightarrow> u32 \<Rightarrow> u32 \<Rightarrow> nat list \<Rightarrow> (u32 + nat) fres" where
  "read_sector b sz pose pos [] = Inr (Inl pos)"
| "read_sector b sz pose pos (i # is) =
     (if f_type (entry_at b i) \<noteq> FT_UNKOWN then
        if pos < pose then read_sector b sz pose (pos + sz) is
        else bnd (assert_that (pos = pose) ''cur_dir_entry_pos == dir->dir_pose'') (\<lambda>_. Inr (Inr i))
      else read_sector b sz pose pos is)"

primrec read_dir_blocks :: "fsys \<Rightarrow> u32 \<Rightarrow> u32 \<Rightarrow> u32 list \<Rightarrow> (dir_entry option \<times> fsys) fres" where
  "read_dir_blocks s dir pos [] = Inr (None, s)"
| "read_dir_blocks s dir pos (b # bs) =
     (let d = dirs s dir
      in if dir_pose d \<ge> i_size (inodes s (dir_inode d)) then Inr (None, s)
         else if b = 0 then read_dir_blocks s dir pos bs
         else bnd (disk_read s b 1) (\<lambda>sec.
              let s = s\<lparr>dirs := (dirs s)(dir := d\<lparr>dir_buf := sec\<rparr>)\<rparr>
              in bnd (read_sector sec (dsize s) (dir_pose d) pos [0..<per_sec s]) (\<lambda>r.
                 case r of
                   Inr i \<Rightarrow> Inr (Some (entry_at sec i),
                     s\<lparr>dirs := (dirs s)(dir := d\<lparr>dir_pose := dir_pose d + dsize s, dir_buf := sec\<rparr>)\<rparr>)
                 | Inl pos \<Rightarrow> read_dir_blocks s dir pos bs)))"

text \<open>The result is the entry that the returned pointer leads to, \<open>None\<close> for the null pointer.\<close>

definition dir_read :: "fsys \<Rightarrow> u32 \<Rightarrow> (dir_entry option \<times> fsys) fres" where
  "dir_read s dir =
     (let inode = dir_inode (dirs s dir); secs = i_sectors (inodes s inode)
      in bnd (dir_blocks s inode) (\<lambda>all_blocks.
         read_dir_blocks s dir 0 (if secs ! 12 \<noteq> 0 then all_blocks else take 12 all_blocks)))"

definition dir_is_empty :: "fsys \<Rightarrow> u32 \<Rightarrow> bool" where
  "dir_is_empty s dir \<longleftrightarrow> i_size (inodes s (dir_inode (dirs s dir))) = dsize s * 2"

section \<open>Removing a directory\<close>

definition dir_remove :: "fsys \<Rightarrow> u32 \<Rightarrow> u32 \<Rightarrow> (u32 \<times> fsys) fres" where
  "dir_remove s parent_dir child_dir =
     (let inode = dir_inode (dirs s child_dir)
      in bnd (assert_that (list_all (\<lambda>k. i_sectors (inodes s inode) ! k = 0) [1..<13]) ''i_sectors[block_idx] == 0'') (\<lambda>_.
         bnd (assert_that (i_size (inodes s inode) = dsize s * 2) ''i_size == dir_entry_size * 2'') (\<lambda>_.
         let (io_buf, s) = fs_malloc s 1024
         in if io_buf = NULL then Inr (- 1, s)
            else bnd (delete_dir_entry s parent_dir (i_no (inodes s inode))) (\<lambda>(_, s).
                 bnd (inode_release s (i_no (inodes s inode))) (\<lambda>s.
                 bnd (fs_free s io_buf) (\<lambda>s. Inr (0, s)))))))"

section \<open>Creating a file\<close>

text \<open>The three roll-back steps fall through to each other: step 3 undoes everything, step 1 only the i-node bit.\<close>

definition rollback :: "nat \<Rightarrow> fsys \<Rightarrow> u32 \<Rightarrow> u32 \<Rightarrow> u32 \<Rightarrow> u32 \<Rightarrow> (u32 \<times> fsys) fres" where
  "rollback step s ino inode fd_idx io_buf =
     (let s = (if 3 \<le> step then upd_file s (unat fd_idx) (\<lambda>_. \<lparr>fd_pos = 0, fd_flag = 0, fd_inode = NULL\<rparr>) else s)
      in bnd (if 2 \<le> step then fs_free s inode else Inr s) (\<lambda>s.
         bnd (bitmap_set (fmem s) (inode_map (part s)) ino 0) (\<lambda>m.
         bnd (fs_free (s\<lparr>fmem := m\<rparr>) io_buf) (\<lambda>s. Inr (- 1, s)))))"

definition file_create :: "fsys \<Rightarrow> u32 \<Rightarrow> u8 list \<Rightarrow> u8 \<Rightarrow> (u32 \<times> fsys) fres" where
  "file_create s parent_dir name flag =
     (let (io_buf, s) = fs_malloc s 1024
      in if io_buf = NULL then Inr (- 1, s)
         else bnd (inode_bitmap_alloc s) (\<lambda>(ino, s).
         if ino = - 1 then Inr (- 1, s)
         else let (inode, s) = fs_malloc s sizeof_inode
         in if inode = NULL then rollback 1 s ino inode 0 io_buf
         else let s = upd_inode s inode (\<lambda>_. inode_init ino); fd_idx = get_free_slot_in_global s
         in if fd_idx = - 1 then rollback 2 s ino inode fd_idx io_buf
         else let s = upd_file s (unat fd_idx) (\<lambda>_. \<lparr>fd_pos = 0, fd_flag = ucast flag, fd_inode = inode\<rparr>);
                  s = upd_inode s inode (\<lambda>i. i\<lparr>write_deny := False\<rparr>)
         in bnd (create_dir_entry name ino FT_REGULAR) (\<lambda>e.
            bnd (sync_dir_entry s parent_dir e) (\<lambda>(ok, s).
            if \<not> ok then rollback 3 s ino inode fd_idx io_buf
            else bnd (inode_sync s (dir_inode (dirs s parent_dir)) 1024) (\<lambda>s.
                 bnd (inode_sync s inode 1024) (\<lambda>s.
                 bnd (bitmap_sync s ino INODE_BITMAP) (\<lambda>s.
                 bnd (kl_push (open_inodes (part s)) inode) (\<lambda>l.
                 let s = upd_part s (\<lambda>p. p\<lparr>open_inodes := l\<rparr>);
                     s = upd_inode s inode (\<lambda>i. i\<lparr>i_open_cnt := 1\<rparr>)
                 in bnd (fs_free s io_buf) (\<lambda>s. Inr (pcb_fd_install s fd_idx))))))))))"

section \<open>The entries of a sector\<close>

text \<open>The characters of a name up to its zero.\<close>

definition entry_name :: "dir_entry \<Rightarrow> u8 list" where
  "entry_name e = takeWhile (\<lambda>c. c \<noteq> 0) (filename e)"

definition sector_entries :: "u8 list \<Rightarrow> dir_entry list" where
  "sector_entries b = map (entry_at b) (filter (\<lambda>i. f_type (entry_at b i) \<noteq> FT_UNKOWN) [0..<21])"

definition free_entry :: dir_entry where
  "free_entry = \<lparr>filename = replicate name_len 0, de_i_no = 0, f_type = FT_UNKOWN\<rparr>"

lemma length_entry_bytes [simp]: "length (filename e) = name_len \<Longrightarrow> length (entry_bytes e) = sizeof_dir_entry"
  by (simp add: entry_bytes_def name_len_def sizeof_dir_entry_def)

lemma entry_bytes_at:
  assumes "length (filename e) = name_len"
  shows "sub (entry_bytes e) 0 name_len = filename e" "word_at (entry_bytes e) 16 = de_i_no e" "word_at (entry_bytes e) 20 = f_type e"
proof -
  show "sub (entry_bytes e) 0 name_len = filename e" using assms by (simp add: entry_bytes_def sub_def)
  show "word_at (entry_bytes e) 16 = de_i_no e"
    using word_at_le32 [of "filename e" "de_i_no e" "le32 (f_type e)"] assms by (simp add: entry_bytes_def name_len_def)
  show "word_at (entry_bytes e) 20 = f_type e"
    using word_at_le32 [of "filename e @ le32 (de_i_no e)" "f_type e" "[]"] assms by (simp add: entry_bytes_def name_len_def)
qed

lemma word_at_sub: "j + 4 \<le> n \<Longrightarrow> q + n \<le> length b \<Longrightarrow> word_at (sub b q n) j = word_at b (q + j)"
  by (simp add: word_at_def sub_def add.assoc)

lemma entry_at_sub:
  assumes "sizeof_dir_entry * i + sizeof_dir_entry \<le> length b"
  defines "x \<equiv> sub b (sizeof_dir_entry * i) sizeof_dir_entry"
  shows "entry_at b i = \<lparr>filename = sub x 0 name_len, de_i_no = word_at x 16, f_type = word_at x 20\<rparr>"
  using assms(1) by (simp add: x_def entry_at_def word_at_sub sub_sub sizeof_dir_entry_def name_len_def)

lemma entry_at_overlay:
  assumes b: "length b = 512" and e: "length (filename e) = name_len" and i: "i < 21" "j < 21"
  shows "entry_at (overlay b (sizeof_dir_entry * i) (entry_bytes e)) j = (if j = i then e else entry_at b j)"
proof -
  have fit: "sizeof_dir_entry * k + sizeof_dir_entry \<le> 512" if "k < 21" for k using that by (simp add: sizeof_dir_entry_def)
  have len: "length (overlay b (sizeof_dir_entry * i) (entry_bytes e)) = 512" using fit [OF i(1)] b e by simp
  show ?thesis
  proof (cases "j = i")
    case True
    then show ?thesis
      using entry_at_sub [of i "overlay b (sizeof_dir_entry * i) (entry_bytes e)"] fit [OF i(1)] len b e entry_bytes_at [OF e]
        sub_overlay_same [of "sizeof_dir_entry * i" "entry_bytes e" b] by simp
  next
    case False
    then have "sizeof_dir_entry * j + sizeof_dir_entry \<le> sizeof_dir_entry * i \<or>
        sizeof_dir_entry * i + sizeof_dir_entry \<le> sizeof_dir_entry * j"
      by (auto simp: sizeof_dir_entry_def)
    then have "sub (overlay b (sizeof_dir_entry * i) (entry_bytes e)) (sizeof_dir_entry * j) sizeof_dir_entry =
        sub b (sizeof_dir_entry * j) sizeof_dir_entry"
      using fit [OF i(1)] fit [OF i(2)] b e by (intro sub_overlay_other) simp_all
    then show ?thesis
      using False entry_at_sub [of j b] entry_at_sub [of j "overlay b (sizeof_dir_entry * i) (entry_bytes e)"]
        fit [OF i(2)] b len by simp
  qed
qed

definition used_at :: "u8 list \<Rightarrow> nat list \<Rightarrow> dir_entry list" where
  "used_at b is = map (entry_at b) (filter (\<lambda>i. f_type (entry_at b i) \<noteq> FT_UNKOWN) is)"

lemma used_at_cong: "(\<And>i. i \<in> set is \<Longrightarrow> entry_at b i = entry_at c i) \<Longrightarrow> used_at b is = used_at c is"
  by (induction "is") (simp_all add: used_at_def)

lemma sector_entries_split:
  assumes "i < 21"
  shows "sector_entries b = used_at b [0..<i] @
    (if f_type (entry_at b i) \<noteq> FT_UNKOWN then [entry_at b i] else []) @ used_at b [Suc i..<21]"
proof -
  have "[0..<21] = [0..<i] @ [i] @ [Suc i..<21]"
    using assms upt_add_eq_append [of 0 i "21 - i"] by (simp add: upt_conv_Cons)
  then show ?thesis by (simp add: sector_entries_def used_at_def)
qed

text \<open>One entry replaced by another: what stands before and after it stays.\<close>

lemma sector_entries_overlay:
  assumes "length b = 512" "length (filename e) = name_len" "i < 21"
  shows "\<exists>P Q. sector_entries b = P @ (if f_type (entry_at b i) \<noteq> FT_UNKOWN then [entry_at b i] else []) @ Q \<and>
    sector_entries (overlay b (sizeof_dir_entry * i) (entry_bytes e)) =
      P @ (if f_type e \<noteq> FT_UNKOWN then [e] else []) @ Q"
proof -
  let ?b = "overlay b (sizeof_dir_entry * i) (entry_bytes e)"
  have at: "entry_at ?b j = (if j = i then e else entry_at b j)" if "j < 21" for j
    using entry_at_overlay [OF assms that] .
  have "used_at ?b [0..<i] = used_at b [0..<i]" "used_at ?b [Suc i..<21] = used_at b [Suc i..<21]"
    using at assms(3) by (auto intro!: used_at_cong)
  then show ?thesis
    using sector_entries_split [OF assms(3), of b] sector_entries_split [OF assms(3), of ?b] at [OF assms(3)]
    by (intro exI [of _ "used_at b [0..<i]"] exI [of _ "used_at b [Suc i..<21]"]) simp
qed

lemma sector_entries_zero: "sector_entries (replicate 512 0) = []"
proof -
  have "f_type (entry_at (replicate 512 0) i) = FT_UNKOWN" if "i < 21" for i
    using that by (simp add: entry_at_def word_at_def sizeof_dir_entry_def FT_UNKOWN_def)
  then show ?thesis by (simp add: sector_entries_def filter_empty_conv)
qed

lemma free_entry_bytes: "entry_bytes free_entry = replicate sizeof_dir_entry 0"
  by (simp add: free_entry_def entry_bytes_def le32_list FT_UNKOWN_def name_len_def sizeof_dir_entry_def numeral_eq_Suc)

lemma name_is_entry:
  assumes "length b = 512" "i < 21" "length name < name_len" "0 \<notin> set name"
  shows "name_is name b i \<longleftrightarrow> entry_name (entry_at b i) = name"
proof -
  define f where "f = filename (entry_at b i)"
  have f: "f = sub b (sizeof_dir_entry * i) name_len" by (simp add: f_def entry_at_def)
  have len: "length f = name_len" using assms(1,2) by (simp add: f sizeof_dir_entry_def name_len_def)
  have "sub b (sizeof_dir_entry * i) (Suc (length name)) = take (Suc (length name)) f"
    using assms(3) by (simp add: f sub_def)
  moreover have "take (Suc (length name)) f = name @ [0] \<longleftrightarrow> takeWhile (\<lambda>c. c \<noteq> 0) f = name"
  proof
    assume "take (Suc (length name)) f = name @ [0]"
    then have "f = name @ 0 # drop (Suc (length name)) f"
      by (metis append_Cons append_Nil append_assoc append_take_drop_id)
    then show "takeWhile (\<lambda>c. c \<noteq> 0) f = name" using takeWhile_stop [OF assms(4)] by metis
  next
    assume n: "takeWhile (\<lambda>c. c \<noteq> 0) f = name"
    then have lt: "length name < length f" using assms(3) len by simp
    from nth_length_takeWhile [of "\<lambda>c. c \<noteq> 0" f] n lt have "f ! length name = 0" by simp
    moreover have "take (length name) f = name" using n takeWhile_eq_take [of "\<lambda>c. c \<noteq> 0" f] by simp
    ultimately show "take (Suc (length name)) f = name @ [0]" using lt by (simp add: take_Suc_conv_app_nth)
  qed
  ultimately show ?thesis by (simp add: name_is_def entry_name_def f_def)
qed

section \<open>Directories\<close>

definition dblocks :: "fsys \<Rightarrow> u32 \<Rightarrow> u32 list" where
  "dblocks s a = filter (\<lambda>b. b \<noteq> 0) (take 12 (i_sectors (inodes s a)))"

definition dir_entries :: "fsys \<Rightarrow> u32 \<Rightarrow> dir_entry list" where
  "dir_entries s a = concat (map (\<lambda>b. sector_entries (sectors s b)) (dblocks s a))"

text \<open>A slot that is not in use has an empty name, so that no search finds it.\<close>

definition blank_free :: "u8 list \<Rightarrow> bool" where
  "blank_free b \<longleftrightarrow> (\<forall>i < 21. f_type (entry_at b i) = FT_UNKOWN \<longrightarrow> entry_name (entry_at b i) = [])"

text \<open>A directory without an indirect table whose size counts its entries.\<close>

definition dir_ok :: "fsys \<Rightarrow> u32 \<Rightarrow> bool" where
  "dir_ok s a \<longleftrightarrow> length (i_sectors (inodes s a)) = 13 \<and> i_sectors (inodes s a) ! 12 = 0 \<and> blocks_ok s (dblocks s a) \<and>
     dsize s = 24 \<and> i_size (inodes s a) = 24 * of_nat (length (dir_entries s a)) \<and>
     (\<forall>b \<in> set (dblocks s a). blank_free (sectors s b))"

lemma per_sec_21: "dsize s = 24 \<Longrightarrow> per_sec s = 21"
  by (simp add: per_sec_def SECTOR_SIZE_def)

lemma dsize_dirs [simp]: "dsize (s\<lparr>dirs := x\<rparr>) = dsize s"
  by (simp add: dsize_def)

lemma used_block_lba:
  assumes "fs_ok s" "blocks_fit (part s)" "used_block s l"
  shows "l \<le> max_lba" "l \<noteq> 0" "data_start_lba (sb (part s)) \<le> l"
  using assms block_addr_unat [of s] by (auto simp: used_block_def fs_ok_def)

lemma find_map_filter: "find P (map f (filter Q xs)) = map_option f (find (\<lambda>x. Q x \<and> P (f x)) xs)"
  by (induction xs) auto

lemma find_cong_set: "(\<And>x. x \<in> set xs \<Longrightarrow> P x = Q x) \<Longrightarrow> find P xs = find Q xs"
  by (induction xs) auto

lemma find_append: "find P (xs @ ys) = (case find P xs of None \<Rightarrow> find P ys | Some x \<Rightarrow> Some x)"
  by (induction xs) auto

lemma search_sector:
  assumes b: "length b = 512" "blank_free b" and name: "name \<noteq> []" "length name < name_len" "0 \<notin> set name"
  shows "map_option (entry_at b) (find (name_is name b) [0..<21]) = find (\<lambda>e. entry_name e = name) (sector_entries b)"
proof -
  have "name_is name b i = (f_type (entry_at b i) \<noteq> FT_UNKOWN \<and> entry_name (entry_at b i) = name)" if "i < 21" for i
    using name_is_entry [OF b(1) that name(2,3)] b(2) that name(1) by (auto simp: blank_free_def)
  then have "find (name_is name b) [0..<21] =
      find (\<lambda>i. f_type (entry_at b i) \<noteq> FT_UNKOWN \<and> entry_name (entry_at b i) = name) [0..<21]"
    by (intro find_cong_set) simp
  then show ?thesis by (simp add: sector_entries_def find_map_filter)
qed

lemma search_blocks_find:
  assumes s: "disk_ok s" "dsize s = 24" "buf \<noteq> NULL" and name: "name \<noteq> []" "length name < name_len" "0 \<notin> set name"
    and bs: "\<And>b. b \<in> set bs \<Longrightarrow> b \<noteq> 0 \<Longrightarrow> b \<le> max_lba \<and> blank_free (sectors s b)"
  shows "search_blocks s buf name bs =
    Inr (find (\<lambda>e. entry_name e = name) (concat (map (\<lambda>b. sector_entries (sectors s b)) (filter (\<lambda>b. b \<noteq> 0) bs))))"
  using bs
proof (induction bs)
  case (Cons b bs)
  have IH: "search_blocks s buf name bs =
    Inr (find (\<lambda>e. entry_name e = name) (concat (map (\<lambda>b. sector_entries (sectors s b)) (filter (\<lambda>b. b \<noteq> 0) bs))))"
    using Cons by simp
  show ?case
  proof (cases "b = 0")
    case False
    then have b: "b \<le> max_lba" "blank_free (sectors s b)" "length (sectors s b) = 512"
      using Cons.prems [of b] s(1) by (simp_all add: disk_ok_def)
    from search_sector [OF b(3,2) name] show ?thesis
      using False b IH disk_one(1) [OF b(1), of s] s
      by (auto simp: per_sec_21 find_append split: option.splits)
  qed (use IH in simp)
qed simp

lemma dir_blocks_direct:
  assumes "i_sectors (inodes s a) ! 12 = 0"
  shows "dir_blocks s a = Inr (take 12 (i_sectors (inodes s a)) @ replicate 128 0)"
  using assms by (simp add: dir_blocks_def)

lemma search_dir_entry_find:
  assumes ok: "fs_ok s" "blocks_fit (part s)" and d: "dir_ok s (dir_inode (dirs s d))"
    and name: "name \<noteq> []" "length name < name_len" "0 \<notin> set name"
    and mem: "answers s = x # y # as" "x \<noteq> NULL" "y \<noteq> NULL"
  shows "search_dir_entry s d name =
    Inr (find (\<lambda>e. entry_name e = name) (dir_entries s (dir_inode (dirs s d))), s\<lparr>answers := as\<rparr>)"
proof -
  let ?a = "dir_inode (dirs s d)"
  let ?s = "s\<lparr>answers := as, live := y # x # live s\<rparr>"
  have "search_blocks ?s y name (take 12 (i_sectors (inodes s ?a)) @ replicate 128 0) =
    Inr (find (\<lambda>e. entry_name e = name) (dir_entries s ?a))"
  proof -
    have "b \<le> max_lba \<and> blank_free (sectors ?s b)"
      if "b \<in> set (take 12 (i_sectors (inodes s ?a)) @ replicate 128 0)" "b \<noteq> 0" for b
    proof -
      have "b \<in> set (dblocks s ?a)" using that by (auto simp: dblocks_def)
      then show ?thesis using d used_block_lba [OF ok] by (auto simp: dir_ok_def blocks_ok_def)
    qed
    then show ?thesis
      using search_blocks_find [of ?s y name "take 12 (i_sectors (inodes s ?a)) @ replicate 128 0"] ok(1) d name mem(3)
      by (simp add: fs_ok_def disk_ok_def dir_ok_def dsize_def dir_entries_def dblocks_def)
  qed
  moreover have "dir_blocks (s\<lparr>answers := y # as, live := x # live s\<rparr>) ?a =
      Inr (take 12 (i_sectors (inodes s ?a)) @ replicate 128 0)"
    using d dir_blocks_direct [of "s\<lparr>answers := y # as, live := x # live s\<rparr>"] by (simp add: dir_ok_def)
  ultimately show ?thesis
    using mem by (simp add: search_dir_entry_def fs_malloc_def fs_free_def)
qed

text \<open>
  C20: In a directory of direct blocks, without an indirect table, and for a name shorter than 16 characters, \<open>search_dir_entry\<close> is
  the look-up of the name in the list of entries: it finds the first entry with that name, or nothing when there is none, and gives its two buffers
  back. (A name of 16 characters, which the type allows, is compared with the byte behind the field as its zero.)
\<close>

theorem search_dir_entry_lookup:
  assumes ok: "fs_ok s" "blocks_fit (part s)" and d: "dir_ok s (dir_inode (dirs s d))"
    and name: "name \<noteq> []" "length name < name_len" "0 \<notin> set name"
    and mem: "answers s = x # y # as" "x \<noteq> NULL" "y \<noteq> NULL"
  shows "search_dir_entry s d name =
    Inr (find (\<lambda>e. entry_name e = name) (dir_entries s (dir_inode (dirs s d))), s\<lparr>answers := as\<rparr>)"
  using assms by (rule search_dir_entry_find)

section \<open>Adding an entry to a directory\<close>

text \<open>
  The directory \<open>a\<close> changes from \<open>s\<close> to \<open>s'\<close>, together with the block bitmap: the i-nodes of other files, the i-node
  table, the blocks \<open>others\<close>, the open files and the heap stay as they are.
\<close>

definition dir_frame :: "fsys \<Rightarrow> u32 \<Rightarrow> u32 list \<Rightarrow> fsys \<Rightarrow> bool" where
  "dir_frame s a others s' \<longleftrightarrow> fs_ok s' \<and> blocks_fit (part s') \<and> blocks_ok s' (dblocks s' a @ others) \<and>
     part s' = part s \<and> dirs s' = dirs s \<and> file_table s' = file_table s \<and> answers s' = answers s \<and> live s' = live s \<and>
     (\<exists>secs n. inodes s' = (inodes s)(a := (inodes s a)\<lparr>i_sectors := secs, i_size := n\<rparr>)) \<and>
     (\<forall>l. inode_bitmap_lba (sb (part s)) \<le> l \<and> (l \<in> set others \<or> l < data_start_lba (sb (part s))) \<longrightarrow>
       sectors s' l = sectors s l)"

definition entry_added :: "fsys \<Rightarrow> u32 \<Rightarrow> dir_entry \<Rightarrow> fsys \<Rightarrow> bool" where
  "entry_added s a e s' \<longleftrightarrow> dir_ok s' a \<and> (\<exists>P Q. dir_entries s a = P @ Q \<and> dir_entries s' a = P @ e # Q)"

definition sector_full :: "u8 list \<Rightarrow> bool" where
  "sector_full b \<longleftrightarrow> (\<forall>i < 21. f_type (entry_at b i) \<noteq> FT_UNKOWN)"

definition entry_ok :: "dir_entry \<Rightarrow> bool" where
  "entry_ok e \<longleftrightarrow> length (filename e) = name_len \<and> f_type e \<noteq> FT_UNKOWN"

lemma length_sector_entries: "length (sector_entries b) \<le> 21"
proof -
  have "length (filter P [0..<21]) \<le> 21" for P using length_filter_le [of P "[0..<21]"] by simp
  then show ?thesis by (simp add: sector_entries_def)
qed

lemma length_dir_entries: "length (dir_entries s a) \<le> 252"
proof -
  have sum: "length (concat (map (\<lambda>b. sector_entries (sectors s b)) bs)) \<le> 21 * length bs" for bs
  proof (induction bs)
    case (Cons b bs)
    then show ?case using length_sector_entries [of "sectors s b"] by simp
  qed simp
  have "length (dblocks s a) \<le> 12"
    unfolding dblocks_def by (rule order_trans [OF length_filter_le]) simp
  then show ?thesis using sum [of "dblocks s a"] unfolding dir_entries_def by linarith
qed

text \<open>The loop passes over full blocks.\<close>

lemma sync_blocks_skip:
  assumes ok: "fs_ok s" "blocks_fit (part s)" and d: "dir_ok s a" and k: "k \<le> 12"
    and full: "\<And>j. j < k \<Longrightarrow> i_sectors (inodes s a) ! j \<noteq> 0 \<and> sector_full (sectors s (i_sectors (inodes s a) ! j))"
  defines "ab \<equiv> take 12 (i_sectors (inodes s a)) @ replicate 128 0"
  shows "sync_blocks s a e ab [0..<140] = sync_blocks s a e ab [k..<140]"
  using k full
proof (induction k)
  case (Suc k)
  let ?l = "i_sectors (inodes s a) ! k"
  have l: "ab ! k = ?l" using d Suc.prems(1) by (simp add: ab_def dir_ok_def nth_append)
  have "?l \<noteq> 0" "sector_full (sectors s ?l)" using Suc.prems(2) [of k] by simp_all
  moreover from this(1) have "?l \<in> set (dblocks s a)"
    using d Suc.prems(1) nth_mem [of k "take 12 (i_sectors (inodes s a))"] by (simp add: dblocks_def dir_ok_def)
  then have "?l \<le> max_lba" using d used_block_lba(1) [OF ok] by (simp add: dir_ok_def blocks_ok_def)
  moreover have "find (\<lambda>i. f_type (entry_at (sectors s ?l) i) = FT_UNKOWN) [0..<21] = None"
    using Suc.prems(2) [of k] by (simp add: sector_full_def find_None_iff)
  ultimately have "sync_blocks s a e ab (k # [Suc k..<140]) = sync_blocks s a e ab [Suc k..<140]"
    using disk_one(1) [of ?l s] ok(1) d l
    by (simp add: fs_ok_def dir_ok_def per_sec_21)
  then show ?case using Suc by (simp add: upt_conv_Cons)
qed simp

lemma dir_entries_at:
  assumes "dblocks s' a = A @ l # B" "l \<notin> set (A @ B)" "\<And>b. b \<in> set (A @ B) \<Longrightarrow> sectors s' b = sectors s b"
  shows "dir_entries s' a = concat (map (\<lambda>b. sector_entries (sectors s b)) A) @ sector_entries (sectors s' l) @
    concat (map (\<lambda>b. sector_entries (sectors s b)) B)"
proof -
  have "map (\<lambda>b. sector_entries (sectors s' b)) A = map (\<lambda>b. sector_entries (sectors s b)) A"
    "map (\<lambda>b. sector_entries (sectors s' b)) B = map (\<lambda>b. sector_entries (sectors s b)) B"
    using assms(3) by simp_all
  then show ?thesis unfolding dir_entries_def assms(1) by (simp only: map_append list.map concat_append concat.simps append_assoc)
qed

lemma blank_free_overlay:
  assumes "length b = 512" "entry_ok e" "i < 21" "blank_free b"
  shows "blank_free (overlay b (sizeof_dir_entry * i) (entry_bytes e))"
  using assms entry_at_overlay [OF assms(1) _ assms(3), of e] by (auto simp: blank_free_def entry_ok_def)

lemma sync_in_place:
  assumes ok: "fs_ok s" "blocks_fit (part s)" and d: "dir_ok s a" and oth: "blocks_ok s (dblocks s a @ others)"
    and e: "entry_ok e" and k: "k < 12" "i_sectors (inodes s a) ! k = l" "l \<noteq> 0" "\<not> sector_full (sectors s l)"
  defines "ab \<equiv> take 12 (i_sectors (inodes s a)) @ replicate 128 0"
  shows "\<exists>s'. sync_blocks s a e ab [k..<140] = Inr (True, s') \<and> dir_frame s a others s' \<and> entry_added s a e s'"
proof -
  let ?b = "sectors s l" and ?t = "\<lambda>i. f_type (entry_at (sectors s l) i) = FT_UNKOWN"
  have ds: "dsize s = 24" "length (i_sectors (inodes s a)) = 13" using d by (simp_all add: dir_ok_def)
  obtain i where i: "find ?t [0..<21] = Some i"
    using k(4) by (cases "find ?t [0..<21]") (auto simp: sector_full_def find_None_iff)
  then have i': "i < 21" "?t i" by (auto simp: find_Some_iff)
  have "l \<in> set (dblocks s a)" using nth_mem [of k "take 12 (i_sectors (inodes s a))"] k(1-3) ds(2) by (simp add: dblocks_def)
  then obtain A B where AB: "dblocks s a = A @ l # B" by (auto dest: split_list)
  have dist: "l \<notin> set (A @ B)" and l: "l \<notin> set others" "used_block s l"
    using oth AB by (auto simp: blocks_ok_def)
  note lba = used_block_lba [OF ok l(2)]
  have len: "length ?b = 512" using ok(1) by (simp add: fs_ok_def disk_ok_def)
  have eb: "length (entry_bytes e) = 24" using e by (simp add: entry_ok_def sizeof_dir_entry_def)
  let ?b' = "overlay ?b (sizeof_dir_entry * i) (entry_bytes e)"
  let ?s1 = "s\<lparr>sectors := (sectors s)(l := ?b')\<rparr>"
  let ?s' = "grow_dir ?s1 a"
  have len': "length ?b' = 512" using len eb i'(1) by (simp add: sizeof_dir_entry_def)
  have "ab ! k = l" using k(1,2) ds(2) by (simp add: ab_def nth_append)
  then have "sync_blocks s a e ab (k # [Suc k..<140]) = Inr (True, ?s')"
    using disk_one(1) [OF lba(1), of s] disk_one(2) [OF lba(1) len', of s] i k(3) ds(1) eb
    by (simp add: per_sec_21)
  then have eq: "sync_blocks s a e ab [k..<140] = Inr (True, ?s')" using k(1) by (simp add: upt_conv_Cons)
  have f: "part ?s' = part s" "fmem ?s' = fmem s" "dsize ?s' = 24" "dirs ?s' = dirs s" "file_table ?s' = file_table s"
    "answers ?s' = answers s" "live ?s' = live s" "sectors ?s' = (sectors s)(l := ?b')"
    "inodes ?s' = (inodes s)(a := (inodes s a)\<lparr>i_size := i_size (inodes s a) + 24\<rparr>)"
    using ds(1) by (simp_all add: grow_dir_def upd_inode_def dsize_def)
  have db: "dblocks ?s' a = dblocks s a" by (simp add: dblocks_def f)
  have bo: "blocks_ok ?s' ls = blocks_ok s ls" for ls
    by (simp add: blocks_ok_def used_block_def free_blocks_of_def block_addr_def f)
  have ent: "dir_entries s a = concat (map (\<lambda>b. sector_entries (sectors s b)) A) @ sector_entries ?b @
      concat (map (\<lambda>b. sector_entries (sectors s b)) B)" by (rule dir_entries_at [OF AB dist refl])
  have ent': "dir_entries ?s' a = concat (map (\<lambda>b. sector_entries (sectors s b)) A) @ sector_entries ?b' @
      concat (map (\<lambda>b. sector_entries (sectors s b)) B)"
  proof -
    have "sectors ?s' b = sectors s b" if "b \<in> set (A @ B)" for b using dist that by (auto simp: f)
    from dir_entries_at [OF _ dist this] AB db show ?thesis by (simp add: f)
  qed
  obtain P Q where PQ: "sector_entries ?b = P @ Q" "sector_entries ?b' = P @ e # Q"
    using sector_entries_overlay [OF len _ i'(1), of e] e i'(2) by (auto simp: entry_ok_def)
  have PQ': "\<exists>P Q. dir_entries s a = P @ Q \<and> dir_entries ?s' a = P @ e # Q"
    using PQ by (intro exI [of _ "concat (map (\<lambda>b. sector_entries (sectors s b)) A) @ P"]
      exI [of _ "Q @ concat (map (\<lambda>b. sector_entries (sectors s b)) B)"]) (simp add: ent ent')
  then have size: "length (dir_entries ?s' a) = Suc (length (dir_entries s a))" by auto
  have "blank_free ?b'" using blank_free_overlay [OF len e i'(1)] d AB by (simp add: dir_ok_def)
  then have "dir_ok ?s' a"
    using d size oth by (auto simp: dir_ok_def db f bo AB algebra_simps)
  moreover have "dir_frame s a others ?s'"
  proof -
    have "fs_ok ?s'" using ok(1) len' by (simp add: fs_ok_def disk_ok_def f)
    moreover have "\<exists>secs n. inodes ?s' = (inodes s)(a := (inodes s a)\<lparr>i_sectors := secs, i_size := n\<rparr>)"
      by (rule exI [of _ "i_sectors (inodes s a)"], rule exI [of _ "i_size (inodes s a) + 24"]) (simp add: f)
    moreover have "sectors ?s' m = sectors s m" if "m \<in> set others \<or> m < data_start_lba (sb (part s))" for m
      using that l(1) lba(3) by (auto simp: f)
    ultimately show ?thesis using ok(2) oth by (simp add: dir_frame_def f bo db)
  qed
  ultimately show ?thesis using eq PQ' by (auto simp: entry_added_def)
qed

lemma blocks_ok_perm: "mset ls = mset ls' \<Longrightarrow> blocks_ok s ls = blocks_ok s ls'"
  using mset_eq_imp_distinct_iff [of ls ls'] mset_eq_setD [of ls ls'] by (auto simp: blocks_ok_def)

lemma nonzero_update:
  assumes "k < length xs" "xs ! k = (0::u32)" "l \<noteq> 0"
  shows "\<exists>A B. filter (\<lambda>b. b \<noteq> 0) xs = A @ B \<and> filter (\<lambda>b. b \<noteq> 0) (xs[k := l]) = A @ l # B"
proof -
  have "xs = take k xs @ 0 # drop (Suc k) xs" using id_take_nth_drop [OF assms(1)] assms(2) by simp
  from arg_cong [OF this, of "filter (\<lambda>b. b \<noteq> 0)"]
  have "filter (\<lambda>b. b \<noteq> 0) xs = filter (\<lambda>b. b \<noteq> 0) (take k xs) @ filter (\<lambda>b. b \<noteq> 0) (drop (Suc k) xs)"
    by (simp only: filter_append filter.simps) simp
  moreover have "xs[k := l] = take k xs @ l # drop (Suc k) xs" using assms(1) by (simp add: upd_conv_take_nth_drop)
  ultimately show ?thesis using assms(3) by auto
qed

lemma sync_new_block:
  assumes ok: "fs_ok s" "blocks_fit (part s)" and d: "dir_ok s a" and oth: "blocks_ok s (dblocks s a @ others)"
    and e: "entry_ok e" and k: "k < 12" "i_sectors (inodes s a) ! k = 0" and free: "free_blocks_of s \<noteq> {}"
  defines "ab \<equiv> take 12 (i_sectors (inodes s a)) @ replicate 128 0"
  shows "\<exists>s'. sync_blocks s a e ab [k..<140] = Inr (True, s') \<and> dir_frame s a others s' \<and> entry_added s a e s'"
proof -
  let ?p = "part s" and ?i = "inodes s a"
  have lay: "layout_ok ?p" using ok(1) by (simp add: fs_ok_def)
  have ds: "dsize s = 24" "length (i_sectors ?i) = 13" "i_sectors ?i ! 12 = 0" using d by (simp_all add: dir_ok_def)
  from block_alloc [OF lay ok(2) free] obtain b m where
    b: "block_bitmap_alloc s = Inr (block_addr s b, s\<lparr>fmem := m\<rparr>)" "b \<in> free_blocks_of s"
      "free_blocks_of (s\<lparr>fmem := m\<rparr>) = free_blocks_of s - {b}" by blast
  have b': "b < bm_len (block_bitmap ?p)" using b(2) by (simp add: free_blocks_of_def)
  let ?l = "block_addr s b"
  note lba = block_addr_unat [OF lay ok(2) b']
  let ?s1 = "s\<lparr>fmem := m\<rparr>"
  have "fs_ok ?s1" "blocks_fit (part ?s1)" using ok by (simp_all add: fs_ok_def disk_ok_def)
  from block_sync [OF this, of b] b' obtain f where
    sy: "bitmap_sync ?s1 (?l - data_start_lba (sb ?p)) BLOCK_BITMAP = Inr (?s1\<lparr>sectors := f\<rparr>)" "same_data ?s1 (?s1\<lparr>sectors := f\<rparr>)"
    by (auto simp: block_addr_def)
  let ?b' = "overlay (replicate 512 0) 0 (entry_bytes e)"
  let ?s' = "grow_dir ((set_sector (?s1\<lparr>sectors := f\<rparr>) a k ?l)\<lparr>sectors := f(?l := ?b')\<rparr>) a"
  have eb: "length (entry_bytes e) = 24" using e by (simp add: entry_ok_def sizeof_dir_entry_def)
  have len': "length ?b' = 512" using eb by simp
  have "ab ! k = 0" using k ds(2) by (simp add: ab_def nth_append)
  then have "sync_blocks s a e ab (k # [Suc k..<140]) = Inr (True, ?s')"
    using b(1) sy(1) lba(4) k(1) ds(1) eb disk_one(2) [OF lba(2) len', of "set_sector (?s1\<lparr>sectors := f\<rparr>) a k ?l"]
    by (simp add: write_new_block_def dsize_def) (simp add: set_sector_def upd_inode_def)
  then have eq: "sync_blocks s a e ab [k..<140] = Inr (True, ?s')" using k(1) by (simp add: upt_conv_Cons)
  have f: "part ?s' = ?p" "fmem ?s' = m" "dirs ?s' = dirs s" "file_table ?s' = file_table s"
    "answers ?s' = answers s" "live ?s' = live s" "sectors ?s' = f(?l := ?b')"
    "inodes ?s' = (inodes s)(a := ?i\<lparr>i_sectors := (i_sectors ?i)[k := ?l], i_size := i_size ?i + 24\<rparr>)"
    using ds(1) by (simp_all add: grow_dir_def set_sector_def upd_inode_def dsize_def)
  have fs: "f c = sectors s c" if "inode_bitmap_lba (sb ?p) \<le> c" for c using sy(2) that by (simp add: same_data_def)
  obtain A B where AB: "dblocks s a = A @ B" "dblocks ?s' a = A @ ?l # B"
    using nonzero_update [of k "take 12 (i_sectors ?i)" ?l] k ds(2) lba(3)
    by (auto simp: dblocks_def f take_update_swap nth_append)
  have fr: "free_blocks_of ?s' = free_blocks_of s - {b}" using b(3) by (simp add: free_blocks_of_def f)
  note ins = blocks_ok_insert [OF lay ok(2) oth b(2) f(1) fr]
  have dist: "?l \<notin> set (A @ B)" "?l \<notin> set others" using ins(2) AB(1) by auto
  have bo: "blocks_ok ?s' (dblocks ?s' a @ others)"
    using ins(1) blocks_ok_perm [of "(dblocks s a @ others) @ [?l]" "dblocks ?s' a @ others"] AB by simp
  have data: "inode_bitmap_lba (sb ?p) \<le> data_start_lba (sb ?p)" using lay by (simp add: layout_ok_def word_le_nat_alt)
  have keep: "sectors ?s' c = sectors s c" if "c \<in> set (A @ B)" for c
  proof -
    have "used_block s c" using that oth AB(1) by (auto simp: blocks_ok_def)
    then have "data_start_lba (sb ?p) \<le> c" using used_block_lba(3) [OF ok] by blast
    then show ?thesis using that dist(1) fs [of c] data by (auto simp: f)
  qed
  have ent': "dir_entries ?s' a = concat (map (\<lambda>b. sector_entries (sectors s b)) A) @ sector_entries ?b' @
      concat (map (\<lambda>b. sector_entries (sectors s b)) B)"
    using dir_entries_at [OF AB(2) dist(1) keep] by (simp add: f)
  have "sector_entries ?b' = [e]"
    using sector_entries_overlay [of "replicate 512 0" e 0] sector_entries_zero e by (auto simp: entry_ok_def split: if_splits)
  then have PQ: "\<exists>P Q. dir_entries s a = P @ Q \<and> dir_entries ?s' a = P @ e # Q"
    using ent' AB(1) by (simp add: dir_entries_def) blast
  then have size: "length (dir_entries ?s' a) = Suc (length (dir_entries s a))" by auto
  have zero: "blank_free (replicate 512 0)"
    by (auto simp: blank_free_def entry_name_def entry_at_def sub_def takeWhile_eq_Nil_iff)
  have bl: "blank_free (sectors ?s' c)" if "c \<in> set (dblocks ?s' a)" for c
  proof (cases "c = ?l")
    case True
    then show ?thesis using blank_free_overlay [OF _ e _ zero, of 0] by (simp add: f)
  next
    case False
    then have "c \<in> set (A @ B)" using that AB(2) by simp
    then show ?thesis using d AB(1) keep [of c] by (simp add: dir_ok_def)
  qed
  have "dir_ok ?s' a"
    unfolding dir_ok_def
  proof (intro conjI ballI)
    show "blocks_ok ?s' (dblocks ?s' a)" using bo by (rule blocks_ok_left)
    show "i_size (inodes ?s' a) = 24 * of_nat (length (dir_entries ?s' a))"
      using d size by (simp add: dir_ok_def f algebra_simps)
  qed (use ds k(1) bl in \<open>simp_all add: f dsize_def\<close>)
  moreover have "dir_frame s a others ?s'"
  proof -
    have "fs_ok ?s'" using sy(2) len' lay by (simp add: fs_ok_def disk_ok_def f same_data_def)
    moreover have "\<exists>secs n. inodes ?s' = (inodes s)(a := ?i\<lparr>i_sectors := secs, i_size := n\<rparr>)"
      by (rule exI [of _ "(i_sectors ?i)[k := ?l]"], rule exI [of _ "i_size ?i + 24"]) (simp add: f)
    moreover have "sectors ?s' c = sectors s c"
      if "inode_bitmap_lba (sb ?p) \<le> c" "c \<in> set others \<or> c < data_start_lba (sb ?p)" for c
      using that dist(2) lba(5) fs [of c] by (auto simp: f)
    ultimately show ?thesis using ok(2) bo by (simp add: dir_frame_def f)
  qed
  ultimately show ?thesis using eq PQ by (auto simp: entry_added_def)
qed

lemma sync_dir_entry_step:
  assumes ok: "fs_ok s" "blocks_fit (part s)" and a: "dir_inode (dirs s d) = a" "dir_ok s a"
    and oth: "blocks_ok s (dblocks s a @ others)" and e: "entry_ok e" and free: "free_blocks_of s \<noteq> {}"
    and room: "k < 12" "i_sectors (inodes s a) ! k = 0 \<or> \<not> sector_full (sectors s (i_sectors (inodes s a) ! k))"
  shows "\<exists>s'. sync_dir_entry s d e = Inr (True, s') \<and> dir_frame s a others s' \<and> entry_added s a e s'"
proof -
  let ?free = "\<lambda>k. i_sectors (inodes s a) ! k = 0 \<or> \<not> sector_full (sectors s (i_sectors (inodes s a) ! k))"
  let ?ab = "take 12 (i_sectors (inodes s a)) @ replicate 128 0"
  define j where "j = (LEAST k. ?free k)"
  have j: "?free j" "j < 12" unfolding j_def using room LeastI [of ?free k] Least_le [of ?free k] by (auto intro: le_less_trans)
  have "\<not> ?free i" if "i < j" for i using that not_less_Least [of i ?free] by (simp add: j_def)
  then have skip: "sync_blocks s a e ?ab [0..<140] = sync_blocks s a e ?ab [j..<140]"
    using sync_blocks_skip [OF ok a(2), of j e] j(2) by simp
  have "length (dir_entries s a) \<le> 252" by (rule length_dir_entries)
  then have "unat (24 * of_nat (length (dir_entries s a)) :: u32) = 24 * length (dir_entries s a)"
    by (simp add: unat_word_ariths)
  then have "i_size (inodes s a) mod dsize s = 0"
    using a(2) by (simp add: dir_ok_def word_unat_eq_iff unat_mod)
  then have eq: "sync_dir_entry s d e = sync_blocks s a e ?ab [j..<140]"
    using a(1) skip by (simp add: sync_dir_entry_def Let_def)
  show ?thesis
  proof (cases "i_sectors (inodes s a) ! j = 0")
    case True
    from sync_new_block [OF ok a(2) oth e j(2) this free] eq show ?thesis by simp
  next
    case False
    then have "\<not> sector_full (sectors s (i_sectors (inodes s a) ! j))" using j(1) by simp
    from sync_in_place [OF ok a(2) oth e j(2) refl False this] eq show ?thesis by simp
  qed
qed

text \<open>
  C21: As long as a direct block of the directory is missing or has a free slot, and a block is free,
  \<open>sync_dir_entry\<close> puts the new entry among the others, and keeps the directory well-formed. The blocks
  of other files, the i-node table and the other i-nodes in memory stay as they are.
\<close>

theorem sync_dir_entry_adds:
  assumes ok: "fs_ok s" "blocks_fit (part s)" and a: "dir_inode (dirs s d) = a" "dir_ok s a"
    and oth: "blocks_ok s (dblocks s a @ others)" and e: "entry_ok e" and free: "free_blocks_of s \<noteq> {}"
    and room: "k < 12" "i_sectors (inodes s a) ! k = 0 \<or> \<not> sector_full (sectors s (i_sectors (inodes s a) ! k))"
  shows "\<exists>s'. sync_dir_entry s d e = Inr (True, s') \<and> dir_frame s a others s' \<and> entry_added s a e s'"
  using assms by (rule sync_dir_entry_step)

section \<open>Deleting an entry from a directory\<close>

text \<open>An entry other than \<^verbatim>\<open>.\<close> and \<^verbatim>\<open>..\<close>.\<close>

definition ordinary :: "dir_entry \<Rightarrow> bool" where
  "ordinary e \<longleftrightarrow> entry_name e \<noteq> [dot] \<and> entry_name e \<noteq> [dot, dot]"

definition match_at :: "u8 list \<Rightarrow> u32 \<Rightarrow> nat \<Rightarrow> bool" where
  "match_at b ino i \<longleftrightarrow> f_type (entry_at b i) \<noteq> FT_UNKOWN \<and> ordinary (entry_at b i) \<and> de_i_no (entry_at b i) = ino"

definition starts_with_dot :: "u8 list \<Rightarrow> bool" where
  "starts_with_dot b \<longleftrightarrow> f_type (entry_at b 0) \<noteq> FT_UNKOWN \<and> entry_name (entry_at b 0) = [dot]"

lemma name_is_dots:
  assumes "length b = 512" "i < 21"
  shows "name_is [0x2E] b i \<longleftrightarrow> entry_name (entry_at b i) = [dot]"
    "name_is [0x2E, 0x2E] b i \<longleftrightarrow> entry_name (entry_at b i) = [dot, dot]"
  using name_is_entry [OF assms, of "[0x2E]"] name_is_entry [OF assms, of "[0x2E, 0x2E]"] by (simp_all add: name_len_def)

lemma find_entry_find:
  assumes "length b = 512" "set is \<subseteq> {0..<21}"
  shows "\<exists>cnt'. find_entry b ino cnt True is = (cnt', True, find (match_at b ino) is)"
  using assms(2)
proof (induction "is" arbitrary: cnt)
  case (Cons i "is")
  then show ?case using name_is_dots [OF assms(1), of i] by (auto simp: match_at_def ordinary_def)
qed simp

text \<open>After a sector that starts with \<^verbatim>\<open>.\<close> the flag \<open>is_dir_first_block\<close> is set, and stays so for all later ones.\<close>

lemma find_entry_flag:
  assumes "length b = 512" "first_block \<or> starts_with_dot b"
  shows "\<exists>cnt'. find_entry b ino 0 first_block [0..<21] = (cnt', True, find (match_at b ino) [0..<21])"
proof (cases first_block)
  case True
  then show ?thesis using find_entry_find [OF assms(1), of "[0..<21]"] by auto
next
  case False
  then have "starts_with_dot b" using assms(2) by simp
  moreover have "[0..<21] = 0 # [Suc 0..<21]" by (simp add: upt_conv_Cons)
  ultimately show ?thesis
    using find_entry_find [OF assms(1), of "[Suc 0..<21]" ino 0] name_is_dots [OF assms(1), of 0] False
    by (auto simp: starts_with_dot_def match_at_def ordinary_def)
qed

lemma find_match:
  "map_option (entry_at b) (find (match_at b ino) [0..<21]) =
     find (\<lambda>e. ordinary e \<and> de_i_no e = ino) (sector_entries b)"
proof -
  have "match_at b ino = (\<lambda>i. f_type (entry_at b i) \<noteq> FT_UNKOWN \<and> ordinary (entry_at b i) \<and> de_i_no (entry_at b i) = ino)"
    by (simp add: fun_eq_iff match_at_def)
  then show ?thesis by (simp add: sector_entries_def find_map_filter)
qed

text \<open>The first block of the directory starts with the entry \<^verbatim>\<open>.\<close>.\<close>

definition dot_first :: "fsys \<Rightarrow> u32 \<Rightarrow> bool" where
  "dot_first s a \<longleftrightarrow> dblocks s a \<noteq> [] \<and> starts_with_dot (sectors s (hd (dblocks s a)))"

lemma delete_blocks_skip:
  assumes ok: "fs_ok s" "blocks_fit (part s)" and d: "dir_ok s a" "dot_first s a" and k: "k \<le> 12"
    and no: "\<And>j i. j < k \<Longrightarrow> i_sectors (inodes s a) ! j \<noteq> 0 \<Longrightarrow> i < 21 \<Longrightarrow> \<not> match_at (sectors s (i_sectors (inodes s a) ! j)) ino i"
  defines "ab \<equiv> take 12 (i_sectors (inodes s a)) @ replicate 128 0"
  shows "delete_blocks s a ino False ab [0..<140] =
    delete_blocks s a ino (filter (\<lambda>b. b \<noteq> 0) (take k (i_sectors (inodes s a))) \<noteq> []) ab [k..<140]"
  using k no
proof (induction k)
  case (Suc k)
  let ?secs = "i_sectors (inodes s a)" and ?l = "i_sectors (inodes s a) ! k"
  have len: "length ?secs = 13" using d(1) by (simp add: dir_ok_def)
  have l: "ab ! k = ?l" using len Suc.prems(1) by (simp add: ab_def nth_append)
  have tk: "take (Suc k) ?secs = take k ?secs @ [?l]" using len Suc.prems(1) by (simp add: take_Suc_conv_app_nth)
  have dec: "dblocks s a = filter (\<lambda>b. b \<noteq> 0) (take k ?secs) @ filter (\<lambda>b. b \<noteq> 0) (drop k (take 12 ?secs))"
  proof -
    have "take k (take 12 ?secs) = take k ?secs" using Suc.prems(1) by (simp add: min_def)
    then have "take 12 ?secs = take k ?secs @ drop k (take 12 ?secs)" using append_take_drop_id [of k "take 12 ?secs"] by simp
    from arg_cong [OF this, of "filter (\<lambda>b. b \<noteq> 0)"] show ?thesis by (simp only: dblocks_def filter_append)
  qed
  have up: "[k..<140] = k # [Suc k..<140]" using Suc.prems(1) by (simp add: upt_conv_Cons)
  have IH: "delete_blocks s a ino False ab [0..<140] =
    delete_blocks s a ino (filter (\<lambda>b. b \<noteq> 0) (take k ?secs) \<noteq> []) ab [k..<140]"
    using Suc by simp
  show ?case
  proof (cases "?l = 0")
    case True
    then show ?thesis using IH l up tk by simp
  next
    case False
    have "drop k (take 12 ?secs) = ?l # drop (Suc k) (take 12 ?secs)"
      using len Suc.prems(1) Cons_nth_drop_Suc [of k "take 12 ?secs"] by simp
    then have dec': "dblocks s a = filter (\<lambda>b. b \<noteq> 0) (take k ?secs) @ ?l # filter (\<lambda>b. b \<noteq> 0) (drop (Suc k) (take 12 ?secs))"
      using dec False by simp
    then have "used_block s ?l" using d(1) by (auto simp: dir_ok_def blocks_ok_def)
    then have lba: "?l \<le> max_lba" using used_block_lba(1) [OF ok] by blast
    have "filter (\<lambda>b. b \<noteq> 0) (take k ?secs) \<noteq> [] \<or> starts_with_dot (sectors s ?l)"
      using d(2) dec' by (cases "filter (\<lambda>b. b \<noteq> 0) (take k ?secs)") (simp_all add: dot_first_def)
    from find_entry_flag [OF _ this, of ino] ok(1) obtain cnt where
      fe: "find_entry (sectors s ?l) ino 0 (filter (\<lambda>b. b \<noteq> 0) (take k ?secs) \<noteq> []) [0..<21] =
        (cnt, True, find (match_at (sectors s ?l) ino) [0..<21])" by (auto simp: fs_ok_def disk_ok_def)
    have "find (match_at (sectors s ?l) ino) [0..<21] = None"
      using Suc.prems(2) [of k] False by (simp add: find_None_iff)
    then show ?thesis
      using IH l up tk False fe disk_one(1) [OF lba, of s] d(1) by (simp add: per_sec_21 dir_ok_def)
  qed
qed simp

text \<open>The state after a deletion: only the block with the entry and the slot of the directory's i-node change on the disk.\<close>

definition entry_removed :: "fsys \<Rightarrow> u32 \<Rightarrow> dir_entry \<Rightarrow> u32 list \<Rightarrow> fsys \<Rightarrow> bool" where
  "entry_removed s a e others s' \<longleftrightarrow> fs_ok s' \<and> dir_ok s' a \<and> dblocks s' a = dblocks s a \<and>
     (\<exists>P Q. dir_entries s a = P @ e # Q \<and> dir_entries s' a = P @ Q) \<and>
     s' = s\<lparr>sectors := sectors s', inodes := (inodes s)(a := (inodes s a)\<lparr>i_size := i_size (inodes s a) - 24\<rparr>)\<rparr> \<and>
     (\<forall>l \<in> set others. sectors s' l = sectors s l) \<and>
     slot s' (unat (i_no (inodes s a)) mod 256) = inode_bytes (pure_inode (inodes s' a)) \<and>
     (\<forall>j < 4096. j \<noteq> unat (i_no (inodes s a)) mod 256 \<longrightarrow> slot s' j = slot s j)"

lemma dblocks_index:
  assumes "l \<in> set (dblocks s a)"
  shows "\<exists>k < 12. i_sectors (inodes s a) ! k = l \<and> l \<noteq> 0"
proof -
  have "l \<in> set (take 12 (i_sectors (inodes s a)))" "l \<noteq> 0" using assms by (simp_all add: dblocks_def)
  then show ?thesis by (auto simp: in_set_conv_nth)
qed

lemma find_concat_None: "(\<And>x. x \<in> set xs \<Longrightarrow> find P (f x) = None) \<Longrightarrow> find P (concat (map f xs)) = None"
  by (induction xs) (simp_all add: find_append)

text \<open>Where the loop finds the entry: in the block \<open>l\<close> with the index \<open>k\<close>, at the index \<open>i\<close> of the sector.\<close>

lemma dir_match:
  assumes d: "dir_ok s a" and oth: "blocks_ok s (dblocks s a @ others)"
    and e: "find (\<lambda>e. ordinary e \<and> de_i_no e = ino) (dir_entries s a) = Some e"
  obtains k l A B i where "k < 12" "i_sectors (inodes s a) ! k = l" "l \<noteq> 0" "A = filter (\<lambda>b. b \<noteq> 0) (take k (i_sectors (inodes s a)))"
    "dblocks s a = A @ l # B" "l \<notin> set (A @ B)" "l \<notin> set others" "used_block s l"
    "find (match_at (sectors s l) ino) [0..<21] = Some i" "i < 21" "match_at (sectors s l) ino i" "e = entry_at (sectors s l) i"
    "\<And>j i. j < k \<Longrightarrow> i_sectors (inodes s a) ! j \<noteq> 0 \<Longrightarrow> i < 21 \<Longrightarrow> \<not> match_at (sectors s (i_sectors (inodes s a) ! j)) ino i"
proof -
  let ?secs = "i_sectors (inodes s a)" and ?P = "\<lambda>e. ordinary e \<and> de_i_no e = ino"
  let ?hit = "\<lambda>l. find (match_at (sectors s l) ino) [0..<21]"
  have len: "length ?secs = 13" using d by (simp add: dir_ok_def)
  have hit: "map_option (entry_at (sectors s l)) (?hit l) = find ?P (sector_entries (sectors s l))" for l
    by (rule find_match)
  have "\<exists>l \<in> set (dblocks s a). ?hit l \<noteq> None"
  proof (rule ccontr)
    assume none: "\<not> ?thesis"
    have "find ?P (sector_entries (sectors s c)) = None" if "c \<in> set (dblocks s a)" for c
      using hit [of c] none that by auto
    then have "find ?P (dir_entries s a) = None" unfolding dir_entries_def by (rule find_concat_None)
    with e show False by simp
  qed
  then have ex: "\<exists>k. k < 12 \<and> ?secs ! k \<noteq> 0 \<and> ?hit (?secs ! k) \<noteq> None" using dblocks_index by blast
  define k where "k = (LEAST k. k < 12 \<and> ?secs ! k \<noteq> 0 \<and> ?hit (?secs ! k) \<noteq> None)"
  have k: "k < 12" "?secs ! k \<noteq> 0" "?hit (?secs ! k) \<noteq> None" using LeastI_ex [OF ex] by (simp_all add: k_def)
  have no: "?hit (?secs ! j) = None" if "j < k" "?secs ! j \<noteq> 0" for j
    using not_less_Least [of j "\<lambda>k. k < 12 \<and> ?secs ! k \<noteq> 0 \<and> ?hit (?secs ! k) \<noteq> None"] that k(1) by (auto simp: k_def)
  define l where "l = ?secs ! k"
  define A where "A = filter (\<lambda>b. b \<noteq> 0) (take k ?secs)"
  define B where "B = filter (\<lambda>b. b \<noteq> 0) (drop (Suc k) (take 12 ?secs))"
  obtain i where i: "?hit l = Some i" using k(3) by (auto simp: l_def)
  then have i': "i < 21" "match_at (sectors s l) ino i" by (auto simp: find_Some_iff)
  have "take 12 ?secs = take k ?secs @ l # drop (Suc k) (take 12 ?secs)"
    using id_take_nth_drop [of k "take 12 ?secs"] k(1) len by (simp add: l_def min_def)
  from arg_cong [OF this, of "filter (\<lambda>b. b \<noteq> 0)"]
  have AB: "dblocks s a = A @ l # B" using k(2) by (simp add: dblocks_def A_def B_def l_def)
  have "find ?P (concat (map (\<lambda>b. sector_entries (sectors s b)) A)) = None"
  proof (rule find_concat_None)
    fix c assume "c \<in> set A"
    then obtain j where "j < k" "?secs ! j = c" "c \<noteq> 0" using k(1) len by (auto simp: A_def in_set_conv_nth)
    then show "find ?P (sector_entries (sectors s c)) = None" using no [of j] hit [of c] by simp
  qed
  then have ee: "e = entry_at (sectors s l) i" using e hit [of l, symmetric] i AB by (simp add: dir_entries_def find_append)
  have no': "\<not> match_at (sectors s (?secs ! j)) ino i" if "j < k" "?secs ! j \<noteq> 0" "i < 21" for j i
    using no [OF that(1,2)] that(3) by (auto simp: find_None_iff)
  show thesis
    using that [OF k(1) l_def [symmetric] _ A_def AB _ _ _ i i' ee no'] k(2) oth AB by (auto simp: blocks_ok_def l_def)
qed

lemma delete_dir_entry_step:
  assumes ok: "fs_ok s" "blocks_fit (part s)" and a: "dir_inode (dirs s d) = a" "dir_ok s a" "dot_first s a"
    and oth: "blocks_ok s (dblocks s a @ others)"
    and e: "find (\<lambda>e. ordinary e \<and> de_i_no e = ino) (dir_entries s a) = Some e"
  shows "\<exists>s'. delete_dir_entry s d ino = Inr (True, s') \<and> entry_removed s a e others s'"
proof -
  let ?secs = "i_sectors (inodes s a)"
  let ?ab = "take 12 ?secs @ replicate 128 0"
  have ds: "dsize s = 24" "length ?secs = 13" "?secs ! 12 = 0" using a(2) by (simp_all add: dir_ok_def)
  from dir_match [OF a(2) oth e] obtain k l A B i where
    k: "k < 12" "?secs ! k = l" "l \<noteq> 0" and A: "A = filter (\<lambda>b. b \<noteq> 0) (take k ?secs)" and AB: "dblocks s a = A @ l # B"
    and dist: "l \<notin> set (A @ B)" "l \<notin> set others" and used: "used_block s l"
    and i: "find (match_at (sectors s l) ino) [0..<21] = Some i" "i < 21" "match_at (sectors s l) ino i"
    and ee: "e = entry_at (sectors s l) i"
    and no: "\<And>j i. j < k \<Longrightarrow> ?secs ! j \<noteq> 0 \<Longrightarrow> i < 21 \<Longrightarrow> \<not> match_at (sectors s (?secs ! j)) ino i" by metis
  note lba = used_block_lba [OF ok used]
  have len: "length (sectors s l) = 512" using ok(1) by (simp add: fs_ok_def disk_ok_def)
  have skip: "delete_blocks s a ino False ?ab [0..<140] = delete_blocks s a ino (A \<noteq> []) ?ab [k..<140]"
    unfolding A by (rule delete_blocks_skip [OF ok a(2,3) less_imp_le [OF k(1)] no])
  have "A \<noteq> [] \<or> starts_with_dot (sectors s l)" using a(3) AB by (cases A) (simp_all add: dot_first_def)
  from find_entry_flag [OF len this, of ino] i obtain cnt where
    fe: "find_entry (sectors s l) ino 0 (A \<noteq> []) [0..<21] = (cnt, True, Some i)" by auto
  let ?b' = "overlay (sectors s l) (sizeof_dir_entry * i) (replicate 24 0)"
  let ?s1 = "s\<lparr>sectors := (sectors s)(l := ?b')\<rparr>"
  let ?s2 = "upd_inode ?s1 a (\<lambda>i. i\<lparr>i_size := i_size i - 24\<rparr>)"
  have len': "length ?b' = 512" using len i(2) by (simp add: sizeof_dir_entry_def)
  have zero: "replicate 24 0 = entry_bytes free_entry" by (simp add: free_entry_bytes sizeof_dir_entry_def)
  have fe_ok: "length (filename free_entry) = name_len" by (simp add: free_entry_def)
  obtain P Q where PQ: "sector_entries (sectors s l) = P @ entry_at (sectors s l) i # Q" "sector_entries ?b' = P @ Q"
    using sector_entries_overlay [OF len fe_ok i(2)] i(3) unfolding zero
    by (auto simp: match_at_def free_entry_def)
  have f1: "part ?s2 = part s" "sectors ?s2 = (sectors s)(l := ?b')" "fs_ok ?s2"
    using ok(1) len' by (simp_all add: upd_inode_def fs_ok_def disk_ok_def)
  have i2: "inodes ?s2 a = (inodes s a)\<lparr>i_size := i_size (inodes s a) - 24\<rparr>" by (simp add: upd_inode_def)
  have "length (i_sectors (inodes ?s2 a)) = 13" using ds(2) by (simp add: i2)
  from inode_sync_slot_step [OF f1(3) this, of 1024] obtain s' where
    s': "inode_sync ?s2 a 1024 = Inr s'"
      "slot_set ?s2 (unat (i_no (inodes s a)) mod 256) (inode_bytes (pure_inode (inodes ?s2 a))) s'"
    by (auto simp: i2)
  have e': "s' = ?s2\<lparr>sectors := sectors s'\<rparr>" "fs_ok s'" using s'(2) by (simp_all add: slot_set_def)
  have f2: "part s' = part s" "inodes s' = inodes ?s2" "fmem s' = fmem s" "dsize s' = 24"
    by (subst e'(1), simp add: upd_inode_def dsize_def ds(1) [unfolded dsize_def])+
  have sec: "sectors s' c = sectors ?s2 c" if "data_start_lba (sb (part s)) \<le> c" for c
    using s'(2) that by (auto simp: slot_set_def f1(1) linorder_not_less)
  have count: "i_size (inodes s a) = 24 * of_nat (length (dir_entries s a))" using a(2) by (simp add: dir_ok_def)
  have lens: "length (dir_entries s a) = Suc (length (dir_entries s a) - 1)" "length (dir_entries s a) \<le> 252"
    using e length_dir_entries [of s a] by (simp_all, cases "dir_entries s a") auto
  have big: "24 \<le> i_size (inodes s a)"
  proof -
    have "unat (i_size (inodes s a)) = 24 * length (dir_entries s a)"
      unfolding count using lens(2) by (simp add: unat_word_ariths)
    then show ?thesis using lens(1) by (simp add: word_le_nat_alt)
  qed
  have "delete_blocks s a ino (A \<noteq> []) ?ab (k # [Suc k..<140]) = Inr (True, s')"
    using ds k fe disk_one(1) [OF lba(1), of s] disk_one(2) [OF lba(1) len', of s] s'(1) big
    by (simp add: per_sec_21 nth_append) (simp add: dsize_def)
  then have eq: "delete_dir_entry s d ino = Inr (True, s')"
    using skip ds(3) a(1) k(1) by (simp add: delete_dir_entry_def Let_def upt_conv_Cons)
  have db: "dblocks s' a = dblocks s a" by (simp add: dblocks_def f2 i2)
  have keep: "sectors s' c = sectors s c" if "c \<in> set (A @ B) \<or> c \<in> set others" for c
  proof -
    have "used_block s c" using that oth AB by (auto simp: blocks_ok_def)
    then have "data_start_lba (sb (part s)) \<le> c" using used_block_lba(3) [OF ok] by blast
    then show ?thesis using that dist sec [of c] by (auto simp: f1)
  qed
  have "dir_entries s' a = concat (map (\<lambda>b. sector_entries (sectors s b)) A) @ sector_entries (sectors s' l) @
      concat (map (\<lambda>b. sector_entries (sectors s b)) B)"
    by (rule dir_entries_at) (use db AB dist keep in auto)
  moreover have l': "sectors s' l = ?b'" using sec [OF lba(3)] by (simp add: f1)
  ultimately have ent: "\<exists>P Q. dir_entries s a = P @ e # Q \<and> dir_entries s' a = P @ Q"
    using PQ AB ee by (intro exI [of _ "concat (map (\<lambda>b. sector_entries (sectors s b)) A) @ P"]
      exI [of _ "Q @ concat (map (\<lambda>b. sector_entries (sectors s b)) B)"]) (simp add: dir_entries_def)
  then have size: "length (dir_entries s a) = Suc (length (dir_entries s' a))" by auto
  have bl: "blank_free (sectors s' c)" if "c \<in> set (dblocks s' a)" for c
  proof (cases "c = l")
    case True
    have "blank_free (sectors s l)" using a(2) AB by (simp add: dir_ok_def)
    then have "blank_free ?b'"
      using entry_at_overlay [OF len fe_ok i(2)] unfolding zero
      by (auto simp: blank_free_def) (simp add: free_entry_def entry_name_def name_len_def)
    then show ?thesis using True l' by simp
  next
    case False
    then have "c \<in> set (A @ B)" using that db AB by simp
    then show ?thesis using a(2) AB keep [of c] by (simp add: dir_ok_def)
  qed
  have "dir_ok s' a"
    unfolding dir_ok_def
  proof (intro conjI ballI)
    show "blocks_ok s' (dblocks s' a)"
      using a(2) by (simp add: dir_ok_def db blocks_ok_def used_block_def free_blocks_of_def block_addr_def f2)
    show "i_size (inodes s' a) = 24 * of_nat (length (dir_entries s' a))"
      using count size by (simp add: f2 i2 algebra_simps)
  qed (use ds bl f2(4) in \<open>simp_all add: f2 i2\<close>)
  moreover have "slot s' j = slot s j" if "j < 4096" "j \<noteq> unat (i_no (inodes s a)) mod 256" for j
  proof -
    have "slot ?s2 j = slot s j"
      by (rule slot_cong) (use ok(1) lba(3) in \<open>auto simp: fs_ok_def f1\<close>)
    then show ?thesis using s'(2) that by (simp add: slot_set_def)
  qed
  moreover have "s' = s\<lparr>sectors := sectors s', inodes := (inodes s)(a := (inodes s a)\<lparr>i_size := i_size (inodes s a) - 24\<rparr>)\<rparr>"
    by (subst e'(1)) (simp add: upd_inode_def)
  ultimately show ?thesis
    using eq ent keep db e'(2) s'(2) by (intro exI [of _ s']) (simp add: entry_removed_def slot_set_def f2)
qed

text \<open>
  C22: In a directory of direct blocks, without an indirect table, whose first entry is \<^verbatim>\<open>.\<close>, \<open>delete_dir_entry\<close>
  takes out the first ordinary entry with the given number and nothing else, counts the size down and writes the directory's i-node back to the slot
  of its number modulo 256.
\<close>

theorem delete_dir_entry_removes:
  assumes ok: "fs_ok s" "blocks_fit (part s)" and a: "dir_inode (dirs s d) = a" "dir_ok s a" "dot_first s a"
    and oth: "blocks_ok s (dblocks s a @ others)"
    and e: "find (\<lambda>e. ordinary e \<and> de_i_no e = ino) (dir_entries s a) = Some e"
  shows "\<exists>s'. delete_dir_entry s d ino = Inr (True, s') \<and> entry_removed s a e others s'"
  using assms by (rule delete_dir_entry_step)

section \<open>Reading a directory\<close>

lemma pos_less:
  assumes "c \<le> 300" "n \<le> 300"
  shows "(24 * of_nat c :: u32) < 24 * of_nat n \<longleftrightarrow> c < n" "(24 * of_nat c :: u32) = 24 * of_nat n \<longleftrightarrow> c = n"
proof -
  have u: "unat (24 * of_nat c :: u32) = 24 * c" "unat (24 * of_nat n :: u32) = 24 * n"
    using assms by (simp_all add: unat_word_ariths)
  then show "(24 * of_nat c :: u32) < 24 * of_nat n \<longleftrightarrow> c < n" by (simp add: word_less_nat_alt)
  show "(24 * of_nat c :: u32) = 24 * of_nat n \<longleftrightarrow> c = n" by (simp add: word_unat_eq_iff u)
qed

lemma read_sector_nth:
  assumes "c \<le> n" "n \<le> 252" "length is \<le> 21"
  shows "read_sector b 24 (24 * of_nat n) (24 * of_nat c) is =
    (let U = filter (\<lambda>i. f_type (entry_at b i) \<noteq> FT_UNKOWN) is
     in if c + length U \<le> n then Inr (Inl (24 * of_nat (c + length U))) else Inr (Inr (U ! (n - c))))"
  using assms(1,3)
proof (induction "is" arbitrary: c)
  case (Cons i "is")
  show ?case
  proof (cases "f_type (entry_at b i) \<noteq> FT_UNKOWN \<and> c < n")
    case True
    then have "read_sector b 24 (24 * of_nat n) (24 * of_nat c) (i # is) =
        read_sector b 24 (24 * of_nat n) (24 * of_nat (Suc c)) is"
      using pos_less(1) [of c n] Cons.prems assms(2) by (simp add: algebra_simps)
    then show ?thesis using True Cons.IH [of "Suc c"] Cons.prems by (auto simp: Let_def nth_Cons' algebra_simps)
  next
    case False
    then show ?thesis using pos_less [of c n] Cons assms(2) by (auto simp: Let_def)
  qed
qed (simp add: Let_def)

text \<open>The sector that is read last ends up in the buffer of the structure.\<close>

lemma read_dir_blocks_nth:
  assumes "disk_ok s" "dsize s = 24" "dir_pose (dirs s d) = 24 * of_nat n" "n < 252"
    "dir_pose (dirs s d) < i_size (inodes s (dir_inode (dirs s d)))"
    "\<And>b. b \<in> set bs \<Longrightarrow> b \<noteq> 0 \<Longrightarrow> b \<le> max_lba"
    "c \<le> n" "n < c + length (concat (map (\<lambda>b. sector_entries (sectors s b)) (filter (\<lambda>b. b \<noteq> 0) bs)))"
  shows "\<exists>buf. read_dir_blocks s d (24 * of_nat c) bs =
    Inr (Some (concat (map (\<lambda>b. sector_entries (sectors s b)) (filter (\<lambda>b. b \<noteq> 0) bs)) ! (n - c)),
      s\<lparr>dirs := (dirs s)(d := (dirs s d)\<lparr>dir_pose := 24 * of_nat (Suc n), dir_buf := buf\<rparr>)\<rparr>)"
  using assms
proof (induction bs arbitrary: s c)
  case (Cons b bs)
  show ?case
  proof (cases "b = 0")
    case True
    then show ?thesis using Cons.IH [of s c] Cons.prems by (simp add: Let_def not_le)
  next
    case False
    let ?U = "filter (\<lambda>i. f_type (entry_at (sectors s b) i) \<noteq> FT_UNKOWN) [0..<21]"
    let ?s = "s\<lparr>dirs := (dirs s)(d := (dirs s d)\<lparr>dir_buf := sectors s b\<rparr>)\<rparr>"
    have lba: "b \<le> max_lba" using Cons.prems(6) False by simp
    have U: "sector_entries (sectors s b) = map (entry_at (sectors s b)) ?U" "length ?U \<le> 21"
      using length_sector_entries [of "sectors s b"] by (simp_all add: sector_entries_def)
    have rs: "read_sector (sectors s b) 24 (24 * of_nat n) (24 * of_nat c) [0..<21] =
      (if c + length ?U \<le> n then Inr (Inl (24 * of_nat (c + length ?U))) else Inr (Inr (?U ! (n - c))))"
      using read_sector_nth [of c n "[0..<21]" "sectors s b"] Cons.prems(4,7) by (simp add: Let_def)
    have not_end: "\<not> i_size (inodes s (dir_inode (dirs s d))) \<le> 24 * of_nat n"
      using Cons.prems(3,5) by (simp add: not_le)
    show ?thesis
    proof (cases "c + length ?U \<le> n")
      case True
      have ih: "\<exists>buf. read_dir_blocks ?s d (24 * of_nat (c + length ?U)) bs =
        Inr (Some (concat (map (\<lambda>b. sector_entries (sectors ?s b)) (filter (\<lambda>b. b \<noteq> 0) bs)) ! (n - (c + length ?U))),
          ?s\<lparr>dirs := (dirs ?s)(d := (dirs ?s d)\<lparr>dir_pose := 24 * of_nat (Suc n), dir_buf := buf\<rparr>)\<rparr>)"
        by (rule Cons.IH) (use Cons.prems True False U in \<open>auto simp: disk_ok_def dsize_def\<close>)
      have past: "\<not> n - c < length ?U" using True by linarith
      from ih obtain buf where "read_dir_blocks ?s d (24 * of_nat (c + length ?U)) bs =
        Inr (Some (concat (map (\<lambda>b. sector_entries (sectors s b)) (filter (\<lambda>b. b \<noteq> 0) bs)) ! (n - (c + length ?U))),
          s\<lparr>dirs := (dirs s)(d := (dirs s d)\<lparr>dir_pose := 24 * of_nat (Suc n), dir_buf := buf\<rparr>)\<rparr>)"
        by auto
      then show ?thesis
        using disk_one(1) [OF lba, of s] rs True False not_end Cons.prems(2,3) U(1) past
        by (intro exI [of _ buf]) (simp add: per_sec_21 nth_append Let_def fun_upd_def del: of_nat_add)
    next
      case later: False
      then show ?thesis
        using disk_one(1) [OF lba, of s] rs False not_end Cons.prems(2,3,7) U
        by (intro exI [of _ "sectors s b"]) (simp add: per_sec_21 nth_append algebra_simps Let_def fun_upd_def cong: if_cong)
    qed
  qed
qed simp

lemma dir_read_nth:
  assumes ok: "fs_ok s" "blocks_fit (part s)" and a: "dir_inode (dirs s d) = a" "dir_ok s a"
    and pose: "dir_pose (dirs s d) = 24 * of_nat n" "n \<le> length (dir_entries s a)"
  shows "\<exists>buf. dir_read s d =
    (if n < length (dir_entries s a)
     then Inr (Some (dir_entries s a ! n), s\<lparr>dirs := (dirs s)(d := (dirs s d)\<lparr>dir_pose := 24 * of_nat (Suc n), dir_buf := buf\<rparr>)\<rparr>)
     else Inr (None, s))"
proof -
  let ?secs = "i_sectors (inodes s a)"
  have ds: "dsize s = 24" "length ?secs = 13" "?secs ! 12 = 0" using a(2) by (simp_all add: dir_ok_def)
  have N: "length (dir_entries s a) \<le> 252" "i_size (inodes s a) = 24 * of_nat (length (dir_entries s a))"
    using length_dir_entries a(2) by (simp_all add: dir_ok_def)
  have size: "dir_pose (dirs s d) < i_size (inodes s a) \<longleftrightarrow> n < length (dir_entries s a)"
    using pos_less(1) [of n "length (dir_entries s a)"] N pose by simp
  have eq: "dir_read s d = read_dir_blocks s d (24 * of_nat 0) (take 12 ?secs)"
    using a(1) ds by (simp add: dir_read_def dir_blocks_def Let_def)
  show ?thesis
  proof (cases "n < length (dir_entries s a)")
    case True
    have lba: "b \<le> max_lba" if "b \<in> set (take 12 ?secs)" "b \<noteq> 0" for b
    proof -
      have "b \<in> set (dblocks s a)" using that by (simp add: dblocks_def)
      then show ?thesis using a(2) used_block_lba(1) [OF ok] by (auto simp: dir_ok_def blocks_ok_def)
    qed
    have "dir_pose (dirs s d) < i_size (inodes s (dir_inode (dirs s d)))" "n < 252" "disk_ok s"
      using size True a(1) N(1) ok(1) by (simp_all add: fs_ok_def)
    from read_dir_blocks_nth [OF this(3) ds(1) pose(1) this(2,1) lba, of "take 12 ?secs" 0] eq True show ?thesis
      by (simp add: dir_entries_def dblocks_def)
  next
    case False
    obtain b bs where "take 12 ?secs = b # bs" using ds(2) by (cases "take 12 ?secs") auto
    then have "read_dir_blocks s d (24 * of_nat 0) (take 12 ?secs) = Inr (None, s)"
      using size False a(1) by (simp add: not_less)
    then show ?thesis using eq False by simp
  qed
qed

text \<open>Successive calls of \<open>dir_read\<close>.\<close>

primrec read_many :: "fsys \<Rightarrow> u32 \<Rightarrow> nat \<Rightarrow> (dir_entry option list \<times> fsys) fres" where
  "read_many s d 0 = Inr ([], s)"
| "read_many s d (Suc k) = bnd (dir_read s d) (\<lambda>(r, s). bnd (read_many s d k) (\<lambda>(rs, s). Inr (r # rs, s)))"

lemma read_many_from:
  assumes "fs_ok s" "blocks_fit (part s)" "dir_inode (dirs s d) = a" "dir_ok s a"
    and "dir_pose (dirs s d) = 24 * of_nat n" "n \<le> length (dir_entries s a)" "k = length (dir_entries s a) - n"
  shows "\<exists>buf. read_many s d (Suc k) = Inr (map Some (drop n (dir_entries s a)) @ [None],
    s\<lparr>dirs := (dirs s)(d := (dirs s d)\<lparr>dir_pose := 24 * of_nat (length (dir_entries s a)), dir_buf := buf\<rparr>)\<rparr>)"
  using assms
proof (induction k arbitrary: s n)
  case 0
  then have n: "n = length (dir_entries s a)" by simp
  have "(dirs s)(d := (dirs s d)\<lparr>dir_pose := 24 * of_nat n, dir_buf := dir_buf (dirs s d)\<rparr>) = dirs s"
    using 0(5) by (intro fun_upd_idem) simp
  then have "s\<lparr>dirs := (dirs s)(d := (dirs s d)\<lparr>dir_pose := 24 * of_nat (length (dir_entries s a)),
    dir_buf := dir_buf (dirs s d)\<rparr>)\<rparr> = s"
    by (simp only: n [symmetric]) simp
  moreover have "read_many s d (Suc 0) = Inr (map Some (drop n (dir_entries s a)) @ [None], s)"
    using dir_read_nth [OF 0(1-6)] n by simp
  ultimately show ?case by metis
next
  case (Suc k)
  then have n: "n < length (dir_entries s a)" by simp
  from dir_read_nth [OF Suc.prems(1-6)] n obtain buf where
    r: "dir_read s d = Inr (Some (dir_entries s a ! n),
      s\<lparr>dirs := (dirs s)(d := (dirs s d)\<lparr>dir_pose := 24 * of_nat (Suc n), dir_buf := buf\<rparr>)\<rparr>)" by auto
  let ?s = "s\<lparr>dirs := (dirs s)(d := (dirs s d)\<lparr>dir_pose := 24 * of_nat (Suc n), dir_buf := buf\<rparr>)\<rparr>"
  have same: "dir_entries ?s a = dir_entries s a" "dblocks ?s a = dblocks s a" by (simp_all add: dir_entries_def dblocks_def)
  have ok: "fs_ok ?s" using Suc.prems(1) by (simp add: fs_ok_def disk_ok_def)
  have dir: "dir_ok ?s a"
    using Suc.prems(4) unfolding dir_ok_def same
    by (simp add: blocks_ok_def used_block_def free_blocks_of_def block_addr_def dsize_def)
  have "\<exists>buf. read_many ?s d (Suc k) = Inr (map Some (drop (Suc n) (dir_entries ?s a)) @ [None],
    ?s\<lparr>dirs := (dirs ?s)(d := (dirs ?s d)\<lparr>dir_pose := 24 * of_nat (length (dir_entries ?s a)), dir_buf := buf\<rparr>)\<rparr>)"
    by (rule Suc.IH [OF ok _ _ dir]) (unfold same, use Suc.prems(2,3,7) n in simp_all)
  then obtain buf' where many: "read_many ?s d (Suc k) = Inr (map Some (drop (Suc n) (dir_entries s a)) @ [None],
    s\<lparr>dirs := (dirs s)(d := (dirs s d)\<lparr>dir_pose := 24 * of_nat (length (dir_entries s a)), dir_buf := buf'\<rparr>)\<rparr>)"
    unfolding same by auto
  have "map Some (drop n (dir_entries s a)) = Some (dir_entries s a ! n) # map Some (drop (Suc n) (dir_entries s a))"
    using n by (simp add: Cons_nth_drop_Suc [symmetric])
  then show ?case using r many by (intro exI [of _ buf'], subst read_many.simps(2)) (simp del: read_many.simps)
qed

text \<open>
  From the start of a directory, the calls of \<open>dir_read\<close> deliver its entries in their order, each once, and
  then the null pointer; no assertion fails and nothing but the position and the buffer changes.
\<close>

theorem dir_read_enumerates:
  assumes "fs_ok s" "blocks_fit (part s)" "dir_inode (dirs s d) = a" "dir_ok s a" "dir_pose (dirs s d) = 0"
  shows "\<exists>buf. read_many s d (Suc (length (dir_entries s a))) = Inr (map Some (dir_entries s a) @ [None],
    s\<lparr>dirs := (dirs s)(d := (dirs s d)\<lparr>dir_pose := 24 * of_nat (length (dir_entries s a)), dir_buf := buf\<rparr>)\<rparr>)"
  using read_many_from [OF assms(1-4), of 0 "length (dir_entries s a)"] assms(5) by simp

section \<open>Examples\<close>

text \<open>The root directory in block 713, with the entries \<^verbatim>\<open>.\<close>, \<^verbatim>\<open>..\<close> and \<^verbatim>\<open>a\<close>.\<close>

definition demo_entry :: "u8 list \<Rightarrow> u32 \<Rightarrow> u32 \<Rightarrow> dir_entry" where
  "demo_entry name ino ft = \<lparr>filename = overlay (replicate name_len 0) 0 name, de_i_no = ino, f_type = ft\<rparr>"

definition demo_sector :: "u8 list" where
  "demo_sector = overlay (overlay (overlay (replicate 512 0) (sizeof_dir_entry * 0) (entry_bytes (demo_entry [0x2E] 0 FT_DIR)))
     (sizeof_dir_entry * 1) (entry_bytes (demo_entry [0x2E, 0x2E] 0 FT_DIR)))
     (sizeof_dir_entry * 2) (entry_bytes (demo_entry [0x61] 13 FT_REGULAR))"

definition demo_dir :: fsys where
  "demo_dir = demo_fs\<lparr>sectors := (sectors demo_fs)(713 := demo_sector), fmem := (\<lambda>_. 0)(0x1000 := 2),
     inodes := (inodes demo_fs)(0x100 := (inode_init 0)\<lparr>i_size := 72, i_open_cnt := 1, i_sectors := 713 # replicate 12 0\<rparr>),
     dirs := (dirs demo_fs)(root_dir := \<lparr>dir_inode = 0x100, dir_pose = 0, dir_buf = replicate 512 0\<rparr>)\<rparr>"

lemma entry_at_zero: "i < 21 \<Longrightarrow> entry_at (replicate 512 0) i = free_entry"
  by (simp add: entry_at_def free_entry_def word_at_def sub_def sizeof_dir_entry_def name_len_def FT_UNKOWN_def)

lemma length_overlay_entry:
  "length b = 512 \<Longrightarrow> length (filename e) = name_len \<Longrightarrow> i < 21 \<Longrightarrow>
     length (overlay b (sizeof_dir_entry * i) (entry_bytes e)) = 512"
  by (simp add: sizeof_dir_entry_def)

lemma demo_entry_fields [simp]:
  "length name \<le> name_len \<Longrightarrow> length (filename (demo_entry name ino ft)) = name_len" "f_type (demo_entry name ino ft) = ft"
  "de_i_no (demo_entry name ino ft) = ino"
  by (simp_all add: demo_entry_def)

lemma demo_entry_name: "length name < name_len \<Longrightarrow> 0 \<notin> set name \<Longrightarrow> entry_name (demo_entry name ino ft) = name"
  by (simp add: demo_entry_def entry_name_def overlay_def) (subst takeWhile_append2, auto)

lemma demo_entry_at:
  assumes "j < 21"
  shows "entry_at demo_sector j = (if j = 2 then demo_entry [0x61] 13 FT_REGULAR else if j = 1 then demo_entry [0x2E, 0x2E] 0 FT_DIR
    else if j = 0 then demo_entry [0x2E] 0 FT_DIR else free_entry)"
proof -
  have step: "entry_at (overlay b (sizeof_dir_entry * i) (entry_bytes (demo_entry name ino ft))) j =
      (if j = i then demo_entry name ino ft else entry_at b j) \<and>
      length (overlay b (sizeof_dir_entry * i) (entry_bytes (demo_entry name ino ft))) = 512"
    if "length b = 512" "i < 21" "length name \<le> name_len" for b i name ino ft
    using that assms entry_at_overlay length_overlay_entry by simp
  let ?b0 = "overlay (replicate 512 0) (sizeof_dir_entry * 0) (entry_bytes (demo_entry [0x2E] 0 FT_DIR))"
  let ?b1 = "overlay ?b0 (sizeof_dir_entry * 1) (entry_bytes (demo_entry [0x2E, 0x2E] 0 FT_DIR))"
  note s0 = step [of "replicate 512 0" 0 "[0x2E]" 0 FT_DIR]
  note s1 = step [of ?b0 1 "[0x2E, 0x2E]" 0 FT_DIR]
  note s2 = step [of ?b1 2 "[0x61]" 13 FT_REGULAR]
  show ?thesis
    unfolding demo_sector_def using s0 s1 s2 entry_at_zero [OF assms]
    by (simp only: length_replicate name_len_def) simp
qed

lemma demo_sector_entries: "sector_entries demo_sector =
  [demo_entry [0x2E] 0 FT_DIR, demo_entry [0x2E, 0x2E] 0 FT_DIR, demo_entry [0x61] 13 FT_REGULAR]"
proof -
  have "filter (\<lambda>i. f_type (entry_at demo_sector i) \<noteq> FT_UNKOWN) [0..<21] = filter (\<lambda>i. i < 3) [0..<21]"
    by (rule filter_cong) (auto simp: demo_entry_at free_entry_def FT_UNKOWN_def FT_DIR_def FT_REGULAR_def)
  also have "\<dots> = [0, 1, 2]" by (simp add: upt_rec)
  finally show ?thesis by (simp add: sector_entries_def demo_entry_at)
qed

lemma demo_dir_fields:
  "part demo_dir = demo_part" "sectors demo_dir = (\<lambda>_. replicate 512 0)(713 := demo_sector)" "fmem demo_dir = (\<lambda>_. 0)(0x1000 := 2)"
  "inodes demo_dir 0x100 = (inode_init 0)\<lparr>i_size := 72, i_open_cnt := 1, i_sectors := 713 # replicate 12 0\<rparr>"
  "dirs demo_dir root_dir = \<lparr>dir_inode = 0x100, dir_pose = 0, dir_buf = replicate 512 0\<rparr>"
  "answers demo_dir = [0x300, 0x400, 0x500, 0x600]"
  by (simp_all add: demo_dir_def demo_fs_def)

lemma demo_dir_fs_ok: "fs_ok demo_dir" "blocks_fit (part demo_dir)"
proof -
  have "length demo_sector = 512"
    by (simp add: demo_sector_def name_len_def sizeof_dir_entry_def)
  then show "fs_ok demo_dir" "blocks_fit (part demo_dir)"
    using demo_fs_ok demo_files_ok(2) by (simp_all add: fs_ok_def disk_ok_def demo_dir_fields demo_fs_def demo_files_fields)
qed

lemma demo_dblocks: "dblocks demo_dir 0x100 = [713]"
  by (simp add: dblocks_def demo_dir_fields)

lemma demo_dir_entries: "dir_entries demo_dir 0x100 =
  [demo_entry [0x2E] 0 FT_DIR, demo_entry [0x2E, 0x2E] 0 FT_DIR, demo_entry [0x61] 13 FT_REGULAR]"
  by (simp add: dir_entries_def demo_dblocks demo_dir_fields demo_sector_entries)

lemma demo_dir_ok: "dir_ok demo_dir 0x100" "blocks_ok demo_dir (dblocks demo_dir 0x100 @ [])"
proof -
  show b: "blocks_ok demo_dir (dblocks demo_dir 0x100 @ [])"
    by (auto simp: demo_dblocks blocks_ok_def used_block_def block_addr_def free_blocks_of_def demo_dir_fields demo_part_def
      demo_super_def bm_len_def bm_bit_def intro: exI [of _ 1])
  have "blank_free demo_sector"
    by (auto simp: blank_free_def demo_entry_at FT_UNKOWN_def FT_DIR_def FT_REGULAR_def)
      (simp add: free_entry_def entry_name_def name_len_def)
  then show "dir_ok demo_dir 0x100"
    using b by (simp add: dir_ok_def demo_dir_entries) (simp add: demo_dblocks demo_dir_fields dsize_def demo_part_def demo_super_def)
qed

theorem search_dir_entry_lookup_witness:
  "search_dir_entry demo_dir root_dir [0x61] = Inr (Some (demo_entry [0x61] 13 FT_REGULAR), demo_dir\<lparr>answers := [0x500, 0x600]\<rparr>)"
proof -
  have "search_dir_entry demo_dir root_dir [0x61] = Inr (find (\<lambda>e. entry_name e = [0x61])
      (dir_entries demo_dir (dir_inode (dirs demo_dir root_dir))), demo_dir\<lparr>answers := [0x500, 0x600]\<rparr>)"
    by (rule search_dir_entry_lookup [OF demo_dir_fs_ok, where x = "0x300" and y = "0x400"])
      (simp_all add: demo_dir_fields demo_dir_ok name_len_def)
  then show ?thesis by (simp add: demo_dir_fields demo_dir_entries demo_entry_name name_len_def)
qed

theorem sync_dir_entry_adds_witness:
  "\<exists>s'. sync_dir_entry demo_dir root_dir (demo_entry [0x62] 14 FT_REGULAR) = Inr (True, s') \<and>
     dir_frame demo_dir 0x100 [] s' \<and> entry_added demo_dir 0x100 (demo_entry [0x62] 14 FT_REGULAR) s'"
proof -
  have "2 \<in> free_blocks_of demo_dir"
    by (simp add: free_blocks_of_def demo_dir_fields demo_part_def bm_len_def bm_bit_def)
  then have free: "free_blocks_of demo_dir \<noteq> {}" by blast
  have "entry_ok (demo_entry [0x62] 14 FT_REGULAR)"
    by (simp add: entry_ok_def name_len_def FT_UNKOWN_def FT_REGULAR_def)
  then show ?thesis
    by (intro sync_dir_entry_adds [OF demo_dir_fs_ok _ demo_dir_ok _ free, where k = 1]) (simp_all add: demo_dir_fields)
qed

theorem delete_dir_entry_removes_witness:
  "\<exists>s'. delete_dir_entry demo_dir root_dir 13 = Inr (True, s') \<and>
     entry_removed demo_dir 0x100 (demo_entry [0x61] 13 FT_REGULAR) [] s'"
proof -
  have "dot_first demo_dir 0x100"
    by (simp add: dot_first_def demo_dblocks starts_with_dot_def demo_dir_fields demo_entry_at demo_entry_name name_len_def
      FT_UNKOWN_def FT_DIR_def)
  moreover have "find (\<lambda>e. ordinary e \<and> de_i_no e = 13) (dir_entries demo_dir 0x100) = Some (demo_entry [0x61] 13 FT_REGULAR)"
    by (simp add: demo_dir_entries ordinary_def demo_entry_name name_len_def)
  ultimately show ?thesis
    by (intro delete_dir_entry_removes [OF demo_dir_fs_ok _ demo_dir_ok(1) _ demo_dir_ok(2)]) (simp_all add: demo_dir_fields)
qed

theorem dir_read_enumerates_witness:
  "\<exists>buf. read_many demo_dir root_dir 4 =
     Inr ([Some (demo_entry [0x2E] 0 FT_DIR), Some (demo_entry [0x2E, 0x2E] 0 FT_DIR), Some (demo_entry [0x61] 13 FT_REGULAR), None],
       demo_dir\<lparr>dirs := (dirs demo_dir)(root_dir := (dirs demo_dir root_dir)\<lparr>dir_pose := 72, dir_buf := buf\<rparr>)\<rparr>)"
proof -
  have "\<exists>buf. read_many demo_dir root_dir (Suc (length (dir_entries demo_dir 0x100))) =
      Inr (map Some (dir_entries demo_dir 0x100) @ [None],
        demo_dir\<lparr>dirs := (dirs demo_dir)(root_dir := (dirs demo_dir root_dir)\<lparr>
          dir_pose := 24 * of_nat (length (dir_entries demo_dir 0x100)), dir_buf := buf\<rparr>)\<rparr>)"
    by (rule dir_read_enumerates [OF demo_dir_fs_ok _ demo_dir_ok(1)]) (simp_all add: demo_dir_fields)
  moreover have "Suc (length (dir_entries demo_dir 0x100)) = 4" by (simp add: demo_dir_entries)
  ultimately show ?thesis by (simp only: demo_dir_entries) simp
qed

end
