(* ===== verification/Fs.thy ===== *)
theory Fs
  imports Dir
begin

text \<open>
  \<open>search_file\<close> of \<^verbatim>\<open>fs/fs.c\<close>, the walk along a path that all system calls on paths use. A path is the list of
  its characters without the final zero. \<open>walk\<close> is the specification: it follows the components of
  the path through the directories as they stand on the disk.
\<close>

section \<open>Searching a path\<close>

text \<open>\<open>struct path_search_record\<close>; \<open>searched_path\<close> is an array of 512 characters that the callers clear.\<close>

record path_search_record =
  searched_path :: "u8 list"
  parent_dir :: u32
  sr_type :: u32

definition clear_record :: path_search_record where
  "clear_record = \<lparr>searched_path = [], parent_dir = NULL, sr_type = FT_UNKOWN\<rparr>"

text \<open>\<open>memset(name, 0, 16); if (sub_path) sub_path = path_parse(sub_path, name);\<close>\<close>

definition next_name :: "u8 list option \<Rightarrow> ('s, u8 list option \<times> u8 list) res" where
  "next_name sub_path =
     (case sub_path of
        None \<Rightarrow> Inr (None, replicate MAX_FILE_NAME_LEN 0)
      | Some q \<Rightarrow> bnd (path_parse q (replicate MAX_FILE_NAME_LEN 0)) (\<lambda>(p, name, _). Inr (p, name)))"

definition name_measure :: "u8 list option \<times> u8 list \<Rightarrow> nat" where
  "name_measure x = (case fst x of None \<Rightarrow> 0 | Some q \<Rightarrow> 2 * Suc (length q)) + (if snd x ! 0 = 0 then 0 else 1)"

lemma next_name_shorter:
  assumes "(next_name sub_path :: ('s, _) res) = Inr (p, name')" "name ! 0 \<noteq> 0"
  shows "name_measure (p, name') < name_measure (sub_path, name)"
proof (cases sub_path)
  case None
  then show ?thesis using assms by (auto simp: next_name_def name_measure_def MAX_FILE_NAME_LEN_def)
next
  case (Some q)
  then obtain p' where p: "(path_parse q (replicate MAX_FILE_NAME_LEN 0) :: ('s, _) res) = Inr (p, name', p')"
    using assms(1) by (auto simp: next_name_def res_simps)
  show ?thesis
  proof (cases p)
    case (Some r)
    then show ?thesis
      using path_parse_shorter [of q "replicate MAX_FILE_NAME_LEN 0" r name' p'] p assms(2) \<open>sub_path = Some q\<close>
      by (auto simp: name_measure_def)
  qed (use \<open>sub_path = Some q\<close> in \<open>auto simp: name_measure_def\<close>)
qed

text \<open>The last steps, after a path that leads to a directory.\<close>

definition search_end :: "fsys \<Rightarrow> u32 \<Rightarrow> dir_entry \<Rightarrow> path_search_record \<Rightarrow> (u32 \<times> path_search_record \<times> fsys) fres" where
  "search_end s parent_dir_inode dir_e r =
     bnd (dir_close s (parent_dir r)) (\<lambda>s.
     bnd (dir_open s parent_dir_inode) (\<lambda>(d, s).
     Inr (de_i_no dir_e, r\<lparr>parent_dir := d, sr_type := FT_DIR\<rparr>, s)))"

text \<open>
  The loop. \<open>dir_e\<close> is a variable of the stack, which no statement initialises. \<open>strcat\<close> beyond the end of
  \<open>searched_path\<close> is a fault.
\<close>

function search_loop :: "fsys \<Rightarrow> u8 list option \<Rightarrow> u8 list \<Rightarrow> u32 \<Rightarrow> u32 \<Rightarrow> dir_entry \<Rightarrow> path_search_record \<Rightarrow>
    (u32 \<times> path_search_record \<times> fsys) fres" where
  "search_loop s sub_path name dir parent_dir_inode dir_e r =
     (if name ! 0 = 0 then search_end s parent_dir_inode dir_e r
      else bnd (assert_that (length (searched_path r) < 512) ''strlen(searched_path) < 512'') (\<lambda>_.
           bnd (cstring name) (\<lambda>nm.
           let r = r\<lparr>searched_path := searched_path r @ slash # nm\<rparr>
           in if MAX_PATH_LEN \<le> length (searched_path r) then Inl (Fault ''searched_path'')
              else bnd (search_dir_entry s dir nm) (\<lambda>(found, s).
                case found of
                  None \<Rightarrow> Inr (- 1, r, s)
                | Some dir_e \<Rightarrow>
                    bnd (next_name sub_path) (\<lambda>(sub_path', name').
                    if f_type dir_e = FT_DIR then
                      let parent_dir_inode = i_no (inodes s (dir_inode (dirs s dir)))
                      in bnd (dir_close s dir) (\<lambda>s.
                         bnd (dir_open s (de_i_no dir_e)) (\<lambda>(dir, s).
                         search_loop s sub_path' name' dir parent_dir_inode dir_e (r\<lparr>parent_dir := dir\<rparr>)))
                    else if f_type dir_e = FT_REGULAR then Inr (de_i_no dir_e, r\<lparr>sr_type := FT_REGULAR\<rparr>, s)
                    else search_loop s sub_path' name' dir parent_dir_inode dir_e r)))))"
  by pat_completeness auto
termination
  by (relation "measure (\<lambda>(s, p, name, d, i, e, r). name_measure (p, name))") (auto intro: next_name_shorter)

definition search_file :: "fsys \<Rightarrow> u8 list \<Rightarrow> dir_entry \<Rightarrow> path_search_record \<Rightarrow>
    (u32 \<times> path_search_record \<times> fsys) fres" where
  "search_file s pathname dir_e r =
     (if pathname = [slash] \<or> pathname = [slash, dot] \<or> pathname = [slash, dot, dot]
      then Inr (0, r\<lparr>searched_path := [], parent_dir := root_dir, sr_type := FT_DIR\<rparr>, s)
      else bnd (assert_that (take 1 pathname = [slash] \<and> length pathname < MAX_PATH_LEN) ''pathname[0]'') (\<lambda>_.
           bnd (path_parse pathname (replicate MAX_FILE_NAME_LEN 0)) (\<lambda>(sub_path, name, _).
           search_loop s sub_path name root_dir 0 dir_e (r\<lparr>parent_dir := root_dir, sr_type := FT_UNKOWN\<rparr>))))"

declare search_loop.simps [simp del]

section \<open>The tree on the disk\<close>

text \<open>What the disk says about the directory with the i-node number \<open>ino\<close>.\<close>

definition disk_inode :: "fsys \<Rightarrow> u32 \<Rightarrow> inode" where
  "disk_inode s ino = inode_of_bytes (slot s (unat ino))"

definition ino_blocks :: "fsys \<Rightarrow> u32 \<Rightarrow> u32 list" where
  "ino_blocks s ino = filter (\<lambda>b. b \<noteq> 0) (take 12 (i_sectors (disk_inode s ino)))"

definition entries_of :: "fsys \<Rightarrow> u32 \<Rightarrow> dir_entry list" where
  "entries_of s ino = concat (map (\<lambda>b. sector_entries (sectors s b)) (ino_blocks s ino))"

definition disk_dir_ok :: "fsys \<Rightarrow> u32 \<Rightarrow> bool" where
  "disk_dir_ok s ino \<longleftrightarrow> ino < 4096 \<and> i_no (disk_inode s ino) = ino \<and> i_sectors (disk_inode s ino) ! 12 = 0 \<and>
     blocks_ok s (ino_blocks s ino) \<and> dsize s = 24 \<and> i_size (disk_inode s ino) = 24 * of_nat (length (entries_of s ino)) \<and>
     (\<forall>b \<in> set (ino_blocks s ino). blank_free (sectors s b)) \<and>
     (\<forall>e \<in> set (entries_of s ino). f_type e = FT_REGULAR \<or> f_type e = FT_DIR)"

text \<open>The directories that the entries of the root lead to.\<close>

inductive reach :: "fsys \<Rightarrow> u32 \<Rightarrow> bool" for s where
  reach_root: "reach s 0"
| reach_entry: "reach s i \<Longrightarrow> e \<in> set (entries_of s i) \<Longrightarrow> f_type e = FT_DIR \<Longrightarrow> reach s (de_i_no e)"

definition tree_ok :: "fsys \<Rightarrow> bool" where
  "tree_ok s \<longleftrightarrow> (\<forall>i. reach s i \<longrightarrow> disk_dir_ok s i)"

text \<open>
  The walk: where it ends (at a directory, at a file or nowhere), the number of the directory that
  holds the last name, the number of what was found, and the names that were looked up.
\<close>

datatype target = At_dir | At_file | Nowhere

primrec walk :: "fsys \<Rightarrow> u8 list list \<Rightarrow> u32 \<Rightarrow> u32 \<Rightarrow> u8 list list \<Rightarrow> target \<times> u32 \<times> u32 \<times> u8 list list" where
  "walk s seen par cur [] = (At_dir, par, cur, seen)"
| "walk s seen par cur (c # cs) =
     (case find (\<lambda>e. entry_name e = c) (entries_of s cur) of
        None \<Rightarrow> (Nowhere, cur, - 1, seen @ [c])
      | Some e \<Rightarrow> if f_type e = FT_DIR then walk s (seen @ [c]) cur (de_i_no e) cs
                 else (At_file, cur, de_i_no e, seen @ [c]))"

fun target_type :: "target \<Rightarrow> u32" where
  "target_type At_dir = FT_DIR"
| "target_type At_file = FT_REGULAR"
| "target_type Nowhere = FT_UNKOWN"

section \<open>Open directories\<close>

text \<open>An i-node in memory says what its slot on the disk says.\<close>

definition agrees :: "fsys \<Rightarrow> u32 \<Rightarrow> bool" where
  "agrees s a \<longleftrightarrow> i_no (inodes s a) < 4096 \<and> i_no (inodes s a) = i_no (disk_inode s (i_no (inodes s a))) \<and>
     i_size (inodes s a) = i_size (disk_inode s (i_no (inodes s a))) \<and>
     i_sectors (inodes s a) = i_sectors (disk_inode s (i_no (inodes s a)))"

text \<open>The list of open i-nodes, each of them written back, and the root directory among them.\<close>

definition coherent :: "fsys \<Rightarrow> bool" where
  "coherent s \<longleftrightarrow> distinct (open_inodes (part s)) \<and> NULL \<notin> set (open_inodes (part s)) \<and>
     inj_on (\<lambda>a. i_no (inodes s a)) (set (open_inodes (part s))) \<and>
     (\<forall>a \<in> set (open_inodes (part s)). agrees s a \<and> i_open_cnt (inodes s a) \<noteq> 0) \<and>
     dir_inode (dirs s root_dir) \<in> set (open_inodes (part s)) \<and> i_no (inodes s (dir_inode (dirs s root_dir))) = 0"

text \<open>Everything but what opening and closing directories changes is the same.\<close>

definition stable :: "fsys \<Rightarrow> fsys \<Rightarrow> bool" where
  "stable s s' \<longleftrightarrow> sectors s' = sectors s \<and> fmem s' = fmem s \<and>
     start_lba (part s') = start_lba (part s) \<and> sec_cnt (part s') = sec_cnt (part s) \<and> sb (part s') = sb (part s) \<and>
     block_bitmap (part s') = block_bitmap (part s) \<and> inode_map (part s') = inode_map (part s) \<and> file_table s' = file_table s \<and> fd_local s' = fd_local s \<and>
     fsys.cwd_inode_nr s' = fsys.cwd_inode_nr s \<and> dirs s' root_dir = dirs s root_dir"

definition same_open :: "fsys \<Rightarrow> fsys \<Rightarrow> bool" where
  "same_open s s' \<longleftrightarrow> stable s s' \<and> open_inodes (part s') = open_inodes (part s) \<and> live s' = live s \<and>
     (\<forall>a \<in> set (open_inodes (part s)). inodes s' a = inodes s a)"

text \<open>From \<open>s\<close> to \<open>s'\<close> the directory \<open>ino\<close> was opened at the address \<open>d\<close>: its i-node is new, or was open before.\<close>

definition dir_opened :: "fsys \<Rightarrow> u32 \<Rightarrow> u32 \<Rightarrow> fsys \<Rightarrow> bool" where
  "dir_opened s d ino s' \<longleftrightarrow> stable s s' \<and> d \<noteq> NULL \<and> d \<noteq> root_dir \<and> dir_pose (dirs s' d) = 0 \<and>
     (\<exists>a. dir_inode (dirs s' d) = a \<and> a \<noteq> NULL \<and> i_no (inodes s' a) = ino \<and> agrees s' a \<and>
        (\<forall>b \<in> set (open_inodes (part s)). b \<noteq> a \<longrightarrow> inodes s' b = inodes s b) \<and>
        (if a \<in> set (open_inodes (part s))
         then open_inodes (part s') = open_inodes (part s) \<and> live s' = d # live s \<and>
              inodes s' a = (inodes s a)\<lparr>i_open_cnt := i_open_cnt (inodes s a) + 1\<rparr>
         else open_inodes (part s') = a # open_inodes (part s) \<and> live s' = a # d # live s \<and> i_open_cnt (inodes s' a) = 1))"

text \<open>The directory at which a search that began in \<open>s\<close> stands in \<open>s'\<close>: the root, or one that it opened.\<close>

definition cursor :: "fsys \<Rightarrow> fsys \<Rightarrow> u32 \<Rightarrow> u32 \<Rightarrow> bool" where
  "cursor s s' d cur \<longleftrightarrow>
     (if d = root_dir then cur = 0 \<and> same_open s s' else (\<exists>s1. same_open s s1 \<and> dir_opened s1 d cur s'))"

text \<open>At least \<open>n\<close> requests for memory succeed, with blocks that are not in use.\<close>

definition memory_for :: "nat \<Rightarrow> fsys \<Rightarrow> bool" where
  "memory_for n s \<longleftrightarrow> n \<le> length (answers s) \<and> distinct (answers s) \<and> NULL \<notin> set (answers s) \<and> root_dir \<notin> set (answers s) \<and>
     set (answers s) \<inter> set (open_inodes (part s)) = {}"

lemma stable_refl: "stable s s"
  by (simp add: stable_def)

lemma stable_trans: "stable s s1 \<Longrightarrow> stable s1 s2 \<Longrightarrow> stable s s2"
  by (simp add: stable_def)

text \<open>What the disk says depends on the sectors, the bitmaps and the super block only.\<close>

definition same_disk :: "fsys \<Rightarrow> fsys \<Rightarrow> bool" where
  "same_disk s s' \<longleftrightarrow> sectors s' = sectors s \<and> fmem s' = fmem s \<and>
     start_lba (part s') = start_lba (part s) \<and> sec_cnt (part s') = sec_cnt (part s) \<and> sb (part s') = sb (part s) \<and>
     block_bitmap (part s') = block_bitmap (part s)"

lemma same_disk:
  assumes "same_disk s s'"
  shows "slot s' j = slot s j" "disk_inode s' i = disk_inode s i" "ino_blocks s' i = ino_blocks s i" "entries_of s' i = entries_of s i"
    "fs_ok s' = fs_ok s" "blocks_fit (part s') = blocks_fit (part s)" "blocks_ok s' ls = blocks_ok s ls" "dsize s' = dsize s"
    "disk_dir_ok s' i = disk_dir_ok s i" "agrees s' a \<longleftrightarrow> agrees (s\<lparr>inodes := inodes s'\<rparr>) a"
proof -
  have p: "sectors s' = sectors s" "fmem s' = fmem s" and sb: "sb (part s') = sb (part s)"
    "block_bitmap (part s') = block_bitmap (part s)" "start_lba (part s') = start_lba (part s)" "sec_cnt (part s') = sec_cnt (part s)"
    using assms by (simp_all add: same_disk_def)
  show slot: "slot s' j = slot s j" for j by (simp add: slot_def itable_def p sb)
  then show i: "disk_inode s' i = disk_inode s i" for i by (simp add: disk_inode_def)
  then show b: "ino_blocks s' i = ino_blocks s i" for i by (simp add: ino_blocks_def)
  then show e: "entries_of s' i = entries_of s i" for i by (simp add: entries_of_def p)
  show "fs_ok s' = fs_ok s" by (simp add: fs_ok_def disk_ok_def layout_ok_def p(1) sb)
  show "blocks_fit (part s') = blocks_fit (part s)" by (simp add: blocks_fit_def sb)
  show o: "blocks_ok s' ls = blocks_ok s ls" for ls by (simp add: blocks_ok_def used_block_def free_blocks_of_def block_addr_def p(2) sb)
  show ds: "dsize s' = dsize s" by (simp add: dsize_def sb)
  show "disk_dir_ok s' i = disk_dir_ok s i" by (simp add: disk_dir_ok_def i b e o ds p(1))
  have "disk_inode (s\<lparr>inodes := x\<rparr>) i = disk_inode s i" for x i by (simp add: disk_inode_def slot_def itable_def)
  then show "agrees s' a \<longleftrightarrow> agrees (s\<lparr>inodes := inodes s'\<rparr>) a" by (simp add: agrees_def i)
qed

lemma stable_same_disk: "stable s s' \<Longrightarrow> same_disk s s'"
  by (simp add: stable_def same_disk_def)

lemmas stable_disk = same_disk [OF stable_same_disk]

lemma same_disk_reach:
  assumes "same_disk s s'" "reach s i"
  shows "reach s' i"
  using assms(2)
proof induction
  case (reach_entry i e)
  then have "e \<in> set (entries_of s' i)" by (simp add: same_disk(4) [OF assms(1)])
  with reach_entry show ?case by (blast intro: reach.reach_entry)
qed (rule reach.reach_root)

lemma same_disk_tree_ok:
  assumes "same_disk s s'" "tree_ok s"
  shows "tree_ok s'"
proof -
  have "same_disk s' s" using assms(1) by (simp add: same_disk_def)
  then show ?thesis using assms(2) same_disk_reach [of s' s] by (simp add: tree_ok_def same_disk(9) [OF assms(1)])
qed

lemma same_open_coherent:
  assumes "coherent s" "same_open s s'"
  shows "coherent s'"
proof -
  have i: "inodes s' a = inodes s a" if "a \<in> set (open_inodes (part s))" for a
    using assms(2) that by (simp add: same_open_def)
  have "open_inodes (part s') = open_inodes (part s)" "dirs s' root_dir = dirs s root_dir" "stable s s'"
    using assms(2) by (simp_all add: same_open_def stable_def)
  note f = this
  have "agrees s' a = agrees s a" if "a \<in> set (open_inodes (part s))" for a
    using i [OF that] by (simp add: agrees_def stable_disk [OF f(3)])
  moreover have "inj_on (\<lambda>a. i_no (inodes s' a)) (set (open_inodes (part s))) = inj_on (\<lambda>a. i_no (inodes s a)) (set (open_inodes (part s)))"
    by (rule inj_on_cong) (simp add: i)
  ultimately show ?thesis using assms(1) i by (simp add: coherent_def f)
qed

lemma same_open_refl: "same_open s s"
  by (simp add: same_open_def stable_def)

lemma same_open_trans: "same_open s s1 \<Longrightarrow> same_open s1 s2 \<Longrightarrow> same_open s s2"
  by (auto simp: same_open_def intro: stable_trans)

lemma answers_same_open: "same_open s s1 \<Longrightarrow> same_open s (s1\<lparr>answers := x\<rparr>)"
  by (simp add: same_open_def stable_def)

lemma answers_opened: "dir_opened s d ino s' \<Longrightarrow> dir_opened s d ino (s'\<lparr>answers := x\<rparr>)"
proof -
  have "agrees (s'\<lparr>answers := x\<rparr>) a = agrees s' a" for a by (simp add: agrees_def disk_inode_def slot_def itable_def)
  then show "dir_opened s d ino s' \<Longrightarrow> dir_opened s d ino (s'\<lparr>answers := x\<rparr>)"
    by (simp add: dir_opened_def stable_def)
qed

lemma answers_cursor: "cursor s s' d cur \<Longrightarrow> cursor s (s'\<lparr>answers := x\<rparr>) d cur"
  by (auto simp: cursor_def answers_same_open intro: answers_opened split: if_splits)

lemma dir_close_opened:
  assumes coh: "coherent s" and op: "dir_opened s d ino s'"
  shows "\<exists>s''. dir_close s' d = Inr s'' \<and> same_open s s'' \<and> answers s'' = answers s'"
proof -
  obtain a where a: "dir_inode (dirs s' d) = a" "a \<noteq> NULL" and d: "d \<noteq> NULL" "d \<noteq> root_dir" and st: "stable s s'"
    and oth: "\<forall>b \<in> set (open_inodes (part s)). b \<noteq> a \<longrightarrow> inodes s' b = inodes s b"
    and how: "if a \<in> set (open_inodes (part s))
         then open_inodes (part s') = open_inodes (part s) \<and> live s' = d # live s \<and>
              inodes s' a = (inodes s a)\<lparr>i_open_cnt := i_open_cnt (inodes s a) + 1\<rparr>
         else open_inodes (part s') = a # open_inodes (part s) \<and> live s' = a # d # live s \<and> i_open_cnt (inodes s' a) = 1"
    using op by (auto simp: dir_opened_def)
  show ?thesis
  proof (cases "a \<in> set (open_inodes (part s))")
    case True
    then have "i_open_cnt (inodes s a) \<noteq> 0" using coh by (simp add: coherent_def)
    then show ?thesis
      using True how a d st oth
      by (auto simp: dir_close_def inode_close_def upd_inode_def fs_free_def same_open_def stable_def)
  next
    case False
    then show ?thesis
      using how a d st oth inode_close_last [of s' a]
      by (auto simp: dir_close_def fs_free_def same_open_def stable_def)
  qed
qed

lemma dir_open_at:
  assumes coh: "coherent s" and ok: "fs_ok s" and dir: "disk_dir_ok s ino" and mem: "memory_for (n + 3) s"
  shows "\<exists>d s'. dir_open s ino = Inr (d, s') \<and> dir_opened s d ino s' \<and> memory_for n s'"
proof -
  obtain x y z as where ans: "answers s = x # y # z # as"
    using mem by (cases "answers s"; cases "tl (answers s)"; cases "tl (tl (answers s))") (auto simp: memory_for_def)
  then have m: "x \<noteq> NULL" "x \<noteq> root_dir" "y \<noteq> NULL" "z \<noteq> NULL" "x \<noteq> y" "y \<noteq> z" "y \<notin> set (open_inodes (part s))" "n \<le> length as"
      "y \<notin> set as"
    and rest: "memory_for n (s\<lparr>answers := as\<rparr>)" "memory_for n (s\<lparr>answers := y # z # as\<rparr>)"
    using mem by (auto simp: memory_for_def)
  let ?s = "s\<lparr>answers := y # z # as, live := x # live s\<rparr>"
  have ino: "ino < 4096" "i_no (disk_inode s ino) = ino" using dir by (simp_all add: disk_dir_ok_def)
  have at: "agrees (s'\<lparr>inodes := f, live := l, dirs := dr\<rparr>) a = agrees (s'\<lparr>inodes := f\<rparr>) a" for s' f l dr a
    by (simp add: agrees_def disk_inode_def slot_def itable_def)
  show ?thesis
  proof (cases "\<exists>a \<in> set (open_inodes (part s)). i_no (inodes s a) = ino")
    case True
    then obtain b where b: "find (\<lambda>a. i_no (inodes s a) = ino) (open_inodes (part s)) = Some b"
      by (cases "find (\<lambda>a. i_no (inodes s a) = ino) (open_inodes (part s))") (auto simp: find_None_iff)
    then have b': "b \<in> set (open_inodes (part s))" "i_no (inodes s b) = ino" by (auto simp: find_Some_iff)
    let ?s' = "?s\<lparr>inodes := (inodes s)(b := (inodes s b)\<lparr>i_open_cnt := i_open_cnt (inodes s b) + 1\<rparr>),
      dirs := (dirs s)(x := (dirs s x)\<lparr>dir_inode := b, dir_pose := 0\<rparr>)\<rparr>"
    have "dir_open s ino = Inr (x, ?s')"
      using b m by (simp add: dir_open_def fs_malloc_def ans inode_open_def upd_inode_def)
    moreover have "agrees ?s' b"
    proof -
      have "agrees s b" using coh b'(1) by (simp add: coherent_def)
      then show ?thesis by (simp add: agrees_def disk_inode_def slot_def itable_def)
    qed
    moreover have "b \<noteq> NULL" using coh b' by (auto simp: coherent_def)
    ultimately show ?thesis
      using b' m rest by (intro exI [of _ x] exI [of _ ?s']) (auto simp: dir_opened_def stable_def memory_for_def)
  next
    case False
    let ?s' = "s\<lparr>inodes := (inodes s)(y := (disk_inode s ino)\<lparr>i_open_cnt := 1\<rparr>),
      part := (part s)\<lparr>open_inodes := y # open_inodes (part s)\<rparr>, answers := as, live := y # x # live s,
      dirs := (dirs s)(x := (dirs s x)\<lparr>dir_inode := y, dir_pose := 0\<rparr>)\<rparr>"
    have "slot ?s j = slot s j" for j by (simp add: slot_def itable_def)
    then have "dir_open s ino = Inr (x, ?s')"
      using inode_open_disk [of ?s ino y z as] ok ino m False
      by (simp add: dir_open_def fs_malloc_def ans disk_inode_def fs_ok_def disk_ok_def)
    moreover have "agrees ?s' y"
      using ino by (simp add: agrees_def disk_inode_def slot_def itable_def)
    ultimately show ?thesis
      using m rest ino by (intro exI [of _ x] exI [of _ ?s']) (auto simp: dir_opened_def stable_def memory_for_def)
  qed
qed

lemma cursor_stable: "cursor s s' d cur \<Longrightarrow> stable s s'"
  by (auto simp: cursor_def same_open_def dir_opened_def intro: stable_trans split: if_splits)

text \<open>What a cursor looks at is the directory on the disk.\<close>

lemma cursor_dir:
  assumes "coherent s" "cursor s s' d cur"
  shows "i_no (inodes s' (dir_inode (dirs s' d))) = cur" "agrees s' (dir_inode (dirs s' d))"
proof -
  have "i_no (inodes s' (dir_inode (dirs s' d))) = cur \<and> agrees s' (dir_inode (dirs s' d))"
  proof (cases "d = root_dir")
    case True
    then have "cur = 0" "same_open s s'" using assms(2) by (simp_all add: cursor_def)
    then show ?thesis
      using same_open_coherent [OF assms(1), of s'] True by (auto simp: coherent_def)
  next
    case False
    then show ?thesis using assms(2) by (auto simp: cursor_def dir_opened_def)
  qed
  then show "i_no (inodes s' (dir_inode (dirs s' d))) = cur" "agrees s' (dir_inode (dirs s' d))" by simp_all
qed

lemma cursor_dir_ok:
  assumes "coherent s" "cursor s s' d cur" "disk_dir_ok s cur"
  shows "dir_ok s' (dir_inode (dirs s' d))" "dir_entries s' (dir_inode (dirs s' d)) = entries_of s cur"
proof -
  let ?a = "dir_inode (dirs s' d)"
  note st = stable_disk [OF cursor_stable [OF assms(2)]]
  have a: "i_sectors (inodes s' ?a) = i_sectors (disk_inode s' cur)" "i_size (inodes s' ?a) = i_size (disk_inode s' cur)"
    using cursor_dir [OF assms(1,2)] by (simp_all add: agrees_def)
  have b: "dblocks s' ?a = ino_blocks s' cur" by (simp add: dblocks_def ino_blocks_def a)
  then show e: "dir_entries s' ?a = entries_of s cur" using cursor_stable [OF assms(2)]
    by (simp add: dir_entries_def entries_of_def st(3) stable_def)
  have "disk_dir_ok s' cur" using assms(3) by (simp add: st(9))
  moreover have "length (i_sectors (disk_inode s' cur)) = 13" by (simp add: disk_inode_def inode_of_bytes_def)
  ultimately show "dir_ok s' ?a" using e by (simp add: dir_ok_def disk_dir_ok_def a b flip: st(4))
qed

lemma cursor_lookup:
  assumes coh: "coherent s" and ok: "fs_ok s" "blocks_fit (part s)" and cur: "cursor s s' d cur" "disk_dir_ok s cur"
    and name: "nm \<noteq> []" "length nm < name_len" "0 \<notin> set nm" and mem: "memory_for (n + 2) s'"
  shows "\<exists>as. search_dir_entry s' d nm = Inr (find (\<lambda>e. entry_name e = nm) (entries_of s cur), s'\<lparr>answers := as\<rparr>) \<and>
    memory_for n (s'\<lparr>answers := as\<rparr>)"
proof -
  obtain x y as where ans: "answers s' = x # y # as"
    using mem by (cases "answers s'"; cases "tl (answers s')") (auto simp: memory_for_def)
  then have m: "x \<noteq> NULL" "y \<noteq> NULL" "memory_for n (s'\<lparr>answers := as\<rparr>)" using mem by (auto simp: memory_for_def)
  note st = stable_disk [OF cursor_stable [OF cur(1)]]
  have "fs_ok s'" "blocks_fit (part s')" using ok st by simp_all
  from search_dir_entry_find [OF this cursor_dir_ok(1) [OF coh cur] name ans m(1,2)] m(3)
  show ?thesis unfolding cursor_dir_ok(2) [OF coh cur] by blast
qed

lemma cursor_close:
  assumes coh: "coherent s" and cur: "cursor s s' d cur" and mem: "memory_for n s'"
  shows "\<exists>s''. dir_close s' d = Inr s'' \<and> same_open s s'' \<and> memory_for n s''"
proof (cases "d = root_dir")
  case True
  then show ?thesis using cur mem by (simp add: cursor_def dir_close_def)
next
  case False
  then obtain s1 where s1: "same_open s s1" "dir_opened s1 d cur s'" using cur by (auto simp: cursor_def)
  from dir_close_opened [OF same_open_coherent [OF coh s1(1)] s1(2)] obtain s'' where
    s'': "dir_close s' d = Inr s''" "same_open s1 s''" "answers s'' = answers s'" by blast
  have "set (open_inodes (part s1)) \<subseteq> set (open_inodes (part s'))"
    using s1(2) by (auto simp: dir_opened_def split: if_splits)
  then have "memory_for n s''" using mem s''(2,3) by (auto simp: memory_for_def same_open_def)
  then show ?thesis using s'' same_open_trans [OF s1(1) s''(2)] by blast
qed

lemma cursor_open:
  assumes coh: "coherent s" and ok: "fs_ok s" and same: "same_open s s1" and dir: "disk_dir_ok s ino" and mem: "memory_for (n + 3) s1"
  shows "\<exists>d s'. dir_open s1 ino = Inr (d, s') \<and> cursor s s' d ino \<and> d \<noteq> root_dir \<and> memory_for n s'"
proof -
  have "stable s s1" using same by (simp add: same_open_def)
  note st = stable_disk [OF this]
  obtain d s' where "dir_open s1 ino = Inr (d, s')" "dir_opened s1 d ino s'" "memory_for n s'"
    using dir_open_at [OF same_open_coherent [OF coh same] _ _ mem, of ino] ok dir by (auto simp: st)
  moreover have "d \<noteq> root_dir" using calculation(2) by (simp add: dir_opened_def)
  ultimately show ?thesis using same by (auto simp: cursor_def)
qed

lemma cstring_name:
  assumes "length c < MAX_FILE_NAME_LEN" "0 \<notin> set c"
  shows "cstring (overlay (replicate MAX_FILE_NAME_LEN 0) 0 c) = Inr c"
proof -
  have "overlay (replicate MAX_FILE_NAME_LEN 0) 0 c = c @ 0 # replicate (MAX_FILE_NAME_LEN - length c - 1) 0"
    using assms(1) by (simp add: overlay_def flip: replicate_Suc)
  then show ?thesis using takeWhile_stop [OF assms(2)] by (simp add: cstring_def)
qed

lemma next_name_components:
  assumes "rest_ok sub_path" "\<forall>c \<in> set (rest_components sub_path). length c \<le> MAX_FILE_NAME_LEN"
  shows "\<exists>r. (next_name sub_path :: ('s, _) res) = Inr (r, overlay (replicate MAX_FILE_NAME_LEN 0) 0 (first_name (rest_components sub_path))) \<and>
    rest_ok r \<and> rest_components r = tl (rest_components sub_path)"
proof (cases sub_path)
  case None
  then show ?thesis by (simp add: next_name_def rest_ok_def rest_components_def first_name_def overlay_def)
next
  case (Some q)
  then have "length (first_name (components q)) \<le> MAX_FILE_NAME_LEN"
    using assms(2) by (cases "components q") (simp_all add: first_name_def rest_components_def)
  moreover have "rest_ok (Some q)" using assms(1) Some by simp
  ultimately obtain r where
    "(path_parse q (replicate MAX_FILE_NAME_LEN 0) :: ('s, _) res) = Inr (r, overlay (replicate MAX_FILE_NAME_LEN 0) 0 (first_name (components q)), q)"
    "rest_ok r" "rest_components r = tl (components q)" using rest_parse by blast
  then show ?thesis
    by (intro exI [of _ r]) (simp add: Some next_name_def rest_components_def)
qed

abbreviation path_of :: "u8 list list \<Rightarrow> u8 list" where
  "path_of cs \<equiv> concat (map ((#) slash) cs)"

abbreviation name_array :: "u8 list \<Rightarrow> u8 list" where
  "name_array c \<equiv> overlay (replicate MAX_FILE_NAME_LEN 0) 0 c"

text \<open>One directory entered: the loop closes the directory it stands in and opens the next.\<close>

lemma cursor_enter:
  assumes "coherent s" "fs_ok s" "cursor s s' d cur" "disk_dir_ok s ino" "memory_for (n + 3) s'"
  shows "\<exists>d' s1 s2. dir_close s' d = Inr s1 \<and> dir_open s1 ino = Inr (d', s2) \<and> cursor s s2 d' ino \<and> memory_for n s2"
proof -
  obtain s1 where s1: "dir_close s' d = Inr s1" "same_open s s1" "memory_for (n + 3) s1"
    using cursor_close [OF assms(1,3,5)] by blast
  then show ?thesis using cursor_open [OF assms(1,2) s1(2) assms(4) s1(3)] by blast
qed

lemma search_loop_walk:
  assumes env: "coherent s" "fs_ok s" "blocks_fit (part s)" "tree_ok s"
  shows "cursor s s' d cur \<Longrightarrow> reach s cur \<Longrightarrow> reach s par \<Longrightarrow> name = name_array (first_name cs) \<Longrightarrow> rest_ok sub_path \<Longrightarrow>
    tl cs = rest_components sub_path \<Longrightarrow> \<forall>c \<in> set cs. c \<noteq> [] \<and> 0 \<notin> set c \<and> length c < MAX_FILE_NAME_LEN \<Longrightarrow>
    memory_for (n + 5 * length cs + 3) s' \<Longrightarrow> (cs = [] \<longrightarrow> de_i_no e = cur) \<Longrightarrow> length (path_of (seen @ cs)) < MAX_PATH_LEN \<Longrightarrow>
    \<exists>tg p i vis d' s2. walk s seen par cur cs = (tg, p, i, vis) \<and>
      search_loop s' sub_path name d par e \<lparr>searched_path = path_of seen, parent_dir = d, sr_type = FT_UNKOWN\<rparr> =
        Inr (i, \<lparr>searched_path = path_of vis, parent_dir = d', sr_type = target_type tg\<rparr>, s2) \<and>
      cursor s s2 d' p \<and> memory_for n s2"
proof (induction cs arbitrary: s' d cur par name sub_path n e seen)
  case Nil
  have "disk_dir_ok s par" using env(4) Nil.prems(3) by (simp add: tree_ok_def)
  from cursor_enter [OF env(1,2) Nil.prems(1) this, of n] Nil.prems(8) obtain d' s1 s2 where
    s1: "dir_close s' d = Inr s1" "dir_open s1 par = Inr (d', s2)" "cursor s s2 d' par" "memory_for n s2" by auto
  have "name ! 0 = 0" using Nil.prems(4) by (simp add: first_name_def overlay_def MAX_FILE_NAME_LEN_def)
  then show ?case using s1 Nil.prems(9) by (simp add: search_loop.simps [of s'] search_end_def)
next
  case (Cons c cs)
  have c: "c \<noteq> []" "0 \<notin> set c" "length c < MAX_FILE_NAME_LEN" using Cons.prems(7) by simp_all
  have name: "name ! 0 \<noteq> 0" "(cstring name :: (fsys, _) res) = Inr c"
    using c cstring_name [OF c(3,2), where 'a = fsys] by (cases c; simp add: Cons.prems(4) first_name_def overlay_def MAX_FILE_NAME_LEN_def)+
  have dir: "disk_dir_ok s cur" using env(4) Cons.prems(2) by (simp add: tree_ok_def)
  have fits: "length (path_of seen) < 512" "length (path_of (seen @ [c])) < MAX_PATH_LEN"
    using Cons.prems(10) by (simp_all add: MAX_PATH_LEN_def)
  have "memory_for (n + 5 * length cs + 6 + 2) s'" using Cons.prems(8) by (simp add: algebra_simps)
  from cursor_lookup [OF env(1-3) Cons.prems(1) dir c(1) _ c(2) this] c(3) obtain as where
    look: "search_dir_entry s' d c = Inr (find (\<lambda>e. entry_name e = c) (entries_of s cur), s'\<lparr>answers := as\<rparr>)"
      "memory_for (n + 5 * length cs + 6) (s'\<lparr>answers := as\<rparr>)" by (auto simp: name_len_def MAX_FILE_NAME_LEN_def)
  note cur' = answers_cursor [OF Cons.prems(1), of as]
  have mem: "memory_for n (s'\<lparr>answers := as\<rparr>)" using look(2) by (simp add: memory_for_def)
  have cs: "rest_components sub_path = cs" using Cons.prems(6) by simp
  have "\<forall>c \<in> set (rest_components sub_path). length c \<le> MAX_FILE_NAME_LEN" using Cons.prems(7) by (auto simp: cs)
  from next_name_components [OF Cons.prems(5) this, where 's = fsys] obtain sub' where
    nx: "(next_name sub_path :: (fsys, _) res) = Inr (sub', name_array (first_name cs))" "rest_ok sub'" "rest_components sub' = tl cs"
    by (auto simp: cs)
  show ?case
  proof (cases "find (\<lambda>e. entry_name e = c) (entries_of s cur)")
    case None
    then show ?thesis
      using name fits look cur' mem by (simp add: search_loop.simps [of s'])
  next
    case (Some e')
    then have e': "e' \<in> set (entries_of s cur)" by (auto simp: find_Some_iff)
    then have ft: "f_type e' = FT_REGULAR \<or> f_type e' = FT_DIR" using dir by (simp add: disk_dir_ok_def)
    show ?thesis
    proof (cases "f_type e' = FT_DIR")
      case False
      then have "f_type e' = FT_REGULAR" using ft by simp
      then show ?thesis
        using Some False name fits look cur' mem nx by (simp add: search_loop.simps [of s'])
    next
      case True
      have r: "reach s (de_i_no e')" using reach_entry [OF Cons.prems(2) e' True] .
      then have "disk_dir_ok s (de_i_no e')" using env(4) by (simp add: tree_ok_def)
      moreover have "memory_for (n + 5 * length cs + 3 + 3) (s'\<lparr>answers := as\<rparr>)" using look(2) by (simp add: algebra_simps)
      ultimately obtain d' s1 s2 where s2: "dir_close (s'\<lparr>answers := as\<rparr>) d = Inr s1" "dir_open s1 (de_i_no e') = Inr (d', s2)"
        "cursor s s2 d' (de_i_no e')" "memory_for (n + 5 * length cs + 3) s2"
        using cursor_enter [OF env(1,2) cur'] by blast
      have "i_no (inodes s' (dir_inode (dirs s' d))) = cur" using cursor_dir(1) [OF env(1) Cons.prems(1)] .
      then have step: "search_loop s' sub_path name d par e \<lparr>searched_path = path_of seen, parent_dir = d, sr_type = FT_UNKOWN\<rparr> =
          search_loop s2 sub' (name_array (first_name cs)) d' cur e'
            \<lparr>searched_path = path_of (seen @ [c]), parent_dir = d', sr_type = FT_UNKOWN\<rparr>"
        using Some True name fits look(1) nx(1) s2(1,2) by (simp add: search_loop.simps [of s'])
      have "walk s seen par cur (c # cs) = walk s (seen @ [c]) cur (de_i_no e') cs" using Some True by simp
      then show ?thesis
        unfolding step
        using Cons.IH [OF s2(3) r Cons.prems(2) refl nx(2) nx(3) [symmetric] _ s2(4), of e' "seen @ [c]"] Cons.prems(7,10)
        by simp
    qed
  qed
qed

lemma path_of_components:
  "p = [] \<or> hd p = slash \<Longrightarrow> length (path_of (components p)) \<le> length p"
proof (induction slash p rule: tokens.induct)
  case (1 p)
  define q where "q = dropWhile (\<lambda>c. c = slash) p"
  define r where "r = dropWhile (\<lambda>c. c \<noteq> slash) q"
  have t: "components p = (if q = [] then [] else takeWhile (\<lambda>c. c \<noteq> slash) q # components r)"
    by (subst tokens.simps) (simp add: q_def r_def Let_def)
  show ?case
  proof (cases "q = []")
    case False
    have "r = [] \<or> hd r = slash" using hd_dropWhile [of "\<lambda>c. c \<noteq> slash" q] by (auto simp: r_def)
    then have "length (path_of (components r)) \<le> length r" using 1(1) [OF q_def] False by (simp add: r_def)
    moreover have "length (takeWhile (\<lambda>c. c \<noteq> slash) q) + length r = length q"
      unfolding r_def by (metis length_append takeWhile_dropWhile_id)
    moreover have "length q < length p"
    proof -
      obtain x where "p = slash # x" using 1(2) False by (cases p) (auto simp: q_def)
      then show ?thesis using length_dropWhile_le [of "\<lambda>c. c = slash" x] by (simp add: q_def)
    qed
    ultimately show ?thesis using False by (simp add: t)
  qed (simp add: t)
qed

lemma search_file_walk:
  assumes env: "coherent s" "fs_ok s" "blocks_fit (part s)" "tree_ok s"
    and p: "p = slash # t" "0 \<notin> set p" "length p < MAX_PATH_LEN" "components p \<noteq> []" "p \<noteq> [slash, dot]" "p \<noteq> [slash, dot, dot]"
    and names: "\<forall>c \<in> set (components p). length c < MAX_FILE_NAME_LEN"
    and mem: "memory_for (n + 5 * length (components p) + 3) s"
  shows "\<exists>tg par i vis d s'. walk s [] 0 0 (components p) = (tg, par, i, vis) \<and>
    search_file s p e clear_record = Inr (i, \<lparr>searched_path = path_of vis, parent_dir = d, sr_type = target_type tg\<rparr>, s') \<and>
    cursor s s' d par \<and> memory_for n s'"
proof -
  let ?cs = "components p"
  have c: "c \<noteq> [] \<and> 0 \<notin> set c \<and> length c < MAX_FILE_NAME_LEN" if "c \<in> set ?cs" for c
    using tokens_shape [OF that] p(2) names that by blast
  have "first_name ?cs \<in> set ?cs" using p(4) by (cases ?cs) (simp_all add: first_name_def)
  then have "length (first_name ?cs) \<le> length (replicate MAX_FILE_NAME_LEN (0 :: u8))" using c [of "first_name ?cs"] by simp
  from path_parse_components [OF p(1) this] obtain r where
    r: "(path_parse p (replicate MAX_FILE_NAME_LEN 0) :: (fsys, _) res) = Inr (r, name_array (first_name ?cs), p)" "rest_ok r"
      "tl ?cs = rest_components r" by metis
  have "cursor s s root_dir 0" by (simp add: cursor_def same_open_refl)
  moreover have "length (path_of ([] @ ?cs)) < MAX_PATH_LEN" using path_of_components [of p] p(1,3) by simp
  ultimately obtain tg par i vis d s' where w: "walk s [] 0 0 ?cs = (tg, par, i, vis)"
    "search_loop s r (name_array (first_name ?cs)) root_dir 0 e \<lparr>searched_path = path_of [], parent_dir = root_dir, sr_type = FT_UNKOWN\<rparr> =
      Inr (i, \<lparr>searched_path = path_of vis, parent_dir = d, sr_type = target_type tg\<rparr>, s')"
    "cursor s s' d par" "memory_for n s'"
    using search_loop_walk [OF env _ reach_root reach_root refl r(2,3) _ mem, of root_dir e "[]"] c p(4) by blast
  have "p \<noteq> [slash]" using p(4) by (auto simp: tokens.simps [of slash "[slash]"])
  then show ?thesis using w r(1) p by (simp add: search_file_def clear_record_def)
qed

text \<open>
  C25: For a path with names that fit, \<open>search_file\<close> is the walk along its names through the directories on the disk:
  it returns the number of the i-node that the walk finds, or -1, and records the names it looked up
  and the kind of what it found. Of all the directories that it opens, the one that holds the last
  name stays open (or the root, if it is that); no buffer, i-node or open count is left changed
  otherwise.
\<close>

theorem search_file_walks:
  assumes "coherent s" "fs_ok s" "blocks_fit (part s)" "tree_ok s"
    and "p = slash # t" "0 \<notin> set p" "length p < MAX_PATH_LEN" "components p \<noteq> []" "p \<noteq> [slash, dot]" "p \<noteq> [slash, dot, dot]"
    and "\<forall>c \<in> set (components p). length c < MAX_FILE_NAME_LEN"
    and "memory_for (n + 5 * length (components p) + 3) s"
  shows "\<exists>tg par i vis d s'. walk s [] 0 0 (components p) = (tg, par, i, vis) \<and>
    search_file s p e clear_record = Inr (i, \<lparr>searched_path = path_of vis, parent_dir = d, sr_type = target_type tg\<rparr>, s') \<and>
    cursor s s' d par \<and> memory_for n s'"
  using assms by (rule search_file_walk)

text \<open>
  A path of several slashes and no name, such as \<^verbatim>\<open>//\<close>, passes the test for the root directory: the loop does not
  run and the number that is returned is that of the uninitialised variable \<open>dir_e\<close>.
\<close>

theorem search_file_uninitialised:
  assumes "coherent s" "fs_ok s" "tree_ok s" and p: "p = slash # t" "components p = []" "p \<noteq> [slash]" "length p < MAX_PATH_LEN"
    and mem: "memory_for 3 s"
  shows "\<exists>d s'. search_file s p e clear_record =
    Inr (de_i_no e, \<lparr>searched_path = [], parent_dir = d, sr_type = FT_DIR\<rparr>, s') \<and> cursor s s' d 0"
proof -
  have dir: "disk_dir_ok s 0" using assms(3) reach_root by (simp add: tree_ok_def)
  have "length (first_name (components p)) \<le> length (replicate MAX_FILE_NAME_LEN (0 :: u8))" by (simp add: p(2) first_name_def)
  from path_parse_components [OF p(1) this] obtain r where
    r: "(path_parse p (replicate MAX_FILE_NAME_LEN 0) :: (fsys, _) res) = Inr (r, replicate MAX_FILE_NAME_LEN 0, p)"
    by (auto simp: p(2) first_name_def overlay_def)
  have "cursor s s root_dir 0" by (simp add: cursor_def same_open_refl)
  from cursor_enter [OF assms(1,2) this dir, of 0] mem obtain d s1 s2 where
    s2: "dir_close s root_dir = Inr s1" "dir_open s1 0 = Inr (d, s2)" "cursor s s2 d 0" by auto
  have "p \<noteq> [slash, dot]" "p \<noteq> [slash, dot, dot]"
    using p(2) by (auto simp: tokens.simps [of slash "[dot]"] tokens.simps [of slash "[dot, dot]"])
  then show ?thesis
    using r s2 p by (simp add: search_file_def clear_record_def search_loop.simps [of s] search_end_def MAX_FILE_NAME_LEN_def)
qed

section \<open>Examples\<close>

text \<open>The file system of \<open>demo_dir\<close>, with the i-node of the root directory written back and nothing else open.\<close>

definition demo_tree :: fsys where
  "demo_tree = demo_dir\<lparr>sectors := (sectors demo_dir)(104 := overlay (replicate 512 0) 0 (inode_bytes (inodes demo_dir 0x100))),
     part := demo_part\<lparr>open_inodes := [0x100]\<rparr>, answers := [0x300, 0x400, 0x500, 0x600, 0x700, 0x800, 0x900, 0xa00]\<rparr>"

lemma demo_tree_fields:
  "part demo_tree = demo_part\<lparr>open_inodes := [0x100]\<rparr>" "fmem demo_tree = fmem demo_dir" "inodes demo_tree = inodes demo_dir"
  "sectors demo_tree 713 = demo_sector" "dirs demo_tree = dirs demo_dir"
  "sectors demo_tree 104 = overlay (replicate 512 0) 0 (inode_bytes (inodes demo_dir 0x100))"
  "answers demo_tree = [0x300, 0x400, 0x500, 0x600, 0x700, 0x800, 0x900, 0xa00]"
  by (simp_all add: demo_tree_def demo_dir_fields)

lemma demo_tree_ok: "fs_ok demo_tree" "blocks_fit (part demo_tree)"
proof -
  have "length (inode_bytes (inodes demo_dir 0x100)) = 76" by (simp add: demo_dir_fields length_inode_bytes)
  then show "fs_ok demo_tree" "blocks_fit (part demo_tree)"
    using demo_dir_fs_ok by (simp_all add: fs_ok_def disk_ok_def demo_tree_def layout_ok_def blocks_fit_def demo_dir_fields)
qed

lemma demo_tree_root: "disk_inode demo_tree 0 = (inodes demo_dir 0x100)\<lparr>i_open_cnt := 1, write_deny := False\<rparr>"
proof -
  let ?i = "inodes demo_dir 0x100"
  have i: "length (i_sectors ?i) = 13" "length (inode_bytes ?i) = 76" by (simp_all add: demo_dir_fields length_inode_bytes)
  have len: "\<And>a. length (sectors demo_tree a) = 512" using demo_tree_ok(1) by (simp add: fs_ok_def disk_ok_def)
  have "sub (itable demo_tree) 0 512 = sectors demo_tree 104"
    using image_sub [of "sectors demo_tree" 0 1 608 104, OF len]
    by (simp add: itable_def demo_tree_fields(1) demo_part_def demo_super_def disk_image_def)
  then have "slot demo_tree 0 = sub (sectors demo_tree 104) 0 76"
    using sub_sub [of 0 76 512 "itable demo_tree" 0] by (simp add: slot_def)
  also have "\<dots> = inode_bytes ?i"
    using sub_overlay_same [of 0 "inode_bytes ?i" "replicate 512 0"] i by (simp add: demo_tree_fields(6))
  finally show ?thesis
    using inode_bytes_roundtrip [OF i(1)] by (simp add: disk_inode_def demo_dir_fields inode_init_def)
qed

lemma demo_tree_entries: "entries_of demo_tree 0 =
  [demo_entry [0x2E] 0 FT_DIR, demo_entry [0x2E, 0x2E] 0 FT_DIR, demo_entry [0x61] 13 FT_REGULAR]"
  by (simp add: entries_of_def ino_blocks_def demo_tree_root demo_dir_fields demo_tree_fields demo_sector_entries)

lemma demo_tree_tree_ok: "tree_ok demo_tree"
proof -
  have "i = 0" if "reach demo_tree i" for i
    using that by induction (auto simp: demo_tree_entries FT_DIR_def FT_REGULAR_def)
  moreover have "disk_dir_ok demo_tree 0"
  proof -
    have b: "ino_blocks demo_tree 0 = [713]" by (simp add: ino_blocks_def demo_tree_root demo_dir_fields)
    moreover have "blocks_ok demo_tree [713]" "blank_free demo_sector"
      using demo_dir_ok by (simp_all add: demo_dblocks dir_ok_def blocks_ok_def used_block_def block_addr_def free_blocks_of_def
        demo_tree_fields demo_dir_fields)
    ultimately show ?thesis
      by (simp add: disk_dir_ok_def demo_tree_entries demo_tree_fields)
        (simp add: demo_tree_root demo_dir_fields inode_init_def dsize_def demo_tree_fields demo_part_def demo_super_def)
  qed
  ultimately show ?thesis by (auto simp: tree_ok_def)
qed

lemma demo_tree_coherent: "coherent demo_tree"
  by (simp add: coherent_def demo_tree_fields agrees_def demo_dir_fields inode_init_def)
    (simp add: demo_tree_root demo_dir_fields inode_init_def)

lemma demo_tree_memory: "n \<le> 8 \<Longrightarrow> memory_for n demo_tree"
  by (simp add: memory_for_def demo_tree_fields root_dir_def)

theorem search_file_walks_witness:
  "\<exists>d s'. search_file demo_tree [slash, 0x61] free_entry clear_record =
     Inr (13, \<lparr>searched_path = [slash, 0x61], parent_dir = d, sr_type = FT_REGULAR\<rparr>, s') \<and> cursor demo_tree s' d 0"
proof -
  have c: "components [slash, 0x61] = [[0x61]]"
    by (subst tokens.simps, simp del: tokens_sep)
  have w: "walk demo_tree [] 0 0 [[0x61]] = (At_file, 0, 13, [[0x61]])"
    by (simp add: demo_tree_entries demo_entry_name name_len_def FT_DIR_def FT_REGULAR_def)
  have "\<exists>tg par i vis d s'. walk demo_tree [] 0 0 (components [slash, 0x61]) = (tg, par, i, vis) \<and>
    search_file demo_tree [slash, 0x61] free_entry clear_record =
      Inr (i, \<lparr>searched_path = path_of vis, parent_dir = d, sr_type = target_type tg\<rparr>, s') \<and>
    cursor demo_tree s' d par \<and> memory_for 0 s'"
    by (rule search_file_walks [OF demo_tree_coherent demo_tree_ok demo_tree_tree_ok])
      (simp_all add: c demo_tree_memory MAX_PATH_LEN_def MAX_FILE_NAME_LEN_def del: tokens_sep)
  then show ?thesis by (auto simp: c w simp del: walk.simps tokens_sep)
qed

theorem search_file_uninitialised_witness:
  "\<exists>d s'. search_file demo_tree [slash, slash] (demo_entry [] 77 FT_DIR) clear_record =
     Inr (77, \<lparr>searched_path = [], parent_dir = d, sr_type = FT_DIR\<rparr>, s') \<and> cursor demo_tree s' d 0"
proof -
  have "components [slash, slash] = []" by (subst tokens.simps) simp
  then show ?thesis
    using search_file_uninitialised [OF demo_tree_coherent demo_tree_ok(1) demo_tree_tree_ok, of "[slash, slash]" _ "demo_entry [] 77 FT_DIR"]
    by (simp add: MAX_PATH_LEN_def demo_tree_memory)
qed

end
