(* ===== verification/Fscalls.thy ===== *)
theory Fscalls
  imports Fs
begin

unbundle bit_operations_syntax

text \<open>
  The system calls of \<^verbatim>\<open>fs/fs.c\<close> on files and directories. What a call reads from its stack without having
  written it is an argument of its model: \<open>junk\<close> for the array \<open>name\<close> of \<open>path_depth_cnt\<close> and \<open>e0\<close> for the
  entry \<open>dir_e\<close> of \<open>search_file\<close>. Messages on the screen are left out.
\<close>

section \<open>Opening a file\<close>

definition basename :: "u8 list \<Rightarrow> u8 list" where
  "basename p = rev (takeWhile (\<lambda>c. c \<noteq> slash) (rev p))"

text \<open>\<open>file_open\<close> is called with the directory of the file still open; nothing closes it.\<close>

definition sys_open :: "fsys \<Rightarrow> u8 list \<Rightarrow> u8 \<Rightarrow> u8 list \<Rightarrow> u8 list \<Rightarrow> dir_entry \<Rightarrow> (u32 \<times> fsys) fres" where
  "sys_open s pathname flags junk junk' e0 =
     (if pathname = [] then Inl (Fault ''pathname[strlen(pathname) - 1]'')
      else if last pathname = slash then Inr (- 1, s)
      else bnd (assert_that (flags \<le> 7) ''flags <= 7'') (\<lambda>_.
           bnd (path_depth_cnt pathname junk) (\<lambda>(pathname_depth, pathname).
           bnd (search_file s pathname e0 clear_record) (\<lambda>(inode_no, r, s).
           let found = (inode_no \<noteq> - 1)
           in if sr_type r = FT_DIR then bnd (dir_close s (parent_dir r)) (\<lambda>s. Inr (- 1, s))
              else bnd (path_depth_cnt (searched_path r) junk') (\<lambda>(searched_path_depth, _).
                if pathname_depth \<noteq> searched_path_depth \<or> \<not> found \<and> flags AND O_CREATE = 0 \<or> found \<and> flags AND O_CREATE \<noteq> 0
                then bnd (dir_close s (parent_dir r)) (\<lambda>s. Inr (- 1, s))
                else if flags AND O_CREATE = O_CREATE then
                  bnd (file_create s (parent_dir r) (basename pathname) flags) (\<lambda>(fd, s).
                  bnd (dir_close s (parent_dir r)) (\<lambda>s. Inr (fd, s)))
                else file_open s inode_no flags)))))"

section \<open>Descriptors\<close>

definition fd_local_to_global :: "fsys \<Rightarrow> u32 \<Rightarrow> u32 fres" where
  "fd_local_to_global s local_fd =
     (if length (fd_local s) \<le> unat local_fd then Inl (Fault ''fdtable[local_fd]'')
      else let global_fd = fd_local s ! unat local_fd
           in bnd (assert_that (global_fd < of_nat MAX_FILES_OPEN) ''global_fd >= 0 && global_fd < MAX_FILES_OPEN'') (\<lambda>_.
              Inr global_fd))"

definition SEEK_SET :: u8 where "SEEK_SET = 1"
definition SEEK_CUR :: u8 where "SEEK_CUR = 2"
definition SEEK_END :: u8 where "SEEK_END = 3"

text \<open>Positions are compared as signed numbers.\<close>

definition sys_lseek :: "fsys \<Rightarrow> u32 \<Rightarrow> u32 \<Rightarrow> u8 \<Rightarrow> (u32 \<times> fsys) fres" where
  "sys_lseek s fd offset whence =
     bnd (assert_that (unat fd < MAX_FILES_OPEN_PER_PROC) ''fd >= 0 && fd < MAX_FILES_OPEN_PER_PROC'') (\<lambda>_.
     bnd (assert_that (whence > 0 \<and> whence < 4) ''whence > 0 && whence < 4'') (\<lambda>_.
     bnd (fd_local_to_global s fd) (\<lambda>global_fd.
     let f = file_table s ! unat global_fd; file_size = i_size (inodes s (fd_inode f));
         new_pos = (if whence = SEEK_SET then offset else if whence = SEEK_CUR then offset + fd_pos f else file_size + offset)
     in if sint new_pos < 0 \<or> sint (file_size - 1) < sint new_pos then Inr (- 1, s)
        else Inr (new_pos, upd_file s (unat global_fd) (\<lambda>f. f\<lparr>fd_pos := new_pos\<rparr>)))))"

section \<open>Removing a file\<close>

definition in_use :: "fsys \<Rightarrow> u32 \<Rightarrow> bool" where
  "in_use s ino \<longleftrightarrow>
     list_ex (\<lambda>f. fd_inode f \<noteq> NULL \<and> ino = i_no (inodes s (fd_inode f))) (take MAX_FILES_OPEN (file_table s))"

definition sys_unlink :: "fsys \<Rightarrow> u8 list \<Rightarrow> dir_entry \<Rightarrow> (u32 \<times> fsys) fres" where
  "sys_unlink s pathname e0 =
     bnd (assert_that (length pathname < MAX_PATH_LEN) ''strlen(pathname) < MAX_PATH_LEN'') (\<lambda>_.
     bnd (search_file s pathname e0 clear_record) (\<lambda>(ino, r, s).
     bnd (assert_that (ino \<noteq> 0) ''i_no != 0'') (\<lambda>_.
     if ino = - 1 \<or> sr_type r = FT_DIR \<or> in_use s ino then bnd (dir_close s (parent_dir r)) (\<lambda>s. Inr (- 1, s))
     else let (io_buf, s) = fs_malloc s (SECTOR_SIZE * 2)
          in if io_buf = NULL then bnd (dir_close s (parent_dir r)) (\<lambda>s. Inr (- 1, s))
             else bnd (delete_dir_entry s (parent_dir r) ino) (\<lambda>(_, s).
                  bnd (inode_release s ino) (\<lambda>s.
                  bnd (fs_free s io_buf) (\<lambda>s.
                  bnd (dir_close s (parent_dir r)) (\<lambda>s. Inr (0, s))))))))"

section \<open>Directories\<close>

text \<open>An entry in a cleared buffer, filled field by field.\<close>

definition raw_entry :: "u8 list \<Rightarrow> u32 \<Rightarrow> u32 \<Rightarrow> dir_entry" where
  "raw_entry name ino ft = \<lparr>filename = overlay (replicate name_len 0) 0 name, de_i_no = ino, f_type = ft\<rparr>"

text \<open>The address of the variable \<open>new_dir_inode\<close> on the stack of the caller, where no block of the heap lies.\<close>

definition new_dir_inode :: u32 where "new_dir_inode = 0xc0009800"

text \<open>
  The roll back of steps 1 and 2. When \<open>sync_dir_entry\<close> fails the source sets the step but goes on.
\<close>

definition mkdir_rollback :: "nat \<Rightarrow> fsys \<Rightarrow> u32 \<Rightarrow> u32 \<Rightarrow> u32 \<Rightarrow> (u32 \<times> fsys) fres" where
  "mkdir_rollback step s ino parent io_buf =
     bnd (if step = 2 then bnd (bitmap_set (fmem s) (inode_map (part s)) ino 0) (\<lambda>m. Inr (s\<lparr>fmem := m\<rparr>)) else Inr s) (\<lambda>s.
     bnd (dir_close s parent) (\<lambda>s.
     bnd (fs_free s io_buf) (\<lambda>s. Inr (- 1, s))))"

definition make_dir :: "fsys \<Rightarrow> u32 \<Rightarrow> u32 \<Rightarrow> u8 list \<Rightarrow> u32 \<Rightarrow> u32 \<Rightarrow> (u32 \<times> fsys) fres" where
  "make_dir s ino block_lba dirname parent io_buf =
     (let s = set_sector s new_dir_inode 0 block_lba; block_bitmap_idx = block_lba - data_start_lba (sb (part s));
          parent_inode = dir_inode (dirs s parent)
      in bnd (assert_that (block_bitmap_idx \<noteq> 0) ''block_bitmap_idx != 0'') (\<lambda>_.
         bnd (bitmap_sync s block_bitmap_idx BLOCK_BITMAP) (\<lambda>s.
         bnd (disk_write s block_lba
                (overlay (overlay (replicate 512 0) 0 (entry_bytes (raw_entry [dot] ino FT_DIR)))
                   sizeof_dir_entry (entry_bytes (raw_entry [dot, dot] (i_no (inodes s parent_inode)) FT_DIR))) 1) (\<lambda>s.
         let s = upd_inode s new_dir_inode (\<lambda>i. i\<lparr>i_size := 2 * dsize s\<rparr>)
         in bnd (create_dir_entry dirname ino FT_DIR) (\<lambda>e.
            bnd (sync_dir_entry s parent e) (\<lambda>(_, s).
            bnd (inode_sync s parent_inode 1024) (\<lambda>s.
            bnd (inode_sync s new_dir_inode 1024) (\<lambda>s.
            bnd (bitmap_sync s ino INODE_BITMAP) (\<lambda>s.
            bnd (fs_free s io_buf) (\<lambda>s.
            bnd (dir_close s parent) (\<lambda>s. Inr (0, s))))))))))))"

definition sys_mkdir :: "fsys \<Rightarrow> u8 list \<Rightarrow> u8 list \<Rightarrow> u8 list \<Rightarrow> dir_entry \<Rightarrow> (u32 \<times> fsys) fres" where
  "sys_mkdir s pathname junk junk' e0 =
     (let (io_buf, s) = fs_malloc s 1024
      in if io_buf = NULL then Inr (- 1, s)
         else bnd (search_file s pathname e0 clear_record) (\<lambda>(ino, r, s).
         if ino \<noteq> - 1 then mkdir_rollback 1 s ino (parent_dir r) io_buf
         else bnd (path_depth_cnt pathname junk) (\<lambda>(pathname_depth, pathname).
         bnd (path_depth_cnt (searched_path r) junk') (\<lambda>(path_searched_depth, sp).
         if pathname_depth \<noteq> path_searched_depth then mkdir_rollback 1 s ino (parent_dir r) io_buf
         else bnd (inode_bitmap_alloc s) (\<lambda>(ino, s).
         if ino = - 1 then mkdir_rollback 1 s ino (parent_dir r) io_buf
         else let s = upd_inode s new_dir_inode (\<lambda>_. inode_init ino)
         in bnd (block_bitmap_alloc s) (\<lambda>(block_lba, s).
            if block_lba = - 1 then mkdir_rollback 2 s ino (parent_dir r) io_buf
            else make_dir s ino block_lba (basename sp) (parent_dir r) io_buf))))))"

definition char_at :: "u8 list \<Rightarrow> nat \<Rightarrow> u8" where
  "char_at str i = (if i < length str then str ! i else 0)"

text \<open>The result 0 is the null pointer.\<close>

definition sys_opendir :: "fsys \<Rightarrow> u8 list \<Rightarrow> dir_entry \<Rightarrow> (u32 \<times> fsys) fres" where
  "sys_opendir s name e0 =
     bnd (assert_that (length name < MAX_FILE_NAME_LEN) ''strlen(name) < MAX_FILE_NAME_LEN'') (\<lambda>_.
     if char_at name 0 = slash \<and> (char_at name 1 = 0 \<or> char_at name 1 = dot) then Inr (root_dir, s)
     else bnd (search_file s name e0 clear_record) (\<lambda>(ino, r, s).
          bnd (if ino \<noteq> - 1 \<and> sr_type r = FT_DIR then dir_open s ino else Inr (NULL, s)) (\<lambda>(ret, s).
          bnd (dir_close s (parent_dir r)) (\<lambda>s. Inr (ret, s)))))"

definition sys_closedir :: "fsys \<Rightarrow> u32 \<Rightarrow> (u32 \<times> fsys) fres" where
  "sys_closedir s dir = (if dir \<noteq> NULL then bnd (dir_close s dir) (\<lambda>s. Inr (0, s)) else Inr (- 1, s))"

definition sys_readdir :: "fsys \<Rightarrow> u32 \<Rightarrow> (dir_entry option \<times> fsys) fres" where
  "sys_readdir s dir = bnd (assert_that (dir \<noteq> NULL) ''dir != NULL'') (\<lambda>_. dir_read s dir)"

definition sys_rewinddir :: "fsys \<Rightarrow> u32 \<Rightarrow> fsys" where
  "sys_rewinddir s dir = s\<lparr>dirs := (dirs s)(dir := (dirs s dir)\<lparr>dir_pose := 0\<rparr>)\<rparr>"

definition sys_rmdir :: "fsys \<Rightarrow> u8 list \<Rightarrow> dir_entry \<Rightarrow> (u32 \<times> fsys) fres" where
  "sys_rmdir s pathname e0 =
     bnd (search_file s pathname e0 clear_record) (\<lambda>(ino, r, s).
     bnd (assert_that (ino \<noteq> 0) ''inode_no != 0'') (\<lambda>_.
     bnd (if ino = - 1 \<or> sr_type r = FT_REGULAR then Inr (- 1, s)
          else bnd (dir_open s ino) (\<lambda>(dir, s).
               bnd (if \<not> dir_is_empty s dir then Inr (- 1, s)
                    else bnd (dir_remove s (parent_dir r) dir) (\<lambda>(x, s). Inr (if x = 0 then 0 else - 1, s))) (\<lambda>(ret, s).
               bnd (dir_close s dir) (\<lambda>s. Inr (ret, s))))) (\<lambda>(ret, s).
     bnd (dir_close s (parent_dir r)) (\<lambda>s. Inr (ret, s)))))"

section \<open>The working directory\<close>

definition get_parent_dir_i_no :: "fsys \<Rightarrow> u32 \<Rightarrow> (u32 \<times> fsys) fres" where
  "get_parent_dir_i_no s child_i_no =
     bnd (inode_open s child_i_no) (\<lambda>(child_dir_inode, s).
     let block_lba = i_sectors (inodes s child_dir_inode) ! 0
     in bnd (assert_that (block_lba \<ge> data_start_lba (sb (part s))) ''block_lba >= data_start_lba'') (\<lambda>_.
        bnd (inode_close s child_dir_inode) (\<lambda>s.
        bnd (disk_read s block_lba 1) (\<lambda>io_buf.
        let e = entry_at io_buf 1
        in bnd (assert_that (de_i_no e < 4096 \<and> f_type e = FT_DIR) ''dir_e[1].i_no < 4096'') (\<lambda>_.
           Inr (de_i_no e, s))))))"

text \<open>The blocks of a directory are searched for the entry with the number of the child, in use or not.\<close>

primrec child_entry :: "fsys \<Rightarrow> u32 \<Rightarrow> u32 list \<Rightarrow> dir_entry option fres" where
  "child_entry s child_i_no [] = Inr None"
| "child_entry s child_i_no (b # bs) =
     (if b = 0 then child_entry s child_i_no bs
      else bnd (disk_read s b 1) (\<lambda>io_buf.
           case find (\<lambda>i. de_i_no (entry_at io_buf i) = child_i_no) [0..<per_sec s] of
             Some i \<Rightarrow> Inr (Some (entry_at io_buf i))
           | None \<Rightarrow> child_entry s child_i_no bs))"

text \<open>\<open>None\<close> is the result -1; otherwise the name has been appended to \<open>path\<close>, an array of 512 characters.\<close>

definition get_child_dir_name :: "fsys \<Rightarrow> u32 \<Rightarrow> u32 \<Rightarrow> u8 list \<Rightarrow> (u8 list option \<times> fsys) fres" where
  "get_child_dir_name s parent_i_no child_i_no pname =
     bnd (inode_open s parent_i_no) (\<lambda>(parent_dir_inode, s).
     let indirect = (i_sectors (inodes s parent_dir_inode) ! 12 \<noteq> 0)
     in bnd (dir_blocks s parent_dir_inode) (\<lambda>all_blocks.
        bnd (inode_close s parent_dir_inode) (\<lambda>s.
        bnd (child_entry s child_i_no (if indirect then all_blocks else take 12 all_blocks)) (\<lambda>r.
        case r of
          None \<Rightarrow> Inr (None, s)
        | Some e \<Rightarrow>
            bnd (cstring (filename e)) (\<lambda>nm.
            if MAX_PATH_LEN \<le> length (pname @ slash # nm) then Inl (Fault ''path'')
            else Inr (Some (pname @ slash # nm), s))))))"

text \<open>The loop from the working directory up to the root. A cycle of parents keeps it running.\<close>

partial_function (option) cwd_loop :: "fsys \<Rightarrow> u32 \<Rightarrow> u8 list \<Rightarrow> (u8 list option \<times> fsys) fres option" where
  "cwd_loop s child_i_no pname =
     (if child_i_no = 0 then Some (Inr (Some pname, s))
      else case get_parent_dir_i_no s child_i_no of
        Inl e \<Rightarrow> Some (Inl e)
      | Inr (parent_i_no, s) \<Rightarrow>
          (case get_child_dir_name s parent_i_no child_i_no pname of
             Inl e \<Rightarrow> Some (Inl e)
           | Inr (None, s) \<Rightarrow> Some (Inr (None, s))
           | Inr (Some pname, s) \<Rightarrow> cwd_loop s parent_i_no pname))"

text \<open>
  The loop that copies the names in the reverse order: \<open>strcpy\<close> from the last slash to the end, with a zero behind it,
  into the buffer of \<open>size\<close> characters.
\<close>

function reverse_path :: "u8 list \<Rightarrow> u8 list \<Rightarrow> nat \<Rightarrow> u8 list fres" where
  "reverse_path full_path_reverse buf sz =
     (if slash \<notin> set full_path_reverse then Inr buf
      else let seg = slash # basename full_path_reverse
           in if sz \<le> length (buf @ seg) then Inl (Fault ''buf'')
              else reverse_path (take (length full_path_reverse - length seg) full_path_reverse) (buf @ seg) sz)"
  by pat_completeness auto
termination
  by (relation "measure (\<lambda>(p, b, n). length p)") (auto dest: length_pos_if_in_set)

text \<open>The result is the contents of \<open>buf\<close>, or \<open>None\<close> for the null pointer.\<close>

definition sys_getcwd :: "fsys \<Rightarrow> nat \<Rightarrow> (u8 list option \<times> fsys) fres" where
  "sys_getcwd s sz =
     (let (io_buf, s) = fs_malloc s SECTOR_SIZE
      in if io_buf = NULL then Inr (None, s)
         else let child_i_no = fsys.cwd_inode_nr s
         in bnd (assert_that (child_i_no < 4096) ''child_i_no >= 0 && child_i_no < 4096'') (\<lambda>_.
            if child_i_no = 0 then
              if sz < 2 then Inl (Fault ''buf[1]'') else bnd (fs_free s io_buf) (\<lambda>s. Inr (Some [slash], s))
            else bnd (case cwd_loop s child_i_no [] of None \<Rightarrow> Inl Spin | Some r \<Rightarrow> r) (\<lambda>(r, s).
              case r of
                None \<Rightarrow> bnd (fs_free s io_buf) (\<lambda>s. Inr (None, s))
              | Some full_path_reverse \<Rightarrow>
                  bnd (assert_that (length full_path_reverse \<le> sz) ''strlen(full_path_reverse) <= size'') (\<lambda>_.
                  bnd (reverse_path full_path_reverse [] sz) (\<lambda>buf.
                  bnd (fs_free s io_buf) (\<lambda>s. Inr (Some buf, s)))))))"

definition sys_chdir :: "fsys \<Rightarrow> u8 list \<Rightarrow> dir_entry \<Rightarrow> (u32 \<times> fsys) fres" where
  "sys_chdir s pathname e0 =
     bnd (search_file s pathname e0 clear_record) (\<lambda>(ino, r, s).
     let (ret, s) = (if ino \<noteq> - 1 \<and> sr_type r = FT_DIR then (0, s\<lparr>fsys.cwd_inode_nr := ino\<rparr>) else (- 1, s))
     in bnd (dir_close s (parent_dir r)) (\<lambda>s. Inr (ret, s)))"

record stat =
  st_ino :: u32
  st_size :: u32
  st_filetype :: u32

text \<open>\<open>None\<close> is the result -1, otherwise the structure has been filled.\<close>

definition sys_stat :: "fsys \<Rightarrow> u8 list \<Rightarrow> dir_entry \<Rightarrow> (stat option \<times> fsys) fres" where
  "sys_stat s pathname e0 =
     (if pathname = [slash] \<or> pathname = [slash, dot] \<or> pathname = [slash, dot, dot]
      then Inr (Some \<lparr>st_ino = 0, st_size = i_size (inodes s (dir_inode (dirs s root_dir))), st_filetype = FT_DIR\<rparr>, s)
      else bnd (search_file s pathname e0 clear_record) (\<lambda>(ino, r, s).
           bnd (if ino \<noteq> - 1 then
                  bnd (inode_open s ino) (\<lambda>(inode, s).
                  let st = \<lparr>st_ino = ino, st_size = i_size (inodes s inode), st_filetype = sr_type r\<rparr>
                  in bnd (inode_close s inode) (\<lambda>s. Inr (Some st, s)))
                else Inr (None, s)) (\<lambda>(ret, s).
           bnd (dir_close s (parent_dir r)) (\<lambda>s. Inr (ret, s)))))"

declare reverse_path.simps [simp del]

section \<open>Seeking\<close>

lemma seek_base:
  assumes "\<bar>sint d\<bar> < 2 ^ 30" "unat (b :: u32) < 2 ^ 30"
  shows "sint (b + d) = int (unat b) + sint d"
proof -
  have "int (unat b) < 2 ^ 30" using assms(2) by (metis of_nat_less_iff of_nat_numeral of_nat_power)
  then have u: "0 \<le> uint b" "uint b < 1073741824" by simp_all
  have "- (2 ^ 31) \<le> uint b" by (rule order_trans [OF _ u(1)]) simp
  moreover have "uint b < 2 ^ 31" using u(2) by simp
  ultimately have b: "sint b = uint b" unfolding sint_uint by (simp add: signed_take_bit_int_eq_self)
  have "sint (b + d) = signed_take_bit 31 (sint b + sint d)" by (simp add: sint_word_ariths)
  also have "\<dots> = sint b + sint d"
  proof (rule signed_take_bit_int_eq_self)
    have d: "- 1073741824 < sint d" "sint d < 1073741824" using assms(1) by simp_all
    show "sint b + sint d < 2 ^ 31" using u(2) d(2) by (simp add: b)
    have "- (2 ^ 31) \<le> 0 + sint d" using d(1) by simp
    then show "- (2 ^ 31) \<le> sint b + sint d" using u(1) by (simp only: b)
  qed
  finally show ?thesis by (simp add: b)
qed

definition seek_target :: "u8 \<Rightarrow> nat \<Rightarrow> nat \<Rightarrow> int \<Rightarrow> int" where
  "seek_target whence pos len offset =
     (if whence = SEEK_SET then 0 else if whence = SEEK_CUR then int pos else int len) + offset"

text \<open>
  C26: With positions and offsets below \<open>2 ^ 30\<close>, where the 32-bit sum does not wrap around, \<open>sys_lseek\<close> moves the position to the
  byte that offset and origin name when the file has that byte, and otherwise returns -1 and changes nothing. So the end of
  the file is no position: \<open>SEEK_END\<close> with offset 0 always fails, and every seek in an empty file.
\<close>

theorem sys_lseek_moves:
  assumes fd: "unat fd < MAX_FILES_OPEN_PER_PROC" "length (fd_local s) = MAX_FILES_OPEN_PER_PROC"
    and g: "fd_local s ! unat fd = g" "g < of_nat MAX_FILES_OPEN" and whence: "whence \<in> {SEEK_SET, SEEK_CUR, SEEK_END}"
    and f: "f = file_table s ! unat g" "len = unat (i_size (inodes s (fd_inode f)))" "pos = unat (fd_pos f)"
    and small: "len < 2 ^ 30" "pos < 2 ^ 30" "\<bar>sint offset\<bar> < 2 ^ 30"
  defines "t \<equiv> seek_target whence pos len (sint offset)"
  shows "sys_lseek s fd offset whence =
    (if 0 \<le> t \<and> t < int len then Inr (of_int t, upd_file s (unat g) (\<lambda>f. f\<lparr>fd_pos := of_int t\<rparr>)) else Inr (- 1, s))"
proof -
  let ?size = "i_size (inodes s (fd_inode f))"
  let ?new = "if whence = SEEK_SET then offset else if whence = SEEK_CUR then offset + fd_pos f else ?size + offset"
  have "sint (0 + offset) = int (unat (0 :: u32)) + sint offset" "sint (fd_pos f + offset) = int pos + sint offset"
    "sint (?size + offset) = int len + sint offset" "sint (?size + (- 1)) = int len + sint (- 1 :: u32)"
    using seek_base [of offset 0] seek_base [of offset "fd_pos f"] seek_base [of offset ?size] seek_base [of "- 1" ?size] small f
    by simp_all
  then have new: "sint ?new = t" "sint (?size - 1) = int len - 1"
    using whence by (auto simp: t_def seek_target_def add.commute)
  have "?new = of_int (sint ?new)" by simp
  then have eq: "?new = of_int t" unfolding new(1) .
  have w: "0 < whence" "whence < 4" using whence by (auto simp: SEEK_SET_def SEEK_CUR_def SEEK_END_def)
  have run: "sys_lseek s fd offset whence = (if sint ?new < 0 \<or> sint (?size - 1) < sint ?new then Inr (- 1, s)
        else Inr (?new, upd_file s (unat g) (\<lambda>f. f\<lparr>fd_pos := ?new\<rparr>)))"
    using fd g w by (simp add: sys_lseek_def fd_local_to_global_def f(1) [symmetric] Let_def)
  have "(sint ?new < 0 \<or> sint (?size - 1) < sint ?new) = (\<not> (0 \<le> t \<and> t < int len))"
    unfolding new by auto
  then show ?thesis unfolding run eq [symmetric] by simp
qed

section \<open>Changing the directory\<close>

lemma coherent_more:
  "coherent (s\<lparr>answers := x, live := y\<rparr>) = coherent s" "coherent (s\<lparr>fsys.cwd_inode_nr := i\<rparr>) = coherent s"
  by (simp_all add: coherent_def agrees_def disk_inode_def slot_def itable_def)

lemma disk_more:
  "disk_inode (s\<lparr>answers := x, live := y\<rparr>) i = disk_inode s i" "entries_of (s\<lparr>answers := x, live := y\<rparr>) i = entries_of s i"
  "ino_blocks (s\<lparr>answers := x, live := y\<rparr>) i = ino_blocks s i"
  by (simp_all add: disk_inode_def slot_def itable_def entries_of_def ino_blocks_def)

lemma same_open_cwd: "same_open s s' \<Longrightarrow> same_open (s\<lparr>fsys.cwd_inode_nr := i\<rparr>) (s'\<lparr>fsys.cwd_inode_nr := i\<rparr>)"
  by (simp add: same_open_def stable_def)

lemma dir_close_cwd: "dir_close s d = Inr s' \<Longrightarrow> dir_close (s\<lparr>fsys.cwd_inode_nr := i\<rparr>) d = Inr (s'\<lparr>fsys.cwd_inode_nr := i\<rparr>)"
  by (auto simp: dir_close_def inode_close_def upd_inode_def upd_part_def fs_free_def kl_remove_def assert_that_def Let_def
    split: if_splits)

lemma sys_chdir_walk:
  assumes env: "coherent s" "fs_ok s" "blocks_fit (part s)" "tree_ok s"
    and p: "p = slash # t" "0 \<notin> set p" "length p < MAX_PATH_LEN" "components p \<noteq> []" "p \<noteq> [slash, dot]" "p \<noteq> [slash, dot, dot]"
    and names: "\<forall>c \<in> set (components p). length c < MAX_FILE_NAME_LEN"
    and mem: "memory_for (n + 5 * length (components p) + 3) s"
    and w: "walk s [] 0 0 (components p) = (tg, par, i, vis)" "i \<noteq> - 1 \<or> tg \<noteq> At_dir"
  shows "\<exists>s'. sys_chdir s p e = Inr (if tg = At_dir then 0 else - 1, s') \<and>
    same_open (if tg = At_dir then s\<lparr>fsys.cwd_inode_nr := i\<rparr> else s) s' \<and> memory_for n s'"
proof -
  obtain d s1 where s1: "search_file s p e clear_record =
      Inr (i, \<lparr>searched_path = path_of vis, parent_dir = d, sr_type = target_type tg\<rparr>, s1)" "cursor s s1 d par" "memory_for n s1"
    using search_file_walk [OF env p names mem, of e] w(1) by auto
  obtain s2 where s2: "dir_close s1 d = Inr s2" "same_open s s2" "memory_for n s2"
    using cursor_close [OF env(1) s1(2,3)] by blast
  have "target_type tg = FT_DIR \<longleftrightarrow> tg = At_dir"
    by (cases tg) (simp_all add: FT_DIR_def FT_REGULAR_def FT_UNKOWN_def)
  then show ?thesis
    using s1(1) s2 w(2) same_open_cwd [OF s2(2)] by (auto simp: sys_chdir_def dir_close_cwd memory_for_def)
qed

lemma with_inode:
  assumes coh: "coherent s" and ok: "fs_ok s" and ino: "ino < 4096" "i_no (disk_inode s ino) = ino" and mem: "memory_for (n + 2) s"
  shows "\<exists>a s1 s2. inode_open s ino = Inr (a, s1) \<and> i_sectors (inodes s1 a) = i_sectors (disk_inode s ino) \<and>
    sectors s1 = sectors s \<and> sb (part s1) = sb (part s) \<and> inode_close s1 a = Inr s2 \<and> same_open s s2 \<and> memory_for n s2"
proof -
  obtain y z as where ans: "answers s = y # z # as"
    using mem by (cases "answers s"; cases "tl (answers s)") (auto simp: memory_for_def)
  then have m: "y \<noteq> NULL" "z \<noteq> NULL" "y \<notin> set (open_inodes (part s))"
    and rest: "memory_for n (s\<lparr>answers := as\<rparr>)" "memory_for n s"
    using mem by (auto simp: memory_for_def)
  show ?thesis
  proof (cases "\<exists>a \<in> set (open_inodes (part s)). i_no (inodes s a) = ino")
    case True
    then obtain b where b: "find (\<lambda>a. i_no (inodes s a) = ino) (open_inodes (part s)) = Some b"
      by (cases "find (\<lambda>a. i_no (inodes s a) = ino) (open_inodes (part s))") (auto simp: find_None_iff)
    then have b': "b \<in> set (open_inodes (part s))" "i_no (inodes s b) = ino" by (auto simp: find_Some_iff)
    have "i_open_cnt (inodes s b) \<noteq> 0" "agrees s b" using coh b'(1) by (simp_all add: coherent_def)
    then show ?thesis
      using b b' rest(2) same_open_refl
      by (intro exI [of _ b] exI [of _ "upd_inode s b (\<lambda>i. i\<lparr>i_open_cnt := i_open_cnt i + 1\<rparr>)"] exI [of _ s])
        (simp add: inode_open_def inode_close_def upd_inode_def agrees_def)
  next
    case False
    let ?s1 = "s\<lparr>inodes := (inodes s)(y := (disk_inode s ino)\<lparr>i_open_cnt := 1\<rparr>),
      part := (part s)\<lparr>open_inodes := y # open_inodes (part s)\<rparr>, answers := as, live := y # live s\<rparr>"
    have "inode_open s ino = Inr (y, ?s1)"
      using inode_open_disk [OF ok ino(1) _ ans m(1,2)] False by (simp add: disk_inode_def)
    moreover define s2 where "s2 = ?s1\<lparr>inodes := (inodes ?s1)(y := (inodes ?s1 y)\<lparr>i_open_cnt := 0\<rparr>),
      part := (part ?s1)\<lparr>open_inodes := remove1 y (open_inodes (part ?s1))\<rparr>, live := remove1 y (live ?s1)\<rparr>"
    moreover have "inode_close ?s1 y = Inr s2" unfolding s2_def by (rule inode_close_last) (simp_all add: m)
    moreover have "same_open s s2" "memory_for n s2"
      using m rest(1) by (auto simp: s2_def same_open_def stable_def memory_for_def)
    ultimately show ?thesis by (intro exI [of _ y] exI [of _ ?s1] exI [of _ s2]) simp
  qed
qed

section \<open>The path of the working directory\<close>

text \<open>All slots of a directory, in use or not.\<close>

definition slots_of :: "fsys \<Rightarrow> u32 \<Rightarrow> dir_entry list" where
  "slots_of s ino = concat (map (\<lambda>b. map (entry_at (sectors s b)) [0..<21]) (ino_blocks s ino))"

text \<open>
  The entry \<open>e\<close> of the directory \<open>q\<close> leads to a directory whose second entry leads back, and no slot of \<open>q\<close> before it
  has the same number.
\<close>

definition linked :: "fsys \<Rightarrow> u32 \<Rightarrow> dir_entry \<Rightarrow> bool" where
  "linked s q e \<longleftrightarrow> f_type e = FT_DIR \<and> de_i_no e \<noteq> 0 \<and> 0 \<in> set (filename e) \<and>
     find (\<lambda>x. de_i_no x = de_i_no e) (slots_of s q) = Some e \<and>
     (let b = i_sectors (disk_inode s (de_i_no e)) ! 0
      in b \<in> set (ino_blocks s (de_i_no e)) \<and> de_i_no (entry_at (sectors s b) 1) = q \<and> f_type (entry_at (sectors s b) 1) = FT_DIR)"

text \<open>The names \<open>cs\<close> lead from \<open>q\<close> to \<open>i\<close>, through directories that are linked in both directions.\<close>

primrec chain :: "fsys \<Rightarrow> u32 \<Rightarrow> u8 list list \<Rightarrow> u32 \<Rightarrow> bool" where
  "chain s q [] i \<longleftrightarrow> q = i"
| "chain s q (c # cs) i \<longleftrightarrow>
     (case find (\<lambda>e. entry_name e = c) (entries_of s q) of None \<Rightarrow> False | Some e \<Rightarrow> linked s q e \<and> chain s (de_i_no e) cs i)"

lemma chain_walk: "chain s q cs i \<Longrightarrow> \<exists>p'. walk s seen p q cs = (At_dir, p', i, seen @ cs)"
proof (induction cs arbitrary: p q seen)
  case (Cons c cs)
  then obtain e where e: "find (\<lambda>e. entry_name e = c) (entries_of s q) = Some e" "linked s q e" "chain s (de_i_no e) cs i"
    by (auto split: option.splits)
  then show ?case using Cons.IH [OF e(3), of "seen @ [c]" q] by (simp add: linked_def)
qed simp

lemma chain_snoc: "chain s q (cs @ [c]) i \<longleftrightarrow> (\<exists>r. chain s q cs r \<and> chain s r [c] i)"
  by (induction cs arbitrary: q) (auto split: option.splits)

lemma chain_reach: "chain s q cs i \<Longrightarrow> reach s q \<Longrightarrow> reach s i"
proof (induction cs arbitrary: q)
  case (Cons c cs)
  then obtain e where e: "find (\<lambda>e. entry_name e = c) (entries_of s q) = Some e" "linked s q e" "chain s (de_i_no e) cs i"
    by (auto split: option.splits)
  have "e \<in> set (entries_of s q)" using e(1) by (auto simp: find_Some_iff)
  moreover have "f_type e = FT_DIR" using e(2) by (simp add: linked_def)
  moreover note e(3)
  ultimately show ?case using Cons.IH [OF e(3)] reach_entry [OF Cons.prems(2)] by blast
qed simp

lemma ino_block_lba:
  assumes "fs_ok s" "blocks_fit (part s)" "disk_dir_ok s i" "b \<in> set (ino_blocks s i)"
  shows "b \<le> max_lba" "b \<noteq> 0" "data_start_lba (sb (part s)) \<le> b"
  using assms used_block_lba [OF assms(1,2), of b] by (auto simp: disk_dir_ok_def blocks_ok_def)

lemma get_parent_linked:
  assumes env: "coherent s" "fs_ok s" "blocks_fit (part s)" and e: "linked s q e" "disk_dir_ok s (de_i_no e)" "disk_dir_ok s q"
    and mem: "memory_for (n + 2) s"
  shows "\<exists>s'. get_parent_dir_i_no s (de_i_no e) = Inr (q, s') \<and> same_open s s' \<and> memory_for n s'"
proof -
  let ?b = "i_sectors (disk_inode s (de_i_no e)) ! 0"
  have i: "de_i_no e < 4096" "i_no (disk_inode s (de_i_no e)) = de_i_no e" "q < 4096" using e by (simp_all add: disk_dir_ok_def)
  from with_inode [OF env(1,2) i(1,2) mem] obtain a s1 s2 where
    s: "inode_open s (de_i_no e) = Inr (a, s1)" "i_sectors (inodes s1 a) = i_sectors (disk_inode s (de_i_no e))"
      "sb (part s1) = sb (part s)" "inode_close s1 a = Inr s2" "same_open s s2" "memory_for n s2" by blast
  have b: "?b \<in> set (ino_blocks s (de_i_no e))" "de_i_no (entry_at (sectors s ?b) 1) = q" "f_type (entry_at (sectors s ?b) 1) = FT_DIR"
    using e(1) by (simp_all add: linked_def Let_def)
  note lba = ino_block_lba [OF env(2,3) e(2) b(1)]
  have "sectors s2 = sectors s" using s(5) by (simp add: same_open_def stable_def)
  then have "disk_read s2 ?b 1 = Inr (sectors s ?b)" using disk_one(1) [OF lba(1), of s2] by simp
  then show ?thesis
    using s b lba(3) i(3) by (intro exI [of _ s2]) (simp add: get_parent_dir_i_no_def)
qed

lemma child_entry_find:
  assumes "dsize s = 24" "\<And>b. b \<in> set bs \<Longrightarrow> b \<noteq> 0 \<Longrightarrow> b \<le> max_lba"
  shows "child_entry s i bs =
    Inr (find (\<lambda>x. de_i_no x = i) (concat (map (\<lambda>b. map (entry_at (sectors s b)) [0..<21]) (filter (\<lambda>b. b \<noteq> 0) bs))))"
  using assms(2)
proof (induction bs)
  case (Cons b bs)
  have m: "find P (map f xs) = map_option f (find (P \<circ> f) xs)" for P f and xs :: "nat list" by (induction xs) auto
  show ?case
  proof (cases "b = 0")
    case False
    then have "b \<le> max_lba" using Cons.prems [of b] by simp
    then show ?thesis
      using False Cons disk_one(1) [of b s]
      by (simp add: per_sec_21 assms(1) find_append m comp_def del: upt_Suc split: option.splits)
  qed (use Cons in simp)
qed simp

lemma get_child_linked:
  assumes env: "coherent s" "fs_ok s" "blocks_fit (part s)" and e: "linked s q e" "disk_dir_ok s q"
    and fits: "length (pth @ slash # entry_name e) < MAX_PATH_LEN" and mem: "memory_for (n + 2) s"
  shows "\<exists>s'. get_child_dir_name s q (de_i_no e) pth = Inr (Some (pth @ slash # entry_name e), s') \<and> same_open s s' \<and> memory_for n s'"
proof -
  have q: "q < 4096" "i_no (disk_inode s q) = q" "i_sectors (disk_inode s q) ! 12 = 0" "dsize s = 24"
    using e(2) by (simp_all add: disk_dir_ok_def)
  from with_inode [OF env(1,2) q(1,2) mem] obtain a s1 s2 where
    s: "inode_open s q = Inr (a, s1)" "i_sectors (inodes s1 a) = i_sectors (disk_inode s q)"
      "inode_close s1 a = Inr s2" "same_open s s2" "memory_for n s2" by blast
  let ?bs = "take 12 (i_sectors (disk_inode s q))"
  have st: "sectors s2 = sectors s" "dsize s2 = 24" using s(4) q(4) stable_disk(8) [of s s2] by (simp_all add: same_open_def stable_def)
  have "b \<le> max_lba" if "b \<in> set ?bs" "b \<noteq> 0" for b
    using ino_block_lba(1) [OF env(2,3) e(2), of b] that by (simp add: ino_blocks_def)
  then have c: "child_entry s2 (de_i_no e) ?bs = Inr (Some e)"
    using child_entry_find [OF st(2), of ?bs "de_i_no e"] e(1) by (simp add: linked_def slots_of_def ino_blocks_def st(1))
  have "length (i_sectors (disk_inode s q)) = 13" by (simp add: disk_inode_def inode_of_bytes_def)
  moreover have "(cstring (filename e) :: (fsys, _) res) = Inr (entry_name e)" using e(1) by (simp add: linked_def cstring_def entry_name_def)
  ultimately show ?thesis
    using s q(3) c fits dir_blocks_direct [of s1 a]
    by (intro exI [of _ s2]) (simp add: get_child_dir_name_def Let_def)
qed

lemma same_disk_linked:
  assumes "same_disk s s'"
  shows "linked s' q e = linked s q e"
proof -
  note d = same_disk [OF assms]
  have "slots_of s' q = slots_of s q" using assms by (simp add: slots_of_def d same_disk_def)
  moreover have "sectors s' = sectors s" using assms by (simp add: same_disk_def)
  ultimately show ?thesis by (simp add: linked_def d)
qed

lemma same_disk_chain: "same_disk s s' \<Longrightarrow> chain s' q cs i = chain s q cs i"
  by (induction cs arbitrary: q) (simp_all add: same_disk(4) same_disk_linked split: option.splits)

lemma cwd_loop_chain:
  assumes env: "coherent s" "fs_ok s" "blocks_fit (part s)" "tree_ok s"
  shows "chain s 0 cs i \<Longrightarrow> same_open s s' \<Longrightarrow> memory_for (n + 4 * length cs) s' \<Longrightarrow> length (pth @ path_of (rev cs)) < MAX_PATH_LEN \<Longrightarrow>
    \<exists>s2. cwd_loop s' i pth = Some (Inr (Some (pth @ path_of (rev cs)), s2)) \<and> same_open s s2 \<and> memory_for n s2"
proof (induction cs arbitrary: i s' n pth rule: rev_induct)
  case Nil
  then show ?case by (auto simp: cwd_loop.simps [of s'])
next
  case (snoc c cs)
  then obtain r where r: "chain s 0 cs r" "chain s r [c] i" by (auto simp: chain_snoc)
  then obtain e where e: "find (\<lambda>e. entry_name e = c) (entries_of s r) = Some e" "linked s r e" "de_i_no e = i"
    by (auto split: option.splits)
  have name: "entry_name e = c" using e(1) by (auto simp: find_Some_iff)
  have i: "i \<noteq> 0" using e(2,3) by (simp add: linked_def)
  have dirs: "disk_dir_ok s i" "disk_dir_ok s r"
    using env(4) chain_reach [OF snoc.prems(1) reach_root] chain_reach [OF r(1) reach_root] by (simp_all add: tree_ok_def)
  have env': "coherent x" "fs_ok x" "blocks_fit (part x)" "linked x r e" "disk_dir_ok x i" "disk_dir_ok x r" if "same_open s x" for x
  proof -
    have st: "stable s x" using that by (simp add: same_open_def)
    show "coherent x" by (rule same_open_coherent [OF env(1) that])
    show "fs_ok x" "blocks_fit (part x)" "linked x r e" "disk_dir_ok x i" "disk_dir_ok x r"
      using env(2,3) e(2) dirs by (simp_all add: stable_disk [OF st] same_disk_linked [OF stable_same_disk [OF st]])
  qed
  note a = env' [OF snoc.prems(2)]
  have "n + 4 * length (cs @ [c]) = n + 4 * length cs + 2 + 2" by simp
  then have "memory_for (n + 4 * length cs + 2 + 2) s'" using snoc.prems(3) by metis
  from get_parent_linked [OF a(1-4) _ a(6) this] a(5) e(3) obtain s1 where
    s1: "get_parent_dir_i_no s' i = Inr (r, s1)" "same_open s' s1" "memory_for (n + 4 * length cs + 2) s1" by auto
  have same1: "same_open s s1" by (rule same_open_trans [OF snoc.prems(2) s1(2)])
  note b = env' [OF same1]
  have "length (pth @ slash # entry_name e) < MAX_PATH_LEN" using snoc.prems(4) name by simp
  from get_child_linked [OF b(1-4) b(6) this s1(3)] e(3) name obtain s2 where
    s2: "get_child_dir_name s1 r i pth = Inr (Some (pth @ slash # c), s2)" "same_open s1 s2" "memory_for (n + 4 * length cs) s2" by auto
  have "cwd_loop s' i pth = cwd_loop s2 r (pth @ slash # c)"
    using i s1(1) s2(1) by (simp add: cwd_loop.simps [of s' i])
  then show ?case
    using snoc.IH [OF r(1) same_open_trans [OF same1 s2(2)] s2(3), of "pth @ slash # c"] snoc.prems(4) by simp
qed

lemma basename_snoc: "slash \<notin> set c \<Longrightarrow> basename (p @ slash # c) = c"
  by (simp add: basename_def) (subst takeWhile_append2, auto)

lemma length_path_of_rev [simp]: "length (path_of (rev cs)) = length (path_of cs)"
  by (induction cs) simp_all

lemma reverse_path_rev:
  "\<forall>c \<in> set cs. slash \<notin> set c \<Longrightarrow> length (buf @ path_of cs) < sz \<Longrightarrow> reverse_path (path_of (rev cs)) buf sz = Inr (buf @ path_of cs)"
proof (induction cs arbitrary: buf)
  case (Cons c cs)
  then have "basename (path_of (rev cs) @ slash # c) = c" by (simp add: basename_snoc)
  then show ?case using Cons by (simp add: reverse_path.simps [of "_ @ _ # _"])
qed (simp add: reverse_path.simps [of "[]"])

lemma components_path_of:
  assumes "\<forall>c \<in> set cs. c \<noteq> [] \<and> slash \<notin> set c" "cs \<noteq> []"
  shows "components (path_of cs) = cs"
proof -
  have "path_of cs = join cs" using assms(2) by (simp add: join_def)
  then show ?thesis using components_join [of cs] assms(1) by (simp add: names_ok_def)
qed

lemma components_dots: "components [slash, dot] = [[dot]]" "components [slash, dot, dot] = [[dot, dot]]"
  by (subst tokens.simps, simp del: tokens_sep)+

text \<open>
  C27: In a tree whose directories are linked in both directions, the current directory is where \<open>sys_chdir\<close> has put it: after
  changing to the path with the names \<open>cs\<close>, \<open>sys_getcwd\<close> climbs from the new directory to the root and writes
  that path into its buffer. Both calls give back what they open and allocate.
\<close>

theorem sys_getcwd_after_chdir:
  assumes env: "coherent s" "fs_ok s" "blocks_fit (part s)" "tree_ok s" and cs: "cs \<noteq> []" "chain s 0 cs i"
    and names: "\<forall>c \<in> set cs. c \<noteq> [] \<and> slash \<notin> set c \<and> 0 \<notin> set c \<and> length c < MAX_FILE_NAME_LEN \<and> c \<noteq> [dot] \<and> c \<noteq> [dot, dot]"
    and len: "length (path_of cs) < MAX_PATH_LEN" "length (path_of cs) < sz" and mem: "memory_for (9 * length cs + 4) s"
  shows "\<exists>s1 s2. sys_chdir s (path_of cs) e = Inr (0, s1) \<and> sys_getcwd s1 sz = Inr (Some (path_of cs), s2) \<and>
    same_open (s\<lparr>fsys.cwd_inode_nr := i\<rparr>) s2"
proof -
  let ?p = "path_of cs" and ?s = "s\<lparr>fsys.cwd_inode_nr := i\<rparr>"
  obtain c r where cr: "cs = c # r" using cs(1) by (cases cs) auto
  then have p: "?p = slash # c @ path_of r" "0 \<notin> set ?p" using names by auto
  have comp: "components ?p = cs" using components_path_of names cs(1) by blast
  have no_dots: "?p \<noteq> [slash, dot]" "?p \<noteq> [slash, dot, dot]"
    using comp names components_dots by (metis list.set_intros(1))+
  obtain par where w: "walk s [] 0 0 (components ?p) = (At_dir, par, i, cs)"
    using chain_walk [OF cs(2), of "[]" 0] comp by auto
  have dir: "disk_dir_ok s i" using env(4) chain_reach [OF cs(2) reach_root] by (simp add: tree_ok_def)
  then have i: "i < 4096" by (simp add: disk_dir_ok_def)
  then have "i \<noteq> - 1" by auto
  moreover have "memory_for (4 * length cs + 1 + 5 * length (components ?p) + 3) s" using mem by (simp add: comp add.commute)
  ultimately
  obtain s1 where
    s1: "sys_chdir s ?p e = Inr (0, s1)" "same_open ?s s1" "memory_for (4 * length cs + 1) s1"
    using sys_chdir_walk [OF env p(1,2) len(1) _ _ _ _ _ w, of "4 * length cs + 1" e] names no_dots cs(1) by (auto simp: comp)
  have st: "stable ?s s1" "fsys.cwd_inode_nr s1 = i" using s1(2) by (simp_all add: same_open_def stable_def)
  obtain io as where ans: "answers s1 = io # as" using s1(3) by (cases "answers s1") (auto simp: memory_for_def)
  let ?s2 = "s1\<lparr>answers := as, live := io # live s1\<rparr>"
  have io: "io \<noteq> NULL" "memory_for (0 + 4 * length cs) ?s2" using s1(3) ans by (auto simp: memory_for_def)
  have env2: "coherent ?s2" "fs_ok ?s2" "blocks_fit (part ?s2)" "tree_ok ?s2" "chain ?s2 0 cs i"
  proof -
    have d: "same_disk s ?s2" using s1(2) by (simp add: same_open_def stable_def same_disk_def)
    have "coherent s1" using same_open_coherent [OF _ s1(2)] env(1) by (simp add: coherent_more)
    then show "coherent ?s2" by (simp add: coherent_more)
    show "fs_ok ?s2" "blocks_fit (part ?s2)" using env(2,3) by (simp_all only: same_disk [OF d])
    show "tree_ok ?s2" by (rule same_disk_tree_ok [OF d env(4)])
    show "chain ?s2 0 cs i" using cs(2) by (simp only: same_disk_chain [OF d])
  qed
  have "i \<noteq> 0"
  proof -
    obtain l c where "cs = l @ [c]" using cs(1) by (cases cs rule: rev_cases) auto
    then show ?thesis using cs(2) by (auto simp: chain_snoc linked_def split: option.splits)
  qed
  obtain s3 where s3: "cwd_loop ?s2 i [] = Some (Inr (Some (path_of (rev cs)), s3))" "same_open ?s2 s3"
    using cwd_loop_chain [OF env2 same_open_refl io(2), of "[]"] len(1) by auto
  have "reverse_path (path_of (rev cs)) [] sz = Inr ?p" using reverse_path_rev [of cs "[]" sz] names len(2) by simp
  then have "sys_getcwd s1 sz = Inr (Some ?p, s3\<lparr>live := remove1 io (live s3)\<rparr>)"
    using ans io(1) i st(2) s3(1) len(2) \<open>i \<noteq> 0\<close> by (simp add: sys_getcwd_def fs_malloc_def fs_free_def)
  moreover have "same_open ?s (s3\<lparr>live := remove1 io (live s3)\<rparr>)"
    using s1(2) s3(2) by (simp add: same_open_def stable_def)
  ultimately show ?thesis using s1(1) by blast
qed

section \<open>A sector with given entries\<close>

definition sector_of :: "dir_entry list \<Rightarrow> u8 list" where
  "sector_of es = concat (map entry_bytes es) @ replicate (512 - sizeof_dir_entry * length es) 0"

lemma length_entries:
  "\<forall>e \<in> set es. length (filename e) = name_len \<Longrightarrow> length (concat (map entry_bytes es)) = sizeof_dir_entry * length es"
  by (induction es) simp_all

lemma sub_entries:
  "\<forall>e \<in> set es. length (filename e) = name_len \<Longrightarrow> j < length es \<Longrightarrow>
     sub (concat (map entry_bytes es) @ z) (sizeof_dir_entry * j) sizeof_dir_entry = entry_bytes (es ! j)"
proof (induction es arbitrary: j)
  case (Cons e es)
  have e: "length (entry_bytes e) = sizeof_dir_entry" using Cons.prems(1) by simp
  show ?case
  proof (cases j)
    case 0
    then show ?thesis by (simp add: sub_def e)
  next
    case (Suc k)
    then have "drop (sizeof_dir_entry * j) (entry_bytes e @ concat (map entry_bytes es) @ z) =
        drop (sizeof_dir_entry * k) (concat (map entry_bytes es) @ z)" by (simp add: e)
    then show ?thesis using Cons Suc by (simp add: sub_def)
  qed
qed simp

lemma entry_at_sector_of:
  assumes es: "\<forall>e \<in> set es. length (filename e) = name_len" "length es \<le> 21" and j: "j < 21"
  shows "entry_at (sector_of es) j = (if j < length es then es ! j else free_entry)"
proof -
  have l: "length (concat (map entry_bytes es)) = sizeof_dir_entry * length es" by (rule length_entries [OF es(1)])
  then have len: "length (sector_of es) = 512" using es(2) by (simp add: sector_of_def sizeof_dir_entry_def)
  have fit: "sizeof_dir_entry * j + sizeof_dir_entry \<le> length (sector_of es)" using j by (simp add: len sizeof_dir_entry_def)
  have "sub (sector_of es) (sizeof_dir_entry * j) sizeof_dir_entry = entry_bytes (if j < length es then es ! j else free_entry)"
  proof (cases "j < length es")
    case True
    then show ?thesis using sub_entries [OF es(1) True] by (simp add: sector_of_def)
  next
    case False
    then show ?thesis
      using j l by (simp add: sub_def sector_of_def free_entry_bytes sizeof_dir_entry_def)
  qed
  moreover have "length (filename (if j < length es then es ! j else free_entry)) = name_len"
    using es(1) by (simp add: free_entry_def)
  ultimately show ?thesis using entry_at_sub [OF fit] entry_bytes_at by (auto simp: split: if_splits)
qed

lemma length_sector_of:
  "\<forall>e \<in> set es. length (filename e) = name_len \<Longrightarrow> length es \<le> 21 \<Longrightarrow> length (sector_of es) = 512"
  using length_entries [of es] by (simp add: sector_of_def sizeof_dir_entry_def)

lemma sector_entries_of:
  assumes es: "\<forall>e \<in> set es. entry_ok e" "length es \<le> 21"
  shows "sector_entries (sector_of es) = es" "blank_free (sector_of es)"
proof -
  have e: "\<forall>e \<in> set es. length (filename e) = name_len" using es(1) by (simp add: entry_ok_def)
  note at = entry_at_sector_of [OF e es(2)]
  have "filter (\<lambda>i. f_type (entry_at (sector_of es) i) \<noteq> FT_UNKOWN) [0..<21] = filter (\<lambda>i. i < length es) [0..<21]"
    by (rule filter_cong) (use at es(1) in \<open>auto simp: free_entry_def entry_ok_def\<close>)
  also have "\<dots> = [0..<length es]"
  proof -
    have "[0..<21] = [0..<length es] @ [length es..<21]" using es(2) upt_add_eq_append [of 0 "length es" "21 - length es"] by simp
    then show ?thesis by simp
  qed
  finally have "sector_entries (sector_of es) = map (entry_at (sector_of es)) [0..<length es]"
    by (simp only: sector_entries_def)
  also have "\<dots> = es" by (rule nth_equalityI) (use at es(2) in simp_all)
  finally show "sector_entries (sector_of es) = es" .
  show "blank_free (sector_of es)"
    using at es by (auto simp: blank_free_def entry_ok_def) (simp add: free_entry_def entry_name_def name_len_def)
qed

lemma slots_sector_of:
  assumes "\<forall>e \<in> set es. length (filename e) = name_len" "length es \<le> 21"
  shows "map (entry_at (sector_of es)) [0..<21] = es @ replicate (21 - length es) free_entry"
  by (rule nth_equalityI) (use assms entry_at_sector_of [OF assms] in \<open>simp_all add: nth_append\<close>)

text \<open>The first six i-nodes lie in the first sector of the table.\<close>

lemma slot_first:
  assumes "fs_ok s" "j < 6"
  shows "slot s j = sub (sectors s (inode_table_lba (sb (part s)))) (76 * j) 76"
proof -
  have len: "\<And>a. length (sectors s a) = 512" using assms(1) by (simp add: fs_ok_def disk_ok_def)
  have "sub (itable s) 0 512 = sectors s (inode_table_lba (sb (part s)))"
    using image_sub [of "sectors s" 0 1 608 "inode_table_lba (sb (part s))", OF len] by (simp add: itable_def disk_image_def)
  then show ?thesis using assms(2) sub_sub [of "76 * j" 76 512 "itable s" 0] by (simp add: slot_def)
qed

section \<open>Examples\<close>

theorem sys_lseek_moves_witness:
  "sys_lseek (demo_files\<lparr>fd_local := [0, 1, 2, 3, - 1, - 1, - 1, - 1]\<rparr>) 3 (- 100) SEEK_END =
     Inr (500, upd_file (demo_files\<lparr>fd_local := [0, 1, 2, 3, - 1, - 1, - 1, - 1]\<rparr>) 3 (\<lambda>f. f\<lparr>fd_pos := 500\<rparr>))"
proof -
  have "sint (- 100 :: u32) = - 100" by simp
  then show ?thesis
    using sys_lseek_moves [of 3 "demo_files\<lparr>fd_local := [0, 1, 2, 3, - 1, - 1, - 1, - 1]\<rparr>" 3 SEEK_END "file_table demo_files ! 3" 600 0 "- 100"]
    by (simp add: MAX_FILES_OPEN_PER_PROC_def MAX_FILES_OPEN_def demo_files_fields seek_target_def SEEK_END_def SEEK_SET_def SEEK_CUR_def)
qed

text \<open>A tree with the directory \<^verbatim>\<open>/d\<close>, which has i-node 1 and block 714.\<close>

definition demo_root :: "dir_entry list" where
  "demo_root = [demo_entry [dot] 0 FT_DIR, demo_entry [dot, dot] 0 FT_DIR, demo_entry [0x64] 1 FT_DIR]"

definition demo_sub :: "dir_entry list" where
  "demo_sub = [demo_entry [dot] 1 FT_DIR, demo_entry [dot, dot] 0 FT_DIR]"

definition root_inode :: inode where
  "root_inode = (inode_init 0)\<lparr>i_size := 72, i_sectors := 713 # replicate 12 0\<rparr>"

definition sub_inode :: inode where
  "sub_inode = (inode_init 1)\<lparr>i_size := 48, i_sectors := 714 # replicate 12 0\<rparr>"

definition demo_deep :: fsys where
  "demo_deep = demo_tree\<lparr>sectors := (\<lambda>_. replicate 512 0)(713 := sector_of demo_root, 714 := sector_of demo_sub,
       104 := overlay (overlay (replicate 512 0) 0 (inode_bytes root_inode)) 76 (inode_bytes sub_inode)),
     fmem := (\<lambda>_. 0)(0x1000 := 6), inodes := (\<lambda>_. root_inode\<lparr>i_open_cnt := 1\<rparr>),
     answers := map (\<lambda>i. 0x1000 + of_nat (0x100 * i)) [0..<13]\<rparr>"

lemma demo_deep_fields:
  "part demo_deep = demo_part\<lparr>open_inodes := [0x100]\<rparr>" "fmem demo_deep = (\<lambda>_. 0)(0x1000 := 6)"
  "inodes demo_deep = (\<lambda>_. root_inode\<lparr>i_open_cnt := 1\<rparr>)"
  "sectors demo_deep 713 = sector_of demo_root" "sectors demo_deep 714 = sector_of demo_sub" "dirs demo_deep = dirs demo_dir"
  "sectors demo_deep 104 = overlay (overlay (replicate 512 0) 0 (inode_bytes root_inode)) 76 (inode_bytes sub_inode)"
  "answers demo_deep = map (\<lambda>i. 0x1000 + of_nat (0x100 * i)) [0..<13]"
  by (simp_all add: demo_deep_def demo_tree_fields)

lemma demo_deep_es: "\<forall>e \<in> set demo_root. entry_ok e" "length demo_root \<le> 21" "\<forall>e \<in> set demo_sub. entry_ok e" "length demo_sub \<le> 21"
  by (simp_all add: demo_root_def demo_sub_def entry_ok_def name_len_def FT_UNKOWN_def FT_DIR_def)

lemma demo_deep_bytes: "length (inode_bytes root_inode) = 76" "length (inode_bytes sub_inode) = 76"
  by (simp_all add: root_inode_def sub_inode_def length_inode_bytes)

lemma demo_deep_ok: "fs_ok demo_deep" "blocks_fit (part demo_deep)"
proof -
  have "length (sector_of demo_root) = 512" "length (sector_of demo_sub) = 512"
    using demo_deep_es by (auto intro!: length_sector_of simp: entry_ok_def)
  then show "fs_ok demo_deep" "blocks_fit (part demo_deep)"
    using demo_tree_ok demo_deep_bytes
    by (simp_all add: fs_ok_def disk_ok_def demo_deep_def layout_ok_def blocks_fit_def demo_tree_fields)
qed

lemma demo_deep_inodes: "disk_inode demo_deep 0 = root_inode" "disk_inode demo_deep 1 = sub_inode"
proof -
  let ?z = "overlay (replicate 512 0) 0 (inode_bytes root_inode)"
  have "slot demo_deep 0 = inode_bytes root_inode"
    using slot_first [OF demo_deep_ok(1), of 0] sub_overlay_other [of 76 "inode_bytes sub_inode" ?z 0 76]
      sub_overlay_same [of 0 "inode_bytes root_inode" "replicate 512 0"] demo_deep_bytes
    by (simp add: demo_deep_fields demo_part_def demo_super_def)
  moreover have "slot demo_deep 1 = inode_bytes sub_inode"
    using slot_first [OF demo_deep_ok(1), of 1] sub_overlay_same [of 76 "inode_bytes sub_inode" ?z] demo_deep_bytes
    by (simp add: demo_deep_fields demo_part_def demo_super_def)
  moreover have "length (i_sectors root_inode) = 13" "length (i_sectors sub_inode) = 13"
    by (simp_all add: root_inode_def sub_inode_def)
  ultimately show "disk_inode demo_deep 0 = root_inode" "disk_inode demo_deep 1 = sub_inode"
    by (simp_all add: disk_inode_def inode_bytes_roundtrip)
qed

lemma demo_deep_dirs:
  "ino_blocks demo_deep 0 = [713]" "ino_blocks demo_deep 1 = [714]"
  "entries_of demo_deep 0 = demo_root" "entries_of demo_deep 1 = demo_sub"
proof -
  show b: "ino_blocks demo_deep 0 = [713]" "ino_blocks demo_deep 1 = [714]"
    by (simp_all add: ino_blocks_def demo_deep_inodes root_inode_def sub_inode_def)
  show "entries_of demo_deep 0 = demo_root" "entries_of demo_deep 1 = demo_sub"
    using sector_entries_of [OF demo_deep_es(1,2)] sector_entries_of [OF demo_deep_es(3,4)]
    by (simp_all add: entries_of_def b demo_deep_fields)
qed

lemma demo_deep_tree: "tree_ok demo_deep"
proof -
  have "i = 0 \<or> i = 1" if "reach demo_deep i" for i
    using that by induction (auto simp: demo_deep_dirs demo_root_def demo_sub_def)
  moreover have "blocks_ok demo_deep [713]" "blocks_ok demo_deep [714]"
    by (auto simp: blocks_ok_def used_block_def block_addr_def free_blocks_of_def demo_deep_fields demo_part_def demo_super_def
      bm_len_def bm_bit_def intro: exI [of _ 1] exI [of _ 2])
  then have "disk_dir_ok demo_deep 0" "disk_dir_ok demo_deep 1"
    using sector_entries_of(2) [OF demo_deep_es(1,2)] sector_entries_of(2) [OF demo_deep_es(3,4)]
    by (simp_all add: disk_dir_ok_def demo_deep_dirs demo_deep_inodes demo_deep_fields dsize_def demo_part_def demo_super_def)
      (simp_all add: root_inode_def sub_inode_def inode_init_def demo_root_def demo_sub_def)
  ultimately show ?thesis by (auto simp: tree_ok_def)
qed

lemma demo_deep_coherent: "coherent demo_deep"
proof -
  have "i_no root_inode = 0" by (simp add: root_inode_def inode_init_def)
  then show ?thesis by (simp add: coherent_def demo_deep_fields agrees_def demo_dir_fields demo_deep_inodes)
qed

theorem sys_getcwd_after_chdir_witness:
  "\<exists>s1 s2. sys_chdir demo_deep [slash, 0x64] free_entry = Inr (0, s1) \<and> sys_getcwd s1 64 = Inr (Some [slash, 0x64], s2) \<and>
     same_open (demo_deep\<lparr>fsys.cwd_inode_nr := 1\<rparr>) s2"
proof -
  let ?d = "demo_entry [0x64] 1 FT_DIR"
  have up: "entry_at (sector_of demo_sub) (Suc 0) = demo_entry [dot, dot] 0 FT_DIR"
    using entry_at_sector_of [of demo_sub 1] demo_deep_es by (simp add: entry_ok_def) (simp add: demo_sub_def)
  have "slots_of demo_deep 0 = demo_root @ replicate 18 free_entry"
    using slots_sector_of [of demo_root] demo_deep_es
    by (simp add: slots_of_def demo_deep_dirs demo_deep_fields entry_ok_def del: upt_Suc) (simp add: demo_root_def)
  then have "find (\<lambda>x. de_i_no x = 1) (slots_of demo_deep 0) = Some ?d"
    by (simp add: demo_root_def)
  then have "linked demo_deep 0 ?d"
    by (simp add: linked_def demo_deep_inodes demo_deep_dirs demo_deep_fields)
      (simp add: sub_inode_def demo_deep_fields up, simp add: demo_entry_def name_len_def overlay_def)
  then have "chain demo_deep 0 [[0x64]] 1"
    by (simp add: demo_deep_dirs) (simp add: demo_root_def demo_entry_name name_len_def)
  moreover have "memory_for 13 demo_deep"
    by (simp add: memory_for_def demo_deep_fields root_dir_def upt_rec)
  ultimately show ?thesis
    using sys_getcwd_after_chdir [OF demo_deep_coherent demo_deep_ok demo_deep_tree, of "[[0x64]]" 1 64 free_entry]
    by (simp add: MAX_FILE_NAME_LEN_def MAX_PATH_LEN_def)
qed

end
