(* ===== verification/Paging.thy ===== *)
theory Paging
  imports Kstate
begin

unbundle bit_operations_syntax

text \<open>
  Two-level paging as the kernel uses it: the address arithmetic of \<^verbatim>\<open>kernel/memory.c\<close>
  (\<open>PDE_INDEX\<close>, \<open>PTE_INDEX\<close>, \<open>pte_ptr\<close>, \<open>pde_ptr\<close>, \<open>addr_v2p\<close>,
  \<open>page_table_pte_remove\<close>), \<open>page_dir_activate\<close> and \<open>process_activate\<close> of
  \<^verbatim>\<open>user/process.c\<close> and \<open>update_tss_esp\<close> of \<^verbatim>\<open>kernel/tss.c\<close>. \<open>mmu_walk\<close> is the
  translation the processor makes; an access to an unmapped address is a \<open>Fault\<close>. The main
  lemmas say that the pointers the kernel computes through the last directory entry, which
  maps the directory itself, reach exactly the entries the processor reads.
\<close>

section \<open>The processor\<close>

definition PG_P_1 :: u32 where
  "PG_P_1 = 1"

definition PG_RW_W :: u32 where
  "PG_RW_W = 2"

definition PG_US_U :: u32 where
  "PG_US_U = 4"

definition mmu_walk :: "kernel \<Rightarrow> u32 \<Rightarrow> u32 option" where
  "mmu_walk k va =
     (let pde = pmem k ((cr3 k AND 0xfffff000) + push_bit 2 (drop_bit 22 va))
      in if \<not> bit pde 0 then None
         else let pte = pmem k ((pde AND 0xfffff000) + push_bit 2 (take_bit 10 (drop_bit 12 va)))
              in if \<not> bit pte 0 then None
                 else Some ((pte AND 0xfffff000) + take_bit 12 va))"

definition vread32 :: "kernel \<Rightarrow> u32 \<Rightarrow> u32 kres" where
  "vread32 k va =
     (case mmu_walk k va of None \<Rightarrow> Inl (Fault ''page fault'') | Some pa \<Rightarrow> Inr (pmem k pa))"

definition vwrite32 :: "kernel \<Rightarrow> u32 \<Rightarrow> u32 \<Rightarrow> kernel kres" where
  "vwrite32 k va v =
     (case mmu_walk k va of None \<Rightarrow> Inl (Fault ''page fault'')
      | Some pa \<Rightarrow> Inr (k\<lparr>pmem := (pmem k)(pa := v)\<rparr>))"

section \<open>The kernel's pointers into the page tables\<close>

definition PDE_INDEX :: "u32 \<Rightarrow> u32" where
  "PDE_INDEX addr = drop_bit 22 (addr AND 0xffc00000)"

definition PTE_INDEX :: "u32 \<Rightarrow> u32" where
  "PTE_INDEX addr = drop_bit 12 (addr AND 0x003ff000)"

definition pte_ptr :: "u32 \<Rightarrow> u32" where
  "pte_ptr vaddr = 0xffc00000 + drop_bit 10 (vaddr AND 0xffc00000) + PTE_INDEX vaddr * 4"

definition pde_ptr :: "u32 \<Rightarrow> u32" where
  "pde_ptr vaddr = 0xfffff000 + PDE_INDEX vaddr * 4"

definition addr_v2p :: "kernel \<Rightarrow> u32 \<Rightarrow> u32 kres" where
  "addr_v2p k vaddr =
     bnd (vread32 k (pte_ptr vaddr)) (\<lambda>pte. Inr ((pte AND 0xfffff000) + (vaddr AND 0x00000fff)))"

text \<open>
  The \<open>invlpg\<close> that follows has no effect here: the model has no TLB.
\<close>

definition page_table_pte_remove :: "kernel \<Rightarrow> u32 \<Rightarrow> kernel kres" where
  "page_table_pte_remove k vaddr =
     (let pte = pte_ptr vaddr
      in bnd (vread32 k pte) (\<lambda>v. vwrite32 k pte (v AND NOT PG_P_1)))"

definition page_dir_activate :: "kernel \<Rightarrow> u32 \<Rightarrow> kernel kres" where
  "page_dir_activate k pthread =
     bnd (if pgdir (tasks k pthread) \<noteq> NULL then addr_v2p k (pgdir (tasks k pthread))
          else Inr 0x100000) (\<lambda>page_phy_addr.
       Inr (k\<lparr>cr3 := page_phy_addr\<rparr>))"

definition update_tss_esp :: "kernel \<Rightarrow> u32 \<Rightarrow> kernel" where
  "update_tss_esp k pthread = k\<lparr>tss := (tss k)\<lparr>tss_esp0 := pthread + PG_SIZE\<rparr>\<rparr>"

definition process_activate :: "kernel \<Rightarrow> u32 \<Rightarrow> kernel kres" where
  "process_activate k pthread =
     bnd (ASSERT (pthread \<noteq> NULL) ''pthread != NULL'') (\<lambda>_.
     bnd (page_dir_activate k pthread) (\<lambda>k.
       Inr (if pgdir (tasks k pthread) \<noteq> NULL then update_tss_esp k pthread else k)))"

section \<open>Address arithmetic\<close>

lemma page_masks:
  "(0xffc00000 :: u32) = push_bit 22 (mask 10)" "(0x003ff000 :: u32) = push_bit 12 (mask 10)"
  "(0xfffff000 :: u32) = push_bit 12 (mask 20)" "(0x00000fff :: u32) = mask 12"
  by (simp_all add: mask_eq_exp_minus_1)

lemma PDE_INDEX_drop: "PDE_INDEX va = drop_bit 22 va"
  unfolding PDE_INDEX_def page_masks by (rule bit_eqI) (auto simp: bit_simps dest: bit_imp_le_length)

lemma PTE_INDEX_take: "PTE_INDEX va = take_bit 10 (drop_bit 12 va)"
  unfolding PTE_INDEX_def page_masks by (rule bit_eqI) (auto simp: bit_simps ac_simps)

lemma times_4: "(x::u32) * 4 = push_bit 2 x"
  by (simp add: push_bit_eq_mult)

lemma bit_pte_ptr:
  "bit (pte_ptr va) n \<longleftrightarrow>
     n < 32 \<and> (if n < 2 then False else if n < 12 then bit va (n + 10)
              else if n < 22 then bit va (n + 10) else True)"
proof -
  have "pte_ptr va = push_bit 22 (mask 10) + push_bit 12 (take_bit 10 (drop_bit 22 va)) +
      push_bit 2 (take_bit 10 (drop_bit 12 va))"
  proof -
    have "drop_bit 10 (va AND push_bit 22 (mask 10)) = push_bit 12 (take_bit 10 (drop_bit 22 va))"
      by (rule bit_eqI) (auto simp: bit_simps dest: bit_imp_le_length)
    then show ?thesis unfolding pte_ptr_def PTE_INDEX_take times_4 page_masks by simp
  qed
  also have "\<dots> = push_bit 22 (mask 10) OR push_bit 12 (take_bit 10 (drop_bit 22 va)) OR
      push_bit 2 (take_bit 10 (drop_bit 12 va))"
  proof -
    have "push_bit 22 (mask 10) AND push_bit 12 (take_bit 10 (drop_bit 22 va)) = 0"
      by (rule bit_eqI) (auto simp: bit_simps)
    moreover have "(push_bit 22 (mask 10) OR push_bit 12 (take_bit 10 (drop_bit 22 va))) AND
        push_bit 2 (take_bit 10 (drop_bit 12 va)) = 0"
      by (rule bit_eqI) (auto simp: bit_simps)
    ultimately show ?thesis by (simp add: disjunctive_add_eq_or or.assoc)
  qed
  finally show ?thesis by (auto simp: bit_simps ac_simps dest: bit_imp_le_length)
qed

lemma bit_pde_ptr:
  "bit (pde_ptr va) n \<longleftrightarrow>
     n < 32 \<and> (if n < 2 then False else if n < 12 then bit va (n + 20) else True)"
proof -
  have "push_bit 12 (mask 20) AND push_bit 2 (drop_bit 22 va) = 0"
    by (rule bit_eqI) (auto simp: bit_simps dest: bit_imp_le_length)
  then have "pde_ptr va = push_bit 12 (mask 20) OR push_bit 2 (drop_bit 22 va)"
    unfolding pde_ptr_def PDE_INDEX_drop times_4 page_masks by (simp add: disjunctive_add_eq_or)
  then show ?thesis by (auto simp: bit_simps ac_simps dest: bit_imp_le_length)
qed

text \<open>A page frame address with an offset below the page size.\<close>

abbreviation page_of :: "u32 \<Rightarrow> u32" where
  "page_of x \<equiv> x AND 0xfffff000"

lemma bit_page_of: "bit (page_of x) n \<longleftrightarrow> bit x n \<and> 12 \<le> n"
  unfolding page_masks by (auto simp: bit_simps dest: bit_imp_le_length)

lemma bit_offset: "take_bit 12 r = (r::u32) \<Longrightarrow> bit r n \<Longrightarrow> n < 12"
  by (metis bit_take_bit_iff)

lemma page_add_or: "take_bit 12 r = r \<Longrightarrow> page_of p + r = page_of p OR (r::u32)"
  by (rule disjunctive_add_eq_or, rule bit_eqI)
    (auto simp: bit_page_of bit_and_iff [of "page_of p" r] dest: bit_offset)

lemma page_add_page: "take_bit 12 r = r \<Longrightarrow> page_of (page_of p + r) = page_of (p::u32)"
  unfolding page_add_or by (rule bit_eqI) (auto simp: bit_page_of bit_or_iff dest: bit_offset)

lemma page_add_offset: "take_bit 12 r = r \<Longrightarrow> take_bit 12 (page_of p + r) = (r::u32)"
  unfolding page_add_or
  by (rule bit_eqI) (auto simp: bit_page_of bit_or_iff bit_take_bit_iff dest: bit_offset)

lemma page_add_inj:
  assumes "take_bit 12 r = (r::u32)" "take_bit 12 r' = r'"
  shows "page_of p + r = page_of p' + r' \<longleftrightarrow> page_of p = page_of p' \<and> r = r'"
  using page_add_page [OF assms(1), of p] page_add_page [OF assms(2), of p']
    page_add_offset [OF assms(1), of p] page_add_offset [OF assms(2), of p'] by metis

definition pde_off :: "u32 \<Rightarrow> u32" where
  "pde_off va = push_bit 2 (drop_bit 22 va)"

definition pte_off :: "u32 \<Rightarrow> u32" where
  "pte_off va = push_bit 2 (take_bit 10 (drop_bit 12 va))"

lemma off_take [simp]: "take_bit 12 (pde_off va) = pde_off va" "take_bit 12 (pte_off va) = pte_off va"
  unfolding pde_off_def pte_off_def
  by (rule bit_eqI; auto simp: bit_simps dest: bit_imp_le_length)+

lemma pte_ptr_offs:
  "pde_off (pte_ptr va) = 4092" "pte_off (pte_ptr va) = pde_off va"
  "take_bit 12 (pte_ptr va) = pte_off va"
proof -
  have n: "(4092 :: u32) = push_bit 2 (mask 10)" by (simp add: mask_eq_exp_minus_1)
  show "pde_off (pte_ptr va) = 4092"
    unfolding pde_off_def n
    by (rule bit_eqI) (auto simp: bit_simps bit_pte_ptr dest: bit_imp_le_length)
  show "pte_off (pte_ptr va) = pde_off va" "take_bit 12 (pte_ptr va) = pte_off va"
    unfolding pde_off_def pte_off_def
    by (rule bit_eqI; auto simp: bit_simps bit_pte_ptr ac_simps dest: bit_imp_le_length)+
qed

lemma pde_ptr_offs:
  "pde_off (pde_ptr va) = 4092" "pte_off (pde_ptr va) = 4092" "take_bit 12 (pde_ptr va) = pde_off va"
proof -
  have n: "(4092 :: u32) = push_bit 2 (mask 10)" by (simp add: mask_eq_exp_minus_1)
  show "pde_off (pde_ptr va) = 4092" "pte_off (pde_ptr va) = 4092"
    unfolding pde_off_def pte_off_def n
    by (rule bit_eqI; auto simp: bit_simps bit_pde_ptr dest: bit_imp_le_length)+
  show "take_bit 12 (pde_ptr va) = pde_off va"
    unfolding pde_off_def
    by (rule bit_eqI) (auto simp: bit_simps bit_pde_ptr ac_simps dest: bit_imp_le_length)
qed

lemma pde_off_4092: "pde_off va = 4092 \<longleftrightarrow> 0xffc00000 \<le> va"
proof -
  have "drop_bit 2 (pde_off va) = drop_bit 22 va"
    unfolding pde_off_def by (rule bit_eqI) (auto simp: bit_simps dest: bit_imp_le_length)
  then have "pde_off va = 4092 \<longleftrightarrow> drop_bit 22 va = 1023"
    by (auto simp: pde_off_def)
  also have "\<dots> \<longleftrightarrow> unat va div 2 ^ 22 = 1023"
    by (simp add: word_unat_eq_iff drop_bit_eq_div unat_div)
  also have "\<dots> \<longleftrightarrow> 0xffc00000 \<le> unat va"
    using unat_less_u32 [of va] by (simp; linarith)
  also have "\<dots> \<longleftrightarrow> 0xffc00000 \<le> va" by (simp add: word_le_nat_alt)
  finally show ?thesis .
qed

section \<open>Reaching the page tables through the self map\<close>

definition pde_addr :: "kernel \<Rightarrow> u32 \<Rightarrow> u32" where
  "pde_addr k va = page_of (cr3 k) + pde_off va"

definition pte_addr :: "kernel \<Rightarrow> u32 \<Rightarrow> u32" where
  "pte_addr k va = page_of (pmem k (pde_addr k va)) + pte_off va"

definition pde_present :: "kernel \<Rightarrow> u32 \<Rightarrow> bool" where
  "pde_present k va \<longleftrightarrow> bit (pmem k (pde_addr k va)) 0"

text \<open>The last entry of the page directory maps the directory itself.\<close>

definition self_mapped :: "kernel \<Rightarrow> bool" where
  "self_mapped k \<longleftrightarrow>
     (let e = pmem k (page_of (cr3 k) + 4092) in bit e 0 \<and> page_of e = page_of (cr3 k))"

lemma mmu_walk_eq:
  "mmu_walk k va =
     (if pde_present k va \<and> bit (pmem k (pte_addr k va)) 0
      then Some (page_of (pmem k (pte_addr k va)) + take_bit 12 va) else None)"
  by (simp add: mmu_walk_def pde_present_def pte_addr_def pde_addr_def pde_off_def pte_off_def Let_def)

lemma mmu_walk_pte_ptr:
  "self_mapped k \<Longrightarrow>
     mmu_walk k (pte_ptr va) = (if pde_present k va then Some (pte_addr k va) else None)"
  by (simp add: mmu_walk_eq pde_present_def pte_addr_def pde_addr_def pte_ptr_offs self_mapped_def Let_def)

lemma mmu_walk_pde_ptr: "self_mapped k \<Longrightarrow> mmu_walk k (pde_ptr va) = Some (pde_addr k va)"
  by (simp add: mmu_walk_eq pde_present_def pte_addr_def pde_addr_def pde_ptr_offs self_mapped_def Let_def)

lemmas pt_access = vread32_def vwrite32_def mmu_walk_pte_ptr mmu_walk_pde_ptr

lemma addr_v2p_eq:
  "self_mapped k \<Longrightarrow>
     addr_v2p k va = (if pde_present k va then Inr (page_of (pmem k (pte_addr k va)) + take_bit 12 va)
                      else Inl (Fault ''page fault''))"
  by (simp add: addr_v2p_def pt_access) (simp add: page_masks(4) take_bit_eq_mask and.commute)

text \<open>
  With the directory mapped into itself, \<open>addr_v2p\<close> of every mapped address is the
  translation the processor makes, and it page-faults exactly where there is no page table.
\<close>

theorem addr_v2p_mmu:
  assumes "self_mapped k"
  shows "(\<forall>va pa. mmu_walk k va = Some pa \<longrightarrow> addr_v2p k va = Inr pa) \<and>
         (\<forall>va. addr_v2p k va = Inl (Fault ''page fault'') \<longleftrightarrow> \<not> pde_present k va)"
  using assms by (auto simp: addr_v2p_eq mmu_walk_eq split: if_splits)

section \<open>Writing a page table entry\<close>

text \<open>Page tables proper (all but the self map) lie outside the page directory.\<close>

definition tables_ok :: "kernel \<Rightarrow> bool" where
  "tables_ok k \<longleftrightarrow> self_mapped k \<and>
     (\<forall>va. pde_present k va \<and> pde_off va \<noteq> 4092 \<longrightarrow>
        page_of (pmem k (pde_addr k va)) \<noteq> page_of (cr3 k))"

definition set_pte :: "kernel \<Rightarrow> u32 \<Rightarrow> u32 \<Rightarrow> kernel" where
  "set_pte k va v = k\<lparr>pmem := (pmem k)(pte_addr k va := v)\<rparr>"

lemma pte_not_in_dir:
  assumes "tables_ok k" "pde_present k va" "pde_off va \<noteq> 4092" "take_bit 12 r = r"
  shows "pte_addr k va \<noteq> page_of (cr3 k) + r"
  using assms by (simp add: pte_addr_def page_add_inj tables_ok_def)

lemma set_pte_dir:
  assumes "tables_ok k" "pde_present k va" "pde_off va \<noteq> 4092"
  shows "pde_addr (set_pte k va v) = pde_addr k"
    and "pmem (set_pte k va v) (pde_addr k va') = pmem k (pde_addr k va')"
    and "pte_addr (set_pte k va v) = pte_addr k"
    and "pde_present (set_pte k va v) = pde_present k"
proof -
  have ne: "pde_addr k x \<noteq> pte_addr k va" for x
    using pte_not_in_dir [OF assms, of "pde_off x"] by (simp add: pde_addr_def)
  show dir: "pde_addr (set_pte k va v) = pde_addr k" by (simp add: fun_eq_iff set_pte_def pde_addr_def)
  show same: "pmem (set_pte k va v) (pde_addr k va') = pmem k (pde_addr k va')" for va'
    using ne by (simp add: set_pte_def)
  show "pte_addr (set_pte k va v) = pte_addr k" "pde_present (set_pte k va v) = pde_present k"
    by (simp_all add: fun_eq_iff pte_addr_def pde_present_def dir same)
qed

lemma set_pte_tables_ok:
  assumes "tables_ok k" "pde_present k va" "pde_off va \<noteq> 4092"
  shows "tables_ok (set_pte k va v)"
proof -
  have "pte_addr k va \<noteq> page_of (cr3 k) + 4092"
    by (rule pte_not_in_dir [OF assms]) (simp add: take_bit_eq_mask mask_eq_exp_minus_1)
  moreover have "cr3 (set_pte k va v) = cr3 k" by (simp add: set_pte_def)
  ultimately show ?thesis
    using assms(1) by (simp add: tables_ok_def set_pte_dir [OF assms] self_mapped_def)
      (simp add: set_pte_def)
qed

lemma mmu_walk_set_pte:
  assumes "tables_ok k" "pde_present k va" "pde_off va \<noteq> 4092"
  shows "mmu_walk (set_pte k va v) va' =
           (if pde_present k va' \<and> pte_addr k va' = pte_addr k va
            then if bit v 0 then Some (page_of v + take_bit 12 va') else None
            else mmu_walk k va')"
proof -
  have "pmem (set_pte k va v) a = (if a = pte_addr k va then v else pmem k a)" for a
    by (simp add: set_pte_def)
  then show ?thesis by (simp add: mmu_walk_eq set_pte_dir [OF assms])
qed

lemma vwrite_pte:
  "self_mapped k \<Longrightarrow> pde_present k va \<Longrightarrow> vwrite32 k (pte_ptr va) v = Inr (set_pte k va v)"
  by (simp add: pt_access set_pte_def)

lemma page_table_pte_remove_eq:
  "self_mapped k \<Longrightarrow> pde_present k va \<Longrightarrow>
     page_table_pte_remove k va = Inr (set_pte k va (pmem k (pte_addr k va) AND NOT 1))"
  by (simp add: page_table_pte_remove_def vwrite_pte Let_def PG_P_1_def) (simp add: pt_access)

text \<open>
  \<open>page_table_pte_remove\<close> unmaps every address that translates through the entry of
  \<open>vaddr\<close>, leaves every other translation alone and keeps the page tables well formed.
\<close>

theorem page_table_pte_remove_unmaps:
  assumes "tables_ok k" "pde_present k vaddr" "vaddr < 0xffc00000"
  shows "\<exists>k'. page_table_pte_remove k vaddr = Inr k' \<and> tables_ok k' \<and>
           (\<forall>va. mmu_walk k' va =
              (if pde_present k va \<and> pte_addr k va = pte_addr k vaddr then None else mmu_walk k va))"
proof -
  have off: "pde_off vaddr \<noteq> 4092" using assms(3) by (simp add: pde_off_4092)
  have sm: "self_mapped k" using assms(1) by (simp add: tables_ok_def)
  show ?thesis
    unfolding page_table_pte_remove_eq [OF sm assms(2)]
    using set_pte_tables_ok [OF assms(1,2) off] mmu_walk_set_pte [OF assms(1,2) off]
    by (auto simp: bit_and_iff bit_not_iff)
qed


section \<open>The boot page tables\<close>

lemma pde_off_less: "pde_off va < 0x1000"
proof -
  have "unat (pde_off va) = unat (pde_off va) mod 2 ^ 12"
    by (metis off_take(1) unsigned_take_bit_eq take_bit_eq_mod)
  then have "unat (pde_off va) < 2 ^ 12" by (metis mod_less_divisor zero_less_numeral zero_less_power)
  then show ?thesis by (simp add: word_less_nat_alt)
qed

lemma boot_pde: "boot_pmem (0x100000 + pde_off va) =
    (if pde_off va = 0 \<or> pde_off va = 0xc00 then 0x101007 else if pde_off va = 0xffc then 0x100007 else 0)"
proof -
  have "0x100000 + pde_off va < 0x101000"
    using pde_off_less [of va] by (simp add: word_less_nat_alt unat_word_ariths)
  moreover have "0x100000 + pde_off va = 0x100c00 \<longleftrightarrow> pde_off va = 0xc00"
    "0x100000 + pde_off va = 0x100ffc \<longleftrightarrow> pde_off va = 0xffc"
    using add_left_cancel [of "0x100000 :: u32" "pde_off va" "0xc00"]
      add_left_cancel [of "0x100000 :: u32" "pde_off va" "0xffc"] by simp_all
  ultimately show ?thesis by (auto simp: boot_pmem_def linorder_not_less [symmetric])
qed

lemma boot_tables_ok: "tables_ok boot_kernel"
proof -
  have "page_of (0x100000 :: u32) = 0x100000" by simp
  moreover have "boot_pmem (0x100000 + 4092) = 0x100007" by (simp add: boot_pmem_def)
  ultimately show ?thesis
    by (auto simp: tables_ok_def self_mapped_def pde_addr_def pde_present_def boot_pde bit_1_0
        bit_numeral_rec)
qed

theorem addr_v2p_mmu_witness:
  "mmu_walk boot_kernel 0xc00b8123 = Some 0xb8123 \<and> addr_v2p boot_kernel 0xc00b8123 = Inr 0xb8123 \<and>
   addr_v2p boot_kernel 0x08048000 = Inl (Fault ''page fault'')"
proof -
  have "self_mapped boot_kernel" using boot_tables_ok by (simp add: tables_ok_def)
  from addr_v2p_mmu [OF this] have
    v2p: "\<And>va pa. mmu_walk boot_kernel va = Some pa \<Longrightarrow> addr_v2p boot_kernel va = Inr pa"
    and fault: "\<And>va. addr_v2p boot_kernel va = Inl (Fault ''page fault'') \<longleftrightarrow> \<not> pde_present boot_kernel va"
    by blast+
  have "mmu_walk boot_kernel 0xc00b8123 = Some 0xb8123"
    by (simp add: mmu_walk_def boot_pmem_def take_bit_eq_mod)
  moreover have "\<not> pde_present boot_kernel 0x08048000"
    by (simp add: pde_present_def pde_addr_def pde_off_def boot_pmem_def)
  ultimately show ?thesis using v2p fault by blast
qed

theorem page_table_pte_remove_unmaps_witness:
  "\<exists>k'. page_table_pte_remove boot_kernel 0xc0001000 = Inr k' \<and> mmu_walk k' 0xc0001234 = None \<and>
     mmu_walk k' 0xc0002234 = Some 0x2234"
proof -
  have "pde_present boot_kernel 0xc0001000"
    by (simp add: pde_present_def pde_addr_def pde_off_def boot_pmem_def)
  from page_table_pte_remove_unmaps [OF boot_tables_ok this] obtain k' where
    k': "page_table_pte_remove boot_kernel 0xc0001000 = Inr k'"
    and walk: "\<And>va. mmu_walk k' va =
      (if pde_present boot_kernel va \<and> pte_addr boot_kernel va = pte_addr boot_kernel 0xc0001000
       then None else mmu_walk boot_kernel va)" by auto
  have "mmu_walk k' 0xc0001234 = None" "mmu_walk k' 0xc0002234 = Some 0x2234"
    unfolding walk
    by (simp_all add: mmu_walk_def pte_addr_def pde_addr_def pde_off_def pte_off_def boot_pmem_def
        take_bit_eq_mod pde_present_def)
  with k' show ?thesis by blast
qed

end
