(* ===== verification/Sched.thy ===== *)
theory Sched
  imports Paging
begin

unbundle bit_operations_syntax

text \<open>
  The scheduler of \<^verbatim>\<open>kernel/thread.c\<close> (\<open>schedule\<close>, \<open>thread_yield\<close>, \<open>thread_block\<close>,
  \<open>thread_unblock\<close>), \<open>switch_to\<close> of \<^verbatim>\<open>kernel/switch.s\<close> and the timer interrupt of
  \<^verbatim>\<open>device/timer.c\<close>. A call in which the CPU goes to another thread is \<open>Yield\<close>: its
  state is the one in which the other thread goes on, with interrupts off. \<open>sched_inv\<close> is the
  invariant of the queues, states and stacks of a set of kernel threads, which have no page directory of their own; the lemmas say which
  thread runs next. With user processes in the queue \<open>schedule\<close> also loads their page directory; that step is covered
  where a parent is resumed (\<open>Waitexit\<close>), not by \<open>sched_inv\<close>.
\<close>

section \<open>Definitions\<close>

text \<open>
  The four registers \<open>switch_to\<close> pushes are below the saved stack pointer; \<open>esp\<close> is the
  stack pointer at the call.
\<close>

definition switch_to :: "kernel \<Rightarrow> u32 \<Rightarrow> u32 \<Rightarrow> kernel" where
  "switch_to k cur nxt =
     (let k = upd_task k cur (\<lambda>t. t\<lparr>self_kstack := esp k - 16\<rparr>)
      in k\<lparr>esp := self_kstack (tasks k nxt) + 16\<rparr>)"

definition thread_unblock :: "kernel \<Rightarrow> u32 \<Rightarrow> kernel kres" where
  "thread_unblock k pthread =
     (let (old_status, k) = k_intr_disable k; st = status (tasks k pthread)
      in bnd (ASSERT (st = TASK_BLOCKED \<or> st = TASK_HANGING \<or> st = TASK_WAITING) ''pthread->status'') (\<lambda>_.
         bnd (if st \<noteq> TASK_READY then
                bnd (kl_find (thread_ready_list k) pthread) (\<lambda>found.
                if found then Inl (Panic ''blocked thread in ready_list'')
                else bnd (kl_push (thread_ready_list k) pthread) (\<lambda>r.
                     Inr (upd_task (k\<lparr>thread_ready_list := r\<rparr>) pthread (\<lambda>t. t\<lparr>status := TASK_READY\<rparr>))))
              else Inr k) (\<lambda>k.
         Inr (k_intr_set_status k old_status))))"

definition schedule :: "kernel \<Rightarrow> kernel kres" where
  "schedule k =
     bnd (ASSERT (intr_get_status (flags k) = INTR_OFF) ''intr_get_status() == INTR_OFF'') (\<lambda>_.
     let cur = running_thread k
     in bnd (if status (tasks k cur) = TASK_RUNNING then
               bnd (kl_find (thread_ready_list k) cur) (\<lambda>found.
               bnd (ASSERT (\<not> found) ''!elem_find(&thread_ready_list)'') (\<lambda>_.
               bnd (kl_append (thread_ready_list k) cur) (\<lambda>r.
               Inr (upd_task (k\<lparr>thread_ready_list := r\<rparr>) cur
                      (\<lambda>t. t\<lparr>ticks := priority t, status := TASK_READY\<rparr>)))))
             else Inr k) (\<lambda>k.
        bnd (if kl_empty (thread_ready_list k) then thread_unblock k (idle_thread k) else Inr k) (\<lambda>k.
        bnd (ASSERT (\<not> kl_empty (thread_ready_list k)) ''!list_empty(&thread_ready_list)'') (\<lambda>_.
        bnd (kl_pop (thread_ready_list k)) (\<lambda>(nxt, r).
        let k = upd_task (k\<lparr>thread_ready_list := r\<rparr>) nxt (\<lambda>t. t\<lparr>status := TASK_RUNNING\<rparr>)
        in bnd (process_activate k nxt) (\<lambda>k.
           let k = switch_to k cur nxt
           in if nxt = cur then Inr k else Inl (Yield k)))))))"

definition thread_yield :: "kernel \<Rightarrow> kernel kres" where
  "thread_yield k =
     (let cur = running_thread k; (old_status, k) = k_intr_disable k
      in bnd (kl_find (thread_ready_list k) cur) (\<lambda>found.
         bnd (ASSERT (\<not> found) ''!elem_find(&thread_ready_list)'') (\<lambda>_.
         bnd (kl_append (thread_ready_list k) cur) (\<lambda>r.
         let k = upd_task (k\<lparr>thread_ready_list := r\<rparr>) cur (\<lambda>t. t\<lparr>status := TASK_READY\<rparr>)
         in bnd (schedule k) (\<lambda>k. Inr (k_intr_set_status k old_status))))))"

definition thread_block :: "kernel \<Rightarrow> task_status \<Rightarrow> kernel kres" where
  "thread_block k stat =
     bnd (ASSERT (stat = TASK_BLOCKED \<or> stat = TASK_HANGING \<or> stat = TASK_WAITING) ''stat'') (\<lambda>_.
     let (old_status, k) = k_intr_disable k;
         k = upd_task k (running_thread k) (\<lambda>t. t\<lparr>status := stat\<rparr>)
     in bnd (schedule k) (\<lambda>k. Inr (k_intr_set_status k old_status)))"

text \<open>\<open>intr_timer_handler\<close>; the gate has switched interrupts off.\<close>

definition intr_timer_handler :: "kernel \<Rightarrow> kernel kres" where
  "intr_timer_handler k =
     (let cur = running_thread k
      in bnd (ASSERT (stack_magic (tasks k cur) = 0x20000509) ''stack_magic'') (\<lambda>_.
         let k = upd_task k cur (\<lambda>t. t\<lparr>elapsed_ticks := elapsed_ticks t + 1\<rparr>);
             k = k\<lparr>kticks := kticks k + 1\<rparr>
         in if ticks (tasks k cur) = 0 then schedule k
            else Inr (upd_task k cur (\<lambda>t. t\<lparr>ticks := ticks t - 1\<rparr>))))"

section \<open>The invariant\<close>

text \<open>Every thread of \<open>T\<close> that is not running has its saved stack pointer in its own page.\<close>

definition stacks_ok :: "u32 set \<Rightarrow> kernel \<Rightarrow> bool" where
  "stacks_ok T k \<longleftrightarrow> running_thread k \<in> T \<and> NULL \<notin> T \<and>
     (\<forall>t\<in>T. t \<noteq> running_thread k \<longrightarrow> page_of (self_kstack (tasks k t) + 16) = t)"

text \<open>
  The queue discipline: \<open>c\<close> runs, \<open>r\<close> is the ready list, \<open>st\<close> the states of the
  threads \<open>T\<close>. The idle thread is runnable or blocked, never parked in another way, so
  that \<open>schedule\<close> can always fall back on it.
\<close>

definition queue_inv :: "u32 set \<Rightarrow> u32 \<Rightarrow> u32 list \<Rightarrow> (u32 \<Rightarrow> task_status) \<Rightarrow> u32 \<Rightarrow> bool" where
  "queue_inv T c r st idle \<longleftrightarrow>
     distinct (c # r) \<and> set r \<subseteq> T \<and> c \<in> T \<and> idle \<in> T \<and>
     (\<forall>t\<in>T. st t = TASK_READY \<longleftrightarrow> t \<in> set r) \<and> (\<forall>t\<in>T. st t = TASK_RUNNING \<longleftrightarrow> t = c) \<and>
     (idle \<noteq> c \<and> idle \<notin> set r \<longrightarrow> st idle = TASK_BLOCKED)"

definition statuses :: "kernel \<Rightarrow> u32 \<Rightarrow> task_status" where
  "statuses k t = status (tasks k t)"

definition sched_inv :: "u32 set \<Rightarrow> kernel \<Rightarrow> bool" where
  "sched_inv T k \<longleftrightarrow>
     stacks_ok T k \<and> (\<forall>t\<in>T. pgdir (tasks k t) = NULL) \<and>
     queue_inv T (running_thread k) (thread_ready_list k) (statuses k) (idle_thread k)"

definition blocked_status :: "task_status \<Rightarrow> bool" where
  "blocked_status s \<longleftrightarrow> s = TASK_BLOCKED \<or> s = TASK_HANGING \<or> s = TASK_WAITING"

lemma queue_inv_preempt:
  "queue_inv T c (n # r) st idle \<Longrightarrow>
     queue_inv T n (r @ [c]) (st(c := TASK_READY, n := TASK_RUNNING)) idle"
  by (auto simp: queue_inv_def)

lemma queue_inv_alone:
  "queue_inv T c [] st idle \<Longrightarrow> queue_inv T c [] (st(c := TASK_RUNNING)) idle"
  by (auto simp: queue_inv_def)

lemma queue_inv_block:
  "queue_inv T c (n # r) st idle \<Longrightarrow> blocked_status s \<Longrightarrow> (c = idle \<Longrightarrow> s = TASK_BLOCKED) \<Longrightarrow>
     queue_inv T n r (st(c := s, n := TASK_RUNNING)) idle"
  by (auto simp: queue_inv_def blocked_status_def)

lemma queue_inv_block_last:
  "queue_inv T c [] st idle \<Longrightarrow> blocked_status s \<Longrightarrow>
     queue_inv T idle [] (st(c := s, idle := TASK_RUNNING)) idle"
  by (auto simp: queue_inv_def blocked_status_def)

lemma queue_inv_unblock:
  "queue_inv T c r st idle \<Longrightarrow> t \<in> T \<Longrightarrow> blocked_status (st t) \<Longrightarrow>
     queue_inv T c (t # r) (st(t := TASK_READY)) idle"
  by (auto simp: queue_inv_def blocked_status_def)

lemmas kl_defs = kl_append_def kl_push_def kl_pop_def kl_remove_def kl_empty_def kl_find_def

lemma upd_task_simps [simp]:
  "flags (upd_task k t f) = flags k" "esp (upd_task k t f) = esp k"
  "thread_ready_list (upd_task k t f) = thread_ready_list k"
  "idle_thread (upd_task k t f) = idle_thread k" "locks (upd_task k t f) = locks k"
  "tasks (upd_task k t f) = (tasks k)(t := f (tasks k t))"
  "running_thread (upd_task k t f) = running_thread k"
  "kticks (upd_task k t f) = kticks k" "disk_done (upd_task k t f) = disk_done k"
  by (simp_all add: upd_task_def running_thread_def)

lemma running_thread_simps [simp]:
  "running_thread (k\<lparr>flags := e\<rparr>) = running_thread k"
  "running_thread (k\<lparr>thread_ready_list := r\<rparr>) = running_thread k"
  "running_thread (k\<lparr>kticks := n\<rparr>) = running_thread k"
  "running_thread (k\<lparr>cr3 := c\<rparr>) = running_thread k"
  "running_thread (k\<lparr>locks := ls\<rparr>) = running_thread k"
  "running_thread (k\<lparr>esp := s\<rparr>) = page_of s"
  "running_thread (upd_sema k p g) = running_thread k"
  by (simp_all add: running_thread_def)

lemma statuses_simps [simp]:
  "statuses (upd_task k u f) = (statuses k)(u := status (f (tasks k u)))"
  "statuses (k\<lparr>flags := e\<rparr>) = statuses k" "statuses (k\<lparr>kticks := n\<rparr>) = statuses k"
  "statuses (k\<lparr>thread_ready_list := r\<rparr>) = statuses k" "statuses (k\<lparr>locks := ls\<rparr>) = statuses k"
  "statuses (upd_sema k p g) = statuses k"
  by (simp_all add: fun_eq_iff statuses_def)

text \<open>The second half of \<open>schedule\<close>, from the choice of the next thread on.\<close>

definition dispatch :: "kernel \<Rightarrow> u32 \<Rightarrow> u32 \<Rightarrow> u32 list \<Rightarrow> kernel" where
  "dispatch k cur nxt r =
     (let k = upd_task (k\<lparr>thread_ready_list := r\<rparr>) nxt (\<lambda>t. t\<lparr>status := TASK_RUNNING\<rparr>)
      in switch_to (k\<lparr>cr3 := 0x100000\<rparr>) cur nxt)"

lemma process_activate_kernel:
  "t \<noteq> NULL \<Longrightarrow> pgdir (tasks k t) = NULL \<Longrightarrow> process_activate k t = Inr (k\<lparr>cr3 := 0x100000\<rparr>)"
  by (simp add: process_activate_def page_dir_activate_def)

lemma dispatch_simps [simp]:
  "flags (dispatch k c n r) = flags k" "thread_ready_list (dispatch k c n r) = r"
  "idle_thread (dispatch k c n r) = idle_thread k" "locks (dispatch k c n r) = locks k"
  "kticks (dispatch k c n r) = kticks k" "disk_done (dispatch k c n r) = disk_done k"
  "status (tasks (dispatch k c n r) t) = (if t = n then TASK_RUNNING else status (tasks k t))"
  "pgdir (tasks (dispatch k c n r) t) = pgdir (tasks k t)"
  "priority (tasks (dispatch k c n r) t) = priority (tasks k t)"
  "ticks (tasks (dispatch k c n r) t) = ticks (tasks k t)"
  "stack_magic (tasks (dispatch k c n r) t) = stack_magic (tasks k t)"
  "self_kstack (tasks (dispatch k c n r) t) =
     (if t = c then esp k - 16 else self_kstack (tasks k t))"
  "esp (dispatch k c n r) = (if n = c then esp k else self_kstack (tasks k n) + 16)"
  by (auto simp: dispatch_def switch_to_def Let_def)

lemma running_dispatch:
  "stacks_ok T k \<Longrightarrow> n \<in> T \<Longrightarrow> running_thread (dispatch k (running_thread k) n r) = n"
  by (auto simp: stacks_ok_def running_thread_def)

lemma stacks_ok_dispatch:
  assumes "stacks_ok T k" "n \<in> T"
  shows "stacks_ok T (dispatch k (running_thread k) n r)"
  using assms running_dispatch [OF assms] by (auto simp: stacks_ok_def running_thread_def)

text \<open>The thread \<open>schedule\<close> picks when the caller does not stay runnable, and what is left.\<close>

definition pick :: "kernel \<Rightarrow> u32 \<times> u32 list" where
  "pick k = (case thread_ready_list k of [] \<Rightarrow> (idle_thread k, []) | n # r \<Rightarrow> (n, r))"

lemma pick_simps [simp]:
  "pick (upd_task k t f) = pick k" "pick (k\<lparr>flags := e\<rparr>) = pick k"
  by (simp_all add: pick_def cong: list.case_cong)

lemma thread_unblock_ok:
  assumes "status (tasks k t) \<in> {TASK_BLOCKED, TASK_HANGING, TASK_WAITING}"
    and "t \<notin> set (thread_ready_list k)"
  shows "thread_unblock k t =
    Inr (upd_task (k\<lparr>thread_ready_list := t # thread_ready_list k\<rparr>) t (\<lambda>x. x\<lparr>status := TASK_READY\<rparr>))"
proof -
  have "k_intr_set_status (upd_task (k\<lparr>flags := snd (intr_disable (flags k)), thread_ready_list := r\<rparr>) t f)
      (intr_get_status (flags k)) = upd_task (k\<lparr>thread_ready_list := r\<rparr>) t f" for r f
    by (simp add: k_intr_set_status_def upd_task_def)
  with assms show ?thesis
    by (auto simp: thread_unblock_def kl_defs split_beta)
qed

lemma dispatch_unblocked:
  "dispatch (upd_task (k\<lparr>thread_ready_list := q\<rparr>) n (\<lambda>x. x\<lparr>status := st\<rparr>)) c n r = dispatch k c n r"
  by (simp add: dispatch_def upd_task_def)

lemma schedule_not_running:
  assumes off: "intr_off k" and T: "stacks_ok T k" "\<forall>t\<in>T. pgdir (tasks k t) = NULL"
    and st: "status (tasks k (running_thread k)) \<noteq> TASK_RUNNING"
    and pick: "pick k = (n, r)" "n \<in> T"
    and idle: "thread_ready_list k = [] \<Longrightarrow> status (tasks k (idle_thread k)) = TASK_BLOCKED"
  shows "schedule k = (let k' = dispatch k (running_thread k) n r
                       in if n = running_thread k then Inr k' else Inl (Yield k'))"
proof -
  have n: "n \<noteq> NULL" "pgdir (tasks k n) = NULL" using T pick by (auto simp: stacks_ok_def)
  show ?thesis
  proof (cases "thread_ready_list k")
    case Nil
    with pick have nr: "n = idle_thread k" "r = []" by (simp_all add: pick_def)
    have unb: "thread_unblock k (idle_thread k) =
        Inr (upd_task (k\<lparr>thread_ready_list := [n]\<rparr>) n (\<lambda>x. x\<lparr>status := TASK_READY\<rparr>))"
      using thread_unblock_ok [of k "idle_thread k"] idle Nil nr by simp
    show ?thesis
      unfolding schedule_def Let_def using off st Nil n nr
      by (simp add: unb intr_off_def kl_defs process_activate_kernel)
        (simp add: dispatch_def upd_task_def Let_def)
  next
    case (Cons m q)
    with pick have "m = n" "q = r" by (simp_all add: pick_def)
    with Cons off st n show ?thesis
      by (simp add: schedule_def intr_off_def kl_defs process_activate_kernel dispatch_def Let_def)
  qed
qed

lemma schedule_running:
  assumes off: "intr_off k" and T: "stacks_ok T k" "\<forall>t\<in>T. pgdir (tasks k t) = NULL"
    and st: "status (tasks k (running_thread k)) = TASK_RUNNING"
    and q: "running_thread k \<notin> set (thread_ready_list k)"
      "thread_ready_list k @ [running_thread k] = n # r" "n \<in> T"
  shows "schedule k =
    (let k1 = upd_task k (running_thread k) (\<lambda>t. t\<lparr>ticks := priority t, status := TASK_READY\<rparr>);
         k' = dispatch k1 (running_thread k) n r
     in if n = running_thread k then Inr k' else Inl (Yield k'))"
proof -
  have n: "n \<noteq> NULL" "pgdir (tasks k n) = NULL" using T q by (auto simp: stacks_ok_def)
  let ?k1 = "upd_task (k\<lparr>thread_ready_list := n # r\<rparr>) (running_thread k)
      (\<lambda>t. t\<lparr>ticks := priority t, status := TASK_READY\<rparr>)"
  let ?k2 = "upd_task (?k1\<lparr>thread_ready_list := r\<rparr>) n (\<lambda>t. t\<lparr>status := TASK_RUNNING\<rparr>)"
  have "pgdir (tasks ?k2 n) = NULL" using n(2) by auto
  then have "process_activate ?k2 n = Inr (?k2\<lparr>cr3 := 0x100000\<rparr>)"
    by (rule process_activate_kernel [OF n(1)])
  with off st q n show ?thesis
    by (simp add: schedule_def intr_off_def kl_defs Let_def)
      (simp add: dispatch_def upd_task_def Let_def)
qed

lemma stacks_ok_upd:
  "(\<And>t. self_kstack (f t) = self_kstack t) \<Longrightarrow> stacks_ok T (upd_task k u f) = stacks_ok T k"
  by (auto simp: stacks_ok_def)

lemma statuses_dispatch [simp]: "statuses (dispatch k c n r) = (statuses k)(n := TASK_RUNNING)"
  by (simp add: fun_eq_iff statuses_def)

lemma sched_inv_dispatch:
  assumes "stacks_ok T k" "\<forall>t\<in>T. pgdir (tasks k t) = NULL"
    and "queue_inv T n r ((statuses k)(n := TASK_RUNNING)) (idle_thread k)"
  shows "sched_inv T (dispatch k (running_thread k) n r)"
proof -
  have n: "n \<in> T" using assms(3) by (simp add: queue_inv_def)
  show ?thesis
    unfolding sched_inv_def running_dispatch [OF assms(1) n]
    using stacks_ok_dispatch [OF assms(1) n] assms(2,3) by simp
qed

lemma schedule_preempt_step:
  assumes inv: "sched_inv T k" and off: "intr_off k" and ready: "thread_ready_list k = n # r"
  shows "\<exists>k'. schedule k = Inl (Yield k') \<and> sched_inv T k' \<and> intr_off k' \<and> running_thread k' = n \<and>
           thread_ready_list k' = r @ [running_thread k] \<and> locks k' = locks k \<and>
           idle_thread k' = idle_thread k \<and>
           (\<forall>t. stack_magic (tasks k' t) = stack_magic (tasks k t)) \<and>
           statuses k' = (statuses k)(running_thread k := TASK_READY, n := TASK_RUNNING) \<and>
           ticks (tasks k' (running_thread k)) = priority (tasks k (running_thread k))"
proof -
  let ?c = "running_thread k"
  let ?k1 = "upd_task k ?c (\<lambda>t. t\<lparr>ticks := priority t, status := TASK_READY\<rparr>)"
  let ?k' = "dispatch ?k1 ?c n (r @ [?c])"
  have q: "queue_inv T ?c (n # r) (statuses k) (idle_thread k)"
    and T: "stacks_ok T k" "\<forall>t\<in>T. pgdir (tasks k t) = NULL" using inv ready by (simp_all add: sched_inv_def)
  then have n: "n \<in> T" "n \<noteq> ?c" and c: "?c \<notin> set (n # r)" "status (tasks k ?c) = TASK_RUNNING"
    by (auto simp: queue_inv_def statuses_def)
  have eq: "schedule k = Inl (Yield ?k')"
    using schedule_running [OF off T c(2), of n "r @ [?c]"] ready n c(1) by (simp add: Let_def)
  have T1: "stacks_ok T ?k1" "\<forall>t\<in>T. pgdir (tasks ?k1 t) = NULL" using T by (simp_all add: stacks_ok_upd)
  have "sched_inv T ?k'"
    using sched_inv_dispatch [OF T1, of n "r @ [?c]"] queue_inv_preempt [OF q] by simp
  moreover have "running_thread ?k' = n" using running_dispatch [OF T1(1) n(1)] by simp
  moreover have "intr_off ?k'" using off by (simp add: intr_off_def)
  ultimately show ?thesis using eq n by (intro exI [of _ ?k']) simp
qed

text \<open>The thread that stays alone in the ready list goes on.\<close>

lemma schedule_alone_step:
  assumes inv: "sched_inv T k" and off: "intr_off k" and ready: "thread_ready_list k = []"
  shows "\<exists>k'. schedule k = Inr k' \<and> sched_inv T k' \<and> intr_off k' \<and> thread_ready_list k' = [] \<and>
           running_thread k' = running_thread k \<and> locks k' = locks k \<and> idle_thread k' = idle_thread k \<and>
           (\<forall>t. stack_magic (tasks k' t) = stack_magic (tasks k t)) \<and> statuses k' = statuses k"
proof -
  let ?c = "running_thread k"
  let ?k1 = "upd_task k ?c (\<lambda>t. t\<lparr>ticks := priority t, status := TASK_READY\<rparr>)"
  let ?k' = "dispatch ?k1 ?c ?c []"
  have q: "queue_inv T ?c [] (statuses k) (idle_thread k)"
    and T: "stacks_ok T k" "\<forall>t\<in>T. pgdir (tasks k t) = NULL" using inv ready by (simp_all add: sched_inv_def)
  then have c: "?c \<in> T" "status (tasks k ?c) = TASK_RUNNING" by (auto simp: queue_inv_def statuses_def)
  have eq: "schedule k = Inr ?k'"
    using schedule_running [OF off T c(2), of ?c "[]"] ready c by (simp add: Let_def)
  have T1: "stacks_ok T ?k1" "\<forall>t\<in>T. pgdir (tasks ?k1 t) = NULL" using T by (simp_all add: stacks_ok_upd)
  have "sched_inv T ?k'"
    using sched_inv_dispatch [OF T1, of ?c "[]"] queue_inv_alone [OF q] by simp
  moreover have "running_thread ?k' = ?c" using running_dispatch [OF T1(1) c(1)] by simp
  moreover have "statuses ?k' = statuses k" using c(2) by (simp add: fun_upd_idem statuses_def)
  moreover have "intr_off ?k'" using off by (simp add: intr_off_def)
  ultimately show ?thesis using eq by (intro exI [of _ ?k']) simp
qed

text \<open>\<open>thread_block\<close>: the state the next thread finds.\<close>

definition block_state :: "kernel \<Rightarrow> task_status \<Rightarrow> kernel" where
  "block_state k s =
     (let k = upd_task (k\<lparr>flags := snd (intr_disable (flags k))\<rparr>) (running_thread k) (\<lambda>t. t\<lparr>status := s\<rparr>)
      in dispatch k (running_thread k) (fst (pick k)) (snd (pick k)))"

lemma block_state_simps [simp]:
  "flags (block_state k s) = snd (intr_disable (flags k))"
  "idle_thread (block_state k s) = idle_thread k" "locks (block_state k s) = locks k"
  "disk_done (block_state k s) = disk_done k"
  "stack_magic (tasks (block_state k s) t) = stack_magic (tasks k t)"
  "thread_ready_list (block_state k s) = snd (pick k)"
  "statuses (block_state k s) = (statuses k)(running_thread k := s, fst (pick k) := TASK_RUNNING)"
  by (simp_all add: block_state_def Let_def)

lemma block_state_inv:
  assumes inv: "sched_inv T k" and s: "blocked_status s"
    and idle: "running_thread k = idle_thread k \<Longrightarrow> s = TASK_BLOCKED"
  shows "sched_inv T (block_state k s)" "running_thread (block_state k s) = fst (pick k)"
    and "thread_block k s =
           (if fst (pick k) = running_thread k
            then Inr (k_intr_set_status (block_state k s) (intr_get_status (flags k)))
            else Inl (Yield (block_state k s)))"
proof -
  let ?c = "running_thread k" and ?n = "fst (pick k)" and ?r = "snd (pick k)"
  let ?k1 = "upd_task (k\<lparr>flags := snd (intr_disable (flags k))\<rparr>) ?c (\<lambda>t. t\<lparr>status := s\<rparr>)"
  have q: "queue_inv T ?c (thread_ready_list k) (statuses k) (idle_thread k)"
    and T: "stacks_ok T k" "\<forall>t\<in>T. pgdir (tasks k t) = NULL" using inv by (simp_all add: sched_inv_def)
  have pick1: "pick ?k1 = (?n, ?r)" by simp
  have bs: "block_state k s = dispatch ?k1 ?c ?n ?r" by (simp add: block_state_def Let_def)
  have q': "queue_inv T ?n ?r ((statuses k)(?c := s, ?n := TASK_RUNNING)) (idle_thread k)"
    using q queue_inv_block [OF _ s idle] queue_inv_block_last [OF _ s]
    by (cases "thread_ready_list k") (simp_all add: pick_def)
  then have n: "?n \<in> T" by (simp add: queue_inv_def)
  have T1: "stacks_ok T ?k1" "\<forall>t\<in>T. pgdir (tasks ?k1 t) = NULL"
    using T by (simp_all add: stacks_ok_def)
  show "sched_inv T (block_state k s)"
    using sched_inv_dispatch [OF T1, of ?n ?r] q' by (simp add: bs)
  show "running_thread (block_state k s) = ?n" using running_dispatch [OF T1(1) n] by (simp add: bs)
  have "status (tasks ?k1 (idle_thread ?k1)) = TASK_BLOCKED" if "thread_ready_list ?k1 = []"
    using that q idle by (auto simp: queue_inv_def statuses_def)
  moreover have "status (tasks ?k1 (running_thread ?k1)) \<noteq> TASK_RUNNING"
    using s by (auto simp: blocked_status_def)
  moreover have "intr_off ?k1" by (simp add: intr_off_def)
  ultimately have "schedule ?k1 = (if ?n = ?c then Inr (block_state k s) else Inl (Yield (block_state k s)))"
    using schedule_not_running [OF _ T1 _ pick1 n] by (simp add: Let_def bs)
  then show "thread_block k s = (if ?n = ?c
       then Inr (k_intr_set_status (block_state k s) (intr_get_status (flags k)))
       else Inl (Yield (block_state k s)))"
    using s by (auto simp: thread_block_def blocked_status_def split_beta Let_def)
qed

lemma thread_unblock_step:
  assumes "sched_inv T k" "t \<in> T" "blocked_status (statuses k t)"
  shows "\<exists>k'. thread_unblock k t = Inr k' \<and> sched_inv T k' \<and> flags k' = flags k \<and>
           running_thread k' = running_thread k \<and> thread_ready_list k' = t # thread_ready_list k \<and>
           statuses k' = (statuses k)(t := TASK_READY) \<and> locks k' = locks k \<and>
           disk_done k' = disk_done k \<and> idle_thread k' = idle_thread k \<and>
           (\<forall>u. stack_magic (tasks k' u) = stack_magic (tasks k u))"
proof -
  let ?k' = "upd_task (k\<lparr>thread_ready_list := t # thread_ready_list k\<rparr>) t (\<lambda>x. x\<lparr>status := TASK_READY\<rparr>)"
  have q: "queue_inv T (running_thread k) (thread_ready_list k) (statuses k) (idle_thread k)"
    and T: "stacks_ok T k" "\<forall>t\<in>T. pgdir (tasks k t) = NULL" using assms(1) by (simp_all add: sched_inv_def)
  have "t \<notin> set (thread_ready_list k)"
    using q assms by (auto simp: queue_inv_def blocked_status_def)
  then have "thread_unblock k t = Inr ?k'"
    using assms(3) by (intro thread_unblock_ok) (auto simp: blocked_status_def statuses_def)
  moreover have "sched_inv T ?k'"
    using T queue_inv_unblock [OF q assms(2,3)] by (simp add: sched_inv_def stacks_ok_def)
  ultimately show ?thesis by (intro exI [of _ ?k']) simp
qed

text \<open>
  The timer interrupt: the running thread keeps the CPU or is preempted. Blocked threads stay
  blocked and no lock changes.
\<close>

lemma sched_inv_upd:
  assumes "\<And>t. self_kstack (f t) = self_kstack t" "\<And>t. pgdir (f t) = pgdir t" "\<And>t. status (f t) = status t"
  shows "sched_inv T (upd_task k u f) = sched_inv T k"
proof -
  have "(statuses k)(u := status (tasks k u)) = statuses k" by (simp add: fun_upd_idem statuses_def)
  with assms show ?thesis by (auto simp: sched_inv_def stacks_ok_upd)
qed

lemma sched_inv_kticks [simp]: "sched_inv T (k\<lparr>kticks := n\<rparr>) = sched_inv T k"
  by (simp add: sched_inv_def stacks_ok_def)

lemma sched_inv_flags [simp]: "sched_inv T (k\<lparr>flags := n\<rparr>) = sched_inv T k"
  by (simp add: sched_inv_def stacks_ok_def)

lemma sched_inv_locks [simp]: "sched_inv T (k\<lparr>locks := n\<rparr>) = sched_inv T k"
  by (simp add: sched_inv_def stacks_ok_def)

definition same_blocked :: "kernel \<Rightarrow> kernel \<Rightarrow> bool" where
  "same_blocked k k' \<longleftrightarrow> locks k' = locks k \<and> idle_thread k' = idle_thread k \<and>
     (\<forall>t. stack_magic (tasks k' t) = stack_magic (tasks k t)) \<and>
     (\<forall>t. blocked_status (statuses k' t) = blocked_status (statuses k t))"

lemma timer_step:
  assumes inv: "sched_inv T k" and off: "intr_off k"
    and magic: "stack_magic (tasks k (running_thread k)) = 0x20000509"
  shows "\<exists>k'. (intr_timer_handler k = Inr k' \<and> running_thread k' = running_thread k \<or>
               intr_timer_handler k = Inl (Yield k')) \<and>
              sched_inv T k' \<and> intr_off k' \<and> same_blocked k k'"
proof -
  let ?c = "running_thread k"
  let ?k1 = "(upd_task k ?c (\<lambda>t. t\<lparr>elapsed_ticks := elapsed_ticks t + 1\<rparr>))\<lparr>kticks := kticks k + 1\<rparr>"
  have inv1: "sched_inv T ?k1" "intr_off ?k1"
    using inv off by (simp_all add: sched_inv_upd intr_off_def)
  have st1: "statuses ?k1 = statuses k" by (simp add: fun_upd_idem statuses_def)
  have sb1: "same_blocked k ?k1" by (simp add: same_blocked_def statuses_def)
  show ?thesis
  proof (cases "ticks (tasks k ?c) = 0")
    case False
    let ?k' = "upd_task ?k1 ?c (\<lambda>t. t\<lparr>ticks := ticks t - 1\<rparr>)"
    have "intr_timer_handler k = Inr ?k'"
      using False magic by (simp add: intr_timer_handler_def Let_def)
    moreover have "sched_inv T ?k'" "intr_off ?k'" using inv1 by (simp_all add: sched_inv_upd intr_off_def)
    moreover have "statuses ?k' = statuses k" using st1 by (simp add: fun_upd_idem statuses_def)
    then have "same_blocked k ?k'" by (simp add: same_blocked_def)
    ultimately show ?thesis by (intro exI [of _ ?k']) simp
  next
    case True
    then have h: "intr_timer_handler k = schedule ?k1"
      using magic by (simp add: intr_timer_handler_def Let_def)
    show ?thesis
    proof (cases "thread_ready_list k")
      case Nil
      then obtain k' where "schedule ?k1 = Inr k'" "sched_inv T k'" "intr_off k'"
        "running_thread k' = running_thread ?k1" "locks k' = locks ?k1" "statuses k' = statuses ?k1"
        "idle_thread k' = idle_thread ?k1" "\<forall>t. stack_magic (tasks k' t) = stack_magic (tasks ?k1 t)"
        using schedule_alone_step [OF inv1] by auto
      with h st1 show ?thesis by (intro exI [of _ k']) (simp add: same_blocked_def)
    next
      case (Cons n r)
      have st: "statuses k ?c = TASK_RUNNING" "statuses k n = TASK_READY"
        using inv Cons by (auto simp: sched_inv_def queue_inv_def)
      from Cons obtain k' where "schedule ?k1 = Inl (Yield k')" "sched_inv T k'" "intr_off k'"
        "locks k' = locks ?k1" "idle_thread k' = idle_thread ?k1"
        "\<forall>t. stack_magic (tasks k' t) = stack_magic (tasks ?k1 t)"
        "statuses k' = (statuses ?k1)(?c := TASK_READY, n := TASK_RUNNING)"
        using schedule_preempt_step [OF inv1, of n r] by auto
      with h st1 st show ?thesis
        by (intro exI [of _ k']) (auto simp: same_blocked_def blocked_status_def)
    qed
  qed
qed

text \<open>The threads that follow one another on the CPU when every slice runs out.\<close>

definition run_next :: "kernel \<Rightarrow> kernel kres" where
  "run_next k = (case schedule k of Inl (Yield k') \<Rightarrow> Inr k' | r \<Rightarrow> r)"

primrec slices :: "nat \<Rightarrow> kernel \<Rightarrow> kernel kres" where
  "slices 0 k = Inr k"
| "slices (Suc n) k = bnd (run_next k) (slices n)"

text \<open>
  C5: When the time slice of the running thread is over, \<open>schedule\<close> puts it at the end of the
  ready list with a full slice, gives the CPU to the first ready thread and keeps the
  invariant of queues, states and stacks.
\<close>

theorem schedule_preempts:
  assumes inv: "sched_inv T k" and off: "intr_off k" and ready: "thread_ready_list k = n # r"
  shows "\<exists>k'. schedule k = Inl (Yield k') \<and> sched_inv T k' \<and> intr_off k' \<and> running_thread k' = n \<and>
           thread_ready_list k' = r @ [running_thread k] \<and>
           ticks (tasks k' (running_thread k)) = priority (tasks k (running_thread k))"
  using schedule_preempt_step [OF assms] by blast

text \<open>
  \<open>thread_block\<close> takes the caller off the CPU and out of every scheduler queue: the first
  ready thread runs, or the idle thread when none is ready, and the invariant is kept.
\<close>

theorem thread_block_switches:
  assumes "sched_inv T k" "blocked_status s" "running_thread k \<noteq> idle_thread k"
  shows "\<exists>k'. thread_block k s = Inl (Yield k') \<and> sched_inv T k' \<and> intr_off k' \<and>
           (running_thread k', thread_ready_list k') = pick k \<and>
           statuses k' (running_thread k) = s"
proof -
  have "fst (pick k) \<noteq> running_thread k"
    using assms(1,3) by (cases "thread_ready_list k") (auto simp: sched_inv_def queue_inv_def pick_def)
  with block_state_inv [OF assms(1,2)] assms(3) show ?thesis
    by (intro exI [of _ "block_state k s"]) (simp add: intr_off_def)
qed

text \<open>
  \<open>thread_unblock\<close> makes a blocked thread the next one to run, restores the interrupt
  flag and keeps the invariant.
\<close>

theorem thread_unblock_first:
  assumes "sched_inv T k" "t \<in> T" "blocked_status (statuses k t)"
  shows "\<exists>k'. thread_unblock k t = Inr k' \<and> sched_inv T k' \<and> flags k' = flags k \<and>
           running_thread k' = running_thread k \<and> pick k' = (t, thread_ready_list k) \<and>
           statuses k' = (statuses k)(t := TASK_READY)"
  using thread_unblock_step [OF assms] by (auto simp: pick_def)

text \<open>
  C4: Round robin: of the threads in the ready list, the one at position \<open>i\<close> runs after
  \<open>i + 1\<close> time slices; no thread starves.
\<close>

theorem schedule_round_robin:
  assumes "sched_inv T k" "intr_off k" "i < length (thread_ready_list k)"
  shows "\<exists>k'. slices (Suc i) k = Inr k' \<and> sched_inv T k' \<and>
           running_thread k' = thread_ready_list k ! i"
  using assms
proof (induction i arbitrary: k)
  case 0
  then obtain n r where "thread_ready_list k = n # r" by (cases "thread_ready_list k") auto
  with schedule_preempt_step [OF 0(1,2) this] show ?case by (auto simp: run_next_def)
next
  case (Suc i)
  then obtain n r where r: "thread_ready_list k = n # r" by (cases "thread_ready_list k") auto
  with schedule_preempt_step [OF Suc.prems(1,2) this] obtain k1 where
    k1: "run_next k = Inr k1" "sched_inv T k1" "intr_off k1"
      "thread_ready_list k1 = r @ [running_thread k]" by (auto simp: run_next_def)
  from Suc.IH [OF k1(2,3)] Suc.prems(3) r k1 show ?case by (auto simp: nth_append)
qed

section \<open>A kernel with three threads\<close>

text \<open>\<open>main\<close> runs, a worker and the idle thread are ready.\<close>

definition demo_task :: "u32 \<Rightarrow> task_struct" where
  "demo_task t = zero_task\<lparr>self_kstack := t + 0xe50, stack_magic := 0x20000509, priority := 31,
     status := (if t = 0xc009e000 then TASK_RUNNING else TASK_READY)\<rparr>"

definition demo_kernel :: kernel where
  "demo_kernel = boot_kernel\<lparr>flags := 0x2, tasks := demo_task,
     thread_ready_list := [0xc0101000, 0xc0102000], idle_thread := 0xc0102000\<rparr>"

definition demo_threads :: "u32 set" where
  "demo_threads = {0xc009e000, 0xc0101000, 0xc0102000}"

lemma demo_fields [simp]:
  "running_thread demo_kernel = 0xc009e000" "thread_ready_list demo_kernel = [0xc0101000, 0xc0102000]"
  "idle_thread demo_kernel = 0xc0102000" "flags demo_kernel = 0x2" "tasks demo_kernel = demo_task"
  "locks demo_kernel = locks boot_kernel"
  by (simp_all add: demo_kernel_def running_thread_def)

lemma demo_inv: "sched_inv demo_threads demo_kernel" "intr_off demo_kernel"
  by (auto simp: sched_inv_def stacks_ok_def queue_inv_def demo_threads_def demo_task_def zero_task_def
      statuses_def intr_off_def intr_get_status_iff bit_numeral_rec)

theorem schedule_preempts_witness:
  "\<exists>k'. schedule demo_kernel = Inl (Yield k') \<and> running_thread k' = 0xc0101000 \<and>
     thread_ready_list k' = [0xc0102000, 0xc009e000]"
  using schedule_preempts [OF demo_inv demo_fields(2)] by auto

theorem thread_block_switches_witness:
  "\<exists>k'. thread_block demo_kernel TASK_BLOCKED = Inl (Yield k') \<and> running_thread k' = 0xc0101000 \<and>
     thread_ready_list k' = [0xc0102000] \<and> statuses k' 0xc009e000 = TASK_BLOCKED"
  using thread_block_switches [OF demo_inv(1), of TASK_BLOCKED]
  by (auto simp: blocked_status_def pick_def)

theorem thread_unblock_first_witness:
  "\<exists>k k'. thread_block demo_kernel TASK_BLOCKED = Inl (Yield k) \<and>
     thread_unblock k 0xc009e000 = Inr k' \<and> pick k' = (0xc009e000, [0xc0102000])"
proof -
  let ?k = "block_state demo_kernel TASK_BLOCKED"
  have ne: "running_thread demo_kernel \<noteq> idle_thread demo_kernel" by simp
  note b = block_state_inv [OF demo_inv(1), of TASK_BLOCKED]
  have "sched_inv demo_threads ?k" using b(1) ne by (simp add: blocked_status_def)
  moreover have "blocked_status (statuses ?k 0xc009e000)" by (simp add: blocked_status_def pick_def)
  moreover have "0xc009e000 \<in> demo_threads" by (simp add: demo_threads_def)
  ultimately obtain k' where "thread_unblock ?k 0xc009e000 = Inr k'"
    "pick k' = (0xc009e000, thread_ready_list ?k)" using thread_unblock_first by blast
  moreover have "thread_block demo_kernel TASK_BLOCKED = Inl (Yield ?k)"
    using b(3) ne by (simp add: blocked_status_def pick_def)
  ultimately show ?thesis by (auto simp: pick_def)
qed

theorem schedule_round_robin_witness:
  "\<exists>k'. slices 2 demo_kernel = Inr k' \<and> running_thread k' = 0xc0102000"
  using schedule_round_robin [OF demo_inv, of 1] by (auto simp: numeral_2_eq_2)

end
