(* ===== verification/Sync.thy ===== *)
theory Sync
  imports Sched
begin

unbundle bit_operations_syntax

text \<open>
  \<^verbatim>\<open>kernel/sync.c\<close>: semaphores and re-entrant locks. \<open>sema_down\<close> may lose the CPU
  (\<open>Yield\<close>) inside its loop; \<open>sema_down_from\<close> is the rest of the call, which the thread
  executes when it is scheduled again.
\<close>

section \<open>Definitions\<close>

definition sema_init :: "kernel \<Rightarrow> semap \<Rightarrow> u8 \<Rightarrow> kernel" where
  "sema_init k psema val = upd_sema k psema (\<lambda>s. s\<lparr>value := val, waiters := []\<rparr>)"

definition lock_init :: "kernel \<Rightarrow> lockp \<Rightarrow> kernel" where
  "lock_init k plock =
     sema_init (upd_lock k plock (\<lambda>l. l\<lparr>holder := NULL, holder_repeat_nr := 0\<rparr>)) (Sema_of plock) 1"

text \<open>One turn of the loop of \<open>sema_down\<close> when the value is 0.\<close>

definition sema_down_wait :: "kernel \<Rightarrow> semap \<Rightarrow> kernel kres" where
  "sema_down_wait k psema =
     bnd (kl_find (waiters (sema_at k psema)) (running_thread k)) (\<lambda>found.
     bnd (ASSERT (\<not> found) ''!elem_find(&psema->waiters)'') (\<lambda>_.
     bnd (kl_append (waiters (sema_at k psema)) (running_thread k)) (\<lambda>w.
     thread_block (upd_sema k psema (\<lambda>s. s\<lparr>waiters := w\<rparr>)) TASK_BLOCKED)))"

partial_function (option) sema_down_loop :: "kernel \<Rightarrow> semap \<Rightarrow> kernel kres option" where
  "sema_down_loop k psema =
     (if value (sema_at k psema) = 0 then
        (case sema_down_wait k psema of Inl h \<Rightarrow> Some (Inl h) | Inr k \<Rightarrow> sema_down_loop k psema)
      else Some (Inr k))"

declare sema_down_loop.simps [code]

definition sema_down_from :: "kernel \<Rightarrow> semap \<Rightarrow> intr_status \<Rightarrow> kernel kres" where
  "sema_down_from k psema old_status =
     bnd (case sema_down_loop k psema of None \<Rightarrow> Inl Spin | Some r \<Rightarrow> r) (\<lambda>k.
     let k = upd_sema k psema (\<lambda>s. s\<lparr>value := value s - 1\<rparr>)
     in bnd (ASSERT (value (sema_at k psema) = 0) ''psema->value == 0'') (\<lambda>_.
        Inr (k_intr_set_status k old_status)))"

definition sema_down :: "kernel \<Rightarrow> semap \<Rightarrow> kernel kres" where
  "sema_down k psema =
     (let (old_status, k) = k_intr_disable k in sema_down_from k psema old_status)"

definition sema_up :: "kernel \<Rightarrow> semap \<Rightarrow> kernel kres" where
  "sema_up k psema =
     (let (old_status, k) = k_intr_disable k
      in bnd (ASSERT (value (sema_at k psema) = 0) ''psema->value == 0'') (\<lambda>_.
         bnd (if \<not> kl_empty (waiters (sema_at k psema)) then
                bnd (kl_pop (waiters (sema_at k psema))) (\<lambda>(thread_blocked, w).
                thread_unblock (upd_sema k psema (\<lambda>s. s\<lparr>waiters := w\<rparr>)) thread_blocked)
              else Inr k) (\<lambda>k.
         let k = upd_sema k psema (\<lambda>s. s\<lparr>value := value s + 1\<rparr>)
         in bnd (ASSERT (value (sema_at k psema) = 1) ''psema->value == 1'') (\<lambda>_.
            Inr (k_intr_set_status k old_status)))))"

text \<open>
  The two halves of the lock operations around the semaphore, each cut in two where it has stored one field of the lock: they run
  with interrupts on.
\<close>

definition lock_take_holder :: "kernel \<Rightarrow> lockp \<Rightarrow> kernel" where
  "lock_take_holder k plock = upd_lock k plock (\<lambda>l. l\<lparr>holder := running_thread k\<rparr>)"

definition lock_take_count :: "kernel \<Rightarrow> lockp \<Rightarrow> kernel kres" where
  "lock_take_count k plock =
     bnd (ASSERT (holder_repeat_nr (locks k plock) = 0) ''plock->holder_repeat_nr == 0'') (\<lambda>_.
     Inr (upd_lock k plock (\<lambda>l. l\<lparr>holder_repeat_nr := 1\<rparr>)))"

definition lock_take :: "kernel \<Rightarrow> lockp \<Rightarrow> kernel kres" where
  "lock_take k plock = lock_take_count (lock_take_holder k plock) plock"

definition lock_again :: "kernel \<Rightarrow> lockp \<Rightarrow> kernel" where
  "lock_again k plock = upd_lock k plock (\<lambda>l. l\<lparr>holder_repeat_nr := holder_repeat_nr l + 1\<rparr>)"

definition lock_acquire :: "kernel \<Rightarrow> lockp \<Rightarrow> kernel kres" where
  "lock_acquire k plock =
     (if holder (locks k plock) \<noteq> running_thread k
      then bnd (sema_down k (Sema_of plock)) (\<lambda>k. lock_take k plock)
      else Inr (lock_again k plock))"

text \<open>\<open>Inl\<close> of the inner result: the early return of a nested release.\<close>

definition lock_drop_holder :: "kernel \<Rightarrow> lockp \<Rightarrow> (kernel + kernel) kres" where
  "lock_drop_holder k plock =
     bnd (ASSERT (holder (locks k plock) = running_thread k) ''plock->holder == running_thread()'') (\<lambda>_.
     if holder_repeat_nr (locks k plock) > 1
     then Inr (Inl (upd_lock k plock (\<lambda>l. l\<lparr>holder_repeat_nr := holder_repeat_nr l - 1\<rparr>)))
     else bnd (ASSERT (holder_repeat_nr (locks k plock) = 1) ''plock->holder_repeat_nr == 1'') (\<lambda>_.
          Inr (Inr (upd_lock k plock (\<lambda>l. l\<lparr>holder := NULL\<rparr>)))))"

definition lock_drop_count :: "kernel \<Rightarrow> lockp \<Rightarrow> kernel" where
  "lock_drop_count k plock = upd_lock k plock (\<lambda>l. l\<lparr>holder_repeat_nr := 0\<rparr>)"

definition lock_drop :: "kernel \<Rightarrow> lockp \<Rightarrow> (kernel + kernel) kres" where
  "lock_drop k plock =
     bnd (lock_drop_holder k plock) (\<lambda>r.
       case r of Inl k \<Rightarrow> Inr (Inl k) | Inr k \<Rightarrow> Inr (Inr (lock_drop_count k plock)))"

lemmas lock_half_defs = lock_take_def lock_take_holder_def lock_take_count_def lock_drop_def lock_drop_holder_def lock_drop_count_def

definition lock_release :: "kernel \<Rightarrow> lockp \<Rightarrow> kernel kres" where
  "lock_release k plock =
     bnd (lock_drop k plock) (\<lambda>r.
       case r of Inl k \<Rightarrow> Inr k | Inr k \<Rightarrow> sema_up k (Sema_of plock))"

section \<open>The uncontended case\<close>

lemma upd_lock_simps [simp]:
  "flags (upd_lock k l f) = flags k" "running_thread (upd_lock k l f) = running_thread k"
  "tasks (upd_lock k l f) = tasks k" "thread_ready_list (upd_lock k l f) = thread_ready_list k"
  "locks (upd_lock k l f) = (locks k)(l := f (locks k l))" "statuses (upd_lock k l f) = statuses k"
  "idle_thread (upd_lock k l f) = idle_thread k"
  by (simp_all add: upd_lock_def running_thread_def statuses_def fun_eq_iff)

lemma sema_at_lock [simp]: "sema_at k (Sema_of l) = semaphore (locks k l)"
  by (simp add: sema_at_def)

lemma locks_upd_sema [simp]:
  "locks (upd_sema k (Sema_of l) f) = (locks k)(l := (locks k l)\<lparr>semaphore := f (semaphore (locks k l))\<rparr>)"
  by (simp add: upd_sema_def)

lemma upd_sema_lock:
  "upd_sema k (Sema_of l) f = k\<lparr>locks := (locks k)(l := (locks k l)\<lparr>semaphore := f (semaphore (locks k l))\<rparr>)\<rparr>"
  by (simp add: upd_sema_def)

lemma sema_down_loop_free: "value (sema_at k p) \<noteq> 0 \<Longrightarrow> sema_down_loop k p = Some (Inr k)"
  by (subst sema_down_loop.simps) simp

lemma sema_down_free:
  assumes "value (sema_at k p) = 1"
  shows "sema_down k p = Inr (upd_sema k p (\<lambda>s. s\<lparr>value := 0\<rparr>))"
proof -
  let ?k = "k\<lparr>flags := snd (intr_disable (flags k))\<rparr>"
  have "sema_at ?k p = sema_at k p" by (simp add: sema_at_def split: semap.splits)
  with assms have "value (sema_at ?k p) = 1" by simp
  then show ?thesis
    by (simp add: sema_down_def sema_down_from_def sema_down_loop_free split_beta Let_def)
      (auto simp: k_intr_set_status_def upd_sema_def sema_at_def split: semap.splits)
qed

definition free_lock :: lock where
  "free_lock = \<lparr>holder = NULL, semaphore = \<lparr>value = 1, waiters = []\<rparr>, holder_repeat_nr = 0\<rparr>"

definition held_lock :: "u32 \<Rightarrow> lock" where
  "held_lock t = \<lparr>holder = t, semaphore = \<lparr>value = 0, waiters = []\<rparr>, holder_repeat_nr = 1\<rparr>"

lemma lock_init_free: "locks (lock_init k l) l = free_lock"
  by (simp add: lock_init_def sema_init_def free_lock_def)

lemma lock_acquire_free:
  assumes "locks k l = free_lock" "running_thread k \<noteq> NULL"
  shows "lock_acquire k l = Inr (k\<lparr>locks := (locks k)(l := held_lock (running_thread k))\<rparr>)"
proof -
  have v: "value (sema_at k (Sema_of l)) = 1" using assms by (simp add: free_lock_def)
  show ?thesis
    using assms sema_down_free [OF v]
    by (simp add: lock_acquire_def lock_half_defs)
      (simp add: free_lock_def held_lock_def upd_sema_lock upd_lock_def)
qed

lemma sema_up_no_waiters:
  assumes "value (sema_at k p) = 0" "waiters (sema_at k p) = []"
  shows "sema_up k p = Inr (upd_sema k p (\<lambda>s. s\<lparr>value := 1\<rparr>))"
proof -
  let ?k = "k\<lparr>flags := snd (intr_disable (flags k))\<rparr>"
  have "sema_at ?k p = sema_at k p" by (simp add: sema_at_def split: semap.splits)
  with assms have "value (sema_at ?k p) = 0" "waiters (sema_at ?k p) = []" by simp_all
  then show ?thesis
    by (simp add: sema_up_def kl_defs split_beta Let_def)
      (auto simp: k_intr_set_status_def upd_sema_def sema_at_def split: semap.splits)
qed

lemma lock_release_held:
  assumes "locks k l = held_lock (running_thread k)"
  shows "lock_release k l = Inr (k\<lparr>locks := (locks k)(l := free_lock)\<rparr>)"
proof -
  let ?k = "upd_lock (upd_lock k l (\<lambda>l. l\<lparr>holder := NULL\<rparr>)) l (\<lambda>l. l\<lparr>holder_repeat_nr := 0\<rparr>)"
  have "value (sema_at ?k (Sema_of l)) = 0" "waiters (sema_at ?k (Sema_of l)) = []"
    using assms by (simp_all add: held_lock_def)
  from sema_up_no_waiters [OF this] assms show ?thesis
    by (simp add: lock_release_def lock_half_defs)
      (simp add: held_lock_def free_lock_def upd_sema_lock upd_lock_def lock_drop_count_def)
qed

text \<open>
  A free lock that a thread takes and gives back is free again, nothing else of the kernel
  has changed, and in between the thread holds it exactly once.
\<close>

theorem lock_acquire_release:
  assumes "locks k l = free_lock" "running_thread k \<noteq> NULL"
  shows "\<exists>k1. lock_acquire k l = Inr k1 \<and> locks k1 l = held_lock (running_thread k) \<and>
           lock_release k1 l = Inr k"
  using lock_acquire_free [OF assms] lock_release_held [of "k\<lparr>locks := (locks k)(l := held_lock (running_thread k))\<rparr>" l]
    assms by (simp add: fun_upd_idem)

theorem lock_acquire_release_witness:
  "\<exists>k1. lock_acquire demo_kernel Console_lock = Inr k1 \<and>
     locks k1 Console_lock = held_lock 0xc009e000 \<and> lock_release k1 Console_lock = Inr demo_kernel"
  using lock_acquire_release [of demo_kernel Console_lock]
  by (simp add: free_lock_def boot_kernel_def)

section \<open>Contention\<close>

text \<open>
  \<open>sema_down\<close> of a semaphore that is taken: the caller is the last waiter and loses the CPU.
\<close>

lemma sched_inv_sema [simp]: "sched_inv T (upd_sema k p f) = sched_inv T k"
  by (simp add: sched_inv_def stacks_ok_def)

lemma pick_sema [simp]: "pick (upd_sema k p f) = pick k"
  by (simp add: pick_def cong: list.case_cong)

definition wait_state :: "kernel \<Rightarrow> semap \<Rightarrow> kernel" where
  "wait_state k p =
     block_state (upd_sema k p (\<lambda>s. s\<lparr>waiters := waiters s @ [running_thread k]\<rparr>)) TASK_BLOCKED"

lemma sema_down_from_taken:
  assumes "sched_inv T k" "running_thread k \<noteq> idle_thread k" "intr_off k"
    and "value (sema_at k p) = 0" "running_thread k \<notin> set (waiters (sema_at k p))"
  shows "sema_down_from k p old = Inl (Yield (wait_state k p))"
    and "sched_inv T (wait_state k p)" "running_thread (wait_state k p) = fst (pick k)"
    and "fst (pick k) \<noteq> running_thread k" "intr_off (wait_state k p)"
    and "statuses (wait_state k p) =
           (statuses k)(running_thread k := TASK_BLOCKED, fst (pick k) := TASK_RUNNING)"
    and "sema_down_loop k p = Some (Inl (Yield (wait_state k p)))"
    and "sema_at (wait_state k p) p = (sema_at k p)\<lparr>waiters := waiters (sema_at k p) @ [running_thread k]\<rparr>"
proof -
  let ?k = "upd_sema k p (\<lambda>s. s\<lparr>waiters := waiters s @ [running_thread k]\<rparr>)"
  have inv: "sched_inv T ?k" "blocked_status TASK_BLOCKED" using assms(1) by (simp_all add: blocked_status_def)
  note b = block_state_inv [OF inv]
  show ne: "fst (pick k) \<noteq> running_thread k"
    using assms(1,2) by (cases "thread_ready_list k") (auto simp: sched_inv_def queue_inv_def pick_def)
  have "sema_down_wait k p = Inl (Yield (wait_state k p))"
  proof -
    have "upd_sema k p (\<lambda>s. s\<lparr>waiters := waiters (sema_at k p) @ [running_thread k]\<rparr>) = ?k"
      by (auto simp: upd_sema_def sema_at_def split: semap.splits)
    with b(3) ne assms(5) show ?thesis by (simp add: sema_down_wait_def kl_defs wait_state_def)
  qed
  then show loop: "sema_down_loop k p = Some (Inl (Yield (wait_state k p)))"
    using assms(4) by (simp add: sema_down_loop.simps)
  then show "sema_down_from k p old = Inl (Yield (wait_state k p))" by (simp add: sema_down_from_def)
  have "sema_at (wait_state k p) p = sema_at ?k p" by (simp add: wait_state_def sema_at_def split: semap.splits)
  then show "sema_at (wait_state k p) p = (sema_at k p)\<lparr>waiters := waiters (sema_at k p) @ [running_thread k]\<rparr>" by simp
  show "sched_inv T (wait_state k p)" "running_thread (wait_state k p) = fst (pick k)"
    using b(1,2) assms(2) by (simp_all add: wait_state_def)
  show "intr_off (wait_state k p)"
    using assms(3) by (simp add: wait_state_def intr_off_def)
  show "statuses (wait_state k p) =
      (statuses k)(running_thread k := TASK_BLOCKED, fst (pick k) := TASK_RUNNING)"
    by (simp add: wait_state_def)
qed

section \<open>The loop of \<open>sema_down\<close> ends\<close>

lemma thread_unblock_frame:
  "thread_unblock k t = Inr k' \<Longrightarrow> esp k' = esp k \<and> locks k' = locks k \<and> disk_done k' = disk_done k"
  by (auto simp: thread_unblock_def kl_defs split_beta res_simps k_intr_set_status_def Let_def split: if_splits)

lemma process_activate_frame:
  "process_activate k t = Inr k' \<Longrightarrow> esp k' = esp k \<and> locks k' = locks k \<and> disk_done k' = disk_done k"
  by (auto simp: process_activate_def page_dir_activate_def update_tss_esp_def res_simps split: if_splits)

lemma switch_to_self [simp]:
  "esp (switch_to k c c) = esp k" "locks (switch_to k c n) = locks k"
  "disk_done (switch_to k c n) = disk_done k"
  by (simp_all add: switch_to_def Let_def)

lemma schedule_frame:
  "schedule k = Inr k' \<Longrightarrow> esp k' = esp k \<and> locks k' = locks k \<and> disk_done k' = disk_done k"
  by (auto simp: schedule_def kl_defs res_simps Let_def split_beta neq_Nil_conv
      split: if_splits list.splits dest!: process_activate_frame thread_unblock_frame)

lemma thread_block_frame:
  "thread_block k s = Inr k' \<Longrightarrow> esp k' = esp k \<and> locks k' = locks k \<and> disk_done k' = disk_done k"
  by (auto simp: thread_block_def split_beta res_simps k_intr_set_status_def Let_def
      dest!: schedule_frame)

lemma sema_down_wait_in: "sema_down_wait k p = Inr k' \<Longrightarrow> running_thread k' \<in> set (waiters (sema_at k' p))"
proof -
  assume w: "sema_down_wait k p = Inr k'"
  let ?k = "upd_sema k p (\<lambda>s. s\<lparr>waiters := waiters (sema_at k p) @ [running_thread k]\<rparr>)"
  from w have "thread_block ?k TASK_BLOCKED = Inr k'"
    by (auto simp: sema_down_wait_def kl_defs res_simps)
  from thread_block_frame [OF this]
  have "sema_at k' p = sema_at ?k p" "running_thread k' = running_thread k"
    by (auto simp: sema_at_def running_thread_def split: semap.splits)
  then show ?thesis by simp
qed

lemma sema_down_loop_waiting:
  "value (sema_at k p) = 0 \<Longrightarrow> running_thread k \<in> set (waiters (sema_at k p)) \<Longrightarrow>
     sema_down_loop k p = Some (Inl (Panic ''!elem_find(&psema->waiters)''))"
  by (subst sema_down_loop.simps) (simp add: sema_down_wait_def kl_defs)

lemma sema_down_loop_total: "sema_down_loop k p \<noteq> None"
proof -
  have again: "sema_down_loop k' p \<noteq> None" if "running_thread k' \<in> set (waiters (sema_at k' p))" for k'
    using sema_down_loop_waiting [OF _ that] sema_down_loop_free [of k' p] by (cases "value (sema_at k' p) = 0") simp_all
  then show ?thesis by (subst sema_down_loop.simps) (auto split: sum.splits dest: sema_down_wait_in)
qed

text \<open>
  C12: \<open>sema_down\<close> never loops for ever: the loop ends from every state. For a kernel thread other than the idle thread, in a state of the
  scheduler invariant with interrupts off, it goes through at once and changes nothing when the semaphore is free; it stops at the assertion when the
  caller is a waiter already; otherwise it ends in its first turn, in which the caller becomes the last waiter, blocks, and the CPU goes to the
  thread that the scheduler picks, in the invariant.
\<close>

theorem sema_down_returns:
  assumes "sched_inv T k" "intr_off k" "running_thread k \<noteq> idle_thread k"
  shows "(\<forall>k' p'. sema_down_loop k' p' \<noteq> None) \<and>
    sema_down_loop k p = Some
      (if value (sema_at k p) \<noteq> 0 then Inr k
       else if running_thread k \<in> set (waiters (sema_at k p)) then Inl (Panic ''!elem_find(&psema->waiters)'')
       else Inl (Yield (wait_state k p))) \<and>
    (value (sema_at k p) = 0 \<and> running_thread k \<notin> set (waiters (sema_at k p)) \<longrightarrow>
      sema_at (wait_state k p) p = (sema_at k p)\<lparr>waiters := waiters (sema_at k p) @ [running_thread k]\<rparr> \<and>
      statuses (wait_state k p) = (statuses k)(running_thread k := TASK_BLOCKED, fst (pick k) := TASK_RUNNING) \<and>
      running_thread (wait_state k p) = fst (pick k) \<and> fst (pick k) \<noteq> running_thread k \<and>
      sched_inv T (wait_state k p) \<and> intr_off (wait_state k p))"
proof -
  note taken = sema_down_from_taken [OF assms(1,3,2)]
  have "sema_down_loop k p = Some
      (if value (sema_at k p) \<noteq> 0 then Inr k
       else if running_thread k \<in> set (waiters (sema_at k p)) then Inl (Panic ''!elem_find(&psema->waiters)'')
       else Inl (Yield (wait_state k p)))"
    using taken(7) sema_down_loop_free sema_down_loop_waiting by simp
  with sema_down_loop_total taken show ?thesis by blast
qed

theorem sema_down_returns_witness:
  "sema_down_loop (demo_kernel\<lparr>locks := \<lambda>_. held_lock 0xc0101000\<rparr>) (Sema_of Console_lock) =
     Some (Inl (Yield (wait_state (demo_kernel\<lparr>locks := \<lambda>_. held_lock 0xc0101000\<rparr>) (Sema_of Console_lock)))) \<and>
   running_thread (wait_state (demo_kernel\<lparr>locks := \<lambda>_. held_lock 0xc0101000\<rparr>) (Sema_of Console_lock)) = 0xc0101000"
proof -
  let ?k = "demo_kernel\<lparr>locks := \<lambda>_. held_lock 0xc0101000\<rparr>"
  have "sched_inv demo_threads ?k" "intr_off ?k" "running_thread ?k \<noteq> idle_thread ?k"
    using demo_inv by (simp_all add: intr_off_def)
  from sema_down_returns [OF this, of "Sema_of Console_lock"] show ?thesis
    by (simp add: held_lock_def pick_def)
qed

end
