(* ===== verification/Memory.thy ===== *)
theory Memory
  imports Sync
begin

unbundle bit_operations_syntax

text \<open>
  \<^verbatim>\<open>kernel/memory.c\<close>: the physical pools, the virtual address pools, the page tables, whole-page
  allocation, the arenas behind \<open>sys_malloc\<close> and \<open>sys_free\<close>. A \<open>struct pool *\<close> is the
  \<open>pool_flags\<close> value of the pool. A function that blocks on a lock of a pool is \<open>Yield\<close>.
  Clearing a page writes its frame through the MMU and resets what the state keeps for that page (bytes, PCB,
  arena header).
\<close>

section \<open>Pools\<close>

definition MEM_BITMAP_BASE :: u32 where
  "MEM_BITMAP_BASE = 0xc009a000"

definition K_HEAP_START :: u32 where
  "K_HEAP_START = 0xc0100000"

definition pool_of :: "kernel \<Rightarrow> pool_flags \<Rightarrow> pool" where
  "pool_of k pf = (case pf of PF_KERNEL \<Rightarrow> kernel_pool k | PF_USER \<Rightarrow> user_pool k)"

definition pool_lock :: "pool_flags \<Rightarrow> lockp" where
  "pool_lock pf = (case pf of PF_KERNEL \<Rightarrow> Kernel_pool_lock | PF_USER \<Rightarrow> User_pool_lock)"

definition k_bitmap_init :: "kernel \<Rightarrow> bitmap \<Rightarrow> kernel kres" where
  "k_bitmap_init k b = bnd (bitmap_init (vmem k) b) (\<lambda>m. Inr (k\<lparr>vmem := m\<rparr>))"

definition k_bitmap_set :: "kernel \<Rightarrow> bitmap \<Rightarrow> u32 \<Rightarrow> u8 \<Rightarrow> kernel kres" where
  "k_bitmap_set k b idx v = bnd (bitmap_set (vmem k) b idx v) (\<lambda>m. Inr (k\<lparr>vmem := m\<rparr>))"

definition mem_pool_init :: "kernel \<Rightarrow> u32 \<Rightarrow> kernel kres" where
  "mem_pool_init k all_memory =
     (let page_table_size = PG_SIZE * 256;
          used_mem = page_table_size + 0x100000;
          free_mem = all_memory - used_mem;
          free_pages = ucast (free_mem div PG_SIZE) :: u16;
          kernel_free_pages = free_pages div 2;
          user_free_pages = free_pages - kernel_free_pages;
          kernel_bitmap_length = ucast (kernel_free_pages div 8) :: u32;
          user_bitmap_length = ucast (user_free_pages div 8) :: u32;
          kernel_pool_start = used_mem;
          user_pool_start = kernel_pool_start + ucast kernel_free_pages * PG_SIZE;
          kb = \<lparr>btmp_bytes_len = kernel_bitmap_length, bits = MEM_BITMAP_BASE\<rparr>;
          ub = \<lparr>btmp_bytes_len = user_bitmap_length, bits = MEM_BITMAP_BASE + kernel_bitmap_length\<rparr>;
          vb = \<lparr>btmp_bytes_len = kernel_bitmap_length,
                bits = MEM_BITMAP_BASE + kernel_bitmap_length + user_bitmap_length\<rparr>;
          k = k\<lparr>kernel_pool := \<lparr>pool_bitmap = kb, phy_addr_start = kernel_pool_start,
                                pool_size = ucast kernel_free_pages * PG_SIZE\<rparr>,
                user_pool := \<lparr>pool_bitmap = ub, phy_addr_start = user_pool_start,
                              pool_size = ucast user_free_pages * PG_SIZE\<rparr>\<rparr>
      in bnd (k_bitmap_init k kb) (\<lambda>k.
         bnd (k_bitmap_init k ub) (\<lambda>k.
         let k = lock_init (lock_init k Kernel_pool_lock) User_pool_lock;
             k = k\<lparr>kernel_vaddr := \<lparr>vaddr_bitmap = vb, vaddr_start = K_HEAP_START\<rparr>\<rparr>
         in k_bitmap_init k vb)))"

text \<open>The loops that mark or clear a run of bits.\<close>

primrec set_run :: "kernel \<Rightarrow> bitmap \<Rightarrow> u32 \<Rightarrow> u8 \<Rightarrow> nat \<Rightarrow> kernel kres" where
  "set_run k b idx v 0 = Inr k"
| "set_run k b idx v (Suc n) = bnd (k_bitmap_set k b idx v) (\<lambda>k. set_run k b (idx + 1) v n)"

definition vaddr_get :: "kernel \<Rightarrow> pool_flags \<Rightarrow> u32 \<Rightarrow> (u32 \<times> kernel) kres" where
  "vaddr_get k pf pg_count =
     (let va = (case pf of PF_KERNEL \<Rightarrow> kernel_vaddr k
                | PF_USER \<Rightarrow> userprog_vaddr (tasks k (running_thread k)))
      in bnd (bitmap_scan (vmem k) (vaddr_bitmap va) pg_count) (\<lambda>bit_idx_start.
         if bit_idx_start = -1 then Inr (NULL, k)
         else bnd (set_run k (vaddr_bitmap va) bit_idx_start 1 (unat pg_count)) (\<lambda>k.
              let start = vaddr_start va + bit_idx_start * PG_SIZE
              in if pf = PF_USER
                 then bnd (ASSERT (start < 0xc0000000 - PG_SIZE) ''vaddr_start < 0xc0000000 - PG_SIZE'') (\<lambda>_.
                      Inr (start, k))
                 else Inr (start, k))))"

definition palloc :: "kernel \<Rightarrow> pool_flags \<Rightarrow> (u32 \<times> kernel) kres" where
  "palloc k pf =
     (let m_pool = pool_of k pf
      in bnd (bitmap_scan (vmem k) (pool_bitmap m_pool) 1) (\<lambda>bit_index.
         if bit_index = -1 then Inr (NULL, k)
         else bnd (k_bitmap_set k (pool_bitmap m_pool) bit_index 1) (\<lambda>k.
              Inr (bit_index * PG_SIZE + phy_addr_start m_pool, k))))"

section \<open>Page tables\<close>

text \<open>\<open>memset\<close> of one page of zeros at a page-aligned virtual address.\<close>

definition clear_page :: "kernel \<Rightarrow> u32 \<Rightarrow> kernel kres" where
  "clear_page k va =
     (case mmu_walk k va of
        None \<Rightarrow> Inl (Fault ''page fault'')
      | Some pa \<Rightarrow>
          Inr (k\<lparr>pmem := (\<lambda>a. if page_of a = page_of pa then 0 else pmem k a),
                 vmem := (\<lambda>a. if page_of a = page_of va then 0 else vmem k a),
                 tasks := (tasks k)(page_of va := zero_task),
                 arenas := (arenas k)(page_of va := \<lparr>desc = Desc_null, cnt = 0, large = False\<rparr>),
                 thread_stacks := (\<lambda>a. if page_of a = page_of va then zero_tstack else thread_stacks k a),
                 intr_stacks := (\<lambda>a. if page_of a = page_of va then zero_istack else intr_stacks k a)\<rparr>))"

primrec clear_pages :: "kernel \<Rightarrow> u32 \<Rightarrow> nat \<Rightarrow> kernel kres" where
  "clear_pages k va 0 = Inr k"
| "clear_pages k va (Suc n) = bnd (clear_page k va) (\<lambda>k. clear_pages k (va + PG_SIZE) n)"

definition page_table_add :: "kernel \<Rightarrow> u32 \<Rightarrow> u32 \<Rightarrow> kernel kres" where
  "page_table_add k vaddr page_phyaddr =
     (let pde = pde_ptr vaddr; pte = pte_ptr vaddr;
          entry = page_phyaddr OR PG_US_U OR PG_RW_W OR PG_P_1
      in bnd (vread32 k pde) (\<lambda>pdev.
         if pdev AND 1 \<noteq> 0 then
           bnd (vread32 k pte) (\<lambda>ptev.
           if \<not> ptev AND 1 \<noteq> 0 then vwrite32 k pte entry else Inl (Panic ''pte repeat''))
         else
           bnd (palloc k PF_KERNEL) (\<lambda>(pde_phyaddr, k).
           bnd (vwrite32 k pde (pde_phyaddr OR PG_US_U OR PG_RW_W OR PG_P_1)) (\<lambda>k.
           bnd (clear_page k (pte AND 0xfffff000)) (\<lambda>k.
           bnd (vread32 k pte) (\<lambda>ptev.
           bnd (ASSERT (\<not> ptev AND 1 \<noteq> 0) ''!(*pte & 0x00000001)'') (\<lambda>_.
             vwrite32 k pte entry)))))))"

primrec malloc_page_loop :: "kernel \<Rightarrow> pool_flags \<Rightarrow> u32 \<Rightarrow> nat \<Rightarrow> (bool \<times> kernel) kres" where
  "malloc_page_loop k pf vaddr 0 = Inr (True, k)"
| "malloc_page_loop k pf vaddr (Suc count) =
     bnd (palloc k pf) (\<lambda>(page_phyaddr, k).
       if page_phyaddr = NULL then Inr (False, k)
       else bnd (page_table_add k vaddr page_phyaddr) (\<lambda>k.
            malloc_page_loop k pf (vaddr + PG_SIZE) count))"

definition malloc_page :: "kernel \<Rightarrow> pool_flags \<Rightarrow> u32 \<Rightarrow> (u32 \<times> kernel) kres" where
  "malloc_page k pf page_count =
     bnd (ASSERT (page_count > 0 \<and> page_count < 3840) ''page_count > 0 && page_count < 3840'') (\<lambda>_.
     bnd (vaddr_get k pf page_count) (\<lambda>(vaddr_start, k).
     if vaddr_start = NULL then Inr (NULL, k)
     else bnd (malloc_page_loop k pf vaddr_start (unat page_count)) (\<lambda>(ok, k).
          Inr (if ok then vaddr_start else NULL, k))))"

definition get_pages :: "kernel \<Rightarrow> pool_flags \<Rightarrow> u32 \<Rightarrow> (u32 \<times> kernel) kres" where
  "get_pages k pf page_count =
     bnd (lock_acquire k (pool_lock pf)) (\<lambda>k.
     bnd (malloc_page k pf page_count) (\<lambda>(vaddr, k).
     bnd (if vaddr \<noteq> NULL then clear_pages k vaddr (unat page_count) else Inr k) (\<lambda>k.
     bnd (lock_release k (pool_lock pf)) (\<lambda>k.
       Inr (vaddr, k)))))"

definition get_kernel_pages :: "kernel \<Rightarrow> u32 \<Rightarrow> (u32 \<times> kernel) kres" where
  "get_kernel_pages k page_count = get_pages k PF_KERNEL page_count"

definition get_user_pages :: "kernel \<Rightarrow> u32 \<Rightarrow> (u32 \<times> kernel) kres" where
  "get_user_pages k page_count = get_pages k PF_USER page_count"

text \<open>When \<open>palloc\<close> gives null the source returns without releasing the lock.\<close>

definition get_a_page :: "kernel \<Rightarrow> pool_flags \<Rightarrow> u32 \<Rightarrow> (u32 \<times> kernel) kres" where
  "get_a_page k pf vaddr =
     bnd (lock_acquire k (pool_lock pf)) (\<lambda>k.
     let cur = tasks k (running_thread k)
     in bnd (if pgdir cur \<noteq> NULL \<and> pf = PF_USER then
               let bit_idx = (vaddr - vaddr_start (userprog_vaddr cur)) div PG_SIZE
               in bnd (ASSERT (0 \<le>s bit_idx) ''bit_idx >= 0'') (\<lambda>_.
                  k_bitmap_set k (vaddr_bitmap (userprog_vaddr cur)) bit_idx 1)
             else if pgdir cur = NULL \<and> pf = PF_KERNEL then
               let bit_idx = (vaddr - vaddr_start (kernel_vaddr k)) div PG_SIZE
               in bnd (ASSERT (0 <s bit_idx) ''bit_idx > 0'') (\<lambda>_.
                  k_bitmap_set k (vaddr_bitmap (kernel_vaddr k)) bit_idx 1)
             else Inl (Panic ''get_a_page:not allow kernel alloc userspace or user alloc kernelspace'')) (\<lambda>k.
        bnd (palloc k pf) (\<lambda>(page_phyaddr, k).
        if page_phyaddr = NULL then Inr (NULL, k)
        else bnd (page_table_add k vaddr page_phyaddr) (\<lambda>k.
             bnd (lock_release k (pool_lock pf)) (\<lambda>k.
             Inr (vaddr, k))))))"

definition get_a_page_without_opvaddrbitmap :: "kernel \<Rightarrow> pool_flags \<Rightarrow> u32 \<Rightarrow> (u32 \<times> kernel) kres" where
  "get_a_page_without_opvaddrbitmap k pf vaddr =
     bnd (lock_acquire k (pool_lock pf)) (\<lambda>k.
     bnd (palloc k pf) (\<lambda>(page_phyaddr, k).
     if page_phyaddr = NULL then
       bnd (lock_release k (pool_lock pf)) (\<lambda>k. Inr (NULL, k))
     else bnd (page_table_add k vaddr page_phyaddr) (\<lambda>k.
          bnd (lock_release k (pool_lock pf)) (\<lambda>k.
          Inr (vaddr, k)))))"

section \<open>Releasing pages\<close>

definition pfree :: "kernel \<Rightarrow> u32 \<Rightarrow> kernel kres" where
  "pfree k pg_phy_addr =
     (if pg_phy_addr > phy_addr_start (user_pool k)
      then k_bitmap_set k (pool_bitmap (user_pool k))
             ((pg_phy_addr - phy_addr_start (user_pool k)) div PG_SIZE) 0
      else k_bitmap_set k (pool_bitmap (kernel_pool k))
             ((pg_phy_addr - phy_addr_start (kernel_pool k)) div PG_SIZE) 0)"

definition free_a_phy_page :: "kernel \<Rightarrow> u32 \<Rightarrow> kernel kres" where
  "free_a_phy_page k pg_phy_addr =
     (if pg_phy_addr \<ge> phy_addr_start (user_pool k)
      then k_bitmap_set k (pool_bitmap (user_pool k))
             ((pg_phy_addr - phy_addr_start (user_pool k)) div PG_SIZE) 0
      else k_bitmap_set k (pool_bitmap (kernel_pool k))
             ((pg_phy_addr - phy_addr_start (kernel_pool k)) div PG_SIZE) 0)"

definition vaddr_remove :: "kernel \<Rightarrow> pool_flags \<Rightarrow> u32 \<Rightarrow> u32 \<Rightarrow> kernel kres" where
  "vaddr_remove k pf vaddr pg_cnt =
     (let va = (case pf of PF_KERNEL \<Rightarrow> kernel_vaddr k
                | PF_USER \<Rightarrow> userprog_vaddr (tasks k (running_thread k)));
          bm_idx_start = (vaddr - vaddr_start va) div PG_SIZE
      in set_run k (vaddr_bitmap va) bm_idx_start 0 (unat pg_cnt))"

primrec mfree_loop :: "kernel \<Rightarrow> pool_flags \<Rightarrow> u32 \<Rightarrow> nat \<Rightarrow> kernel kres" where
  "mfree_loop k pf vaddr 0 = Inr k"
| "mfree_loop k pf vaddr (Suc n) =
     bnd (addr_v2p k vaddr) (\<lambda>pg_phy_addr.
     bnd (ASSERT (pg_phy_addr mod PG_SIZE = 0 \<and>
            (case pf of PF_USER \<Rightarrow> pg_phy_addr \<ge> phy_addr_start (user_pool k)
             | PF_KERNEL \<Rightarrow> pg_phy_addr < phy_addr_start (user_pool k) \<and>
                 pg_phy_addr \<ge> phy_addr_start (kernel_pool k))) ''pg_phy_addr'') (\<lambda>_.
     bnd (pfree k pg_phy_addr) (\<lambda>k.
     bnd (page_table_pte_remove k vaddr) (\<lambda>k.
     mfree_loop k pf (vaddr + PG_SIZE) n))))"

definition mfree_page :: "kernel \<Rightarrow> pool_flags \<Rightarrow> u32 \<Rightarrow> u32 \<Rightarrow> kernel kres" where
  "mfree_page k pf vaddr pg_cnt =
     bnd (ASSERT (pg_cnt \<ge> 1 \<and> vaddr mod PG_SIZE = 0) ''pg_cnt >=1 && vaddr % PG_SIZE == 0'') (\<lambda>_.
     bnd (addr_v2p k vaddr) (\<lambda>pg_phy_addr.
     bnd (ASSERT (pg_phy_addr mod PG_SIZE = 0 \<and> pg_phy_addr > 0x102000) ''pg_phy_addr > 0x102000'') (\<lambda>_.
     bnd (ASSERT (pf = (if pg_phy_addr \<ge> phy_addr_start (user_pool k) then PF_USER else PF_KERNEL)) ''pf'') (\<lambda>_.
     bnd (mfree_loop k pf vaddr (unat pg_cnt)) (\<lambda>k.
       vaddr_remove k pf vaddr pg_cnt)))))"

section \<open>Page frames\<close>

lemma pool_of_vmem [simp]: "pool_of (k\<lparr>vmem := m\<rparr>) pf = pool_of k pf"
  by (simp add: pool_of_def split: pool_flags.splits)

definition frame_used :: "kernel \<Rightarrow> pool_flags \<Rightarrow> nat \<Rightarrow> bool" where
  "frame_used k pf i = bm_bit (vmem k) (pool_bitmap (pool_of k pf)) i"

definition frames :: "kernel \<Rightarrow> pool_flags \<Rightarrow> nat" where
  "frames k pf = bm_len (pool_bitmap (pool_of k pf))"

definition frame_addr :: "kernel \<Rightarrow> pool_flags \<Rightarrow> nat \<Rightarrow> u32" where
  "frame_addr k pf i = of_nat i * PG_SIZE + phy_addr_start (pool_of k pf)"

text \<open>The frames of the kernel pool lie below those of the user pool, and both below 4 GB.\<close>

definition pools_ok :: "kernel \<Rightarrow> bool" where
  "pools_ok k \<longleftrightarrow>
     bm_wf (pool_bitmap (kernel_pool k)) \<and> bm_wf (pool_bitmap (user_pool k)) \<and>
     unat (phy_addr_start (kernel_pool k)) + 4096 * frames k PF_KERNEL \<le> unat (phy_addr_start (user_pool k)) \<and>
     unat (phy_addr_start (user_pool k)) + 4096 * frames k PF_USER \<le> 2 ^ 32"

lemma pools_ok_wf: "pools_ok k \<Longrightarrow> bm_wf (pool_bitmap (pool_of k pf))"
  by (cases pf) (simp_all add: pools_ok_def pool_of_def)

lemma of_nat_neq_minus_1: "n < 2 ^ 31 \<Longrightarrow> (of_nat n :: u32) \<noteq> - 1"
proof
  assume n: "n < 2 ^ 31" and "(of_nat n :: u32) = - 1"
  moreover have "(- 1 :: u32) = 0xffffffff" by simp
  ultimately have "unat (of_nat n :: u32) = unat (0xffffffff :: u32)" by metis
  with n show False by simp
qed

lemma palloc_step:
  assumes wf: "bm_wf (pool_bitmap (pool_of k pf))" and free: "\<exists>i < frames k pf. \<not> frame_used k pf i"
  shows "\<exists>i m'. i < frames k pf \<and> \<not> frame_used k pf i \<and> (\<forall>j<i. frame_used k pf j) \<and>
           (bitmap_set (vmem k) (pool_bitmap (pool_of k pf)) (of_nat i) 1 :: (kernel, bytes) res) = Inr m' \<and>
           palloc k pf = Inr (frame_addr k pf i, k\<lparr>vmem := m'\<rparr>)"
proof -
  let ?b = "pool_bitmap (pool_of k pf)"
  from free obtain j where j: "j < bm_len ?b" "\<not> bm_bit (vmem k) ?b j" by (auto simp: frames_def frame_used_def)
  from bm.scan_free [OF wf j, where 'a = kernel] obtain i where
    i: "i < bm_len ?b" "(bitmap_scan (vmem k) ?b 1 :: (kernel, u32) res) = Inr (of_nat i)"
      "\<not> bm_bit (vmem k) ?b i" "\<forall>j<i. bm_bit (vmem k) ?b j" by blast
  obtain m' where m': "(bitmap_set (vmem k) ?b (of_nat i) 1 :: (kernel, bytes) res) = Inr m'"
    using bm.upd_ok by blast
  have "(of_nat i :: u32) \<noteq> - 1" using i(1) bm.cap_less [OF wf] by (intro of_nat_neq_minus_1) simp
  with i m' have "palloc k pf = Inr (frame_addr k pf i, k\<lparr>vmem := m'\<rparr>)"
    by (simp add: palloc_def k_bitmap_set_def frame_addr_def Let_def)
  with i m' show ?thesis by (auto simp: frames_def frame_used_def)
qed

lemma frame_used_set:
  assumes "bm_wf (pool_bitmap (pool_of k pf))" "i < frames k pf" "j < frames k pf"
    and "(bitmap_set (vmem k) (pool_bitmap (pool_of k pf)) (of_nat i) v :: (kernel, bytes) res) = Inr m'"
  shows "frame_used (k\<lparr>vmem := m'\<rparr>) pf j \<longleftrightarrow> (if j = i then v = 1 else frame_used k pf j)"
proof -
  have "i < 2 ^ 32" using assms(1,2) bm.cap_less by (fastforce simp: frames_def)
  with bm.upd_used [OF assms(4), of j] assms(3) show ?thesis by (simp add: frame_used_def frames_def)
qed

lemma palloc_full:
  assumes "\<not> (\<exists>i < frames k pf. \<not> frame_used k pf i)"
  shows "\<exists>e. palloc k pf = Inl (Panic e)"
proof -
  have "\<forall>i < bm_len (pool_bitmap (pool_of k pf)). bm_bit (vmem k) (pool_bitmap (pool_of k pf)) i"
    using assms by (auto simp: frames_def frame_used_def)
  then show ?thesis
    using scan_bytes_full_iff [of "vmem k" "pool_bitmap (pool_of k pf)"]
    by (auto simp: palloc_def bitmap_scan_def Let_def)
qed

text \<open>
  While the pool has a free frame, \<open>palloc\<close> returns the address of the first free one and
  marks exactly that frame; when there is none, the kernel panics.
\<close>

theorem palloc_first_free:
  assumes "pools_ok k"
  shows "if \<exists>i < frames k pf. \<not> frame_used k pf i
         then \<exists>i k'. palloc k pf = Inr (frame_addr k pf i, k') \<and> i < frames k pf \<and>
                \<not> frame_used k pf i \<and> (\<forall>j < i. frame_used k pf j) \<and>
                (\<forall>j < frames k pf. frame_used k' pf j \<longleftrightarrow> j = i \<or> frame_used k pf j)
         else \<exists>e. palloc k pf = Inl (Panic e)"
proof (cases "\<exists>i < frames k pf. \<not> frame_used k pf i")
  case True
  from palloc_step [OF pools_ok_wf [OF assms] True] obtain i m' where
    i: "i < frames k pf" "\<not> frame_used k pf i" "\<forall>j<i. frame_used k pf j"
      "(bitmap_set (vmem k) (pool_bitmap (pool_of k pf)) (of_nat i) 1 :: (kernel, bytes) res) = Inr m'"
      "palloc k pf = Inr (frame_addr k pf i, k\<lparr>vmem := m'\<rparr>)" by blast
  with frame_used_set [OF pools_ok_wf [OF assms] i(1) _ i(4)] True show ?thesis by auto
next
  case False
  with palloc_full [OF this] show ?thesis by (simp only: if_False)
qed

lemma frame_addr_unat:
  assumes "pools_ok k" "i < frames k pf"
  shows "unat (frame_addr k pf i) = unat (phy_addr_start (pool_of k pf)) + 4096 * i"
proof -
  have b: "unat (phy_addr_start (pool_of k pf)) + 4096 * i < 2 ^ 32"
    using assms by (cases pf) (auto simp: pools_ok_def pool_of_def frames_def)
  then have i: "i < 2 ^ 20" by simp
  have "unat (of_nat i * PG_SIZE :: u32) = 4096 * i" using i by (simp add: PG_SIZE_def unat_word_ariths)
  with b show ?thesis by (simp add: frame_addr_def unat_word_ariths)
qed

lemma frame_addr_index:
  assumes "pools_ok k" "i < frames k pf"
  shows "(frame_addr k pf i - phy_addr_start (pool_of k pf)) div PG_SIZE = of_nat i"
proof -
  have b: "unat (phy_addr_start (pool_of k pf)) + 4096 * i < 2 ^ 32"
    using assms by (cases pf) (auto simp: pools_ok_def pool_of_def frames_def)
  then have i: "i < 2 ^ 20" by simp
  have "unat (of_nat i * PG_SIZE div PG_SIZE :: u32) = i"
    using i by (simp add: PG_SIZE_def unat_div unat_word_ariths)
  then show ?thesis using i by (simp add: frame_addr_def word_unat_eq_iff)
qed

text \<open>Both ways of releasing a frame, except \<open>pfree\<close> of the first user frame.\<close>

lemma free_frame:
  assumes ok: "pools_ok k" and i: "i < frames k pf"
  shows "free_a_phy_page k (frame_addr k pf i) = k_bitmap_set k (pool_bitmap (pool_of k pf)) (of_nat i) 0"
    and "pf = PF_KERNEL \<or> 0 < i \<Longrightarrow>
      pfree k (frame_addr k pf i) = k_bitmap_set k (pool_bitmap (pool_of k pf)) (of_nat i) 0"
proof -
  note addr = frame_addr_unat [OF ok i] and idx = frame_addr_index [OF ok i]
  show "free_a_phy_page k (frame_addr k pf i) = k_bitmap_set k (pool_bitmap (pool_of k pf)) (of_nat i) 0"
    using addr idx i ok by (cases pf)
      (auto simp: free_a_phy_page_def pool_of_def word_le_nat_alt pools_ok_def frames_def)
  show "pfree k (frame_addr k pf i) = k_bitmap_set k (pool_bitmap (pool_of k pf)) (of_nat i) 0"
    if "pf = PF_KERNEL \<or> 0 < i"
    using that addr idx i ok by (cases pf)
      (auto simp: pfree_def pool_of_def word_less_nat_alt pools_ok_def frames_def)
qed

text \<open>
  A frame that \<open>palloc\<close> hands out and \<open>free_a_phy_page\<close> takes back leaves the pool as it
  was; the same holds for \<open>pfree\<close>, unless the frame is the first one of the user pool.
\<close>

theorem palloc_free_roundtrip:
  assumes ok: "pools_ok k" and alloc: "palloc k pf = Inr (pa, k1)" and pa: "pa \<noteq> NULL"
  shows "(\<exists>k2. free_a_phy_page k1 pa = Inr k2 \<and> (\<forall>j < frames k pf. frame_used k2 pf j = frame_used k pf j)) \<and>
         (pa \<noteq> phy_addr_start (user_pool k) \<longrightarrow>
           (\<exists>k2. pfree k1 pa = Inr k2 \<and> (\<forall>j < frames k pf. frame_used k2 pf j = frame_used k pf j)))"
proof -
  let ?b = "pool_bitmap (pool_of k pf)"
  have free: "\<exists>i < frames k pf. \<not> frame_used k pf i"
    using palloc_full [of k pf] alloc by (metis Inl_Inr_False)
  from palloc_step [OF pools_ok_wf [OF ok] this] alloc obtain i m1 where
    i: "i < frames k pf" "\<not> frame_used k pf i" "pa = frame_addr k pf i" "k1 = k\<lparr>vmem := m1\<rparr>"
      "(bitmap_set (vmem k) ?b (of_nat i) 1 :: (kernel, bytes) res) = Inr m1" by fastforce
  have same: "pools_ok k1" "i < frames k1 pf" "frame_addr k1 pf i = pa" "pool_of k1 pf = pool_of k pf"
    using ok i by (simp_all add: pools_ok_def frames_def frame_addr_def pool_of_def split: pool_flags.splits)
  obtain m2 where m2: "(bitmap_set m1 ?b (of_nat i) 0 :: (kernel, bytes) res) = Inr m2"
    using bm.upd_ok by blast
  have "frame_used (k\<lparr>vmem := m2\<rparr>) pf j = frame_used k pf j" if j: "j < frames k pf" for j
    using frame_used_set [OF pools_ok_wf [OF ok] i(1) j i(5)]
      frame_used_set [OF pools_ok_wf [OF same(1)] same(2), of j 0 m2] j i m2
    by (simp add: frames_def split: if_splits)
  moreover have "k_bitmap_set k1 ?b (of_nat i) 0 = Inr (k\<lparr>vmem := m2\<rparr>)"
    using m2 i(4) by (simp add: k_bitmap_set_def)
  moreover have "pf = PF_KERNEL \<or> 0 < i" if "pa \<noteq> phy_addr_start (user_pool k)"
    using that i(3) by (cases pf; cases i) (simp_all add: frame_addr_def pool_of_def)
  ultimately show ?thesis using free_frame [OF same(1,2)] same(3,4) by auto
qed

section \<open>The pools at boot\<close>

lemma unat_ucast_u16: "unat (ucast (x :: u16) :: u32) = unat x"
proof -
  have "unat x < 2 ^ 16" by (rule less_le_trans [OF unsigned_less]) simp
  then show ?thesis by (simp add: unsigned_ucast_eq take_bit_nat_eq_self)
qed

lemma unat_ucast_to_u16: "unat (ucast (x :: u32) :: u16) = unat x mod 65536"
  by (simp add: unsigned_ucast_eq take_bit_eq_mod)

lemma unat_pages: "m < 65536 \<Longrightarrow> unat (of_nat m * PG_SIZE :: u32) = 4096 * m"
  by (simp add: PG_SIZE_def unat_word_ariths)

lemma pages_div: "m < 65536 \<Longrightarrow> of_nat m * PG_SIZE div PG_SIZE = (of_nat m :: u32)"
  by (simp add: word_unat_eq_iff unat_div unat_pages) (simp add: PG_SIZE_def)

lemma bitmap_init_zero:
  "bits b \<noteq> NULL \<Longrightarrow>
     bitmap_init m b = Inr (\<lambda>x. if x \<in> region (bits b) (unat (btmp_bytes_len b)) then 0 else m x)"
  by (simp add: bitmap_init_def memset_def memset_loop_eq)

lemma bm_bit_zero:
  "i < bm_len b \<Longrightarrow> (\<And>x. x \<in> region (bits b) (unat (btmp_bytes_len b)) \<Longrightarrow> m x = 0) \<Longrightarrow> \<not> bm_bit m b i"
  using regionI [OF bm_len_div, of i b "bits b"] by (simp add: bm_bit_def)

text \<open>The number of free pages, as the 16-bit variable of the source holds it.\<close>

definition boot_pages :: "u32 \<Rightarrow> nat" where
  "boot_pages all_memory = (unat all_memory - 0x200000) div 4096 mod 65536"

lemma pool_lengths:
  assumes "0x200000 \<le> all_memory"
  defines "fp \<equiv> ucast ((all_memory - (PG_SIZE * 256 + 0x100000)) div PG_SIZE) :: u16"
  shows "unat fp = boot_pages all_memory" "unat (fp div 2) = boot_pages all_memory div 2"
    "unat (fp - fp div 2) = boot_pages all_memory - boot_pages all_memory div 2"
    "unat (ucast ((fp div 2) div 8) :: u32) = boot_pages all_memory div 2 div 8"
    "unat (ucast ((fp - fp div 2) div 8) :: u32) = (boot_pages all_memory - boot_pages all_memory div 2) div 8"
proof -
  have "unat (all_memory - 0x200000) = unat all_memory - 0x200000"
    using assms(1) by (simp add: unat_sub word_le_nat_alt)
  then show fp: "unat fp = boot_pages all_memory"
    by (simp add: fp_def unat_ucast_to_u16 PG_SIZE_def boot_pages_def unat_div)
  show half: "unat (fp div 2) = boot_pages all_memory div 2" by (simp add: unat_div fp)
  have "fp div 2 \<le> fp" by (simp add: word_le_nat_alt unat_div)
  then show rest: "unat (fp - fp div 2) = boot_pages all_memory - boot_pages all_memory div 2"
    by (simp add: unat_sub fp half)
  show "unat (ucast ((fp div 2) div 8) :: u32) = boot_pages all_memory div 2 div 8"
    "unat (ucast ((fp - fp div 2) div 8) :: u32) = (boot_pages all_memory - boot_pages all_memory div 2) div 8"
    by (simp_all add: unat_ucast_u16 unat_div fp rest)
qed

lemma mem_pool_init_state:
  assumes "0x200000 \<le> all_memory"
  defines "n \<equiv> boot_pages all_memory"
  shows "\<exists>k' kb ub vb. mem_pool_init k all_memory = Inr k' \<and>
    kb = \<lparr>btmp_bytes_len = of_nat (n div 2 div 8), bits = MEM_BITMAP_BASE\<rparr> \<and>
    ub = \<lparr>btmp_bytes_len = of_nat ((n - n div 2) div 8), bits = MEM_BITMAP_BASE + of_nat (n div 2 div 8)\<rparr> \<and>
    btmp_bytes_len vb = of_nat (n div 2 div 8) \<and>
    kernel_pool k' = \<lparr>pool_bitmap = kb, phy_addr_start = 0x200000, pool_size = of_nat (n div 2) * PG_SIZE\<rparr> \<and>
    user_pool k' = \<lparr>pool_bitmap = ub, phy_addr_start = 0x200000 + of_nat (n div 2) * PG_SIZE,
                    pool_size = of_nat (n - n div 2) * PG_SIZE\<rparr> \<and>
    kernel_vaddr k' = \<lparr>vaddr_bitmap = vb, vaddr_start = K_HEAP_START\<rparr> \<and>
    (\<forall>b\<in>{kb, ub, vb}. \<forall>x \<in> region (bits b) (unat (btmp_bytes_len b)). vmem k' x = 0) \<and>
    locks k' Kernel_pool_lock = free_lock \<and> locks k' User_pool_lock = free_lock"
proof -
  let ?fp = "ucast ((all_memory - (PG_SIZE * 256 + 0x100000)) div PG_SIZE) :: u16"
  have n: "n < 65536" by (simp add: n_def boot_pages_def)
  note len = pool_lengths [OF assms(1), folded n_def]
  have of: "x = of_nat (unat x)" for x :: u32 by simp
  have w: "ucast ((?fp div 2) div 8) = (of_nat (n div 2 div 8) :: u32)"
    "ucast ((?fp - ?fp div 2) div 8) = (of_nat ((n - n div 2) div 8) :: u32)"
    "ucast (?fp div 2) = (of_nat (n div 2) :: u32)" "ucast (?fp - ?fp div 2) = (of_nat (n - n div 2) :: u32)"
    using len by (metis of unat_ucast_u16)+
  have nz: "MEM_BITMAP_BASE + of_nat i \<noteq> NULL" "MEM_BITMAP_BASE + of_nat i + of_nat j \<noteq> NULL"
    if "i < 65536" "j < 65536" for i j
  proof -
    have "unat (MEM_BITMAP_BASE + of_nat i) = 0xc009a000 + i"
      "unat (MEM_BITMAP_BASE + of_nat i + of_nat j) = 0xc009a000 + i + j"
      using that by (simp_all add: MEM_BITMAP_BASE_def unat_word_ariths)
    then show "MEM_BITMAP_BASE + of_nat i \<noteq> NULL" "MEM_BITMAP_BASE + of_nat i + of_nat j \<noteq> NULL"
      by (metis unat_0 add_is_0 zero_neq_numeral)+
  qed
  have small: "n div 2 div 8 < 65536" "(n - n div 2) div 8 < 65536" using n by simp_all
  have base: "MEM_BITMAP_BASE \<noteq> NULL" by (simp add: MEM_BITMAP_BASE_def)
  have li: "vmem (lock_init k' l) = vmem k'" "kernel_pool (lock_init k' l) = kernel_pool k'"
    "user_pool (lock_init k' l) = user_pool k'" for k' l
    by (simp_all add: lock_init_def sema_init_def upd_sema_def upd_lock_def)
  have lf: "locks (lock_init k' l) l' = (if l' = l then free_lock else locks k' l')" for k' l l'
    by (simp add: lock_init_def sema_init_def free_lock_def)
  show ?thesis
    unfolding mem_pool_init_def Let_def w
    by (simp add: k_bitmap_init_def bitmap_init_zero base nz [OF small] li lf PG_SIZE_def)
qed

lemma mem_pool_init_ok:
  assumes "0x200000 \<le> all_memory"
  shows "\<exists>k'. mem_pool_init k all_memory = Inr k' \<and> pools_ok k' \<and>
           (\<forall>pf. \<forall>i < frames k' pf. \<not> frame_used k' pf i) \<and>
           (\<forall>i < bm_len (vaddr_bitmap (kernel_vaddr k')). \<not> bm_bit (vmem k') (vaddr_bitmap (kernel_vaddr k')) i) \<and>
           locks k' Kernel_pool_lock = free_lock \<and> locks k' User_pool_lock = free_lock \<and>
           unat (pool_size (kernel_pool k')) + unat (pool_size (user_pool k')) = 4096 * boot_pages all_memory"
proof -
  let ?n = "boot_pages all_memory"
  have n: "?n < 65536" by (simp add: boot_pages_def)
  obtain k' kb ub vb where k': "mem_pool_init k all_memory = Inr k'"
    and kb: "kb = \<lparr>btmp_bytes_len = of_nat (?n div 2 div 8), bits = MEM_BITMAP_BASE\<rparr>"
    and ub: "ub = \<lparr>btmp_bytes_len = of_nat ((?n - ?n div 2) div 8), bits = MEM_BITMAP_BASE + of_nat (?n div 2 div 8)\<rparr>"
    and pools: "kernel_pool k' = \<lparr>pool_bitmap = kb, phy_addr_start = 0x200000, pool_size = of_nat (?n div 2) * PG_SIZE\<rparr>"
      "user_pool k' = \<lparr>pool_bitmap = ub, phy_addr_start = 0x200000 + of_nat (?n div 2) * PG_SIZE,
                      pool_size = of_nat (?n - ?n div 2) * PG_SIZE\<rparr>"
      "kernel_vaddr k' = \<lparr>vaddr_bitmap = vb, vaddr_start = K_HEAP_START\<rparr>"
    and zero: "\<forall>b\<in>{kb, ub, vb}. \<forall>x \<in> region (bits b) (unat (btmp_bytes_len b)). vmem k' x = 0"
    and locks: "locks k' Kernel_pool_lock = free_lock" "locks k' User_pool_lock = free_lock"
    using mem_pool_init_state [OF assms, of k] by blast
  have len: "bm_len kb = 8 * (?n div 2 div 8)" "bm_len ub = 8 * ((?n - ?n div 2) div 8)"
    using n by (simp_all add: kb ub bm_len_def)
  have start: "unat (0x200000 + of_nat (?n div 2) * PG_SIZE :: u32) = 0x200000 + 4096 * (?n div 2)"
    using n by (simp add: PG_SIZE_def unat_word_ariths)
  have "pools_ok k'"
    using n start len by (simp add: pools_ok_def pools bm_wf_def frames_def pool_of_def; intro conjI; linarith)
  moreover have "\<not> frame_used k' pf i" if "i < frames k' pf" for pf i
    using that zero bm_bit_zero [of i "pool_bitmap (pool_of k' pf)" "vmem k'"]
    by (cases pf) (auto simp: frame_used_def frames_def pool_of_def pools)
  moreover have "\<not> bm_bit (vmem k') vb i" if "i < bm_len vb" for i
    using that zero bm_bit_zero [of i vb "vmem k'"] by auto
  moreover have "unat (of_nat (?n div 2) * PG_SIZE :: u32) + unat (of_nat (?n - ?n div 2) * PG_SIZE :: u32) = 4096 * ?n"
    using unat_pages [of "?n div 2"] unat_pages [of "?n - ?n div 2"] n by linarith
  ultimately show ?thesis using k' pools locks by (intro exI [of _ k']) simp
qed

lemma mem_pool_init_placed:
  assumes mem: "0x200000 \<le> all_memory" and init: "mem_pool_init k all_memory = Inr k'"
  shows "phy_addr_start (kernel_pool k') = 0x200000"
    "unat (phy_addr_start (user_pool k')) = 0x200000 + unat (pool_size (kernel_pool k'))"
    "0x200000 + unat (pool_size (kernel_pool k')) + unat (pool_size (user_pool k')) \<le> unat all_memory"
    "frames k' pf = 8 * (unat (pool_size (pool_of k' pf)) div 4096 div 8)"
    "vaddr_start (kernel_vaddr k') = K_HEAP_START" "bm_len (vaddr_bitmap (kernel_vaddr k')) = frames k' PF_KERNEL"
proof -
  let ?n = "boot_pages all_memory"
  have n: "?n < 65536" "4096 * ?n \<le> unat all_memory - 0x200000"
    using div_times_less_eq_dividend [of "unat all_memory - 0x200000" 4096] by (auto simp: boot_pages_def)
  have ge: "0x200000 \<le> unat all_memory" using mem by (simp add: word_le_nat_alt)
  have s: "unat (of_nat m * PG_SIZE :: u32) = 4096 * m" if "m < 65536" for m
    using that by (simp add: PG_SIZE_def unat_word_ariths)
  have p: "phy_addr_start (kernel_pool k') = 0x200000" "pool_size (kernel_pool k') = of_nat (?n div 2) * PG_SIZE"
    "phy_addr_start (user_pool k') = 0x200000 + of_nat (?n div 2) * PG_SIZE" "pool_size (user_pool k') = of_nat (?n - ?n div 2) * PG_SIZE"
    "btmp_bytes_len (pool_bitmap (kernel_pool k')) = of_nat (?n div 2 div 8)"
    "btmp_bytes_len (pool_bitmap (user_pool k')) = of_nat ((?n - ?n div 2) div 8)"
    "vaddr_start (kernel_vaddr k') = K_HEAP_START" "btmp_bytes_len (vaddr_bitmap (kernel_vaddr k')) = of_nat (?n div 2 div 8)"
    using mem_pool_init_state [OF mem, of k] init by auto
  have sz: "unat (pool_size (kernel_pool k')) = 4096 * (?n div 2)" "unat (pool_size (user_pool k')) = 4096 * (?n - ?n div 2)"
    unfolding p by (rule s; use n(1) in linarith)+
  show "phy_addr_start (kernel_pool k') = 0x200000" "vaddr_start (kernel_vaddr k') = K_HEAP_START" using p by simp_all
  have "unat (0x200000 + of_nat (?n div 2) * PG_SIZE :: u32) = 0x200000 + unat (of_nat (?n div 2) * PG_SIZE :: u32)"
    using s [of "?n div 2"] n(1) by (simp add: unat_word_ariths)
  then show "unat (phy_addr_start (user_pool k')) = 0x200000 + unat (pool_size (kernel_pool k'))" by (simp add: p)
  show "0x200000 + unat (pool_size (kernel_pool k')) + unat (pool_size (user_pool k')) \<le> unat all_memory"
    unfolding sz using n(2) ge by linarith
  show "frames k' pf = 8 * (unat (pool_size (pool_of k' pf)) div 4096 div 8)"
    using n(1) sz by (cases pf) (simp_all add: frames_def pool_of_def bm_len_def p(5,6) unat_of_nat_u32)
  show "bm_len (vaddr_bitmap (kernel_vaddr k')) = frames k' PF_KERNEL"
    by (simp add: frames_def pool_of_def bm_len_def p)
qed

text \<open>
  C8: With at least 2 MB of memory \<open>mem_pool_init\<close> succeeds. The kernel pool starts at 2 MB, behind the kernel and its page tables, the user pool starts
  where the kernel pool ends, and it ends inside the memory; together they have \<open>boot_pages\<close> pages (the number of free pages is kept
  in a \<open>uint16_t\<close>, so memory beyond 258 MB is counted modulo \<open>2\<^sup>1\<^sup>6\<close> pages). The bitmaps stand for the pages of each pool rounded down to a multiple
  of 8. All these frames are free, the kernel's virtual address pool starts at the kernel heap and is empty, and both pool locks are free.
\<close>

theorem mem_pool_init_correct:
  assumes "0x200000 \<le> all_memory"
  shows "\<exists>k'. mem_pool_init k all_memory = Inr k' \<and> pools_ok k' \<and>
           phy_addr_start (kernel_pool k') = 0x200000 \<and>
           unat (phy_addr_start (user_pool k')) = 0x200000 + unat (pool_size (kernel_pool k')) \<and>
           0x200000 + unat (pool_size (kernel_pool k')) + unat (pool_size (user_pool k')) \<le> unat all_memory \<and>
           unat (pool_size (kernel_pool k')) + unat (pool_size (user_pool k')) = 4096 * boot_pages all_memory \<and>
           (\<forall>pf. frames k' pf = 8 * (unat (pool_size (pool_of k' pf)) div 4096 div 8) \<and>
                 (\<forall>i < frames k' pf. \<not> frame_used k' pf i)) \<and>
           vaddr_start (kernel_vaddr k') = K_HEAP_START \<and> bm_len (vaddr_bitmap (kernel_vaddr k')) = frames k' PF_KERNEL \<and>
           (\<forall>i < frames k' PF_KERNEL. \<not> bm_bit (vmem k') (vaddr_bitmap (kernel_vaddr k')) i) \<and>
           locks k' Kernel_pool_lock = free_lock \<and> locks k' User_pool_lock = free_lock"
proof -
  obtain k' where k': "mem_pool_init k all_memory = Inr k'" "pools_ok k'"
      "\<forall>pf. \<forall>i < frames k' pf. \<not> frame_used k' pf i"
      "\<forall>i < bm_len (vaddr_bitmap (kernel_vaddr k')). \<not> bm_bit (vmem k') (vaddr_bitmap (kernel_vaddr k')) i"
      "locks k' Kernel_pool_lock = free_lock" "locks k' User_pool_lock = free_lock"
      "unat (pool_size (kernel_pool k')) + unat (pool_size (user_pool k')) = 4096 * boot_pages all_memory"
    using mem_pool_init_ok [OF assms, of k] by blast
  note p = mem_pool_init_placed [OF assms k'(1)]
  show ?thesis
    by (intro exI [of _ k'] conjI allI k' p) (use k' p(6) in auto)
qed

text \<open>
  \<open>pfree\<close> tests \<open>pg_phy_addr > user_pool.phy_addr_start\<close>, so the first frame of
  the user pool goes to the branch of the kernel pool. With the pools as \<open>mem_pool_init\<close> lays
  them out it clears bit \<open>kernel_free_pages mod 8\<close> of the user bitmap instead of bit 0.
\<close>

theorem pfree_first_user_frame:
  assumes mem: "0x200000 \<le> all_memory" and init: "mem_pool_init k0 all_memory = Inr k1"
    and k: "kernel_pool k = kernel_pool k1" "user_pool k = user_pool k1"
  shows "\<exists>k'. pfree k (frame_addr k PF_USER 0) = Inr k' \<and>
           (\<forall>j < frames k PF_USER. frame_used k' PF_USER j \<longleftrightarrow>
              j \<noteq> boot_pages all_memory div 2 mod 8 \<and> frame_used k PF_USER j)"
proof -
  let ?n = "boot_pages all_memory"
  let ?h = "?n div 2" and ?kb = "pool_bitmap (kernel_pool k)" and ?ub = "pool_bitmap (user_pool k)"
  have n: "?n < 65536" by (simp add: boot_pages_def)
  have p: "phy_addr_start (kernel_pool k) = 0x200000" "bits ?kb = MEM_BITMAP_BASE"
    "phy_addr_start (user_pool k) = 0x200000 + of_nat ?h * PG_SIZE"
    "bits ?ub = MEM_BITMAP_BASE + of_nat (?h div 8)" "btmp_bytes_len ?ub = of_nat ((?n - ?h) div 8)"
    using mem_pool_init_state [OF mem, of k0] init by (auto simp: k)
  have idx: "of_nat ?h * PG_SIZE div PG_SIZE = (of_nat ?h :: u32)" using n by (intro pages_div) simp
  obtain m where m: "(bitmap_set (vmem k) ?kb (of_nat ?h) 0 :: (kernel, bytes) res) = Inr m"
    using bm.upd_ok by blast
  have "pfree k (frame_addr k PF_USER 0) = Inr (k\<lparr>vmem := m\<rparr>)"
    using m by (simp add: pfree_def frame_addr_def pool_of_def p idx k_bitmap_set_def)
  moreover have "bm_bit m ?ub j \<longleftrightarrow> j \<noteq> ?h mod 8 \<and> bm_bit (vmem k) ?ub j" if j: "j < bm_len ?ub" for j
  proof -
    have same: "bm_bit m' ?ub j = bm_bit m' \<lparr>btmp_bytes_len = 8192, bits = MEM_BITMAP_BASE\<rparr> (8 * (?h div 8) + j)" for m'
      by (simp add: bm_bit_def p ac_simps)
    have "(?n - ?h) div 8 < 2 ^ 32" using n by simp
    then have "j < 8 * ((?n - ?h) div 8)" using j by (simp only: bm_len_def p unat_of_nat_u32)
    then have small: "8 * (?h div 8) + j < 65536" using n by linarith
    have "(bitmap_set (vmem k) \<lparr>btmp_bytes_len = 8192, bits = MEM_BITMAP_BASE\<rparr> (of_nat ?h) 0 :: (kernel, bytes) res) = Inr m"
      using m p(2) by (simp add: bitmap_set_def)
    from bitmap_set_bit [OF this, of "8 * (?h div 8) + j"] small
    have "bm_bit m ?ub j \<longleftrightarrow> 8 * (?h div 8) + j \<noteq> ?h \<and> bm_bit (vmem k) ?ub j"
      using n by (simp add: same bm_len_def)
    moreover have "8 * (?h div 8) + j = ?h \<longleftrightarrow> j = ?h mod 8" by (metis add_left_cancel mult_div_mod_eq)
    ultimately show ?thesis by blast
  qed
  ultimately show ?thesis by (simp add: frame_used_def frames_def pool_of_def)
qed

section \<open>A small machine\<close>

text \<open>2 MB and 34 pages: 17 pages for each pool.\<close>

definition small_memory :: u32 where
  "small_memory = 0x222000"

lemma small_pages: "boot_pages small_memory = 34"
  by (simp add: boot_pages_def small_memory_def)

lemma small_ge: "0x200000 \<le> small_memory"
  by (simp add: small_memory_def)

theorem mem_pool_init_correct_witness:
  "\<exists>k'. mem_pool_init boot_kernel small_memory = Inr k' \<and> pools_ok k' \<and>
     unat (pool_size (kernel_pool k')) + unat (pool_size (user_pool k')) = 4096 * 34"
  using mem_pool_init_correct [OF small_ge, of boot_kernel] unfolding small_pages by blast

lemma small_frames:
  assumes "mem_pool_init boot_kernel small_memory = Inr k'"
  shows "frames k' PF_KERNEL = 16" "frames k' PF_USER = 16" "phy_addr_start (user_pool k') = 0x211000"
    "phy_addr_start (kernel_pool k') = 0x200000"
  using mem_pool_init_state [OF small_ge, of boot_kernel] assms unfolding small_pages
  by (auto simp: frames_def pool_of_def bm_len_def PG_SIZE_def)

lemma small_kernel:
  "\<exists>k'. mem_pool_init boot_kernel small_memory = Inr k' \<and> pools_ok k' \<and> (\<forall>pf. \<not> frame_used k' pf 0) \<and>
     frames k' PF_KERNEL = 16 \<and> frames k' PF_USER = 16 \<and> phy_addr_start (user_pool k') = 0x211000 \<and>
     phy_addr_start (kernel_pool k') = 0x200000"
proof -
  obtain k' where k': "mem_pool_init boot_kernel small_memory = Inr k'" "pools_ok k'"
    "\<forall>pf. \<forall>i < frames k' pf. \<not> frame_used k' pf i"
    using mem_pool_init_ok [OF small_ge, of boot_kernel] by blast
  have "\<not> frame_used k' pf 0" for pf
    using k'(3) small_frames [OF k'(1)] by (cases pf) auto
  with k' small_frames [OF k'(1)] show ?thesis by blast
qed

theorem palloc_first_free_witness:
  "\<exists>k' k''. mem_pool_init boot_kernel small_memory = Inr k' \<and> palloc k' PF_KERNEL = Inr (0x200000, k'') \<and>
     frame_used k'' PF_KERNEL 0"
proof -
  obtain k' where k': "mem_pool_init boot_kernel small_memory = Inr k'" "pools_ok k'" "\<not> frame_used k' PF_KERNEL 0"
    "frames k' PF_KERNEL = 16" "phy_addr_start (kernel_pool k') = 0x200000" using small_kernel by blast
  have free: "\<exists>i < frames k' PF_KERNEL. \<not> frame_used k' PF_KERNEL i" using k'(3,4) by (intro exI [of _ 0]) simp
  from palloc_first_free [OF k'(2), of PF_KERNEL] free obtain i k'' where
    i: "palloc k' PF_KERNEL = Inr (frame_addr k' PF_KERNEL i, k'')" "i < frames k' PF_KERNEL"
      "\<forall>j < i. frame_used k' PF_KERNEL j"
      "\<forall>j < frames k' PF_KERNEL. frame_used k'' PF_KERNEL j \<longleftrightarrow> j = i \<or> frame_used k' PF_KERNEL j" by auto
  have "i = 0" using i(3) k'(3) by auto
  with i k' show ?thesis by (auto simp: frame_addr_def pool_of_def)
qed

theorem palloc_free_roundtrip_witness:
  "\<exists>k' k1 k2. mem_pool_init boot_kernel small_memory = Inr k' \<and> palloc k' PF_KERNEL = Inr (0x200000, k1) \<and>
     pfree k1 0x200000 = Inr k2 \<and> \<not> frame_used k2 PF_KERNEL 0"
proof -
  obtain k' where k': "mem_pool_init boot_kernel small_memory = Inr k'" "pools_ok k'" "\<not> frame_used k' PF_KERNEL 0"
    "frames k' PF_KERNEL = 16" "phy_addr_start (kernel_pool k') = 0x200000" "phy_addr_start (user_pool k') = 0x211000"
    using small_kernel by blast
  have free: "\<exists>i < frames k' PF_KERNEL. \<not> frame_used k' PF_KERNEL i" using k'(3,4) by (intro exI [of _ 0]) simp
  from palloc_step [OF pools_ok_wf [OF k'(2)] this] obtain i m where
    i: "palloc k' PF_KERNEL = Inr (frame_addr k' PF_KERNEL i, k'\<lparr>vmem := m\<rparr>)" "\<forall>j < i. frame_used k' PF_KERNEL j"
    by blast
  have "i = 0" using i(2) k'(3) by auto
  then have pa: "palloc k' PF_KERNEL = Inr (0x200000, k'\<lparr>vmem := m\<rparr>)"
    using i(1) k'(5) by (simp add: frame_addr_def pool_of_def)
  with palloc_free_roundtrip [OF k'(2) pa] k' show ?thesis by auto
qed

theorem pfree_first_user_frame_witness:
  "\<exists>k k'. mem_pool_init boot_kernel small_memory = Inr k \<and> pfree k 0x211000 = Inr k' \<and>
     \<not> frame_used k' PF_USER 1"
proof -
  obtain k where k: "mem_pool_init boot_kernel small_memory = Inr k" "frames k PF_USER = 16"
    "phy_addr_start (user_pool k) = 0x211000" using small_kernel by blast
  have "frame_addr k PF_USER 0 = 0x211000" using k(3) by (simp add: frame_addr_def pool_of_def)
  with pfree_first_user_frame [OF small_ge k(1) refl refl] k show ?thesis
    unfolding small_pages by auto
qed

end
