(* ===== verification/Ptmap.thy ===== *)
theory Ptmap
  imports Memory
begin

unbundle bit_operations_syntax

text \<open>
  What \<open>page_table_add\<close> of \<^verbatim>\<open>kernel/memory.c\<close> does to the translation of addresses, with an existing page
  table and with a new one.
\<close>

section \<open>Mapping a page\<close>

definition map_entry :: "u32 \<Rightarrow> u32" where
  "map_entry pa = pa OR PG_US_U OR PG_RW_W OR PG_P_1"

lemma map_entry_bits: "bit (map_entry pa) 0" "page_of (map_entry pa) = page_of pa"
proof -
  have e: "map_entry pa = pa OR 7" by (simp add: map_entry_def PG_US_U_def PG_RW_W_def PG_P_1_def or.assoc)
  have m: "(7 :: u32) = mask 3" by (simp add: mask_eq_exp_minus_1)
  show "bit (map_entry pa) 0" unfolding e m by (simp add: bit_simps)
  show "page_of (map_entry pa) = page_of pa"
    unfolding e m by (rule bit_eqI) (auto simp: bit_page_of bit_or_iff bit_mask_iff)
qed

lemma and_1_bit: "w AND 1 = 0 \<longleftrightarrow> \<not> bit (w :: u32) 0"
  using and_exp_eq_0_iff(2) [of w 0] by simp

lemma page_table_add_present:
  assumes "self_mapped k" "pde_present k va"
  shows "page_table_add k va pa =
    (if bit (pmem k (pte_addr k va)) 0 then Inl (Panic ''pte repeat'')
     else Inr (set_pte k va (map_entry pa)))"
  using assms
  by (simp add: page_table_add_def vwrite_pte and_1_bit Let_def flip: map_entry_def)
    (simp add: pt_access pde_present_def and_1_bit set_pte_def)

text \<open>
  C9: Where a page table exists, \<open>page_table_add\<close> maps the page of \<open>vaddr\<close> to the frame and
  changes no translation that uses another entry. An address in another region whose directory entry shares the page table (as the
  entries 0 and 768 do after the start) uses the same entry and is mapped to the same frame. A page that is mapped already stops
  the kernel.
\<close>

theorem page_table_add_maps:
  assumes "tables_ok k" "pde_present k vaddr" "vaddr < 0xffc00000"
  shows "if mmu_walk k vaddr \<noteq> None then page_table_add k vaddr pa = Inl (Panic ''pte repeat'')
         else \<exists>k'. page_table_add k vaddr pa = Inr k' \<and> tables_ok k' \<and>
           mmu_walk k' vaddr = Some (page_of pa + take_bit 12 vaddr) \<and>
           (\<forall>va. mmu_walk k' va = (if pde_present k va \<and> pte_addr k va = pte_addr k vaddr
              then Some (page_of pa + take_bit 12 va) else mmu_walk k va))"
proof -
  have off: "pde_off vaddr \<noteq> 4092" using assms(3) by (simp add: pde_off_4092)
  have sm: "self_mapped k" using assms(1) by (simp add: tables_ok_def)
  have mapped: "mmu_walk k vaddr \<noteq> None \<longleftrightarrow> bit (pmem k (pte_addr k vaddr)) 0"
    using assms(2) by (simp add: mmu_walk_eq)
  show ?thesis
    unfolding mapped page_table_add_present [OF sm assms(2)]
    using set_pte_tables_ok [OF assms(1,2) off] mmu_walk_set_pte [OF assms(1,2) off] assms(2)
    by (auto simp: map_entry_bits)
qed

text \<open>A frame that is neither the page directory nor one of its page tables.\<close>

definition unused_frame :: "kernel \<Rightarrow> u32 \<Rightarrow> bool" where
  "unused_frame k f \<longleftrightarrow> page_of f \<noteq> page_of (cr3 k) \<and>
     (\<forall>va. pde_present k va \<longrightarrow> page_of (pmem k (pde_addr k va)) \<noteq> page_of f)"

text \<open>Physical memory with a new page table in frame \<open>f\<close> that maps only the page of \<open>va\<close>.\<close>

definition new_table :: "kernel \<Rightarrow> u32 \<Rightarrow> u32 \<Rightarrow> u32 \<Rightarrow> u32 \<Rightarrow> u32" where
  "new_table k va f e =
     (\<lambda>a. if page_of a = page_of f then if a = page_of f + pte_off va then e else 0
          else if a = pde_addr k va then map_entry f else pmem k a)"

lemma page_of_idem: "page_of (page_of x) = page_of x"
  by (rule bit_eqI) (simp add: bit_page_of)

lemma take_bit_page: "take_bit 12 (page_of x) = 0"
  by (rule bit_eqI) (simp add: bit_page_of bit_take_bit_iff)

lemma pde_addr_page: "page_of (pde_addr k va) = page_of (cr3 k)"
  by (simp add: pde_addr_def page_add_page)

lemma page_table_add_absent:
  assumes tab: "tables_ok k" and abs: "\<not> pde_present k va" and va: "va < 0xffc00000"
    and alloc: "palloc k PF_KERNEL = Inr (f, k\<lparr>vmem := m\<rparr>)" and f: "unused_frame k f"
  shows "\<exists>k'. page_table_add k va pa = Inr k' \<and> cr3 k' = cr3 k \<and> pmem k' = new_table k va f (map_entry pa)"
proof -
  let ?k1 = "k\<lparr>vmem := m\<rparr>" and ?d = "pde_addr k va"
  let ?k2 = "?k1\<lparr>pmem := (pmem k)(?d := map_entry f)\<rparr>"
  have off: "pde_off va \<noteq> 4092" using va by (simp add: pde_off_4092)
  have sm: "self_mapped k" using tab by (simp add: tables_ok_def)
  have d1: "pde_addr ?k1 = pde_addr k" "self_mapped ?k1" using sm
    by (simp_all add: fun_eq_iff pde_addr_def self_mapped_def)
  have ne: "?d \<noteq> page_of (cr3 k) + 4092"
    using off by (simp add: pde_addr_def)
  have sm2: "self_mapped ?k2" using sm ne by (auto simp: self_mapped_def Let_def)
  have p2: "pde_present ?k2 va" "pte_addr ?k2 va = page_of f + pte_off va"
    by (simp_all add: pde_present_def pte_addr_def pde_addr_def map_entry_bits)
  have walk2: "mmu_walk ?k2 (page_of (pte_ptr va)) = Some (page_of f)"
  proof -
    have o: "pde_off (page_of (pte_ptr va)) = 4092" "pte_off (page_of (pte_ptr va)) = pde_off va"
    proof -
      have "pde_off (page_of x) = pde_off x" "pte_off (page_of x) = pte_off x" for x
        unfolding pde_off_def pte_off_def page_masks(3)
        by (rule bit_eqI; auto simp: bit_simps dest: bit_imp_le_length)+
      then show "pde_off (page_of (pte_ptr va)) = 4092" "pte_off (page_of (pte_ptr va)) = pde_off va"
        by (simp_all add: pte_ptr_offs)
    qed
    show ?thesis
      using sm2 by (simp add: mmu_walk_eq pde_present_def pte_addr_def pde_addr_def o self_mapped_def
          Let_def map_entry_bits take_bit_page)
  qed
  obtain k3 where k3: "clear_page ?k2 (page_of (pte_ptr va)) = Inr k3" "cr3 k3 = cr3 k"
    "pmem k3 = (\<lambda>a. if page_of a = page_of f then 0 else pmem ?k2 a)"
    using walk2 by (simp add: clear_page_def page_of_idem)
  have dir3: "pmem k3 (page_of (cr3 k) + r) = pmem ?k2 (page_of (cr3 k) + r)" if "take_bit 12 r = r" for r
    using f page_add_page [OF that, of "cr3 k"] by (auto simp: k3 unused_frame_def)
  have sm3: "self_mapped k3"
    using sm2 dir3 [of 4092] k3(2) by (simp add: self_mapped_def take_bit_eq_mod)
  have p3: "pde_present k3 va" "pte_addr k3 va = page_of f + pte_off va"
    using p2 dir3 [of "pde_off va"] k3(2) by (simp_all add: pde_present_def pte_addr_def pde_addr_def)
  have z: "pmem k3 (pte_addr k3 va) = 0" by (simp add: p3 k3 page_add_page)
  have rd: "vread32 k (pde_ptr va) = Inr (pmem k ?d)" using sm by (simp add: pt_access)
  have wr: "vwrite32 ?k1 (pde_ptr va) (map_entry f) = Inr ?k2" using d1 by (simp add: pt_access)
  have rd3: "vread32 k3 (pte_ptr va) = Inr 0" using sm3 p3(1) z by (simp add: pt_access)
  have na: "\<not> (pmem k ?d AND 1 \<noteq> 0)" using abs by (simp add: and_1_bit pde_present_def)
  have "page_table_add k va pa = Inr (set_pte k3 va (map_entry pa))"
    unfolding page_table_add_def Let_def map_entry_def [symmetric]
    using na by (simp add: rd alloc wr k3(1) rd3 vwrite_pte [OF sm3 p3(1)])
  moreover have "pmem (set_pte k3 va (map_entry pa)) = new_table k va f (map_entry pa)"
    using f pde_addr_page [of k va]
    by (auto simp: set_pte_def p3 k3 new_table_def fun_eq_iff page_add_page unused_frame_def)
  ultimately show ?thesis using k3(2) by (simp add: set_pte_def)
qed

lemma new_table_walk:
  assumes tab: "tables_ok k" and abs: "\<not> pde_present k va" and va: "va < 0xffc00000"
    and f: "unused_frame k f" and k': "cr3 k' = cr3 k" "pmem k' = new_table k va f e"
    and va': "va' < 0xffc00000"
  shows "mmu_walk k' va' =
    (if pde_off va' = pde_off va
     then if pte_off va' = pte_off va \<and> bit e 0 then Some (page_of e + take_bit 12 va') else None
     else mmu_walk k va')"
proof -
  have dir: "pde_addr k' = pde_addr k" by (simp add: fun_eq_iff pde_addr_def k')
  have pd: "pmem k' (pde_addr k x) = (if pde_off x = pde_off va then map_entry f else pmem k (pde_addr k x))" for x
    using f pde_addr_page [of k x] by (auto simp: k' new_table_def unused_frame_def pde_addr_def)
  show ?thesis
  proof (cases "pde_off va' = pde_off va")
    case True
    then have "pte_addr k' va' = page_of f + pte_off va'" "pde_present k' va'"
      by (simp_all add: pte_addr_def pde_present_def dir pd map_entry_bits)
    with True show ?thesis
      by (auto simp: mmu_walk_eq k' new_table_def page_add_page)
  next
    case False
    then have same: "pte_addr k' va' = pte_addr k va'" "pde_present k' va' = pde_present k va'"
      by (simp_all add: pte_addr_def pde_present_def dir pd)
    have "pmem k' (pte_addr k va') = pmem k (pte_addr k va')" if p: "pde_present k va'"
    proof -
      have off: "pde_off va' \<noteq> 4092" using va' by (simp add: pde_off_4092)
      have "pte_addr k va' \<noteq> pde_addr k va"
        using pte_not_in_dir [OF tab p off, of "pde_off va"] by (simp add: pde_addr_def)
      moreover have "page_of (pte_addr k va') \<noteq> page_of f"
        using f p by (auto simp: pte_addr_def page_add_page unused_frame_def)
      ultimately show ?thesis by (simp add: k' new_table_def)
    qed
    with False same show ?thesis by (auto simp: mmu_walk_eq)
  qed
qed

lemma new_table_ok:
  assumes tab: "tables_ok k" and va: "va < 0xffc00000" and f: "unused_frame k f"
    and k': "cr3 k' = cr3 k" "pmem k' = new_table k va f e"
  shows "tables_ok k'"
proof -
  have off: "pde_off va \<noteq> 4092" using va by (simp add: pde_off_4092)
  have pd: "pmem k' (page_of (cr3 k) + r) =
      (if r = pde_off va then map_entry f else pmem k (page_of (cr3 k) + r))" if "take_bit 12 r = r" for r
    using f page_add_page [OF that, of "cr3 k"] by (auto simp: k' new_table_def unused_frame_def pde_addr_def)
  have "self_mapped k'"
    using tab off pd [of 4092] by (auto simp: tables_ok_def self_mapped_def k' take_bit_eq_mod Let_def)
  moreover have "page_of (pmem k' (pde_addr k' x)) \<noteq> page_of (cr3 k')"
    if "pde_present k' x" "pde_off x \<noteq> 4092" for x
  proof (cases "pde_off x = pde_off va")
    case True
    with f show ?thesis by (simp add: pde_addr_def k'(1) pd map_entry_bits unused_frame_def)
  next
    case False
    with tab that show ?thesis by (auto simp: pde_addr_def k'(1) pd tables_ok_def pde_present_def)
  qed
  ultimately show ?thesis by (simp add: tables_ok_def)
qed

lemma page_eq_offs: "page_of x = page_of y \<longleftrightarrow> pde_off x = pde_off y \<and> pte_off x = pte_off y"
proof
  assume e: "page_of x = page_of y"
  have "bit x n = bit y n" if "12 \<le> n" for n
    using e that by (metis bit_page_of)
  then show "pde_off x = pde_off y \<and> pte_off x = pte_off y"
    unfolding pde_off_def pte_off_def
    by (intro conjI; intro bit_eqI; auto simp: bit_simps)
next
  assume e: "pde_off x = pde_off y \<and> pte_off x = pte_off y"
  have "bit x n = bit y n" if "12 \<le> n" "n < 32" for n
  proof (cases "n < 22")
    case True
    have "bit (pte_off x) (n - 10) = bit (pte_off y) (n - 10)" using e by simp
    moreover have "2 \<le> n - 10" "n - 10 < 32" "n - 12 < 10" using True that by arith+
    ultimately show ?thesis using that by (simp add: pte_off_def bit_simps)
  next
    case False
    have "bit (pde_off x) (n - 20) = bit (pde_off y) (n - 20)" using e by simp
    moreover have "2 \<le> n - 20" "n - 20 < 32" using False that by arith+
    ultimately show ?thesis using False that by (simp add: pde_off_def bit_simps)
  qed
  then show "page_of x = page_of y" by (intro bit_eqI) (auto simp: bit_page_of)
qed

text \<open>
  Where no page table exists, \<open>page_table_add\<close> takes a frame from the kernel pool for one,
  clears it and maps exactly the page of \<open>vaddr\<close>; every other translation below the
  window of the page tables is as before.
\<close>

theorem page_table_add_new_table:
  assumes "tables_ok k" "\<not> pde_present k vaddr" "vaddr < 0xffc00000"
    and "palloc k PF_KERNEL = Inr (f, k1)" "f \<noteq> NULL" "unused_frame k f"
  shows "\<exists>k'. page_table_add k vaddr pa = Inr k' \<and> tables_ok k' \<and>
           (\<forall>va. va < 0xffc00000 \<longrightarrow> mmu_walk k' va =
              (if page_of va = page_of vaddr then Some (page_of pa + take_bit 12 va) else mmu_walk k va))"
proof -
  from assms(4,5) obtain m where k1: "k1 = k\<lparr>vmem := m\<rparr>"
    by (auto simp: palloc_def k_bitmap_set_def Let_def res_simps split: if_splits)
  from page_table_add_absent [OF assms(1-3) assms(4) [unfolded k1] assms(6)] obtain k' where
    k': "page_table_add k vaddr pa = Inr k'" "cr3 k' = cr3 k" "pmem k' = new_table k vaddr f (map_entry pa)" by blast
  have "mmu_walk k va = None" if "pde_off va = pde_off vaddr" for va
    using assms(2) that by (simp add: mmu_walk_eq pde_present_def pde_addr_def)
  with new_table_walk [OF assms(1-3) assms(6) k'(2,3)] new_table_ok [OF assms(1,3,6) k'(2,3)] k'(1)
  show ?thesis by (intro exI [of _ k']) (auto simp: page_eq_offs map_entry_bits)
qed

lemma palloc_free_small:
  "\<exists>k' k1. mem_pool_init boot_kernel small_memory = Inr k' \<and> palloc k' PF_KERNEL = Inr (0x200000, k1)"
proof -
  obtain k' where k': "mem_pool_init boot_kernel small_memory = Inr k'" "pools_ok k'" "\<not> frame_used k' PF_KERNEL 0"
    "frames k' PF_KERNEL = 16" "phy_addr_start (kernel_pool k') = 0x200000" using small_kernel by blast
  have free: "\<exists>i < frames k' PF_KERNEL. \<not> frame_used k' PF_KERNEL i" using k'(3,4) by (intro exI [of _ 0]) simp
  from palloc_step [OF pools_ok_wf [OF k'(2)] this] obtain i m where
    i: "palloc k' PF_KERNEL = Inr (frame_addr k' PF_KERNEL i, k'\<lparr>vmem := m\<rparr>)" "\<forall>j < i. frame_used k' PF_KERNEL j"
    by blast
  have "i = 0" using i(2) k'(3) by auto
  with i(1) k' show ?thesis by (auto simp: frame_addr_def pool_of_def)
qed

section \<open>Mapping on the small machine\<close>

theorem page_table_add_maps_witness:
  "\<exists>k'. page_table_add boot_kernel 0xc0100000 0x200000 = Inr k' \<and> mmu_walk k' 0xc0100000 = Some 0x200000 \<and>
     mmu_walk k' 0x100000 = Some 0x200000 \<and> mmu_walk k' 0xc0000000 = Some 0 \<and>
     page_table_add boot_kernel 0xc0001000 0x200000 = Inl (Panic ''pte repeat'')"
proof -
  have p: "pde_present boot_kernel 0xc0100000" "pde_present boot_kernel 0xc0001000"
    by (simp_all add: pde_present_def pde_addr_def pde_off_def boot_pmem_def)
  have w: "mmu_walk boot_kernel 0xc0100000 = None" "mmu_walk boot_kernel 0xc0001000 \<noteq> None"
    by (simp_all add: mmu_walk_def boot_pmem_def take_bit_eq_mod)
  have a: "pde_present boot_kernel 0x100000" "pte_addr boot_kernel 0x100000 = pte_addr boot_kernel 0xc0100000"
    "pte_addr boot_kernel 0xc0000000 \<noteq> pte_addr boot_kernel 0xc0100000" "mmu_walk boot_kernel 0xc0000000 = Some 0"
    by (simp_all add: pde_present_def pte_addr_def pte_off_def pde_addr_def pde_off_def mmu_walk_def boot_pmem_def take_bit_eq_mod)
  show ?thesis
    using page_table_add_maps [OF boot_tables_ok p(1), of "0x200000"]
      page_table_add_maps [OF boot_tables_ok p(2), of "0x200000"] w a
    by (auto simp: take_bit_eq_mod)
qed

lemma mem_pool_init_paging:
  "mem_pool_init k m = Inr k' \<Longrightarrow> pmem k' = pmem k \<and> cr3 k' = cr3 k"
  by (auto simp: mem_pool_init_def k_bitmap_init_def Let_def res_simps lock_init_def sema_init_def
      upd_sema_def upd_lock_def)

lemma tables_ok_cong:
  "pmem k' = pmem k \<Longrightarrow> cr3 k' = cr3 k \<Longrightarrow> tables_ok k' = tables_ok k"
  by (simp add: tables_ok_def self_mapped_def pde_present_def pde_addr_def)

theorem page_table_add_new_table_witness:
  "\<exists>k k'. mem_pool_init boot_kernel small_memory = Inr k \<and> mmu_walk k 0xc0400000 = None \<and>
     page_table_add k 0xc0400000 0x201000 = Inr k' \<and> mmu_walk k' 0xc0400123 = Some 0x201123"
proof -
  obtain k k1 where k: "mem_pool_init boot_kernel small_memory = Inr k" "palloc k PF_KERNEL = Inr (0x200000, k1)"
    using palloc_free_small by blast
  have pm: "pmem k = boot_pmem" "cr3 k = 0x100000" using mem_pool_init_paging [OF k(1)] by simp_all
  have tab: "tables_ok k" using tables_ok_cong [of k boot_kernel] boot_tables_ok pm by simp
  have abs: "\<not> pde_present k 0xc0400000"
    by (simp add: pde_present_def pde_addr_def pde_off_def pm boot_pmem_def)
  have "unused_frame k 0x200000"
    by (auto simp: unused_frame_def pm pde_addr_def pde_present_def boot_pde)
  from page_table_add_new_table [OF tab abs _ k(2) _ this, of "0x201000"] obtain k' where
    k': "page_table_add k 0xc0400000 0x201000 = Inr k'"
      "mmu_walk k' 0xc0400123 = Some (page_of 0x201000 + take_bit 12 0xc0400123)"
    by (auto split: if_splits)
  have "mmu_walk k 0xc0400000 = None" using abs by (simp add: mmu_walk_eq)
  with k k' show ?thesis by (auto simp: take_bit_eq_mod)
qed

end
