(* ===== verification/Kpages.thy ===== *)
theory Kpages
  imports Ptmap
begin

unbundle bit_operations_syntax

text \<open>
  One page of kernel memory from end to end: \<open>get_kernel_pages\<close> of \<^verbatim>\<open>kernel/memory.c\<close> takes a
  virtual page from the bitmap of the kernel heap and a frame from the kernel pool, maps one to the other and
  clears the page. \<open>kmem_ok\<close> is the invariant that ties the two bitmaps to the page tables; the main
  result is that the call succeeds while both bitmaps have a free bit, and keeps the invariant.
\<close>

section \<open>Pages and frames\<close>

definition vpages :: "kernel \<Rightarrow> nat" where
  "vpages k = bm_len (vaddr_bitmap (kernel_vaddr k))"

definition vpage_used :: "kernel \<Rightarrow> nat \<Rightarrow> bool" where
  "vpage_used k i = bm_bit (vmem k) (vaddr_bitmap (kernel_vaddr k)) i"

definition vpage :: "kernel \<Rightarrow> nat \<Rightarrow> u32" where
  "vpage k i = vaddr_start (kernel_vaddr k) + of_nat i * PG_SIZE"

definition bm_region :: "bitmap \<Rightarrow> u32 set" where
  "bm_region b = region (bits b) (unat (btmp_bytes_len b))"

lemma bm_bit_cong:
  assumes "i < bm_len b" "\<And>x. x \<in> bm_region b \<Longrightarrow> m' x = m x"
  shows "bm_bit m' b i = bm_bit m b i"
  using regionI [OF bm_len_div [OF assms(1)], of "bits b"] assms(2) by (simp add: bm_bit_def bm_region_def)

lemma bitmap_set_outside:
  assumes "bitmap_set m b (of_nat i) v = Inr m'" "i < bm_len b" "x \<notin> bm_region b" "bm_wf b"
  shows "m' x = m x"
proof (rule bitmap_set_frame [OF assms(1)])
  have "i < 2 ^ 32" using assms(2,4) by (simp add: bm_wf_def)
  then have "(of_nat i :: u32) div 8 = of_nat (i div 8)"
    by (simp add: word_unat_eq_iff unat_div)
  with regionI [OF bm_len_div [OF assms(2)], of "bits b"] assms(3)
  show "x \<noteq> bits b + of_nat i div 8" by (auto simp: bm_region_def)
qed

lemma page_aligned_iff: "page_of x = x \<longleftrightarrow> 4096 dvd unat x"
proof -
  have "page_of x = x \<longleftrightarrow> take_bit 12 x = 0"
  proof
    assume "page_of x = x"
    with take_bit_page [of x] show "take_bit 12 x = 0" by simp
  next
    assume z: "take_bit 12 x = 0"
    have "12 \<le> n" if "bit x n" for n
    proof (rule ccontr)
      assume "\<not> 12 \<le> n"
      then have "bit (take_bit 12 x) n" using that by (simp add: bit_take_bit_iff)
      with z show False by simp
    qed
    then show "page_of x = x" by (intro bit_eqI) (auto simp: bit_page_of)
  qed
  also have "\<dots> \<longleftrightarrow> unat (take_bit 12 x) = 0" by (simp add: unsigned_eq_0_iff)
  also have "unat (take_bit 12 x) = unat x mod 4096" by (simp add: take_bit_eq_mod unat_mod)
  also have "unat x mod 4096 = 0 \<longleftrightarrow> 4096 dvd unat x" by (rule mod_eq_0_iff_dvd)
  finally show ?thesis .
qed

section \<open>The invariant\<close>

text \<open>The heap area: page aligned, below the window of the page tables, every page with a page table entry of its own.\<close>

definition kheap_ok :: "kernel \<Rightarrow> bool" where
  "kheap_ok k \<longleftrightarrow>
     bm_wf (vaddr_bitmap (kernel_vaddr k)) \<and> 4096 dvd unat (vaddr_start (kernel_vaddr k)) \<and>
     vaddr_start (kernel_vaddr k) \<noteq> NULL \<and>
     unat (vaddr_start (kernel_vaddr k)) + 4096 * vpages k \<le> 0xffc00000"

text \<open>The two bitmaps lie apart from each other and outside the heap.\<close>

definition kbitmaps_ok :: "kernel \<Rightarrow> bool" where
  "kbitmaps_ok k \<longleftrightarrow>
     bm_region (vaddr_bitmap (kernel_vaddr k)) \<inter> bm_region (pool_bitmap (kernel_pool k)) = {} \<and>
     (\<forall>i < vpages k. \<forall>x \<in> bm_region (vaddr_bitmap (kernel_vaddr k)) \<union> bm_region (pool_bitmap (kernel_pool k)).
        page_of x \<noteq> vpage k i)"

definition kmap_ok :: "kernel \<Rightarrow> bool" where
  "kmap_ok k \<longleftrightarrow> tables_ok k \<and>
     (\<forall>i < vpages k. pde_present k (vpage k i) \<and> (\<not> vpage_used k i \<longrightarrow> mmu_walk k (vpage k i) = None)) \<and>
     (\<forall>i < vpages k. \<forall>j < vpages k. i \<noteq> j \<longrightarrow> pte_addr k (vpage k i) \<noteq> pte_addr k (vpage k j))"

definition kframes_ok :: "kernel \<Rightarrow> bool" where
  "kframes_ok k \<longleftrightarrow> pools_ok k \<and> 4096 dvd unat (phy_addr_start (kernel_pool k)) \<and>
     phy_addr_start (kernel_pool k) \<noteq> NULL \<and>
     (\<forall>j < frames k PF_KERNEL. \<not> frame_used k PF_KERNEL j \<longrightarrow> unused_frame k (frame_addr k PF_KERNEL j))"

definition kmem_ok :: "kernel \<Rightarrow> bool" where
  "kmem_ok k \<longleftrightarrow> kheap_ok k \<and> kbitmaps_ok k \<and> kmap_ok k \<and> kframes_ok k"

lemma vpage_unat:
  assumes "kheap_ok k" "i < vpages k"
  shows "unat (vpage k i) = unat (vaddr_start (kernel_vaddr k)) + 4096 * i" "vpage k i < 0xffc00000"
    "page_of (vpage k i) = vpage k i" "vpage k i \<noteq> NULL" "take_bit 12 (vpage k i) = 0"
proof -
  have b: "unat (vaddr_start (kernel_vaddr k)) + 4096 * i < 0xffc00000" "4096 dvd unat (vaddr_start (kernel_vaddr k))"
    "0 < unat (vaddr_start (kernel_vaddr k))"
    using assms by (auto simp: kheap_ok_def unat_gt_0)
  then have "i < 2 ^ 20" by simp
  then have "unat (of_nat i * PG_SIZE :: u32) = 4096 * i" by (simp add: PG_SIZE_def unat_word_ariths)
  with b show u: "unat (vpage k i) = unat (vaddr_start (kernel_vaddr k)) + 4096 * i"
    by (simp add: vpage_def unat_word_ariths)
  with b show "vpage k i < 0xffc00000" "vpage k i \<noteq> NULL" by (auto simp: word_less_nat_alt)
  show p: "page_of (vpage k i) = vpage k i" unfolding page_aligned_iff u using b(2) by simp
  show "take_bit 12 (vpage k i) = 0" using take_bit_page [of "vpage k i"] p by simp
qed

lemma vpage_inj:
  assumes "kheap_ok k" "i < vpages k" "j < vpages k" "vpage k i = vpage k j"
  shows "i = j"
proof -
  have "unat (vpage k i) = unat (vpage k j)" using assms(4) by simp
  then show ?thesis unfolding vpage_unat(1) [OF assms(1,2)] vpage_unat(1) [OF assms(1,3)] by simp
qed

lemma kframe_addr:
  assumes "kframes_ok k" "j < frames k PF_KERNEL"
  shows "page_of (frame_addr k PF_KERNEL j) = frame_addr k PF_KERNEL j" "frame_addr k PF_KERNEL j \<noteq> NULL"
    "n < frames k PF_KERNEL \<Longrightarrow> frame_addr k PF_KERNEL n = frame_addr k PF_KERNEL j \<Longrightarrow> n = j"
proof -
  have u: "unat (frame_addr k PF_KERNEL i) = unat (phy_addr_start (kernel_pool k)) + 4096 * i"
    if "i < frames k PF_KERNEL" for i
    using frame_addr_unat [of k i PF_KERNEL] that assms(1) by (simp add: kframes_ok_def pool_of_def)
  have s: "4096 dvd unat (phy_addr_start (kernel_pool k))" "0 < unat (phy_addr_start (kernel_pool k))"
    using assms(1) by (auto simp: kframes_ok_def unat_gt_0)
  show "page_of (frame_addr k PF_KERNEL j) = frame_addr k PF_KERNEL j"
    unfolding page_aligned_iff u [OF assms(2)] using s(1) by simp
  show "frame_addr k PF_KERNEL j \<noteq> NULL" using u [OF assms(2)] s(2) by auto
  show "n = j" if "n < frames k PF_KERNEL" "frame_addr k PF_KERNEL n = frame_addr k PF_KERNEL j"
    using u [OF assms(2)] u [OF that(1)] that(2) by simp
qed

section \<open>What the call computes\<close>

definition new_page :: "kernel \<Rightarrow> u32 \<Rightarrow> u32 \<Rightarrow> bytes \<Rightarrow> kernel" where
  "new_page k va pa m =
     k\<lparr>pmem := (\<lambda>a. if page_of a = page_of pa then 0 else ((pmem k)(pte_addr k va := map_entry pa)) a),
       vmem := (\<lambda>a. if page_of a = va then 0 else m a),
       tasks := (tasks k)(va := zero_task),
       arenas := (arenas k)(va := \<lparr>desc = Desc_null, cnt = 0, large = False\<rparr>),
       thread_stacks := (\<lambda>a. if page_of a = va then zero_tstack else thread_stacks k a),
       intr_stacks := (\<lambda>a. if page_of a = va then zero_istack else intr_stacks k a)\<rparr>"

lemma vaddr_get_one:
  assumes "kheap_ok k" "\<exists>i < vpages k. \<not> vpage_used k i"
  shows "\<exists>i m. i < vpages k \<and> \<not> vpage_used k i \<and> (\<forall>j < i. vpage_used k j) \<and>
    (bitmap_set (vmem k) (vaddr_bitmap (kernel_vaddr k)) (of_nat i) 1 :: (kernel, bytes) res) = Inr m \<and>
    vaddr_get k PF_KERNEL 1 = Inr (vpage k i, k\<lparr>vmem := m\<rparr>)"
proof -
  let ?b = "vaddr_bitmap (kernel_vaddr k)"
  have wf: "bm_wf ?b" using assms(1) by (simp add: kheap_ok_def)
  from assms(2) obtain j where j: "j < bm_len ?b" "\<not> bm_bit (vmem k) ?b j" by (auto simp: vpages_def vpage_used_def)
  from bm.scan_free [OF wf j, where 'a = kernel] obtain i where
    i: "i < bm_len ?b" "(bitmap_scan (vmem k) ?b 1 :: (kernel, u32) res) = Inr (of_nat i)"
      "\<not> bm_bit (vmem k) ?b i" "\<forall>j<i. bm_bit (vmem k) ?b j" by blast
  obtain m where m: "(bitmap_set (vmem k) ?b (of_nat i) 1 :: (kernel, bytes) res) = Inr m"
    using bm.upd_ok by blast
  have "(of_nat i :: u32) \<noteq> - 1" using i(1) bm.cap_less [OF wf] by (intro of_nat_neq_minus_1) simp
  with i m have "vaddr_get k PF_KERNEL 1 = Inr (vpage k i, k\<lparr>vmem := m\<rparr>)"
    by (simp add: vaddr_get_def k_bitmap_set_def vpage_def Let_def)
  with i m show ?thesis by (auto simp: vpages_def vpage_used_def)
qed

lemma frame_used_cong:
  assumes "j < frames k PF_KERNEL" "kernel_pool k' = kernel_pool k"
    and "\<And>x. x \<in> bm_region (pool_bitmap (kernel_pool k)) \<Longrightarrow> vmem k' x = vmem k x"
  shows "frame_used k' PF_KERNEL j = frame_used k PF_KERNEL j"
  using bm_bit_cong [of j "pool_bitmap (kernel_pool k)" "vmem k'" "vmem k"] assms
  by (simp add: frame_used_def frames_def pool_of_def)

lemma mmu_walk_cong: "pmem k' = pmem k \<Longrightarrow> cr3 k' = cr3 k \<Longrightarrow> mmu_walk k' = mmu_walk k"
  by (rule ext) (simp add: mmu_walk_def Let_def)

lemma pt_cong:
  assumes "pmem k' = pmem k" "cr3 k' = cr3 k"
  shows "pde_present k' = pde_present k" "pte_addr k' = pte_addr k" "pde_addr k' = pde_addr k"
    "unused_frame k' = unused_frame k"
  using assms by (simp_all add: fun_eq_iff pde_present_def pte_addr_def pde_addr_def unused_frame_def)

lemma pte_addr_locks: "pte_addr (k\<lparr>locks := l, vmem := m\<rparr>) = pte_addr k"
  by (rule pt_cong) simp_all

lemma get_kernel_page_eq:
  assumes ok: "kmem_ok k" and lock: "locks k Kernel_pool_lock = free_lock" "running_thread k \<noteq> NULL"
    and free: "\<exists>i < vpages k. \<not> vpage_used k i" "\<exists>j < frames k PF_KERNEL. \<not> frame_used k PF_KERNEL j"
  shows "\<exists>i j m1 m2. i < vpages k \<and> \<not> vpage_used k i \<and> j < frames k PF_KERNEL \<and> \<not> frame_used k PF_KERNEL j \<and>
    (bitmap_set (vmem k) (vaddr_bitmap (kernel_vaddr k)) (of_nat i) 1 :: (kernel, bytes) res) = Inr m1 \<and>
    (bitmap_set m1 (pool_bitmap (kernel_pool k)) (of_nat j) 1 :: (kernel, bytes) res) = Inr m2 \<and>
    get_kernel_pages k 1 = Inr (vpage k i, new_page k (vpage k i) (frame_addr k PF_KERNEL j) m2)"
proof -
  let ?c = "running_thread k" and ?vb = "vaddr_bitmap (kernel_vaddr k)" and ?pb = "pool_bitmap (kernel_pool k)"
  let ?k1 = "k\<lparr>locks := (locks k)(Kernel_pool_lock := held_lock ?c)\<rparr>"
  have kh: "kheap_ok k" and kb: "kbitmaps_ok k" and km: "kmap_ok k" and kf: "kframes_ok k"
    using ok by (simp_all add: kmem_ok_def)
  have wf: "bm_wf ?vb" "bm_wf ?pb" using kh kf by (simp_all add: kheap_ok_def kframes_ok_def pools_ok_def)
  have "kheap_ok ?k1" "\<exists>i < vpages ?k1. \<not> vpage_used ?k1 i"
    using kh free(1) by (simp_all add: kheap_ok_def vpages_def vpage_used_def)
  from vaddr_get_one [OF this] obtain i m1 where
    i: "i < vpages k" "\<not> vpage_used k i" "(bitmap_set (vmem k) ?vb (of_nat i) 1 :: (kernel, bytes) res) = Inr m1"
      "vaddr_get ?k1 PF_KERNEL 1 = Inr (vpage k i, ?k1\<lparr>vmem := m1\<rparr>)"
    by (auto simp: vpages_def vpage_used_def vpage_def)
  let ?k2 = "?k1\<lparr>vmem := m1\<rparr>" and ?va = "vpage k i"
  note va = vpage_unat [OF kh i(1)]
  have out1: "m1 x = vmem k x" if "x \<in> bm_region ?pb" for x
    using bitmap_set_outside [OF i(3) _ _ wf(1)] i(1) that kb by (auto simp: vpages_def kbitmaps_ok_def)
  have fr: "frames ?k2 PF_KERNEL = frames k PF_KERNEL" "pool_of ?k2 PF_KERNEL = kernel_pool k"
    by (simp_all add: frames_def pool_of_def)
  have fu: "frame_used ?k2 PF_KERNEL j = frame_used k PF_KERNEL j" if "j < frames k PF_KERNEL" for j
    using out1 that by (intro frame_used_cong) simp_all
  have "bm_wf (pool_bitmap (pool_of ?k2 PF_KERNEL))" "\<exists>j < frames ?k2 PF_KERNEL. \<not> frame_used ?k2 PF_KERNEL j"
    using wf(2) free(2) fr fu by auto
  from palloc_step [OF this] obtain j m2 where
    j0: "j < frames ?k2 PF_KERNEL" "\<not> frame_used ?k2 PF_KERNEL j"
      "(bitmap_set (vmem ?k2) (pool_bitmap (pool_of ?k2 PF_KERNEL)) (of_nat j) 1 :: (kernel, bytes) res) = Inr m2"
      "palloc ?k2 PF_KERNEL = Inr (frame_addr ?k2 PF_KERNEL j, ?k2\<lparr>vmem := m2\<rparr>)" by blast
  have "frame_addr ?k2 PF_KERNEL j = frame_addr k PF_KERNEL j" by (simp add: frame_addr_def pool_of_def)
  with j0 fu fr have
    j: "j < frames k PF_KERNEL" "\<not> frame_used k PF_KERNEL j"
      "(bitmap_set m1 ?pb (of_nat j) 1 :: (kernel, bytes) res) = Inr m2"
      "palloc ?k2 PF_KERNEL = Inr (frame_addr k PF_KERNEL j, ?k2\<lparr>vmem := m2\<rparr>)" by simp_all
  let ?k3 = "?k2\<lparr>vmem := m2\<rparr>" and ?pa = "frame_addr k PF_KERNEL j"
  note pa = kframe_addr [OF kf j(1)]
  have cong: "mmu_walk ?k3 = mmu_walk k" "pde_present ?k3 = pde_present k" "pte_addr ?k3 = pte_addr k"
    using mmu_walk_cong [of ?k3 k] pt_cong(1,2) [of ?k3 k] by simp_all
  have tab: "tables_ok ?k3" "self_mapped ?k3"
    using km by (auto simp: kmap_ok_def tables_ok_def self_mapped_def pde_present_def pde_addr_def)
  have pre: "pde_present k ?va" "mmu_walk k ?va = None" using km i(1,2) by (simp_all add: kmap_ok_def)
  then have "\<not> bit (pmem k (pte_addr k ?va)) 0" by (auto simp: mmu_walk_eq split: if_splits)
  then have add: "page_table_add ?k3 ?va ?pa = Inr (set_pte ?k3 ?va (map_entry ?pa))"
    using page_table_add_present [OF tab(2), of ?va ?pa] pre(1) cong by simp
  let ?k4 = "set_pte ?k3 ?va (map_entry ?pa)"
  have "pde_off ?va \<noteq> 4092" using va(2) by (simp add: pde_off_4092)
  from mmu_walk_set_pte [OF tab(1) _ this, of "map_entry ?pa" ?va] pre(1) cong
  have walk: "mmu_walk ?k4 ?va = Some ?pa" by (simp add: map_entry_bits pa(1) va(5))
  have mal: "malloc_page ?k1 PF_KERNEL 1 = Inr (?va, ?k4)"
    using i(4) j(4) add va(4) pa(2) by (simp add: malloc_page_def)
  let ?k5 = "(new_page k ?va ?pa m2)\<lparr>locks := (locks k)(Kernel_pool_lock := held_lock ?c)\<rparr>"
  have clr: "clear_pages ?k4 ?va 1 = Inr ?k5"
    using walk va(3) pa(1) by (simp add: clear_page_def new_page_def set_pte_def pte_addr_locks cong: if_cong)
  have rt: "running_thread ?k5 = ?c" by (simp add: new_page_def running_thread_def)
  have "lock_release ?k5 Kernel_pool_lock = Inr (new_page k ?va ?pa m2)"
    using lock_release_held [of ?k5 Kernel_pool_lock] rt lock(1) by (simp add: fun_upd_idem new_page_def)
  moreover have "lock_acquire k Kernel_pool_lock = Inr ?k1" using lock by (intro lock_acquire_free)
  ultimately have "get_kernel_pages k 1 = Inr (?va, new_page k ?va ?pa m2)"
    using mal clr va(4) by (simp add: get_kernel_pages_def get_pages_def pool_lock_def)
  with i j show ?thesis by blast
qed

section \<open>The invariant is kept\<close>

lemma new_page_fields [simp]:
  "kernel_vaddr (new_page k va pa m) = kernel_vaddr k" "kernel_pool (new_page k va pa m) = kernel_pool k"
  "user_pool (new_page k va pa m) = user_pool k" "cr3 (new_page k va pa m) = cr3 k"
  "locks (new_page k va pa m) = locks k" "vpages (new_page k va pa m) = vpages k"
  "vpage (new_page k va pa m) = vpage k" "frames (new_page k va pa m) = frames k"
  "frame_addr (new_page k va pa m) = frame_addr k" "esp (new_page k va pa m) = esp k"
  "flags (new_page k va pa m) = flags k" "main_thread (new_page k va pa m) = main_thread k"
  "thread_ready_list (new_page k va pa m) = thread_ready_list k"
  "thread_all_list (new_page k va pa m) = thread_all_list k" "pid_bitmap (new_page k va pa m) = pid_bitmap k"
  "pid_start (new_page k va pa m) = pid_start k" "tasks (new_page k va pa m) = (tasks k)(va := zero_task)"
  "running_thread (new_page k va pa m) = running_thread k" "idle_thread (new_page k va pa m) = idle_thread k"
  by (auto simp: new_page_def vpages_def vpage_def frames_def frame_addr_def pool_of_def running_thread_def
      fun_eq_iff split: pool_flags.splits)

lemma new_page_walk:
  assumes tab: "tables_ok k" and va: "pde_present k va" "va < 0xffc00000" and pa: "unused_frame k pa" "page_of pa = pa"
  shows "pde_addr (new_page k va pa m) = pde_addr k"
    "pmem (new_page k va pa m) (page_of (cr3 k) + pde_off x) = pmem k (page_of (cr3 k) + pde_off x)"
    "pde_present (new_page k va pa m) = pde_present k" "pte_addr (new_page k va pa m) = pte_addr k"
    "mmu_walk (new_page k va pa m) x =
       (if pde_present k x \<and> pte_addr k x = pte_addr k va then Some (pa + take_bit 12 x) else mmu_walk k x)"
proof -
  let ?k = "new_page k va pa m"
  have off: "pde_off va \<noteq> 4092" using va(2) by (simp add: pde_off_4092)
  show a: "pde_addr ?k = pde_addr k" by (simp add: fun_eq_iff pde_addr_def)
  have d: "pmem ?k (pde_addr k y) = pmem k (pde_addr k y)" for y
    using pte_not_in_dir [OF tab va(1) off, of "pde_off y"] pa(1) pde_addr_page [of k y]
    by (auto simp: new_page_def unused_frame_def pde_addr_def)
  then show "pmem ?k (page_of (cr3 k) + pde_off x) = pmem k (page_of (cr3 k) + pde_off x)"
    by (simp add: pde_addr_def)
  show p: "pde_present ?k = pde_present k" "pte_addr ?k = pte_addr k"
    by (simp_all add: fun_eq_iff pde_present_def pte_addr_def a d)
  have "pmem ?k (pte_addr k x) = (if pte_addr k x = pte_addr k va then map_entry pa else pmem k (pte_addr k x))"
    if "pde_present k x"
    using that pa(1) by (auto simp: new_page_def unused_frame_def pte_addr_def page_add_page)
  then show "mmu_walk ?k x =
       (if pde_present k x \<and> pte_addr k x = pte_addr k va then Some (pa + take_bit 12 x) else mmu_walk k x)"
    using pa(2) by (auto simp: mmu_walk_eq p map_entry_bits)
qed

lemma new_page_tables_ok:
  assumes "tables_ok k" "pde_present k va" "va < 0xffc00000" "unused_frame k pa" "page_of pa = pa"
  shows "tables_ok (new_page k va pa m)" "unused_frame (new_page k va pa m) f = unused_frame k f"
proof -
  note w = new_page_walk [OF assms, of m]
  have "pde_off 0xffc00000 = 4092" by (simp add: pde_off_4092)
  then have "self_mapped (new_page k va pa m)"
    using assms(1) w(2) [of "0xffc00000"] by (simp add: tables_ok_def self_mapped_def)
  then show "tables_ok (new_page k va pa m)"
    using assms(1) w(2) by (simp add: tables_ok_def w(1,3)) (simp add: pde_addr_def)
  show "unused_frame (new_page k va pa m) f = unused_frame k f"
    using w(2) by (simp add: unused_frame_def w(1,3)) (simp add: pde_addr_def)
qed

lemma new_page_bits:
  assumes ok: "kmem_ok k" and i: "i < vpages k" and j: "j < frames k PF_KERNEL"
    and m: "(bitmap_set (vmem k) (vaddr_bitmap (kernel_vaddr k)) (of_nat i) 1 :: (kernel, bytes) res) = Inr m1"
      "(bitmap_set m1 (pool_bitmap (kernel_pool k)) (of_nat j) 1 :: (kernel, bytes) res) = Inr m2"
  shows "n < vpages k \<Longrightarrow> vpage_used (new_page k (vpage k i) pa m2) n \<longleftrightarrow> n = i \<or> vpage_used k n"
    and "n < frames k PF_KERNEL \<Longrightarrow>
      frame_used (new_page k (vpage k i) pa m2) PF_KERNEL n \<longleftrightarrow> n = j \<or> frame_used k PF_KERNEL n"
proof -
  let ?vb = "vaddr_bitmap (kernel_vaddr k)" and ?pb = "pool_bitmap (kernel_pool k)"
  let ?m = "vmem (new_page k (vpage k i) pa m2)"
  have kb: "kbitmaps_ok k" and wf: "bm_wf ?vb" "bm_wf ?pb"
    using ok by (simp_all add: kmem_ok_def kheap_ok_def kframes_ok_def pools_ok_def)
  have len: "i < bm_len ?vb" "j < bm_len ?pb" "i < 2 ^ 32" "j < 2 ^ 32"
    using i j wf by (simp_all add: vpages_def frames_def pool_of_def bm_wf_def)
  have keep: "?m x = m2 x" if "x \<in> bm_region ?vb \<union> bm_region ?pb" for x
    using kb i that by (auto simp: new_page_def kbitmaps_ok_def)
  have disj: "x \<notin> bm_region ?pb" if "x \<in> bm_region ?vb" for x using kb that by (auto simp: kbitmaps_ok_def)
  show "vpage_used (new_page k (vpage k i) pa m2) n \<longleftrightarrow> n = i \<or> vpage_used k n" if n: "n < vpages k"
  proof -
    have n': "n < bm_len ?vb" using n by (simp add: vpages_def)
    have "bm_bit ?m ?vb n = bm_bit m1 ?vb n"
      using n' keep disj bitmap_set_outside [OF m(2) len(2) _ wf(2)] by (intro bm_bit_cong) auto
    with bm.upd_used [OF m(1) n'] len(3) show ?thesis by (auto simp: vpage_used_def)
  qed
  show "frame_used (new_page k (vpage k i) pa m2) PF_KERNEL n \<longleftrightarrow> n = j \<or> frame_used k PF_KERNEL n"
    if n: "n < frames k PF_KERNEL"
  proof -
    have n': "n < bm_len ?pb" using n by (simp add: frames_def pool_of_def)
    have "bm_bit ?m ?pb n = bm_bit m2 ?pb n" using n' keep by (intro bm_bit_cong) auto
    moreover have "bm_bit m1 ?pb n = bm_bit (vmem k) ?pb n"
      using n' disj bitmap_set_outside [OF m(1) len(1) _ wf(1)] by (intro bm_bit_cong) auto
    ultimately show ?thesis
      using bm.upd_used [OF m(2) n'] len(4) by (auto simp: frame_used_def pool_of_def)
  qed
qed

lemma new_page_kmem_ok:
  assumes ok: "kmem_ok k" and i: "i < vpages k" and j: "j < frames k PF_KERNEL" "\<not> frame_used k PF_KERNEL j"
    and m: "(bitmap_set (vmem k) (vaddr_bitmap (kernel_vaddr k)) (of_nat i) 1 :: (kernel, bytes) res) = Inr m1"
      "(bitmap_set m1 (pool_bitmap (kernel_pool k)) (of_nat j) 1 :: (kernel, bytes) res) = Inr m2"
  shows "kmem_ok (new_page k (vpage k i) (frame_addr k PF_KERNEL j) m2)"
proof -
  let ?pa = "frame_addr k PF_KERNEL j" and ?k = "new_page k (vpage k i) (frame_addr k PF_KERNEL j) m2"
  have kh: "kheap_ok k" and kb: "kbitmaps_ok k" and km: "kmap_ok k" and kf: "kframes_ok k"
    using ok by (simp_all add: kmem_ok_def)
  have t: "tables_ok k" "pde_present k (vpage k i)" "vpage k i < 0xffc00000" "unused_frame k ?pa" "page_of ?pa = ?pa"
    using km kf i j vpage_unat(2) [OF kh i] kframe_addr(1) [OF kf j(1)] by (simp_all add: kmap_ok_def kframes_ok_def)
  note w = new_page_walk [OF t, of m2] and b = new_page_bits [OF ok i j(1) m, of _ ?pa]
  have "kheap_ok ?k" "kbitmaps_ok ?k" using kh kb by (simp_all add: kheap_ok_def kbitmaps_ok_def)
  moreover have "kmap_ok ?k"
    using km new_page_tables_ok(1) [OF t, of m2] i b(1)
    by (simp add: kmap_ok_def w(3,4,5))
  moreover have "kframes_ok ?k"
    using kf b(2) new_page_tables_ok(2) [OF t, of m2] by (simp add: kframes_ok_def pools_ok_def)
  ultimately show ?thesis by (simp add: kmem_ok_def)
qed

text \<open>
  C13: While the heap has a free virtual page and the kernel pool a free frame, \<open>get_kernel_pages(1)\<close> returns
  a page that was free, maps it to a frame that was free, hands it out filled with zeros, marks exactly
  these two as used, changes no other translation of a heap page and keeps the invariant that ties the bitmaps to the page
  tables.
\<close>

theorem get_kernel_page_fresh:
  assumes ok: "kmem_ok k" and lock: "locks k Kernel_pool_lock = free_lock" "running_thread k \<noteq> NULL"
    and free: "\<exists>i < vpages k. \<not> vpage_used k i" "\<exists>j < frames k PF_KERNEL. \<not> frame_used k PF_KERNEL j"
  shows "\<exists>i j k'. get_kernel_pages k 1 = Inr (vpage k i, k') \<and> kmem_ok k' \<and>
    i < vpages k \<and> \<not> vpage_used k i \<and> (\<forall>n < vpages k. vpage_used k' n \<longleftrightarrow> n = i \<or> vpage_used k n) \<and>
    j < frames k PF_KERNEL \<and> \<not> frame_used k PF_KERNEL j \<and>
    (\<forall>n < frames k PF_KERNEL. frame_used k' PF_KERNEL n \<longleftrightarrow> n = j \<or> frame_used k PF_KERNEL n) \<and>
    (\<forall>n < vpages k. mmu_walk k' (vpage k n) =
       (if n = i then Some (frame_addr k PF_KERNEL j) else mmu_walk k (vpage k n))) \<and>
    (\<forall>a. page_of a = vpage k i \<longrightarrow> vmem k' a = 0) \<and> locks k' = locks k"
proof -
  from get_kernel_page_eq [OF assms] obtain i j m1 m2 where
    i: "i < vpages k" "\<not> vpage_used k i" and j: "j < frames k PF_KERNEL" "\<not> frame_used k PF_KERNEL j"
    and m: "(bitmap_set (vmem k) (vaddr_bitmap (kernel_vaddr k)) (of_nat i) 1 :: (kernel, bytes) res) = Inr m1"
      "(bitmap_set m1 (pool_bitmap (kernel_pool k)) (of_nat j) 1 :: (kernel, bytes) res) = Inr m2"
    and eq: "get_kernel_pages k 1 = Inr (vpage k i, new_page k (vpage k i) (frame_addr k PF_KERNEL j) m2)"
    by blast
  let ?pa = "frame_addr k PF_KERNEL j" and ?k = "new_page k (vpage k i) (frame_addr k PF_KERNEL j) m2"
  have kh: "kheap_ok k" and km: "kmap_ok k" and kf: "kframes_ok k" using ok by (simp_all add: kmem_ok_def)
  have t: "tables_ok k" "pde_present k (vpage k i)" "vpage k i < 0xffc00000" "unused_frame k ?pa" "page_of ?pa = ?pa"
    using km kf i j vpage_unat(2) [OF kh i(1)] kframe_addr(1) [OF kf j(1)] by (simp_all add: kmap_ok_def kframes_ok_def)
  have "mmu_walk ?k (vpage k n) = (if n = i then Some ?pa else mmu_walk k (vpage k n))" if "n < vpages k" for n
    using km that i(1) t(2) unfolding new_page_walk(5) [OF t]
    by (auto simp: kmap_ok_def vpage_unat(5) [OF kh])
  moreover have "\<forall>a. page_of a = vpage k i \<longrightarrow> vmem ?k a = 0" by (simp add: new_page_def)
  ultimately show ?thesis
    using eq i j new_page_kmem_ok [OF ok i(1) j m] new_page_bits [OF ok i(1) j(1) m, of _ ?pa]
    by (intro exI [of _ i] exI [of _ j] exI [of _ ?k]) simp
qed

section \<open>A kernel with a small heap\<close>

text \<open>
  The demonstration kernel with 16 heap pages from \<open>0xc0100000\<close>, 16 kernel frames from
  \<open>0x200000\<close> and 16 user frames behind them. All are free but the two heap pages of its threads.
\<close>

definition heap_kernel :: kernel where
  "heap_kernel = demo_kernel
     \<lparr>vmem := (\<lambda>_. 0)(0xc009a004 := 6),
      kernel_pool := \<lparr>pool_bitmap = \<lparr>btmp_bytes_len = 2, bits = 0xc009a000\<rparr>, phy_addr_start = 0x200000,
                     pool_size = 0x10000\<rparr>,
      user_pool := \<lparr>pool_bitmap = \<lparr>btmp_bytes_len = 2, bits = 0xc009a002\<rparr>, phy_addr_start = 0x210000,
                   pool_size = 0x10000\<rparr>,
      kernel_vaddr := \<lparr>vaddr_bitmap = \<lparr>btmp_bytes_len = 2, bits = 0xc009a004\<rparr>, vaddr_start = 0xc0100000\<rparr>,
      pid_bitmap := \<lparr>btmp_bytes_len = 128, bits = 0xc0098000\<rparr>\<rparr>"

lemma heap_kernel_fields:
  "pmem heap_kernel = boot_pmem" "cr3 heap_kernel = 0x100000" "vmem heap_kernel = (\<lambda>_. 0)(0xc009a004 := 6)"
  "vpages heap_kernel = 16" "frames heap_kernel PF_KERNEL = 16" "frames heap_kernel PF_USER = 16"
  "locks heap_kernel l = free_lock" "running_thread heap_kernel = 0xc009e000"
  by (simp_all add: heap_kernel_def demo_kernel_def boot_kernel_def vpages_def frames_def pool_of_def bm_len_def
      free_lock_def running_thread_def)

lemma region_2: "region a 2 = {a, a + 1}"
  by (simp add: numeral_2_eq_2 region_Suc)

lemma heap_kernel_map: "kmap_ok heap_kernel"
proof -
  have tab: "tables_ok heap_kernel"
    using tables_ok_cong [of heap_kernel boot_kernel] boot_tables_ok by (simp add: heap_kernel_fields)
  have "list_all (\<lambda>i. pte_addr heap_kernel (vpage heap_kernel i) = 0x101400 + of_nat (4 * i) \<and>
      pde_present heap_kernel (vpage heap_kernel i) \<and> mmu_walk heap_kernel (vpage heap_kernel i) = None) [0..<16]"
    by code_simp
  then have all: "pte_addr heap_kernel (vpage heap_kernel i) = 0x101400 + of_nat (4 * i)"
    "pde_present heap_kernel (vpage heap_kernel i)" "mmu_walk heap_kernel (vpage heap_kernel i) = None" if "i < 16" for i
    using that by (auto simp: list_all_iff)
  have "(0x101400 :: u32) + of_nat (4 * i) \<noteq> 0x101400 + of_nat (4 * j)" if "i < 16" "j < 16" "i \<noteq> j" for i j
    using that add_of_nat_inj [of "4 * i" "4 * j" "0x101400"] by simp
  with tab all show ?thesis by (simp add: kmap_ok_def heap_kernel_fields)
qed

lemma heap_kernel_bitmaps: "kbitmaps_ok heap_kernel"
proof -
  have r: "bm_region (vaddr_bitmap (kernel_vaddr heap_kernel)) = {0xc009a004, 0xc009a005}"
    "bm_region (pool_bitmap (kernel_pool heap_kernel)) = {0xc009a000, 0xc009a001}"
    by (simp_all add: heap_kernel_def bm_region_def region_2)
  have "list_all (\<lambda>i. vpage heap_kernel i \<noteq> 0xc009a000) [0..<16]" by code_simp
  then show ?thesis unfolding kbitmaps_ok_def r heap_kernel_fields by (simp add: list_all_iff)
qed

lemma heap_kernel_frames: "kframes_ok heap_kernel"
proof -
  have "unused_frame heap_kernel (frame_addr heap_kernel PF_KERNEL j)" if "j < 16" for j
  proof -
    have "list_all (\<lambda>j. page_of (frame_addr heap_kernel PF_KERNEL j) \<notin> {0x100000, 0x101000}) [0..<16]"
      by code_simp
    with that have "page_of (frame_addr heap_kernel PF_KERNEL j) \<notin> {0x100000, 0x101000}" by (simp add: list_all_iff)
    then show ?thesis
      by (auto simp: unused_frame_def heap_kernel_fields pde_addr_def pde_present_def boot_pde split: if_splits)
  qed
  moreover have "pools_ok heap_kernel" "4096 dvd unat (phy_addr_start (kernel_pool heap_kernel))"
    "phy_addr_start (kernel_pool heap_kernel) \<noteq> NULL"
    by (simp_all add: heap_kernel_def pools_ok_def bm_wf_def bm_len_def frames_def pool_of_def)
  ultimately show ?thesis by (simp add: kframes_ok_def heap_kernel_fields)
qed

lemma heap_kernel_ok: "kmem_ok heap_kernel"
proof -
  have "kheap_ok heap_kernel"
    by (simp add: kheap_ok_def heap_kernel_def bm_wf_def bm_len_def vpages_def)
  with heap_kernel_map heap_kernel_bitmaps heap_kernel_frames show ?thesis by (simp add: kmem_ok_def)
qed

lemma heap_kernel_free:
  "\<exists>i < vpages heap_kernel. \<not> vpage_used heap_kernel i"
  "\<exists>j < frames heap_kernel PF_KERNEL. \<not> frame_used heap_kernel PF_KERNEL j"
  unfolding heap_kernel_fields vpage_used_def frame_used_def bm_bit_def
  by (simp_all add: exI [of _ 0] heap_kernel_def pool_of_def)

theorem get_kernel_page_fresh_witness:
  "\<exists>i k'. get_kernel_pages heap_kernel 1 = Inr (vpage heap_kernel i, k') \<and> kmem_ok k' \<and>
     (\<forall>a. page_of a = vpage heap_kernel i \<longrightarrow> vmem k' a = 0)"
  using get_kernel_page_fresh [OF heap_kernel_ok _ _ heap_kernel_free] by (auto simp: heap_kernel_fields)

end
