(* ===== verification/Kfree.thy ===== *)
theory Kfree
  imports Kpages
begin

unbundle bit_operations_syntax

text \<open>
  \<open>mfree_page\<close> of one page of the kernel heap: what \<open>get_kernel_pages(1)\<close> took is given back, and the invariant
  of the memory manager holds again.
\<close>

section \<open>Giving a page back\<close>

lemma vpage_index:
  assumes "kheap_ok k" "i < vpages k"
  shows "(vpage k i - vaddr_start (kernel_vaddr k)) div PG_SIZE = of_nat i" "vpage k i mod PG_SIZE = 0"
proof -
  have i: "i < 2 ^ 20" using assms unat_less_u32 [of "vaddr_start (kernel_vaddr k)"] by (auto simp: kheap_ok_def)
  have "unat (of_nat i * PG_SIZE div PG_SIZE :: u32) = i"
    using i by (simp add: PG_SIZE_def unat_div unat_word_ariths)
  then show "(vpage k i - vaddr_start (kernel_vaddr k)) div PG_SIZE = of_nat i"
    using i by (simp add: vpage_def word_unat_eq_iff)
  have "unat (vpage k i) mod 4096 = 0"
    using vpage_unat(1) [OF assms] assms(1) by (auto simp: kheap_ok_def)
  then show "vpage k i mod PG_SIZE = 0" by (simp add: PG_SIZE_def word_unat_eq_iff unat_mod)
qed

text \<open>The state after the page at \<open>va\<close> was given back, with the new bits in \<open>m\<close>.\<close>

definition lost_page :: "kernel \<Rightarrow> u32 \<Rightarrow> bytes \<Rightarrow> kernel" where
  "lost_page k va m = k\<lparr>pmem := (pmem k)(pte_addr k va := pmem k (pte_addr k va) AND NOT 1), vmem := m\<rparr>"

lemma vmem_tables [simp]:
  "pde_addr (k\<lparr>vmem := m\<rparr>) = pde_addr k" "pte_addr (k\<lparr>vmem := m\<rparr>) = pte_addr k"
  "pde_present (k\<lparr>vmem := m\<rparr>) = pde_present k" "self_mapped (k\<lparr>vmem := m\<rparr>) = self_mapped k"
  "tables_ok (k\<lparr>vmem := m\<rparr>) = tables_ok k" "unused_frame (k\<lparr>vmem := m\<rparr>) f = unused_frame k f"
  "mmu_walk (k\<lparr>vmem := m\<rparr>) x = mmu_walk k x"
  by (simp_all add: fun_eq_iff pde_addr_def pte_addr_def pde_present_def self_mapped_def tables_ok_def unused_frame_def mmu_walk_def Let_def)

lemma lost_page_eq: "lost_page k va m = (set_pte k va (pmem k (pte_addr k va) AND NOT 1))\<lparr>vmem := m\<rparr>"
  by (simp add: lost_page_def set_pte_def)

lemma lost_page_tables:
  assumes "tables_ok k" "pde_present k va" "va < 0xffc00000"
  shows "tables_ok (lost_page k va m)" "pde_present (lost_page k va m) = pde_present k" "pte_addr (lost_page k va m) = pte_addr k"
    "unused_frame (lost_page k va m) f = unused_frame k f"
    "mmu_walk (lost_page k va m) x = (if pde_present k x \<and> pte_addr k x = pte_addr k va then None else mmu_walk k x)"
proof -
  have off: "pde_off va \<noteq> 4092" using assms(3) by (simp add: pde_off_4092)
  note s = assms(1,2) off
  show "tables_ok (lost_page k va m)" "pde_present (lost_page k va m) = pde_present k" "pte_addr (lost_page k va m) = pte_addr k"
    using set_pte_tables_ok [OF s] set_pte_dir [OF s] by (simp_all add: lost_page_eq)
  show "unused_frame (lost_page k va m) f = unused_frame k f"
    using set_pte_dir [OF s] by (simp add: lost_page_eq unused_frame_def) (simp add: set_pte_def)
  show "mmu_walk (lost_page k va m) x = (if pde_present k x \<and> pte_addr k x = pte_addr k va then None else mmu_walk k x)"
    using mmu_walk_set_pte [OF s] by (simp add: lost_page_eq bit_and_iff bit_not_iff)
qed

lemma lost_page_bits:
  assumes ok: "kmem_ok k" and i: "i < vpages k" and j: "j < frames k PF_KERNEL"
    and m: "(bitmap_set (vmem k) (pool_bitmap (kernel_pool k)) (of_nat j) 0 :: (kernel, bytes) res) = Inr m1"
      "(bitmap_set m1 (vaddr_bitmap (kernel_vaddr k)) (of_nat i) 0 :: (kernel, bytes) res) = Inr m2"
  shows "n < vpages k \<Longrightarrow> vpage_used (lost_page k va m2) n \<longleftrightarrow> n \<noteq> i \<and> vpage_used k n"
    and "n < frames k PF_KERNEL \<Longrightarrow> frame_used (lost_page k va m2) PF_KERNEL n \<longleftrightarrow> n \<noteq> j \<and> frame_used k PF_KERNEL n"
    and "x \<notin> bm_region (vaddr_bitmap (kernel_vaddr k)) \<union> bm_region (pool_bitmap (kernel_pool k)) \<Longrightarrow> m2 x = vmem k x"
proof -
  let ?vb = "vaddr_bitmap (kernel_vaddr k)" and ?pb = "pool_bitmap (kernel_pool k)"
  have kb: "kbitmaps_ok k" and wf: "bm_wf ?vb" "bm_wf ?pb"
    using ok by (simp_all add: kmem_ok_def kheap_ok_def kframes_ok_def pools_ok_def)
  have len: "i < bm_len ?vb" "j < bm_len ?pb" "i < 2 ^ 32" "j < 2 ^ 32"
    using i j wf by (simp_all add: vpages_def frames_def pool_of_def bm_wf_def)
  have disj: "x \<notin> bm_region ?pb" if "x \<in> bm_region ?vb" for x using kb that by (auto simp: kbitmaps_ok_def)
  show "vpage_used (lost_page k va m2) n \<longleftrightarrow> n \<noteq> i \<and> vpage_used k n" if n: "n < vpages k"
  proof -
    have n': "n < bm_len ?vb" using n by (simp add: vpages_def)
    have "bm_bit m1 ?vb n = bm_bit (vmem k) ?vb n"
      using n' disj bitmap_set_outside [OF m(1) len(2) _ wf(2)] by (intro bm_bit_cong) auto
    with bm.upd_used [OF m(2) n'] len(3) show ?thesis by (auto simp: vpage_used_def lost_page_def)
  qed
  show "frame_used (lost_page k va m2) PF_KERNEL n \<longleftrightarrow> n \<noteq> j \<and> frame_used k PF_KERNEL n" if n: "n < frames k PF_KERNEL"
  proof -
    have n': "n < bm_len ?pb" using n by (simp add: frames_def pool_of_def)
    have "bm_bit m2 ?pb n = bm_bit m1 ?pb n"
      using n' disj bitmap_set_outside [OF m(2) len(1) _ wf(1)] by (intro bm_bit_cong) auto
    with bm.upd_used [OF m(1) n'] len(4) show ?thesis by (auto simp: frame_used_def pool_of_def lost_page_def)
  qed
  show "m2 x = vmem k x" if "x \<notin> bm_region ?vb \<union> bm_region ?pb"
    using that bitmap_set_outside [OF m(2) len(1) _ wf(1)] bitmap_set_outside [OF m(1) len(2) _ wf(2)] by auto
qed

lemma mfree_kernel_page:
  assumes ok: "kmem_ok k" and i: "i < vpages k" and j: "j < frames k PF_KERNEL"
    and map: "mmu_walk k (vpage k i) = Some (frame_addr k PF_KERNEL j)"
    and high: "0x102000 < frame_addr k PF_KERNEL j"
  shows "\<exists>m1 m2. (bitmap_set (vmem k) (pool_bitmap (kernel_pool k)) (of_nat j) 0 :: (kernel, bytes) res) = Inr m1 \<and>
    (bitmap_set m1 (vaddr_bitmap (kernel_vaddr k)) (of_nat i) 0 :: (kernel, bytes) res) = Inr m2 \<and>
    mfree_page k PF_KERNEL (vpage k i) 1 = Inr (lost_page k (vpage k i) m2)"
proof -
  have kh: "kheap_ok k" and km: "kmap_ok k" and kf: "kframes_ok k" and po: "pools_ok k"
    using ok by (simp_all add: kmem_ok_def kframes_ok_def)
  obtain m1 where m1: "(bitmap_set (vmem k) (pool_bitmap (kernel_pool k)) (of_nat j) 0 :: (kernel, bytes) res) = Inr m1"
    using bm.upd_ok by blast
  obtain m2 where m2: "(bitmap_set m1 (vaddr_bitmap (kernel_vaddr k)) (of_nat i) 0 :: (kernel, bytes) res) = Inr m2"
    using bm.upd_ok by blast
  let ?va = "vpage k i" and ?pa = "frame_addr k PF_KERNEL j"
  have sm: "self_mapped k" "pde_present k ?va" using km i by (simp_all add: kmap_ok_def tables_ok_def)
  have v2p: "addr_v2p k ?va = Inr ?pa" using map sm by (auto simp: addr_v2p_eq mmu_walk_eq split: if_splits)
  have pa: "?pa mod PG_SIZE = 0" "?pa < phy_addr_start (user_pool k)" "phy_addr_start (kernel_pool k) \<le> ?pa"
  proof -
    have u: "unat ?pa = unat (phy_addr_start (kernel_pool k)) + 4096 * j"
      using frame_addr_unat [OF po j] by (simp add: pool_of_def)
    then show "?pa < phy_addr_start (user_pool k)" "phy_addr_start (kernel_pool k) \<le> ?pa"
      using po j by (simp_all add: word_less_nat_alt word_le_nat_alt pools_ok_def)
    have "unat ?pa mod 4096 = 0" using u kf by (auto simp: kframes_ok_def)
    then show "?pa mod PG_SIZE = 0" by (simp add: PG_SIZE_def word_unat_eq_iff unat_mod)
  qed
  have free: "pfree k ?pa = Inr (k\<lparr>vmem := m1\<rparr>)"
    using free_frame(2) [OF po j] m1 by (simp add: k_bitmap_set_def pool_of_def)
  have rm: "page_table_pte_remove (k\<lparr>vmem := m1\<rparr>) ?va = Inr (lost_page k ?va m1)"
    using page_table_pte_remove_eq [of "k\<lparr>vmem := m1\<rparr>" ?va] sm by (simp add: lost_page_def set_pte_def)
  have "vaddr_remove (lost_page k ?va m1) PF_KERNEL ?va 1 = Inr (lost_page k ?va m2)"
    using m2 vpage_index(1) [OF kh i] by (simp add: vaddr_remove_def lost_page_def k_bitmap_set_def)
  then have "mfree_page k PF_KERNEL ?va 1 = Inr (lost_page k ?va m2)"
    using v2p pa high free rm vpage_index(2) [OF kh i] by (simp add: mfree_page_def not_le)
  then show ?thesis using m1 m2 by blast
qed

lemma lost_page_kmem_ok:
  assumes ok: "kmem_ok k" and i: "i < vpages k" and j: "j < frames k PF_KERNEL" "unused_frame k (frame_addr k PF_KERNEL j)"
    and m: "(bitmap_set (vmem k) (pool_bitmap (kernel_pool k)) (of_nat j) 0 :: (kernel, bytes) res) = Inr m1"
      "(bitmap_set m1 (vaddr_bitmap (kernel_vaddr k)) (of_nat i) 0 :: (kernel, bytes) res) = Inr m2"
  shows "kmem_ok (lost_page k (vpage k i) m2)"
    "n < vpages k \<Longrightarrow> mmu_walk (lost_page k (vpage k i) m2) (vpage k n) = (if n = i then None else mmu_walk k (vpage k n))"
proof -
  let ?k = "lost_page k (vpage k i) m2"
  have kh: "kheap_ok k" and kb: "kbitmaps_ok k" and km: "kmap_ok k" and kf: "kframes_ok k" using ok by (simp_all add: kmem_ok_def)
  have t: "tables_ok k" "pde_present k (vpage k i)" "vpage k i < 0xffc00000"
    using km i vpage_unat(2) [OF kh i] by (simp_all add: kmap_ok_def)
  note w = lost_page_tables [OF t, of m2] and b = lost_page_bits [OF ok i j(1) m]
  have same: "kernel_vaddr ?k = kernel_vaddr k" "kernel_pool ?k = kernel_pool k" "user_pool ?k = user_pool k"
    by (simp_all add: lost_page_def)
  then have v: "vpages ?k = vpages k" "vpage ?k = vpage k" by (simp_all add: vpages_def vpage_def fun_eq_iff)
  have p: "frames ?k pf = frames k pf" "frame_addr ?k pf = frame_addr k pf" for pf
    using same by (cases pf; simp add: frames_def frame_addr_def pool_of_def fun_eq_iff)+
  show walk: "mmu_walk ?k (vpage k n) = (if n = i then None else mmu_walk k (vpage k n))" if "n < vpages k" for n
  proof (cases "n = i")
    case True
    then show ?thesis using w(5) t(2) by simp
  next
    case False
    then have "pte_addr k (vpage k n) \<noteq> pte_addr k (vpage k i)" using km that i by (auto simp: kmap_ok_def)
    then show ?thesis using w(5) False by simp
  qed
  have "kheap_ok ?k" "kbitmaps_ok ?k" using kh kb by (simp_all add: kheap_ok_def kbitmaps_ok_def v same)
  moreover have "kmap_ok ?k"
    using km w(1) walk b(1) by (simp add: kmap_ok_def v w(2,3))
  moreover have "kframes_ok ?k"
    using kf b(2) j w(4) by (auto simp: kframes_ok_def pools_ok_def p same)
  ultimately show "kmem_ok ?k" by (simp add: kmem_ok_def)
qed

text \<open>Two kernels with the same memory: bitmaps, page tables and pools.\<close>

definition same_kmem :: "kernel \<Rightarrow> kernel \<Rightarrow> bool" where
  "same_kmem k k' \<longleftrightarrow> vmem k' = vmem k \<and> pmem k' = pmem k \<and> cr3 k' = cr3 k \<and> kernel_vaddr k' = kernel_vaddr k \<and>
     kernel_pool k' = kernel_pool k \<and> user_pool k' = user_pool k"

lemma same_kmem_view:
  assumes "same_kmem k k'"
  shows "vpages k' = vpages k" "vpage k' = vpage k" "vpage_used k' = vpage_used k" "frames k' pf = frames k pf"
    "frame_used k' pf = frame_used k pf" "frame_addr k' pf = frame_addr k pf" "mmu_walk k' x = mmu_walk k x"
    "unused_frame k' f = unused_frame k f" "kmem_ok k' = kmem_ok k"
proof -
  have e: "vmem k' = vmem k" "pmem k' = pmem k" "cr3 k' = cr3 k" "kernel_vaddr k' = kernel_vaddr k" "kernel_pool k' = kernel_pool k"
    "user_pool k' = user_pool k" using assms by (simp_all add: same_kmem_def)
  show v: "vpages k' = vpages k" "vpage k' = vpage k" "vpage_used k' = vpage_used k"
    by (simp_all add: fun_eq_iff vpages_def vpage_def vpage_used_def e)
  show p: "frames k' pf = frames k pf" "frame_used k' pf = frame_used k pf" "frame_addr k' pf = frame_addr k pf" for pf
    by (cases pf; simp add: fun_eq_iff frames_def frame_used_def frame_addr_def pool_of_def e)+
  show m: "mmu_walk k' x = mmu_walk k x" for x by (simp add: mmu_walk_def e Let_def)
  have d: "pde_addr k' = pde_addr k" by (simp add: fun_eq_iff pde_addr_def e)
  then have t: "pte_addr k' = pte_addr k" "pde_present k' = pde_present k"
    by (simp_all add: fun_eq_iff pte_addr_def pde_present_def e)
  show u: "unused_frame k' f = unused_frame k f" for f by (simp add: unused_frame_def e t d)
  have tab: "tables_ok k' = tables_ok k" by (simp add: tables_ok_def self_mapped_def e t d)
  show "kmem_ok k' = kmem_ok k"
    by (simp add: kmem_ok_def kheap_ok_def kbitmaps_ok_def kmap_ok_def kframes_ok_def pools_ok_def e v p m t u tab)
qed

lemma same_kmem_trans: "same_kmem k k1 \<Longrightarrow> same_kmem k1 k2 \<Longrightarrow> same_kmem k k2"
  by (simp add: same_kmem_def)

lemma same_kmem_refl: "same_kmem k k"
  by (simp add: same_kmem_def)

lemma mfree_new_page:
  assumes ok: "kmem_ok k" and i: "i < vpages k" "\<not> vpage_used k i" and j: "j < frames k PF_KERNEL" "\<not> frame_used k PF_KERNEL j"
    and m: "(bitmap_set (vmem k) (vaddr_bitmap (kernel_vaddr k)) (of_nat i) 1 :: (kernel, bytes) res) = Inr m1"
      "(bitmap_set m1 (pool_bitmap (kernel_pool k)) (of_nat j) 1 :: (kernel, bytes) res) = Inr m2"
    and same: "same_kmem (new_page k (vpage k i) (frame_addr k PF_KERNEL j) m2) k'"
    and high: "0x102000 < phy_addr_start (kernel_pool k)"
  shows "\<exists>m3. mfree_page k' PF_KERNEL (vpage k i) 1 = Inr (lost_page k' (vpage k i) m3) \<and> kmem_ok (lost_page k' (vpage k i) m3) \<and>
    (\<forall>n < vpages k. vpage_used (lost_page k' (vpage k i) m3) n = vpage_used k n \<and>
       mmu_walk (lost_page k' (vpage k i) m3) (vpage k n) = mmu_walk k (vpage k n)) \<and>
    (\<forall>n < frames k PF_KERNEL. frame_used (lost_page k' (vpage k i) m3) PF_KERNEL n = frame_used k PF_KERNEL n)"
proof -
  let ?pa = "frame_addr k PF_KERNEL j" and ?k = "new_page k (vpage k i) (frame_addr k PF_KERNEL j) m2"
  have kh: "kheap_ok k" and km: "kmap_ok k" and kf: "kframes_ok k" using ok by (simp_all add: kmem_ok_def)
  have t: "tables_ok k" "pde_present k (vpage k i)" "vpage k i < 0xffc00000" "unused_frame k ?pa" "page_of ?pa = ?pa"
    using km kf i j vpage_unat(2) [OF kh i(1)] kframe_addr(1) [OF kf j(1)] by (simp_all add: kmap_ok_def kframes_ok_def)
  note v = same_kmem_view [OF same]
  have same: "vpages k' = vpages k" "vpage k' = vpage k" "frames k' PF_KERNEL = frames k PF_KERNEL" "frame_addr k' PF_KERNEL = frame_addr k PF_KERNEL"
    unfolding v by (simp_all add: new_page_def vpages_def vpage_def frames_def frame_addr_def pool_of_def fun_eq_iff)
  have ok1: "kmem_ok k'" unfolding v by (rule new_page_kmem_ok [OF ok i(1) j m])
  have map: "mmu_walk k' (vpage k n) = (if n = i then Some ?pa else mmu_walk k (vpage k n))" if "n < vpages k" for n
    unfolding v using km that i(1) t(2) unfolding new_page_walk(5) [OF t] by (auto simp: kmap_ok_def vpage_unat(5) [OF kh])
  have "unat ?pa = unat (phy_addr_start (kernel_pool k)) + 4096 * j"
    using frame_addr_unat [of k j PF_KERNEL] kf j(1) by (simp add: kframes_ok_def pool_of_def)
  then have "0x102000 < ?pa" using high by (simp add: word_less_nat_alt)
  then obtain n1 n2 where
    n: "(bitmap_set (vmem k') (pool_bitmap (kernel_pool k')) (of_nat j) 0 :: (kernel, bytes) res) = Inr n1"
      "(bitmap_set n1 (vaddr_bitmap (kernel_vaddr k')) (of_nat i) 0 :: (kernel, bytes) res) = Inr n2"
      "mfree_page k' PF_KERNEL (vpage k i) 1 = Inr (lost_page k' (vpage k i) n2)"
    using mfree_kernel_page [OF ok1, of i j] i j map by (auto simp: same)
  have u: "unused_frame k' (frame_addr k' PF_KERNEL j)" using new_page_tables_ok(2) [OF t] t(4) by (simp add: same v(8))
  note l = lost_page_kmem_ok [OF ok1 _ _ u n(1,2), unfolded same, OF i(1) j(1)]
  note b = lost_page_bits [OF ok1 _ _ n(1,2), unfolded same, OF i(1) j(1)]
  note nb = new_page_bits [OF ok i(1) j(1) m]
  have "mmu_walk k (vpage k i) = None" using km i by (auto simp: kmap_ok_def)
  then show ?thesis using n(3) l b(1,2) nb map i(2) j(2) by (intro exI [of _ n2] conjI) (auto simp: v)
qed

text \<open>
  A page that \<open>get_kernel_pages(1)\<close> took and \<open>mfree_page\<close> gave back leaves the memory manager as it was: the
  same virtual pages and frames are in use, every page of the heap translates as before, and the invariant holds.
\<close>

theorem kernel_page_roundtrip:
  assumes ok: "kmem_ok k" and lock: "locks k Kernel_pool_lock = free_lock" "running_thread k \<noteq> NULL"
    and free: "\<exists>i < vpages k. \<not> vpage_used k i" "\<exists>j < frames k PF_KERNEL. \<not> frame_used k PF_KERNEL j"
    and high: "0x102000 < phy_addr_start (kernel_pool k)"
  shows "\<exists>v k1 k2. get_kernel_pages k 1 = Inr (v, k1) \<and> mfree_page k1 PF_KERNEL v 1 = Inr k2 \<and> kmem_ok k2 \<and>
    (\<forall>n < vpages k. vpage_used k2 n = vpage_used k n \<and> mmu_walk k2 (vpage k n) = mmu_walk k (vpage k n)) \<and>
    (\<forall>n < frames k PF_KERNEL. frame_used k2 PF_KERNEL n = frame_used k PF_KERNEL n)"
proof -
  from get_kernel_page_eq [OF assms(1-5)] obtain i j m1 m2 where
    i: "i < vpages k" "\<not> vpage_used k i" and j: "j < frames k PF_KERNEL" "\<not> frame_used k PF_KERNEL j"
    and m: "(bitmap_set (vmem k) (vaddr_bitmap (kernel_vaddr k)) (of_nat i) 1 :: (kernel, bytes) res) = Inr m1"
      "(bitmap_set m1 (pool_bitmap (kernel_pool k)) (of_nat j) 1 :: (kernel, bytes) res) = Inr m2"
    and eq: "get_kernel_pages k 1 = Inr (vpage k i, new_page k (vpage k i) (frame_addr k PF_KERNEL j) m2)"
    by blast
  show ?thesis using eq mfree_new_page [OF ok i j m same_kmem_refl high] by blast
qed

theorem kernel_page_roundtrip_witness:
  "\<exists>v k1 k2. get_kernel_pages heap_kernel 1 = Inr (v, k1) \<and> mfree_page k1 PF_KERNEL v 1 = Inr k2 \<and> kmem_ok k2 \<and>
    (\<forall>n < 16. vpage_used k2 n = vpage_used heap_kernel n \<and>
       mmu_walk k2 (vpage heap_kernel n) = mmu_walk heap_kernel (vpage heap_kernel n)) \<and>
    (\<forall>n < 16. frame_used k2 PF_KERNEL n = frame_used heap_kernel PF_KERNEL n)"
proof -
  have "0x102000 < phy_addr_start (kernel_pool heap_kernel)" by (simp add: heap_kernel_def)
  then show ?thesis using kernel_page_roundtrip [OF heap_kernel_ok _ _ heap_kernel_free] by (simp add: heap_kernel_fields)
qed

end
