(* ===== verification/Ioqueue.thy ===== *)
theory Ioqueue
  imports Sync
begin

unbundle bit_operations_syntax

text \<open>
  \<^verbatim>\<open>device/ioqueue.c\<close>: the ring buffer between interrupt handlers or pipe ends and threads.
  \<open>ioq_list\<close> is the sequence of characters a ring holds; the lemmas show that the operations
  refine a bounded queue of \<open>bufsize - 1\<close> characters, stated as the locale \<open>byte_queue\<close>.
  A call on a full or empty ring records the caller and gives up the CPU, holding the lock of the
  ring; the loops come back when the caller is woken.
\<close>

section \<open>Definitions\<close>

definition bufsize :: u32 where
  "bufsize = 2048"

definition upd_ioq :: "kernel \<Rightarrow> ioqp \<Rightarrow> (ioqueue \<Rightarrow> ioqueue) \<Rightarrow> kernel" where
  "upd_ioq k ioq f = k\<lparr>ioqs := (ioqs k)(ioq := f (ioqs k ioq))\<rparr>"

definition ioqueue_init :: "kernel \<Rightarrow> ioqp \<Rightarrow> kernel" where
  "ioqueue_init k ioq =
     upd_ioq (lock_init k (Ioq_lock ioq)) ioq
       (\<lambda>q. q\<lparr>producer := NULL, consumer := NULL, ihead := 0, itail := 0\<rparr>)"

definition next_pos :: "u32 \<Rightarrow> u32" where
  "next_pos pos = (pos + 1) mod bufsize"

definition ioq_full :: "kernel \<Rightarrow> ioqp \<Rightarrow> bool kres" where
  "ioq_full k ioq =
     bnd (ASSERT (intr_get_status (flags k) = INTR_OFF) ''intr_get_status() == INTR_OFF'') (\<lambda>_.
       Inr (next_pos (ihead (ioqs k ioq)) = itail (ioqs k ioq)))"

definition ioq_empty :: "kernel \<Rightarrow> ioqp \<Rightarrow> bool kres" where
  "ioq_empty k ioq =
     bnd (ASSERT (intr_get_status (flags k) = INTR_OFF) ''intr_get_status() == INTR_OFF'') (\<lambda>_.
       Inr (ihead (ioqs k ioq) = itail (ioqs k ioq)))"

text \<open>The argument \<open>waiter\<close> of the source is one of the two pointer fields.\<close>

datatype side = Producer | Consumer

definition waiter :: "ioqueue \<Rightarrow> side \<Rightarrow> u32" where
  "waiter q sd = (case sd of Producer \<Rightarrow> producer q | Consumer \<Rightarrow> consumer q)"

definition set_waiter :: "side \<Rightarrow> u32 \<Rightarrow> ioqueue \<Rightarrow> ioqueue" where
  "set_waiter sd t q = (case sd of Producer \<Rightarrow> q\<lparr>producer := t\<rparr> | Consumer \<Rightarrow> q\<lparr>consumer := t\<rparr>)"

definition ioq_wait :: "kernel \<Rightarrow> ioqp \<Rightarrow> side \<Rightarrow> kernel kres" where
  "ioq_wait k ioq sd =
     bnd (ASSERT (waiter (ioqs k ioq) sd = NULL) ''*waiter == NULL && waiter != NULL'') (\<lambda>_.
       thread_block (upd_ioq k ioq (set_waiter sd (running_thread k))) TASK_BLOCKED)"

definition wakeup :: "kernel \<Rightarrow> ioqp \<Rightarrow> side \<Rightarrow> kernel kres" where
  "wakeup k ioq sd =
     bnd (ASSERT (waiter (ioqs k ioq) sd \<noteq> NULL) ''*waiter != NULL'') (\<lambda>_.
     bnd (thread_unblock k (waiter (ioqs k ioq) sd)) (\<lambda>k.
       Inr (upd_ioq k ioq (set_waiter sd NULL))))"

text \<open>The body of the two waiting loops; the loops end when the condition fails.\<close>

definition ioq_sleep :: "kernel \<Rightarrow> ioqp \<Rightarrow> side \<Rightarrow> kernel kres" where
  "ioq_sleep k ioq sd =
     bnd (lock_acquire k (Ioq_lock ioq)) (\<lambda>k.
     bnd (ioq_wait k ioq sd) (\<lambda>k.
       lock_release k (Ioq_lock ioq)))"

partial_function (option) ioq_loop ::
  "(kernel \<Rightarrow> ioqp \<Rightarrow> bool kres) \<Rightarrow> side \<Rightarrow> kernel \<Rightarrow> ioqp \<Rightarrow> kernel kres option" where
  "ioq_loop stuck sd k ioq =
     (case stuck k ioq of
        Inl e \<Rightarrow> Some (Inl e)
      | Inr b \<Rightarrow>
          if b then (case ioq_sleep k ioq sd of Inl h \<Rightarrow> Some (Inl h) | Inr k \<Rightarrow> ioq_loop stuck sd k ioq)
          else Some (Inr k))"

declare ioq_loop.simps [code]

definition ioq_await :: "(kernel \<Rightarrow> ioqp \<Rightarrow> bool kres) \<Rightarrow> side \<Rightarrow> kernel \<Rightarrow> ioqp \<Rightarrow> kernel kres" where
  "ioq_await stuck sd k ioq = (case ioq_loop stuck sd k ioq of None \<Rightarrow> Inl Spin | Some r \<Rightarrow> r)"

definition ioq_get_char :: "kernel \<Rightarrow> ioqp \<Rightarrow> (u8 \<times> kernel) kres" where
  "ioq_get_char k ioq =
     bnd (ASSERT (intr_get_status (flags k) = INTR_OFF) ''intr_get_status() == INTR_OFF'') (\<lambda>_.
     bnd (ioq_await ioq_empty Consumer k ioq) (\<lambda>k.
     let q = ioqs k ioq
     in if \<not> unat (itail q) < length (buf q) then Inl (Fault ''buf[tail]'')
        else let ch = buf q ! unat (itail q);
                 k = upd_ioq k ioq (\<lambda>q. q\<lparr>itail := next_pos (itail q)\<rparr>)
             in bnd (if producer q \<noteq> NULL then wakeup k ioq Producer else Inr k) (\<lambda>k. Inr (ch, k))))"

definition ioq_put_char :: "kernel \<Rightarrow> ioqp \<Rightarrow> u8 \<Rightarrow> kernel kres" where
  "ioq_put_char k ioq ch =
     bnd (ASSERT (intr_get_status (flags k) = INTR_OFF) ''intr_get_status() == INTR_OFF'') (\<lambda>_.
     bnd (ioq_await ioq_full Producer k ioq) (\<lambda>k.
     let q = ioqs k ioq
     in if \<not> unat (ihead q) < length (buf q) then Inl (Fault ''buf[head]'')
        else let k = upd_ioq k ioq (\<lambda>q. q\<lparr>buf := (buf q)[unat (ihead q) := ch], ihead := next_pos (ihead q)\<rparr>)
             in if consumer q \<noteq> NULL then wakeup k ioq Consumer else Inr k))"

definition ioq_length :: "kernel \<Rightarrow> ioqp \<Rightarrow> u32" where
  "ioq_length k ioq =
     (let q = ioqs k ioq
      in if itail q \<le>s ihead q then ihead q - itail q else bufsize - (itail q - ihead q))"

section \<open>Ring arithmetic\<close>

definition ring_len :: "nat \<Rightarrow> nat \<Rightarrow> nat" where
  "ring_len h t = (h + 2048 - t) mod 2048"

lemma ring_len_if:
  "h < 2048 \<Longrightarrow> t < 2048 \<Longrightarrow> ring_len h t = (if t \<le> h then h - t else h + 2048 - t)"
  by (auto simp: ring_len_def mod_if)

lemma ring_put:
  assumes "h < 2048" "t < 2048" "(h + 1) mod 2048 \<noteq> t"
  shows "ring_len ((h + 1) mod 2048) t = Suc (ring_len h t)"
proof (cases "h = 2047")
  case True
  with assms show ?thesis by (simp add: ring_len_if)
next
  case False
  with assms show ?thesis by (simp add: ring_len_if) arith
qed

lemma ring_index_end:
  assumes "h < 2048" "t < 2048"
  shows "(t + ring_len h t) mod 2048 = h"
proof (cases "t \<le> h")
  case False
  then have "t + (h + 2048 - t) = h + 2048" using assms by arith
  with False assms show ?thesis by (simp add: ring_len_if)
qed (use assms in \<open>simp add: ring_len_if\<close>)

lemma ring_index_inside:
  assumes "h < 2048" "t < 2048" "i < ring_len h t"
  shows "(t + i) mod 2048 \<noteq> h"
proof (cases "t + i < 2048")
  case True
  with assms show ?thesis by (simp add: ring_len_if split: if_splits)
next
  case False
  have "t + i - 2048 < 2048" using assms by (simp add: ring_len_if split: if_splits)
  with False have "(t + i) mod 2048 = t + i - 2048" by (simp add: le_mod_geq)
  with False assms show ?thesis by (simp add: ring_len_if split: if_splits)
qed

lemmas ring_index = ring_index_end ring_index_inside

lemma ring_get:
  assumes "h < 2048" "t < 2048" "h \<noteq> t"
  shows "ring_len h t = Suc (ring_len h ((t + 1) mod 2048))"
proof (cases "t = 2047")
  case True
  with assms show ?thesis by (simp add: ring_len_if)
next
  case False
  with assms show ?thesis by (simp add: ring_len_if) arith
qed

section \<open>The sequence a ring holds\<close>

definition ioq_wf :: "ioqueue \<Rightarrow> bool" where
  "ioq_wf q \<longleftrightarrow> length (buf q) = 2048 \<and> unat (ihead q) < 2048 \<and> unat (itail q) < 2048"

definition ioq_list :: "ioqueue \<Rightarrow> u8 list" where
  "ioq_list q = map (\<lambda>i. buf q ! ((unat (itail q) + i) mod 2048))
     [0..<ring_len (unat (ihead q)) (unat (itail q))]"

lemma next_pos_unat: "unat p < 2048 \<Longrightarrow> unat (next_pos p) = (unat p + 1) mod 2048"
  by (simp add: next_pos_def bufsize_def unat_mod unat_word_ariths)

lemma next_pos_eq:
  "unat p < 2048 \<Longrightarrow> next_pos p = t \<longleftrightarrow> (unat p + 1) mod 2048 = unat t"
  by (metis next_pos_unat word_unat_eq_iff)

lemma ioq_list_put:
  fixes q :: ioqueue and ch :: u8
  assumes "ioq_wf q" "next_pos (ihead q) \<noteq> itail q"
  defines "q' \<equiv> q\<lparr>buf := (buf q)[unat (ihead q) := ch], ihead := next_pos (ihead q)\<rparr>"
  shows "ioq_list q' = ioq_list q @ [ch] \<and> ioq_wf q'"
proof -
  let ?h = "unat (ihead q)" and ?t = "unat (itail q)"
  have b: "?h < 2048" "?t < 2048" "length (buf q) = 2048" using assms(1) by (auto simp: ioq_wf_def)
  have ne: "(?h + 1) mod 2048 \<noteq> ?t" using assms(2) next_pos_eq [OF b(1)] by simp
  have len: "ring_len (unat (next_pos (ihead q))) ?t = Suc (ring_len ?h ?t)"
    using ring_put [OF b(1,2) ne] next_pos_unat [OF b(1)] by simp
  have "(buf q)[?h := ch] ! ((?t + i) mod 2048) = buf q ! ((?t + i) mod 2048)" if "i < ring_len ?h ?t" for i
    using ring_index(2) [OF b(1,2) that] by (simp add: nth_list_update_neq)
  then have "ioq_list q' = ioq_list q @ [ch]"
    using len ring_index(1) [OF b(1,2)] b by (simp add: ioq_list_def q'_def)
  moreover have "ioq_wf q'" using b next_pos_unat [OF b(1)] by (simp add: ioq_wf_def q'_def)
  ultimately show ?thesis by simp
qed

lemma ioq_list_get:
  assumes "ioq_wf q" "ihead q \<noteq> itail q"
  defines "q' \<equiv> q\<lparr>itail := next_pos (itail q)\<rparr>"
  shows "ioq_list q = buf q ! unat (itail q) # ioq_list q' \<and> ioq_wf q'"
proof -
  let ?h = "unat (ihead q)" and ?t = "unat (itail q)"
  have b: "?h < 2048" "?t < 2048" "length (buf q) = 2048" using assms(1) by (auto simp: ioq_wf_def)
  have ne: "?h \<noteq> ?t" using assms(2) by (simp add: word_unat_eq_iff)
  have len: "ring_len ?h ?t = Suc (ring_len ?h (unat (next_pos (itail q))))"
    using ring_get [OF b(1,2) ne] next_pos_unat [OF b(2)] by simp
  have "(unat (next_pos (itail q)) + i) mod 2048 = (?t + Suc i) mod 2048" for i
    using next_pos_unat [OF b(2)] by (simp add: mod_add_left_eq)
  then have "ioq_list q = buf q ! ?t # ioq_list q'"
    using len b by (simp add: ioq_list_def q'_def upt_conv_Cons map_Suc_upt [symmetric] del: upt_Suc)
  moreover have "ioq_wf q'" using b next_pos_unat [OF b(2)] by (simp add: ioq_wf_def q'_def)
  ultimately show ?thesis by simp
qed

lemma ioq_list_empty: "ioq_wf q \<Longrightarrow> ioq_list q = [] \<longleftrightarrow> ihead q = itail q"
  using ring_get [of "unat (ihead q)" "unat (itail q)"] ring_len_if [of "unat (ihead q)" "unat (itail q)"]
  by (auto simp: ioq_list_def ioq_wf_def word_unat_eq_iff)

lemma ioq_list_full: "ioq_wf q \<Longrightarrow> next_pos (ihead q) = itail q \<longleftrightarrow> length (ioq_list q) = 2047"
  by (auto simp: ioq_list_def ioq_wf_def next_pos_eq ring_len_if mod_if split: if_splits)

section \<open>The operations\<close>

lemma upd_ioq_simps [simp]:
  "ioqs (upd_ioq k p f) = (ioqs k)(p := f (ioqs k p))" "flags (upd_ioq k p f) = flags k"
  "tasks (upd_ioq k p f) = tasks k" "thread_ready_list (upd_ioq k p f) = thread_ready_list k"
  "running_thread (upd_ioq k p f) = running_thread k" "locks (upd_ioq k p f) = locks k"
  "idle_thread (upd_ioq k p f) = idle_thread k" "statuses (upd_ioq k p f) = statuses k"
  "esp (upd_ioq k p f) = esp k"
  by (simp_all add: upd_ioq_def running_thread_def statuses_def fun_eq_iff)

lemma sched_inv_ioq [simp]: "sched_inv T (upd_ioq k p f) = sched_inv T k"
  by (simp add: sched_inv_def stacks_ok_def)

lemma ioq_await_done: "stuck k p = Inr False \<Longrightarrow> ioq_await stuck sd k p = Inr k"
  by (simp add: ioq_await_def ioq_loop.simps)

lemma ioq_full_iff:
  "intr_off k \<Longrightarrow> ioq_wf (ioqs k p) \<Longrightarrow> ioq_full k p = Inr (length (ioq_list (ioqs k p)) = 2047)"
  by (simp add: ioq_full_def intr_off_def ioq_list_full)

lemma ioq_empty_iff:
  "intr_off k \<Longrightarrow> ioq_wf (ioqs k p) \<Longrightarrow> ioq_empty k p = Inr (ioq_list (ioqs k p) = [])"
  by (simp add: ioq_empty_def intr_off_def ioq_list_empty)

lemma ioq_list_cap: "ioq_wf q \<Longrightarrow> length (ioq_list q) \<le> 2047"
proof -
  have "ring_len (unat (ihead q)) (unat (itail q)) < 2048" by (simp add: ring_len_def)
  then show ?thesis by (simp add: ioq_list_def)
qed

definition put_ring :: "u8 \<Rightarrow> ioqueue \<Rightarrow> ioqueue" where
  "put_ring ch q = q\<lparr>buf := (buf q)[unat (ihead q) := ch], ihead := next_pos (ihead q)\<rparr>"

definition get_ring :: "ioqueue \<Rightarrow> ioqueue" where
  "get_ring q = q\<lparr>itail := next_pos (itail q)\<rparr>"

lemma put_ring_list:
  assumes "ioq_wf q" "length (ioq_list q) < 2047"
  shows "ioq_list (put_ring ch q) = ioq_list q @ [ch]" "ioq_wf (put_ring ch q)"
    "producer (put_ring ch q) = producer q" "consumer (put_ring ch q) = consumer q"
  using ioq_list_put [of q ch] ioq_list_full [of q] assms by (simp_all add: put_ring_def)

lemma get_ring_list:
  assumes "ioq_wf q" "ioq_list q = x # xs"
  shows "buf q ! unat (itail q) = x" "ioq_list (get_ring q) = xs" "ioq_wf (get_ring q)"
    "producer (get_ring q) = producer q" "consumer (get_ring q) = consumer q"
  using ioq_list_get [of q] ioq_list_empty [of q] assms by (simp_all add: get_ring_def)

lemma ioq_put_step:
  assumes "intr_off k" "ioq_wf (ioqs k p)" "length (ioq_list (ioqs k p)) < 2047"
  shows "ioq_put_char k p ch =
    (let k' = upd_ioq k p (put_ring ch)
     in if consumer (ioqs k p) \<noteq> NULL then wakeup k' p Consumer else Inr k')"
proof -
  have "ioq_await ioq_full Producer k p = Inr k"
    using assms by (intro ioq_await_done) (simp add: ioq_full_iff)
  with assms show ?thesis
    by (simp add: ioq_put_char_def intr_off_def ioq_wf_def put_ring_def [abs_def] Let_def)
qed

lemma ioq_get_step:
  assumes "intr_off k" "ioq_wf (ioqs k p)" "ioq_list (ioqs k p) = x # xs"
  shows "ioq_get_char k p =
    (let k' = upd_ioq k p get_ring
     in bnd (if producer (ioqs k p) \<noteq> NULL then wakeup k' p Producer else Inr k') (\<lambda>k. Inr (x, k)))"
proof -
  have "ioq_await ioq_empty Consumer k p = Inr k"
    using assms by (intro ioq_await_done) (simp add: ioq_empty_iff)
  with assms get_ring_list(1) [OF assms(2,3)] show ?thesis
    by (simp add: ioq_get_char_def intr_off_def ioq_wf_def get_ring_def [abs_def] Let_def)
qed

text \<open>A ring on which nobody sleeps is a queue of at most \<open>bufsize - 1\<close> characters.\<close>

definition ioq_rep :: "ioqp \<Rightarrow> kernel \<Rightarrow> u8 list \<Rightarrow> bool" where
  "ioq_rep p k xs \<longleftrightarrow> intr_off k \<and> ioq_wf (ioqs k p) \<and> ioq_list (ioqs k p) = xs \<and>
     producer (ioqs k p) = NULL \<and> consumer (ioqs k p) = NULL"

interpretation rq: fifo_queue "ioq_rep p" "\<lambda>xs e. length xs < 2047" "\<lambda>k. ioq_put_char k p"
  "\<lambda>k. ioq_get_char k p" for p
proof unfold_locales
  fix k xs and ch :: u8
  assume "ioq_rep p k xs" "length xs < 2047"
  then show "\<exists>k'. ioq_put_char k p ch = Inr k' \<and> ioq_rep p k' (xs @ [ch])"
    using put_ring_list [of "ioqs k p" ch] by (auto simp: ioq_rep_def ioq_put_step intr_off_def Let_def)
next
  fix k ch xs
  assume "ioq_rep p k (ch # xs)"
  then show "\<exists>k'. ioq_get_char k p = Inr (ch, k') \<and> ioq_rep p k' xs"
    using get_ring_list [of "ioqs k p" ch xs] by (auto simp: ioq_rep_def ioq_get_step intr_off_def Let_def)
qed

lemma ioqueue_init_rep:
  assumes "intr_off k" "length (buf (ioqs k p)) = 2048"
  shows "ioq_rep p (ioqueue_init k p) []"
proof -
  have "ioqs (lock_init k l) = ioqs k" "flags (lock_init k l) = flags k" for l
    by (simp_all add: lock_init_def sema_init_def upd_sema_def upd_lock_def)
  with assms show ?thesis
    by (simp add: ioq_rep_def ioqueue_init_def intr_off_def ioq_wf_def ioq_list_def ring_len_def)
qed

text \<open>
  C11: A fresh ring delivers what was put into it, in order, for any sequence of up to
  \<open>bufsize - 1\<close> characters; no call blocks and the ring is empty afterwards.
\<close>

theorem ioqueue_fifo:
  assumes "intr_off k" "length (buf (ioqs k p)) = 2048" "length cs \<le> 2047"
  shows "\<exists>k1 k2. append_all (\<lambda>k. ioq_put_char k p) (ioqueue_init k p) cs = Inr k1 \<and>
           pop_n (\<lambda>k. ioq_get_char k p) k1 (length cs) = Inr (cs, k2) \<and> ioq_rep p k2 []"
  by (rule rq.fifo [OF ioqueue_init_rep [OF assms(1,2)]]) (use assms(3) in auto)

theorem ioqueue_fifo_witness:
  "\<exists>k1 k2. append_all (\<lambda>k. ioq_put_char k Kbd_buf) (ioqueue_init demo_kernel Kbd_buf) [108, 115, 10] = Inr k1 \<and>
     pop_n (\<lambda>k. ioq_get_char k Kbd_buf) k1 (length [108 :: u8, 115, 10]) = Inr ([108, 115, 10], k2) \<and>
     ioq_rep Kbd_buf k2 []"
  by (rule ioqueue_fifo) (simp_all add: demo_inv(2), simp add: demo_kernel_def boot_kernel_def)

text \<open>
  \<open>ioq_length\<close> is the number of characters in the ring.
\<close>

lemma ioq_length_correct:
  assumes "ioq_wf (ioqs k p)"
  shows "unat (ioq_length k p) = length (ioq_list (ioqs k p))"
proof -
  let ?q = "ioqs k p"
  have b: "unat (ihead ?q) < 2048" "unat (itail ?q) < 2048" using assms by (simp_all add: ioq_wf_def)
  have sint: "sint x = int (unat x)" if "unat x < 2048" for x :: u32
  proof -
    have "int (unat x) < int 2048" using that by (simp only: of_nat_less_iff)
    then have u: "uint x < 2048" by simp
    have "0 \<le> uint x" by simp
    then have z: "- (2 ^ 31) \<le> uint x" by (rule order_trans [rotated]) simp
    have "sint x = signed_take_bit 31 (uint x)" by (simp add: sint_uint)
    also have "\<dots> = uint x" by (rule signed_take_bit_int_eq_self) (use u z in simp_all)
    finally show ?thesis by simp
  qed
  have "itail ?q \<le>s ihead ?q \<longleftrightarrow> unat (itail ?q) \<le> unat (ihead ?q)"
    using b by (simp only: word_sle_eq sint of_nat_le_iff)
  with b show ?thesis
    by (simp add: ioq_length_def ioq_list_def ring_len_if bufsize_def Let_def unat_sub word_le_nat_alt
        unat_word_ariths) (simp add: add.commute)
qed

section \<open>Sleeping and waking\<close>

lemma ioqs_block_state [simp]: "ioqs (block_state k s) = ioqs k"
  by (simp add: block_state_def dispatch_def switch_to_def upd_task_def Let_def)

lemma pick_neq_running:
  "sched_inv T k \<Longrightarrow> running_thread k \<noteq> idle_thread k \<Longrightarrow> fst (pick k) \<noteq> running_thread k"
  by (cases "thread_ready_list k") (auto simp: sched_inv_def queue_inv_def pick_def)

lemma ioq_sleep_blocks:
  assumes "sched_inv T k" "running_thread k \<noteq> idle_thread k" "intr_off k"
    and "locks k (Ioq_lock p) = free_lock" "waiter (ioqs k p) sd = NULL"
  shows "\<exists>k'. ioq_sleep k p sd = Inl (Yield k') \<and> sched_inv T k' \<and> intr_off k' \<and>
           ioqs k' = (ioqs k)(p := set_waiter sd (running_thread k) (ioqs k p)) \<and>
           locks k' (Ioq_lock p) = held_lock (running_thread k) \<and>
           statuses k' (running_thread k) = TASK_BLOCKED"
proof -
  let ?c = "running_thread k"
  let ?k1 = "k\<lparr>locks := (locks k)(Ioq_lock p := held_lock ?c)\<rparr>"
  let ?k2 = "upd_ioq ?k1 p (set_waiter sd ?c)"
  have "?c \<noteq> NULL" using assms(1) by (auto simp: sched_inv_def stacks_ok_def)
  with assms(4) have acq: "lock_acquire k (Ioq_lock p) = Inr ?k1" by (intro lock_acquire_free)
  have inv2: "sched_inv T ?k2" using assms(1) by simp
  have ne: "fst (pick ?k2) \<noteq> running_thread ?k2" using pick_neq_running [OF inv2] assms(2) by simp
  note b = block_state_inv [OF inv2, of TASK_BLOCKED]
  have bs: "blocked_status TASK_BLOCKED" by (simp add: blocked_status_def)
  have "ioq_sleep k p sd = Inl (Yield (block_state ?k2 TASK_BLOCKED))"
    using b(3) [OF bs] ne assms(2,5) by (simp add: ioq_sleep_def acq ioq_wait_def)
  moreover have "sched_inv T (block_state ?k2 TASK_BLOCKED)" using b(1) [OF bs] by simp
  moreover have "statuses (block_state ?k2 TASK_BLOCKED) ?c = TASK_BLOCKED" using ne by simp
  ultimately show ?thesis
    by (intro exI [of _ "block_state ?k2 TASK_BLOCKED"]) (simp add: intr_off_def)
qed

text \<open>
  A consumer that finds the ring empty is recorded as its consumer, blocked, and holds the
  lock of the ring while it sleeps.
\<close>

theorem ioq_get_char_blocks:
  assumes "sched_inv T k" "running_thread k \<noteq> idle_thread k" "ioq_rep p k []"
    and "locks k (Ioq_lock p) = free_lock"
  shows "\<exists>k'. ioq_get_char k p = Inl (Yield k') \<and> sched_inv T k' \<and>
           consumer (ioqs k' p) = running_thread k \<and> ioq_list (ioqs k' p) = [] \<and>
           statuses k' (running_thread k) = TASK_BLOCKED \<and>
           locks k' (Ioq_lock p) = held_lock (running_thread k)"
proof -
  have off: "intr_off k" "ioq_wf (ioqs k p)" "ioq_list (ioqs k p) = []" "waiter (ioqs k p) Consumer = NULL"
    using assms(3) by (simp_all add: ioq_rep_def waiter_def)
  have e: "ioq_empty k p = Inr True" using off by (simp add: ioq_empty_iff)
  from ioq_sleep_blocks [OF assms(1,2) off(1) assms(4) off(4)] obtain k' where
    k': "ioq_sleep k p Consumer = Inl (Yield k')" "sched_inv T k'"
      "ioqs k' = (ioqs k)(p := set_waiter Consumer (running_thread k) (ioqs k p))"
      "locks k' (Ioq_lock p) = held_lock (running_thread k)"
      "statuses k' (running_thread k) = TASK_BLOCKED" by blast
  have "ioq_await ioq_empty Consumer k p = Inl (Yield k')"
    using e k'(1) by (simp add: ioq_await_def ioq_loop.simps)
  with off k' show ?thesis
    by (simp add: ioq_get_char_def intr_off_def set_waiter_def ioq_list_def)
qed

lemma ioqs_thread_unblock:
  assumes "blocked_status (statuses k t)" "t \<notin> set (thread_ready_list k)" "thread_unblock k t = Inr k'"
  shows "ioqs k' = ioqs k"
  using thread_unblock_ok [of k t] assms by (auto simp: blocked_status_def statuses_def upd_task_def)

text \<open>
  A character put into a ring on which a consumer sleeps wakes that consumer: it is the next
  thread to run, and the ring has forgotten it.
\<close>

lemma ioq_put_char_wakes:
  assumes "sched_inv T k" "intr_off k" "ioq_wf (ioqs k p)" "length (ioq_list (ioqs k p)) < 2047"
    and "consumer (ioqs k p) = t" "t \<in> T" "blocked_status (statuses k t)"
  shows "\<exists>k'. ioq_put_char k p ch = Inr k' \<and> sched_inv T k' \<and>
           ioq_list (ioqs k' p) = ioq_list (ioqs k p) @ [ch] \<and> consumer (ioqs k' p) = NULL \<and>
           pick k' = (t, thread_ready_list k) \<and> statuses k' t = TASK_READY \<and> intr_off k' \<and>
           ioq_wf (ioqs k' p)"
proof -
  let ?k = "upd_ioq k p (put_ring ch)"
  note r = put_ring_list [OF assms(3,4), of ch]
  have t: "t \<noteq> NULL" "t \<notin> set (thread_ready_list k)"
    using assms(1,6,7) by (auto simp: sched_inv_def stacks_ok_def queue_inv_def blocked_status_def)
  have inv: "sched_inv T ?k" "blocked_status (statuses ?k t)" using assms(1,7) by simp_all
  from thread_unblock_step [OF inv(1) assms(6) inv(2)] obtain k' where
    k': "thread_unblock ?k t = Inr k'" "sched_inv T k'" "thread_ready_list k' = t # thread_ready_list k"
      "statuses k' = (statuses k)(t := TASK_READY)" "flags k' = flags k" by auto
  have q: "ioqs k' = ioqs ?k" using ioqs_thread_unblock [OF inv(2) _ k'(1)] t(2) by simp
  have "ioq_put_char k p ch = Inr (upd_ioq k' p (set_waiter Consumer NULL))"
    using ioq_put_step [OF assms(2-4), of ch] assms(5) t k'(1) r(4)
    by (simp add: wakeup_def waiter_def Let_def)
  then show ?thesis
    using k' q r(1,2) t assms(2) by (simp add: set_waiter_def ioq_list_def pick_def intr_off_def ioq_wf_def)
qed

text \<open>The main thread of the demonstration kernel sleeps on the keyboard and is woken.\<close>

lemma demo_kbd_rep: "ioq_rep Kbd_buf demo_kernel []"
  using demo_inv(2)
  by (simp add: ioq_rep_def) (simp add: demo_kernel_def boot_kernel_def ioq_wf_def ioq_list_def ring_len_def)

theorem ioq_get_char_blocks_witness:
  "\<exists>k'. ioq_get_char demo_kernel Kbd_buf = Inl (Yield k') \<and>
     consumer (ioqs k' Kbd_buf) = 0xc009e000 \<and> statuses k' 0xc009e000 = TASK_BLOCKED"
  using ioq_get_char_blocks [OF demo_inv(1) _ demo_kbd_rep] by (auto simp: free_lock_def boot_kernel_def)

end
