(* ===== verification/Pipe.thy ===== *)
theory Pipe
  imports Fscalls Kfree Ioqueue
begin

unbundle bit_operations_syntax

text \<open>
  \<^verbatim>\<open>user/pipe.c\<close> and the system calls of \<^verbatim>\<open>fs/fs.c\<close> that go by descriptors: \<open>sys_close\<close>, \<open>sys_write\<close>, \<open>sys_read\<close>.
  They act on the kernel (threads, memory, ring buffers) and on the file system, which the theories so far treat
  apart; here both are parts of one state. The descriptor table and the working directory are those of the
  running thread. \<open>screen\<close> is what programs wrote to the console; the messages of the kernel are left out.
\<close>

section \<open>The whole system\<close>

record os =
  kern :: kernel
  files :: fsys
  screen :: "u8 list"

type_synonym 'a ores = "(os, 'a) res"

definition relift :: "('s \<Rightarrow> 't) \<Rightarrow> ('s, 'a) res \<Rightarrow> ('t, 'a) res" where
  "relift h r = (case r of Inl e \<Rightarrow> Inl (map_halt h e) | Inr x \<Rightarrow> Inr x)"

lemma relift_simps [simp]:
  "relift h (Inr x) = Inr x" "relift h (Inl (Panic m)) = Inl (Panic m)" "relift h (Inl (Fault m)) = Inl (Fault m)"
  "relift h (Inl Spin) = Inl Spin" "relift h (Inl (Yield s)) = Inl (Yield (h s))"
  by (simp_all add: relift_def)

definition cur_task :: "os \<Rightarrow> task_struct" where
  "cur_task w = tasks (kern w) (running_thread (kern w))"

text \<open>The file system as the running thread sees it, and the state after a call changed it.\<close>

definition enter_fs :: "os \<Rightarrow> fsys" where
  "enter_fs w = (files w)\<lparr>fd_local := fdtable (cur_task w), fsys.cwd_inode_nr := task_struct.cwd_inode_nr (cur_task w)\<rparr>"

definition leave_fs :: "os \<Rightarrow> fsys \<Rightarrow> os" where
  "leave_fs w s = w\<lparr>kern := upd_task (kern w) (running_thread (kern w))
       (\<lambda>t. t\<lparr>fdtable := fd_local s, cwd_inode_nr := fsys.cwd_inode_nr s\<rparr>), files := s\<rparr>"

definition in_fs :: "(fsys \<Rightarrow> ('a \<times> fsys) fres) \<Rightarrow> os \<Rightarrow> ('a \<times> os) ores" where
  "in_fs f w = bnd (relift (leave_fs w) (f (enter_fs w))) (\<lambda>(x, s). Inr (x, leave_fs w s))"

definition in_kern :: "(kernel \<Rightarrow> ('a \<times> kernel) kres) \<Rightarrow> os \<Rightarrow> ('a \<times> os) ores" where
  "in_kern f w = bnd (relift (\<lambda>k. w\<lparr>kern := k\<rparr>) (f (kern w))) (\<lambda>(x, k). Inr (x, w\<lparr>kern := k\<rparr>))"

definition do_kern :: "(kernel \<Rightarrow> kernel kres) \<Rightarrow> os \<Rightarrow> os ores" where
  "do_kern f w = bnd (relift (\<lambda>k. w\<lparr>kern := k\<rparr>) (f (kern w))) (\<lambda>k. Inr (w\<lparr>kern := k\<rparr>))"

definition fd_global :: "os \<Rightarrow> u32 \<Rightarrow> u32 ores" where
  "fd_global w fd = relift (leave_fs w) (fd_local_to_global (enter_fs w) fd)"

definition global_file :: "os \<Rightarrow> u32 \<Rightarrow> file_struct" where
  "global_file w g = file_table (files w) ! unat g"

definition upd_global :: "os \<Rightarrow> u32 \<Rightarrow> (file_struct \<Rightarrow> file_struct) \<Rightarrow> os" where
  "upd_global w g f = w\<lparr>files := upd_file (files w) (unat g) f\<rparr>"

definition set_fd :: "os \<Rightarrow> u32 \<Rightarrow> u32 \<Rightarrow> os" where
  "set_fd w fd g = w\<lparr>kern := upd_task (kern w) (running_thread (kern w)) (\<lambda>t. t\<lparr>fdtable := (fdtable t)[unat fd := g]\<rparr>)\<rparr>"

section \<open>The console\<close>

text \<open>\<open>console_put_str\<close> of \<^verbatim>\<open>device/console.c\<close> on an array of characters.\<close>

definition console_put_str :: "os \<Rightarrow> u8 list \<Rightarrow> os ores" where
  "console_put_str w str =
     bnd (do_kern (\<lambda>k. lock_acquire k Console_lock) w) (\<lambda>w.
     bnd (cstring str) (\<lambda>cs.
     do_kern (\<lambda>k. lock_release k Console_lock) (w\<lparr>screen := screen w @ cs\<rparr>)))"

definition console_put_char :: "os \<Rightarrow> u8 \<Rightarrow> os ores" where
  "console_put_char w ch =
     bnd (do_kern (\<lambda>k. lock_acquire k Console_lock) w) (\<lambda>w.
     do_kern (\<lambda>k. lock_release k Console_lock) (w\<lparr>screen := screen w @ [ch]\<rparr>))"

definition sys_putchar :: "os \<Rightarrow> u8 \<Rightarrow> os ores" where
  "sys_putchar w char_asci = console_put_char w char_asci"

section \<open>Pipes\<close>

definition PIPE_FLAG :: u32 where "PIPE_FLAG = 0xffff"

definition is_pipe :: "os \<Rightarrow> u32 \<Rightarrow> bool ores" where
  "is_pipe w local_fd = bnd (fd_global w local_fd) (\<lambda>g. Inr (fd_flag (global_file w g) = PIPE_FLAG))"

text \<open>
  \<open>file_table[-1]\<close>, when no slot is free, is a fault, and so is a ring at the null pointer, which is set up before the
  test for it. The page is cleared, so the ring starts with zeros. The result is the array \<open>pipefd\<close>.
\<close>

definition zero_ring :: ioqueue where
  "zero_ring = \<lparr>producer = NULL, consumer = NULL, buf = replicate 2048 0, ihead = 0, itail = 0\<rparr>"

definition sys_pipe :: "os \<Rightarrow> ((u32 \<times> u32 \<times> u32) \<times> os) ores" where
  "sys_pipe w =
     (let g = get_free_slot_in_global (files w)
      in bnd (in_kern (\<lambda>k. get_kernel_pages k 1) w) (\<lambda>(page, w).
         if length (file_table (files w)) \<le> unat g then Inl (Fault ''file_table[global_fd]'')
         else let w = upd_global w g (\<lambda>f. f\<lparr>fd_inode := page\<rparr>)
         in if page = NULL then Inl (Fault ''ioq'')
            else let w = w\<lparr>kern := ioqueue_init ((kern w)\<lparr>ioqs := (ioqs (kern w))(Pipe page := zero_ring)\<rparr>) (Pipe page)\<rparr>;
                     w = upd_global w g (\<lambda>f. f\<lparr>fd_flag := PIPE_FLAG\<rparr>);
                     w = upd_global w g (\<lambda>f. f\<lparr>fd_pos := 2\<rparr>)
                 in bnd (in_fs (\<lambda>s. Inr (pcb_fd_install s g)) w) (\<lambda>(r, w).
                    bnd (in_fs (\<lambda>s. Inr (pcb_fd_install s g)) w) (\<lambda>(t, w).
                    Inr ((0, r, t), w)))))"

text \<open>The loops take and put single characters.\<close>

definition pipe_read :: "os \<Rightarrow> u32 \<Rightarrow> u32 \<Rightarrow> (u32 \<times> u8 list \<times> os) ores" where
  "pipe_read w local_fd len =
     bnd (fd_global w local_fd) (\<lambda>g.
     let ioq = Pipe (fd_inode (global_file w g)); ioq_len = ioq_length (kern w) ioq;
         sz = (if ioq_len > len then len else ioq_len)
     in bnd (in_kern (\<lambda>k. pop_n (\<lambda>k. ioq_get_char k ioq) k (unat sz)) w) (\<lambda>(cs, w). Inr (sz, cs, w)))"

definition pipe_write :: "os \<Rightarrow> u32 \<Rightarrow> u8 list \<Rightarrow> (u32 \<times> os) ores" where
  "pipe_write w local_fd buffer =
     bnd (fd_global w local_fd) (\<lambda>g.
     let ioq = Pipe (fd_inode (global_file w g)); ioq_len = bufsize - ioq_length (kern w) ioq; len = of_nat (length buffer);
         sz = (if ioq_len > len then len else ioq_len)
     in bnd (do_kern (\<lambda>k. append_all (\<lambda>k. ioq_put_char k ioq) k (take (unat sz) buffer)) w) (\<lambda>w. Inr (sz, w)))"

definition sys_fd_redirect :: "os \<Rightarrow> u32 \<Rightarrow> u32 \<Rightarrow> os ores" where
  "sys_fd_redirect w old_local_fd new_local_fd =
     (if length (fdtable (cur_task w)) \<le> unat old_local_fd then Inl (Fault ''fdtable[old_local_fd]'')
      else if new_local_fd < 3 then Inr (set_fd w old_local_fd new_local_fd)
      else if length (fdtable (cur_task w)) \<le> unat new_local_fd then Inl (Fault ''fdtable[new_local_fd]'')
      else Inr (set_fd w old_local_fd (fdtable (cur_task w) ! unat new_local_fd)))"

section \<open>System calls on descriptors\<close>

definition stdin_no :: u32 where "stdin_no = 0"
definition std_out :: u32 where "std_out = 1"
definition std_err :: u32 where "std_err = 2"

text \<open>One descriptor of a pipe less; with the last one the ring goes.\<close>

definition pipe_drop :: "os \<Rightarrow> u32 \<Rightarrow> os ores" where
  "pipe_drop w g =
     (let w = upd_global w g (\<lambda>f. f\<lparr>fd_pos := fd_pos f - 1\<rparr>)
      in if fd_pos (global_file w g) = 0
         then bnd (do_kern (\<lambda>k. mfree_page k PF_KERNEL (fd_inode (global_file w g)) 1) w) (\<lambda>w.
              Inr (upd_global w g (\<lambda>f. f\<lparr>fd_inode := NULL\<rparr>)))
         else Inr w)"

definition sys_close :: "os \<Rightarrow> u32 \<Rightarrow> (u32 \<times> os) ores" where
  "sys_close w fd =
     (if 2 <s fd then
        bnd (fd_global w fd) (\<lambda>g.
        bnd (is_pipe w fd) (\<lambda>p.
        bnd (if p then bnd (pipe_drop w g) (\<lambda>w. Inr (0, w)) else in_fs (\<lambda>s. file_close s (Some (unat g))) w) (\<lambda>(ret, w).
        Inr (ret, set_fd w fd (- 1)))))
      else Inr (- 1, w))"

text \<open>
  The bytes for the console go through an array of 1024 characters, which is printed as a string.
\<close>

definition sys_write :: "os \<Rightarrow> u32 \<Rightarrow> u8 list \<Rightarrow> (u32 \<times> os) ores" where
  "sys_write w fd buffer =
     (if fd <s 0 then Inr (- 1, w)
      else if fd = std_out then
        bnd (is_pipe w fd) (\<lambda>p.
        if p then pipe_write w fd buffer
        else if 1024 < length buffer then Inl (Fault ''tmp'')
        else bnd (console_put_str w (overlay (replicate 1024 0) 0 buffer)) (\<lambda>w. Inr (of_nat (length buffer), w)))
      else
        bnd (is_pipe w fd) (\<lambda>p.
        if p then pipe_write w fd buffer
        else bnd (fd_global w fd) (\<lambda>g.
             let f = global_file w g
             in if fd_flag f AND ucast O_WRONLY \<noteq> 0 \<or> fd_flag f AND ucast O_RDWR \<noteq> 0
                then in_fs (\<lambda>s. file_write s (unat g) buffer) w
                else Inr (- 1, w))))"

text \<open>\<open>dst\<close> is the pointer \<open>buf\<close>; what is stored there is the second part of the result.\<close>

definition sys_read :: "os \<Rightarrow> u32 \<Rightarrow> u32 \<Rightarrow> u32 \<Rightarrow> (u32 \<times> u8 list \<times> os) ores" where
  "sys_read w fd dst len =
     bnd (assert_that (0 \<le>s fd \<and> fd <s of_nat MAX_FILES_OPEN_PER_PROC) ''fd >= 0 && fd < MAX_FILES_OPEN_PER_PROC'') (\<lambda>_.
     bnd (assert_that (dst \<noteq> NULL) ''buf != NULL'') (\<lambda>_.
     if fd = std_out \<or> fd = std_err then Inr (- 1, [], w)
     else if fd = stdin_no then
       bnd (is_pipe w fd) (\<lambda>p.
       if p then pipe_read w fd len
       else bnd (in_kern (\<lambda>k. pop_n (\<lambda>k. ioq_get_char k Kbd_buf) k (unat len)) w) (\<lambda>(cs, w).
            Inr (if len = 0 then - 1 else len, cs, w)))
     else
       bnd (is_pipe w fd) (\<lambda>p.
       if p then pipe_read w fd len
       else bnd (fd_global w fd) (\<lambda>g.
            bnd (in_fs (\<lambda>s. bnd (file_read s (unat g) len) (\<lambda>(n, cs, s). Inr ((n, cs), s))) w) (\<lambda>((n, cs), w).
            Inr (n, cs, w))))))"

section \<open>Data through a pipe\<close>

text \<open>The ring as a queue, in a kernel that otherwise stays as it was.\<close>

definition ioq_in :: "ioqp \<Rightarrow> kernel \<Rightarrow> kernel \<Rightarrow> u8 list \<Rightarrow> bool" where
  "ioq_in p k0 k xs \<longleftrightarrow> ioq_rep p k xs \<and> (\<exists>q. k = k0\<lparr>ioqs := (ioqs k0)(p := q)\<rparr>)"

lemma ioq_in_refl: "ioq_in p k k xs \<longleftrightarrow> ioq_rep p k xs"
proof -
  have "k = k\<lparr>ioqs := (ioqs k)(p := ioqs k p)\<rparr>" by simp
  then show ?thesis unfolding ioq_in_def by blast
qed

lemma ioq_in_upd: "ioq_in p k0 k xs \<Longrightarrow> ioq_rep p (upd_ioq k p f) ys \<Longrightarrow> ioq_in p k0 (upd_ioq k p f) ys"
  by (auto simp: ioq_in_def upd_ioq_def)

lemma ioq_in_trans: "ioq_in p k0 k1 xs \<Longrightarrow> ioq_in p k1 k2 ys \<Longrightarrow> ioq_in p k0 k2 ys"
  by (auto simp: ioq_in_def)

interpretation iq: fifo_queue "ioq_in p k0" "\<lambda>xs e. length xs < 2047" "\<lambda>k. ioq_put_char k p" "\<lambda>k. ioq_get_char k p" for p k0
proof unfold_locales
  fix k xs and ch :: u8
  assume a: "ioq_in p k0 k xs" "length xs < 2047"
  then have r: "ioq_rep p k xs" by (simp add: ioq_in_def)
  then have "ioq_put_char k p ch = Inr (upd_ioq k p (put_ring ch))"
    using ioq_put_step [of k p ch] a(2) by (simp add: ioq_rep_def Let_def)
  then show "\<exists>k'. ioq_put_char k p ch = Inr k' \<and> ioq_in p k0 k' (xs @ [ch])"
    using rq.app_rep [OF r a(2), of ch] ioq_in_upd [OF a(1)] by auto
next
  fix k ch xs
  assume a: "ioq_in p k0 k (ch # xs)"
  then have r: "ioq_rep p k (ch # xs)" by (simp add: ioq_in_def)
  then have "ioq_get_char k p = Inr (ch, upd_ioq k p get_ring)"
    using ioq_get_step [of k p ch xs] by (simp add: ioq_rep_def Let_def)
  then show "\<exists>k'. ioq_get_char k p = Inr (ch, k') \<and> ioq_in p k0 k' xs"
    using rq.pop_rep [OF r] ioq_in_upd [OF a] by auto
qed

lemma sint_u32_small:
  assumes "unat (x :: u32) < 2048"
  shows "sint x = int (unat x)"
proof -
  have "int (unat x) < int 2048" using assms by (simp only: of_nat_less_iff)
  then have u: "uint x < 2048" by simp
  have "0 \<le> uint x" by simp
  then have z: "- (2 ^ 31) \<le> uint x" by (rule order_trans [rotated]) simp
  have "sint x = signed_take_bit 31 (uint x)" by (simp add: sint_uint)
  also have "\<dots> = uint x" by (rule signed_take_bit_int_eq_self) (use u z in simp_all)
  finally show ?thesis by simp
qed

text \<open>The descriptor \<open>fd\<close> of the running thread is one of the pipe with the ring at \<open>a\<close>.\<close>

definition pipe_fd :: "os \<Rightarrow> u32 \<Rightarrow> u32 \<Rightarrow> bool" where
  "pipe_fd w fd a \<longleftrightarrow> unat fd < length (fdtable (cur_task w)) \<and> length (fdtable (cur_task w)) = 8 \<and>
     fdtable (cur_task w) ! unat fd < 32 \<and>
     fd_flag (global_file w (fdtable (cur_task w) ! unat fd)) = PIPE_FLAG \<and>
     fd_inode (global_file w (fdtable (cur_task w) ! unat fd)) = a"

lemma pipe_fd_global:
  assumes "pipe_fd w fd a"
  shows "fd_global w fd = Inr (fdtable (cur_task w) ! unat fd)" "is_pipe w fd = Inr True"
    "fd_inode (global_file w (fdtable (cur_task w) ! unat fd)) = a" "\<not> fd <s 0" "0 \<le>s fd" "fd <s of_nat MAX_FILES_OPEN_PER_PROC"
proof -
  show g: "fd_global w fd = Inr (fdtable (cur_task w) ! unat fd)" "fd_inode (global_file w (fdtable (cur_task w) ! unat fd)) = a"
    using assms by (simp_all add: pipe_fd_def fd_global_def fd_local_to_global_def enter_fs_def MAX_FILES_OPEN_def)
  show "is_pipe w fd = Inr True" using assms g by (simp add: is_pipe_def pipe_fd_def)
  have "sint fd = int (unat fd)" by (rule sint_u32_small) (use assms in \<open>simp add: pipe_fd_def\<close>)
  moreover have "int (unat fd) < int 8" using assms by (simp only: pipe_fd_def of_nat_less_iff) simp
  ultimately show "\<not> fd <s 0" "0 \<le>s fd" "fd <s of_nat MAX_FILES_OPEN_PER_PROC"
    by (simp_all add: word_sless_alt word_sle_eq MAX_FILES_OPEN_PER_PROC_def)
qed

lemma append_all_append: "append_all f s (xs @ ys) = bnd (append_all f s xs) (\<lambda>s. append_all f s ys)"
  by (induction xs arbitrary: s) (simp_all add: bnd_assoc)

lemma pipe_write_run:
  assumes fd: "pipe_fd w fd a" and rep: "ioq_rep (Pipe a) (kern w) xs" and fits: "length xs + length bs \<le> 2047"
  shows "\<exists>k. sys_write w fd bs = Inr (of_nat (length bs), w\<lparr>kern := k\<rparr>) \<and> ioq_in (Pipe a) (kern w) k (xs @ bs)"
proof -
  note g = pipe_fd_global [OF fd]
  have l: "unat (ioq_length (kern w) (Pipe a)) = length xs"
    using ioq_length_correct [of "kern w" "Pipe a"] rep by (simp add: ioq_rep_def)
  then have "unat (bufsize - ioq_length (kern w) (Pipe a)) = 2048 - length xs"
    using fits by (simp add: unat_sub word_le_nat_alt bufsize_def)
  then have sz: "of_nat (length bs) < bufsize - ioq_length (kern w) (Pipe a)"
    using fits by (simp add: word_less_nat_alt)
  have ub: "unat (of_nat (length bs) :: u32) = length bs" using fits by simp
  obtain k where k: "append_all (\<lambda>k. ioq_put_char k (Pipe a)) (kern w) bs = Inr k" "ioq_in (Pipe a) (kern w) k (xs @ bs)"
    using iq.append_all_rep [of "Pipe a" "kern w" "kern w" xs bs] rep fits by (fastforce simp: ioq_in_refl)
  then have "pipe_write w fd bs = Inr (of_nat (length bs), w\<lparr>kern := k\<rparr>)"
    by (simp add: pipe_write_def g(1,3) Let_def sz ub do_kern_def)
  moreover have "sys_write w fd bs = pipe_write w fd bs" using g(2,4) by (cases "fd = std_out") (simp_all add: sys_write_def)
  ultimately show ?thesis using k(2) by auto
qed

lemma pipe_read_run:
  assumes fd: "pipe_fd w fd a" "fd \<noteq> std_out" "fd \<noteq> std_err" and dst: "dst \<noteq> NULL" and rep: "ioq_rep (Pipe a) (kern w) xs"
  shows "\<exists>k. sys_read w fd dst n = Inr (of_nat (min (unat n) (length xs)), take (unat n) xs, w\<lparr>kern := k\<rparr>) \<and>
    ioq_in (Pipe a) (kern w) k (drop (unat n) xs)"
proof -
  note g = pipe_fd_global [OF fd(1)]
  define m where "m = min (unat n) (length xs)"
  have l: "unat (ioq_length (kern w) (Pipe a)) = length xs"
    using ioq_length_correct [of "kern w" "Pipe a"] rep by (simp add: ioq_rep_def)
  define sz where "sz = (if ioq_length (kern w) (Pipe a) > n then n else ioq_length (kern w) (Pipe a))"
  then have sz: "unat sz = m" using l by (auto simp: m_def word_less_nat_alt)
  then have sz': "sz = of_nat m" by (metis word_unat_eq_iff unat_of_nat_u32 unat_less_u32)
  have "xs = take m xs @ drop m xs" "length (take m xs) = m" by (simp_all add: m_def)
  then obtain k where k: "pop_n (\<lambda>k. ioq_get_char k (Pipe a)) (kern w) m = Inr (take m xs, k)"
    "ioq_in (Pipe a) (kern w) k (drop m xs)"
    using iq.pop_n_rep [of "Pipe a" "kern w" "kern w" "take m xs" "drop m xs"] rep by (auto simp: ioq_in_refl)
  moreover have "take m xs = take (unat n) xs" "drop m xs = drop (unat n) xs" by (simp_all add: m_def min_def)
  moreover have "unat (of_nat m :: u32) = m" using sz sz' by simp
  ultimately have "pipe_read w fd n = Inr (of_nat m, take (unat n) xs, w\<lparr>kern := k\<rparr>)" "ioq_in (Pipe a) (kern w) k (drop (unat n) xs)"
    by (simp_all add: pipe_read_def g(1,3) Let_def sz_def [symmetric] in_kern_def sz' split del: if_split cong: if_cong)
  moreover have "sys_read w fd dst n = pipe_read w fd n" using g(2,5,6) fd(2,3) dst by (cases "fd = stdin_no") (simp_all add: sys_read_def)
  ultimately show ?thesis by (auto simp: m_def)
qed

text \<open>
  C30: What a writer puts into a pipe with room for it a reader gets, in order and behind what was in the pipe before:
  neither call blocks, both return the number of bytes they moved, and nothing but the ring changes.
\<close>

theorem pipe_transfer:
  assumes "pipe_fd w t a" "pipe_fd w r a" "r \<noteq> std_out" "r \<noteq> std_err" "dst \<noteq> NULL"
    and "ioq_rep (Pipe a) (kern w) xs" "length xs + length bs \<le> 2047"
  shows "\<exists>k1 k2. sys_write w t bs = Inr (of_nat (length bs), w\<lparr>kern := k1\<rparr>) \<and>
    sys_read (w\<lparr>kern := k1\<rparr>) r dst n =
      Inr (of_nat (min (unat n) (length (xs @ bs))), take (unat n) (xs @ bs), w\<lparr>kern := k2\<rparr>) \<and>
    ioq_in (Pipe a) (kern w) k2 (drop (unat n) (xs @ bs))"
proof -
  obtain k1 where k1: "sys_write w t bs = Inr (of_nat (length bs), w\<lparr>kern := k1\<rparr>)" "ioq_in (Pipe a) (kern w) k1 (xs @ bs)"
    using pipe_write_run [OF assms(1,6,7)] by blast
  have "pipe_fd (w\<lparr>kern := k1\<rparr>) r a" using assms(2) k1(2)
    by (auto simp: pipe_fd_def ioq_in_def cur_task_def global_file_def running_thread_def)
  moreover have "ioq_rep (Pipe a) (kern (w\<lparr>kern := k1\<rparr>)) (xs @ bs)" using k1(2) by (simp add: ioq_in_def)
  ultimately obtain k2 where
    "sys_read (w\<lparr>kern := k1\<rparr>) r dst n = Inr (of_nat (min (unat n) (length (xs @ bs))), take (unat n) (xs @ bs), w\<lparr>kern := k2\<rparr>)"
    "ioq_in (Pipe a) k1 k2 (drop (unat n) (xs @ bs))"
    using pipe_read_run [of "w\<lparr>kern := k1\<rparr>" r a dst "xs @ bs" n] assms(3,4,5) by auto
  then show ?thesis using k1 ioq_in_trans by blast
qed

text \<open>
  C32: \<open>pipe_write\<close> means to choose the number of bytes so that it never blocks, but a ring of 2048 bytes holds 2047
  characters only: a writer with more bytes than fit fills the ring and then loses the processor,
  recorded as the producer that waits.
\<close>

theorem pipe_write_overfills:
  assumes fd: "pipe_fd w fd a" and rep: "ioq_rep (Pipe a) (kern w) xs" and many: "2048 \<le> length xs + length bs" "length bs < 2 ^ 32"
    and inv: "sched_inv T (kern w)" "running_thread (kern w) \<noteq> idle_thread (kern w)"
    and lock: "locks (kern w) (Ioq_lock (Pipe a)) = free_lock"
  shows "\<exists>k'. sys_write w fd bs = Inl (Yield (w\<lparr>kern := k'\<rparr>)) \<and> sched_inv T k' \<and>
    ioq_list (ioqs k' (Pipe a)) = xs @ take (2047 - length xs) bs \<and> producer (ioqs k' (Pipe a)) = running_thread (kern w) \<and>
    statuses k' (running_thread (kern w)) = TASK_BLOCKED"
proof -
  note g = pipe_fd_global [OF fd]
  have wf: "ioq_wf (ioqs (kern w) (Pipe a))" "ioq_list (ioqs (kern w) (Pipe a)) = xs" using rep by (simp_all add: ioq_rep_def)
  then have small: "length xs < 2048" using ioq_list_cap by fastforce
  define m where "m = 2047 - length xs"
  have l: "unat (ioq_length (kern w) (Pipe a)) = length xs" using ioq_length_correct [OF wf(1)] wf(2) by simp
  then have u: "unat (bufsize - ioq_length (kern w) (Pipe a)) = Suc m"
    using small by (simp add: unat_sub word_le_nat_alt bufsize_def m_def)
  define sz where "sz = (if bufsize - ioq_length (kern w) (Pipe a) > of_nat (length bs) then of_nat (length bs)
      else bufsize - ioq_length (kern w) (Pipe a))"
  have sz: "unat sz = Suc m" using many small u by (auto simp: sz_def word_less_nat_alt m_def)
  have "m < length bs" using many small by (simp add: m_def)
  then have split: "take (Suc m) bs = take m bs @ [bs ! m]" by (simp add: take_Suc_conv_app_nth)
  obtain k1 where k1: "append_all (\<lambda>k. ioq_put_char k (Pipe a)) (kern w) (take m bs) = Inr k1" "ioq_in (Pipe a) (kern w) k1 (xs @ take m bs)"
    using iq.append_all_rep [of "Pipe a" "kern w" "kern w" xs "take m bs"] rep small
    by (fastforce simp: ioq_in_refl m_def dest: arg_cong [of _ _ length])
  have rep1: "ioq_rep (Pipe a) k1 (xs @ take m bs)" and run: "running_thread k1 = running_thread (kern w)" "idle_thread k1 = idle_thread (kern w)"
    and lock1: "locks k1 (Ioq_lock (Pipe a)) = free_lock"
    using k1(2) lock by (auto simp: ioq_in_def running_thread_def)
  have inv1: "sched_inv T k1"
    using k1(2) inv(1) by (auto simp: ioq_in_def sched_inv_def stacks_ok_def running_thread_def statuses_def [abs_def])
  have off: "intr_off k1" "waiter (ioqs k1 (Pipe a)) Producer = NULL" "ioq_full k1 (Pipe a) = Inr True"
    using rep1 small \<open>m < length bs\<close> by (simp_all add: ioq_rep_def waiter_def ioq_full_iff m_def)
  obtain k2 where k2: "ioq_sleep k1 (Pipe a) Producer = Inl (Yield k2)" "sched_inv T k2"
      "ioqs k2 = (ioqs k1)(Pipe a := set_waiter Producer (running_thread k1) (ioqs k1 (Pipe a)))"
      "statuses k2 (running_thread k1) = TASK_BLOCKED"
    using ioq_sleep_blocks [OF inv1 _ off(1) lock1 off(2)] inv(2) run by auto
  have "ioq_put_char k1 (Pipe a) ch = Inl (Yield k2)" for ch
    using off k2(1) by (simp add: ioq_put_char_def intr_off_def ioq_await_def ioq_loop.simps)
  then have "append_all (\<lambda>k. ioq_put_char k (Pipe a)) (kern w) (take (Suc m) bs) = Inl (Yield k2)"
    unfolding split append_all_append k1(1) by simp
  then have "pipe_write w fd bs = Inl (Yield (w\<lparr>kern := k2\<rparr>))"
    by (simp add: pipe_write_def g(1,3) Let_def sz_def [symmetric] sz do_kern_def split del: if_split cong: if_cong)
  moreover have "sys_write w fd bs = pipe_write w fd bs" using g(2,4) by (cases "fd = std_out") (simp_all add: sys_write_def)
  ultimately show ?thesis
    using k2 rep1 run by (auto simp: set_waiter_def ioq_list_def ioq_rep_def m_def)
qed

section \<open>The life of a pipe\<close>

text \<open>The first two free descriptors of the running thread.\<close>

definition free_fds :: "os \<Rightarrow> nat \<Rightarrow> nat \<Rightarrow> bool" where
  "free_fds w r t \<longleftrightarrow> length (fdtable (cur_task w)) = 8 \<and> 2 < r \<and> r < t \<and> t < 8 \<and> fdtable (cur_task w) ! r = - 1 \<and>
     fdtable (cur_task w) ! t = - 1 \<and> (\<forall>i < t. 2 \<le> i \<and> i \<noteq> r \<longrightarrow> fdtable (cur_task w) ! i \<noteq> - 1)"

lemma cur_task_upd [simp]: "cur_task (w\<lparr>kern := upd_task (kern w) (running_thread (kern w)) f\<rparr>) = f (cur_task w)"
  by (simp add: cur_task_def upd_task_def running_thread_def)

lemma find_upt:
  assumes "a \<le> r" "r < b" "P r" "\<forall>i. a \<le> i \<and> i < r \<longrightarrow> \<not> P i"
  shows "find P [a..<b] = Some r"
proof -
  have "[a..<b] = [a..<r] @ r # [Suc r..<b]" using assms(1,2) by (metis upt_add_eq_append upt_conv_Cons le_add_diff_inverse less_imp_le)
  moreover have "find P [a..<r] = None" using assms(4) by (auto simp: find_None_iff)
  moreover have "find P (xs @ ys) = (case find P xs of None \<Rightarrow> find P ys | Some x \<Rightarrow> Some x)" for xs ys
    by (induction xs) auto
  ultimately show ?thesis using assms(3) by simp
qed

lemma install_run:
  assumes "length (fdtable (cur_task w)) = 8" "2 \<le> r" "r < 8" "fdtable (cur_task w) ! r = - 1"
    "\<forall>i < r. 2 \<le> i \<longrightarrow> fdtable (cur_task w) ! i \<noteq> - 1"
  shows "\<exists>fs. in_fs (\<lambda>s. Inr (pcb_fd_install s g)) w =
      Inr (of_nat r, w\<lparr>kern := upd_task (kern w) (running_thread (kern w)) (\<lambda>t. t\<lparr>fdtable := (fdtable t)[r := g]\<rparr>), files := fs\<rparr>) \<and>
    file_table fs = file_table (files w)"
proof -
  have f: "find (\<lambda>i. fdtable (cur_task w) ! i = - 1) [2..<8] = Some r"
    by (rule find_upt) (use assms in auto)
  let ?s = "(enter_fs w)\<lparr>fd_local := (fdtable (cur_task w))[r := g]\<rparr>"
  have e: "fd_local (enter_fs w) = fdtable (cur_task w)" by (simp add: enter_fs_def)
  have p: "pcb_fd_install (enter_fs w) g = (of_nat r, ?s)"
    by (simp only: pcb_fd_install_def MAX_FILES_OPEN_PER_PROC_def e f option.case)
  have "in_fs (\<lambda>s. Inr (pcb_fd_install s g)) w = Inr (of_nat r, leave_fs w ?s)"
    by (simp add: in_fs_def p)
  moreover have "leave_fs w ?s =
      w\<lparr>kern := upd_task (kern w) (running_thread (kern w)) (\<lambda>t. t\<lparr>fdtable := (fdtable t)[r := g]\<rparr>), files := ?s\<rparr>"
    by (simp add: leave_fs_def enter_fs_def cur_task_def upd_task_def)
  ultimately show ?thesis by (auto simp: enter_fs_def)
qed

lemma file_fields: "f\<lparr>fd_inode := a, fd_flag := b, fd_pos := c\<rparr> = \<lparr>fd_pos = c, fd_flag = b, fd_inode = a\<rparr>"
  by (cases f) simp

lemma free_slot:
  assumes "get_free_slot_in_global s = g" "g \<noteq> - 1"
  shows "unat g < 32" "3 \<le> unat g" "fd_inode (file_table s ! unat g) = NULL"
proof -
  obtain i where f: "find (\<lambda>i. fd_inode (file_table s ! i) = NULL) [3..<MAX_FILES_OPEN] = Some i" and g: "g = of_nat i"
    using assms by (auto simp: get_free_slot_in_global_def split: option.splits)
  have "P x \<and> x \<in> set xs" if "find P xs = Some x" for P x and xs :: "nat list"
    using that by (induction xs) (auto split: if_splits)
  from this [OF f] have "3 \<le> i" "i < 32" "fd_inode (file_table s ! i) = NULL"
    by (simp_all only: set_upt atLeastLessThan_iff MAX_FILES_OPEN_def)
  then show "unat g < 32" "3 \<le> unat g" "fd_inode (file_table s ! unat g) = NULL" using g by simp_all
qed

text \<open>The system can make a pipe: memory, a slot in the table of files and two descriptors.\<close>

definition pipe_ready :: "os \<Rightarrow> nat \<Rightarrow> nat \<Rightarrow> u32 \<Rightarrow> bool" where
  "pipe_ready w r t g \<longleftrightarrow> kmem_ok (kern w) \<and> intr_off (kern w) \<and> locks (kern w) Kernel_pool_lock = free_lock \<and>
     running_thread (kern w) \<noteq> NULL \<and> (\<exists>i < vpages (kern w). \<not> vpage_used (kern w) i) \<and>
     (\<exists>j < frames (kern w) PF_KERNEL. \<not> frame_used (kern w) PF_KERNEL j) \<and>
     (\<forall>i < vpages (kern w). \<not> vpage_used (kern w) i \<longrightarrow> vpage (kern w) i \<noteq> running_thread (kern w)) \<and>
     free_fds w r t \<and> length (file_table (files w)) = 32 \<and> get_free_slot_in_global (files w) = g \<and> g \<noteq> - 1"

definition piped :: "os \<Rightarrow> nat \<Rightarrow> nat \<Rightarrow> u32 \<Rightarrow> u32 \<Rightarrow> os \<Rightarrow> bool" where
  "piped w r t g a w1 \<longleftrightarrow> running_thread (kern w1) = running_thread (kern w) \<and> ioq_rep (Pipe a) (kern w1) [] \<and>
     cur_task w1 = (cur_task w)\<lparr>fdtable := (fdtable (cur_task w))[r := g, t := g]\<rparr> \<and>
     file_table (files w1) = (file_table (files w))[unat g := \<lparr>fd_pos = 2, fd_flag = PIPE_FLAG, fd_inode = a\<rparr>] \<and> a \<noteq> NULL"

lemma sys_pipe_run:
  assumes "pipe_ready w r t g"
  shows "\<exists>w1 i j m1 m2. sys_pipe w = Inr ((0, of_nat r, of_nat t), w1) \<and> piped w r t g (vpage (kern w) i) w1 \<and>
    same_kmem (new_page (kern w) (vpage (kern w) i) (frame_addr (kern w) PF_KERNEL j) m2) (kern w1) \<and>
    i < vpages (kern w) \<and> \<not> vpage_used (kern w) i \<and> j < frames (kern w) PF_KERNEL \<and> \<not> frame_used (kern w) PF_KERNEL j \<and>
    (bitmap_set (vmem (kern w)) (vaddr_bitmap (kernel_vaddr (kern w))) (of_nat i) 1 :: (kernel, bytes) res) = Inr m1 \<and>
    (bitmap_set m1 (pool_bitmap (kernel_pool (kern w))) (of_nat j) 1 :: (kernel, bytes) res) = Inr m2"
proof -
  let ?k = "kern w" and ?c = "running_thread (kern w)"
  have r: "kmem_ok ?k" "locks ?k Kernel_pool_lock = free_lock" "?c \<noteq> NULL" "\<exists>i < vpages ?k. \<not> vpage_used ?k i"
    "\<exists>j < frames ?k PF_KERNEL. \<not> frame_used ?k PF_KERNEL j" and off: "intr_off ?k" and fds: "free_fds w r t"
    and g: "length (file_table (files w)) = 32" "get_free_slot_in_global (files w) = g" "g \<noteq> - 1"
    using assms by (simp_all add: pipe_ready_def)
  from get_kernel_page_eq [OF r] obtain i j m1 m2 where
    i: "i < vpages ?k" "\<not> vpage_used ?k i" and j: "j < frames ?k PF_KERNEL" "\<not> frame_used ?k PF_KERNEL j"
    and m: "(bitmap_set (vmem ?k) (vaddr_bitmap (kernel_vaddr ?k)) (of_nat i) 1 :: (kernel, bytes) res) = Inr m1"
      "(bitmap_set m1 (pool_bitmap (kernel_pool ?k)) (of_nat j) 1 :: (kernel, bytes) res) = Inr m2"
    and eq: "get_kernel_pages ?k 1 = Inr (vpage ?k i, new_page ?k (vpage ?k i) (frame_addr ?k PF_KERNEL j) m2)"
    by blast
  let ?a = "vpage ?k i"
  define k1 where "k1 = new_page ?k ?a (frame_addr ?k PF_KERNEL j) m2"
  have a: "?a \<noteq> NULL" "?a \<noteq> ?c" using vpage_unat(4) [of ?k i] r(1) i assms by (auto simp: kmem_ok_def pipe_ready_def)
  note sl = free_slot [OF g(2,3)]
  define k2 where "k2 = ioqueue_init (k1\<lparr>ioqs := (ioqs k1)(Pipe ?a := zero_ring)\<rparr>) (Pipe ?a)"
  have k1: "running_thread k1 = ?c" "tasks k1 ?c = cur_task w" "intr_off k1"
    using a off by (simp_all add: k1_def new_page_def running_thread_def cur_task_def intr_off_def)
  then have k2: "running_thread k2 = ?c" "tasks k2 ?c = cur_task w" "same_kmem k1 k2" "ioq_rep (Pipe ?a) k2 []"
    using ioqueue_init_rep [of "k1\<lparr>ioqs := (ioqs k1)(Pipe ?a := zero_ring)\<rparr>" "Pipe ?a"]
    by (simp_all add: k2_def ioqueue_init_def lock_init_def sema_init_def upd_sema_def upd_lock_def upd_ioq_def same_kmem_def
      running_thread_def zero_ring_def intr_off_def)
  define w2 where "w2 = upd_global (upd_global (upd_global w g (\<lambda>f. f\<lparr>fd_inode := ?a\<rparr>)) g (\<lambda>f. f\<lparr>fd_flag := PIPE_FLAG\<rparr>)) g
    (\<lambda>f. f\<lparr>fd_pos := 2\<rparr>)"
  have ft: "file_table (files w2) = (file_table (files w))[unat g := \<lparr>fd_pos = 2, fd_flag = PIPE_FLAG, fd_inode = ?a\<rparr>]"
    using g(1) sl(1) by (simp add: w2_def upd_global_def upd_file_def file_fields)
  let ?w2 = "w2\<lparr>kern := k2\<rparr>"
  have ct: "cur_task ?w2 = cur_task w" using k2(1,2) by (simp add: cur_task_def)
  obtain fs where one: "in_fs (\<lambda>s. Inr (pcb_fd_install s g)) ?w2 =
      Inr (of_nat r, ?w2\<lparr>kern := upd_task k2 ?c (\<lambda>t. t\<lparr>fdtable := (fdtable t)[r := g]\<rparr>), files := fs\<rparr>)" "file_table fs = file_table (files w2)"
    using install_run [of ?w2 r g] fds k2(1) by (auto simp: ct free_fds_def)
  let ?w3 = "w2\<lparr>kern := upd_task k2 ?c (\<lambda>t. t\<lparr>fdtable := (fdtable t)[r := g]\<rparr>), files := fs\<rparr>"
  have c3: "running_thread (kern ?w3) = ?c" "cur_task ?w3 = (cur_task w)\<lparr>fdtable := (fdtable (cur_task w))[r := g]\<rparr>"
    using k2(1,2) by (simp_all add: cur_task_def upd_task_def running_thread_def)
  have taken: "\<forall>i < t. 2 \<le> i \<longrightarrow> (fdtable (cur_task w))[r := g] ! i \<noteq> - 1"
    using fds g(3) by (auto simp: free_fds_def nth_list_update)
  obtain fs' where two: "in_fs (\<lambda>s. Inr (pcb_fd_install s g)) ?w3 =
      Inr (of_nat t, ?w3\<lparr>kern := upd_task (kern ?w3) ?c (\<lambda>u. u\<lparr>fdtable := (fdtable u)[t := g]\<rparr>), files := fs'\<rparr>)"
      "file_table fs' = file_table fs"
    using install_run [of ?w3 t g] fds taken c3 by (auto simp: free_fds_def)
  let ?w4 = "?w3\<lparr>kern := upd_task (kern ?w3) ?c (\<lambda>u. u\<lparr>fdtable := (fdtable u)[t := g]\<rparr>), files := fs'\<rparr>"
  have "in_kern (\<lambda>k. get_kernel_pages k 1) w = Inr (?a, w\<lparr>kern := k1\<rparr>)" by (simp add: in_kern_def eq k1_def)
  moreover have "upd_global (upd_global (upd_global (w\<lparr>kern := x\<rparr>) g f1) g f2) g f3 = (upd_global (upd_global (upd_global w g f1) g f2) g f3)\<lparr>kern := x\<rparr>"
    "(upd_global (w\<lparr>kern := y\<rparr>) g f1)\<lparr>kern := x\<rparr> = upd_global (w\<lparr>kern := x\<rparr>) g f1" "kern (upd_global (w\<lparr>kern := x\<rparr>) g f1) = x" for x y f1 f2 f3
    by (simp_all add: upd_global_def)
  ultimately have "sys_pipe w = Inr ((0, of_nat r, of_nat t), ?w4)"
    using g sl(1) a(1) one(1) two(1) by (simp add: sys_pipe_def Let_def k2_def [symmetric] w2_def [symmetric])
  moreover have "piped w r t g ?a ?w4"
    using k2 c3 a(1) ft one(2) two(2) by (simp add: piped_def cur_task_def upd_task_def running_thread_def ioq_rep_def intr_off_def)
  moreover have "same_kmem k1 (kern ?w4)" using k2(3) by (simp add: same_kmem_def upd_task_def)
  ultimately show ?thesis using i j m unfolding k1_def by blast
qed

section \<open>Closing\<close>

lemma sys_close_pipe:
  assumes "pipe_fd w fd a" "2 < unat fd"
  shows "sys_close w fd = bnd (pipe_drop w (fdtable (cur_task w) ! unat fd)) (\<lambda>w. Inr (0, set_fd w fd (- 1)))"
proof -
  have s: "sint fd = int (unat fd)" by (rule sint_u32_small) (use assms in \<open>simp add: pipe_fd_def\<close>)
  have "int 2 < int (unat fd)" using assms(2) by (simp only: of_nat_less_iff)
  then have "2 <s fd" using s by (simp add: word_sless_alt)
  then show ?thesis using pipe_fd_global [OF assms(1)] by (simp add: sys_close_def bnd_assoc)
qed

lemma pipe_drop_more:
  assumes "fd_pos (global_file w g) = 2" "unat g < length (file_table (files w))"
  shows "pipe_drop w g = Inr (upd_global w g (\<lambda>f. f\<lparr>fd_pos := 1\<rparr>))"
  using assms by (simp add: pipe_drop_def upd_global_def upd_file_def global_file_def Let_def)

lemma pipe_drop_last:
  assumes "fd_pos (global_file w g) = 1" "unat g < length (file_table (files w))"
    "mfree_page (kern w) PF_KERNEL (fd_inode (global_file w g)) 1 = Inr k"
  shows "pipe_drop w g = Inr (upd_global (w\<lparr>kern := k\<rparr>) g (\<lambda>f. f\<lparr>fd_pos := 0, fd_inode := NULL\<rparr>))"
proof -
  have "f\<lparr>fd_pos := 0, fd_inode := NULL\<rparr> = \<lparr>fd_pos = 0, fd_flag = fd_flag f, fd_inode = NULL\<rparr>" for f by (cases f) simp
  then show ?thesis
    using assms by (simp add: pipe_drop_def upd_global_def upd_file_def global_file_def Let_def do_kern_def)
qed

lemma set_fd_view [simp]:
  "running_thread (kern (set_fd w fd x)) = running_thread (kern w)" "files (set_fd w fd x) = files w"
  "cur_task (set_fd w fd x) = (cur_task w)\<lparr>fdtable := (fdtable (cur_task w))[unat fd := x]\<rparr>"
  "same_kmem (kern w) (kern (set_fd w fd x))"
  by (simp_all add: set_fd_def cur_task_def upd_task_def running_thread_def same_kmem_def)

lemma upd_global_view [simp]:
  "kern (upd_global w g f) = kern w" "cur_task (upd_global w g f) = cur_task w"
  "file_table (files (upd_global w g f)) = (file_table (files w))[unat g := f (file_table (files w) ! unat g)]"
  by (simp_all add: upd_global_def upd_file_def cur_task_def)

lemma kern_view [simp]: "global_file (w\<lparr>kern := k\<rparr>) g = global_file w g"
  by (simp add: global_file_def)

text \<open>Two descriptors \<open>r\<close> and \<open>t\<close>, free in \<open>w\<close>, of a pipe in slot \<open>g\<close> are closed; the second \<open>sys_close\<close> frees the ring.\<close>

lemma pipe_closes:
  assumes fds: "free_fds w r t" and g: "unat g < 32" "g < 32" "length (file_table (files w)) = 32"
      "fd_inode (file_table (files w) ! unat g) = NULL"
    and p: "running_thread (kern w3) = running_thread (kern w)"
      "cur_task w3 = (cur_task w)\<lparr>fdtable := (fdtable (cur_task w))[r := g, t := g]\<rparr>"
      "file_table (files w3) = (file_table (files w))[unat g := \<lparr>fd_pos = 2, fd_flag = PIPE_FLAG, fd_inode = a\<rparr>]"
    and free: "\<And>k. same_kmem (kern w3) k \<Longrightarrow> \<exists>m. mfree_page k PF_KERNEL a 1 = Inr (lost_page k a m) \<and> P (lost_page k a m)"
    and P: "\<And>k k'. same_kmem k k' \<Longrightarrow> P k \<Longrightarrow> P k'"
  shows "\<exists>w4 w5. sys_close w3 (of_nat t) = Inr (0, w4) \<and> sys_close w4 (of_nat r) = Inr (0, w5) \<and> cur_task w5 = cur_task w \<and>
    P (kern w5) \<and> file_table (files w5) = (file_table (files w))[unat g := \<lparr>fd_pos = 0, fd_flag = PIPE_FLAG, fd_inode = NULL\<rparr>]"
proof -
  have rt: "unat (of_nat r :: u32) = r" "unat (of_nat t :: u32) = t" "r < t" "t < 8" "2 < r" "length (fdtable (cur_task w)) = 8"
    using fds by (simp_all add: free_fds_def)
  have g3: "fdtable (cur_task w3) ! t = g" "global_file w3 g = \<lparr>fd_pos = 2, fd_flag = PIPE_FLAG, fd_inode = a\<rparr>" "pipe_fd w3 (of_nat t) a"
    using rt g by (simp_all add: p global_file_def pipe_fd_def)
  define w4 where "w4 = set_fd (upd_global w3 g (\<lambda>f. f\<lparr>fd_pos := 1\<rparr>)) (of_nat t) (- 1)"
  have four: "sys_close w3 (of_nat t) = Inr (0, w4)"
    using sys_close_pipe [OF g3(3)] rt g3 g pipe_drop_more [of w3 g] by (simp add: w4_def p(3))
  have c4: "cur_task w4 = (cur_task w)\<lparr>fdtable := (fdtable (cur_task w))[r := g, t := - 1]\<rparr>" "same_kmem (kern w3) (kern w4)"
    "file_table (files w4) = (file_table (files w))[unat g := \<lparr>fd_pos = 1, fd_flag = PIPE_FLAG, fd_inode = a\<rparr>]"
    using rt g set_fd_view(4) [of "upd_global w3 g (\<lambda>f. f\<lparr>fd_pos := 1\<rparr>)"] by (simp_all add: w4_def p)
  have g4: "fdtable (cur_task w4) ! r = g" "global_file w4 g = \<lparr>fd_pos = 1, fd_flag = PIPE_FLAG, fd_inode = a\<rparr>" "pipe_fd w4 (of_nat r) a"
    using rt g by (simp_all add: c4 global_file_def pipe_fd_def)
  obtain m where m: "mfree_page (kern w4) PF_KERNEL a 1 = Inr (lost_page (kern w4) a m)" "P (lost_page (kern w4) a m)"
    using free [OF c4(2)] by blast
  define v where "v = upd_global (w4\<lparr>kern := lost_page (kern w4) a m\<rparr>) g (\<lambda>f. f\<lparr>fd_pos := 0, fd_inode := NULL\<rparr>)"
  have five: "sys_close w4 (of_nat r) = Inr (0, set_fd v (of_nat r) (- 1))"
    using sys_close_pipe [OF g4(3)] rt g4 g pipe_drop_last [of w4 g] m(1) by (simp add: v_def c4(3))
  have "cur_task v = cur_task w4" by (simp add: v_def cur_task_def lost_page_def running_thread_def)
  moreover have "(fdtable (cur_task w))[r := g, t := - 1, r := - 1] = fdtable (cur_task w)"
    using fds by (auto simp: free_fds_def list_eq_iff_nth_eq nth_list_update)
  ultimately have "cur_task (set_fd v (of_nat r) (- 1)) = cur_task w" using rt by (simp add: c4(1))
  moreover have "P (kern (set_fd v (of_nat r) (- 1)))"
    using m(2) P [OF set_fd_view(4) [of v]] by (simp add: v_def)
  moreover have "file_table (files (set_fd v (of_nat r) (- 1))) = (file_table (files w))[unat g := \<lparr>fd_pos = 0, fd_flag = PIPE_FLAG, fd_inode = NULL\<rparr>]"
    using g by (simp add: v_def c4(3))
  ultimately show ?thesis using four five by blast
qed

text \<open>The same bits and translations as in \<open>k\<close>.\<close>

definition kmem_back :: "kernel \<Rightarrow> kernel \<Rightarrow> bool" where
  "kmem_back k k' \<longleftrightarrow> kmem_ok k' \<and>
     (\<forall>n < vpages k. vpage_used k' n = vpage_used k n \<and> mmu_walk k' (vpage k n) = mmu_walk k (vpage k n)) \<and>
     (\<forall>n < frames k PF_KERNEL. frame_used k' PF_KERNEL n = frame_used k PF_KERNEL n)"

lemma kmem_back_same: "same_kmem k1 k2 \<Longrightarrow> kmem_back k k1 \<Longrightarrow> kmem_back k k2"
  by (simp add: kmem_back_def same_kmem_view)

text \<open>
  C31: The life of a pipe from its creation to the last \<open>sys_close\<close>: what was written to it is read, and after both descriptors
  are closed the PCB of the thread with its descriptor table and the memory manager are as they were before. Of the table of files only the slot
  of the pipe differs: it is free again, at position 0, but keeps the flag \<open>PIPE_FLAG\<close> (which the next owner of the slot overwrites).
\<close>

theorem pipe_life:
  assumes ready: "pipe_ready w r t g" and high: "0x102000 < phy_addr_start (kernel_pool (kern w))" and bs: "length bs \<le> 2047"
    and dst: "dst \<noteq> NULL"
  shows "\<exists>w1 w2 w3 w4 w5. sys_pipe w = Inr ((0, of_nat r, of_nat t), w1) \<and>
    sys_write w1 (of_nat t) bs = Inr (of_nat (length bs), w2) \<and>
    sys_read w2 (of_nat r) dst (of_nat (length bs)) = Inr (of_nat (length bs), bs, w3) \<and>
    sys_close w3 (of_nat t) = Inr (0, w4) \<and> sys_close w4 (of_nat r) = Inr (0, w5) \<and>
    cur_task w5 = cur_task w \<and> kmem_back (kern w) (kern w5) \<and>
    file_table (files w5) = (file_table (files w))[unat g := \<lparr>fd_pos = 0, fd_flag = PIPE_FLAG, fd_inode = NULL\<rparr>]"
proof -
  let ?k = "kern w" and ?c = "running_thread (kern w)"
  obtain w1 i j m1 m2 where one: "sys_pipe w = Inr ((0, of_nat r, of_nat t), w1)" "piped w r t g (vpage ?k i) w1"
    and same: "same_kmem (new_page ?k (vpage ?k i) (frame_addr ?k PF_KERNEL j) m2) (kern w1)"
    and ij: "i < vpages ?k" "\<not> vpage_used ?k i" "j < frames ?k PF_KERNEL" "\<not> frame_used ?k PF_KERNEL j"
    and m: "(bitmap_set (vmem ?k) (vaddr_bitmap (kernel_vaddr ?k)) (of_nat i) 1 :: (kernel, bytes) res) = Inr m1"
      "(bitmap_set m1 (pool_bitmap (kernel_pool ?k)) (of_nat j) 1 :: (kernel, bytes) res) = Inr m2"
    using sys_pipe_run [OF ready] by blast
  let ?a = "vpage ?k i"
  have fds: "free_fds w r t" "length (file_table (files w)) = 32" and ok: "kmem_ok ?k" using ready by (simp_all add: pipe_ready_def)
  have g: "unat g < 32" "g < 32" "fd_inode (file_table (files w) ! unat g) = NULL"
    using free_slot [of "files w" g] ready by (simp_all add: pipe_ready_def word_less_nat_alt)
  have rt: "unat (of_nat r :: u32) = r" "unat (of_nat t :: u32) = t" "r < t" "t < 8" "2 < r" "length (fdtable (cur_task w)) = 8"
    using fds(1) by (simp_all add: free_fds_def)
  have p: "running_thread (kern w1) = ?c" "ioq_rep (Pipe ?a) (kern w1) []"
    "cur_task w1 = (cur_task w)\<lparr>fdtable := (fdtable (cur_task w))[r := g, t := g]\<rparr>"
    "file_table (files w1) = (file_table (files w))[unat g := \<lparr>fd_pos = 2, fd_flag = PIPE_FLAG, fd_inode = ?a\<rparr>]"
    using one(2) by (simp_all add: piped_def)
  have fd: "pipe_fd w1 (of_nat r) ?a" "pipe_fd w1 (of_nat t) ?a"
    using rt g fds(2) by (simp_all add: pipe_fd_def p(3,4) global_file_def)
  have ends: "(of_nat r :: u32) \<noteq> std_out" "(of_nat r :: u32) \<noteq> std_err"
    using rt by (auto simp: std_out_def std_err_def word_unat_eq_iff)
  obtain k2 where two: "sys_write w1 (of_nat t) bs = Inr (of_nat (length bs), w1\<lparr>kern := k2\<rparr>)" "ioq_in (Pipe ?a) (kern w1) k2 bs"
    using pipe_write_run [OF fd(2) p(2), of bs] bs by auto
  have fd2: "pipe_fd (w1\<lparr>kern := k2\<rparr>) (of_nat r) ?a" using fd(1) two(2)
    by (auto simp: pipe_fd_def ioq_in_def cur_task_def global_file_def running_thread_def)
  obtain k3 where three: "sys_read (w1\<lparr>kern := k2\<rparr>) (of_nat r) dst (of_nat (length bs)) = Inr (of_nat (length bs), bs, w1\<lparr>kern := k3\<rparr>)"
      "ioq_in (Pipe ?a) k2 k3 []"
    using pipe_read_run [OF fd2 ends dst, of bs "of_nat (length bs)"] two(2) bs by (auto simp: ioq_in_def)
  have k3: "tasks k3 = tasks (kern w1)" "running_thread k3 = ?c" "same_kmem (kern w1) k3"
    using two(2) three(2) p(1) by (auto simp: ioq_in_def same_kmem_def running_thread_def)
  then have c3: "cur_task (w1\<lparr>kern := k3\<rparr>) = cur_task w1" using p(1) by (simp add: cur_task_def)
  have "\<exists>m. mfree_page k PF_KERNEL ?a 1 = Inr (lost_page k ?a m) \<and> kmem_back ?k (lost_page k ?a m)" if "same_kmem k3 k" for k
    using mfree_new_page [OF ok ij m same_kmem_trans [OF same same_kmem_trans [OF k3(3) that]] high] by (simp add: kmem_back_def)
  from pipe_closes [OF fds(1) g(1,2) fds(2) g(3), of "w1\<lparr>kern := k3\<rparr>" ?a "kmem_back ?k"] this kmem_back_same k3(2) c3 p(3,4)
  obtain w4 w5 where "sys_close (w1\<lparr>kern := k3\<rparr>) (of_nat t) = Inr (0, w4)" "sys_close w4 (of_nat r) = Inr (0, w5)"
    "cur_task w5 = cur_task w" "kmem_back ?k (kern w5)" "file_table (files w5) = (file_table (files w))[unat g := \<lparr>fd_pos = 0, fd_flag = PIPE_FLAG, fd_inode = NULL\<rparr>]"
    by auto
  then show ?thesis using one(1) two(1) three(1) by blast
qed

section \<open>Examples\<close>

text \<open>The demonstration kernels, their running thread with the standard descriptors open and no file in use.\<close>

definition demo_os :: "kernel \<Rightarrow> os" where
  "demo_os k = \<lparr>kern = upd_task k (running_thread k) (\<lambda>t. t\<lparr>fdtable := [0, 1, 2] @ replicate 5 (- 1)\<rparr>),
     files = demo_tree\<lparr>file_table := replicate 32 \<lparr>fd_pos = 0, fd_flag = 0, fd_inode = NULL\<rparr>\<rparr>, screen = []\<rparr>"

lemma demo_os_fields:
  "running_thread (kern (demo_os k)) = running_thread k" "same_kmem k (kern (demo_os k))" "locks (kern (demo_os k)) = locks k"
  "intr_off (kern (demo_os k)) = intr_off k" "fdtable (cur_task (demo_os k)) = [0, 1, 2, - 1, - 1, - 1, - 1, - 1]"
  "file_table (files (demo_os k)) = replicate 32 \<lparr>fd_pos = 0, fd_flag = 0, fd_inode = NULL\<rparr>"
  by (simp_all add: demo_os_def upd_task_def running_thread_def same_kmem_def intr_off_def cur_task_def numeral_eq_Suc)

lemma demo_os_ready: "pipe_ready (demo_os heap_kernel) 3 4 3"
proof -
  note v = same_kmem_view [OF demo_os_fields(2) [of heap_kernel]]
  have "find P [3..<32] = Some 3" if "P (3 :: nat)" for P by (rule find_upt) (use that in auto)
  then have "get_free_slot_in_global (files (demo_os heap_kernel)) = 3"
    by (simp add: get_free_slot_in_global_def MAX_FILES_OPEN_def demo_os_fields del: upt_rec_numeral)
  moreover have "fdtable (cur_task (demo_os heap_kernel)) ! i \<noteq> - 1" if "i < 4" "2 \<le> i" "i \<noteq> 3" for i
  proof -
    have "i = 2" using that by linarith
    then show ?thesis by (simp add: demo_os_fields)
  qed
  then have "free_fds (demo_os heap_kernel) 3 4" by (simp add: free_fds_def) (simp add: demo_os_fields)
  moreover have "vpage heap_kernel i \<noteq> 0xc009e000" if "i < 16" for i
  proof -
    have "list_all (\<lambda>i. vpage heap_kernel i \<noteq> 0xc009e000) [0..<16]" by code_simp
    then show ?thesis using that by (simp add: list_all_iff)
  qed
  moreover have "intr_off heap_kernel" using demo_inv(2) by (simp add: heap_kernel_def intr_off_def)
  ultimately show ?thesis
    using heap_kernel_ok heap_kernel_free by (simp add: pipe_ready_def v demo_os_fields heap_kernel_fields)
qed

theorem pipe_life_witness:
  "\<exists>w1 w2 w3 w4 w5. sys_pipe (demo_os heap_kernel) = Inr ((0, 3, 4), w1) \<and> sys_write w1 4 [104, 105] = Inr (2, w2) \<and>
     sys_read w2 3 0x8048000 2 = Inr (2, [104, 105], w3) \<and> sys_close w3 4 = Inr (0, w4) \<and> sys_close w4 3 = Inr (0, w5) \<and>
     cur_task w5 = cur_task (demo_os heap_kernel) \<and> kmem_back (kern (demo_os heap_kernel)) (kern w5) \<and>
     file_table (files w5) = (file_table (files (demo_os heap_kernel)))[3 := \<lparr>fd_pos = 0, fd_flag = PIPE_FLAG, fd_inode = NULL\<rparr>]"
proof -
  have "kernel_pool (kern (demo_os heap_kernel)) = kernel_pool heap_kernel"
    using demo_os_fields(2) by (simp add: same_kmem_def)
  then have "0x102000 < phy_addr_start (kernel_pool (kern (demo_os heap_kernel)))" by (simp add: heap_kernel_def)
  from pipe_life [OF demo_os_ready this, of "[104, 105]" "0x8048000"] show ?thesis by auto
qed

text \<open>The running thread has the descriptors 3 and 4 of an empty pipe at \<open>0xc0105000\<close>.\<close>

definition piped_os :: os where
  "piped_os = set_fd (set_fd (upd_global (demo_os demo_kernel) 3 (\<lambda>_. \<lparr>fd_pos = 2, fd_flag = PIPE_FLAG, fd_inode = 0xc0105000\<rparr>)) 3 3) 4 3"

lemma piped_os_kern:
  "ioqs (kern piped_os) = ioqs demo_kernel" "flags (kern piped_os) = 0x2" "locks (kern piped_os) = locks boot_kernel"
  "thread_ready_list (kern piped_os) = thread_ready_list demo_kernel" "idle_thread (kern piped_os) = 0xc0102000"
  "running_thread (kern piped_os) = 0xc009e000" "t \<noteq> 0xc009e000 \<Longrightarrow> tasks (kern piped_os) t = demo_task t"
  "tasks (kern piped_os) 0xc009e000 = (demo_task 0xc009e000)\<lparr>fdtable := fdtable (cur_task piped_os)\<rparr>"
  by (simp_all add: piped_os_def set_fd_def demo_os_def upd_task_def upd_global_def running_thread_def cur_task_def) (simp_all add: demo_kernel_def)

lemma piped_os_inv: "sched_inv demo_threads (kern piped_os)"
  by (auto simp: sched_inv_def stacks_ok_def queue_inv_def demo_threads_def piped_os_kern statuses_def demo_task_def zero_task_def)

lemma piped_os_rep: "ioq_rep (Pipe a) (kern piped_os) []"
  by (simp add: ioq_rep_def intr_off_def piped_os_kern intr_get_status_iff bit_numeral_rec)
    (simp add: demo_kernel_def boot_kernel_def ioq_wf_def ioq_list_def ring_len_def)

lemma piped_os_fds: "pipe_fd piped_os 3 0xc0105000" "pipe_fd piped_os 4 0xc0105000"
proof -
  have "fdtable (cur_task piped_os) = [0, 1, 2, 3, 3, - 1, - 1, - 1]"
    by (simp add: piped_os_def demo_os_fields)
  moreover have "global_file piped_os 3 = \<lparr>fd_pos = 2, fd_flag = PIPE_FLAG, fd_inode = 0xc0105000\<rparr>"
    by (simp add: piped_os_def global_file_def demo_os_fields del: replicate_Suc)
  ultimately show "pipe_fd piped_os 3 0xc0105000" "pipe_fd piped_os 4 0xc0105000"
    by (simp_all add: pipe_fd_def)
qed

theorem pipe_transfer_witness:
  "\<exists>k1 k2. sys_write piped_os 4 [104, 105, 10] = Inr (3, piped_os\<lparr>kern := k1\<rparr>) \<and>
     sys_read (piped_os\<lparr>kern := k1\<rparr>) 3 0x8048000 2 = Inr (2, [104, 105], piped_os\<lparr>kern := k2\<rparr>) \<and> ioq_in (Pipe 0xc0105000) (kern piped_os) k2 [10]"
  using pipe_transfer [OF piped_os_fds(2,1) _ _ _ piped_os_rep, of "0x8048000" "[104, 105, 10]" 2]
  by (simp add: std_out_def std_err_def)

theorem pipe_write_overfills_witness:
  "\<exists>k'. sys_write piped_os 4 (replicate 3000 65) = Inl (Yield (piped_os\<lparr>kern := k'\<rparr>)) \<and>
     length (ioq_list (ioqs k' (Pipe 0xc0105000))) = 2047 \<and> statuses k' 0xc009e000 = TASK_BLOCKED"
proof -
  have "locks (kern piped_os) (Ioq_lock (Pipe 0xc0105000)) = free_lock"
    by (simp add: piped_os_kern boot_kernel_def free_lock_def)
  with pipe_write_overfills [OF piped_os_fds(2) piped_os_rep, of "replicate 3000 65" demo_threads] piped_os_inv
  obtain k' where "sys_write piped_os 4 (replicate 3000 65) = Inl (Yield (piped_os\<lparr>kern := k'\<rparr>))"
    "ioq_list (ioqs k' (Pipe 0xc0105000)) = take 2047 (replicate 3000 65)" "statuses k' 0xc009e000 = TASK_BLOCKED"
    by (auto simp: piped_os_kern)
  then show ?thesis by (intro exI [of _ k']) simp
qed

end
