(* ===== verification/Malloc.thy ===== *)
theory Malloc
  imports Ptmap
begin

unbundle bit_operations_syntax

text \<open>
  The arenas of \<^verbatim>\<open>kernel/memory.c\<close>: \<open>block_desc_init\<close>, \<open>sys_malloc\<close> and
  \<open>sys_free\<close>. A free list is the list of block addresses; an arena header is kept by the address
  of its page.
\<close>

section \<open>Definitions\<close>

definition DESC_CNT :: nat where
  "DESC_CNT = 7"

definition sizeof_arena :: u32 where
  "sizeof_arena = 12"

primrec desc_loop :: "nat \<Rightarrow> u32 \<Rightarrow> mem_block_desc list" where
  "desc_loop 0 bs = []"
| "desc_loop (Suc n) bs =
     \<lparr>block_size = bs, block_per_arena = (PG_SIZE - sizeof_arena) div bs, free_list = []\<rparr> #
     desc_loop n (bs * 2)"

definition block_desc_init :: "mem_block_desc list" where
  "block_desc_init = desc_loop DESC_CNT 16"

definition descs_of :: "kernel \<Rightarrow> descp \<Rightarrow> mem_block_desc list" where
  "descs_of k d = (case d of K_desc i \<Rightarrow> k_block_descs k | U_desc t i \<Rightarrow> u_block_desc (tasks k t)
     | Desc_null \<Rightarrow> [])"

definition desc_idx :: "descp \<Rightarrow> nat" where
  "desc_idx d = (case d of K_desc i \<Rightarrow> i | U_desc t i \<Rightarrow> i | Desc_null \<Rightarrow> 0)"

text \<open>Reading and writing through a \<open>struct mem_block_desc *\<close>.\<close>

definition get_desc :: "kernel \<Rightarrow> descp \<Rightarrow> mem_block_desc kres" where
  "get_desc k d =
     (if desc_idx d < length (descs_of k d) then Inr (descs_of k d ! desc_idx d)
      else Inl (Fault ''desc''))"

definition set_free_list :: "kernel \<Rightarrow> descp \<Rightarrow> u32 list \<Rightarrow> kernel" where
  "set_free_list k d l =
     (case d of
        K_desc i \<Rightarrow> k\<lparr>k_block_descs := (k_block_descs k)[i := (k_block_descs k ! i)\<lparr>free_list := l\<rparr>]\<rparr>
      | U_desc t i \<Rightarrow> upd_task k t (\<lambda>x. x\<lparr>u_block_desc := (u_block_desc x)[i := (u_block_desc x ! i)\<lparr>free_list := l\<rparr>]\<rparr>)
      | Desc_null \<Rightarrow> k)"

definition upd_arena :: "kernel \<Rightarrow> u32 \<Rightarrow> (arena \<Rightarrow> arena) \<Rightarrow> kernel" where
  "upd_arena k a f = k\<lparr>arenas := (arenas k)(a := f (arenas k a))\<rparr>"

definition arena2block :: "u32 \<Rightarrow> mem_block_desc \<Rightarrow> u32 \<Rightarrow> u32" where
  "arena2block a d idx = a + sizeof_arena + idx * block_size d"

definition block2arena :: "u32 \<Rightarrow> u32" where
  "block2arena b = b AND 0xfffff000"

text \<open>The loop that cuts a new arena into blocks, and the one that takes them all back.\<close>

primrec split_arena :: "kernel \<Rightarrow> u32 \<Rightarrow> descp \<Rightarrow> u32 \<Rightarrow> nat \<Rightarrow> kernel kres" where
  "split_arena k a d block_idx 0 = Inr k"
| "split_arena k a d block_idx (Suc n) =
     bnd (get_desc k d) (\<lambda>ds.
     let b = arena2block a ds block_idx
     in bnd (kl_find (free_list ds) b) (\<lambda>found.
        bnd (ASSERT (\<not> found) ''!elem_find(&a->desc->free_list)'') (\<lambda>_.
        bnd (kl_append (free_list ds) b) (\<lambda>l.
        split_arena (set_free_list k d l) a d (block_idx + 1) n))))"

primrec unsplit_arena :: "kernel \<Rightarrow> u32 \<Rightarrow> descp \<Rightarrow> u32 \<Rightarrow> nat \<Rightarrow> kernel kres" where
  "unsplit_arena k a d block_idx 0 = Inr k"
| "unsplit_arena k a d block_idx (Suc n) =
     bnd (get_desc k d) (\<lambda>ds.
     let b = arena2block a ds block_idx
     in bnd (kl_find (free_list ds) b) (\<lambda>found.
        bnd (ASSERT found ''elem_find(&a->desc->free_list)'') (\<lambda>_.
        bnd (kl_remove (free_list ds) b) (\<lambda>l.
        unsplit_arena (set_free_list k d l) a d (block_idx + 1) n))))"

primrec find_desc :: "u32 \<Rightarrow> mem_block_desc list \<Rightarrow> nat" where
  "find_desc sz [] = 0"
| "find_desc sz (d # ds) = (if sz \<le> block_size d then 0 else Suc (find_desc sz ds))"

text \<open>\<open>malloc_page\<close>, then \<open>memset\<close> and the header of a new arena.\<close>

definition new_arena :: "kernel \<Rightarrow> pool_flags \<Rightarrow> u32 \<Rightarrow> arena \<Rightarrow> (u32 \<times> kernel) kres" where
  "new_arena k pf page_cnt hdr =
     bnd (malloc_page k pf page_cnt) (\<lambda>(a, k).
     if a = NULL then Inr (NULL, k)
     else bnd (clear_pages k a (unat page_cnt)) (\<lambda>k. Inr (a, upd_arena k a (\<lambda>_. hdr))))"

definition alloc_block :: "kernel \<Rightarrow> descp \<Rightarrow> (u32 \<times> kernel) kres" where
  "alloc_block k d =
     bnd (get_desc k d) (\<lambda>ds.
     bnd (kl_pop (free_list ds)) (\<lambda>(b, l).
     bnd (memset (vmem k) b 0 (block_size ds)) (\<lambda>m.
     let k = (set_free_list k d l)\<lparr>vmem := m\<rparr>
     in Inr (b, upd_arena k (block2arena b) (\<lambda>a. a\<lparr>cnt := cnt a - 1\<rparr>)))))"

text \<open>The choice of the pool and of the descriptors by the kind of the calling thread.\<close>

definition caller_pool :: "kernel \<Rightarrow> pool_flags" where
  "caller_pool k = (if pgdir (tasks k (running_thread k)) = NULL then PF_KERNEL else PF_USER)"

definition caller_desc :: "kernel \<Rightarrow> nat \<Rightarrow> descp" where
  "caller_desc k i = (case caller_pool k of PF_KERNEL \<Rightarrow> K_desc i | PF_USER \<Rightarrow> U_desc (running_thread k) i)"

definition refill :: "kernel \<Rightarrow> pool_flags \<Rightarrow> descp \<Rightarrow> (bool \<times> kernel) kres" where
  "refill k pf d =
     bnd (get_desc k d) (\<lambda>ds.
     if \<not> kl_empty (free_list ds) then Inr (True, k)
     else bnd (new_arena k pf 1 \<lparr>desc = d, cnt = block_per_arena ds, large = False\<rparr>) (\<lambda>(a, k).
          if a = NULL then Inr (False, k)
          else let (old_status, k) = k_intr_disable k
               in bnd (split_arena k a d 0 (unat (block_per_arena ds))) (\<lambda>k.
                  Inr (True, k_intr_set_status k old_status))))"

definition sys_malloc :: "kernel \<Rightarrow> u32 \<Rightarrow> (u32 \<times> kernel) kres" where
  "sys_malloc k sz =
     (let pf = caller_pool k
      in if \<not> (sz > 0 \<and> sz < pool_size (pool_of k pf)) then Inr (NULL, k)
         else bnd (lock_acquire k (pool_lock pf)) (\<lambda>k.
           if sz > 1024 then
             let page_cnt = DIV_ROUND_UP (sz + sizeof_arena) PG_SIZE
             in bnd (new_arena k pf page_cnt \<lparr>desc = Desc_null, cnt = page_cnt, large = True\<rparr>) (\<lambda>(a, k).
                bnd (lock_release k (pool_lock pf)) (\<lambda>k.
                Inr (if a \<noteq> NULL then a + sizeof_arena else NULL, k)))
           else
             let d = caller_desc k (find_desc sz (descs_of k (caller_desc k 0)))
             in bnd (refill k pf d) (\<lambda>(ok, k).
                if \<not> ok then bnd (lock_release k (pool_lock pf)) (\<lambda>k. Inr (NULL, k))
                else bnd (alloc_block k d) (\<lambda>(b, k).
                     bnd (lock_release k (pool_lock pf)) (\<lambda>k.
                     Inr (b, k))))))"

definition sys_free :: "kernel \<Rightarrow> u32 \<Rightarrow> kernel kres" where
  "sys_free k ptr =
     bnd (ASSERT (ptr \<noteq> NULL) ''ptr != NULL'') (\<lambda>_.
     let pf = caller_pool k
     in bnd (lock_acquire k (pool_lock pf)) (\<lambda>k.
        let a = block2arena ptr; hdr = arenas k a
        in bnd (if large hdr \<and> desc hdr = Desc_null then mfree_page k pf a (cnt hdr)
                else bnd (get_desc k (desc hdr)) (\<lambda>ds.
                     bnd (kl_append (free_list ds) ptr) (\<lambda>l.
                     let k = upd_arena (set_free_list k (desc hdr) l) a (\<lambda>x. x\<lparr>cnt := cnt x + 1\<rparr>)
                     in if cnt (arenas k a) = block_per_arena ds
                        then bnd (unsplit_arena k a (desc hdr) 0 (unat (block_per_arena ds))) (\<lambda>k.
                             mfree_page k pf a 1)
                        else Inr k))) (\<lambda>k.
           lock_release k (pool_lock pf))))"

definition mem_init :: "kernel \<Rightarrow> u32 \<Rightarrow> kernel kres" where
  "mem_init k total_memory =
     bnd (mem_pool_init k total_memory) (\<lambda>k. Inr (k\<lparr>k_block_descs := block_desc_init\<rparr>))"

section \<open>Blocks and arenas\<close>

definition desc_ok :: "mem_block_desc \<Rightarrow> bool" where
  "desc_ok d \<longleftrightarrow> 0 < block_size d \<and> block_per_arena d = (PG_SIZE - sizeof_arena) div block_size d"

lemma desc_loop_ok: "i < n \<Longrightarrow> (\<And>j. j < n \<Longrightarrow> 0 < bs * 2 ^ j) \<Longrightarrow>
    desc_loop n bs ! i = \<lparr>block_size = bs * 2 ^ i,
      block_per_arena = (PG_SIZE - sizeof_arena) div (bs * 2 ^ i), free_list = []\<rparr>"
proof (induction n arbitrary: bs i)
  case (Suc n)
  have "0 < bs * 2 * 2 ^ j" if "j < n" for j using Suc.prems(2) [of "Suc j"] that by (simp add: mult.assoc)
  with Suc.IH [of "i - 1" "bs * 2"] Suc.prems show ?case by (cases i) (simp_all add: mult.assoc)
qed simp

lemma length_desc_loop [simp]: "length (desc_loop n bs) = n"
  by (induction n arbitrary: bs) simp_all

lemma nat_less_7_cases: "i < (7::nat) \<Longrightarrow> i = 0 \<or> i = 1 \<or> i = 2 \<or> i = 3 \<or> i = 4 \<or> i = 5 \<or> i = 6"
  by linarith

lemma block_desc_init_nth:
  assumes "i < 7"
  shows "block_desc_init ! i = \<lparr>block_size = 16 * 2 ^ i,
      block_per_arena = (PG_SIZE - sizeof_arena) div (16 * 2 ^ i), free_list = []\<rparr>"
proof -
  have "0 < (16 :: u32) * 2 ^ j" if "j < 7" for j
    using nat_less_7_cases [OF that] by (auto simp: word_less_nat_alt)
  with assms show ?thesis unfolding block_desc_init_def DESC_CNT_def by (intro desc_loop_ok)
qed

lemma block_offset:
  assumes d: "desc_ok d" and i: "i < block_per_arena d"
  shows "unat (sizeof_arena + i * block_size d) = 12 + unat i * unat (block_size d)"
    and "12 + unat i * unat (block_size d) + unat (block_size d) \<le> 4096"
proof -
  let ?s = "unat (block_size d)"
  have s: "0 < ?s" using d by (simp add: desc_ok_def word_less_nat_alt)
  have "unat i < 4084 div ?s"
    using i d by (simp add: desc_ok_def word_less_nat_alt unat_div PG_SIZE_def sizeof_arena_def)
  then have "Suc (unat i) * ?s \<le> 4084 div ?s * ?s" by (intro mult_le_mono1) simp
  also have "\<dots> \<le> 4084" by (rule div_times_less_eq_dividend)
  finally have "Suc (unat i) * ?s \<le> 4084" .
  then show le: "12 + unat i * ?s + ?s \<le> 4096" by simp
  then have "unat i * ?s < 2 ^ 32" "12 + unat i * ?s < 2 ^ 32" by simp_all
  then show "unat (sizeof_arena + i * block_size d) = 12 + unat i * ?s"
    by (simp add: sizeof_arena_def unat_word_ariths)
qed

lemma block_offset_take:
  assumes "desc_ok d" "i < block_per_arena d"
  shows "take_bit 12 (sizeof_arena + i * block_size d) = sizeof_arena + i * block_size d"
proof -
  have "0 < unat (block_size d)" using assms(1) by (simp add: desc_ok_def word_less_nat_alt)
  with block_offset [OF assms] have "unat (sizeof_arena + i * block_size d) < 2 ^ 12" by simp
  then show ?thesis by (simp add: word_unat_eq_iff unsigned_take_bit_eq take_bit_nat_eq_self)
qed

text \<open>
  Every block of an arena leads back to its arena, lies inside the page behind the header, and two
  different blocks of an arena do not overlap.
\<close>

theorem arena_blocks:
  assumes "desc_ok d" "page_of a = a" "i < block_per_arena d"
  shows "block2arena (arena2block a d i) = a \<and>
         unat (arena2block a d i - a) \<ge> 12 \<and>
         unat (arena2block a d i - a) + unat (block_size d) \<le> 4096 \<and>
         (\<forall>j < block_per_arena d. i < j \<longrightarrow>
            unat (arena2block a d i - a) + unat (block_size d) \<le> unat (arena2block a d j - a))"
proof -
  have off: "arena2block a d x - a = sizeof_arena + x * block_size d" for x by (simp add: arena2block_def)
  have "block2arena (arena2block a d i) = page_of (page_of a + (sizeof_arena + i * block_size d))"
    using assms(2) by (simp add: block2arena_def arena2block_def add.assoc)
  also have "\<dots> = a" using assms(2) page_add_page [OF block_offset_take [OF assms(1,3)], of a] by simp
  finally have "block2arena (arena2block a d i) = a" .
  moreover have "12 + unat i * unat (block_size d) + unat (block_size d) \<le> 12 + unat j * unat (block_size d)"
    if "i < j" for j
  proof -
    have "Suc (unat i) \<le> unat j" using that by (simp add: word_less_nat_alt)
    from mult_le_mono1 [OF this, of "unat (block_size d)"] show ?thesis by simp
  qed
  ultimately show ?thesis
    using block_offset [OF assms(1,3)] block_offset(1) [OF assms(1)] by (simp add: off)
qed

theorem arena_blocks_witness:
  "block2arena (arena2block 0xc0105000 (block_desc_init ! 2) 5) = 0xc0105000 \<and>
   unat (arena2block 0xc0105000 (block_desc_init ! 2) 5 - 0xc0105000) + unat (block_size (block_desc_init ! 2)) \<le> 4096"
proof -
  have "desc_ok (block_desc_init ! 2)" "(5 :: u32) < block_per_arena (block_desc_init ! 2)"
    by (simp_all add: block_desc_init_nth desc_ok_def PG_SIZE_def sizeof_arena_def)
  from arena_blocks [OF this(1) _ this(2), of "0xc0105000"] show ?thesis by simp
qed

section \<open>Small blocks\<close>

text \<open>
  \<open>sys_malloc\<close> takes the smallest block that is large enough.
\<close>

lemma find_desc_spec:
  "(\<exists>d\<in>set ds. sz \<le> block_size d) \<Longrightarrow>
     find_desc sz ds < length ds \<and> sz \<le> block_size (ds ! find_desc sz ds) \<and>
     (\<forall>j < find_desc sz ds. block_size (ds ! j) < sz)"
proof (induction ds)
  case (Cons d ds)
  show ?case
  proof (cases "sz \<le> block_size d")
    case False
    then have less: "block_size d < sz" by (simp add: linorder_not_le)
    have "find_desc sz ds < length ds \<and> sz \<le> block_size (ds ! find_desc sz ds) \<and>
        (\<forall>j < find_desc sz ds. block_size (ds ! j) < sz)" using Cons False by auto
    with False less show ?thesis by (auto simp: nth_Cons split: nat.splits)
  qed simp
qed simp

text \<open>A kernel thread with the pool lock free, and descriptors as \<open>block_desc_init\<close> makes them.\<close>

definition heap_ready :: "kernel \<Rightarrow> bool" where
  "heap_ready k \<longleftrightarrow> pgdir (tasks k (running_thread k)) = NULL \<and> running_thread k \<noteq> NULL \<and>
     locks k Kernel_pool_lock = free_lock \<and>
     map block_size (k_block_descs k) = map block_size block_desc_init \<and>
     map block_per_arena (k_block_descs k) = map block_per_arena block_desc_init"

lemma heap_len: "heap_ready k \<Longrightarrow> length (k_block_descs k) = 7"
  by (auto simp: heap_ready_def block_desc_init_def DESC_CNT_def dest: map_eq_imp_length_eq)

lemma heap_size:
  assumes "heap_ready k" "i < 7"
  shows "block_size (k_block_descs k ! i) = 16 * 2 ^ i"
proof -
  have "map block_size (k_block_descs k) ! i = map block_size block_desc_init ! i"
    using assms(1) by (simp add: heap_ready_def)
  with assms heap_len [OF assms(1)] show ?thesis
    by (simp add: block_desc_init_nth) (simp add: block_desc_init_def DESC_CNT_def block_desc_init_nth [unfolded block_desc_init_def DESC_CNT_def])
qed

lemma heap_find:
  assumes "heap_ready k" "sz \<le> 1024"
  shows "find_desc sz (k_block_descs k) < 7"
proof -
  have "sz \<le> block_size (k_block_descs k ! 6)" using heap_size [OF assms(1), of 6] assms(2) by simp
  then have "\<exists>d\<in>set (k_block_descs k). sz \<le> block_size d"
    using heap_len [OF assms(1)] nth_mem [of 6 "k_block_descs k"] by auto
  from find_desc_spec [OF this] heap_len [OF assms(1)] show ?thesis by simp
qed

text \<open>The state after a block has been taken from free list \<open>i\<close>.\<close>

definition take_block :: "kernel \<Rightarrow> nat \<Rightarrow> u32 \<Rightarrow> u32 list \<Rightarrow> kernel" where
  "take_block k i b l =
     upd_arena ((set_free_list k (K_desc i) l)
        \<lparr>vmem := memset_loop (vmem k) b 0 (unat (block_size (k_block_descs k ! i)))\<rparr>)
       (block2arena b) (\<lambda>a. a\<lparr>cnt := cnt a - 1\<rparr>)"

lemma caller_pool_kernel: "pgdir (tasks k (running_thread k)) = NULL \<Longrightarrow> caller_pool k = PF_KERNEL"
  by (simp add: caller_pool_def)

lemma sys_malloc_step:
  assumes heap: "heap_ready k" and sz: "0 < sz" "sz \<le> 1024" "sz < pool_size (kernel_pool k)"
    and i: "i = find_desc sz (k_block_descs k)"
    and free: "free_list (k_block_descs k ! i) = b # l" "b \<noteq> NULL"
  shows "sys_malloc k sz = Inr (b, take_block k i b l)"
proof -
  let ?c = "running_thread k"
  let ?k1 = "k\<lparr>locks := (locks k)(Kernel_pool_lock := held_lock ?c)\<rparr>"
  have i7: "i < 7" "length (k_block_descs k) = 7" using heap_find [OF heap sz(2)] heap_len [OF heap] i by simp_all
  have acq: "lock_acquire k Kernel_pool_lock = Inr ?k1"
    using heap by (intro lock_acquire_free) (simp_all add: heap_ready_def)
  have pf: "caller_pool k = PF_KERNEL" "caller_pool ?k1 = PF_KERNEL"
    using heap by (simp_all add: caller_pool_def heap_ready_def)
  have d: "caller_desc ?k1 j = K_desc j" "descs_of ?k1 (K_desc j) = k_block_descs k" for j
    by (simp_all add: caller_desc_def pf descs_of_def)
  have desc: "get_desc ?k1 (K_desc i) = Inr (k_block_descs k ! i)"
    using i7 by (simp add: get_desc_def descs_of_def desc_idx_def)
  have alloc: "alloc_block ?k1 (K_desc i) = Inr (b, take_block ?k1 i b l)"
    using desc free by (simp add: alloc_block_def kl_defs memset_def take_block_def Let_def)
  have tb: "take_block ?k1 i b l = (take_block k i b l)\<lparr>locks := (locks k)(Kernel_pool_lock := held_lock ?c)\<rparr>"
    "locks (take_block k i b l) = locks k" "running_thread (take_block k i b l) = ?c"
    by (simp_all add: take_block_def set_free_list_def upd_arena_def running_thread_def)
  have rel: "lock_release (take_block ?k1 i b l) Kernel_pool_lock = Inr (take_block k i b l)"
    using lock_release_held [of "take_block ?k1 i b l" Kernel_pool_lock] heap
    by (simp add: tb heap_ready_def fun_upd_idem)
  have refill: "refill ?k1 PF_KERNEL (K_desc i) = Inr (True, ?k1)"
    using desc free(1) by (simp add: refill_def kl_defs)
  have "\<not> 1024 < sz" using sz(2) by (simp add: linorder_not_less)
  with sz acq refill alloc rel show ?thesis
    by (simp add: sys_malloc_def pf pool_lock_def pool_of_def Let_def d flip: i)
qed

text \<open>
  A small request of a kernel thread, with a free block at hand, is served with the first block of
  the smallest sufficient size: the block is cleared and off the free list, its arena has one
  free block less, and the pool lock is free again.
\<close>

theorem sys_malloc_small:
  assumes heap: "heap_ready k" and sz: "0 < sz" "sz \<le> 1024" "sz < pool_size (kernel_pool k)"
    and free: "free_list (k_block_descs k ! find_desc sz (k_block_descs k)) = b # l" "b \<noteq> NULL"
  shows "\<exists>k'. sys_malloc k sz = Inr (b, k') \<and>
           (let i = find_desc sz (k_block_descs k)
            in sz \<le> block_size (k_block_descs k ! i) \<and> free_list (k_block_descs k' ! i) = l \<and>
               (\<forall>j. j \<noteq> i \<longrightarrow> k_block_descs k' ! j = k_block_descs k ! j) \<and>
               (\<forall>x \<in> region b (unat (block_size (k_block_descs k ! i))). vmem k' x = 0) \<and>
               cnt (arenas k' (block2arena b)) = cnt (arenas k (block2arena b)) - 1 \<and> locks k' = locks k)"
proof -
  let ?i = "find_desc sz (k_block_descs k)"
  have i7: "?i < 7" "length (k_block_descs k) = 7" using heap_find [OF heap sz(2)] heap_len [OF heap] by simp_all
  have "sz \<le> block_size (k_block_descs k ! 6)" using heap_size [OF heap, of 6] sz(2) by simp
  then have "\<exists>d\<in>set (k_block_descs k). sz \<le> block_size d"
    using i7 nth_mem [of 6 "k_block_descs k"] by auto
  from find_desc_spec [OF this] have "sz \<le> block_size (k_block_descs k ! ?i)" by blast
  then show ?thesis
    unfolding sys_malloc_step [OF heap sz refl free]
    using i7 by (simp add: take_block_def set_free_list_def upd_arena_def memset_loop_in Let_def)
qed

text \<open>
  C10: A block of at most 1024 bytes for which its list has a free one, in an arena that stays in use: freeing the block right
  away puts it at the end of its free list and restores the header of its arena. (The first block of a new arena, whose release gives the page
  back, and larger blocks are not covered.)
\<close>

theorem sys_malloc_free_roundtrip:
  assumes heap: "heap_ready k" and sz: "0 < sz" "sz \<le> 1024" "sz < pool_size (kernel_pool k)"
    and i: "i = find_desc sz (k_block_descs k)"
    and free: "free_list (k_block_descs k ! i) = b # l" "b \<noteq> NULL"
    and hdr: "desc (arenas k (block2arena b)) = K_desc i" "\<not> large (arenas k (block2arena b))"
      "cnt (arenas k (block2arena b)) \<noteq> block_per_arena (k_block_descs k ! i)"
  shows "\<exists>k1 k2. sys_malloc k sz = Inr (b, k1) \<and> sys_free k1 b = Inr k2 \<and>
           free_list (k_block_descs k2 ! i) = l @ [b] \<and> arenas k2 = arenas k \<and> locks k2 = locks k"
proof -
  let ?c = "running_thread k" and ?a = "block2arena b"
  let ?t = "take_block k i b l"
  let ?k1 = "?t\<lparr>locks := (locks k)(Kernel_pool_lock := held_lock ?c)\<rparr>"
  have i7: "i < 7" "length (k_block_descs k) = 7" using heap_find [OF heap sz(2)] heap_len [OF heap] i by simp_all
  have t: "locks ?t = locks k" "running_thread ?t = ?c" "tasks ?t = tasks k"
    "k_block_descs ?t = (k_block_descs k)[i := (k_block_descs k ! i)\<lparr>free_list := l\<rparr>]"
    "arenas ?t = (arenas k)(?a := (arenas k ?a)\<lparr>cnt := cnt (arenas k ?a) - 1\<rparr>)"
    by (simp_all add: take_block_def set_free_list_def upd_arena_def running_thread_def)
  have h: "pgdir (tasks k ?c) = NULL" "?c \<noteq> NULL" "locks k Kernel_pool_lock = free_lock"
    using heap by (simp_all add: heap_ready_def)
  have acq: "lock_acquire ?t Kernel_pool_lock = Inr ?k1"
    using lock_acquire_free [of ?t Kernel_pool_lock] t h by simp
  have pf: "caller_pool ?t = PF_KERNEL" using t h by (simp add: caller_pool_def)
  have desc: "get_desc ?k1 (K_desc i) = Inr ((k_block_descs k ! i)\<lparr>free_list := l\<rparr>)"
    using i7 t by (simp add: get_desc_def descs_of_def desc_idx_def)
  let ?k2 = "upd_arena (set_free_list ?k1 (K_desc i) (l @ [b])) ?a (\<lambda>x. x\<lparr>cnt := cnt x + 1\<rparr>)"
  have k2: "arenas ?k2 = arenas k" "free_list (k_block_descs ?k2 ! i) = l @ [b]"
    "running_thread ?k2 = ?c" "locks ?k2 = (locks k)(Kernel_pool_lock := held_lock ?c)"
    using t i7 by (simp_all add: upd_arena_def set_free_list_def running_thread_def)
  have "sys_free ?t b = lock_release ?k2 Kernel_pool_lock"
    using free(2) acq desc hdr k2(1) t
    by (simp add: sys_free_def pf pool_lock_def kl_defs Let_def)
  moreover have "lock_release ?k2 Kernel_pool_lock = Inr (?k2\<lparr>locks := locks k\<rparr>)"
    using lock_release_held [of ?k2 Kernel_pool_lock] k2 h by (simp add: fun_upd_idem)
  ultimately show ?thesis
    using sys_malloc_step [OF heap sz i free] k2 by simp
qed

section \<open>A heap with one arena\<close>

text \<open>The descriptors at boot with one arena of 64-byte blocks at \<open>0xc0105000\<close>.\<close>

definition demo_heap :: kernel where
  "demo_heap = demo_kernel
     \<lparr>k_block_descs := block_desc_init[2 := (block_desc_init ! 2)\<lparr>free_list := [0xc010504c, 0xc010508c]\<rparr>],
      kernel_pool := \<lparr>pool_bitmap = no_bitmap, phy_addr_start = 0x200000, pool_size = 0x100000\<rparr>,
      arenas := (\<lambda>_. \<lparr>desc = K_desc 2, cnt = 2, large = False\<rparr>)\<rparr>"

lemma demo_heap_ready: "heap_ready demo_heap"
  by (simp add: heap_ready_def demo_heap_def demo_kernel_def boot_kernel_def running_thread_def
      demo_task_def zero_task_def free_lock_def map_update list_update_id)
    (simp add: block_desc_init_def DESC_CNT_def eval_nat_numeral)

lemma block_desc_init_list:
  "block_desc_init = map (\<lambda>n. \<lparr>block_size = n, block_per_arena = 4084 div n, free_list = []\<rparr>)
     [16, 32, 64, 128, 256, 512, 1024]"
proof -
  have "DESC_CNT = Suc (Suc (Suc (Suc (Suc (Suc (Suc 0))))))" by (simp add: DESC_CNT_def)
  note n = this
  show ?thesis
    unfolding block_desc_init_def n by (simp only: desc_loop.simps list.map PG_SIZE_def sizeof_arena_def) simp
qed

lemma demo_heap_descs:
  "free_list (k_block_descs demo_heap ! 2) = [0xc010504c, 0xc010508c]"
  "find_desc 40 (k_block_descs demo_heap) = 2" "block_per_arena (k_block_descs demo_heap ! 2) = 63"
  by (simp_all add: demo_heap_def block_desc_init_list)

lemma demo_heap_hdr:
  "desc (arenas demo_heap p) = K_desc 2" "\<not> large (arenas demo_heap p)" "cnt (arenas demo_heap p) = 2"
  "pool_size (kernel_pool demo_heap) = 0x100000"
  by (simp_all add: demo_heap_def)

theorem sys_malloc_small_witness:
  "\<exists>k'. sys_malloc demo_heap 40 = Inr (0xc010504c, k') \<and> free_list (k_block_descs k' ! 2) = [0xc010508c]"
  using sys_malloc_small [OF demo_heap_ready, of 40 "0xc010504c" "[0xc010508c]"]
  by (auto simp: demo_heap_descs demo_heap_hdr Let_def)

theorem sys_malloc_free_roundtrip_witness:
  "\<exists>k1 k2. sys_malloc demo_heap 40 = Inr (0xc010504c, k1) \<and> sys_free k1 0xc010504c = Inr k2 \<and>
     free_list (k_block_descs k2 ! 2) = [0xc010508c, 0xc010504c]"
proof -
  have "\<exists>k1 k2. sys_malloc demo_heap 40 = Inr (0xc010504c, k1) \<and> sys_free k1 0xc010504c = Inr k2 \<and>
      free_list (k_block_descs k2 ! 2) = [0xc010508c] @ [0xc010504c] \<and> arenas k2 = arenas demo_heap \<and>
      locks k2 = locks demo_heap"
    by (rule sys_malloc_free_roundtrip [OF demo_heap_ready]) (simp_all add: demo_heap_descs demo_heap_hdr)
  then show ?thesis by auto
qed

end
