(* ===== verification/Thread.thy ===== *)
theory Thread
  imports Malloc Kpages
begin

unbundle bit_operations_syntax

text \<open>
  The life of a thread in \<^verbatim>\<open>kernel/thread.c\<close>: process identifiers, \<open>init_thread\<close>,
  \<open>thread_create\<close>, \<open>thread_start\<close>, \<open>thread_exit\<close> and the lookup by identifier. Addresses
  that the linker assigns (entry points, the array of the pid bitmap) are arguments.
\<close>

section \<open>Process identifiers\<close>

definition pid_pool_init :: "kernel \<Rightarrow> u32 \<Rightarrow> kernel kres" where
  "pid_pool_init k pid_bitmap_bits =
     (let b = \<lparr>btmp_bytes_len = 128, bits = pid_bitmap_bits\<rparr>
      in bnd (k_bitmap_init (k\<lparr>pid_start := 1, pid_bitmap := b\<rparr>) b) (\<lambda>k. Inr (lock_init k Pid_lock)))"

definition allocate_pid :: "kernel \<Rightarrow> (u16 \<times> kernel) kres" where
  "allocate_pid k =
     bnd (lock_acquire k Pid_lock) (\<lambda>k.
     bnd (bitmap_scan (vmem k) (pid_bitmap k) 1) (\<lambda>bit_idx.
     bnd (k_bitmap_set k (pid_bitmap k) bit_idx 1) (\<lambda>k.
     bnd (lock_release k Pid_lock) (\<lambda>k.
       Inr (ucast (bit_idx + pid_start k), k)))))"

definition release_pid :: "kernel \<Rightarrow> u16 \<Rightarrow> kernel kres" where
  "release_pid k p =
     bnd (lock_acquire k Pid_lock) (\<lambda>k.
     bnd (k_bitmap_set k (pid_bitmap k) (scast p - pid_start k) 0) (\<lambda>k.
       lock_release k Pid_lock))"

definition fork_pid :: "kernel \<Rightarrow> (u16 \<times> kernel) kres" where
  "fork_pid k = allocate_pid k"

section \<open>Creating threads\<close>

text \<open>Pointer arithmetic on \<open>uint32_t *\<close>: the two sizes, 76 and 32 bytes, are scaled by 4.\<close>

definition sizeof_intr_stack :: u32 where "sizeof_intr_stack = 19 * 4"
definition sizeof_thread_stack :: u32 where "sizeof_thread_stack = 8 * 4"

definition thread_create :: "kernel \<Rightarrow> u32 \<Rightarrow> u32 \<Rightarrow> u32 \<Rightarrow> u32 \<Rightarrow> kernel" where
  "thread_create k pthread kernel_thread func func_arg =
     (let k = upd_task k pthread (\<lambda>t. t\<lparr>self_kstack := self_kstack t - 4 * sizeof_intr_stack\<rparr>);
          k = upd_task k pthread (\<lambda>t. t\<lparr>self_kstack := self_kstack t - 4 * sizeof_thread_stack\<rparr>);
          sp = self_kstack (tasks k pthread)
      in k\<lparr>thread_stacks := (thread_stacks k)(sp := (thread_stacks k sp)
             \<lparr>ts_eip := kernel_thread, ts_function := func, ts_func_arg := func_arg,
              ts_ebp := 0, ts_ebx := 0, ts_esi := 0, ts_edi := 0\<rparr>)\<rparr>)"

text \<open>A name of 16 characters or more runs over the end of \<open>name\<close>.\<close>

definition init_thread :: "kernel \<Rightarrow> u32 \<Rightarrow> string \<Rightarrow> u32 \<Rightarrow> kernel kres" where
  "init_thread k pthread nm prio =
     bnd (ASSERT (pthread \<noteq> NULL) ''dst_ != NULL'') (\<lambda>_.
     let k = upd_task k pthread (\<lambda>_. zero_task)
     in bnd (allocate_pid k) (\<lambda>(p, k).
        if \<not> length nm < 16 then Inl (Fault ''name'')
        else Inr (upd_task k pthread (\<lambda>t. t
          \<lparr>pid := p, name := nm,
           status := (if pthread = main_thread k then TASK_RUNNING else TASK_READY),
           self_kstack := pthread + PG_SIZE, priority := ucast prio, ticks := ucast prio,
           elapsed_ticks := 0, pgdir := NULL,
           fdtable := [0, 1, 2] @ replicate 5 (- 1),
           cwd_inode_nr := 0, parent_pid := - 1, stack_magic := 0x20000509\<rparr>))))"

text \<open>The assertion and the insertion into one of the two thread lists.\<close>

definition enlist_ready :: "kernel \<Rightarrow> u32 \<Rightarrow> kernel kres" where
  "enlist_ready k t =
     bnd (kl_find (thread_ready_list k) t) (\<lambda>found.
     bnd (ASSERT (\<not> found) ''!elem_find(&thread_ready_list)'') (\<lambda>_.
     bnd (kl_append (thread_ready_list k) t) (\<lambda>r. Inr (k\<lparr>thread_ready_list := r\<rparr>))))"

definition enlist_all :: "kernel \<Rightarrow> u32 \<Rightarrow> kernel kres" where
  "enlist_all k t =
     bnd (kl_find (thread_all_list k) t) (\<lambda>found.
     bnd (ASSERT (\<not> found) ''!elem_find(&thread_all_list)'') (\<lambda>_.
     bnd (kl_append (thread_all_list k) t) (\<lambda>r. Inr (k\<lparr>thread_all_list := r\<rparr>))))"

definition thread_start :: "kernel \<Rightarrow> string \<Rightarrow> u32 \<Rightarrow> u32 \<Rightarrow> u32 \<Rightarrow> u32 \<Rightarrow> (u32 \<times> kernel) kres" where
  "thread_start k nm prio kernel_thread func fun_arg =
     bnd (get_kernel_pages k 1) (\<lambda>(thread, k).
     bnd (init_thread k thread nm prio) (\<lambda>k.
     bnd (ASSERT (pgdir (tasks k thread) = NULL) ''thread->pgdir == NULL'') (\<lambda>_.
     let k = thread_create k thread kernel_thread func fun_arg
     in bnd (ASSERT (pgdir (tasks k thread) = NULL) ''thread->pgdir == NULL'') (\<lambda>_.
        bnd (enlist_ready k thread) (\<lambda>k.
        bnd (enlist_all k thread) (\<lambda>k.
          Inr (thread, k)))))))"

definition make_main_thread :: "kernel \<Rightarrow> kernel kres" where
  "make_main_thread k =
     (let m = running_thread k
      in bnd (init_thread (k\<lparr>main_thread := m\<rparr>) m ''main'' 31) (\<lambda>k.
         bnd (ASSERT (pgdir (tasks k m) = NULL) ''main_thread->pgdir == NULL'') (\<lambda>_.
         enlist_all k m)))"

text \<open>
  \<open>kernel_thread\<close> runs the body of a new thread with interrupts on, and one turn of the loop of
  \<open>idle\<close>.
\<close>

definition kernel_thread :: "(u32 \<Rightarrow> kernel \<Rightarrow> 'a) \<Rightarrow> u32 \<Rightarrow> kernel \<Rightarrow> 'a" where
  "kernel_thread func func_arg k = func func_arg (k\<lparr>flags := snd (intr_enable (flags k))\<rparr>)"

definition idle_turn :: "kernel \<Rightarrow> kernel kres" where
  "idle_turn k = bnd (thread_block k TASK_BLOCKED) (\<lambda>k. Inr (k\<lparr>flags := sti (flags k)\<rparr>))"

section \<open>Ending threads\<close>

text \<open>
  The PCB is freed before its \<open>pid\<close> is read. The page is unmapped, and \<open>invlpg\<close> in \<open>page_table_pte_remove\<close> names the stack slot of its
  variable and not the page, so that the processor can still have the old translation. \<open>tlb\<close> says of which unmapped pages it has: of
  such a page the old contents are read, of another one the access is a fault.
\<close>

definition thread_exit :: "(u32 \<Rightarrow> bool) \<Rightarrow> kernel \<Rightarrow> u32 \<Rightarrow> bool \<Rightarrow> kernel kres" where
  "thread_exit tlb k thread_over need_schedule =
     (let (_, k) = k_intr_disable k;
          k = upd_task k thread_over (\<lambda>t. t\<lparr>status := TASK_DIED\<rparr>)
      in bnd (kl_find (thread_ready_list k) thread_over) (\<lambda>found.
         bnd (if found then bnd (kl_remove (thread_ready_list k) thread_over) (\<lambda>r. Inr (k\<lparr>thread_ready_list := r\<rparr>))
              else Inr k) (\<lambda>k.
         bnd (if pgdir (tasks k thread_over) \<noteq> NULL
              then mfree_page k PF_KERNEL (pgdir (tasks k thread_over)) 1 else Inr k) (\<lambda>k.
         bnd (kl_remove (thread_all_list k) thread_over) (\<lambda>r.
         let k = k\<lparr>thread_all_list := r\<rparr>
         in bnd (if thread_over \<noteq> main_thread k then mfree_page k PF_KERNEL thread_over 1 else Inr k) (\<lambda>k.
            bnd (if thread_over = main_thread k \<or> tlb thread_over then release_pid k (pid (tasks k thread_over))
                 else Inl (Fault ''thread_over->pid'')) (\<lambda>k.
            if need_schedule
            then bnd (schedule k) (\<lambda>_. Inl (Panic ''thread_exit: should not be here''))
            else Inr k)))))))"

definition check_pid :: "kernel \<Rightarrow> u16 \<Rightarrow> u32 \<Rightarrow> bool" where
  "check_pid k p t \<longleftrightarrow> pid (tasks k t) = p"

text \<open>\<open>list_traversal\<close> hands the 32-bit argument to a callback that takes a \<open>pid_t\<close>.\<close>

definition pid_to_thread :: "kernel \<Rightarrow> u32 \<Rightarrow> u32" where
  "pid_to_thread k p =
     (case find (check_pid k (ucast p)) (thread_all_list k) of None \<Rightarrow> NULL | Some t \<Rightarrow> t)"

section \<open>Identifiers are unique\<close>

definition pid_used :: "kernel \<Rightarrow> u16 \<Rightarrow> bool" where
  "pid_used k p = bm_bit (vmem k) (pid_bitmap k) (unat p - 1)"

definition pid_valid :: "u16 \<Rightarrow> bool" where
  "pid_valid p \<longleftrightarrow> 1 \<le> p \<and> p \<le> 1024"

definition pids_ok :: "kernel \<Rightarrow> bool" where
  "pids_ok k \<longleftrightarrow> btmp_bytes_len (pid_bitmap k) = 128 \<and> pid_start k = 1"

lemma pids_ok_len: "pids_ok k \<Longrightarrow> bm_len (pid_bitmap k) = 1024" "pids_ok k \<Longrightarrow> bm_wf (pid_bitmap k)"
  by (simp_all add: pids_ok_def bm_len_def bm_wf_def)

lemma pid_of_index:
  assumes "i < 1024"
  shows "ucast (of_nat i + 1 :: u32) = (of_nat (Suc i) :: u16)" "unat (of_nat (Suc i) :: u16) = Suc i"
    "pid_valid (of_nat (Suc i))" "scast (of_nat (Suc i) :: u16) - 1 = (of_nat i :: u32)"
proof -
  have "ucast (of_nat (Suc i) :: u32) = (of_nat (Suc i) :: u16)" by (rule bit_eqI) (simp add: bit_simps del: of_nat_Suc)
  then show "ucast (of_nat i + 1 :: u32) = (of_nat (Suc i) :: u16)" by (simp add: add.commute)
  show u: "unat (of_nat (Suc i) :: u16) = Suc i" using assms by (simp add: unat_of_nat del: of_nat_Suc)
  show "pid_valid (of_nat (Suc i))" using u assms by (simp add: pid_valid_def word_le_nat_alt del: of_nat_Suc)
  have "sint (of_nat (Suc i) :: u16) = int (Suc i)"
    using assms by (simp add: signed_of_nat signed_take_bit_int_eq_self del: of_nat_Suc)
  moreover have "scast (of_nat (Suc i) :: u16) = (of_int (sint (of_nat (Suc i) :: u16)) :: u32)"
    by (rule of_int_sint [symmetric])
  ultimately have "scast (of_nat (Suc i) :: u16) = (of_nat (Suc i) :: u32)" by (simp only: of_int_of_nat_eq)
  then show "scast (of_nat (Suc i) :: u16) - 1 = (of_nat i :: u32)" by simp
qed

lemma allocate_pid_eq:
  assumes ok: "pids_ok k" and lock: "locks k Pid_lock = free_lock" "running_thread k \<noteq> NULL"
    and free: "\<exists>p. pid_valid p \<and> \<not> pid_used k p"
  shows "\<exists>i m. i < 1024 \<and> \<not> pid_used k (of_nat (Suc i)) \<and>
    (bitmap_set (vmem k) (pid_bitmap k) (of_nat i) 1 :: (kernel, bytes) res) = Inr m \<and>
    allocate_pid k = Inr (of_nat (Suc i), k\<lparr>vmem := m\<rparr>)"
proof -
  let ?b = "pid_bitmap k" and ?c = "running_thread k"
  let ?k1 = "k\<lparr>locks := (locks k)(Pid_lock := held_lock ?c)\<rparr>"
  note len = pids_ok_len [OF ok]
  from free obtain p where p: "pid_valid p" "\<not> pid_used k p" by blast
  then have "unat p - 1 < bm_len ?b" by (auto simp: len pid_valid_def word_le_nat_alt)
  from bm.scan_free [OF len(2) this, where 'a = kernel] p obtain i where
    i: "i < 1024" "(bitmap_scan (vmem k) ?b 1 :: (kernel, u32) res) = Inr (of_nat i)" "\<not> bm_bit (vmem k) ?b i"
    by (auto simp: len pid_used_def)
  obtain m where m: "(bitmap_set (vmem k) ?b (of_nat i) 1 :: (kernel, bytes) res) = Inr m"
    using bm.upd_ok by blast
  let ?k2 = "?k1\<lparr>vmem := m\<rparr>"
  have "running_thread ?k2 = ?c" by (simp add: running_thread_def)
  then have rel: "lock_release ?k2 Pid_lock = Inr (k\<lparr>vmem := m\<rparr>)"
    using lock_release_held [of ?k2 Pid_lock] lock(1) by (simp add: fun_upd_idem)
  have "allocate_pid k = Inr (of_nat (Suc i), k\<lparr>vmem := m\<rparr>)"
    using lock_acquire_free [OF lock] i(2) m rel ok pid_of_index(1) [OF i(1)]
    by (simp add: allocate_pid_def k_bitmap_set_def pids_ok_def)
  moreover have "\<not> pid_used k (of_nat (Suc i))" using i(3) pid_of_index(2) [OF i(1)] by (simp add: pid_used_def)
  ultimately show ?thesis using i(1) m by blast
qed

lemma pid_used_set:
  assumes ok: "pids_ok k" and i: "i < 1024" and p: "pid_valid p"
    and m: "(bitmap_set (vmem k) (pid_bitmap k) (of_nat i) v :: (kernel, bytes) res) = Inr m"
  shows "pid_used (k\<lparr>vmem := m\<rparr>) p \<longleftrightarrow> (if p = of_nat (Suc i) then v = 1 else pid_used k p)"
proof -
  have "unat p - 1 < bm_len (pid_bitmap k)" using p by (auto simp: pids_ok_len [OF ok] pid_valid_def word_le_nat_alt)
  from bm.upd_used [OF m this] have
    "bm_bit m (pid_bitmap k) (unat p - 1) \<longleftrightarrow> (if unat p - 1 = i then v = 1 else pid_used k p)"
    using i by (simp add: pid_used_def)
  moreover have "unat p - 1 = i \<longleftrightarrow> p = of_nat (Suc i)"
    using p pid_of_index(2) [OF i] unfolding word_unat_eq_iff pid_valid_def
    by (metis One_nat_def Suc_pred diff_Suc_1 less_eq_Suc_le unat_1 word_le_nat_alt)
  ultimately show ?thesis by (simp add: pid_used_def)
qed

text \<open>
  While an identifier is free \<open>allocate_pid\<close> returns one between 1 and 1024 that no process has and marks exactly
  it; when \<open>release_pid\<close> takes it back, the identifiers in use are as before. The lock of the pool is
  free again after both calls.
\<close>

theorem pid_roundtrip:
  assumes ok: "pids_ok k" and lock: "locks k Pid_lock = free_lock" "running_thread k \<noteq> NULL"
    and free: "\<exists>p. pid_valid p \<and> \<not> pid_used k p"
  shows "\<exists>p k1 k2. allocate_pid k = Inr (p, k1) \<and> pid_valid p \<and> \<not> pid_used k p \<and>
    (\<forall>q. pid_valid q \<longrightarrow> (pid_used k1 q \<longleftrightarrow> q = p \<or> pid_used k q)) \<and> locks k1 = locks k \<and>
    release_pid k1 p = Inr k2 \<and> (\<forall>q. pid_valid q \<longrightarrow> pid_used k2 q = pid_used k q) \<and> locks k2 = locks k"
proof -
  from allocate_pid_eq [OF assms] obtain i m where
    i: "i < 1024" "\<not> pid_used k (of_nat (Suc i))"
      "(bitmap_set (vmem k) (pid_bitmap k) (of_nat i) 1 :: (kernel, bytes) res) = Inr m"
      "allocate_pid k = Inr (of_nat (Suc i), k\<lparr>vmem := m\<rparr>)" by blast
  let ?k1 = "k\<lparr>vmem := m\<rparr>" and ?c = "running_thread k"
  have ok1: "pids_ok ?k1" using ok by (simp add: pids_ok_def)
  have r1: "locks ?k1 Pid_lock = free_lock" "running_thread ?k1 \<noteq> NULL" "running_thread ?k1 = ?c"
    using lock by (simp_all add: running_thread_def)
  obtain m2 where m2: "(bitmap_set m (pid_bitmap k) (of_nat i) 0 :: (kernel, bytes) res) = Inr m2"
    using bm.upd_ok by blast
  let ?k2 = "(?k1\<lparr>locks := (locks k)(Pid_lock := held_lock ?c)\<rparr>)\<lparr>vmem := m2\<rparr>"
  have "running_thread ?k2 = ?c" by (simp add: running_thread_def)
  then have "lock_release ?k2 Pid_lock = Inr (k\<lparr>vmem := m2\<rparr>)"
    using lock_release_held [of ?k2 Pid_lock] lock(1) by (simp add: fun_upd_idem)
  then have rel: "release_pid ?k1 (of_nat (Suc i)) = Inr (k\<lparr>vmem := m2\<rparr>)"
    using lock_acquire_free [OF r1(1,2)] r1(3) m2 ok pid_of_index(4) [OF i(1)]
    by (simp add: release_pid_def k_bitmap_set_def pids_ok_def del: of_nat_Suc)
  have u1: "pid_used ?k1 q \<longleftrightarrow> q = of_nat (Suc i) \<or> pid_used k q" if "pid_valid q" for q
    using pid_used_set [OF ok i(1) that i(3)] by auto
  have "(bitmap_set (vmem ?k1) (pid_bitmap ?k1) (of_nat i) 0 :: (kernel, bytes) res) = Inr m2" using m2 by simp
  from pid_used_set [OF ok1 i(1) _ this] u1 i(2)
  have u2: "pid_used (k\<lparr>vmem := m2\<rparr>) q = pid_used k q" if "pid_valid q" for q using that by auto
  show ?thesis
    by (intro exI [of _ "of_nat (Suc i)"] exI [of _ ?k1] exI [of _ "k\<lparr>vmem := m2\<rparr>"] conjI)
      (use i u1 u2 rel pid_of_index(3) [OF i(1)] in simp_all)
qed

section \<open>New threads\<close>

lemma kmem_ok_cong:
  assumes "kernel_vaddr k' = kernel_vaddr k" "kernel_pool k' = kernel_pool k" "user_pool k' = user_pool k"
    and "pmem k' = pmem k" "cr3 k' = cr3 k"
    and v: "\<And>x. x \<in> bm_region (vaddr_bitmap (kernel_vaddr k)) \<union> bm_region (pool_bitmap (kernel_pool k)) \<Longrightarrow> vmem k' x = vmem k x"
  shows "kmem_ok k \<Longrightarrow> kmem_ok k'" "n < vpages k \<Longrightarrow> vpage_used k' n = vpage_used k n" "vpages k' = vpages k"
    "vpage k' = vpage k"
proof -
  note pt = mmu_walk_cong [OF assms(4,5)] pt_cong [OF assms(4,5)] tables_ok_cong [OF assms(4,5)]
  show vp: "vpages k' = vpages k" "vpage k' = vpage k" by (simp_all add: vpages_def vpage_def fun_eq_iff assms(1))
  have fr: "frames k' = frames k" "frame_addr k' = frame_addr k"
    by (auto simp: fun_eq_iff frames_def frame_addr_def pool_of_def assms(2,3) split: pool_flags.splits)
  show vu: "vpage_used k' n = vpage_used k n" if "n < vpages k" for n
    using bm_bit_cong [of n "vaddr_bitmap (kernel_vaddr k)" "vmem k'" "vmem k"] that v
    by (simp add: vpage_used_def vpages_def assms(1))
  have fu: "frame_used k' PF_KERNEL n = frame_used k PF_KERNEL n" if "n < frames k PF_KERNEL" for n
    using that assms(2) v by (intro frame_used_cong) simp_all
  assume ok: "kmem_ok k"
  have "kheap_ok k'" "kbitmaps_ok k'"
    using ok by (simp_all add: kmem_ok_def kheap_ok_def kbitmaps_ok_def vp assms(1,2))
  moreover have "kmap_ok k'" using ok vu by (simp add: kmem_ok_def kmap_ok_def vp pt)
  moreover have "kframes_ok k'" using ok fu by (simp add: kmem_ok_def kframes_ok_def pools_ok_def fr pt assms(2,3))
  ultimately show "kmem_ok k'" by (simp add: kmem_ok_def)
qed

text \<open>The bitmap of the identifiers lies apart from the other bitmaps and from the heap.\<close>

definition pid_apart :: "kernel \<Rightarrow> bool" where
  "pid_apart k \<longleftrightarrow>
     bm_region (pid_bitmap k) \<inter>
       (bm_region (vaddr_bitmap (kernel_vaddr k)) \<union> bm_region (pool_bitmap (kernel_pool k))) = {} \<and>
     (\<forall>i < vpages k. \<forall>x \<in> bm_region (pid_bitmap k). page_of x \<noteq> vpage k i)"

definition threads_ok :: "kernel \<Rightarrow> bool" where
  "threads_ok k \<longleftrightarrow> distinct (thread_all_list k) \<and> inj_on (\<lambda>t. pid (tasks k t)) (set (thread_all_list k)) \<and>
     (\<forall>t \<in> set (thread_all_list k). pid_valid (pid (tasks k t)) \<and> pid_used k (pid (tasks k t))) \<and>
     (\<forall>i < vpages k. vpage k i \<in> set (thread_all_list k) \<longrightarrow> vpage_used k i)"

definition procs_ok :: "kernel \<Rightarrow> bool" where
  "procs_ok k \<longleftrightarrow> kmem_ok k \<and> pids_ok k \<and> pid_apart k \<and> threads_ok k \<and>
     main_thread k \<in> set (thread_all_list k)"

definition fresh_task :: "u32 \<Rightarrow> u16 \<Rightarrow> string \<Rightarrow> u32 \<Rightarrow> task_struct" where
  "fresh_task t p nm prio = zero_task
     \<lparr>self_kstack := t + PG_SIZE, pid := p, status := TASK_READY, name := nm, priority := ucast prio,
      ticks := ucast prio, fdtable := [0, 1, 2, - 1, - 1, - 1, - 1, - 1], parent_pid := - 1,
      stack_magic := 0x20000509\<rparr>"

lemma init_thread_eq:
  assumes ok: "pids_ok k" and lock: "locks k Pid_lock = free_lock" "running_thread k \<noteq> NULL"
    and free: "\<exists>p. pid_valid p \<and> \<not> pid_used k p" and t: "t \<noteq> NULL" "t \<noteq> main_thread k" "length nm < 16"
  shows "\<exists>i m. i < 1024 \<and> \<not> pid_used k (of_nat (Suc i)) \<and>
    (bitmap_set (vmem k) (pid_bitmap k) (of_nat i) 1 :: (kernel, bytes) res) = Inr m \<and>
    init_thread k t nm prio =
      Inr (k\<lparr>tasks := (tasks k)(t := fresh_task t (of_nat (Suc i)) nm prio), vmem := m\<rparr>)"
proof -
  let ?k = "upd_task k t (\<lambda>_. zero_task)"
  have "pids_ok ?k" "locks ?k Pid_lock = free_lock" "running_thread ?k \<noteq> NULL" "\<exists>p. pid_valid p \<and> \<not> pid_used ?k p"
    using ok lock free by (simp_all add: pids_ok_def pid_used_def upd_task_def running_thread_def)
  from allocate_pid_eq [OF this] obtain i m where
    i: "i < 1024" "\<not> pid_used ?k (of_nat (Suc i))"
      "(bitmap_set (vmem ?k) (pid_bitmap ?k) (of_nat i) 1 :: (kernel, bytes) res) = Inr m"
      "allocate_pid ?k = Inr (of_nat (Suc i), ?k\<lparr>vmem := m\<rparr>)" by blast
  have f: "[0, 1, 2] @ replicate 5 (- 1) = [0, 1, 2, - 1, - 1, - 1, - 1, - 1 :: u32]" by (simp add: numeral_eq_Suc)
  have "init_thread k t nm prio =
      Inr (k\<lparr>tasks := (tasks k)(t := fresh_task t (of_nat (Suc i)) nm prio), vmem := m\<rparr>)"
    unfolding init_thread_def f using i(4) t
    by (simp add: Let_def) (simp add: upd_task_def fresh_task_def zero_task_def)
  with i show ?thesis by (auto simp: pid_used_def upd_task_def)
qed

lemma stack_page: "page_of t = t \<Longrightarrow> page_of (t + 0xe50 + 16) = (t :: u32)"
  using page_add_page [of "0xe60" t] by (simp add: take_bit_eq_mod add.assoc)

definition thread_frame :: "u32 \<Rightarrow> u32 \<Rightarrow> u32 \<Rightarrow> thread_stack" where
  "thread_frame kt f a = zero_tstack\<lparr>ts_eip := kt, ts_function := f, ts_func_arg := a\<rparr>"

text \<open>The kernel after a thread was started in page \<open>t\<close>.\<close>

definition started :: "kernel \<Rightarrow> u32 \<Rightarrow> task_struct \<Rightarrow> bytes \<Rightarrow> thread_stack \<Rightarrow> kernel" where
  "started k t ts m fr =
     k\<lparr>tasks := (tasks k)(t := ts\<lparr>self_kstack := t + 0xe50\<rparr>), vmem := m,
       thread_stacks := (thread_stacks k)(t + 0xe50 := fr),
       thread_ready_list := thread_ready_list k @ [t], thread_all_list := thread_all_list k @ [t]\<rparr>"

lemma thread_create_eq:
  assumes "self_kstack (tasks k t) = t + PG_SIZE" "thread_stacks k (t + 0xe50) = zero_tstack"
  shows "thread_create k t kt f a =
    k\<lparr>tasks := (tasks k)(t := (tasks k t)\<lparr>self_kstack := t + 0xe50\<rparr>),
      thread_stacks := (thread_stacks k)(t + 0xe50 := thread_frame kt f a)\<rparr>"
  using assms
  by (simp add: thread_create_def Let_def upd_task_def thread_frame_def zero_tstack_def PG_SIZE_def
      sizeof_intr_stack_def sizeof_thread_stack_def add.commute [of 3664 t])

lemma new_page_pids:
  assumes ok: "procs_ok k" and i: "i < vpages k" and j: "j < frames k PF_KERNEL"
    and m: "(bitmap_set (vmem k) (vaddr_bitmap (kernel_vaddr k)) (of_nat i) 1 :: (kernel, bytes) res) = Inr m1"
      "(bitmap_set m1 (pool_bitmap (kernel_pool k)) (of_nat j) 1 :: (kernel, bytes) res) = Inr m2"
    and p: "pid_valid p"
  shows "pid_used (new_page k (vpage k i) pa m2) p = pid_used k p"
proof -
  let ?b = "pid_bitmap k"
  have ap: "pid_apart k" and wf: "bm_wf (vaddr_bitmap (kernel_vaddr k))" "bm_wf (pool_bitmap (kernel_pool k))"
    and pi: "pids_ok k"
    using ok by (simp_all add: procs_ok_def kmem_ok_def kheap_ok_def kframes_ok_def pools_ok_def)
  have len: "i < bm_len (vaddr_bitmap (kernel_vaddr k))" "j < bm_len (pool_bitmap (kernel_pool k))"
    using i j by (simp_all add: vpages_def frames_def pool_of_def)
  have "vmem (new_page k (vpage k i) pa m2) x = vmem k x" if "x \<in> bm_region ?b" for x
  proof -
    have "page_of x \<noteq> vpage k i" "x \<notin> bm_region (vaddr_bitmap (kernel_vaddr k))" "x \<notin> bm_region (pool_bitmap (kernel_pool k))"
      using ap i that by (auto simp: pid_apart_def)
    then show ?thesis
      using bitmap_set_outside [OF m(1) len(1) _ wf(1), of x] bitmap_set_outside [OF m(2) len(2) _ wf(2), of x]
      by (simp add: new_page_def)
  qed
  moreover have "unat p - 1 < bm_len ?b"
    using p by (auto simp: pids_ok_len [OF pi] pid_valid_def word_le_nat_alt)
  ultimately show ?thesis
    using bm_bit_cong [of "unat p - 1" ?b "vmem (new_page k (vpage k i) pa m2)" "vmem k"]
    by (simp add: pid_used_def)
qed

lemma thread_start_eq:
  assumes ok: "procs_ok k" and lock: "locks k Kernel_pool_lock = free_lock" "locks k Pid_lock = free_lock"
    and run: "running_thread k \<noteq> NULL" "set (thread_ready_list k) \<subseteq> set (thread_all_list k)"
    and free: "\<exists>i < vpages k. \<not> vpage_used k i" "\<exists>j < frames k PF_KERNEL. \<not> frame_used k PF_KERNEL j"
      "\<exists>p. pid_valid p \<and> \<not> pid_used k p" and nm: "length nm < 16"
  shows "\<exists>i j n m2 m3. i < vpages k \<and> \<not> vpage_used k i \<and> n < 1024 \<and> \<not> pid_used k (of_nat (Suc n)) \<and>
    (let t = vpage k i; k1 = new_page k t (frame_addr k PF_KERNEL j) m2
     in kmem_ok k1 \<and> (\<forall>p. pid_valid p \<longrightarrow> pid_used k1 p = pid_used k p) \<and>
        (\<forall>n < vpages k. vpage_used k1 n \<longleftrightarrow> n = i \<or> vpage_used k n) \<and>
        (bitmap_set (vmem k1) (pid_bitmap k) (of_nat n) 1 :: (kernel, bytes) res) = Inr m3 \<and>
        thread_start k nm prio kt f a =
          Inr (t, started k1 t (fresh_task t (of_nat (Suc n)) nm prio) m3 (thread_frame kt f a)))"
proof -
  have km: "kmem_ok k" and pi: "pids_ok k" and th: "threads_ok k" using ok by (simp_all add: procs_ok_def)
  then have kh: "kheap_ok k" by (simp add: kmem_ok_def)
  from get_kernel_page_eq [OF km lock(1) run(1) free(1,2)] obtain i j m1 m2 where
    i: "i < vpages k" "\<not> vpage_used k i" and j: "j < frames k PF_KERNEL" "\<not> frame_used k PF_KERNEL j"
    and m: "(bitmap_set (vmem k) (vaddr_bitmap (kernel_vaddr k)) (of_nat i) 1 :: (kernel, bytes) res) = Inr m1"
      "(bitmap_set m1 (pool_bitmap (kernel_pool k)) (of_nat j) 1 :: (kernel, bytes) res) = Inr m2"
    and eq: "get_kernel_pages k 1 = Inr (vpage k i, new_page k (vpage k i) (frame_addr k PF_KERNEL j) m2)"
    by blast
  let ?t = "vpage k i" and ?k1 = "new_page k (vpage k i) (frame_addr k PF_KERNEL j) m2"
  have t: "?t \<noteq> NULL" "page_of ?t = ?t" "?t \<notin> set (thread_all_list k)" "?t \<notin> set (thread_ready_list k)"
    "?t \<noteq> main_thread k"
    using vpage_unat [OF kh i(1)] th i run(2) ok by (auto simp: threads_ok_def procs_ok_def)
  note pids = new_page_pids [OF ok i(1) j(1) m]
  have "pids_ok ?k1" "locks ?k1 Pid_lock = free_lock" "running_thread ?k1 \<noteq> NULL"
    "\<exists>p. pid_valid p \<and> \<not> pid_used ?k1 p" "?t \<noteq> main_thread ?k1"
    using pi lock(2) run(1) free(3) pids t(5) by (auto simp: pids_ok_def)
  from init_thread_eq [OF this(1-4) t(1) this(5) nm, of prio] obtain n m3 where
    n: "n < 1024" "\<not> pid_used ?k1 (of_nat (Suc n))"
      "(bitmap_set (vmem ?k1) (pid_bitmap ?k1) (of_nat n) 1 :: (kernel, bytes) res) = Inr m3"
      "init_thread ?k1 ?t nm prio =
        Inr (?k1\<lparr>tasks := (tasks ?k1)(?t := fresh_task ?t (of_nat (Suc n)) nm prio), vmem := m3\<rparr>)" by blast
  let ?ts = "fresh_task ?t (of_nat (Suc n)) nm prio"
  let ?k2 = "?k1\<lparr>tasks := (tasks ?k1)(?t := ?ts), vmem := m3\<rparr>"
  have "page_of (?t + 0xe50) = ?t" using page_add_page [of "0xe50" ?t] t(2) by (simp add: take_bit_eq_mod)
  then have "thread_create ?k2 ?t kt f a =
      ?k2\<lparr>tasks := (tasks ?k2)(?t := (tasks ?k2 ?t)\<lparr>self_kstack := ?t + 0xe50\<rparr>),
          thread_stacks := (thread_stacks ?k2)(?t + 0xe50 := thread_frame kt f a)\<rparr>"
    by (intro thread_create_eq) (simp_all add: fresh_task_def new_page_def)
  then have "thread_start k nm prio kt f a = Inr (?t, started ?k1 ?t ?ts m3 (thread_frame kt f a))"
    using eq n(4) t(3,4)
    by (simp add: thread_start_def enlist_ready_def enlist_all_def kl_defs Let_def)
      (simp add: fresh_task_def zero_task_def started_def)
  moreover have "\<not> pid_used k (of_nat (Suc n))" using n(2) pids pid_of_index(3) [OF n(1)] by simp
  ultimately show ?thesis
    using i n new_page_kmem_ok [OF km i(1) j m] new_page_bits(1) [OF km i(1) j(1) m] pids
    by (intro exI [of _ i] exI [of _ j] exI [of _ n] exI [of _ m2] exI [of _ m3]) (simp add: Let_def del: of_nat_Suc)
qed

lemma started_fields [simp]:
  "thread_all_list (started k t ts m fr) = thread_all_list k @ [t]"
  "thread_ready_list (started k t ts m fr) = thread_ready_list k @ [t]"
  "tasks (started k t ts m fr) = (tasks k)(t := ts\<lparr>self_kstack := t + 0xe50\<rparr>)"
  "thread_stacks (started k t ts m fr) = (thread_stacks k)(t + 0xe50 := fr)"
  "pid_bitmap (started k t ts m fr) = pid_bitmap k" "pid_start (started k t ts m fr) = pid_start k"
  "kernel_vaddr (started k t ts m fr) = kernel_vaddr k" "kernel_pool (started k t ts m fr) = kernel_pool k"
  "user_pool (started k t ts m fr) = user_pool k" "pmem (started k t ts m fr) = pmem k"
  "cr3 (started k t ts m fr) = cr3 k" "main_thread (started k t ts m fr) = main_thread k"
  "vmem (started k t ts m fr) = m" "running_thread (started k t ts m fr) = running_thread k"
  "idle_thread (started k t ts m fr) = idle_thread k" "locks (started k t ts m fr) = locks k"
  by (simp_all add: started_def running_thread_def)

lemma threads_ok_new:
  assumes th: "threads_ok k" and t: "t \<notin> set (thread_all_list k)"
    and k': "thread_all_list k' = thread_all_list k @ [t]" "\<And>u. u \<noteq> t \<Longrightarrow> tasks k' u = tasks k u"
    and p: "pid (tasks k' t) = p" "pid_valid p" "\<not> pid_used k p"
      "\<And>q. pid_valid q \<Longrightarrow> pid_used k' q \<longleftrightarrow> q = p \<or> pid_used k q"
    and v: "vpages k' = vpages k" "vpage k' = vpage k"
      "\<And>n. n < vpages k \<Longrightarrow> vpage_used k' n \<longleftrightarrow> n = i \<or> vpage_used k n" "t = vpage k i"
      "\<And>n. n < vpages k \<Longrightarrow> vpage k n = vpage k i \<Longrightarrow> n = i"
  shows "threads_ok k'"
proof -
  have old: "tasks k' u = tasks k u" if "u \<in> set (thread_all_list k)" for u using k'(2) t that by metis
  have ne: "pid (tasks k u) \<noteq> p" if "u \<in> set (thread_all_list k)" for u
    using th p(3) that by (auto simp: threads_ok_def)
  have "inj_on (\<lambda>u. pid (tasks k' u)) (insert t (set (thread_all_list k)))"
  proof (rule inj_onI)
    fix u v assume uv: "u \<in> insert t (set (thread_all_list k))" "v \<in> insert t (set (thread_all_list k))"
      "pid (tasks k' u) = pid (tasks k' v)"
    have inj: "inj_on (\<lambda>u. pid (tasks k u)) (set (thread_all_list k))" using th by (simp add: threads_ok_def)
    show "u = v"
    proof (cases "u = t \<or> v = t")
      case True
      with uv old ne p(1) show ?thesis by (metis insert_iff)
    next
      case False
      with uv old inj_onD [OF inj] show ?thesis by simp
    qed
  qed
  moreover have "\<forall>u \<in> set (thread_all_list k'). pid_valid (pid (tasks k' u)) \<and> pid_used k' (pid (tasks k' u))"
    using th old p by (auto simp: threads_ok_def k'(1))
  ultimately show ?thesis
    using th t v by (auto simp: threads_ok_def k'(1))
qed

lemma sched_inv_start:
  assumes inv: "sched_inv T k" and t: "t \<notin> T" "t \<noteq> NULL" "page_of t = t"
    and k': "thread_ready_list k' = thread_ready_list k @ [t]" "running_thread k' = running_thread k"
      "idle_thread k' = idle_thread k" "\<And>u. u \<noteq> t \<Longrightarrow> tasks k' u = tasks k u"
      "self_kstack (tasks k' t) = t + 0xe50" "pgdir (tasks k' t) = NULL" "status (tasks k' t) = TASK_READY"
  shows "sched_inv (insert t T) k'"
proof -
  have old: "tasks k' u = tasks k u" if "u \<in> T" for u using k'(4) t(1) that by metis
  have "stacks_ok (insert t T) k'"
    using inv t old k'(2,5) stack_page [OF t(3)] by (auto simp: sched_inv_def stacks_ok_def)
  moreover have "\<forall>u \<in> insert t T. pgdir (tasks k' u) = NULL" using inv old k'(6) by (auto simp: sched_inv_def)
  moreover have "queue_inv (insert t T) (running_thread k') (thread_ready_list k') (statuses k') (idle_thread k')"
  proof -
    have st: "statuses k' u = statuses k u" if "u \<in> T" for u using old [OF that] by (simp add: statuses_def)
    have q: "queue_inv T (running_thread k) (thread_ready_list k) (statuses k) (idle_thread k)"
      using inv by (simp add: sched_inv_def)
    then have "idle_thread k \<in> T" "t \<notin> set (thread_ready_list k)" "running_thread k \<noteq> t" "running_thread k \<in> T"
      using t(1) by (auto simp: queue_inv_def)
    moreover have "statuses k' t = TASK_READY" using k'(7) by (simp add: statuses_def)
    ultimately show ?thesis using q st by (auto simp: queue_inv_def k'(1,2,3))
  qed
  ultimately show ?thesis by (simp add: sched_inv_def)
qed

text \<open>
  C14: \<open>thread_start\<close>, with a free page, frame and identifier, creates a thread that no list knew: it is last in
  both thread lists, ready, with a full time slice, an identifier no other thread has and a stack
  whose first \<open>switch_to\<close> enters \<open>kernel_thread(function, func_arg)\<close>. No other thread changes, and
  the invariants of the scheduler, the memory manager and the identifiers hold again.
\<close>

theorem thread_start_adds:
  assumes ok: "procs_ok k" "sched_inv (set (thread_all_list k)) k"
    and lock: "locks k Kernel_pool_lock = free_lock" "locks k Pid_lock = free_lock"
    and free: "\<exists>i < vpages k. \<not> vpage_used k i" "\<exists>j < frames k PF_KERNEL. \<not> frame_used k PF_KERNEL j"
      "\<exists>p. pid_valid p \<and> \<not> pid_used k p" and nm: "length nm < 16"
  shows "\<exists>t k'. thread_start k nm prio kt f a = Inr (t, k') \<and>
    t \<notin> set (thread_all_list k) \<and> thread_all_list k' = thread_all_list k @ [t] \<and>
    thread_ready_list k' = thread_ready_list k @ [t] \<and>
    status (tasks k' t) = TASK_READY \<and> ticks (tasks k' t) = ucast prio \<and> priority (tasks k' t) = ucast prio \<and>
    name (tasks k' t) = nm \<and> \<not> pid_used k (pid (tasks k' t)) \<and>
    thread_stacks k' (self_kstack (tasks k' t)) = thread_frame kt f a \<and>
    (\<forall>u. u \<noteq> t \<longrightarrow> tasks k' u = tasks k u) \<and> locks k' = locks k \<and>
    procs_ok k' \<and> sched_inv (set (thread_all_list k')) k'"
proof -
  have run: "running_thread k \<noteq> NULL" "set (thread_ready_list k) \<subseteq> set (thread_all_list k)"
    using ok(2) by (auto simp: sched_inv_def stacks_ok_def queue_inv_def)
  from thread_start_eq [OF ok(1) lock run free nm] obtain i j n m2 m3 where
    i: "i < vpages k" "\<not> vpage_used k i" and n: "n < 1024" "\<not> pid_used k (of_nat (Suc n))"
    and r: "let t = vpage k i; k1 = new_page k t (frame_addr k PF_KERNEL j) m2
     in kmem_ok k1 \<and> (\<forall>p. pid_valid p \<longrightarrow> pid_used k1 p = pid_used k p) \<and>
        (\<forall>n < vpages k. vpage_used k1 n \<longleftrightarrow> n = i \<or> vpage_used k n) \<and>
        (bitmap_set (vmem k1) (pid_bitmap k) (of_nat n) 1 :: (kernel, bytes) res) = Inr m3 \<and>
        thread_start k nm prio kt f a =
          Inr (t, started k1 t (fresh_task t (of_nat (Suc n)) nm prio) m3 (thread_frame kt f a))" by blast
  let ?t = "vpage k i" and ?k1 = "new_page k (vpage k i) (frame_addr k PF_KERNEL j) m2" and ?p = "of_nat (Suc n) :: u16"
  let ?k' = "started ?k1 ?t (fresh_task ?t ?p nm prio) m3 (thread_frame kt f a)"
  have kh: "kheap_ok k" and th: "threads_ok k" and pi: "pids_ok k" and ap: "pid_apart k"
    using ok(1) by (simp_all add: procs_ok_def kmem_ok_def)
  have m3: "(bitmap_set (vmem ?k1) (pid_bitmap ?k1) (of_nat n) 1 :: (kernel, bytes) res) = Inr m3"
    using r by (simp add: Let_def)
  have t: "?t \<notin> set (thread_all_list k)" using th i by (auto simp: threads_ok_def)
  note va = vpage_unat [OF kh i(1)]
  have same: "tasks ?k' u = tasks k u" if "u \<noteq> ?t" for u using that by simp
  have pid1: "pids_ok ?k1" using pi by (simp add: pids_ok_def)
  have len: "n < bm_len (pid_bitmap k)" using n(1) by (simp add: pids_ok_len [OF pi])
  have v: "vmem ?k' x = vmem ?k1 x"
    if "x \<in> bm_region (vaddr_bitmap (kernel_vaddr ?k1)) \<union> bm_region (pool_bitmap (kernel_pool ?k1))" for x
  proof -
    have "x \<notin> bm_region (pid_bitmap ?k1)" using that ap by (auto simp: pid_apart_def)
    from bitmap_set_outside [OF m3 _ this] len pids_ok_len(2) [OF pi] show ?thesis by simp
  qed
  have cong: "kmem_ok ?k1 \<Longrightarrow> kmem_ok ?k'" "\<And>n. n < vpages ?k1 \<Longrightarrow> vpage_used ?k' n = vpage_used ?k1 n"
    "vpages ?k' = vpages k" "vpage ?k' = vpage k"
    using kmem_ok_cong [of ?k' ?k1, OF _ _ _ _ _ v] by simp_all
  have pu: "pid_used ?k' q \<longleftrightarrow> q = ?p \<or> pid_used k q" if "pid_valid q" for q
    using pid_used_set [OF pid1 n(1) that m3] r that by (simp add: Let_def pid_used_def del: of_nat_Suc)
  have "threads_ok ?k'"
  proof (rule threads_ok_new [OF th t])
    show "vpage_used ?k' n \<longleftrightarrow> n = i \<or> vpage_used k n" if "n < vpages k" for n
      using cong(2) [of n] r that by (simp add: Let_def)
  qed (use same pu cong(3,4) n pid_of_index(3) [OF n(1)] vpage_inj [OF kh _ i(1)] in \<open>simp_all add: fresh_task_def del: of_nat_Suc\<close>)
  moreover have "kmem_ok ?k'" using cong(1) r by (simp add: Let_def)
  moreover have "pids_ok ?k'" "pid_apart ?k'" using pi ap cong(3,4) by (simp_all add: pids_ok_def pid_apart_def)
  ultimately have "procs_ok ?k'" using ok(1) by (simp add: procs_ok_def)
  moreover have "sched_inv (insert ?t (set (thread_all_list k))) ?k'"
    by (rule sched_inv_start [OF ok(2) t va(4,3)]) (simp_all add: fresh_task_def zero_task_def)
  ultimately show ?thesis
    using r t n(2) by (intro exI [of _ ?t] exI [of _ ?k']) (simp add: Let_def fresh_task_def del: of_nat_Suc)
qed

text \<open>
  Looking a thread up: while the identifiers are distinct, \<open>pid_to_thread\<close> finds the thread of an
  identifier, and nothing for one that no thread has.
\<close>

lemma pid_to_thread_found:
  assumes th: "threads_ok k" and t: "t \<in> set (thread_all_list k)"
  shows "pid_to_thread k (ucast (pid (tasks k t))) = t"
proof -
  let ?p = "pid (tasks k t)"
  have c: "ucast (ucast ?p :: u32) = ?p" by (rule bit_eqI) (auto simp: bit_simps)
  obtain u where u: "find (check_pid k ?p) (thread_all_list k) = Some u"
    using t by (cases "find (check_pid k ?p) (thread_all_list k)") (auto simp: find_None_iff check_pid_def)
  then have "u \<in> set (thread_all_list k)" "pid (tasks k u) = ?p" by (auto simp: find_Some_iff check_pid_def)
  then have "u = t" using th t by (auto simp: threads_ok_def dest: inj_onD)
  with u c show ?thesis by (simp add: pid_to_thread_def)
qed

lemma pid_to_thread_none:
  assumes "\<forall>t \<in> set (thread_all_list k). pid (tasks k t) \<noteq> ucast p"
  shows "pid_to_thread k p = NULL"
proof -
  have "find (check_pid k (ucast p)) (thread_all_list k) = None"
    using assms by (auto simp: find_None_iff check_pid_def)
  then show ?thesis by (simp add: pid_to_thread_def)
qed

section \<open>Examples\<close>

definition proc_task :: "u32 \<Rightarrow> task_struct" where
  "proc_task t = (demo_task t)
     \<lparr>pid := (if t = 0xc009e000 then 1 else if t = 0xc0101000 then 2 else if t = 0xc0102000 then 3 else 0)\<rparr>"

definition proc_kernel :: kernel where
  "proc_kernel = heap_kernel
     \<lparr>vmem := (vmem heap_kernel)(0xc0098000 := 7), tasks := proc_task,
      thread_all_list := [0xc009e000, 0xc0101000, 0xc0102000], main_thread := 0xc009e000\<rparr>"

lemma proc_kernel_fields:
  "tasks proc_kernel = proc_task" "thread_all_list proc_kernel = [0xc009e000, 0xc0101000, 0xc0102000]"
  "main_thread proc_kernel = 0xc009e000" "vmem proc_kernel = (\<lambda>_. 0)(0xc009a004 := 6, 0xc0098000 := 7)"
  "locks proc_kernel l = free_lock" "running_thread proc_kernel = 0xc009e000"
  "vpages proc_kernel = 16" "frames proc_kernel PF_KERNEL = 16"
  "pid_bitmap proc_kernel = \<lparr>btmp_bytes_len = 128, bits = 0xc0098000\<rparr>" "pid_start proc_kernel = 1"
  "thread_ready_list proc_kernel = [0xc0101000, 0xc0102000]" "idle_thread proc_kernel = 0xc0102000"
  "vpage proc_kernel = vpage heap_kernel"
  using heap_kernel_fields(7) [of l]
  by (simp_all add: proc_kernel_def heap_kernel_def demo_kernel_def boot_kernel_def running_thread_def
      vpages_def frames_def pool_of_def bm_len_def vpage_def fun_eq_iff)

lemma proc_kernel_mem: "kmem_ok proc_kernel"
proof -
  have "vmem proc_kernel x = vmem heap_kernel x"
    if "x \<in> bm_region (vaddr_bitmap (kernel_vaddr heap_kernel)) \<union> bm_region (pool_bitmap (kernel_pool heap_kernel))" for x
    using that by (auto simp: proc_kernel_def heap_kernel_def bm_region_def region_2)
  from kmem_ok_cong(1) [OF _ _ _ _ _ this heap_kernel_ok] show ?thesis by (simp add: proc_kernel_def)
qed

lemma proc_kernel_pids: "pids_ok proc_kernel" "\<exists>p. pid_valid p \<and> \<not> pid_used proc_kernel p"
proof -
  show "pids_ok proc_kernel" by (simp add: pids_ok_def proc_kernel_fields)
  have "pid_valid 4 \<and> \<not> pid_used proc_kernel 4" by code_simp
  then show "\<exists>p. pid_valid p \<and> \<not> pid_used proc_kernel p" by blast
qed

lemma proc_kernel_apart: "pid_apart proc_kernel"
proof -
  have pg: "page_of x = 0xc0098000" if "x \<in> bm_region (pid_bitmap proc_kernel)" for x
  proof -
    from that obtain i where i: "x = 0xc0098000 + of_nat i" "i < 128"
      by (auto simp: bm_region_def region_def proc_kernel_fields)
    have "list_all (\<lambda>i. page_of (0xc0098000 + of_nat i) = 0xc0098000) [0..<128]" by code_simp
    with i show ?thesis by (simp add: list_all_iff)
  qed
  have "page_of y \<noteq> 0xc0098000"
    if "y \<in> bm_region (vaddr_bitmap (kernel_vaddr proc_kernel)) \<union> bm_region (pool_bitmap (kernel_pool proc_kernel))" for y
  proof -
    have "y \<in> {0xc009a004, 0xc009a005, 0xc009a000, 0xc009a001}"
      using that by (auto simp: proc_kernel_def heap_kernel_def bm_region_def region_2)
    moreover have "list_all (\<lambda>y. page_of y \<noteq> 0xc0098000) [0xc009a004, 0xc009a005, 0xc009a000, 0xc009a001]" by code_simp
    ultimately show ?thesis by auto
  qed
  moreover have "list_all (\<lambda>i. vpage proc_kernel i \<noteq> 0xc0098000) [0..<16]" by code_simp
  ultimately show ?thesis using pg unfolding pid_apart_def by (auto simp: proc_kernel_fields(7) list_all_iff)
qed

lemma proc_kernel_procs: "procs_ok proc_kernel"
proof -
  have "pid_used proc_kernel 1 \<and> pid_used proc_kernel 2 \<and> pid_used proc_kernel 3" by code_simp
  moreover have "list_all (\<lambda>i. vpage proc_kernel i \<in> set [0xc009e000, 0xc0101000, 0xc0102000] \<longrightarrow> vpage_used proc_kernel i) [0..<16]"
    by code_simp
  ultimately have "threads_ok proc_kernel"
    unfolding threads_ok_def proc_kernel_fields
    by (simp add: proc_task_def pid_valid_def list_all_iff)
  with proc_kernel_mem proc_kernel_pids proc_kernel_apart show ?thesis
    by (simp add: procs_ok_def proc_kernel_fields)
qed

lemma proc_kernel_sched: "sched_inv (set (thread_all_list proc_kernel)) proc_kernel"
  using demo_inv(1)
  by (auto simp: sched_inv_def stacks_ok_def proc_kernel_fields demo_threads_def proc_task_def statuses_def
      queue_inv_def demo_task_def zero_task_def)

lemma proc_kernel_free:
  "\<exists>i < vpages proc_kernel. \<not> vpage_used proc_kernel i"
  "\<exists>j < frames proc_kernel PF_KERNEL. \<not> frame_used proc_kernel PF_KERNEL j"
proof -
  have "0 < vpages proc_kernel \<and> \<not> vpage_used proc_kernel 0" by code_simp
  then show "\<exists>i < vpages proc_kernel. \<not> vpage_used proc_kernel i" by blast
  have "0 < frames proc_kernel PF_KERNEL \<and> \<not> frame_used proc_kernel PF_KERNEL 0" by code_simp
  then show "\<exists>j < frames proc_kernel PF_KERNEL. \<not> frame_used proc_kernel PF_KERNEL j" by blast
qed

theorem pid_roundtrip_witness:
  "\<exists>p k1 k2. allocate_pid proc_kernel = Inr (p, k1) \<and> \<not> pid_used proc_kernel p \<and> release_pid k1 p = Inr k2"
  using pid_roundtrip [of proc_kernel, OF proc_kernel_pids(1) _ _ proc_kernel_pids(2)]
  by (auto simp: proc_kernel_fields)

theorem thread_start_adds_witness:
  "\<exists>t k'. thread_start proc_kernel ''idle'' 10 0xc0002000 0xc0003000 0 = Inr (t, k') \<and>
     t \<notin> {0xc009e000, 0xc0101000, 0xc0102000} \<and> procs_ok k' \<and> sched_inv (set (thread_all_list k')) k'"
proof -
  have l: "locks proc_kernel Kernel_pool_lock = free_lock" "locks proc_kernel Pid_lock = free_lock"
    by (simp_all add: proc_kernel_fields)
  have "length ''idle'' < 16" by simp
  from thread_start_adds [OF proc_kernel_procs proc_kernel_sched l proc_kernel_free proc_kernel_pids(2) this,
      of 10 "0xc0002000" "0xc0003000" 0]
  show ?thesis by (auto simp: proc_kernel_fields)
qed

end
