(* ===== verification/Segments.thy ===== *)
theory Segments
  imports Paging
begin

unbundle bit_operations_syntax

text \<open>
  \<^verbatim>\<open>kernel/tss.c\<close> and the segment constants of \<^verbatim>\<open>include/kernel/global.h\<close>: the task state segment and
  the three descriptors that \<open>tss_init\<close> adds to the GDT, which the kernel reaches at the address
  \<open>0xc0000900\<close>. \<open>seg_base\<close>, \<open>seg_limit\<close> and the others read a descriptor the way the processor
  does.
\<close>

section \<open>Definitions\<close>

definition DESC_G_4K :: u8 where "DESC_G_4K = 1"
definition DESC_D_32 :: u8 where "DESC_D_32 = 1"
definition DESC_L :: u8 where "DESC_L = 0"
definition DESC_AVL :: u8 where "DESC_AVL = 0"
definition DESC_P :: u8 where "DESC_P = 1"
definition DESC_DPL_0 :: u8 where "DESC_DPL_0 = 0"
definition DESC_DPL_3 :: u8 where "DESC_DPL_3 = 3"
definition DESC_S_CODE :: u8 where "DESC_S_CODE = 1"
definition DESC_S_DATA :: u8 where "DESC_S_DATA = DESC_S_CODE"
definition DESC_S_SYS :: u8 where "DESC_S_SYS = 0"
definition DESC_TYPE_CODE :: u8 where "DESC_TYPE_CODE = 8"
definition DESC_TYPE_DATA :: u8 where "DESC_TYPE_DATA = 2"
definition DESC_TYPE_TSS :: u8 where "DESC_TYPE_TSS = 9"
definition TSS_DESC_D :: u8 where "TSS_DESC_D = 0"

definition GDT_ATTR_HIGH :: u8 where
  "GDT_ATTR_HIGH = push_bit 7 DESC_G_4K + push_bit 6 DESC_D_32 + push_bit 5 DESC_L + push_bit 4 DESC_AVL"

definition GDT_CODE_ATTR_LOW_DPL3 :: u8 where
  "GDT_CODE_ATTR_LOW_DPL3 = push_bit 7 DESC_P + push_bit 5 DESC_DPL_3 + push_bit 4 DESC_S_CODE + DESC_TYPE_CODE"

definition GDT_DATA_ATTR_LOW_DPL3 :: u8 where
  "GDT_DATA_ATTR_LOW_DPL3 = push_bit 7 DESC_P + push_bit 5 DESC_DPL_3 + push_bit 4 DESC_S_DATA + DESC_TYPE_DATA"

definition TSS_ATTR_HIGH :: u8 where
  "TSS_ATTR_HIGH = push_bit 7 DESC_G_4K + push_bit 6 TSS_DESC_D + push_bit 5 DESC_L + push_bit 4 DESC_AVL + 0"

definition TSS_ATTR_LOW :: u8 where
  "TSS_ATTR_LOW = push_bit 7 DESC_P + push_bit 5 DESC_DPL_0 + push_bit 4 DESC_S_SYS + DESC_TYPE_TSS"

definition SELECTOR_K_DATA :: u16 where "SELECTOR_K_DATA = push_bit 3 2 + push_bit 2 0 + 0"
definition SELECTOR_K_STACK :: u16 where "SELECTOR_K_STACK = SELECTOR_K_DATA"
definition SELECTOR_TSS :: u16 where "SELECTOR_TSS = push_bit 3 4 + push_bit 2 0 + 0"
definition SELECTOR_U_CODE :: u16 where "SELECTOR_U_CODE = push_bit 3 5 + push_bit 2 0 + 3"
definition SELECTOR_U_DATA :: u16 where "SELECTOR_U_DATA = push_bit 3 6 + push_bit 2 0 + 3"

definition make_gdt_desc :: "u32 \<Rightarrow> u32 \<Rightarrow> u8 \<Rightarrow> u8 \<Rightarrow> gdt_desc" where
  "make_gdt_desc desc_addr limit attr_low attr_high =
     (let desc_base = desc_addr
      in \<lparr>limit_low_word = ucast (limit AND 0x0000ffff),
          base_low_word = ucast (desc_base AND 0x0000ffff),
          base_mid_byte = ucast (drop_bit 16 (desc_base AND 0x00ff0000)),
          attr_low_byte = attr_low,
          limit_high_attr_high = ucast (drop_bit 16 (limit AND 0x000f0000) + ucast attr_high),
          base_high_byte = ucast (drop_bit 24 desc_base)\<rparr>)"

text \<open>The size of \<open>struct TSS\<close>, and \<open>tss_init\<close> with the address of \<open>tss\<close>.\<close>

definition tss_size :: u32 where
  "tss_size = 27 * 4"

definition tss_init :: "kernel \<Rightarrow> u32 \<Rightarrow> kernel" where
  "tss_init k tss_addr =
     (let k = k\<lparr>tss := zero_tss\<lparr>tss_ss0 := ucast SELECTOR_K_STACK, tss_io_base := tss_size\<rparr>\<rparr>;
          k = k\<lparr>gdt := (gdt k)
            (0xc0000920 := make_gdt_desc tss_addr (tss_size - 1) TSS_ATTR_LOW TSS_ATTR_HIGH,
             0xc0000928 := make_gdt_desc 0 0xfffff GDT_CODE_ATTR_LOW_DPL3 GDT_ATTR_HIGH,
             0xc0000930 := make_gdt_desc 0 0xfffff GDT_DATA_ATTR_LOW_DPL3 GDT_ATTR_HIGH)\<rparr>
      in k\<lparr>gdtr := (8 * 7 - 1) OR push_bit 16 (ucast (0xc0000900 :: u32)), task_reg := SELECTOR_TSS\<rparr>)"

section \<open>Reading descriptors\<close>

definition seg_base :: "gdt_desc \<Rightarrow> u32" where
  "seg_base d = ucast (base_low_word d) OR push_bit 16 (ucast (base_mid_byte d)) OR
     push_bit 24 (ucast (base_high_byte d))"

definition seg_limit :: "gdt_desc \<Rightarrow> u32" where
  "seg_limit d =
     (let raw = ucast (limit_low_word d) OR push_bit 16 (ucast (limit_high_attr_high d AND 0xf))
      in if bit (limit_high_attr_high d) 7 then push_bit 12 raw OR 0xfff else raw)"

definition seg_dpl :: "gdt_desc \<Rightarrow> nat" where
  "seg_dpl d = unat (drop_bit 5 (attr_low_byte d) AND 3)"

definition seg_present :: "gdt_desc \<Rightarrow> bool" where
  "seg_present d \<longleftrightarrow> bit (attr_low_byte d) 7"

text \<open>The type of a segment with its \<open>S\<close> bit above it.\<close>

definition seg_type :: "gdt_desc \<Rightarrow> u8" where
  "seg_type d = attr_low_byte d AND 0x1f"

text \<open>The descriptor a selector names in the table that \<open>gdtr\<close> gives.\<close>

definition seg_lookup :: "kernel \<Rightarrow> u16 \<Rightarrow> gdt_desc option" where
  "seg_lookup k sel =
     (if bit sel 2 \<or> unat (ucast (gdtr k) :: u16) < unat (drop_bit 3 sel) * 8 + 7 then None
      else Some (gdt k (ucast (drop_bit 16 (gdtr k)) + ucast (drop_bit 3 sel) * 8)))"

lemma seg_base_make: "seg_base (make_gdt_desc b l lo hi) = b"
proof -
  have m: "(0x0000ffff :: u32) = mask 16" "(0x00ff0000 :: u32) = push_bit 16 (mask 8)"
    by (simp_all add: mask_eq_exp_minus_1)
  have "bit (seg_base (make_gdt_desc b l lo hi)) n = bit b n" if n: "n < 32" for n
  proof -
    consider "n < 16" | "16 \<le> n" "n < 24" "n - 16 < 8" | "24 \<le> n" "n - 24 < 8" using n by fastforce
    then show ?thesis
      using n unfolding seg_base_def make_gdt_desc_def Let_def gdt_desc.select_convs m
      by cases (auto simp: bit_simps)
  qed
  then show ?thesis by (intro bit_eqI) simp
qed

lemma attr_values:
  "GDT_ATTR_HIGH = 0xc0" "GDT_CODE_ATTR_LOW_DPL3 = 0xf8" "GDT_DATA_ATTR_LOW_DPL3 = 0xf2"
  "TSS_ATTR_HIGH = 0x80" "TSS_ATTR_LOW = 0x89" "SELECTOR_K_STACK = 0x10" "SELECTOR_TSS = 0x20"
  "SELECTOR_U_CODE = 0x2b" "SELECTOR_U_DATA = 0x33" "tss_size = 108"
  by (simp_all add: GDT_ATTR_HIGH_def GDT_CODE_ATTR_LOW_DPL3_def GDT_DATA_ATTR_LOW_DPL3_def TSS_ATTR_HIGH_def
      TSS_ATTR_LOW_def DESC_G_4K_def DESC_D_32_def DESC_L_def DESC_AVL_def DESC_P_def DESC_DPL_0_def
      DESC_DPL_3_def DESC_S_CODE_def DESC_S_DATA_def DESC_S_SYS_def DESC_TYPE_CODE_def DESC_TYPE_DATA_def
      DESC_TYPE_TSS_def TSS_DESC_D_def SELECTOR_K_DATA_def SELECTOR_K_STACK_def SELECTOR_TSS_def
      SELECTOR_U_CODE_def SELECTOR_U_DATA_def tss_size_def)

text \<open>
  After \<open>tss_init\<close> the user selectors name present ring-3 code and data segments over the whole
  address space, and the task register names a present ring-0 TSS at the address of \<open>tss\<close>, whose
  ring-0 stack segment is the kernel's. The segment is 4 KB granular, so its limit is far above
  \<open>io_base\<close>: the words behind \<open>tss\<close> act as an I/O permission map.
\<close>

theorem tss_init_segments:
  "\<exists>c d t. seg_lookup (tss_init k a) SELECTOR_U_CODE = Some c \<and> seg_lookup (tss_init k a) SELECTOR_U_DATA = Some d \<and>
     seg_lookup (tss_init k a) (task_reg (tss_init k a)) = Some t \<and>
     seg_present c \<and> seg_dpl c = 3 \<and> seg_base c = 0 \<and> seg_limit c = 0xffffffff \<and> seg_type c = 0x18 \<and>
     seg_present d \<and> seg_dpl d = 3 \<and> seg_base d = 0 \<and> seg_limit d = 0xffffffff \<and> seg_type d = 0x12 \<and>
     seg_present t \<and> seg_dpl t = 0 \<and> seg_base t = a \<and> seg_type t = 9 \<and>
     tss_ss0 (tss (tss_init k a)) = ucast SELECTOR_K_STACK \<and>
     seg_limit t = 0x6bfff \<and> tss_io_base (tss (tss_init k a)) < seg_limit t"
proof -
  let ?k = "tss_init k a"
  have g: "ucast (gdtr ?k) = (55 :: u16)" "ucast (drop_bit 16 (gdtr ?k)) = (0xc0000900 :: u32)"
    by (simp_all add: tss_init_def Let_def)
  have l: "seg_lookup ?k SELECTOR_U_CODE = Some (make_gdt_desc 0 0xfffff 0xf8 0xc0)"
    "seg_lookup ?k SELECTOR_U_DATA = Some (make_gdt_desc 0 0xfffff 0xf2 0xc0)"
    "seg_lookup ?k (task_reg ?k) = Some (make_gdt_desc a 107 0x89 0x80)"
    unfolding seg_lookup_def g by (simp_all add: tss_init_def Let_def attr_values bit_numeral_rec)
  have s: "tss_ss0 (tss ?k) = ucast SELECTOR_K_STACK" "tss_io_base (tss ?k) = 108"
    by (simp_all add: tss_init_def Let_def attr_values)
  have user: "seg_present (make_gdt_desc 0 0xfffff x 0xc0) \<and> seg_dpl (make_gdt_desc 0 0xfffff x 0xc0) = 3 \<and>
      seg_limit (make_gdt_desc 0 0xfffff x 0xc0) = 0xffffffff \<and> seg_type (make_gdt_desc 0 0xfffff x 0xc0) = x AND 0x1f"
    if "x = 0xf8 \<or> x = 0xf2" for x
    using that by (auto simp: seg_present_def seg_dpl_def seg_limit_def seg_type_def make_gdt_desc_def Let_def
        bit_numeral_rec)
  have sys: "seg_present (make_gdt_desc a 107 0x89 0x80)" "seg_dpl (make_gdt_desc a 107 0x89 0x80) = 0"
    "seg_limit (make_gdt_desc a 107 0x89 0x80) = 0x6bfff" "seg_type (make_gdt_desc a 107 0x89 0x80) = 9"
    by (simp_all add: seg_present_def seg_dpl_def seg_limit_def seg_type_def make_gdt_desc_def Let_def
        bit_numeral_rec)
  show ?thesis unfolding l s by (simp add: seg_base_make user sys)
qed

end
