(* ===== verification/Process.thy ===== *)
theory Process
  imports Thread Segments
begin

unbundle bit_operations_syntax

text \<open>
  User processes: \<^verbatim>\<open>user/process.c\<close> without the parts in theory \<open>Paging\<close>, and
  \<open>thread_init\<close> of \<^verbatim>\<open>kernel/thread.c\<close>, which starts the first process. The theorem
  is about the page directory of a new process.
\<close>

definition USER_STACK3_VADDR :: u32 where "USER_STACK3_VADDR = 0xc0000000 - 0x1000"
definition USER_VADDR_START :: u32 where "USER_VADDR_START = 0x8048000"
definition default_prio :: u32 where "default_prio = 31"
definition PG_US_S :: u32 where "PG_US_S = 0"
definition EFLAGS_MBS :: u32 where "EFLAGS_MBS = push_bit 1 1"
definition EFLAGS_IF_1 :: u32 where "EFLAGS_IF_1 = push_bit 9 1"
definition EFLAGS_IOPL_0 :: u32 where "EFLAGS_IOPL_0 = push_bit 12 0"

text \<open>
  \<open>start_process\<close> ends with a jump to \<open>intr_exit\<close>, which loads the registers from the frame
  on top of the kernel stack and returns to privilege level 3: the result is that frame.
\<close>

definition start_process :: "kernel \<Rightarrow> u32 \<Rightarrow> (intr_stack \<times> kernel) kres" where
  "start_process k filename =
     (let cur = running_thread k;
          k = upd_task k cur (\<lambda>t. t\<lparr>self_kstack := self_kstack t + 4 * sizeof_thread_stack\<rparr>);
          sp = self_kstack (tasks k cur);
          frame = (intr_stacks k sp)
            \<lparr>is_edi := 0, is_esi := 0, is_ebp := 0, is_esp_dummy := 0,
             is_ebx := 0, is_edx := 0, is_ecx := 0, is_eax := 0, is_gs := 0,
             is_fs := ucast SELECTOR_U_DATA, is_es := ucast SELECTOR_U_DATA, is_ds := ucast SELECTOR_U_DATA,
             is_eip := filename, is_cs := ucast SELECTOR_U_CODE,
             is_eflags := EFLAGS_IOPL_0 OR EFLAGS_MBS OR EFLAGS_IF_1\<rparr>;
          k = k\<lparr>intr_stacks := (intr_stacks k)(sp := frame)\<rparr>
      in bnd (get_a_page k PF_USER USER_STACK3_VADDR) (\<lambda>(page, k).
         let frame = frame\<lparr>is_esp := page + PG_SIZE, is_ss := ucast SELECTOR_U_DATA\<rparr>
         in Inr (frame, k\<lparr>intr_stacks := (intr_stacks k)(sp := frame), esp := sp\<rparr>)))"

text \<open>\<open>memcpy\<close> between page directories, word by word.\<close>

fun copy_words :: "kernel \<Rightarrow> u32 \<Rightarrow> u32 \<Rightarrow> nat \<Rightarrow> kernel kres" where
  "copy_words k d s 0 = Inr k"
| "copy_words k d s (Suc n) =
     bnd (vread32 k s) (\<lambda>v. bnd (vwrite32 k d v) (\<lambda>k. copy_words k (d + 4) (s + 4) n))"

definition create_page_dir :: "kernel \<Rightarrow> (u32 \<times> kernel) kres" where
  "create_page_dir k =
     bnd (get_kernel_pages k 1) (\<lambda>(page_dir_vaddr, k).
     if page_dir_vaddr = NULL then Inr (NULL, k)
     else bnd (copy_words k (page_dir_vaddr + 0x300 * 4) (0xfffff000 + 0x300 * 4) (1024 div 4)) (\<lambda>k.
          bnd (addr_v2p k page_dir_vaddr) (\<lambda>page_dir_phyaddr.
          bnd (vwrite32 k (page_dir_vaddr + 4 * 1023) (page_dir_phyaddr OR PG_US_S OR PG_RW_W OR PG_P_1)) (\<lambda>k.
          Inr (page_dir_vaddr, k)))))"

definition create_user_vaddr_bitmap :: "kernel \<Rightarrow> u32 \<Rightarrow> kernel kres" where
  "create_user_vaddr_bitmap k user_prog =
     (let k = upd_task k user_prog (\<lambda>t. t\<lparr>userprog_vaddr := (userprog_vaddr t)\<lparr>vaddr_start := USER_VADDR_START\<rparr>\<rparr>);
          bitmap_pg_cnt = DIV_ROUND_UP ((0xc0000000 - USER_VADDR_START) div PG_SIZE div 8) PG_SIZE
      in bnd (get_kernel_pages k bitmap_pg_cnt) (\<lambda>(p, k).
         let b = \<lparr>btmp_bytes_len = (0xc0000000 - USER_VADDR_START) div PG_SIZE div 8, bits = p\<rparr>;
             k = upd_task k user_prog (\<lambda>t. t\<lparr>userprog_vaddr := (userprog_vaddr t)\<lparr>vaddr_bitmap := b\<rparr>\<rparr>)
         in k_bitmap_init k b))"

definition process_execute :: "kernel \<Rightarrow> u32 \<Rightarrow> u32 \<Rightarrow> u32 \<Rightarrow> string \<Rightarrow> kernel kres" where
  "process_execute k kernel_thread_addr start_process_addr filename nm =
     bnd (get_kernel_pages k 1) (\<lambda>(thread, k).
     bnd (init_thread k thread nm default_prio) (\<lambda>k.
     bnd (create_user_vaddr_bitmap k thread) (\<lambda>k.
     let k = thread_create k thread kernel_thread_addr start_process_addr filename
     in bnd (create_page_dir k) (\<lambda>(dir, k).
        let k = upd_task k thread (\<lambda>t. t\<lparr>pgdir := dir\<rparr>);
            k = upd_task k thread (\<lambda>t. t\<lparr>u_block_desc := block_desc_init\<rparr>);
            (old_status, k) = k_intr_disable k
        in bnd (kl_find (thread_all_list k) thread) (\<lambda>found.
           bnd (ASSERT (\<not> found) ''!elem_find(&thread_all_list)'') (\<lambda>_.
           bnd (kl_find (thread_ready_list k) thread) (\<lambda>found.
           bnd (ASSERT (\<not> found) ''!elem_find(&thread_ready_list)'') (\<lambda>_.
           bnd (kl_append (thread_all_list k) thread) (\<lambda>all.
           bnd (kl_append (thread_ready_list k) thread) (\<lambda>ready.
             Inr (k_intr_set_status (k\<lparr>thread_all_list := all, thread_ready_list := ready\<rparr>) old_status)))))))))))"

text \<open>
  The addresses of \<open>init\<close>, \<open>idle\<close> and the other entry points, and of the bitmap of the
  identifiers, come from the linker.
\<close>

definition thread_init :: "kernel \<Rightarrow> u32 \<Rightarrow> u32 \<Rightarrow> u32 \<Rightarrow> u32 \<Rightarrow> u32 \<Rightarrow> kernel kres" where
  "thread_init k pid_bitmap_bits kernel_thread_addr start_process_addr init idle =
     (let k = k\<lparr>thread_ready_list := [], thread_all_list := []\<rparr>
      in bnd (pid_pool_init k pid_bitmap_bits) (\<lambda>k.
         bnd (process_execute k kernel_thread_addr start_process_addr init ''init'') (\<lambda>k.
         bnd (make_main_thread k) (\<lambda>k.
         bnd (thread_start k ''idle'' 10 kernel_thread_addr idle NULL) (\<lambda>(t, k).
           Inr (k\<lparr>idle_thread := t\<rparr>))))))"

section \<open>The page directory of a process\<close>

text \<open>Writing to a frame that is neither the directory nor a page table changes no translation.\<close>

lemma frame_write:
  assumes f: "unused_frame k f" and out: "\<And>a. page_of a \<noteq> page_of f \<Longrightarrow> pm a = pmem k a"
  shows "pmem (k\<lparr>pmem := pm\<rparr>) (pde_addr k va) = pmem k (pde_addr k va)"
    "pde_present (k\<lparr>pmem := pm\<rparr>) = pde_present k" "pte_addr (k\<lparr>pmem := pm\<rparr>) = pte_addr k"
    "pde_addr (k\<lparr>pmem := pm\<rparr>) = pde_addr k"
    "mmu_walk (k\<lparr>pmem := pm\<rparr>) = mmu_walk k" "tables_ok (k\<lparr>pmem := pm\<rparr>) = tables_ok k"
    "self_mapped (k\<lparr>pmem := pm\<rparr>) = self_mapped k" "unused_frame (k\<lparr>pmem := pm\<rparr>) = unused_frame k"
proof -
  let ?k = "k\<lparr>pmem := pm\<rparr>"
  have d: "pm (pde_addr k va) = pmem k (pde_addr k va)" for va
    using f out [of "pde_addr k va"] pde_addr_page [of k va] by (auto simp: unused_frame_def)
  then show "pmem ?k (pde_addr k va) = pmem k (pde_addr k va)" by simp
  show a: "pde_addr ?k = pde_addr k" by (simp add: fun_eq_iff pde_addr_def)
  show p: "pde_present ?k = pde_present k" "pte_addr ?k = pte_addr k"
    by (simp_all add: fun_eq_iff pde_present_def pte_addr_def a d)
  have "pm (pte_addr k va) = pmem k (pte_addr k va)" if "pde_present k va" for va
    using f that out [of "pte_addr k va"] by (auto simp: unused_frame_def pte_addr_def page_add_page)
  then show "mmu_walk ?k = mmu_walk k" by (auto simp: fun_eq_iff mmu_walk_eq p)
  have "pde_addr k 0xffc00000 = page_of (cr3 k) + 4092" using pde_off_4092 [of "0xffc00000"] by (simp add: pde_addr_def)
  with d [of "0xffc00000"] show s: "self_mapped ?k = self_mapped k" by (simp add: self_mapped_def)
  show "tables_ok ?k = tables_ok k" by (simp add: tables_ok_def s p a d)
  show "unused_frame ?k = unused_frame k" by (simp add: fun_eq_iff unused_frame_def p a d)
qed

text \<open>Physical memory after the first \<open>n\<close> of the kernel's directory entries were copied to frame \<open>f\<close>.\<close>

definition copied :: "kernel \<Rightarrow> u32 \<Rightarrow> nat \<Rightarrow> u32 \<Rightarrow> u32" where
  "copied k f n =
     (\<lambda>a. if page_of a = f \<and> (\<exists>j < n. take_bit 12 a = 0xc00 + 4 * of_nat j)
          then pmem k (page_of (cr3 k) + take_bit 12 a) else pmem k a)"

lemma dir_off: "j < 256 \<Longrightarrow> take_bit 12 (0xc00 + 4 * of_nat j) = (0xc00 + 4 * of_nat j :: u32)"
  by (simp add: word_unat_eq_iff take_bit_eq_mod unat_mod unat_word_ariths)

lemma dir_window:
  assumes "self_mapped k" "j < 256"
  shows "mmu_walk k (0xfffffc00 + 4 * of_nat j) = Some (page_of (cr3 k) + (0xc00 + 4 * of_nat j))"
proof -
  let ?va = "push_bit 22 (of_nat (768 + j)) :: u32"
  have "drop_bit 22 ?va = of_nat (768 + j)"
    using assms(2) by (simp add: word_unat_eq_iff drop_bit_eq_div push_bit_eq_mult unat_div unat_word_ariths)
  then have "pde_ptr ?va = 0xfffffc00 + 4 * of_nat j" "pde_addr k ?va = page_of (cr3 k) + (0xc00 + 4 * of_nat j)"
    by (simp_all add: pde_ptr_def PDE_INDEX_drop pde_addr_def pde_off_def push_bit_eq_mult algebra_simps)
  with mmu_walk_pde_ptr [OF assms(1), of ?va] show ?thesis by simp
qed

lemma page_plus_offset: "page_of a + take_bit 12 a = (a :: u32)"
proof -
  have "page_of a + take_bit 12 a = page_of a OR take_bit 12 a" by (rule page_add_or) simp
  also have "\<dots> = a" by (rule bit_eqI) (auto simp: bit_or_iff bit_page_of bit_take_bit_iff)
  finally show ?thesis .
qed

lemma copy_words_dir:
  assumes sm: "self_mapped k" and f: "unused_frame k f" "page_of f = f"
    and t: "\<And>r. take_bit 12 r = r \<Longrightarrow> mmu_walk k (t + r) = Some (f + r)"
  shows "i + n \<le> 256 \<Longrightarrow>
    copy_words (k\<lparr>pmem := copied k f i\<rparr>) (t + (0xc00 + 4 * of_nat i)) (0xfffffc00 + 4 * of_nat i) n =
      Inr (k\<lparr>pmem := copied k f (i + n)\<rparr>)"
proof (induction n arbitrary: i)
  case 0
  then show ?case by simp
next
  case (Suc n)
  let ?k = "k\<lparr>pmem := copied k f i\<rparr>" and ?o = "0xc00 + 4 * of_nat i :: u32"
  have i: "i < 256" using Suc.prems by simp
  note o = dir_off [OF i]
  have out: "copied k f i a = pmem k a" if "page_of a \<noteq> page_of f" for a
    using that f(2) by (simp add: copied_def)
  note w = frame_write(5) [OF f(1) out]
  have ne: "page_of (page_of (cr3 k) + ?o) \<noteq> f"
    using f page_add_page [OF o, of "cr3 k"] by (auto simp: unused_frame_def)
  have rd: "vread32 ?k (0xfffffc00 + 4 * of_nat i) = Inr (pmem k (page_of (cr3 k) + ?o))"
    using dir_window [OF sm i] out [of "page_of (cr3 k) + ?o"] ne f(2) by (simp add: vread32_def w)
  have fo: "page_of (f + ?o) = f" "take_bit 12 (f + ?o) = ?o"
    using page_add_page [OF o, of f] page_add_offset [OF o, of f] f(2) by simp_all
  have eq: "a = f + ?o \<longleftrightarrow> page_of a = f \<and> take_bit 12 a = ?o" for a
  proof -
    have "page_of a + take_bit 12 a = a" by (rule page_plus_offset)
    then show ?thesis using fo by metis
  qed
  have "(copied k f i)(f + ?o := pmem k (page_of (cr3 k) + ?o)) = copied k f (Suc i)"
    by (auto simp: fun_eq_iff copied_def eq less_Suc_eq)
  then have wr: "vwrite32 ?k (t + ?o) (pmem k (page_of (cr3 k) + ?o)) = Inr (k\<lparr>pmem := copied k f (Suc i)\<rparr>)"
    using t [OF o] by (simp add: vwrite32_def w)
  have "copy_words (k\<lparr>pmem := copied k f (Suc i)\<rparr>) (t + (0xc00 + 4 * of_nat (Suc i))) (0xfffffc00 + 4 * of_nat (Suc i)) n =
      Inr (k\<lparr>pmem := copied k f (Suc i + n)\<rparr>)"
    using Suc.prems by (intro Suc.IH) simp
  moreover have "t + (0xc00 + 4 * of_nat (Suc i)) = t + ?o + 4"
    "(0xfffffc00 + 4 * of_nat (Suc i) :: u32) = 0xfffffc00 + 4 * of_nat i + 4" by simp_all
  ultimately show ?case by (simp only: copy_words.simps rd wr bnd.simps add_Suc add_Suc_right)
qed


lemma copied_offset:
  assumes f: "page_of f = f" and r: "take_bit 12 r = r"
  shows "copied k f 256 (f + r) =
    (if \<exists>j < 256. r = 0xc00 + 4 * of_nat j then pmem k (page_of (cr3 k) + r) else pmem k (f + r))"
  using page_add_page [OF r, of f] page_add_offset [OF r, of f] f by (auto simp: copied_def)

lemma pde_off_range:
  "(\<exists>j < 256. pde_off va = 0xc00 + 4 * of_nat j) \<longleftrightarrow> 0xc0000000 \<le> va"
proof -
  have u: "unat (pde_off va) = 4 * (unat va div 2 ^ 22)"
    using unat_less_u32 [of va]
    by (simp add: pde_off_def push_bit_eq_mult drop_bit_eq_div unat_word_ariths unat_div)
  have "pde_off va = 0xc00 + 4 * of_nat j \<longleftrightarrow> unat va div 2 ^ 22 = 768 + j" if "j < 256" for j
    using that by (simp add: word_unat_eq_iff [of "pde_off va"] u unat_word_ariths) arith
  moreover have "(\<exists>j < 256. unat va div 2 ^ 22 = 768 + j) \<longleftrightarrow> 0xc0000000 \<le> unat va"
  proof
    assume "0xc0000000 \<le> unat va"
    with unat_less_u32 [of va] have "unat va div 2 ^ 22 - 768 < 256" "unat va div 2 ^ 22 = 768 + (unat va div 2 ^ 22 - 768)"
      by simp_all
    then show "\<exists>j < 256. unat va div 2 ^ 22 = 768 + j" by blast
  qed auto
  ultimately show ?thesis by (auto simp: word_le_nat_alt)
qed

lemma kmem_ok_frame_write:
  assumes ok: "kmem_ok k" and f: "unused_frame k f" and out: "\<And>a. page_of a \<noteq> page_of f \<Longrightarrow> pm a = pmem k a"
  shows "kmem_ok (k\<lparr>pmem := pm\<rparr>)"
proof -
  note w = frame_write [OF f out]
  have "vpages (k\<lparr>pmem := pm\<rparr>) = vpages k" "vpage (k\<lparr>pmem := pm\<rparr>) = vpage k"
    "vpage_used (k\<lparr>pmem := pm\<rparr>) = vpage_used k" "frames (k\<lparr>pmem := pm\<rparr>) = frames k"
    "frame_used (k\<lparr>pmem := pm\<rparr>) = frame_used k" "frame_addr (k\<lparr>pmem := pm\<rparr>) = frame_addr k"
    by (auto simp: fun_eq_iff vpages_def vpage_def vpage_used_def frames_def frame_used_def frame_addr_def pool_of_def
        split: pool_flags.splits)
  with ok show ?thesis
    by (simp add: kmem_ok_def kheap_ok_def kbitmaps_ok_def kmap_ok_def kframes_ok_def pools_ok_def w)
qed

text \<open>The directory that \<open>create_page_dir\<close> builds in frame \<open>f\<close>.\<close>

definition process_dir :: "kernel \<Rightarrow> u32 \<Rightarrow> u32 \<Rightarrow> u32" where
  "process_dir k f = (copied k f 256)(f + 4092 := f OR PG_US_S OR PG_RW_W OR PG_P_1)"

lemma process_dir_walk:
  assumes tab: "tables_ok k" and f: "unused_frame k f" "page_of f = f" and z: "\<And>a. page_of a = f \<Longrightarrow> pmem k a = 0"
  defines "kd \<equiv> k\<lparr>pmem := process_dir k f, cr3 := f\<rparr>"
  shows "0xc0000000 \<le> va \<Longrightarrow> va < 0xffc00000 \<Longrightarrow> mmu_walk kd va = mmu_walk k va"
    and "va < 0xc0000000 \<Longrightarrow> mmu_walk kd va = None" and "self_mapped kd"
proof -
  have out: "process_dir k f a = pmem k a" if "page_of a \<noteq> page_of f" for a
  proof -
    have "a \<noteq> f + 4092" using that page_add_page [of 4092 f] f(2) by (auto simp: take_bit_eq_mod)
    with that f(2) show ?thesis by (simp add: process_dir_def copied_def)
  qed
  have e: "process_dir k f (f + pde_off x) =
      (if pde_off x = 4092 then f OR PG_US_S OR PG_RW_W OR PG_P_1
       else if 0xc0000000 \<le> x then pmem k (pde_addr k x) else 0)" for x
    using copied_offset [OF f(2) off_take(1), of k x] pde_off_range [of x]
      z [of "f + pde_off x"] page_add_page [OF off_take(1), of f x] f(2)
    by (simp add: process_dir_def pde_addr_def)
  have d: "pde_addr kd x = f + pde_off x" for x using f(2) by (simp add: kd_def pde_addr_def)
  have pd: "pmem kd (pde_addr kd x) = process_dir k f (f + pde_off x)" for x by (simp add: d) (simp add: kd_def)
  show "mmu_walk kd va = None" if "va < 0xc0000000"
  proof -
    have "pde_off va \<noteq> 4092" using that pde_off_4092 [of va] by (auto simp: word_less_nat_alt word_le_nat_alt)
    then have "\<not> pde_present kd va" using e [of va] that by (simp add: pde_present_def pd not_le [symmetric])
    then show ?thesis by (simp add: mmu_walk_eq)
  qed
  show "mmu_walk kd va = mmu_walk k va" if "0xc0000000 \<le> va" "va < 0xffc00000"
  proof -
    have "pde_off va \<noteq> 4092" using that pde_off_4092 [of va] by simp
    then have s: "pmem kd (pde_addr kd va) = pmem k (pde_addr k va)" using e [of va] that by (simp add: pd)
    then have p: "pde_present kd va = pde_present k va" "pte_addr kd va = pte_addr k va"
      by (simp_all add: pde_present_def pte_addr_def)
    have "process_dir k f (pte_addr k va) = pmem k (pte_addr k va)" if "pde_present k va"
      using f that out [of "pte_addr k va"] by (auto simp: unused_frame_def pte_addr_def page_add_page)
    then have "pde_present k va \<Longrightarrow> pmem kd (pte_addr k va) = pmem k (pte_addr k va)" by (simp add: kd_def)
    then show ?thesis by (auto simp: mmu_walk_eq p)
  qed
  have "bit (f OR PG_US_S OR PG_RW_W OR PG_P_1) 0" by (simp add: bit_simps PG_US_S_def PG_RW_W_def PG_P_1_def)
  moreover have "page_of (f OR PG_US_S OR PG_RW_W OR PG_P_1) = f"
  proof -
    have "page_of (f OR 2 OR 1) = page_of f"
      by (simp add: bit.conj_disj_distrib2)
    then show ?thesis using f(2) by (simp add: PG_US_S_def PG_RW_W_def PG_P_1_def or.assoc)
  qed
  ultimately show "self_mapped kd" using f(2) by (simp add: self_mapped_def kd_def process_dir_def)
qed


text \<open>
  \<open>create_page_dir\<close> returns the address of a page directory that gives every kernel address
  below the window of the page tables the translation it has now, maps nothing below
  \<open>0xc0000000\<close> and maps itself through its last entry. The address translates to the frame that
  \<open>page_dir_activate\<close> loads into \<open>cr3\<close>; translations the kernel had stay, and the invariant
  of the memory manager is kept.
\<close>

theorem create_page_dir_shares:
  assumes ok: "kmem_ok k" and lock: "locks k Kernel_pool_lock = free_lock" "running_thread k \<noteq> NULL"
    and free: "\<exists>i < vpages k. \<not> vpage_used k i" "\<exists>j < frames k PF_KERNEL. \<not> frame_used k PF_KERNEL j"
  shows "\<exists>d p k'. create_page_dir k = Inr (d, k') \<and> d \<noteq> NULL \<and> addr_v2p k' d = Inr p \<and>
    (\<forall>va. 0xc0000000 \<le> va \<and> va < 0xffc00000 \<longrightarrow> mmu_walk (k'\<lparr>cr3 := p\<rparr>) va = mmu_walk k' va) \<and>
    (\<forall>va. va < 0xc0000000 \<longrightarrow> mmu_walk (k'\<lparr>cr3 := p\<rparr>) va = None) \<and> self_mapped (k'\<lparr>cr3 := p\<rparr>) \<and>
    (\<forall>va pa. mmu_walk k va = Some pa \<longrightarrow> mmu_walk k' va = Some pa) \<and> kmem_ok k'"
proof -
  from get_kernel_page_eq [OF assms] obtain i j m1 m2 where
    i: "i < vpages k" "\<not> vpage_used k i" and j: "j < frames k PF_KERNEL" "\<not> frame_used k PF_KERNEL j"
    and m: "(bitmap_set (vmem k) (vaddr_bitmap (kernel_vaddr k)) (of_nat i) 1 :: (kernel, bytes) res) = Inr m1"
      "(bitmap_set m1 (pool_bitmap (kernel_pool k)) (of_nat j) 1 :: (kernel, bytes) res) = Inr m2"
    and eq: "get_kernel_pages k 1 = Inr (vpage k i, new_page k (vpage k i) (frame_addr k PF_KERNEL j) m2)"
    by blast
  let ?t = "vpage k i" and ?f = "frame_addr k PF_KERNEL j"
  let ?k1 = "new_page k ?t ?f m2" and ?k2 = "(new_page k ?t ?f m2)\<lparr>pmem := copied (new_page k ?t ?f m2) ?f 256\<rparr>"
  let ?k3 = "(new_page k ?t ?f m2)\<lparr>pmem := process_dir (new_page k ?t ?f m2) ?f\<rparr>"
  have kh: "kheap_ok k" and km: "kmap_ok k" and kf: "kframes_ok k" using ok by (simp_all add: kmem_ok_def)
  note va = vpage_unat [OF kh i(1)]
  have t: "tables_ok k" "pde_present k ?t" "?t < 0xffc00000" "unused_frame k ?f" "page_of ?f = ?f"
    using km kf i j va(2) kframe_addr(1) [OF kf j(1)] by (simp_all add: kmap_ok_def kframes_ok_def)
  have k1: "kmem_ok ?k1" by (rule new_page_kmem_ok [OF ok i(1) j m])
  have tab1: "tables_ok ?k1" and f1: "unused_frame ?k1 ?f" using new_page_tables_ok [OF t, of m2] t(4) by simp_all
  have sm1: "self_mapped ?k1" using tab1 by (simp add: tables_ok_def)
  have z: "pmem ?k1 a = 0" if "page_of a = ?f" for a using that t(5) by (simp add: new_page_def)
  have w1: "mmu_walk ?k1 (?t + r) = Some (?f + r)" if r: "take_bit 12 r = r" for r
  proof -
    have p: "page_of (?t + r) = page_of ?t" using page_add_page [OF r, of ?t] va(3) by simp
    moreover have "take_bit 12 (?t + r) = r" using page_add_offset [OF r, of ?t] va(3) by simp
    ultimately show ?thesis
      using t(2) p unfolding page_eq_offs new_page_walk(5) [OF t] by (simp add: pde_present_def pte_addr_def pde_addr_def)
  qed
  have out2: "copied ?k1 ?f 256 a = pmem ?k1 a" if "page_of a \<noteq> page_of ?f" for a
    using that t(5) by (simp add: copied_def)
  have out3: "process_dir ?k1 ?f a = pmem ?k1 a" if "page_of a \<noteq> page_of ?f" for a
    using out2 [OF that] that page_add_page [of 4092 ?f] t(5) by (auto simp: process_dir_def take_bit_eq_mod)
  note w2 = frame_write [OF f1 out2] and w3 = frame_write [OF f1 out3]
  have "copied ?k1 ?f 0 = pmem ?k1" by (simp add: copied_def)
  then have copy: "copy_words ?k1 (?t + 0xc00) 0xfffffc00 256 = Inr ?k2"
    using copy_words_dir [OF sm1 f1 t(5) w1, of 0 256] by simp
  have v2p: "addr_v2p ?k2 ?t = Inr ?f" "addr_v2p ?k3 ?t = Inr ?f"
    using w1 [of 0] sm1 va(5) w2(5,7) w3(5,7)
      addr_v2p_eq [of ?k2 ?t] addr_v2p_eq [of ?k3 ?t] mmu_walk_eq [of ?k2 ?t] mmu_walk_eq [of ?k3 ?t]
    by (auto split: if_splits)
  have "vwrite32 ?k2 (?t + 4092) (?f OR PG_US_S OR PG_RW_W OR PG_P_1) = Inr ?k3"
    using w1 [of 4092] by (simp add: vwrite32_def w2 take_bit_eq_mod process_dir_def)
  then have "create_page_dir k = Inr (?t, ?k3)"
    using va(4) by (simp add: create_page_dir_def eq copy v2p)
  moreover have "mmu_walk ?k3 va = Some pa" if "mmu_walk k va = Some pa" for va pa
  proof -
    have "mmu_walk k ?t = None" using km i by (simp add: kmap_ok_def)
    with that have "\<not> (pde_present k va \<and> pte_addr k va = pte_addr k ?t)"
      using t(2) by (auto simp: mmu_walk_eq split: if_splits)
    moreover have "mmu_walk ?k3 = mmu_walk ?k1" using w3(5) by simp
    ultimately show ?thesis using that new_page_walk(5) [OF t, of m2 va] by argo
  qed
  moreover have "kmem_ok ?k3" by (rule kmem_ok_frame_write [OF k1 f1 out3])
  ultimately show ?thesis
    using v2p va(4) process_dir_walk [OF tab1 f1 t(5) z]
    by (intro exI [of _ ?t] exI [of _ ?f] exI [of _ ?k3]) (simp add: w3(5))
qed

theorem create_page_dir_shares_witness:
  "\<exists>d p k'. create_page_dir heap_kernel = Inr (d, k') \<and> addr_v2p k' d = Inr p \<and> self_mapped (k'\<lparr>cr3 := p\<rparr>)"
  using create_page_dir_shares [OF heap_kernel_ok _ _ heap_kernel_free]
  by (auto simp: heap_kernel_fields)

end
