(* ===== verification/Waitexit.thy ===== *)
theory Waitexit
  imports Pipe Thread Process
begin

unbundle bit_operations_syntax

text \<open>
  \<^verbatim>\<open>user/wait_exit.c\<close>: the end of a process. \<open>sys_exit\<close> gives the memory of the process back, closes its
  files, hands its children to process 1, wakes the parent and parks the process; \<open>sys_wait\<close> collects a parked child.
\<close>

section \<open>Releasing the memory of a process\<close>

text \<open>
  The inner loop runs over the entries of one page table, the outer one over the entries of the directory of the user half; \<open>n\<close>
  counts the entries that are left.
\<close>

primrec free_ptes :: "kernel \<Rightarrow> u32 \<Rightarrow> nat \<Rightarrow> kernel kres" where
  "free_ptes k v_pte_ptr 0 = Inr k"
| "free_ptes k v_pte_ptr (Suc n) =
     bnd (vread32 k v_pte_ptr) (\<lambda>pte.
     bnd (if pte AND 1 \<noteq> 0 then free_a_phy_page k (pte AND 0xfffff00) else Inr k) (\<lambda>k.
     free_ptes k (v_pte_ptr + 4) n))"

primrec free_pdes :: "kernel \<Rightarrow> u32 \<Rightarrow> u32 \<Rightarrow> nat \<Rightarrow> kernel kres" where
  "free_pdes k pgdir_vaddr pde_idx 0 = Inr k"
| "free_pdes k pgdir_vaddr pde_idx (Suc n) =
     bnd (vread32 k (pgdir_vaddr + 4 * pde_idx)) (\<lambda>pde.
     bnd (if pde AND 1 \<noteq> 0
          then bnd (free_ptes k (pte_ptr (pde_idx * 0x400000)) 1024) (\<lambda>k. free_a_phy_page k (pde AND 0xfffff000))
          else Inr k) (\<lambda>k.
     free_pdes k pgdir_vaddr (pde_idx + 1) n))"

text \<open>From \<open>k\<close> to \<open>k'\<close> exactly the frames at the addresses \<open>A\<close> became free.\<close>

definition pool_bytes :: "kernel \<Rightarrow> u32 set" where
  "pool_bytes k = bm_region (pool_bitmap (kernel_pool k)) \<union> bm_region (pool_bitmap (user_pool k))"

definition freed :: "kernel \<Rightarrow> u32 set \<Rightarrow> kernel \<Rightarrow> bool" where
  "freed k A k' \<longleftrightarrow> (\<exists>m. k' = k\<lparr>vmem := m\<rparr>) \<and> (\<forall>x. x \<notin> pool_bytes k \<longrightarrow> vmem k' x = vmem k x) \<and>
     (\<forall>pf. \<forall>n < frames k pf. frame_used k' pf n \<longleftrightarrow> frame_used k pf n \<and> frame_addr k pf n \<notin> A)"

definition is_frame :: "kernel \<Rightarrow> u32 \<Rightarrow> bool" where
  "is_frame k a \<longleftrightarrow> (\<exists>pf n. n < frames k pf \<and> a = frame_addr k pf n)"

definition pools_apart :: "kernel \<Rightarrow> bool" where
  "pools_apart k \<longleftrightarrow> pools_ok k \<and>
     bm_region (pool_bitmap (kernel_pool k)) \<inter> bm_region (pool_bitmap (user_pool k)) = {}"

lemma vmem_pools [simp]:
  "frames (k\<lparr>vmem := m\<rparr>) pf = frames k pf" "frame_addr (k\<lparr>vmem := m\<rparr>) pf n = frame_addr k pf n"
  "pool_bytes (k\<lparr>vmem := m\<rparr>) = pool_bytes k" "is_frame (k\<lparr>vmem := m\<rparr>) a = is_frame k a"
  "pools_apart (k\<lparr>vmem := m\<rparr>) = pools_apart k" "vread32 (k\<lparr>vmem := m\<rparr>) va = vread32 k va"
  by (simp_all add: frames_def frame_addr_def pool_bytes_def is_frame_def pools_apart_def pools_ok_def vread32_def
      split: option.splits)

lemma freed_view:
  assumes "freed k A k'"
  shows "frames k' pf = frames k pf" "frame_addr k' pf n = frame_addr k pf n" "pool_bytes k' = pool_bytes k"
    "is_frame k' a = is_frame k a" "pools_apart k' = pools_apart k" "vread32 k' va = vread32 k va"
proof -
  obtain m where "k' = k\<lparr>vmem := m\<rparr>" using assms by (auto simp: freed_def)
  then show "frames k' pf = frames k pf" "frame_addr k' pf n = frame_addr k pf n" "pool_bytes k' = pool_bytes k"
    "is_frame k' a = is_frame k a" "pools_apart k' = pools_apart k" "vread32 k' va = vread32 k va"
    by simp_all
qed

lemma freed_refl: "freed k {} k"
  by (auto simp: freed_def intro: exI [of _ "vmem k"])

lemma freed_trans: "freed k A k1 \<Longrightarrow> freed k1 B k2 \<Longrightarrow> freed k (A \<union> B) k2"
proof -
  assume a: "freed k A k1" "freed k1 B k2"
  then obtain m1 m2 where m: "k1 = k\<lparr>vmem := m1\<rparr>" "k2 = k1\<lparr>vmem := m2\<rparr>" by (auto simp: freed_def)
  then have "k2 = k\<lparr>vmem := m2\<rparr>" by simp
  moreover have "\<forall>x. x \<notin> pool_bytes k \<longrightarrow> vmem k2 x = vmem k x" using a freed_view(3) [OF a(1)] by (simp add: freed_def)
  moreover have "\<forall>pf. \<forall>n < frames k pf. frame_used k2 pf n \<longleftrightarrow> frame_used k pf n \<and> frame_addr k pf n \<notin> A \<union> B"
    using a freed_view(1,2) [OF a(1)] by (simp add: freed_def)
  ultimately show ?thesis unfolding freed_def by blast
qed

lemma frame_addr_inj:
  assumes ok: "pools_ok k" and i: "i < frames k pf" "j < frames k pg" and eq: "frame_addr k pf i = frame_addr k pg j"
  shows "pf = pg \<and> i = j"
proof -
  have "unat (frame_addr k pf i) = unat (frame_addr k pg j)" using eq by simp
  then show ?thesis using ok i
    unfolding frame_addr_unat [OF ok i(1)] frame_addr_unat [OF ok i(2)]
    by (cases pf; cases pg) (auto simp: pools_ok_def pool_of_def)
qed

lemma freed_frame:
  assumes ok: "pools_apart k" and a: "is_frame k a"
  shows "\<exists>k'. free_a_phy_page k a = Inr k' \<and> freed k {a} k'"
proof -
  obtain pf n where n: "n < frames k pf" "a = frame_addr k pf n" using a by (auto simp: is_frame_def)
  let ?b = "\<lambda>pf. pool_bitmap (pool_of k pf)"
  have po: "pools_ok k" and wf: "bm_wf (?b pf)" using ok pools_ok_wf by (auto simp: pools_apart_def)
  obtain m where m: "(bitmap_set (vmem k) (?b pf) (of_nat n) 0 :: (kernel, bytes) res) = Inr m"
    using bm.upd_ok by blast
  have out: "m x = vmem k x" if "x \<notin> bm_region (?b pf)" for x
    using bitmap_set_outside [OF m _ that wf] n(1) by (simp add: frames_def)
  have disj: "x \<notin> bm_region (?b pf)" if "x \<in> bm_region (?b pg)" "pg \<noteq> pf" for x pg
    using ok that by (cases pf; cases pg) (auto simp: pools_apart_def pool_of_def)
  have "frame_used (k\<lparr>vmem := m\<rparr>) pg j \<longleftrightarrow> frame_used k pg j \<and> frame_addr k pg j \<noteq> a" if j: "j < frames k pg" for pg j
  proof (cases "pg = pf")
    case True
    then show ?thesis using frame_used_set [OF wf n(1) _ m] j frame_addr_inj [OF po j n(1)] n(2) by auto
  next
    case False
    then have "bm_bit m (?b pg) j = bm_bit (vmem k) (?b pg) j"
      using j out disj by (intro bm_bit_cong) (auto simp: frames_def)
    then show ?thesis using False frame_addr_inj [OF po j n(1)] n(2) by (auto simp: frame_used_def)
  qed
  moreover have "m x = vmem k x" if "x \<notin> pool_bytes k" for x
    using that out by (cases pf) (auto simp: pool_bytes_def pool_of_def)
  ultimately have "freed k {a} (k\<lparr>vmem := m\<rparr>)" by (auto simp: freed_def)
  then show ?thesis using free_frame(1) [OF po n(1)] n(2) m by (auto simp: k_bitmap_set_def)
qed

definition masked :: "u32 \<Rightarrow> u32" where
  "masked e = e AND 0xfffff00"

lemma page_of_le: "page_of a \<le> a"
  by (rule word_and_le2)

text \<open>\<open>free_a_phy_page\<close> takes any address inside the frame.\<close>

lemma free_inside:
  assumes ok: "pools_ok k" and a: "is_frame k (page_of a)"
  shows "free_a_phy_page k a = free_a_phy_page k (page_of a)"
proof -
  obtain pf n where n: "n < frames k pf" "page_of a = frame_addr k pf n" using a by (auto simp: is_frame_def)
  obtain r where r: "unat a = unat (page_of a) + r" "r < 4096"
  proof
    have "a AND 0xfff = take_bit 12 a" by (simp add: take_bit_eq_mask mask_eq_exp_minus_1)
    then have s: "page_of a + take_bit 12 a = a" using page_plus_offset [of a] by simp
    have "unat a = unat (page_of a) + unat (a - page_of a)" using page_of_le [of a] by (simp add: unat_sub word_le_nat_alt)
    moreover have "a - page_of a = take_bit 12 a" using s by (simp add: algebra_simps)
    ultimately show "unat a = unat (page_of a) + unat (take_bit 12 a)" by simp
    show "unat (take_bit 12 a) < 4096" by (simp add: take_bit_eq_mod unat_mod)
  qed
  let ?s = "phy_addr_start (pool_of k pf)"
  have u: "unat a = unat ?s + 4096 * n + r" "unat (page_of a) = unat ?s + 4096 * n"
    using r frame_addr_unat [OF ok n(1)] n(2) by simp_all
  then have le: "?s \<le> a" "?s \<le> page_of a" by (simp_all add: word_le_nat_alt)
  have "(a - ?s) div PG_SIZE = (page_of a - ?s) div PG_SIZE"
    using u r(2) le by (simp add: word_unat_eq_iff unat_div unat_sub PG_SIZE_def)
  moreover have "phy_addr_start (user_pool k) \<le> a \<longleftrightarrow> pf = PF_USER" "phy_addr_start (user_pool k) \<le> page_of a \<longleftrightarrow> pf = PF_USER"
    using u r(2) n(1) ok by (cases pf; simp add: pools_ok_def pool_of_def word_le_nat_alt)+
  ultimately show ?thesis by (cases pf) (simp_all add: free_a_phy_page_def pool_of_def)
qed

lemma freed_if:
  assumes "pools_apart k" "b \<Longrightarrow> is_frame k (page_of a)"
  shows "\<exists>k'. (if b then free_a_phy_page k a else Inr k) = Inr k' \<and> freed k {x. b \<and> x = page_of a} k'"
proof (cases b)
  case True
  then have a: "is_frame k (page_of a)" "pools_ok k" using assms by (simp_all add: pools_apart_def)
  show ?thesis using freed_frame [OF assms(1) a(1)] True by (simp add: free_inside [OF a(2,1)])
qed (use freed_refl [of k] in simp)

lemma free_ptes_run:
  assumes "pools_apart k" "\<And>j. j < n \<Longrightarrow> vread32 k (v + 4 * of_nat j) = Inr (e j)"
    "\<And>j. j < n \<Longrightarrow> e j AND 1 \<noteq> 0 \<Longrightarrow> is_frame k (page_of (masked (e j)))"
  shows "\<exists>k'. free_ptes k v n = Inr k' \<and> freed k {a. \<exists>j < n. e j AND 1 \<noteq> 0 \<and> a = page_of (masked (e j))} k'"
  using assms
proof (induction n arbitrary: k v e)
  case 0
  then show ?case using freed_refl by simp
next
  case (Suc n)
  have "\<exists>k1. (if e 0 AND 1 \<noteq> 0 then free_a_phy_page k (masked (e 0)) else Inr k) = Inr k1 \<and>
      freed k {x. e 0 AND 1 \<noteq> 0 \<and> x = page_of (masked (e 0))} k1"
    by (rule freed_if [OF Suc.prems(1)]) (rule Suc.prems(3), simp_all)
  then obtain k1 where k1: "(if e 0 AND 1 \<noteq> 0 then free_a_phy_page k (masked (e 0)) else Inr k) = Inr k1"
    "freed k {x. e 0 AND 1 \<noteq> 0 \<and> x = page_of (masked (e 0))} k1" by (elim exE conjE)
  note v1 = freed_view [OF k1(2)]
  have s: "v + 4 + 4 * of_nat j = v + 4 * of_nat (Suc j)" for j by (simp add: algebra_simps)
  have "\<exists>k2. free_ptes k1 (v + 4) n = Inr k2 \<and>
      freed k1 {a. \<exists>j < n. e (Suc j) AND 1 \<noteq> 0 \<and> a = page_of (masked (e (Suc j)))} k2"
    by (rule Suc.IH; unfold v1 s; rule Suc.prems) simp_all
  then obtain k2 where k2: "free_ptes k1 (v + 4) n = Inr k2"
    "freed k1 {a. \<exists>j < n. e (Suc j) AND 1 \<noteq> 0 \<and> a = page_of (masked (e (Suc j)))} k2" by (elim exE conjE)
  have "{x. e 0 AND 1 \<noteq> 0 \<and> x = page_of (masked (e 0))} \<union> {a. \<exists>j < n. e (Suc j) AND 1 \<noteq> 0 \<and> a = page_of (masked (e (Suc j)))} =
    {a. \<exists>j < Suc n. e j AND 1 \<noteq> 0 \<and> a = page_of (masked (e j))}"
    by (auto simp: less_Suc_eq_0_disj)
  with freed_trans [OF k1(2) k2(2)] show ?case
    using k2(1) Suc.prems(2) [of 0] unfolding free_ptes.simps masked_def [symmetric] by (simp add: k1(1) del: if_split)
qed

lemma free_pdes_run:
  assumes "pools_apart k" "\<And>i. i < n \<Longrightarrow> vread32 k (p + 4 * (idx + of_nat i)) = Inr (d i)"
    "\<And>i. i < n \<Longrightarrow> d i AND 1 \<noteq> 0 \<Longrightarrow> is_frame k (d i AND 0xfffff000)"
    "\<And>i j. i < n \<Longrightarrow> d i AND 1 \<noteq> 0 \<Longrightarrow> j < 1024 \<Longrightarrow>
       vread32 k (pte_ptr ((idx + of_nat i) * 0x400000) + 4 * of_nat j) = Inr (e i j)"
    "\<And>i j. i < n \<Longrightarrow> d i AND 1 \<noteq> 0 \<Longrightarrow> j < 1024 \<Longrightarrow> e i j AND 1 \<noteq> 0 \<Longrightarrow> is_frame k (page_of (masked (e i j)))"
  shows "\<exists>k'. free_pdes k p idx n = Inr k' \<and> freed k {a. \<exists>i < n. d i AND 1 \<noteq> 0 \<and>
    (a = d i AND 0xfffff000 \<or> (\<exists>j < 1024. e i j AND 1 \<noteq> 0 \<and> a = page_of (masked (e i j))))} k'"
  using assms
proof (induction n arbitrary: k idx d e)
  case 0
  then show ?case using freed_refl by simp
next
  case (Suc n)
  let ?A = "{a. d 0 AND 1 \<noteq> 0 \<and> (a = d 0 AND 0xfffff000 \<or> (\<exists>j < 1024. e 0 j AND 1 \<noteq> 0 \<and> a = page_of (masked (e 0 j))))}"
  have "\<exists>k1. (if d 0 AND 1 \<noteq> 0 then bnd (free_ptes k (pte_ptr (idx * 0x400000)) 1024)
      (\<lambda>k. free_a_phy_page k (d 0 AND 0xfffff000)) else Inr k) = Inr k1 \<and> freed k ?A k1"
  proof (cases "d 0 AND 1 = 0")
    case True
    then show ?thesis using freed_refl [of k] by auto
  next
    case False
    then have "\<exists>k1. free_ptes k (pte_ptr (idx * 0x400000)) 1024 = Inr k1 \<and>
        freed k {a. \<exists>j < 1024. e 0 j AND 1 \<noteq> 0 \<and> a = page_of (masked (e 0 j))} k1"
      using Suc.prems(4) [of 0] Suc.prems(5) [of 0] by (intro free_ptes_run [OF Suc.prems(1)]) simp_all
    then obtain k1 where k1: "free_ptes k (pte_ptr (idx * 0x400000)) 1024 = Inr k1"
      "freed k {a. \<exists>j < 1024. e 0 j AND 1 \<noteq> 0 \<and> a = page_of (masked (e 0 j))} k1" by (elim exE conjE)
    have "pools_apart k1" "is_frame k1 (d 0 AND 0xfffff000)"
      using Suc.prems(1) Suc.prems(3) [of 0] False by (simp_all add: freed_view [OF k1(2)])
    from freed_frame [OF this] obtain k2 where k2: "free_a_phy_page k1 (d 0 AND 0xfffff000) = Inr k2"
      "freed k1 {d 0 AND 0xfffff000} k2" by blast
    have "{a. \<exists>j < 1024. e 0 j AND 1 \<noteq> 0 \<and> a = page_of (masked (e 0 j))} \<union> {d 0 AND 0xfffff000} = ?A" using False by auto
    then show ?thesis using freed_trans [OF k1(2) k2(2)] k1(1) k2(1) False by simp
  qed
  then obtain k1 where k1: "(if d 0 AND 1 \<noteq> 0 then bnd (free_ptes k (pte_ptr (idx * 0x400000)) 1024)
      (\<lambda>k. free_a_phy_page k (d 0 AND 0xfffff000)) else Inr k) = Inr k1" "freed k ?A k1" by (elim exE conjE)
  note v1 = freed_view [OF k1(2)]
  have s: "idx + 1 + of_nat i = idx + of_nat (Suc i)" for i by simp
  let ?B = "{a. \<exists>i < n. d (Suc i) AND 1 \<noteq> 0 \<and>
    (a = d (Suc i) AND 0xfffff000 \<or> (\<exists>j < 1024. e (Suc i) j AND 1 \<noteq> 0 \<and> a = page_of (masked (e (Suc i) j))))}"
  have "\<exists>k2. free_pdes k1 p (idx + 1) n = Inr k2 \<and> freed k1 ?B k2"
    by (rule Suc.IH; unfold v1 s; rule Suc.prems) simp_all
  then obtain k2 where k2: "free_pdes k1 p (idx + 1) n = Inr k2" "freed k1 ?B k2" by (elim exE conjE)
  have "?A \<union> ?B = {a. \<exists>i < Suc n. d i AND 1 \<noteq> 0 \<and>
      (a = d i AND 0xfffff000 \<or> (\<exists>j < 1024. e i j AND 1 \<noteq> 0 \<and> a = page_of (masked (e i j))))}"
    unfolding less_Suc_eq_0_disj by auto
  with freed_trans [OF k1(2) k2(2)] show ?case
    using k2(1) Suc.prems(2) [of 0] unfolding free_pdes.simps by (simp add: k1(1) del: if_split)
qed

text \<open>Entry \<open>j\<close> of the page table of directory entry \<open>i\<close>.\<close>

definition entry_va :: "nat \<Rightarrow> nat \<Rightarrow> u32" where
  "entry_va i j = of_nat (1024 * i + j) * PG_SIZE"

lemma entry_va_fields:
  assumes "i < 1024" "j < 1024"
  shows "drop_bit 22 (entry_va i j) = of_nat i" "take_bit 10 (drop_bit 12 (entry_va i j)) = of_nat j"
proof -
  have u: "unat (entry_va i j) = (1024 * i + j) * 4096"
    using assms by (simp add: entry_va_def PG_SIZE_def unat_word_ariths)
  show "drop_bit 22 (entry_va i j) = of_nat i"
    using assms by (simp add: word_unat_eq_iff drop_bit_eq_div unat_div u)
  show "take_bit 10 (drop_bit 12 (entry_va i j)) = of_nat j"
    using assms by (simp add: word_unat_eq_iff drop_bit_eq_div take_bit_eq_mod unat_div unat_mod u)
qed

lemma entry_va_offs:
  assumes "i < 1024" "j < 1024"
  shows "pde_off (entry_va i j) = 4 * of_nat i" "pte_off (entry_va i j) = 4 * of_nat j"
    "pte_ptr (of_nat i * 0x400000) + 4 * of_nat j = pte_ptr (entry_va i j)"
proof -
  note f = entry_va_fields [OF assms]
  show "pde_off (entry_va i j) = 4 * of_nat i" "pte_off (entry_va i j) = 4 * of_nat j"
    by (simp_all add: pde_off_def pte_off_def f push_bit_eq_mult)
  have p: "pte_ptr va = 0xffc00000 + 4096 * drop_bit 22 va + 4 * take_bit 10 (drop_bit 12 va)" for va
  proof -
    have "drop_bit 10 (va AND push_bit 22 (mask 10)) = push_bit 12 (drop_bit 22 va)"
      by (rule bit_eqI) (auto simp: bit_simps dest: bit_imp_le_length)
    then show ?thesis unfolding pte_ptr_def PTE_INDEX_take page_masks(1) by (simp add: push_bit_eq_mult)
  qed
  have "of_nat i * 0x400000 = entry_va i 0" by (simp add: entry_va_def PG_SIZE_def)
  then show "pte_ptr (of_nat i * 0x400000) + 4 * of_nat j = pte_ptr (entry_va i j)"
    using entry_va_fields [OF assms(1), of 0] by (simp add: p f)
qed

lemma entry_va_of:
  assumes "va < 0xc0000000"
  shows "\<exists>i j. i < 768 \<and> j < 1024 \<and> pde_off va = pde_off (entry_va i j) \<and> pte_off va = pte_off (entry_va i j)"
proof -
  let ?i = "unat va div 2 ^ 22" and ?j = "unat va div 2 ^ 12 mod 1024"
  have "unat va < 0xc0000000" using assms by (simp add: word_less_nat_alt)
  then have i: "?i < 768" by simp
  have "drop_bit 22 va = of_nat ?i" "take_bit 10 (drop_bit 12 va) = of_nat ?j"
    using i by (simp_all add: word_unat_eq_iff drop_bit_eq_div take_bit_eq_mod unat_div unat_mod)
  then have "pde_off va = pde_off (entry_va ?i ?j)" "pte_off va = pte_off (entry_va ?i ?j)"
    using i entry_va_fields [of ?i ?j] by (simp_all add: pde_off_def pte_off_def)
  then show ?thesis using i by (intro exI [of _ ?i] exI [of _ ?j]) simp
qed

lemma entry_va_user: "i < 768 \<Longrightarrow> j < 1024 \<Longrightarrow> entry_va i j < 0xc0000000"
  by (simp add: entry_va_def PG_SIZE_def word_less_nat_alt unat_word_ariths)

text \<open>
  The mask \<open>0xfffff00\<close> of line 43 has one digit too few: of the address of a page only the low 28 bits reach
  \<open>free_a_phy_page\<close>. \<open>user_released\<close> are the frames that are given back, \<open>user_frames\<close> those that the process has; \<open>user_half_ok\<close>
  asks that what is given back are frames of the pools, since \<open>free_a_phy_page\<close> does not check its argument.
\<close>

definition user_half_ok :: "kernel \<Rightarrow> bool" where
  "user_half_ok k \<longleftrightarrow> (\<forall>va < 0xc0000000. pde_present k va \<longrightarrow>
     is_frame k (page_of (pmem k (pde_addr k va))) \<and>
     (\<forall>pa. mmu_walk k va = Some pa \<longrightarrow> is_frame k (take_bit 28 (page_of pa))))"

definition user_released :: "kernel \<Rightarrow> u32 set" where
  "user_released k = {take_bit 28 (page_of pa) |va pa. va < 0xc0000000 \<and> mmu_walk k va = Some pa} \<union>
     {page_of (pmem k (pde_addr k va)) |va. va < 0xc0000000 \<and> pde_present k va}"

definition user_frames :: "kernel \<Rightarrow> u32 set" where
  "user_frames k = {page_of pa |va pa. va < 0xc0000000 \<and> mmu_walk k va = Some pa} \<union>
     {page_of (pmem k (pde_addr k va)) |va. va < 0xc0000000 \<and> pde_present k va}"

lemma masked_page: "page_of (masked x) = take_bit 28 (page_of x)"
  by (simp add: masked_def take_bit_eq_mask mask_eq_exp_minus_1 and.assoc)

lemma mmu_walk_frame:
  "mmu_walk k va = Some pa \<Longrightarrow> page_of pa = page_of (pmem k (pte_addr k va)) \<and> pde_present k va \<and> bit (pmem k (pte_addr k va)) 0"
  by (auto simp: mmu_walk_eq page_add_page split: if_splits)

lemma page_offs:
  assumes "take_bit 12 r = (r :: u32)"
  shows "pde_off (page_of p + r) = pde_off (page_of p)" "pte_off (page_of p + r) = pte_off (page_of p)"
  unfolding page_add_or [OF assms] pde_off_def pte_off_def
  by (rule bit_eqI; auto simp: bit_simps dest: bit_offset [OF assms])+

lemma mmu_walk_page:
  assumes "mmu_walk k p = Some f" "page_of p = p" "take_bit 12 r = r"
  shows "mmu_walk k (p + r) = Some (f + r)"
proof -
  have o: "pde_off (p + r) = pde_off p" "pte_off (p + r) = pte_off p" "take_bit 12 (p + r) = r" "take_bit 12 p = 0"
    using page_offs [OF assms(3), of p] page_add_offset [OF assms(3), of p] assms(2) take_bit_page [of p] by simp_all
  then have "pde_present k (p + r) = pde_present k p" "pte_addr k (p + r) = pte_addr k p"
    by (simp_all add: pde_present_def pte_addr_def pde_addr_def)
  with assms(1) o show ?thesis by (auto simp: mmu_walk_eq split: if_splits)
qed

abbreviation pde_nr :: "kernel \<Rightarrow> nat \<Rightarrow> u32" where
  "pde_nr k i \<equiv> pmem k (pde_addr k (entry_va i 0))"

abbreviation pte_nr :: "kernel \<Rightarrow> nat \<Rightarrow> nat \<Rightarrow> u32" where
  "pte_nr k i j \<equiv> pmem k (pte_addr k (entry_va i j))"

lemma pde_nr_present: "i < 768 \<Longrightarrow> j < 1024 \<Longrightarrow> pde_nr k i AND 1 \<noteq> 0 \<longleftrightarrow> pde_present k (entry_va i j)"
  using entry_va_offs(1) [of i] unfolding and_1_bit pde_present_def by (simp add: pde_addr_def)

lemma entry_walk:
  assumes "i < 768" "j < 1024" "pde_nr k i AND 1 \<noteq> 0" "pte_nr k i j AND 1 \<noteq> 0"
  shows "mmu_walk k (entry_va i j) = Some (page_of (pte_nr k i j) + take_bit 12 (entry_va i j))"
  using assms pde_nr_present [of i j k] by (simp add: mmu_walk_eq and_1_bit)

lemma user_released_entries:
  "user_released k = {a. \<exists>i < 768. pde_nr k i AND 1 \<noteq> 0 \<and>
     (a = page_of (pde_nr k i) \<or> (\<exists>j < 1024. pte_nr k i j AND 1 \<noteq> 0 \<and> a = page_of (masked (pte_nr k i j))))}" (is "_ = ?A")
proof (rule set_eqI, rule iffI)
  fix a assume "a \<in> user_released k"
  then consider (page) va pa where "va < 0xc0000000" "mmu_walk k va = Some pa" "a = take_bit 28 (page_of pa)"
    | (table) va where "va < 0xc0000000" "pde_present k va" "a = page_of (pmem k (pde_addr k va))"
    by (auto simp: user_released_def)
  then show "a \<in> ?A"
  proof cases
    case page
    obtain i j where ij: "i < 768" "j < 1024" "pde_off va = pde_off (entry_va i j)" "pte_off va = pte_off (entry_va i j)"
      using entry_va_of [OF page(1)] by blast
    then have "pte_addr k va = pte_addr k (entry_va i j)" "pde_present k va = pde_present k (entry_va i j)"
      by (simp_all add: pte_addr_def pde_present_def pde_addr_def)
    then have "pde_nr k i AND 1 \<noteq> 0" "pte_nr k i j AND 1 \<noteq> 0" "a = page_of (masked (pte_nr k i j))"
      using mmu_walk_frame [OF page(2)] page(3) pde_nr_present [OF ij(1,2), of k] by (simp_all add: and_1_bit masked_page)
    then show ?thesis using ij(1,2) by blast
  next
    case table
    obtain i j where ij: "i < 768" "j < 1024" "pde_off va = pde_off (entry_va i j)"
      using entry_va_of [OF table(1)] by blast
    then have "pde_addr k va = pde_addr k (entry_va i 0)" using entry_va_offs(1) [of i] by (simp add: pde_addr_def)
    then show ?thesis using table ij(1) by (auto simp: pde_present_def and_1_bit)
  qed
next
  fix a assume "a \<in> ?A"
  then consider (table) i where "i < 768" "pde_nr k i AND 1 \<noteq> 0" "a = page_of (pde_nr k i)"
    | (page) i j where "i < 768" "j < 1024" "pde_nr k i AND 1 \<noteq> 0" "pte_nr k i j AND 1 \<noteq> 0" "a = page_of (masked (pte_nr k i j))" by auto
  then show "a \<in> user_released k"
  proof cases
    case table
    then show ?thesis using pde_nr_present [of i 0 k] entry_va_user [of i 0] by (auto simp: user_released_def)
  next
    case page
    note w = entry_walk [OF page(1-4)]
    have "a = take_bit 28 (page_of (page_of (pte_nr k i j) + take_bit 12 (entry_va i j)))"
      using mmu_walk_frame [OF w] page(5) by (simp add: masked_page)
    then show ?thesis unfolding user_released_def
      by (intro UnI1 CollectI exI conjI) (assumption, rule entry_va_user [OF page(1,2)], rule w)
  qed
qed

lemma user_entry:
  assumes ok: "user_half_ok k" and e: "i < 768" "j < 1024" "pde_nr k i AND 1 \<noteq> 0" "pte_nr k i j AND 1 \<noteq> 0"
  shows "is_frame k (page_of (masked (pte_nr k i j)))"
proof -
  note w = entry_walk [OF e]
  then have "is_frame k (take_bit 28 (page_of (page_of (pte_nr k i j) + take_bit 12 (entry_va i j))))"
    using ok entry_va_user [OF e(1,2)] mmu_walk_frame [OF w] unfolding user_half_ok_def by blast
  then show ?thesis using mmu_walk_frame [OF w] by (simp add: masked_page)
qed

lemma low_released:
  assumes "\<forall>va < 0xc0000000. \<forall>pa. mmu_walk k va = Some pa \<longrightarrow> pa < 0x10000000"
  shows "user_released k = user_frames k"
proof -
  have "take_bit 28 (page_of pa) = page_of pa" if "pa < 0x10000000" for pa :: u32
  proof -
    have "unat (page_of pa) < 2 ^ 28" using that page_of_le [of pa] by (simp add: word_le_nat_alt word_less_nat_alt)
    then show ?thesis by (simp add: word_unat_eq_iff take_bit_eq_mod unat_mod)
  qed
  then have "(va < 0xc0000000 \<and> mmu_walk k va = Some pa \<and> a = take_bit 28 (page_of pa)) \<longleftrightarrow>
      (va < 0xc0000000 \<and> mmu_walk k va = Some pa \<and> a = page_of pa)" for va pa a
    using assms by auto
  then have "{take_bit 28 (page_of pa) |va pa. va < 0xc0000000 \<and> mmu_walk k va = Some pa} =
      {page_of pa |va pa. va < 0xc0000000 \<and> mmu_walk k va = Some pa}" by (metis (no_types, lifting))
  then show ?thesis by (simp add: user_released_def user_frames_def)
qed

text \<open>
  C33: When a process ends its page tables and pages are walked to the end, and exactly the frames of \<open>user_released\<close> become
  free: every page table of its user half, and for every page mapped below 3 GB the frame at the address of the page modulo 256
  megabytes, since the mask of line 43 drops the top four bits. They are the frames of the process if all its pages lie below 256 megabytes.
\<close>

theorem exit_frees_memory:
  assumes apart: "pools_apart k" and sm: "self_mapped k" and dir: "mmu_walk k pd = Some (page_of (cr3 k))" "page_of pd = pd"
    and ok: "user_half_ok k"
  shows "\<exists>k'. free_pdes k pd 0 768 = Inr k' \<and> freed k (user_released k) k' \<and>
    ((\<forall>va < 0xc0000000. \<forall>pa. mmu_walk k va = Some pa \<longrightarrow> pa < 0x10000000) \<longrightarrow> user_released k = user_frames k)"
proof -
  have dr: "vread32 k (pd + 4 * (0 + of_nat i)) = Inr (pde_nr k i)" if "i < 768" for i
  proof -
    have "take_bit 12 (4 * of_nat i) = (4 * of_nat i :: u32)"
      using that by (simp add: word_unat_eq_iff take_bit_eq_mod unat_mod unat_word_ariths)
    from mmu_walk_page [OF dir this] show ?thesis
      using that entry_va_offs(1) [of i 0] by (simp add: vread32_def pde_addr_def)
  qed
  have df: "is_frame k (pde_nr k i AND 0xfffff000)" if "i < 768" "pde_nr k i AND 1 \<noteq> 0" for i
    using ok entry_va_user [of i 0] pde_nr_present [of i 0 k] that by (simp add: user_half_ok_def)
  have er: "vread32 k (pte_ptr ((0 + of_nat i) * 0x400000) + 4 * of_nat j) = Inr (pte_nr k i j)"
    if "i < 768" "pde_nr k i AND 1 \<noteq> 0" "j < 1024" for i j
    using entry_va_offs(3) [of i j] mmu_walk_pte_ptr [OF sm] pde_nr_present [of i j k] that by (simp add: vread32_def)
  have ef: "is_frame k (page_of (masked (pte_nr k i j)))"
    if "i < 768" "pde_nr k i AND 1 \<noteq> 0" "j < 1024" "pte_nr k i j AND 1 \<noteq> 0" for i j
    using user_entry [OF ok that(1,3,2,4)] .
  show ?thesis
    using free_pdes_run [of k 768 pd 0 "pde_nr k" "pte_nr k", OF apart dr df er ef] low_released [of k]
    unfolding user_released_entries [symmetric] by blast
qed

section \<open>The end of a process\<close>

text \<open>The loop over the descriptors; a descriptor of a pipe stays in the table.\<close>

primrec close_fds :: "os \<Rightarrow> u32 \<Rightarrow> u32 \<Rightarrow> nat \<Rightarrow> os ores" where
  "close_fds w t fd_idx 0 = Inr w"
| "close_fds w t fd_idx (Suc n) =
     bnd (if fdtable (tasks (kern w) t) ! unat fd_idx \<noteq> - 1
          then bnd (is_pipe w fd_idx) (\<lambda>p.
               if p then bnd (fd_global w fd_idx) (\<lambda>g. pipe_drop w g)
               else bnd (sys_close w fd_idx) (\<lambda>(_, w). Inr w))
          else Inr w) (\<lambda>w.
     close_fds w t (fd_idx + 1) n)"

definition release_prog_resource :: "os \<Rightarrow> u32 \<Rightarrow> os ores" where
  "release_prog_resource w t =
     bnd (do_kern (\<lambda>k. free_pdes k (pgdir (tasks k t)) 0 768) w) (\<lambda>w.
     bnd (do_kern (\<lambda>k.
       let b = vaddr_bitmap (userprog_vaddr (tasks k t)); bitmap_pg_cnt = btmp_bytes_len b div PG_SIZE
       in mfree_page k PF_KERNEL (bits b) bitmap_pg_cnt) w) (\<lambda>w.
     close_fds w t 3 (MAX_FILES_OPEN_PER_PROC - 3)))"

definition fine_child :: "kernel \<Rightarrow> u32 \<Rightarrow> u32 \<Rightarrow> bool" where
  "fine_child k ppid pthread \<longleftrightarrow> scast (parent_pid (tasks k pthread)) = ppid"

definition find_hanging_child :: "kernel \<Rightarrow> u32 \<Rightarrow> u32 \<Rightarrow> bool" where
  "find_hanging_child k ppid pthread \<longleftrightarrow>
     status (tasks k pthread) = TASK_HANGING \<and> scast (parent_pid (tasks k pthread)) = ppid"

definition init_adopt_a_child :: "u32 \<Rightarrow> u32 \<Rightarrow> kernel \<Rightarrow> kernel" where
  "init_adopt_a_child ppid pthread k =
     (if scast (parent_pid (tasks k pthread)) = ppid then upd_task k pthread (\<lambda>t. t\<lparr>parent_pid := 1\<rparr>) else k)"

text \<open>The last part of \<open>sys_exit\<close>: the parent is woken, and the process hangs until it is collected.\<close>

definition exit_notify :: "kernel \<Rightarrow> kernel kres" where
  "exit_notify k =
     (let parent_thread = pid_to_thread k (scast (parent_pid (tasks k (running_thread k))))
      in if parent_thread = NULL then Inl (Fault ''parent_thread'')
         else bnd (if status (tasks k parent_thread) = TASK_WAITING then thread_unblock k parent_thread else Inr k) (\<lambda>k.
              thread_block k TASK_HANGING))"

definition sys_exit :: "os \<Rightarrow> u32 \<Rightarrow> os ores" where
  "sys_exit w st =
     (let child_thread = running_thread (kern w);
          w = w\<lparr>kern := upd_task (kern w) child_thread (\<lambda>t. t\<lparr>exit_status := ucast st\<rparr>)\<rparr>
      in if parent_pid (tasks (kern w) child_thread) = - 1 then Inl (Panic ''sys_exit: child_thread->parent_pid == -1'')
         else let ppid = scast (pid (tasks (kern w) child_thread));
                  w = w\<lparr>kern := fold (init_adopt_a_child ppid) (thread_all_list (kern w)) (kern w)\<rparr>
              in bnd (release_prog_resource w child_thread) (\<lambda>w. do_kern exit_notify w))"

text \<open>
  The loop of \<open>sys_wait\<close>. The result is the identifier of the child with its exit status, or \<open>- 1\<close>, and nothing written, when
  there is no child.
\<close>

partial_function (option) wait_loop :: "(u32 \<Rightarrow> bool) \<Rightarrow> kernel \<Rightarrow> u32 \<Rightarrow> ((u16 \<times> u32 option) \<times> kernel) kres option" where
  "wait_loop tlb k parent_thread =
     (let ppid = scast (pid (tasks k parent_thread))
      in case find (find_hanging_child k ppid) (thread_all_list k) of
           Some child_thread \<Rightarrow>
             Some (let child = tasks k child_thread
                   in bnd (thread_exit tlb k child_thread False) (\<lambda>k. Inr ((pid child, Some (scast (exit_status child))), k)))
         | None \<Rightarrow>
             (case find (fine_child k ppid) (thread_all_list k) of
                None \<Rightarrow> Some (Inr ((- 1, None), k))
              | Some _ \<Rightarrow> (case thread_block k TASK_WAITING of Inl h \<Rightarrow> Some (Inl h) | Inr k \<Rightarrow> wait_loop tlb k parent_thread)))"

declare wait_loop.simps [code]

definition sys_wait :: "(u32 \<Rightarrow> bool) \<Rightarrow> kernel \<Rightarrow> ((u16 \<times> u32 option) \<times> kernel) kres" where
  "sys_wait tlb k = (case wait_loop tlb k (running_thread k) of None \<Rightarrow> Inl Spin | Some r \<Rightarrow> r)"

section \<open>Collecting a child\<close>

text \<open>A page of the kernel heap with its frame.\<close>

definition owned_page :: "kernel \<Rightarrow> u32 \<Rightarrow> nat \<Rightarrow> bool" where
  "owned_page k a j \<longleftrightarrow> (\<exists>i < vpages k. a = vpage k i) \<and> j < frames k PF_KERNEL \<and>
     mmu_walk k a = Some (frame_addr k PF_KERNEL j) \<and> 0x102000 < frame_addr k PF_KERNEL j \<and>
     unused_frame k (frame_addr k PF_KERNEL j)"

text \<open>From \<open>k\<close> to \<open>k'\<close> the pages \<open>A\<close> and the frames \<open>J\<close> were given back; nothing else of the memory changed.\<close>

definition pages_back :: "kernel \<Rightarrow> u32 set \<Rightarrow> nat set \<Rightarrow> kernel \<Rightarrow> bool" where
  "pages_back k A J k' \<longleftrightarrow> kmem_ok k' \<and> vpages k' = vpages k \<and> vpage k' = vpage k \<and>
     frames k' = frames k \<and> frame_addr k' = frame_addr k \<and>
     (\<forall>n < vpages k. vpage_used k' n \<longleftrightarrow> vpage_used k n \<and> vpage k n \<notin> A) \<and>
     (\<forall>n < frames k PF_KERNEL. frame_used k' PF_KERNEL n \<longleftrightarrow> frame_used k PF_KERNEL n \<and> n \<notin> J) \<and>
     (\<forall>n < vpages k. mmu_walk k' (vpage k n) = (if vpage k n \<in> A then None else mmu_walk k (vpage k n)))"

lemma mfree_owned:
  assumes ok: "kmem_ok k" and own: "owned_page k a j"
  shows "\<exists>m. mfree_page k PF_KERNEL a 1 = Inr (lost_page k a m) \<and> pages_back k {a} {j} (lost_page k a m) \<and>
    (\<forall>x. x \<notin> bm_region (vaddr_bitmap (kernel_vaddr k)) \<union> bm_region (pool_bitmap (kernel_pool k)) \<longrightarrow> m x = vmem k x) \<and>
    (\<forall>b j'. owned_page k b j' \<longrightarrow> b \<noteq> a \<longrightarrow> owned_page (lost_page k a m) b j')"
proof -
  obtain i where i: "i < vpages k" "a = vpage k i" and j: "j < frames k PF_KERNEL"
    and map: "mmu_walk k (vpage k i) = Some (frame_addr k PF_KERNEL j)" "0x102000 < frame_addr k PF_KERNEL j"
    and u: "unused_frame k (frame_addr k PF_KERNEL j)"
    using own by (auto simp: owned_page_def)
  obtain m1 m where m: "(bitmap_set (vmem k) (pool_bitmap (kernel_pool k)) (of_nat j) 0 :: (kernel, bytes) res) = Inr m1"
    "(bitmap_set m1 (vaddr_bitmap (kernel_vaddr k)) (of_nat i) 0 :: (kernel, bytes) res) = Inr m"
    and run: "mfree_page k PF_KERNEL (vpage k i) 1 = Inr (lost_page k (vpage k i) m)"
    using mfree_kernel_page [OF ok i(1) j map] by blast
  let ?k = "lost_page k (vpage k i) m"
  note l = lost_page_kmem_ok [OF ok i(1) j u m] and b = lost_page_bits [OF ok i(1) j m]
  have kh: "kheap_ok k" and t: "tables_ok k" "pde_present k (vpage k i)" "vpage k i < 0xffc00000"
    using ok i(1) vpage_unat(2) [of k i] by (simp_all add: kmem_ok_def kmap_ok_def)
  have inj: "vpage k n = vpage k i \<longleftrightarrow> n = i" if "n < vpages k" for n using vpage_inj [OF kh that i(1)] by auto
  have same: "vpages ?k = vpages k" "vpage ?k = vpage k" "frames ?k = frames k" "frame_addr ?k = frame_addr k"
    by (simp_all add: lost_page_def vpages_def vpage_def fun_eq_iff frames_def frame_addr_def pool_of_def split: pool_flags.splits)
  have "pages_back k {vpage k i} {j} ?k"
    using l(1) same l(2) b(1,2) inj by (auto simp: pages_back_def)
  moreover have "owned_page ?k c j'" if c: "owned_page k c j'" "c \<noteq> vpage k i" for c j'
  proof -
    obtain n where n: "n < vpages k" "c = vpage k n" using c(1) by (auto simp: owned_page_def)
    then have "mmu_walk ?k c = mmu_walk k c" using l(2) [of n] c(2) by auto
    then show ?thesis using c(1) lost_page_tables(4) [OF t] by (simp add: owned_page_def same)
  qed
  moreover have "m x = vmem k x" if "x \<notin> bm_region (vaddr_bitmap (kernel_vaddr k)) \<union> bm_region (pool_bitmap (kernel_pool k))" for x
    using that b(3) by blast
  ultimately show ?thesis using run i(2) by blast
qed

lemma pages_back_trans: "pages_back k A J k1 \<Longrightarrow> pages_back k1 B L k2 \<Longrightarrow> pages_back k (A \<union> B) (J \<union> L) k2"
  by (auto simp: pages_back_def)

lemma pages_back_same: "kmem_ok k \<Longrightarrow> same_kmem k k' \<Longrightarrow> pages_back k {} {} k'"
  using same_kmem_view [of k k'] by (auto simp: pages_back_def fun_eq_iff)

lemma owned_page_same: "same_kmem k k' \<Longrightarrow> owned_page k' a j = owned_page k a j"
  using same_kmem_view [of k k'] by (simp add: owned_page_def)

lemma lost_page_fields [simp]:
  "tasks (lost_page k a m) = tasks k" "thread_all_list (lost_page k a m) = thread_all_list k" "locks (lost_page k a m) = locks k"
  "thread_ready_list (lost_page k a m) = thread_ready_list k" "main_thread (lost_page k a m) = main_thread k"
  "running_thread (lost_page k a m) = running_thread k" "pid_bitmap (lost_page k a m) = pid_bitmap k"
  "pid_start (lost_page k a m) = pid_start k" "vmem (lost_page k a m) = m" "kernel_vaddr (lost_page k a m) = kernel_vaddr k"
  "kernel_pool (lost_page k a m) = kernel_pool k" "cr3 (lost_page k a m) = cr3 k" "user_pool (lost_page k a m) = user_pool k"
  "esp (lost_page k a m) = esp k"
  by (simp_all add: lost_page_def running_thread_def)

lemma upd_task_lists [simp]:
  "thread_all_list (upd_task k t f) = thread_all_list k" "main_thread (upd_task k t f) = main_thread k"
  by (simp_all add: upd_task_def)

lemma release_pid_eq:
  assumes ok: "pids_ok k" and lock: "locks k Pid_lock = free_lock" "running_thread k \<noteq> NULL" and p: "pid_valid p"
  shows "\<exists>m. release_pid k p = Inr (k\<lparr>vmem := m\<rparr>) \<and> (\<forall>x. x \<notin> bm_region (pid_bitmap k) \<longrightarrow> m x = vmem k x) \<and>
    (\<forall>q. pid_valid q \<longrightarrow> (pid_used (k\<lparr>vmem := m\<rparr>) q \<longleftrightarrow> pid_used k q \<and> q \<noteq> p))"
proof -
  let ?i = "unat p - 1" and ?c = "running_thread k"
  have i: "?i < 1024" "p = of_nat (Suc ?i)"
    using p by (auto simp: pid_valid_def word_le_nat_alt)
  obtain m where m: "(bitmap_set (vmem k) (pid_bitmap k) (of_nat ?i) 0 :: (kernel, bytes) res) = Inr m"
    using bm.upd_ok by blast
  let ?k2 = "(k\<lparr>locks := (locks k)(Pid_lock := held_lock ?c)\<rparr>)\<lparr>vmem := m\<rparr>"
  have "running_thread ?k2 = ?c" by (simp add: running_thread_def)
  then have "lock_release ?k2 Pid_lock = Inr (k\<lparr>vmem := m\<rparr>)"
    using lock_release_held [of ?k2 Pid_lock] lock(1) by (simp add: fun_upd_idem)
  moreover have "scast p - 1 = (of_nat ?i :: u32)" using pid_of_index(4) [OF i(1)] unfolding i(2) [symmetric] .
  ultimately have "release_pid k p = Inr (k\<lparr>vmem := m\<rparr>)"
    using lock_acquire_free [OF lock] m ok by (simp add: release_pid_def k_bitmap_set_def pids_ok_def)
  moreover have "m x = vmem k x" if "x \<notin> bm_region (pid_bitmap k)" for x
    using bitmap_set_outside [OF m _ that] i(1) pids_ok_len [OF ok] by simp
  moreover have "pid_used (k\<lparr>vmem := m\<rparr>) q \<longleftrightarrow> pid_used k q \<and> q \<noteq> p" if "pid_valid q" for q
    using pid_used_set [OF ok i(1) that m] unfolding i(2) [symmetric] by auto
  ultimately show ?thesis by blast
qed

lemma pages_back_pid:
  assumes "kmem_ok k" "pid_apart k" "\<And>x. x \<notin> bm_region (pid_bitmap k) \<Longrightarrow> m x = vmem k x"
  shows "pages_back k {} {} (k\<lparr>vmem := m\<rparr>)"
proof -
  have e: "m x = vmem k x" if "x \<in> bm_region (vaddr_bitmap (kernel_vaddr k)) \<union> bm_region (pool_bitmap (kernel_pool k))" for x
    using assms(2,3) that by (auto simp: pid_apart_def)
  note c = kmem_ok_cong [of "k\<lparr>vmem := m\<rparr>" k, simplified, OF e [unfolded Un_iff]]
  have "frame_used (k\<lparr>vmem := m\<rparr>) PF_KERNEL n = frame_used k PF_KERNEL n" if "n < frames k PF_KERNEL" for n
    using that e by (intro frame_used_cong) auto
  then show ?thesis using c assms(1) by (auto simp: pages_back_def fun_eq_iff)
qed

lemma pid_used_same:
  assumes "pids_ok k" "pid_bitmap k' = pid_bitmap k" "\<And>x. x \<in> bm_region (pid_bitmap k) \<Longrightarrow> vmem k' x = vmem k x" "pid_valid q"
  shows "pid_used k' q = pid_used k q"
proof -
  have "unat q - 1 < bm_len (pid_bitmap k)" using assms(1,4) by (auto simp: pids_ok_len pid_valid_def word_le_nat_alt)
  then show ?thesis using bm_bit_cong [of "unat q - 1" "pid_bitmap k" "vmem k'" "vmem k"] assms(2,3) by (simp add: pid_used_def)
qed

text \<open>What is left of a process that hangs, and what \<open>thread_exit\<close> does with it.\<close>

definition parked :: "kernel \<Rightarrow> u32 \<Rightarrow> nat \<Rightarrow> nat \<Rightarrow> bool" where
  "parked k c i j \<longleftrightarrow> c \<notin> set (thread_ready_list k) \<and> c \<noteq> main_thread k \<and> pid_valid (pid (tasks k c)) \<and>
     pgdir (tasks k c) \<noteq> NULL \<and> pgdir (tasks k c) \<noteq> c \<and> owned_page k (pgdir (tasks k c)) i \<and> owned_page k c j"

definition reaped :: "kernel \<Rightarrow> u32 \<Rightarrow> nat \<Rightarrow> nat \<Rightarrow> kernel \<Rightarrow> bool" where
  "reaped k c i j k' \<longleftrightarrow> pages_back k {pgdir (tasks k c), c} {i, j} k' \<and>
     tasks k' = (tasks k)(c := (tasks k c)\<lparr>status := TASK_DIED\<rparr>) \<and> thread_all_list k' = remove1 c (thread_all_list k) \<and>
     thread_ready_list k' = thread_ready_list k \<and> locks k' = locks k \<and> running_thread k' = running_thread k \<and>
     (\<forall>q. pid_valid q \<longrightarrow> (pid_used k' q \<longleftrightarrow> pid_used k q \<and> q \<noteq> pid (tasks k c)))"

lemma reaped_flags: "reaped (k\<lparr>flags := e\<rparr>) c i j k' = reaped k c i j k'"
proof -
  have "same_kmem k (k\<lparr>flags := e\<rparr>)" by (simp add: same_kmem_def)
  note v = same_kmem_view [OF this]
  have "frames (k\<lparr>flags := e\<rparr>) = frames k" "frame_addr (k\<lparr>flags := e\<rparr>) = frame_addr k"
    "pid_used (k\<lparr>flags := e\<rparr>) = pid_used k" using v(4,6) by (auto simp: pid_used_def)
  then show ?thesis unfolding reaped_def pages_back_def v by simp
qed

lemma thread_exit_reaps:
  assumes ok: "kmem_ok k" "pids_ok k" "pid_apart k" and lock: "locks k Pid_lock = free_lock" "running_thread k \<noteq> NULL"
    and c: "parked k c i j"
  shows "\<exists>k'. thread_exit tlb k c False = (if tlb c then Inr k' else Inl (Fault ''thread_over->pid'')) \<and> reaped k c i j k'"
proof -
  let ?pd = "pgdir (tasks k c)" and ?pb = "bm_region (pid_bitmap k)"
  let ?k1 = "upd_task (k\<lparr>flags := snd (intr_disable (flags k))\<rparr>) c (\<lambda>t. t\<lparr>status := TASK_DIED\<rparr>)"
  note c' = c [unfolded parked_def]
  have s1: "same_kmem k ?k1" by (simp add: same_kmem_def upd_task_def)
  have own1: "owned_page ?k1 ?pd i" "owned_page ?k1 c j" using c' owned_page_same [OF s1] by simp_all
  have ok1: "kmem_ok ?k1" using same_kmem_view(9) [OF s1] ok(1) by simp
  obtain m1 where m1: "mfree_page ?k1 PF_KERNEL ?pd 1 = Inr (lost_page ?k1 ?pd m1)" "pages_back ?k1 {?pd} {i} (lost_page ?k1 ?pd m1)"
    "\<forall>x. x \<notin> bm_region (vaddr_bitmap (kernel_vaddr k)) \<union> bm_region (pool_bitmap (kernel_pool k)) \<longrightarrow> m1 x = vmem k x"
    "owned_page (lost_page ?k1 ?pd m1) c j"
    using mfree_owned [OF ok1 own1(1)] own1(2) c' by (auto simp: upd_task_def)
  let ?k2 = "lost_page ?k1 ?pd m1"
  let ?k3 = "?k2\<lparr>thread_all_list := remove1 c (thread_all_list k)\<rparr>"
  have s3: "same_kmem ?k2 ?k3" by (simp add: same_kmem_def)
  have ok2: "kmem_ok ?k2" using m1(2) by (simp add: pages_back_def)
  have own3: "owned_page ?k3 c j" using m1(4) by (simp only: owned_page_same [OF s3])
  have ok3: "kmem_ok ?k3" using same_kmem_view(9) [OF s3] ok2 by simp
  obtain m2 where m2: "mfree_page ?k3 PF_KERNEL c 1 = Inr (lost_page ?k3 c m2)" "pages_back ?k3 {c} {j} (lost_page ?k3 c m2)"
    "\<forall>x. x \<notin> bm_region (vaddr_bitmap (kernel_vaddr ?k3)) \<union> bm_region (pool_bitmap (kernel_pool ?k3)) \<longrightarrow> m2 x = vmem ?k3 x"
    using mfree_owned [OF ok3 own3] by blast
  have m2': "m2 x = m1 x" if "x \<notin> bm_region (vaddr_bitmap (kernel_vaddr k)) \<union> bm_region (pool_bitmap (kernel_pool k))" for x
    using m2(3) that by (simp add: upd_task_def)
  let ?k4 = "lost_page ?k3 c m2"
  have f4: "pid_bitmap ?k4 = pid_bitmap k" "locks ?k4 = locks k" "running_thread ?k4 = running_thread k"
    by (simp_all add: upd_task_def running_thread_def)
  have ok4: "pids_ok ?k4" "pid_apart ?k4" "kmem_ok ?k4"
  proof -
    show "pids_ok ?k4" using ok(2) by (simp add: pids_ok_def upd_task_def)
    have "vpages ?k4 = vpages k" "vpage ?k4 = vpage k" by (simp_all add: vpages_def vpage_def fun_eq_iff upd_task_def)
    then show "pid_apart ?k4" using ok(3) by (simp add: pid_apart_def upd_task_def)
    show "kmem_ok ?k4" using m2(2) by (simp add: pages_back_def)
  qed
  obtain m3 where m3: "release_pid ?k4 (pid (tasks k c)) = Inr (?k4\<lparr>vmem := m3\<rparr>)" "\<forall>x. x \<notin> ?pb \<longrightarrow> m3 x = m2 x"
    "\<forall>q. pid_valid q \<longrightarrow> (pid_used (?k4\<lparr>vmem := m3\<rparr>) q \<longleftrightarrow> pid_used ?k4 q \<and> q \<noteq> pid (tasks k c))"
    using release_pid_eq [OF ok4(1), of "pid (tasks k c)"] c' lock unfolding f4 by auto
  let ?k5 = "?k4\<lparr>vmem := m3\<rparr>"
  have "pid_used ?k4 q = pid_used k q" if "pid_valid q" for q
    using pid_used_same [OF ok(2) f4(1) _ that] m1(3) m2' ok(3) by (auto simp: pid_apart_def)
  then have pids: "\<forall>q. pid_valid q \<longrightarrow> (pid_used ?k5 q \<longleftrightarrow> pid_used k q \<and> q \<noteq> pid (tasks k c))" using m3(3) by simp
  have "pages_back ?k4 {} {} ?k5" using pages_back_pid [OF ok4(3,2), of m3] m3(2) by (simp add: f4(1) del: lost_page_fields(7))
  from pages_back_trans [OF pages_back_trans [OF pages_back_trans [OF pages_back_trans [OF pages_back_same [OF ok(1) s1] m1(2)]
      pages_back_same [OF ok2 s3]] m2(2)] this]
  have pb: "pages_back k {?pd, c} {i, j} ?k5" by (simp add: insert_commute)
  have "thread_exit tlb k c False = (if tlb c then Inr ?k5 else Inl (Fault ''thread_over->pid''))"
    using c' m1(1) m2(1) m3(1) by (simp add: thread_exit_def kl_find_def kl_remove_def Let_def split_def)
  moreover have "reaped k c i j ?k5" using pb pids f4(3) by (simp add: reaped_def running_thread_def)
  ultimately show ?thesis by blast
qed

text \<open>
  \<open>sys_wait\<close> with a child that hangs: the parent gets its identifier and exit status, sign-extended from one byte; its PCB and
  its page directory go back to the kernel pool, the identifier is free and the child is in no list any more, provided that the TLB still has the page of the PCB.
\<close>

theorem sys_wait_collects:
  assumes ok: "kmem_ok k" "pids_ok k" "pid_apart k" and lock: "locks k Pid_lock = free_lock" "running_thread k \<noteq> NULL"
    and child: "find (find_hanging_child k (scast (pid (tasks k (running_thread k))))) (thread_all_list k) = Some c"
    and c: "parked k c i j" and tlb: "tlb c"
  shows "\<exists>k'. sys_wait tlb k = Inr ((pid (tasks k c), Some (scast (exit_status (tasks k c)))), k') \<and> reaped k c i j k'"
  using thread_exit_reaps [OF ok lock c, of tlb] child tlb
  by (auto simp: sys_wait_def wait_loop.simps [of tlb k "running_thread k"] Let_def)

lemma sys_wait_no_child:
  assumes "find (fine_child k (scast (pid (tasks k (running_thread k))))) (thread_all_list k) = None"
  shows "sys_wait tlb k = Inr ((- 1, None), k)"
proof -
  have "find (find_hanging_child k (scast (pid (tasks k (running_thread k))))) (thread_all_list k) = None"
    using assms by (auto simp: find_None_iff fine_child_def find_hanging_child_def)
  with assms show ?thesis by (simp add: sys_wait_def wait_loop.simps [of tlb k "running_thread k"] Let_def)
qed

section \<open>From exit to wait\<close>

definition dir_frame :: "kernel \<Rightarrow> u32 \<Rightarrow> u32 kres" where
  "dir_frame k t = (if pgdir (tasks k t) \<noteq> NULL then addr_v2p k (pgdir (tasks k t)) else Inr 0x100000)"

text \<open>The state in which the parent \<open>p\<close> goes on, in its own address space, when the child \<open>c\<close> has given up the CPU.\<close>

definition resumed :: "kernel \<Rightarrow> u32 \<Rightarrow> u32 \<Rightarrow> u32 \<Rightarrow> kernel" where
  "resumed k c p pa = k\<lparr>flags := snd (intr_disable (flags k)), esp := self_kstack (tasks k p) + 16, cr3 := pa,
     tss := (if pgdir (tasks k p) \<noteq> NULL then (tss k)\<lparr>tss_esp0 := p + PG_SIZE\<rparr> else tss k),
     tasks := (tasks k)(p := (tasks k p)\<lparr>status := TASK_RUNNING\<rparr>, c := (tasks k c)\<lparr>status := TASK_HANGING, self_kstack := esp k - 16\<rparr>)\<rparr>"

lemma exit_notify_resumes:
  assumes p: "pid_to_thread k (scast (parent_pid (tasks k (running_thread k)))) = p" "p \<noteq> NULL" "p \<noteq> running_thread k"
    and st: "status (tasks k p) = TASK_WAITING" "p \<notin> set (thread_ready_list k)" and dir: "dir_frame k p = Inr pa"
  shows "exit_notify k = Inl (Yield (resumed k (running_thread k) p pa))"
proof -
  let ?c = "running_thread k"
  let ?k1 = "upd_task (k\<lparr>thread_ready_list := p # thread_ready_list k\<rparr>) p (\<lambda>x. x\<lparr>status := TASK_READY\<rparr>)"
  let ?k2 = "upd_task (?k1\<lparr>flags := snd (intr_disable (flags ?k1))\<rparr>) ?c (\<lambda>t. t\<lparr>status := TASK_HANGING\<rparr>)"
  let ?k3 = "upd_task (?k2\<lparr>thread_ready_list := thread_ready_list k\<rparr>) p (\<lambda>t. t\<lparr>status := TASK_RUNNING\<rparr>)"
  have one: "thread_unblock k p = Inr ?k1" using thread_unblock_ok st by simp
  have dir3: "(if pgdir (tasks ?k3 p) \<noteq> NULL then addr_v2p ?k3 (pgdir (tasks ?k3 p)) else Inr 0x100000) = Inr pa"
  proof -
    have e: "pmem ?k3 = pmem k" "cr3 ?k3 = cr3 k" by (simp_all add: upd_task_def)
    have "addr_v2p ?k3 a = addr_v2p k a" for a unfolding addr_v2p_def vread32_def mmu_walk_cong [OF e] e ..
    then show ?thesis using dir p(3) by (auto simp: dir_frame_def split: if_splits)
  qed
  have "process_activate ?k3 p = Inr (if pgdir (tasks k p) \<noteq> NULL then update_tss_esp (?k3\<lparr>cr3 := pa\<rparr>) p else ?k3\<lparr>cr3 := pa\<rparr>)"
    using p(2,3) unfolding process_activate_def page_dir_activate_def dir3 by simp
  then have "schedule ?k2 = Inl (Yield (switch_to (if pgdir (tasks k p) \<noteq> NULL then update_tss_esp (?k3\<lparr>cr3 := pa\<rparr>) p else ?k3\<lparr>cr3 := pa\<rparr>) ?c p))"
    using p(3) unfolding schedule_def by (simp add: kl_defs Let_def intr_off_def)
  moreover have "switch_to (if pgdir (tasks k p) \<noteq> NULL then update_tss_esp (?k3\<lparr>cr3 := pa\<rparr>) p else ?k3\<lparr>cr3 := pa\<rparr>) ?c p =
      resumed k ?c p pa"
    using p(3) by (auto simp: switch_to_def update_tss_esp_def upd_task_def resumed_def Let_def fun_eq_iff)
  ultimately have "thread_block ?k1 TASK_HANGING = Inl (Yield (resumed k ?c p pa))"
    by (simp add: thread_block_def split_def Let_def)
  then show ?thesis using p st one by (simp add: exit_notify_def)
qed

lemma ucast_scast_u16: "ucast (scast (x :: u16) :: u32) = x"
  by (rule bit_word_eqI) (simp add: bit_simps)

lemma find_unique: "c \<in> set xs \<Longrightarrow> (\<And>t. t \<in> set xs \<Longrightarrow> P t \<longleftrightarrow> t = c) \<Longrightarrow> find P xs = Some c"
  by (induction xs) auto


section \<open>Examples\<close>

lemma new_page_owned:
  assumes ok: "kmem_ok k" and i: "i < vpages k" and j: "j < frames k PF_KERNEL" "\<not> frame_used k PF_KERNEL j" "0x102000 < frame_addr k PF_KERNEL j"
  shows "owned_page (new_page k (vpage k i) (frame_addr k PF_KERNEL j) m) (vpage k i) j"
    "owned_page k b l \<Longrightarrow> b \<noteq> vpage k i \<Longrightarrow> owned_page (new_page k (vpage k i) (frame_addr k PF_KERNEL j) m) b l"
proof -
  let ?pa = "frame_addr k PF_KERNEL j" and ?k = "new_page k (vpage k i) (frame_addr k PF_KERNEL j) m"
  have kh: "kheap_ok k" and km: "kmap_ok k" and kf: "kframes_ok k" using ok by (simp_all add: kmem_ok_def)
  have t: "tables_ok k" "pde_present k (vpage k i)" "vpage k i < 0xffc00000" "unused_frame k ?pa" "page_of ?pa = ?pa"
    using km kf i j vpage_unat(2) [OF kh i] kframe_addr(1) [OF kf j(1)] by (simp_all add: kmap_ok_def kframes_ok_def)
  have same: "vpages ?k = vpages k" "vpage ?k = vpage k" "frames ?k PF_KERNEL = frames k PF_KERNEL" "frame_addr ?k PF_KERNEL = frame_addr k PF_KERNEL"
    by (simp_all add: new_page_def vpages_def vpage_def frames_def frame_addr_def pool_of_def fun_eq_iff)
  note w = new_page_walk(5) [OF t, of m] and u = new_page_tables_ok(2) [OF t, of m]
  show "owned_page ?k (vpage k i) j"
    using i j t(2,4) u by (auto simp: owned_page_def same w vpage_unat(5) [OF kh])
  assume b: "owned_page k b l" "b \<noteq> vpage k i"
  then obtain n where n: "n < vpages k" "b = vpage k n" by (auto simp: owned_page_def)
  then have "pte_addr k b \<noteq> pte_addr k (vpage k i)" using km i b(2) by (auto simp: kmap_ok_def)
  then show "owned_page ?k b l" using b(1) u by (simp add: owned_page_def same w)
qed

definition like_proc :: "kernel \<Rightarrow> bool" where
  "like_proc k \<longleftrightarrow> kernel_vaddr k = kernel_vaddr heap_kernel \<and> kernel_pool k = kernel_pool heap_kernel \<and>
     user_pool k = user_pool heap_kernel \<and> pid_bitmap k = \<lparr>btmp_bytes_len = 128, bits = 0xc0098000\<rparr> \<and> pid_start k = 1 \<and> cr3 k = 0x100000 \<and>
     main_thread k = 0xc009e000 \<and> locks k = locks boot_kernel"

lemma proc_new_page:
  assumes k: "like_proc k" "kmem_ok k" and i: "i < 16" and j: "j < 16" "\<not> frame_used k PF_KERNEL j"
  shows "\<exists>k'. like_proc k' \<and> kmem_ok k' \<and> owned_page k' (vpage heap_kernel i) j \<and>
    (\<forall>b l. owned_page k b l \<longrightarrow> b \<noteq> vpage heap_kernel i \<longrightarrow> owned_page k' b l) \<and>
    (\<forall>n < 16. frame_used k' PF_KERNEL n \<longleftrightarrow> n = j \<or> frame_used k PF_KERNEL n)"
proof -
  have f: "vpages k = 16" "frames k PF_KERNEL = 16" "vpage k = vpage heap_kernel" "frame_addr k PF_KERNEL j = 0x200000 + of_nat j * 0x1000"
    using k(1) by (auto simp: like_proc_def vpages_def frames_def vpage_def frame_addr_def pool_of_def fun_eq_iff
        heap_kernel_def bm_len_def PG_SIZE_def)
  have high: "0x102000 < frame_addr k PF_KERNEL j"
    unfolding f(4) using j(1) by (simp add: word_less_nat_alt unat_word_ariths)
  obtain m1 where m1: "(bitmap_set (vmem k) (vaddr_bitmap (kernel_vaddr k)) (of_nat i) 1 :: (kernel, bytes) res) = Inr m1" using bm.upd_ok by blast
  obtain m2 where m2: "(bitmap_set m1 (pool_bitmap (kernel_pool k)) (of_nat j) 1 :: (kernel, bytes) res) = Inr m2" using bm.upd_ok by blast
  have ij: "i < vpages k" "j < frames k PF_KERNEL" using i j(1) by (simp_all add: f)
  note o = new_page_owned [OF k(2) ij j(2) high, where m = m2, unfolded f(3)]
  have "like_proc (new_page k (vpage heap_kernel i) (frame_addr k PF_KERNEL j) m2)" using k(1) by (simp add: like_proc_def new_page_def)
  then show ?thesis
    using new_page_kmem_ok [OF k(2) ij j(2) m1 m2, unfolded f(3)] o new_page_bits(2) [OF k(2) ij m1 m2, unfolded f(2,3)] by blast
qed

text \<open>The demonstration kernel with a page for a PCB and one for a page directory.\<close>

lemma child_pages: "\<exists>k. like_proc k \<and> kmem_ok k \<and> owned_page k 0xc0100000 0 \<and> owned_page k 0xc0103000 1"
proof -
  have "like_proc proc_kernel"
    by (simp add: like_proc_def proc_kernel_def) (simp add: heap_kernel_def demo_kernel_def boot_kernel_def)
  moreover have "list_all (\<lambda>n. \<not> frame_used proc_kernel PF_KERNEL n) [0..<16]" by code_simp
  then have free: "\<not> frame_used proc_kernel PF_KERNEL n" if "n < 16" for n using that by (simp add: list_all_iff)
  moreover have v: "vpage heap_kernel 0 = 0xc0100000" "vpage heap_kernel 3 = 0xc0103000"
    by (simp_all add: vpage_def heap_kernel_def PG_SIZE_def)
  ultimately obtain k1 where k1: "like_proc k1" "kmem_ok k1" "owned_page k1 0xc0100000 0"
    "\<forall>n < 16. frame_used k1 PF_KERNEL n \<longleftrightarrow> n = 0 \<or> frame_used proc_kernel PF_KERNEL n"
    using proc_new_page [OF _ proc_kernel_mem, of 0 0] by auto
  then have "\<not> frame_used k1 PF_KERNEL 1" using free by simp
  from proc_new_page [OF k1(1,2) _ _ this, of 3] k1(3) v(2) show ?thesis by auto
qed

text \<open>
  Process 4, with its PCB at \<open>0xc0100000\<close> and its page directory at \<open>0xc0103000\<close>, is a child of process 2; its exit status is
  7. \<open>run\<close> is the thread that has the CPU.
\<close>

definition family :: "kernel \<Rightarrow> u32 \<Rightarrow> task_status \<Rightarrow> task_status \<Rightarrow> kernel" where
  "family k run child parent = k\<lparr>flags := 2, esp := run + 0x800, thread_ready_list := [0xc0102000],
     thread_all_list := [0xc009e000, 0xc0101000, 0xc0102000, 0xc0100000],
     tasks := proc_task(0xc0100000 := (proc_task 0xc0100000)\<lparr>pid := 4, parent_pid := 2, pgdir := 0xc0103000, exit_status := 7, status := child\<rparr>,
       0xc0101000 := (proc_task 0xc0101000)\<lparr>status := parent\<rparr>)\<rparr>"

lemma family_ok:
  assumes k: "like_proc k" "kmem_ok k" "owned_page k 0xc0100000 0" "owned_page k 0xc0103000 1"
  shows "kmem_ok (family k run child parent)" "pids_ok (family k run child parent)" "pid_apart (family k run child parent)"
    "locks (family k run child parent) Pid_lock = free_lock" "parked (family k run child parent) 0xc0100000 1 0"
    "cr3 (family k run child parent) = 0x100000"
proof -
  let ?k = "family k run child parent"
  have s: "same_kmem k ?k" by (simp add: same_kmem_def family_def)
  note v = same_kmem_view [OF s]
  show "kmem_ok ?k" using k(2) v(9) by simp
  show "pids_ok ?k" "cr3 ?k = 0x100000" using k(1) by (simp_all add: like_proc_def family_def pids_ok_def)
  have "vpages k = vpages proc_kernel" "vpage k = vpage proc_kernel"
    using k(1) by (simp_all add: like_proc_def vpages_def vpage_def fun_eq_iff proc_kernel_def)
  moreover have "kernel_vaddr ?k = kernel_vaddr proc_kernel" "kernel_pool ?k = kernel_pool proc_kernel" "pid_bitmap ?k = pid_bitmap proc_kernel"
    using k(1) by (simp_all add: like_proc_def family_def proc_kernel_def heap_kernel_def)
  ultimately show "pid_apart ?k" using proc_kernel_apart v(1,2) by (simp add: pid_apart_def)
  have "locks ?k = locks boot_kernel" using k(1) by (simp add: like_proc_def family_def)
  then show "locks ?k Pid_lock = free_lock" by (simp add: boot_kernel_def free_lock_def)
  have "owned_page ?k 0xc0100000 0" "owned_page ?k 0xc0103000 1" using k(3,4) owned_page_same [OF s] by simp_all
  moreover have "main_thread ?k = 0xc009e000" using k(1) by (simp add: like_proc_def family_def)
  ultimately show "parked ?k 0xc0100000 1 0" by (simp add: parked_def) (simp add: family_def pid_valid_def)
qed

lemma family_scan:
  "running_thread (family k 0xc0101000 c p) = 0xc0101000" "running_thread (family k 0xc0100000 c p) = 0xc0100000"
  "t \<in> {0xc009e000, 0xc0101000, 0xc0102000, 0xc0100000} \<Longrightarrow> find_hanging_child (family k run c p) 2 t \<longleftrightarrow> t = 0xc0100000 \<and> c = TASK_HANGING"
  by (simp_all add: family_def running_thread_def)
    (auto simp: find_hanging_child_def proc_task_def demo_task_def zero_task_def)

theorem sys_wait_collects_witness:
  "\<exists>k k'. sys_wait (\<lambda>_. True) k = Inr ((4, Some 7), k') \<and> reaped k 0xc0100000 1 0 k'"
proof -
  obtain k where k: "like_proc k" "kmem_ok k" "owned_page k 0xc0100000 0" "owned_page k 0xc0103000 1" using child_pages by blast
  let ?k = "family k 0xc0101000 TASK_HANGING TASK_RUNNING"
  note f = family_ok [OF k, of "0xc0101000" TASK_HANGING TASK_RUNNING]
  have t: "pid (tasks ?k 0xc0101000) = 2" "pid (tasks ?k 0xc0100000) = 4" "exit_status (tasks ?k 0xc0100000) = 7"
    "thread_all_list ?k = [0xc009e000, 0xc0101000, 0xc0102000, 0xc0100000]" by (simp_all add: family_def proc_task_def)
  have "find (find_hanging_child ?k 2) (thread_all_list ?k) = Some 0xc0100000"
    unfolding t(4) by (simp add: family_scan(3))
  with sys_wait_collects [OF f(1,2,3,4) _ _ f(5), of "\<lambda>_. True"] show ?thesis by (auto simp: family_scan t)
qed


text \<open>
  A process with its page directory in frame \<open>0x204000\<close>, mapped at \<open>0xc0103000\<close>, a page table in frame \<open>0x205000\<close> and one
  page at \<open>0x8048000\<close> in frame \<open>0x211000\<close>.
\<close>

definition user_pmem :: "u32 \<Rightarrow> u32" where
  "user_pmem = (\<lambda>_. 0)(0x204080 := 0x205007, 0x204c00 := 0x101007, 0x204ffc := 0x204007, 0x205120 := 0x211007, 0x10140c := 0x204007)"

definition user_kernel :: kernel where
  "user_kernel = heap_kernel\<lparr>pmem := user_pmem, cr3 := 0x204000, vmem := (\<lambda>_. 0)(0xc009a000 := 0x30, 0xc009a002 := 2)\<rparr>"

lemma offset_eq:
  assumes "page_of a = a" "take_bit 12 r = r"
  shows "a + r = x \<longleftrightarrow> a = page_of x \<and> r = x AND 0xfff"
proof -
  have "take_bit 12 x = x AND 0xfff" by (simp add: take_bit_eq_mask mask_eq_exp_minus_1)
  then show ?thesis using page_add_inj [OF assms(2), of "take_bit 12 x" a x] page_plus_offset [of x] assms(1) by simp
qed

lemma user_pmem_at:
  assumes "take_bit 12 r = (r :: u32)"
  shows "user_pmem (0x204000 + r) = (if r = 0x80 then 0x205007 else if r = 0xc00 then 0x101007 else if r = 0xffc then 0x204007 else 0)"
    "user_pmem (0x205000 + r) = (if r = 0x120 then 0x211007 else 0)"
  by (simp_all add: user_pmem_def offset_eq [OF _ assms])

lemma user_pde:
  assumes "va < 0xc0000000"
  shows "pde_present user_kernel va \<longleftrightarrow> pde_off va = 0x80" "pde_off va = 0x80 \<Longrightarrow> pmem user_kernel (pde_addr user_kernel va) = 0x205007"
proof -
  obtain i j where ij: "i < 768" "j < 1024" "pde_off va = pde_off (entry_va i j)" using entry_va_of [OF assms] by blast
  then have "pde_off va = 4 * of_nat i" using entry_va_offs(1) [of i j] by simp
  then have "unat (pde_off va) = 4 * i" using ij(1) by (simp add: unat_word_ariths)
  then have "pde_off va \<noteq> 0xc00" "pde_off va \<noteq> 0xffc" using ij(1) by auto
  then have e: "pmem user_kernel (pde_addr user_kernel va) = (if pde_off va = 0x80 then 0x205007 else 0)"
    using user_pmem_at(1) [OF off_take(1), of va] by (simp add: user_kernel_def pde_addr_def)
  then show "pde_present user_kernel va \<longleftrightarrow> pde_off va = 0x80" by (simp add: pde_present_def bit_numeral_rec)
  show "pde_off va = 0x80 \<Longrightarrow> pmem user_kernel (pde_addr user_kernel va) = 0x205007" using e by simp
qed

lemma user_walk:
  assumes "va < 0xc0000000"
  shows "mmu_walk user_kernel va =
    (if pde_off va = 0x80 \<and> pte_off va = 0x120 then Some (0x211000 + take_bit 12 va) else None)"
    "pde_off va = 0x80 \<Longrightarrow> pmem user_kernel (pte_addr user_kernel va) = (if pte_off va = 0x120 then 0x211007 else 0)"
proof -
  show e: "pmem user_kernel (pte_addr user_kernel va) = (if pte_off va = 0x120 then 0x211007 else 0)" if "pde_off va = 0x80"
  proof -
    have "pte_addr user_kernel va = 0x205000 + pte_off va" using user_pde(2) [OF assms that] by (simp add: pte_addr_def)
    then show ?thesis using user_pmem_at(2) [OF off_take(2), of va] by (simp add: user_kernel_def)
  qed
  show "mmu_walk user_kernel va =
    (if pde_off va = 0x80 \<and> pte_off va = 0x120 then Some (0x211000 + take_bit 12 va) else None)"
    using e by (cases "pde_off va = 0x80") (simp_all add: mmu_walk_eq user_pde(1) [OF assms] bit_numeral_rec)
qed

lemma user_kernel_frames: "is_frame user_kernel 0x205000" "is_frame user_kernel 0x211000"
proof -
  have "5 < frames user_kernel PF_KERNEL \<and> frame_addr user_kernel PF_KERNEL 5 = 0x205000"
    "1 < frames user_kernel PF_USER \<and> frame_addr user_kernel PF_USER 1 = 0x211000" by code_simp+
  then show "is_frame user_kernel 0x205000" "is_frame user_kernel 0x211000" unfolding is_frame_def by metis+
qed

lemma user_kernel_half: "user_half_ok user_kernel"
proof -
  have f: "take_bit 28 (page_of pa) = 0x211000" if "pa = 0x211000 + take_bit 12 va" for pa va :: u32
    using page_add_page [of "take_bit 12 va" "0x211000"] that by (simp add: take_bit_eq_mask mask_eq_exp_minus_1 del: word_bitwise_1_simps)
  have "is_frame user_kernel (take_bit 28 (page_of pa))" if "va < 0xc0000000" "mmu_walk user_kernel va = Some pa" for va pa
    using user_kernel_frames(2) user_walk(1) [OF that(1)] that(2) f [of pa va] by (simp split: if_splits)
  moreover have "is_frame user_kernel (page_of (pmem user_kernel (pde_addr user_kernel va)))" if "va < 0xc0000000" "pde_present user_kernel va" for va
    using user_kernel_frames(1) user_pde [OF that(1)] that(2) by simp
  ultimately show ?thesis unfolding user_half_ok_def by blast
qed

lemma user_kernel_pools: "pools_apart user_kernel"
proof -
  have "bm_region (pool_bitmap (kernel_pool user_kernel)) = {0xc009a000, 0xc009a001}"
    "bm_region (pool_bitmap (user_pool user_kernel)) = {0xc009a002, 0xc009a003}"
    by (simp_all add: user_kernel_def heap_kernel_def bm_region_def region_2)
  then show ?thesis
    unfolding pools_apart_def pools_ok_def by (simp add: user_kernel_def heap_kernel_def bm_wf_def bm_len_def frames_def pool_of_def)
qed

theorem exit_frees_memory_witness:
  "\<exists>k'. free_pdes user_kernel 0xc0103000 0 768 = Inr k' \<and> freed user_kernel (user_released user_kernel) k' \<and>
     user_released user_kernel = user_frames user_kernel \<and> frame_used user_kernel PF_USER 1 \<and> \<not> frame_used k' PF_USER 1"
proof -
  have w: "mmu_walk user_kernel 0x8048000 = Some 0x211000" "mmu_walk user_kernel 0xc0103000 = Some (page_of (cr3 user_kernel))"
    "self_mapped user_kernel" by code_simp+
  have u: "1 < frames user_kernel PF_USER \<and> frame_addr user_kernel PF_USER 1 = 0x211000 \<and> frame_used user_kernel PF_USER 1" by code_simp
  have "page_of (0x211000 :: u32) = 0x211000 \<and> (0x8048000 :: u32) < 0xc0000000" by simp
  then have "0x211000 \<in> user_frames user_kernel"
    unfolding user_frames_def by (intro UnI1 CollectI exI [of _ "0x8048000"] exI [of _ "0x211000"]) (simp add: w(1))
  moreover have "0x211000 + take_bit 12 va < 0x10000000" for va :: u32
  proof -
    have "unat (take_bit 12 va) < 4096" by (simp add: take_bit_eq_mod unat_mod)
    then show ?thesis by (simp add: word_less_nat_alt unat_word_ariths)
  qed
  then have "\<forall>va < 0xc0000000. \<forall>pa. mmu_walk user_kernel va = Some pa \<longrightarrow> pa < 0x10000000" using user_walk(1) by auto
  ultimately show ?thesis using exit_frees_memory [OF user_kernel_pools w(3,2) _ user_kernel_half] u by (force simp: freed_def)
qed

text \<open>
  The bitmap of the addresses of a process: \<open>create_user_vaddr_bitmap\<close> takes 23 pages, \<open>release_prog_resource\<close> gives 22 back.
\<close>

lemma bitmap_page_lost:
  "DIV_ROUND_UP ((0xc0000000 - USER_VADDR_START) div PG_SIZE div 8) PG_SIZE = 23"
  "(0xc0000000 - USER_VADDR_START) div PG_SIZE div 8 div PG_SIZE = 22"
  by (simp_all add: DIV_ROUND_UP_def USER_VADDR_START_def PG_SIZE_def)

end
