(* ===== verification/Fork.thy ===== *)
theory Fork
  imports Waitexit
begin

unbundle bit_operations_syntax

text \<open>
  \<^verbatim>\<open>user/fork.c\<close>: a child process as a copy of its parent. The PCB and the kernel stack are copied as
  the structures they hold, pages of the user half word by word through the page tables of the two processes.
\<close>

section \<open>Definitions\<close>

text \<open>\<open>memcpy\<close> of the page with the PCB and the kernel stack.\<close>

definition copy_pcb :: "kernel \<Rightarrow> u32 \<Rightarrow> u32 \<Rightarrow> kernel" where
  "copy_pcb k child parent =
     k\<lparr>tasks := (tasks k)(child := tasks k parent),
       thread_stacks := (\<lambda>a. if page_of a = child then thread_stacks k (parent + take_bit 12 a) else thread_stacks k a),
       intr_stacks := (\<lambda>a. if page_of a = child then intr_stacks k (parent + take_bit 12 a) else intr_stacks k a)\<rparr>"

text \<open>The result is \<open>- 1\<close> when there is no page for the bitmap, else 0.\<close>

definition copy_pcb_vaddrbitmap_stack :: "kernel \<Rightarrow> u32 \<Rightarrow> u32 \<Rightarrow> (u32 \<times> kernel) kres" where
  "copy_pcb_vaddrbitmap_stack k child_thread parent_thread =
     (let k = copy_pcb k child_thread parent_thread
      in bnd (fork_pid k) (\<lambda>(p, k).
         let k = upd_task k child_thread (\<lambda>t. t\<lparr>pid := p\<rparr>);
             k = upd_task k child_thread (\<lambda>t. t\<lparr>status := TASK_READY\<rparr>);
             k = upd_task k child_thread (\<lambda>t. t\<lparr>elapsed_ticks := 0\<rparr>);
             k = upd_task k child_thread (\<lambda>t. t\<lparr>ticks := priority t\<rparr>);
             k = upd_task k child_thread (\<lambda>t. t\<lparr>parent_pid := pid (tasks k parent_thread)\<rparr>);
             k = upd_task k child_thread (\<lambda>t. t\<lparr>u_block_desc := block_desc_init\<rparr>);
             bitmap_pg_cnt = DIV_ROUND_UP ((0xc0000000 - USER_VADDR_START) div PG_SIZE div 8) PG_SIZE
         in bnd (get_kernel_pages k bitmap_pg_cnt) (\<lambda>(b, k).
            if b = NULL then Inr (- 1, k)
            else bnd (memcpy (vmem k) b (bits (vaddr_bitmap (userprog_vaddr (tasks k parent_thread)))) (bitmap_pg_cnt * PG_SIZE)) (\<lambda>m.
                 let k = k\<lparr>vmem := m\<rparr>;
                     k = upd_task k child_thread (\<lambda>t. t\<lparr>userprog_vaddr := (userprog_vaddr t)\<lparr>vaddr_bitmap := (vaddr_bitmap (userprog_vaddr t))\<lparr>bits := b\<rparr>\<rparr>\<rparr>)
                 in bnd (ASSERT (length (name (tasks k child_thread)) < 11) ''strlen(child_thread->name) < 11'') (\<lambda>_.
                    Inr (0, upd_task k child_thread (\<lambda>t. t\<lparr>name := name t @ ''_fork''\<rparr>)))))))"

text \<open>One page of the user half, through a page of the kernel; the result of the allocation is not tested.\<close>

definition copy_page :: "kernel \<Rightarrow> u32 \<Rightarrow> u32 \<Rightarrow> u32 \<Rightarrow> u32 \<Rightarrow> kernel kres" where
  "copy_page k child_thread parent_thread buf_page prog_vaddr =
     bnd (copy_words k buf_page prog_vaddr 1024) (\<lambda>k.
     bnd (page_dir_activate k child_thread) (\<lambda>k.
     bnd (get_a_page_without_opvaddrbitmap k PF_USER prog_vaddr) (\<lambda>(_, k).
     bnd (copy_words k prog_vaddr buf_page 1024) (\<lambda>k.
     page_dir_activate k parent_thread))))"

text \<open>The loops over the bytes of the bitmap and over the bits of one byte; \<open>n\<close> counts what is left.\<close>

primrec copy_bits :: "kernel \<Rightarrow> u32 \<Rightarrow> u32 \<Rightarrow> u32 \<Rightarrow> u32 \<Rightarrow> u32 \<Rightarrow> nat \<Rightarrow> kernel kres" where
  "copy_bits k child_thread parent_thread buf_page idx_byte idx_bit 0 = Inr k"
| "copy_bits k child_thread parent_thread buf_page idx_byte idx_bit (Suc n) =
     (let va = userprog_vaddr (tasks k parent_thread)
      in bnd (if push_bit (unat idx_bit) BITMAP_MASK AND vmem k (bits (vaddr_bitmap va) + idx_byte) \<noteq> 0
              then copy_page k child_thread parent_thread buf_page (vaddr_start va + (idx_byte * 8 + idx_bit) * PG_SIZE)
              else Inr k) (\<lambda>k.
         copy_bits k child_thread parent_thread buf_page idx_byte (idx_bit + 1) n))"

primrec copy_bytes :: "kernel \<Rightarrow> u32 \<Rightarrow> u32 \<Rightarrow> u32 \<Rightarrow> u32 \<Rightarrow> nat \<Rightarrow> kernel kres" where
  "copy_bytes k child_thread parent_thread buf_page idx_byte 0 = Inr k"
| "copy_bytes k child_thread parent_thread buf_page idx_byte (Suc n) =
     bnd (if vmem k (bits (vaddr_bitmap (userprog_vaddr (tasks k parent_thread))) + idx_byte) \<noteq> 0
          then copy_bits k child_thread parent_thread buf_page idx_byte 0 8 else Inr k) (\<lambda>k.
     copy_bytes k child_thread parent_thread buf_page (idx_byte + 1) n)"

definition copy_block_stack3 :: "kernel \<Rightarrow> u32 \<Rightarrow> u32 \<Rightarrow> u32 \<Rightarrow> kernel kres" where
  "copy_block_stack3 k child_thread parent_thread buf_page =
     copy_bytes k child_thread parent_thread buf_page 0
       (unat (btmp_bytes_len (vaddr_bitmap (userprog_vaddr (tasks k parent_thread)))))"

text \<open>
  The frame for \<open>switch_to\<close> lies below the registers that the system call saved, with its return address, \<open>intr_exit\<close>,
  next to them.
\<close>

definition build_child_statck :: "kernel \<Rightarrow> u32 \<Rightarrow> u32 \<Rightarrow> kernel" where
  "build_child_statck k intr_exit child_thread =
     (let intr_0_stack = child_thread + PG_SIZE - sizeof_intr_stack;
          k = k\<lparr>intr_stacks := (intr_stacks k)(intr_0_stack := (intr_stacks k intr_0_stack)\<lparr>is_eax := 0\<rparr>)\<rparr>;
          ebp_ptr = intr_0_stack - 5 * 4;
          k = k\<lparr>thread_stacks := (thread_stacks k)(ebp_ptr := (thread_stacks k ebp_ptr)
                  \<lparr>ts_eip := intr_exit, ts_ebp := 0, ts_ebx := 0, ts_edi := 0, ts_esi := 0\<rparr>)\<rparr>
      in upd_task k child_thread (\<lambda>t. t\<lparr>self_kstack := ebp_ptr\<rparr>))"

text \<open>\<open>is_pipe\<close> looks the descriptor up in the table of the running thread.\<close>

primrec update_inode_open_cnts :: "os \<Rightarrow> u32 \<Rightarrow> u32 \<Rightarrow> nat \<Rightarrow> os ores" where
  "update_inode_open_cnts w t local_fd 0 = Inr w"
| "update_inode_open_cnts w t local_fd (Suc n) =
     (let global_fd = fdtable (tasks (kern w) t) ! unat local_fd
      in bnd (assert_that (global_fd <s of_nat MAX_FILES_OPEN) ''global_fd < MAX_FILES_OPEN'') (\<lambda>_.
         bnd (if global_fd \<noteq> - 1 then
                bnd (is_pipe w local_fd) (\<lambda>p.
                if p then Inr (upd_global w global_fd (\<lambda>f. f\<lparr>fd_pos := fd_pos f + 1\<rparr>))
                else Inr (w\<lparr>files := upd_inode (files w) (fd_inode (global_file w global_fd)) (\<lambda>i. i\<lparr>i_open_cnt := i_open_cnt i + 1\<rparr>)\<rparr>))
              else Inr w) (\<lambda>w.
         update_inode_open_cnts w t (local_fd + 1) n)))"

text \<open>No failure gives back what was allocated before it.\<close>

definition copy_process :: "os \<Rightarrow> u32 \<Rightarrow> u32 \<Rightarrow> u32 \<Rightarrow> (u32 \<times> os) ores" where
  "copy_process w intr_exit child_thread parent_thread =
     bnd (in_kern (\<lambda>k. get_kernel_pages k 1) w) (\<lambda>(buf_page, w).
     if buf_page = NULL then Inr (- 1, w) else
     bnd (in_kern (\<lambda>k. copy_pcb_vaddrbitmap_stack k child_thread parent_thread) w) (\<lambda>(r, w).
     if r = - 1 then Inr (- 1, w) else
     bnd (in_kern create_page_dir w) (\<lambda>(pd, w).
     let w = w\<lparr>kern := upd_task (kern w) child_thread (\<lambda>t. t\<lparr>pgdir := pd\<rparr>)\<rparr>
     in if pd = NULL then Inr (- 1, w) else
     bnd (do_kern (\<lambda>k. copy_block_stack3 k child_thread parent_thread buf_page) w) (\<lambda>w.
     bnd (update_inode_open_cnts (w\<lparr>kern := build_child_statck (kern w) intr_exit child_thread\<rparr>) child_thread 3
           (MAX_FILES_OPEN_PER_PROC - 3)) (\<lambda>w.
     bnd (do_kern (\<lambda>k. mfree_page k PF_KERNEL buf_page 1) w) (\<lambda>w. Inr (0, w)))))))"

definition sys_fork :: "os \<Rightarrow> u32 \<Rightarrow> (u16 \<times> os) ores" where
  "sys_fork w intr_exit =
     (let parent_thread = running_thread (kern w)
      in bnd (in_kern (\<lambda>k. get_kernel_pages k 1) w) (\<lambda>(child_thread, w).
         if child_thread = NULL then Inr (- 1, w) else
         bnd (assert_that (INTR_OFF = intr_get_status (flags (kern w)) \<and> pgdir (tasks (kern w) parent_thread) \<noteq> NULL)
           ''INTR_OFF == intr_get_status() && parent_thread->pgdir != NULL'') (\<lambda>_.
         bnd (copy_process w intr_exit child_thread parent_thread) (\<lambda>(r, w).
         if r = - 1 then Inr (- 1, w) else
         bnd (do_kern (\<lambda>k. enlist_ready k child_thread) w) (\<lambda>w.
         bnd (do_kern (\<lambda>k. enlist_all k child_thread) w) (\<lambda>w.
         Inr (pid (tasks (kern w) child_thread), w)))))))"

section \<open>References to open files\<close>

text \<open>One more reference for every descriptor in \<open>xs\<close>: of a pipe, or of the i-node of a file.\<close>

definition opened :: "os \<Rightarrow> u32 list \<Rightarrow> os" where
  "opened w xs = w\<lparr>files := (files w)
     \<lparr>inodes := (\<lambda>a. (inodes (files w) a)\<lparr>i_open_cnt := i_open_cnt (inodes (files w) a) +
          of_nat (length (filter (\<lambda>d. d \<noteq> - 1 \<and> fd_flag (global_file w d) \<noteq> PIPE_FLAG \<and> fd_inode (global_file w d) = a) xs))\<rparr>),
      file_table := map (\<lambda>g. let f = file_table (files w) ! g
          in if fd_flag f = PIPE_FLAG then f\<lparr>fd_pos := fd_pos f + of_nat (count_list xs (of_nat g))\<rparr> else f)
        [0..<length (file_table (files w))]\<rparr>\<rparr>"

definition open_one :: "os \<Rightarrow> u32 \<Rightarrow> os" where
  "open_one w d = (if d = - 1 then w
     else if fd_flag (global_file w d) = PIPE_FLAG then upd_global w d (\<lambda>f. f\<lparr>fd_pos := fd_pos f + 1\<rparr>)
     else w\<lparr>files := upd_inode (files w) (fd_inode (global_file w d)) (\<lambda>i. i\<lparr>i_open_cnt := i_open_cnt i + 1\<rparr>)\<rparr>)"

lemma fd_global_ok:
  assumes "unat fd < length (fdtable (cur_task w))" "fdtable (cur_task w) ! unat fd < 32"
  shows "fd_global w fd = Inr (fdtable (cur_task w) ! unat fd)"
  using assms by (simp add: fd_global_def fd_local_to_global_def enter_fs_def MAX_FILES_OPEN_def)

lemma open_one_view:
  assumes "d = - 1 \<or> d < 32" "length (file_table (files w)) = 32"
  shows "kern (open_one w d) = kern w" "length (file_table (files (open_one w d))) = 32"
    "fd_flag (global_file (open_one w d) e) = fd_flag (global_file w e)" "fd_inode (global_file (open_one w d) e) = fd_inode (global_file w e)"
  using assms by (auto simp: open_one_def global_file_def upd_global_def upd_file_def upd_inode_def nth_list_update word_less_nat_alt unat_minus_1_u32)

lemma open_one_shape: "\<exists>a b. open_one w d = w\<lparr>files := (files w)\<lparr>inodes := a, file_table := b\<rparr>\<rparr>"
proof -
  have "w\<lparr>files := (files w)\<lparr>inodes := inodes (files w), file_table := file_table (files w)\<rparr>\<rparr> = w" by simp
  moreover have "(files w)\<lparr>inodes := inodes (files w), file_table := t\<rparr> = (files w)\<lparr>file_table := t\<rparr>"
    "(files w)\<lparr>inodes := a, file_table := file_table (files w)\<rparr> = (files w)\<lparr>inodes := a\<rparr>" for t a by simp_all
  ultimately show ?thesis unfolding open_one_def upd_global_def upd_file_def upd_inode_def by (cases "d = - 1") metis+
qed

lemma opened_shape:
  "opened w xs = w\<lparr>files := (files w)\<lparr>inodes := inodes (files (opened w xs)), file_table := file_table (files (opened w xs))\<rparr>\<rparr>"
  by (simp add: opened_def)

lemma opened_Cons:
  assumes d: "d = - 1 \<or> d < 32" and len: "length (file_table (files w)) = 32"
  shows "opened (open_one w d) xs = opened w (d # xs)"
proof -
  note v = open_one_view [OF d len]
  have io: "inodes (files (open_one w d)) a = (let i = inodes (files w) a
      in if d \<noteq> - 1 \<and> fd_flag (global_file w d) \<noteq> PIPE_FLAG \<and> fd_inode (global_file w d) = a then i\<lparr>i_open_cnt := i_open_cnt i + 1\<rparr> else i)" for a
    by (auto simp: open_one_def upd_global_def upd_file_def upd_inode_def Let_def)
  have "inodes (files (opened (open_one w d) xs)) = inodes (files (opened w (d # xs)))"
    by (rule ext) (simp add: opened_def v io Let_def)
  moreover have "file_table (files (opened (open_one w d) xs)) = file_table (files (opened w (d # xs)))"
  proof (rule nth_equalityI)
    fix g assume "g < length (file_table (files (opened (open_one w d) xs)))"
    then have g: "g < 32" by (simp add: opened_def v)
    have gn: "global_file w' (of_nat g) = file_table (files w') ! g" for w' using g by (simp add: global_file_def)
    have n: "d = of_nat g \<longleftrightarrow> d \<noteq> - 1 \<and> unat d = g"
      using g d of_nat_neq_minus_1 [of g] by (auto simp: unat_minus_1_u32 word_less_nat_alt)
    have "file_table (files (open_one w d)) ! g = (let f = file_table (files w) ! g
        in if fd_flag f = PIPE_FLAG \<and> d = of_nat g then f\<lparr>fd_pos := fd_pos f + 1\<rparr> else f)"
      using g d len by (auto simp: open_one_def upd_global_def upd_file_def upd_inode_def nth_list_update n global_file_def Let_def
          word_less_nat_alt unat_minus_1_u32)
    then show "file_table (files (opened (open_one w d) xs)) ! g = file_table (files (opened w (d # xs))) ! g"
      using g len by (auto simp: opened_def v Let_def)
  qed (simp add: opened_def v len)
  moreover obtain a b where "open_one w d = w\<lparr>files := (files w)\<lparr>inodes := a, file_table := b\<rparr>\<rparr>" using open_one_shape by blast
  ultimately show ?thesis
    using opened_shape [of "open_one w d" xs] opened_shape [of w "d # xs"] by simp
qed

lemma open_counts_slts:
  assumes "d = - 1 \<or> d < (32 :: u32)"
  shows "d <s of_nat MAX_FILES_OPEN"
proof (cases "d = - 1")
  case True
  then show ?thesis by (simp add: word_sless_alt MAX_FILES_OPEN_def)
next
  case False
  then have u: "unat d < 32" using assms by (simp add: word_less_nat_alt)
  then have "int (unat d) < int 32" by (simp only: of_nat_less_iff)
  then show ?thesis using sint_u32_small [of d] u by (simp add: word_sless_alt MAX_FILES_OPEN_def)
qed

lemma update_inode_open_cnts_run:
  assumes "fdtable (tasks (kern w) t) = fds" "fdtable (cur_task w) = fds" "length fds = unat i + n"
    "\<forall>d \<in> set (drop (unat i) fds). d = - 1 \<or> d < 32" "length (file_table (files w)) = 32" "length fds < 100"
  shows "update_inode_open_cnts w t i n = Inr (opened w (drop (unat i) fds))"
  using assms
proof (induction n arbitrary: w i)
  case 0
  have "map (\<lambda>g. if fd_flag (xs ! g) = PIPE_FLAG then xs ! g else xs ! g) [0..<length xs] = xs" for xs :: "file_struct list"
    by (simp add: map_nth)
  then have "opened w [] = w" by (simp add: opened_def Let_def cong: if_cong)
  with 0 show ?case by simp
next
  case (Suc n)
  let ?d = "fds ! unat i"
  have len: "unat i < length fds" using Suc.prems(3) by simp
  then have dr: "drop (unat i) fds = ?d # drop (Suc (unat i)) fds" by (rule Cons_nth_drop_Suc [symmetric])
  then have d: "?d = - 1 \<or> ?d < 32" using Suc.prems(4) by simp
  have i1: "unat (i + 1) = Suc (unat i)" using len Suc.prems(6) by (simp add: unat_word_ariths)
  note v = open_one_view [OF d Suc.prems(5)]
  have "is_pipe w i = Inr (fd_flag (global_file w ?d) = PIPE_FLAG)" if "?d \<noteq> - 1"
    using fd_global_ok [of i w] len d that Suc.prems(2) by (simp add: is_pipe_def)
  then have "update_inode_open_cnts w t i (Suc n) = update_inode_open_cnts (open_one w ?d) t (i + 1) n"
    using open_counts_slts [OF d] Suc.prems(1) by (auto simp: open_one_def assert_that_def Let_def)
  also have "\<dots> = Inr (opened (open_one w ?d) (drop (unat (i + 1)) fds))"
  proof (rule Suc.IH)
    show "\<forall>d \<in> set (drop (unat (i + 1)) fds). d = - 1 \<or> d < 32" using Suc.prems(4) by (simp add: i1 dr)
  qed (use Suc.prems v i1 in \<open>simp_all add: cur_task_def\<close>)
  finally show ?case using opened_Cons [OF d Suc.prems(5)] by (simp add: i1 dr)
qed

text \<open>
  A child that has the descriptor table of the parent adds, for each of the descriptors behind the standard ones that is open,
  one reference to what it refers to: to the ring when the descriptor is of a pipe, to the i-node of the file otherwise. Nothing
  else changes. Two descriptors of one file count twice.
\<close>

theorem fork_counts_references:
  assumes "fdtable (tasks (kern w) child) = fdtable (cur_task w)" "length (fdtable (cur_task w)) = 8"
    "\<forall>d \<in> set (drop 3 (fdtable (cur_task w))). d = - 1 \<or> d < 32" "length (file_table (files w)) = 32"
  shows "update_inode_open_cnts w child 3 (MAX_FILES_OPEN_PER_PROC - 3) = Inr (opened w (drop 3 (fdtable (cur_task w))))"
  using update_inode_open_cnts_run [of w child "fdtable (cur_task w)" 3 5] assms by (simp add: MAX_FILES_OPEN_PER_PROC_def)

section \<open>The first run of the child\<close>

text \<open>The registers that the entry of an interrupt saves are on top of the page of the thread.\<close>

definition saved_regs :: "u32 \<Rightarrow> u32" where
  "saved_regs t = t + PG_SIZE - sizeof_intr_stack"

text \<open>
  C37: when the scheduler first gives the CPU to the child, \<open>switch_to\<close> pops four zeros and returns to \<open>intr_exit\<close>, with the
  stack at the registers of the parent at its system call, but for \<open>eax\<close>: the child returns from the same call with result 0.
\<close>

theorem fork_child_returns_zero:
  assumes al: "take_bit 12 child = 0" "take_bit 12 parent = 0" and cur: "cur \<noteq> child"
  shows "let k1 = build_child_statck (copy_pcb k child parent) intr_exit child; k2 = switch_to k1 cur child; frame = thread_stacks k2 (esp k2 - 16)
    in [ts_ebp frame, ts_ebx frame, ts_edi frame, ts_esi frame] = [0, 0, 0, 0] \<and> ts_eip frame = intr_exit \<and> esp k2 + 4 = saved_regs child \<and>
       intr_stacks k2 (esp k2 + 4) = (intr_stacks k (saved_regs parent))\<lparr>is_eax := 0\<rparr> \<and>
       (\<forall>a. page_of a \<noteq> child \<longrightarrow> intr_stacks k2 a = intr_stacks k a \<and> thread_stacks k2 a = thread_stacks k a) \<and>
       tasks k2 child = (tasks k parent)\<lparr>self_kstack := saved_regs child - 20\<rparr>"
proof -
  have p: "page_of (t + r) = t" "take_bit 12 (t + r) = r" if "take_bit 12 t = 0" "take_bit 12 r = r" for t r :: u32
    using that page_add_page [of r t] page_add_offset [of r t] page_plus_offset [of t] by simp_all
  have r: "take_bit 12 (4020 :: u32) = 4020" "take_bit 12 (4000 :: u32) = 4000" by simp_all
  have s: "saved_regs t = t + 4020" "t + PG_SIZE - sizeof_intr_stack = t + 4020" for t
    by (simp_all add: saved_regs_def PG_SIZE_def sizeof_intr_stack_def)
  show ?thesis
    using al cur p(1) [OF al(1) r(1)] p(1) [OF al(1) r(2)] p(2) [OF al(1) r(1)] p(1) [OF al(2) r(1)]
      p(1) [OF al(1) r(2), unfolded add.commute [of child]]
    by (auto simp: build_child_statck_def switch_to_def copy_pcb_def upd_task_def s Let_def)
qed

section \<open>Examples\<close>

definition forked_os :: os where
  "forked_os = piped_os\<lparr>kern := copy_pcb (kern piped_os) 0xc0200000 0xc009e000\<rparr>"

lemma forked_os_fields:
  "fdtable (tasks (kern forked_os) 0xc0200000) = [0, 1, 2, 3, 3, - 1, - 1, - 1]" "fdtable (cur_task forked_os) = [0, 1, 2, 3, 3, - 1, - 1, - 1]"
  "file_table (files forked_os) = file_table (files piped_os)"
proof -
  have f: "fdtable (cur_task piped_os) = [0, 1, 2, 3, 3, - 1, - 1, - 1]"
    by (simp add: piped_os_def demo_os_fields)
  then have p: "fdtable (tasks (kern piped_os) 0xc009e000) = [0, 1, 2, 3, 3, - 1, - 1, - 1]"
    by (simp add: cur_task_def piped_os_kern(6))
  show "fdtable (tasks (kern forked_os) 0xc0200000) = [0, 1, 2, 3, 3, - 1, - 1, - 1]"
    using p by (simp add: forked_os_def copy_pcb_def)
  have "running_thread (kern forked_os) = 0xc009e000" using piped_os_kern(6)
    by (simp add: forked_os_def copy_pcb_def running_thread_def)
  then show "fdtable (cur_task forked_os) = [0, 1, 2, 3, 3, - 1, - 1, - 1]"
    using p by (simp add: cur_task_def forked_os_def copy_pcb_def)
qed (simp add: forked_os_def)

theorem fork_counts_references_witness:
  "\<exists>w. update_inode_open_cnts forked_os 0xc0200000 3 5 = Inr w \<and> fd_pos (file_table (files forked_os) ! 3) = 2 \<and>
     fd_pos (file_table (files w) ! 3) = 4"
proof -
  have t: "length (file_table (files forked_os)) = 32" "file_table (files forked_os) ! 3 = \<lparr>fd_pos = 2, fd_flag = PIPE_FLAG, fd_inode = 0xc0105000\<rparr>"
    by (simp_all add: forked_os_fields piped_os_def set_fd_def upd_global_def upd_file_def demo_os_def del: replicate_Suc)
  have "update_inode_open_cnts forked_os 0xc0200000 3 (MAX_FILES_OPEN_PER_PROC - 3) = Inr (opened forked_os (drop 3 [0, 1, 2, 3, 3, - 1, - 1, - 1]))"
    using fork_counts_references [of forked_os "0xc0200000"] forked_os_fields t(1) by simp
  moreover have "fd_pos (file_table (files (opened forked_os [3, 3, - 1, - 1, - 1])) ! 3) = 4"
    using t by (simp add: opened_def)
  ultimately show ?thesis using t by (intro exI [of _ "opened forked_os [3, 3, - 1, - 1, - 1]"]) (simp add: MAX_FILES_OPEN_PER_PROC_def)
qed

theorem fork_child_returns_zero_witness:
  "let k1 = build_child_statck (copy_pcb demo_kernel 0xc0200000 0xc0201000) 0xc0001500 0xc0200000; k2 = switch_to k1 0xc009e000 0xc0200000
   in ts_eip (thread_stacks k2 (esp k2 - 16)) = 0xc0001500 \<and> esp k2 + 4 = 0xc0200fb4"
proof -
  have "take_bit 12 0xc0200000 = (0 :: u32)" "take_bit 12 0xc0201000 = (0 :: u32)" "(0xc009e000 :: u32) \<noteq> 0xc0200000" by simp_all
  moreover have "saved_regs 0xc0200000 = 0xc0200fb4" by (simp add: saved_regs_def PG_SIZE_def sizeof_intr_stack_def)
  ultimately show ?thesis using fork_child_returns_zero [of "0xc0200000" "0xc0201000" "0xc009e000" demo_kernel "0xc0001500"]
    unfolding Let_def by metis
qed

end
