(* ===== verification/Forkcopy.thy ===== *)
theory Forkcopy
  imports Fork
begin

unbundle bit_operations_syntax

text \<open>
  What \<open>copy_page\<close> of \<^verbatim>\<open>user/fork.c\<close> does to the two address spaces: the child gets a frame of its own with the contents
  of the parent's page, and the parent is back in its own space with every translation and every word of the page as before.
\<close>

section \<open>Copying between pages\<close>

text \<open>Physical memory after the first \<open>n\<close> words of frame \<open>S\<close> were copied to frame \<open>D\<close>.\<close>

definition page_copied :: "(u32 \<Rightarrow> u32) \<Rightarrow> u32 \<Rightarrow> u32 \<Rightarrow> nat \<Rightarrow> u32 \<Rightarrow> u32" where
  "page_copied p D S n = (\<lambda>a. if page_of a = D \<and> (\<exists>j < n. take_bit 12 a = 4 * of_nat j) then p (S + take_bit 12 a) else p a)"

lemma word_off:
  assumes "j < 1024"
  shows "take_bit 12 (4 * of_nat j) = (4 * of_nat j :: u32)" "unat (4 * of_nat j :: u32) = 4 * j"
  using assms by (simp_all add: word_unat_eq_iff take_bit_eq_mod unat_mod unat_word_ariths)

lemma page_copied_out: "page_of a \<noteq> D \<Longrightarrow> page_copied p D S n a = p a"
  by (simp add: page_copied_def)

lemma page_copied_at:
  assumes "page_of D = D" "j < 1024"
  shows "page_copied p D S 1024 (D + 4 * of_nat j) = p (S + 4 * of_nat j)"
  using assms page_add_page [OF word_off(1) [OF assms(2)], of D] page_add_offset [OF word_off(1) [OF assms(2)], of D]
  by (auto simp: page_copied_def)

lemma copy_words_page:
  assumes D: "unused_frame k D" "page_of D = D" and S: "page_of S = S" "S \<noteq> D"
    and d: "mmu_walk k d = Some D" "page_of d = d" and s: "mmu_walk k s = Some S" "page_of s = s"
  shows "i + n \<le> 1024 \<Longrightarrow>
    copy_words (k\<lparr>pmem := page_copied (pmem k) D S i\<rparr>) (d + 4 * of_nat i) (s + 4 * of_nat i) n =
      Inr (k\<lparr>pmem := page_copied (pmem k) D S (i + n)\<rparr>)"
proof (induction n arbitrary: i)
  case 0
  then show ?case by simp
next
  case (Suc n)
  let ?k = "k\<lparr>pmem := page_copied (pmem k) D S i\<rparr>" and ?o = "4 * of_nat i :: u32"
  have i: "i < 1024" using Suc.prems by simp
  note o = word_off [OF i]
  have out: "page_copied (pmem k) D S i a = pmem k a" if "page_of a \<noteq> page_of D" for a
    using that D(2) by (simp add: page_copied_out)
  note w = frame_write(5) [OF D(1) out]
  have "page_of (S + ?o) \<noteq> D" using S page_add_page [OF o(1), of S] by simp
  then have rd: "vread32 ?k (s + ?o) = Inr (pmem k (S + ?o))"
    using mmu_walk_page [OF s o(1)] by (simp add: vread32_def w page_copied_out)
  have fo: "page_of (D + ?o) = D" "take_bit 12 (D + ?o) = ?o"
    using page_add_page [OF o(1), of D] page_add_offset [OF o(1), of D] D(2) by simp_all
  have eq: "a = D + ?o \<longleftrightarrow> page_of a = D \<and> take_bit 12 a = ?o" for a
  proof -
    have "page_of a + take_bit 12 a = a" by (rule page_plus_offset)
    then show ?thesis using fo by metis
  qed
  have "(page_copied (pmem k) D S i)(D + ?o := pmem k (S + ?o)) = page_copied (pmem k) D S (Suc i)"
    by (auto simp: fun_eq_iff page_copied_def eq less_Suc_eq)
  then have wr: "vwrite32 ?k (d + ?o) (pmem k (S + ?o)) = Inr (k\<lparr>pmem := page_copied (pmem k) D S (Suc i)\<rparr>)"
    using mmu_walk_page [OF d o(1)] by (simp add: vwrite32_def w)
  have "copy_words (k\<lparr>pmem := page_copied (pmem k) D S (Suc i)\<rparr>) (d + 4 * of_nat (Suc i)) (s + 4 * of_nat (Suc i)) n =
      Inr (k\<lparr>pmem := page_copied (pmem k) D S (Suc i + n)\<rparr>)"
    using Suc.prems by (intro Suc.IH) simp
  moreover have "d + 4 * of_nat (Suc i) = d + ?o + 4" "s + 4 * of_nat (Suc i) = s + ?o + 4" by simp_all
  ultimately show ?case by (simp only: copy_words.simps rd wr bnd.simps add_Suc add_Suc_right)
qed

lemma copy_page_words:
  assumes "unused_frame k D" "page_of D = D" "page_of S = S" "S \<noteq> D"
    "mmu_walk k d = Some D" "page_of d = d" "mmu_walk k s = Some S" "page_of s = s"
  shows "copy_words k d s 1024 = Inr (k\<lparr>pmem := page_copied (pmem k) D S 1024\<rparr>)"
proof -
  have "page_copied (pmem k) D S 0 = pmem k" by (simp add: page_copied_def)
  with copy_words_page [OF assms, of 0 1024] show ?thesis by simp
qed

section \<open>A new page in the address space\<close>

lemma user_page_added:
  assumes tab: "tables_ok k" and va: "pde_present k va" "mmu_walk k va = None"
    and lock: "locks k User_pool_lock = free_lock" "running_thread k \<noteq> NULL"
    and wf: "bm_wf (pool_bitmap (user_pool k))" and free: "\<exists>i < frames k PF_USER. \<not> frame_used k PF_USER i"
    and nz: "\<And>i. i < frames k PF_USER \<Longrightarrow> \<not> frame_used k PF_USER i \<Longrightarrow> frame_addr k PF_USER i \<noteq> NULL"
  shows "\<exists>i m. i < frames k PF_USER \<and> \<not> frame_used k PF_USER i \<and>
    (bitmap_set (vmem k) (pool_bitmap (user_pool k)) (of_nat i) 1 :: (kernel, bytes) res) = Inr m \<and>
    get_a_page_without_opvaddrbitmap k PF_USER va = Inr (va, set_pte (k\<lparr>vmem := m\<rparr>) va (map_entry (frame_addr k PF_USER i)))"
proof -
  let ?c = "running_thread k"
  let ?k1 = "k\<lparr>locks := (locks k)(User_pool_lock := held_lock ?c)\<rparr>"
  have v1: "frames ?k1 PF_USER = frames k PF_USER" "frame_used ?k1 PF_USER i = frame_used k PF_USER i"
    "frame_addr ?k1 PF_USER i = frame_addr k PF_USER i" "pool_of ?k1 PF_USER = user_pool k" for i
    by (simp_all add: frames_def frame_used_def frame_addr_def pool_of_def)
  have "bm_wf (pool_bitmap (pool_of ?k1 PF_USER))" "\<exists>i < frames ?k1 PF_USER. \<not> frame_used ?k1 PF_USER i"
    using wf free v1 by auto
  from palloc_step [OF this] obtain i m where
    i: "i < frames k PF_USER" "\<not> frame_used k PF_USER i"
      "(bitmap_set (vmem k) (pool_bitmap (user_pool k)) (of_nat i) 1 :: (kernel, bytes) res) = Inr m"
      "palloc ?k1 PF_USER = Inr (frame_addr k PF_USER i, ?k1\<lparr>vmem := m\<rparr>)" by (auto simp: v1)
  let ?k2 = "?k1\<lparr>vmem := m\<rparr>" and ?e = "map_entry (frame_addr k PF_USER i)"
  have pt: "pde_present ?k2 = pde_present k" "pte_addr ?k2 = pte_addr k" "pde_present ?k1 = pde_present k" "pte_addr ?k1 = pte_addr k"
    by (rule pt_cong; simp)+
  have sm: "self_mapped ?k2" using tab by (simp add: tables_ok_def self_mapped_def)
  have "page_table_add ?k2 va (frame_addr k PF_USER i) = Inr (set_pte ?k2 va ?e)"
    using va page_table_add_present [OF sm, of va] by (auto simp: pt mmu_walk_eq)
  moreover have "running_thread (set_pte ?k2 va ?e) = ?c" by (simp add: set_pte_def running_thread_def)
  then have "lock_release (set_pte ?k2 va ?e) User_pool_lock = Inr (set_pte (k\<lparr>vmem := m\<rparr>) va ?e)"
    using lock_release_held [of "set_pte ?k2 va ?e" User_pool_lock] lock(1) pt_cong(2) [of "k\<lparr>vmem := m\<rparr>" k]
    by (simp add: set_pte_def pt fun_upd_idem)
  ultimately have "get_a_page_without_opvaddrbitmap k PF_USER va = Inr (va, set_pte (k\<lparr>vmem := m\<rparr>) va ?e)"
    using lock_acquire_free [OF lock] i(4) nz [OF i(1,2)] by (simp add: get_a_page_without_opvaddrbitmap_def pool_lock_def)
  with i show ?thesis by blast
qed

section \<open>The two address spaces\<close>

text \<open>
  \<open>va\<close> is a page of the parent, in frame \<open>src\<close>; \<open>C\<close> is the child's directory; the kernel page \<open>tmp\<close> and the two directories have
  the same translation in both spaces. The child has a page table for \<open>va\<close>, which only that entry of its directory uses, and no page
  there. The frames that are free in the user pool are in use nowhere.
\<close>

definition own_table :: "kernel \<Rightarrow> u32 \<Rightarrow> u32" where
  "own_table k va = page_of (pmem k (pde_addr k va))"

definition spaces :: "kernel \<Rightarrow> u32 \<Rightarrow> u32 \<Rightarrow> u32 \<Rightarrow> bool" where
  "spaces k child parent C \<longleftrightarrow> tables_ok k \<and> tables_ok (k\<lparr>cr3 := C\<rparr>) \<and>
     pgdir (tasks k child) \<noteq> NULL \<and> mmu_walk k (pgdir (tasks k child)) = Some C \<and>
     pgdir (tasks k parent) \<noteq> NULL \<and> mmu_walk (k\<lparr>cr3 := C\<rparr>) (pgdir (tasks k parent)) = Some (cr3 k) \<and>
     0xc0000000 \<le> pgdir (tasks k parent)"

definition both_unused :: "kernel \<Rightarrow> u32 \<Rightarrow> u32 \<Rightarrow> bool" where
  "both_unused k C f \<longleftrightarrow> unused_frame k f \<and> unused_frame (k\<lparr>cr3 := C\<rparr>) f \<and> page_of f = f"

definition page_to_copy :: "kernel \<Rightarrow> u32 \<Rightarrow> u32 \<Rightarrow> u32 \<Rightarrow> bool" where
  "page_to_copy k C va src \<longleftrightarrow> page_of va = va \<and> va < 0xc0000000 \<and> mmu_walk k va = Some src \<and> page_of src = src \<and>
     pde_present (k\<lparr>cr3 := C\<rparr>) va \<and> mmu_walk (k\<lparr>cr3 := C\<rparr>) va = None \<and>
     (let T = own_table (k\<lparr>cr3 := C\<rparr>) va
      in unused_frame k T \<and> src \<noteq> T \<and>
         (\<forall>x. pde_present (k\<lparr>cr3 := C\<rparr>) x \<and> own_table (k\<lparr>cr3 := C\<rparr>) x = T \<longrightarrow> pde_off x = pde_off va))"

definition copy_buffer :: "kernel \<Rightarrow> u32 \<Rightarrow> u32 \<Rightarrow> u32 \<Rightarrow> bool" where
  "copy_buffer k C bp tmp \<longleftrightarrow> page_of bp = bp \<and> 0xc0000000 \<le> bp \<and>
     mmu_walk k bp = Some tmp \<and> mmu_walk (k\<lparr>cr3 := C\<rparr>) bp = Some tmp \<and> both_unused k C tmp"

definition user_frames_free :: "kernel \<Rightarrow> u32 \<Rightarrow> u32 set \<Rightarrow> bool" where
  "user_frames_free k C A \<longleftrightarrow> bm_wf (pool_bitmap (user_pool k)) \<and> (\<exists>i < frames k PF_USER. \<not> frame_used k PF_USER i) \<and>
     (\<forall>i < frames k PF_USER. \<not> frame_used k PF_USER i \<longrightarrow>
        frame_addr k PF_USER i \<noteq> NULL \<and> both_unused k C (frame_addr k PF_USER i) \<and> frame_addr k PF_USER i \<notin> A)"

lemma pmem_cr3: "k\<lparr>pmem := p, cr3 := c\<rparr> = k\<lparr>cr3 := c, pmem := p\<rparr>"
  by simp

lemma page_dir_activate_walk:
  assumes "self_mapped k" "pgdir (tasks k t) \<noteq> NULL" "mmu_walk k (pgdir (tasks k t)) = Some pa"
  shows "page_dir_activate k t = Inr (k\<lparr>cr3 := pa\<rparr>)"
  using assms by (auto simp: page_dir_activate_def addr_v2p_eq mmu_walk_eq split: if_splits)

text \<open>The first half: the page is in the buffer, the child's directory is active and has the new page.\<close>

lemma copy_page_out:
  assumes sp: "spaces k child parent C" and pg: "page_to_copy k C va src" and bf: "copy_buffer k C bp tmp" "src \<noteq> tmp"
  defines "k2 \<equiv> k\<lparr>cr3 := C, pmem := page_copied (pmem k) tmp src 1024\<rparr>"
  shows "bnd (copy_words k bp va 1024) (\<lambda>k. page_dir_activate k child) = Inr k2"
    "tables_ok k2" "pde_present k2 = pde_present (k\<lparr>cr3 := C\<rparr>)" "mmu_walk k2 = mmu_walk (k\<lparr>cr3 := C\<rparr>)"
    "pte_addr k2 = pte_addr (k\<lparr>cr3 := C\<rparr>)" "unused_frame k2 = unused_frame (k\<lparr>cr3 := C\<rparr>)"
    "own_table k2 x = own_table (k\<lparr>cr3 := C\<rparr>) x"
proof -
  let ?pm = "page_copied (pmem k) tmp src 1024" and ?kc = "k\<lparr>cr3 := C\<rparr>"
  have u: "unused_frame k tmp" "unused_frame ?kc tmp" "page_of tmp = tmp" using bf by (simp_all add: copy_buffer_def both_unused_def)
  have out: "?pm a = pmem k a" if "page_of a \<noteq> page_of tmp" for a using that u(3) by (simp add: page_copied_out)
  note w = frame_write [OF u(1) out]
  have "?pm a = pmem ?kc a" if "page_of a \<noteq> page_of tmp" for a using out [OF that] by simp
  note wc = frame_write [OF u(2) this, folded k2_def]
  have "copy_words k bp va 1024 = Inr (k\<lparr>pmem := ?pm\<rparr>)"
    using pg bf u by (intro copy_page_words) (simp_all add: page_to_copy_def copy_buffer_def)
  moreover have "page_dir_activate (k\<lparr>pmem := ?pm\<rparr>) child = Inr k2"
    using sp page_dir_activate_walk [of "k\<lparr>pmem := ?pm\<rparr>" child C] by (simp add: spaces_def w k2_def tables_ok_def)
  ultimately show "bnd (copy_words k bp va 1024) (\<lambda>k. page_dir_activate k child) = Inr k2" by simp
  show "tables_ok k2" using sp wc(6) by (simp add: spaces_def)
  show "pde_present k2 = pde_present ?kc" "mmu_walk k2 = mmu_walk ?kc" "pte_addr k2 = pte_addr ?kc" "unused_frame k2 = unused_frame ?kc"
    using wc(2,3,5,8) by blast+
  show "own_table k2 x = own_table ?kc x" using wc(1) [of x] wc(4) by (simp add: own_table_def)
qed

text \<open>The second half: the buffer goes into the new page, and the parent's directory is active again.\<close>

lemma copy_page_in:
  assumes tab: "tables_ok k" and va: "pde_present k va" "page_of va = va" "va < 0xc0000000"
    and own: "\<And>x. pde_present k x \<Longrightarrow> own_table k x = own_table k va \<Longrightarrow> pde_off x = pde_off va"
    and bf: "mmu_walk k bp = Some tmp" "page_of bp = bp" "0xc0000000 \<le> bp" "page_of tmp = tmp"
    and f: "unused_frame k f" "page_of f = f" "f \<noteq> tmp"
    and par: "pgdir (tasks k t) \<noteq> NULL" "0xc0000000 \<le> pgdir (tasks k t)" "mmu_walk k (pgdir (tasks k t)) = Some P"
  defines "k3 \<equiv> set_pte k va (map_entry f)"
  defines "k4 \<equiv> k3\<lparr>pmem := page_copied (pmem k3) f tmp 1024\<rparr>"
  shows "bnd (copy_words k3 va bp 1024) (\<lambda>k. page_dir_activate k t) = Inr (k4\<lparr>cr3 := P\<rparr>)"
    "mmu_walk k4 x = (if page_of x = va then Some (f + take_bit 12 x) else mmu_walk k x)"
proof -
  have off: "pde_off va \<noteq> 4092" using va(3) pde_off_4092 [of va] by (auto simp: word_less_nat_alt word_le_nat_alt)
  note s = set_pte_dir [OF tab va(1) off, of "map_entry f", folded k3_def]
  have same: "pde_present k x \<and> pte_addr k x = pte_addr k va \<longleftrightarrow> page_of x = va" for x
  proof -
    have "pte_addr k x = pte_addr k va \<longleftrightarrow> own_table k x = own_table k va \<and> pte_off x = pte_off va"
      by (simp add: pte_addr_def own_table_def page_add_inj)
    moreover have "page_of x = va \<longleftrightarrow> pde_off x = pde_off va \<and> pte_off x = pte_off va" using page_eq_offs [of x va] va(2) by simp
    moreover have "pde_off x = pde_off va \<Longrightarrow> pde_present k x \<and> own_table k x = own_table k va"
      using va(1) by (simp add: pde_present_def own_table_def pde_addr_def)
    ultimately show ?thesis using own [of x] by blast
  qed
  have w3: "mmu_walk k3 x = (if page_of x = va then Some (f + take_bit 12 x) else mmu_walk k x)" for x
    using mmu_walk_set_pte [OF tab va(1) off, of "map_entry f" x] f(2) by (simp add: k3_def same map_entry_bits)
  have hi: "page_of x \<noteq> va" if "0xc0000000 \<le> x" for x
  proof
    assume "page_of x = va"
    then have "pde_off x = pde_off va" using page_eq_offs [of x va] va(2) by simp
    with pde_off_range [of x] pde_off_range [of va] that va(3) show False by (simp add: not_le)
  qed
  have u3: "unused_frame k3 f" using f(1) s by (simp add: unused_frame_def) (simp add: k3_def set_pte_def)
  have out: "page_copied (pmem k3) f tmp 1024 a = pmem k3 a" if "page_of a \<noteq> page_of f" for a using that f(2) by (simp add: page_copied_out)
  note w4 = frame_write [OF u3 out, folded k4_def]
  have "copy_words k3 va bp 1024 = Inr k4"
    unfolding k4_def using u3 f bf va w3 hi [OF bf(3)] by (intro copy_page_words) (simp_all add: take_bit_page [of va, unfolded va(2)])
  moreover have "page_dir_activate k4 t = Inr (k4\<lparr>cr3 := P\<rparr>)"
  proof (rule page_dir_activate_walk)
    have "tables_ok k3" unfolding k3_def by (rule set_pte_tables_ok [OF tab va(1) off])
    then show "self_mapped k4" using w4(7) by (simp add: tables_ok_def)
    have "tasks k4 = tasks k" by (simp add: k4_def k3_def set_pte_def)
    then show "pgdir (tasks k4 t) \<noteq> NULL" "mmu_walk k4 (pgdir (tasks k4 t)) = Some P"
      using par w4(5) w3 hi [OF par(2)] by simp_all
  qed
  ultimately show "bnd (copy_words k3 va bp 1024) (\<lambda>k. page_dir_activate k t) = Inr (k4\<lparr>cr3 := P\<rparr>)" by simp
  show "mmu_walk k4 x = (if page_of x = va then Some (f + take_bit 12 x) else mmu_walk k x)" using w3 w4(5) by simp
qed

lemma page_of_back:
  assumes u: "unused_frame k tmp" "page_of tmp = tmp" "unused_frame k T" "page_of T = T" "unused_frame k f" "page_of f = f"
    and k': "cr3 k' = cr3 k" "\<And>a. page_of a \<notin> {tmp, T, f} \<Longrightarrow> pmem k' a = pmem k a"
  shows "mmu_walk k' = mmu_walk k"
proof -
  let ?p1 = "\<lambda>a. if page_of a = tmp then pmem k' a else pmem k a"
  let ?p2 = "\<lambda>a. if page_of a = T then pmem k' a else ?p1 a"
  note w1 = frame_write [OF u(1), of ?p1, unfolded u(2), OF if_not_P]
  have u1: "unused_frame (k\<lparr>pmem := ?p1\<rparr>) T" "unused_frame (k\<lparr>pmem := ?p1\<rparr>) f" using u w1(8) by simp_all
  have o2: "?p2 a = pmem (k\<lparr>pmem := ?p1\<rparr>) a" if "page_of a \<noteq> page_of T" for a using that u(4) by simp
  note w2 = frame_write [OF u1(1) o2]
  have u2: "unused_frame (k\<lparr>pmem := ?p2\<rparr>) f" using u1(2) w2(8) by simp
  have "pmem k' a = pmem (k\<lparr>pmem := ?p2\<rparr>) a" if "page_of a \<noteq> page_of f" for a using that u(6) k'(2) [of a] by auto
  note w3 = frame_write(5) [OF u2 this]
  have "mmu_walk k' = mmu_walk (k\<lparr>pmem := pmem k'\<rparr>)" using k'(1) by (intro mmu_walk_cong) simp_all
  with w1(5) w2(5) w3 show ?thesis by simp
qed

lemma copy_page_run:
  assumes sp: "spaces k child parent C" and pg: "page_to_copy k C va src" and bf: "copy_buffer k C bp tmp" "src \<noteq> tmp"
    and fr: "user_frames_free k C {src, tmp}" and lock: "locks k User_pool_lock = free_lock" "running_thread k \<noteq> NULL"
  shows "\<exists>i m k6 a. i < frames k PF_USER \<and> \<not> frame_used k PF_USER i \<and>
    (bitmap_set (vmem k) (pool_bitmap (user_pool k)) (of_nat i) 1 :: (kernel, bytes) res) = Inr m \<and>
    both_unused k C (frame_addr k PF_USER i) \<and> frame_addr k PF_USER i \<notin> {src, tmp} \<and>
    copy_page k child parent bp va = Inr k6 \<and> cr3 k6 = cr3 k \<and> vmem k6 = m \<and> user_pool k6 = user_pool k \<and> locks k6 = locks k \<and>
    page_of a = own_table (k\<lparr>cr3 := C\<rparr>) va \<and>
    pmem k6 = page_copied ((page_copied (pmem k) tmp src 1024)(a := map_entry (frame_addr k PF_USER i))) (frame_addr k PF_USER i) tmp 1024 \<and>
    (\<forall>x. mmu_walk (k6\<lparr>cr3 := C\<rparr>) x =
       (if page_of x = va then Some (frame_addr k PF_USER i + take_bit 12 x) else mmu_walk (k\<lparr>cr3 := C\<rparr>) x))"
proof -
  let ?kc = "k\<lparr>cr3 := C\<rparr>" and ?p1 = "page_copied (pmem k) tmp src 1024"
  let ?k2 = "k\<lparr>cr3 := C, pmem := ?p1\<rparr>" and ?T = "own_table (k\<lparr>cr3 := C\<rparr>) va"
  note o = copy_page_out [OF sp pg bf]
  have v2: "frames ?k2 PF_USER = frames k PF_USER" "frame_used ?k2 PF_USER n = frame_used k PF_USER n"
    "frame_addr ?k2 PF_USER n = frame_addr k PF_USER n" "running_thread ?k2 = running_thread k" for n
    by (simp_all add: frames_def frame_used_def frame_addr_def pool_of_def running_thread_def)
  have va: "pde_present ?k2 va" "mmu_walk ?k2 va = None" "page_of va = va" "va < 0xc0000000"
    using pg o(3,4) by (simp_all add: page_to_copy_def)
  have wf: "bm_wf (pool_bitmap (user_pool k))" and nz: "\<And>i. i < frames k PF_USER \<Longrightarrow> \<not> frame_used k PF_USER i \<Longrightarrow>
      frame_addr k PF_USER i \<noteq> NULL \<and> both_unused k C (frame_addr k PF_USER i) \<and> frame_addr k PF_USER i \<notin> {src, tmp}"
    using fr by (simp_all add: user_frames_free_def)
  have "\<exists>i m. i < frames ?k2 PF_USER \<and> \<not> frame_used ?k2 PF_USER i \<and>
    (bitmap_set (vmem ?k2) (pool_bitmap (user_pool ?k2)) (of_nat i) 1 :: (kernel, bytes) res) = Inr m \<and>
    get_a_page_without_opvaddrbitmap ?k2 PF_USER va = Inr (va, set_pte (?k2\<lparr>vmem := m\<rparr>) va (map_entry (frame_addr ?k2 PF_USER i)))"
    by (rule user_page_added [OF o(2) va(1,2)]) (use lock fr nz in \<open>simp_all add: v2 user_frames_free_def\<close>)
  then obtain i m where i: "i < frames k PF_USER" "\<not> frame_used k PF_USER i"
    "(bitmap_set (vmem k) (pool_bitmap (user_pool k)) (of_nat i) 1 :: (kernel, bytes) res) = Inr m"
    "get_a_page_without_opvaddrbitmap ?k2 PF_USER va = Inr (va, set_pte (?k2\<lparr>vmem := m\<rparr>) va (map_entry (frame_addr k PF_USER i)))"
    by (auto simp: v2)
  let ?f = "frame_addr k PF_USER i" and ?k2m = "?k2\<lparr>vmem := m\<rparr>"
  let ?k3 = "set_pte ?k2m va (map_entry ?f)"
  let ?k4 = "?k3\<lparr>pmem := page_copied (pmem ?k3) ?f tmp 1024\<rparr>"
  have e: "pmem ?k2m = pmem ?k2" "cr3 ?k2m = cr3 ?k2" by simp_all
  note c = mmu_walk_cong [OF e] pt_cong [OF e] tables_ok_cong [OF e]
  have ow: "own_table ?k2m x = own_table ?kc x" for x using o(7) [of x] by (simp add: own_table_def c)
  have f: "both_unused k C ?f" "?f \<notin> {src, tmp}" using nz [OF i(1,2)] by simp_all
  have q: "tables_ok ?k2m" "pde_present ?k2m va" "mmu_walk ?k2m bp = Some tmp" "unused_frame ?k2m ?f"
    unfolding c(1,2,5,6) o(3,4,6) using o(2) va(1) bf(1) f(1) by (simp_all only: o(3) copy_buffer_def both_unused_def)
  have tk: "tasks ?k2m = tasks k" by simp
  have q2: "page_of bp = bp" "0xc0000000 \<le> bp" "page_of tmp = tmp" "page_of ?f = ?f" "?f \<noteq> tmp"
    using bf(1) f by (simp_all add: copy_buffer_def both_unused_def)
  have own: "pde_off x = pde_off va" if "pde_present ?k2m x" "own_table ?k2m x = own_table ?k2m va" for x
    using that pg unfolding ow c(2) o(3) page_to_copy_def Let_def by blast
  have par: "pgdir (tasks ?k2m parent) \<noteq> NULL" "0xc0000000 \<le> pgdir (tasks ?k2m parent)"
      "mmu_walk ?k2m (pgdir (tasks ?k2m parent)) = Some (cr3 k)"
    using sp unfolding tk c(1) o(4) by (simp_all add: spaces_def)
  note ci = copy_page_in [OF q(1,2) va(3,4) own q(3) q2(1,2,3) q(4) q2(4,5) par]
  have r: "copy_page k child parent bp va = Inr (?k4\<lparr>cr3 := cr3 k\<rparr>)"
  proof -
    have "copy_page k child parent bp va = bnd (bnd (copy_words k bp va 1024) (\<lambda>k. page_dir_activate k child)) (\<lambda>k.
      bnd (get_a_page_without_opvaddrbitmap k PF_USER va) (\<lambda>(_, k). bnd (copy_words k va bp 1024) (\<lambda>k. page_dir_activate k parent)))"
      by (simp only: copy_page_def bnd_assoc)
    then show ?thesis by (simp only: o(1) i(4) bnd.simps prod.case ci(1))
  qed
  have w4: "mmu_walk ?k4 x = (if page_of x = va then Some (?f + take_bit 12 x) else mmu_walk ?kc x)" for x
    using ci(2) [of x] unfolding c(1) o(4) .
  define k6 where "k6 = ?k4\<lparr>cr3 := cr3 k\<rparr>"
  let ?a = "pte_addr ?k2m va"
  have s: "cr3 k6 = cr3 k" "vmem k6 = m" "user_pool k6 = user_pool k" "locks k6 = locks k"
    "pmem k6 = page_copied (?p1(?a := map_entry ?f)) ?f tmp 1024" by (simp_all add: k6_def set_pte_def)
  have aT: "page_of ?a = ?T" using ow [of va] by (simp add: pte_addr_def own_table_def page_add_page)
  have wC: "mmu_walk (k6\<lparr>cr3 := C\<rparr>) x = (if page_of x = va then Some (?f + take_bit 12 x) else mmu_walk ?kc x)" for x
  proof -
    have "pmem (k6\<lparr>cr3 := C\<rparr>) = pmem ?k4" "cr3 (k6\<lparr>cr3 := C\<rparr>) = cr3 ?k4" by (simp_all add: k6_def set_pte_def)
    from mmu_walk_cong [OF this] w4 show ?thesis by simp
  qed
  show ?thesis
    by (intro exI [of _ i] exI [of _ m] exI [of _ k6] exI [of _ ?a] conjI allI) (use i f r s aT wC in \<open>simp_all add: k6_def [symmetric]\<close>)
qed

text \<open>
  C36: For an address for which the child already has a page table, and no page yet, \<open>copy_page\<close> gives the child a page at the same address in a frame that was free, filled with the words of the parent's page. In
  the child's space no other translation changes, in the parent's none does; the parent's directory is active again, the parent's
  page reads as before, and the frame is the only one newly in use.
\<close>

theorem fork_copies_page:
  assumes sp: "spaces k child parent C" and pg: "page_to_copy k C va src" and bf: "copy_buffer k C bp tmp" "src \<noteq> tmp"
    and fr: "user_frames_free k C {src, tmp}" and lock: "locks k User_pool_lock = free_lock" "running_thread k \<noteq> NULL"
  shows "\<exists>i k'. copy_page k child parent bp va = Inr k' \<and> i < frames k PF_USER \<and> \<not> frame_used k PF_USER i \<and>
    cr3 k' = cr3 k \<and> mmu_walk k' = mmu_walk k \<and> locks k' = locks k \<and>
    (\<forall>x. mmu_walk (k'\<lparr>cr3 := C\<rparr>) x =
       (if page_of x = va then Some (frame_addr k PF_USER i + take_bit 12 x) else mmu_walk (k\<lparr>cr3 := C\<rparr>) x)) \<and>
    (\<forall>j < 1024. vread32 (k'\<lparr>cr3 := C\<rparr>) (va + 4 * of_nat j) = vread32 k (va + 4 * of_nat j) \<and>
       vread32 k' (va + 4 * of_nat j) = vread32 k (va + 4 * of_nat j)) \<and>
    (\<forall>n < frames k PF_USER. frame_used k' PF_USER n \<longleftrightarrow> n = i \<or> frame_used k PF_USER n)"
proof -
  let ?kc = "k\<lparr>cr3 := C\<rparr>" and ?p1 = "page_copied (pmem k) tmp src 1024" and ?T = "own_table (k\<lparr>cr3 := C\<rparr>) va"
  from copy_page_run [OF assms] obtain i m k6 a where i: "i < frames k PF_USER" "\<not> frame_used k PF_USER i"
    "(bitmap_set (vmem k) (pool_bitmap (user_pool k)) (of_nat i) 1 :: (kernel, bytes) res) = Inr m"
    and f: "both_unused k C (frame_addr k PF_USER i)" "frame_addr k PF_USER i \<notin> {src, tmp}"
    and r: "copy_page k child parent bp va = Inr k6" and s: "cr3 k6 = cr3 k" "vmem k6 = m" "user_pool k6 = user_pool k" "locks k6 = locks k"
      "pmem k6 = page_copied (?p1(a := map_entry (frame_addr k PF_USER i))) (frame_addr k PF_USER i) tmp 1024"
    and aT: "page_of a = ?T"
    and wC: "\<And>x. mmu_walk (k6\<lparr>cr3 := C\<rparr>) x =
       (if page_of x = va then Some (frame_addr k PF_USER i + take_bit 12 x) else mmu_walk (k\<lparr>cr3 := C\<rparr>) x)" by (elim exE conjE) blast
  let ?f = "frame_addr k PF_USER i"
  have va: "page_of va = va" and wf: "bm_wf (pool_bitmap (user_pool k))"
    using pg fr by (simp_all add: page_to_copy_def user_frames_free_def)
  have T: "unused_frame k ?T" "page_of ?T = ?T" "src \<noteq> ?T" "page_of src = src" "mmu_walk k va = Some src"
    using pg by (simp_all add: page_to_copy_def Let_def own_table_def page_of_idem)
  have bt: "unused_frame k tmp" "unused_frame ?kc tmp" "page_of tmp = tmp" using bf(1) by (simp_all add: copy_buffer_def both_unused_def)
  have Tt: "?T \<noteq> tmp" using bt(2,3) pg by (auto simp: unused_frame_def own_table_def page_to_copy_def)
  have out: "pmem k6 x = pmem k x" if "page_of x \<notin> {tmp, ?T, ?f}" for x
    using that aT by (auto simp: s(5) page_copied_out)
  have w6: "mmu_walk k6 = mmu_walk k"
    by (rule page_of_back [OF bt(1,3) T(1,2) _ _ s(1) out]) (use f(1) in \<open>simp_all add: both_unused_def\<close>)
  have rd: "vread32 (k6\<lparr>cr3 := C\<rparr>) (va + 4 * of_nat j) = vread32 k (va + 4 * of_nat j) \<and>
      vread32 k6 (va + 4 * of_nat j) = vread32 k (va + 4 * of_nat j)" if "j < 1024" for j
  proof -
    let ?o = "4 * of_nat j :: u32"
    note o = word_off(1) [OF that]
    have pv: "page_of (va + ?o) = va" "take_bit 12 (va + ?o) = ?o" "page_of (src + ?o) = src" "page_of (tmp + ?o) = tmp"
      using page_add_page [OF o, of va] page_add_offset [OF o, of va] page_add_page [OF o, of src] page_add_page [OF o, of tmp]
        va T(4) bt(3) by simp_all
    have "pmem k6 (?f + ?o) = (?p1(a := map_entry ?f)) (tmp + ?o)"
      using f(1) by (simp only: s(5) both_unused_def page_copied_at [OF _ that])
    also have "\<dots> = ?p1 (tmp + ?o)" using aT Tt pv(4) by auto
    also have "\<dots> = pmem k (src + ?o)" by (rule page_copied_at [OF bt(3) that])
    finally have 1: "pmem k6 (?f + ?o) = pmem k (src + ?o)" .
    have 2: "pmem k6 (src + ?o) = pmem k (src + ?o)" using out [of "src + ?o"] pv(3) bf(2) T(3) f(2) by auto
    have "mmu_walk k (va + ?o) = Some (src + ?o)" by (rule mmu_walk_page [OF T(5) va o])
    then show ?thesis using wC [of "va + ?o"] pv(1,2) 1 2 by (simp add: vread32_def w6)
  qed
  have fu: "frame_used k6 PF_USER n \<longleftrightarrow> n = i \<or> frame_used k PF_USER n" if "n < frames k PF_USER" for n
  proof -
    have "frame_used k6 PF_USER n = frame_used (k\<lparr>vmem := m\<rparr>) PF_USER n" by (simp add: frame_used_def pool_of_def s)
    then show ?thesis using frame_used_set [of k PF_USER i n 1 m] wf i(1,3) that by (simp add: pool_of_def)
  qed
  show ?thesis
    by (intro exI [of _ i] exI [of _ k6] conjI allI impI) (use r i(1,2) s w6 wC rd fu in \<open>simp_all\<close>)
qed

section \<open>Example\<close>

text \<open>
  The process of \<open>user_kernel\<close> and a child with its directory in frame \<open>0x206000\<close>, mapped at \<open>0xc0104000\<close>, an empty page table in
  \<open>0x207000\<close>, and the buffer at \<open>0xc0105000\<close> in frame \<open>0x208000\<close>.
\<close>

definition two_pmem :: "u32 \<Rightarrow> u32" where
  "two_pmem = user_pmem(0x206080 := 0x207007, 0x206c00 := 0x101007, 0x206ffc := 0x206007, 0x101410 := 0x206007, 0x101414 := 0x208007,
     0x211008 := 42)"

definition two_kernel :: kernel where
  "two_kernel = user_kernel\<lparr>pmem := two_pmem,
     tasks := (tasks user_kernel)(0xc0200000 := zero_task\<lparr>pgdir := 0xc0104000\<rparr>, 0xc0201000 := zero_task\<lparr>pgdir := 0xc0103000\<rparr>)\<rparr>"

definition two_entry :: "u32 \<Rightarrow> u32 \<Rightarrow> u32 \<Rightarrow> u32" where
  "two_entry dir tab r = (if r = 0x80 then tab else if r = 0xc00 then 0x101007 else if r = 0xffc then dir OR 7 else 0)"

lemma two_pmem_at:
  assumes "take_bit 12 r = (r :: u32)"
  shows "two_pmem (0x204000 + r) = two_entry 0x204000 0x205007 r" "two_pmem (0x206000 + r) = two_entry 0x206000 0x207007 r"
    "two_pmem (0x207000 + r) = 0"
  by (simp_all add: two_pmem_def user_pmem_def two_entry_def offset_eq [OF _ assms])

lemma two_dir:
  "pmem two_kernel (pde_addr two_kernel va) = two_entry 0x204000 0x205007 (pde_off va)"
  "pmem two_kernel (pde_addr (two_kernel\<lparr>cr3 := 0x206000\<rparr>) va) = two_entry 0x206000 0x207007 (pde_off va)"
  using two_pmem_at [OF off_take(1), of va] by (simp_all add: pde_addr_def two_kernel_def user_kernel_def)

lemma two_entry_page:
  "page_of (two_entry dir tab r) = (if r = 0x80 then page_of tab else if r = 0xc00 then 0x101000 else if r = 0xffc then page_of dir else 0)"
proof -
  have "page_of (dir OR 7) = page_of dir" by (simp add: bit.conj_disj_distrib2)
  then show ?thesis by (simp add: two_entry_def)
qed

lemma two_entry_bit:
  "bit tab 0 \<Longrightarrow> bit (two_entry dir tab r) 0 \<longleftrightarrow> r = 0x80 \<or> r = 0xc00 \<or> r = 0xffc"
  by (auto simp: two_entry_def bit_simps bit_numeral_rec)

lemma two_unused: "page_of f = f \<Longrightarrow> f \<notin> {0x101000, 0x204000, 0x205000, 0x206000, 0x207000} \<Longrightarrow> both_unused two_kernel 0x206000 f"
  unfolding both_unused_def unused_frame_def pde_present_def
  by (auto simp: two_dir two_entry_page two_entry_bit bit_numeral_rec) (simp_all add: two_kernel_def user_kernel_def)

lemma two_spaces: "spaces two_kernel 0xc0200000 0xc0201000 0x206000"
proof -
  have "mmu_walk two_kernel 0xc0104000 = Some 0x206000" "mmu_walk (two_kernel\<lparr>cr3 := 0x206000\<rparr>) 0xc0103000 = Some (cr3 two_kernel)"
    "self_mapped two_kernel" "self_mapped (two_kernel\<lparr>cr3 := 0x206000\<rparr>)" by code_simp+
  moreover have "cr3 two_kernel = 0x204000" "tasks two_kernel 0xc0200000 = zero_task\<lparr>pgdir := 0xc0104000\<rparr>"
    "tasks two_kernel 0xc0201000 = zero_task\<lparr>pgdir := 0xc0103000\<rparr>" by (simp_all add: two_kernel_def user_kernel_def)
  ultimately show ?thesis
    unfolding spaces_def tables_ok_def pde_present_def
    by (simp add: two_dir two_entry_page two_entry_bit bit_numeral_rec)
qed

lemma two_page: "page_to_copy two_kernel 0x206000 0x8048000 0x211000"
proof -
  have w: "mmu_walk two_kernel 0x8048000 = Some 0x211000" "mmu_walk (two_kernel\<lparr>cr3 := 0x206000\<rparr>) 0x8048000 = None"
    "pde_present (two_kernel\<lparr>cr3 := 0x206000\<rparr>) 0x8048000" by code_simp+
  have o: "own_table (two_kernel\<lparr>cr3 := 0x206000\<rparr>) x = page_of (two_entry 0x206000 0x207007 (pde_off x))" for x
    by (simp add: own_table_def two_dir)
  have p: "pde_off 0x8048000 = 0x80" by code_simp
  have "unused_frame two_kernel 0x207000"
    unfolding unused_frame_def pde_present_def
    by (auto simp: two_dir two_entry_page two_entry_bit bit_numeral_rec) (simp add: two_kernel_def user_kernel_def)
  then show ?thesis using w by (auto simp: page_to_copy_def o p two_entry_page split: if_splits)
qed

lemma two_buffer: "copy_buffer two_kernel 0x206000 0xc0105000 0x208000"
proof -
  have "mmu_walk two_kernel 0xc0105000 = Some 0x208000" "mmu_walk (two_kernel\<lparr>cr3 := 0x206000\<rparr>) 0xc0105000 = Some 0x208000" by code_simp+
  then show ?thesis using two_unused [of "0x208000"] by (simp add: copy_buffer_def)
qed

lemma two_frames: "user_frames_free two_kernel 0x206000 {0x211000, 0x208000}"
proof -
  have f: "frames two_kernel PF_USER = 16" "\<not> frame_used two_kernel PF_USER 0" by code_simp+
  have "list_all (\<lambda>i. frame_used two_kernel PF_USER i \<or> (let a = frame_addr two_kernel PF_USER i
      in a \<noteq> NULL \<and> page_of a = a \<and> a \<notin> set [0x101000, 0x204000, 0x205000, 0x206000, 0x207000, 0x211000, 0x208000])) [0..<16]"
    by code_simp
  then have "\<forall>i < 16. \<not> frame_used two_kernel PF_USER i \<longrightarrow> (let a = frame_addr two_kernel PF_USER i
      in a \<noteq> NULL \<and> page_of a = a \<and> a \<notin> set [0x101000, 0x204000, 0x205000, 0x206000, 0x207000, 0x211000, 0x208000])"
    by (auto simp: list_all_iff)
  moreover have "bm_wf (pool_bitmap (user_pool two_kernel))" by (simp add: two_kernel_def user_kernel_def heap_kernel_def bm_wf_def bm_len_def)
  moreover have "\<exists>i < 16. \<not> frame_used two_kernel PF_USER i" using f(2) by (intro exI [of _ 0]) simp
  ultimately show ?thesis unfolding user_frames_free_def f(1) Let_def using two_unused by auto
qed

theorem fork_copies_page_witness:
  "\<exists>i k'. copy_page two_kernel 0xc0200000 0xc0201000 0xc0105000 0x8048000 = Inr k' \<and> \<not> frame_used two_kernel PF_USER i \<and>
     vread32 two_kernel 0x8048008 = Inr 42 \<and> vread32 (k'\<lparr>cr3 := 0x206000\<rparr>) 0x8048008 = Inr 42 \<and> vread32 k' 0x8048008 = Inr 42"
proof -
  have "locks two_kernel User_pool_lock = free_lock" "running_thread two_kernel \<noteq> NULL"
    using heap_kernel_fields(7,8) by (simp_all add: two_kernel_def user_kernel_def running_thread_def)
  from fork_copies_page [OF two_spaces two_page two_buffer _ two_frames this] obtain i k' where
    r: "copy_page two_kernel 0xc0200000 0xc0201000 0xc0105000 0x8048000 = Inr k'" "\<not> frame_used two_kernel PF_USER i"
    "\<forall>j < 1024. vread32 (k'\<lparr>cr3 := 0x206000\<rparr>) (0x8048000 + 4 * of_nat j) = vread32 two_kernel (0x8048000 + 4 * of_nat j) \<and>
       vread32 k' (0x8048000 + 4 * of_nat j) = vread32 two_kernel (0x8048000 + 4 * of_nat j)" by auto
  have "mmu_walk two_kernel 0x8048008 = Some 0x211008 \<and> pmem two_kernel 0x211008 = 42" by code_simp
  then have "vread32 two_kernel 0x8048008 = Inr 42" by (simp add: vread32_def)
  moreover have "(0x8048000 + 4 * of_nat 2 :: u32) = 0x8048008" by simp
  ultimately show ?thesis using r(1,2) r(3) [rule_format, of 2] by (intro exI [of _ i] exI [of _ k']) simp
qed

end
