(* ===== verification/Mutex.thy ===== *)
theory Mutex
  imports Sync
begin

unbundle bit_operations_syntax

text \<open>
  Threads that compete for one lock, with every interleaving the kernel allows. A system state
  is the kernel state together with, for every thread, where it is in its use of the
  lock (\<open>pc\<close>) and what it will do when it gets the CPU (\<open>ctl\<close>). The actions are the pieces
  of \<open>lock_acquire\<close> and \<open>lock_release\<close> of \<^verbatim>\<open>kernel/sync.c\<close> between which the timer
  may interrupt (every store to a field of the lock is an action of its own), the timer interrupt itself, the return of a preempted thread, the first run of a new
  thread, and the loop of the idle thread in \<^verbatim>\<open>kernel/thread.c\<close>. The invariant of the reachable
  states gives, for kernel threads, mutual exclusion, that no assertion ever fails, and that no wakeup is lost.
\<close>

section \<open>The system\<close>

text \<open>
  \<open>Try\<close>: before \<open>sema_down\<close>. \<open>Got\<close>: after it. \<open>Owned\<close>: the holder is stored. \<open>Crit\<close>: \<open>lock_acquire\<close> has returned. \<open>Leaving\<close>: the
  holder is cleared. \<open>Rel\<close>: before \<open>sema_up\<close>.
\<close>

datatype lpc = Out | Try | Got | Owned | Crit | Leaving | Rel

text \<open>
  \<open>New\<close>: has not run yet. \<open>Interrupted e\<close>: preempted with flags \<open>e\<close>. \<open>In_down o\<close>: inside
  the loop of \<open>sema_down\<close>, entered with interrupt status \<open>o\<close>. \<open>In_idle\<close>: the idle
  thread inside its \<open>thread_block\<close>.
\<close>

datatype lctl = New | Interrupted u32 | In_down intr_status | In_idle | On_cpu

record lsys =
  kern :: kernel
  pc :: "u32 \<Rightarrow> lpc"
  ctl :: "u32 \<Rightarrow> lctl"

datatype action = Start | Iret | Resume_down | Resume_idle | Timer | Test | Down | Take | Take_count | Again
  | Drop | Drop_count | Up | Idle_block

text \<open>The kernel goes on in the same thread, or in another one after a \<open>Yield\<close>.\<close>

fun outcome :: "kernel kres \<Rightarrow> (kernel \<Rightarrow> lsys) \<Rightarrow> (kernel \<Rightarrow> lsys) \<Rightarrow> (kernel, lsys) res" where
  "outcome (Inr k) f g = Inr (f k)"
| "outcome (Inl (Yield k)) f g = Inr (g k)"
| "outcome (Inl e) f g = Inl e"

text \<open>\<open>None\<close>: the running thread is not at the point where the action happens.\<close>

fun act :: "lockp \<Rightarrow> action \<Rightarrow> lsys \<Rightarrow> (kernel, lsys) res option" where
  "act l Start s =
     (let k = kern s; c = running_thread k
      in if ctl s c = New
         then Some (Inr (s\<lparr>kern := k\<lparr>flags := snd (intr_enable (flags k))\<rparr>, ctl := (ctl s)(c := On_cpu)\<rparr>))
         else None)"
| "act l Iret s =
     (let k = kern s; c = running_thread k
      in case ctl s c of
           Interrupted e \<Rightarrow> Some (Inr (s\<lparr>kern := k\<lparr>flags := e\<rparr>, ctl := (ctl s)(c := On_cpu)\<rparr>))
         | _ \<Rightarrow> None)"
| "act l Resume_down s =
     (let k = kern s; c = running_thread k
      in case ctl s c of
           In_down old \<Rightarrow>
             Some (outcome (sema_down_from k (Sema_of l) old)
               (\<lambda>k. s\<lparr>kern := k, pc := (pc s)(c := Got), ctl := (ctl s)(c := On_cpu)\<rparr>)
               (\<lambda>k. s\<lparr>kern := k\<rparr>))
         | _ \<Rightarrow> None)"
| "act l Resume_idle s =
     (let k = kern s; c = running_thread k
      in if ctl s c = In_idle
         then Some (Inr (s\<lparr>kern := k\<lparr>flags := sti (flags k)\<rparr>, ctl := (ctl s)(c := On_cpu)\<rparr>))
         else None)"
| "act l Timer s =
     (let k = kern s; c = running_thread k; e = flags k
      in if ctl s c = On_cpu \<and> intr_get_status e = INTR_ON
         then Some (outcome (intr_timer_handler (k\<lparr>flags := cli e\<rparr>))
                (\<lambda>k. s\<lparr>kern := k\<lparr>flags := e\<rparr>\<rparr>)
                (\<lambda>k. s\<lparr>kern := k, ctl := (ctl s)(c := Interrupted e)\<rparr>))
         else None)"
| "act l Test s =
     (let k = kern s; c = running_thread k
      in if ctl s c = On_cpu \<and> c \<noteq> idle_thread k \<and> (pc s c = Out \<or> pc s c = Crit) \<and> holder (locks k l) \<noteq> c
         then Some (Inr (s\<lparr>pc := (pc s)(c := Try)\<rparr>)) else None)"
| "act l Down s =
     (let k = kern s; c = running_thread k
      in if ctl s c = On_cpu \<and> pc s c = Try
         then Some (outcome (sema_down k (Sema_of l))
                (\<lambda>k. s\<lparr>kern := k, pc := (pc s)(c := Got)\<rparr>)
                (\<lambda>k'. s\<lparr>kern := k', ctl := (ctl s)(c := In_down (intr_get_status (flags k)))\<rparr>))
         else None)"
| "act l Take s =
     (let k = kern s; c = running_thread k
      in if ctl s c = On_cpu \<and> pc s c = Got
         then Some (Inr (s\<lparr>kern := lock_take_holder k l, pc := (pc s)(c := Owned)\<rparr>))
         else None)"
| "act l Take_count s =
     (let k = kern s; c = running_thread k
      in if ctl s c = On_cpu \<and> pc s c = Owned
         then Some (bnd (lock_take_count k l) (\<lambda>k. Inr (s\<lparr>kern := k, pc := (pc s)(c := Crit)\<rparr>)))
         else None)"
| "act l Again s =
     (let k = kern s; c = running_thread k
      in if ctl s c = On_cpu \<and> (pc s c = Out \<or> pc s c = Crit) \<and> holder (locks k l) = c \<and> holder_repeat_nr (locks k l) < -1
         then Some (Inr (s\<lparr>kern := lock_again k l\<rparr>)) else None)"
| "act l Drop s =
     (let k = kern s; c = running_thread k
      in if ctl s c = On_cpu \<and> pc s c = Crit
         then Some (bnd (lock_drop_holder k l) (\<lambda>r. Inr (case r of
                Inl k \<Rightarrow> s\<lparr>kern := k\<rparr>
              | Inr k \<Rightarrow> s\<lparr>kern := k, pc := (pc s)(c := Leaving)\<rparr>)))
         else None)"
| "act l Drop_count s =
     (let k = kern s; c = running_thread k
      in if ctl s c = On_cpu \<and> pc s c = Leaving
         then Some (Inr (s\<lparr>kern := lock_drop_count k l, pc := (pc s)(c := Rel)\<rparr>))
         else None)"
| "act l Up s =
     (let k = kern s; c = running_thread k
      in if ctl s c = On_cpu \<and> pc s c = Rel
         then Some (bnd (sema_up k (Sema_of l)) (\<lambda>k. Inr (s\<lparr>kern := k, pc := (pc s)(c := Out)\<rparr>)))
         else None)"
| "act l Idle_block s =
     (let k = kern s; c = running_thread k
      in if ctl s c = On_cpu \<and> c = idle_thread k
         then Some (outcome (thread_block k TASK_BLOCKED)
                (\<lambda>k. s\<lparr>kern := k\<lparr>flags := sti (flags k)\<rparr>\<rparr>)
                (\<lambda>k. s\<lparr>kern := k, ctl := (ctl s)(c := In_idle)\<rparr>))
         else None)"

definition lock_start :: "u32 set \<Rightarrow> lockp \<Rightarrow> lsys \<Rightarrow> bool" where
  "lock_start T l s \<longleftrightarrow>
     sched_inv T (kern s) \<and> (\<forall>t\<in>T. stack_magic (tasks (kern s) t) = 0x20000509) \<and>
     (\<forall>t\<in>T. t \<noteq> idle_thread (kern s) \<longrightarrow> \<not> blocked_status (statuses (kern s) t)) \<and>
     locks (kern s) l = free_lock \<and> pc s = (\<lambda>_. Out) \<and>
     ctl s = (\<lambda>_. New)(running_thread (kern s) := On_cpu)"

inductive lock_reach :: "u32 set \<Rightarrow> lockp \<Rightarrow> lsys \<Rightarrow> bool" for T l where
  start: "lock_start T l s \<Longrightarrow> lock_reach T l s"
| step: "lock_reach T l s \<Longrightarrow> act l a s = Some (Inr s') \<Longrightarrow> lock_reach T l s'"

section \<open>The invariant\<close>

definition owns :: "lpc \<Rightarrow> bool" where
  "owns p \<longleftrightarrow> p = Got \<or> p = Owned \<or> p = Crit \<or> p = Leaving \<or> p = Rel"

definition in_down :: "lctl \<Rightarrow> bool" where
  "in_down x \<longleftrightarrow> (\<exists>old. x = In_down old)"

text \<open>Waiting threads \<open>w\<close>, semaphore value \<open>v\<close>, holder \<open>h\<close>, repeat count \<open>n\<close>.\<close>

definition thread_ok :: "u32 \<Rightarrow> u32 \<Rightarrow> u32 \<Rightarrow> bool \<Rightarrow> task_status \<Rightarrow> lpc \<Rightarrow> lctl \<Rightarrow> bool" where
  "thread_ok idle c t waiting st p x \<longleftrightarrow>
     (waiting \<longrightarrow> blocked_status st \<and> in_down x) \<and> (t \<noteq> idle \<and> blocked_status st \<longrightarrow> waiting) \<and>
     (in_down x \<longrightarrow> p = Try) \<and> (t \<noteq> c \<longrightarrow> x \<noteq> On_cpu) \<and> (t \<noteq> idle \<longrightarrow> x \<noteq> In_idle)"

definition wait_inv :: "u32 set \<Rightarrow> u32 \<Rightarrow> u32 \<Rightarrow> (u32 \<Rightarrow> task_status) \<Rightarrow> u32 list \<Rightarrow> (u32 \<Rightarrow> lpc) \<Rightarrow>
    (u32 \<Rightarrow> lctl) \<Rightarrow> bool" where
  "wait_inv T idle c st w p ct \<longleftrightarrow>
     distinct w \<and> set w \<subseteq> T \<and> idle \<notin> set w \<and> p idle = Out \<and>
     (\<forall>t\<in>T. thread_ok idle c t (t \<in> set w) (st t) (p t) (ct t))"

definition owner :: "u32 set \<Rightarrow> u8 \<Rightarrow> u32 \<Rightarrow> u32 \<Rightarrow> (u32 \<Rightarrow> lpc) \<Rightarrow> u32 \<Rightarrow> bool" where
  "owner T v h n p x \<longleftrightarrow> v = 0 \<and> owns (p x) \<and> (\<forall>t\<in>T. t \<noteq> x \<longrightarrow> \<not> owns (p t)) \<and>
     h = (if p x = Owned \<or> p x = Crit then x else NULL) \<and> (n \<noteq> 0 \<longleftrightarrow> p x = Crit \<or> p x = Leaving)"

definition own_inv :: "u32 set \<Rightarrow> u8 \<Rightarrow> u32 \<Rightarrow> u32 \<Rightarrow> (u32 \<Rightarrow> lpc) \<Rightarrow> bool" where
  "own_inv T v h n p \<longleftrightarrow>
     (v = 1 \<and> h = NULL \<and> n = 0 \<and> (\<forall>t\<in>T. \<not> owns (p t))) \<or> (\<exists>x\<in>T. owner T v h n p x)"

text \<open>With the semaphore free and threads waiting, a woken thread is on its way.\<close>

definition wake_inv :: "u32 set \<Rightarrow> u32 list \<Rightarrow> u8 \<Rightarrow> (u32 \<Rightarrow> lctl) \<Rightarrow> bool" where
  "wake_inv T w v ct \<longleftrightarrow> (v = 1 \<and> w \<noteq> [] \<longrightarrow> (\<exists>t\<in>T. in_down (ct t) \<and> t \<notin> set w))"

definition lock_inv :: "u32 set \<Rightarrow> lockp \<Rightarrow> lsys \<Rightarrow> bool" where
  "lock_inv T l s \<longleftrightarrow>
     (let k = kern s; c = running_thread k; L = locks k l; w = waiters (semaphore L);
          v = value (semaphore L)
      in sched_inv T k \<and> (\<forall>t\<in>T. stack_magic (tasks k t) = 0x20000509) \<and>
         wait_inv T (idle_thread k) c (statuses k) w (pc s) (ctl s) \<and>
         own_inv T v (holder L) (holder_repeat_nr L) (pc s) \<and> wake_inv T w v (ctl s) \<and>
         (ctl s c \<noteq> On_cpu \<longrightarrow> intr_off k))"

subsection \<open>How the parts of the invariant change\<close>

lemma owns_simps [simp]: "owns Got" "owns Owned" "owns Crit" "owns Leaving" "owns Rel" "\<not> owns Out" "\<not> owns Try"
  by (simp_all add: owns_def)

lemma in_down_simps [simp]:
  "in_down (In_down old)" "\<not> in_down On_cpu" "\<not> in_down New" "\<not> in_down (Interrupted e)" "\<not> in_down In_idle"
  by (simp_all add: in_down_def)

lemma blocked_status_simps [simp]:
  "blocked_status TASK_BLOCKED" "\<not> blocked_status TASK_RUNNING" "\<not> blocked_status TASK_READY"
  by (simp_all add: blocked_status_def)

lemma wait_facts:
  assumes "wait_inv T idle c st w p ct"
  shows "distinct w" "set w \<subseteq> T" "idle \<notin> set w" "p idle = Out"
    and "\<And>t. t \<in> T \<Longrightarrow> thread_ok idle c t (t \<in> set w) (st t) (p t) (ct t)"
  using assms by (simp_all add: wait_inv_def)

lemma wait_map:
  assumes "wait_inv T idle c st w p ct" "distinct w'" "set w' \<subseteq> T" "idle \<notin> set w'" "p' idle = Out"
    and "\<And>t. t \<in> T \<Longrightarrow> thread_ok idle c t (t \<in> set w) (st t) (p t) (ct t) \<Longrightarrow>
           thread_ok idle c' t (t \<in> set w') (st' t) (p' t) (ct' t)"
  shows "wait_inv T idle c' st' w' p' ct'"
  using assms by (simp add: wait_inv_def)

lemma wait_on:
  assumes "wait_inv T idle c st w p ct" "\<not> in_down (ct c)"
  shows "wait_inv T idle c st w p (ct(c := On_cpu))"
  by (rule wait_map [OF assms(1)])
    (use wait_facts(1-4) [OF assms(1)] assms(2) in \<open>auto simp: thread_ok_def split: if_splits\<close>)

lemma wake_upd:
  "wake_inv T w v ct \<Longrightarrow> \<not> in_down (ct c) \<Longrightarrow> wake_inv T w v (ct(c := x))"
  by (auto simp: wake_inv_def)

lemma wait_same:
  "wait_inv T idle c st w p ct \<Longrightarrow> (\<And>t. blocked_status (st' t) = blocked_status (st t)) \<Longrightarrow>
     wait_inv T idle c st' w p ct"
  by (simp add: wait_inv_def thread_ok_def)

lemma wait_preempted:
  assumes "wait_inv T idle c st w p ct" "\<And>t. blocked_status (st' t) = blocked_status (st t)"
    and "ct c = On_cpu"
  shows "wait_inv T idle c' st' w p (ct(c := Interrupted e))"
  by (rule wait_map [OF assms(1)])
    (use wait_facts(1-4) [OF assms(1)] assms(2,3) in \<open>auto simp: thread_ok_def split: if_splits\<close>)

lemma wait_pc:
  assumes "wait_inv T idle c st w p ct" "ct c = On_cpu" "c \<noteq> idle"
  shows "wait_inv T idle c st w (p(c := x)) ct"
  by (rule wait_map [OF assms(1)])
    (use wait_facts(1-4) [OF assms(1)] assms(2,3) in \<open>auto simp: thread_ok_def split: if_splits\<close>)

lemma wait_got:
  assumes "wait_inv T idle c st w p ct" "c \<notin> set w" "c \<noteq> idle"
  shows "wait_inv T idle c st w (p(c := Got)) (ct(c := On_cpu))"
  by (rule wait_map [OF assms(1)])
    (use wait_facts(1-4) [OF assms(1)] assms(2,3) in \<open>auto simp: thread_ok_def split: if_splits\<close>)

lemma wait_block:
  assumes "wait_inv T idle c st w p ct" "c \<in> T" "c \<noteq> idle" "c \<notin> set w" "p c = Try"
    and "n \<notin> set w" "n \<noteq> c"
  shows "wait_inv T idle n (st(c := TASK_BLOCKED, n := TASK_RUNNING)) (w @ [c]) p (ct(c := In_down old))"
  by (rule wait_map [OF assms(1)])
    (use wait_facts(1-4) [OF assms(1)] assms(2-) in \<open>auto simp: thread_ok_def split: if_splits\<close>)

lemma wait_wake:
  assumes "wait_inv T idle c st (x # w) p ct" "ct c = On_cpu" "c \<noteq> idle"
  shows "wait_inv T idle c (st(x := TASK_READY)) w (p(c := y)) ct"
  by (rule wait_map [OF assms(1)])
    (use wait_facts(1-4) [OF assms(1)] assms(2-) in \<open>auto simp: thread_ok_def split: if_splits\<close>)

lemma wait_idle:
  assumes "wait_inv T idle idle st w p ct" "ct idle = On_cpu" "n \<notin> set w" "n \<noteq> idle"
  shows "wait_inv T idle n (st(idle := TASK_BLOCKED, n := TASK_RUNNING)) w p (ct(idle := In_idle))"
  by (rule wait_map [OF assms(1)])
    (use wait_facts(1-4) [OF assms(1)] assms(2-) in \<open>auto simp: thread_ok_def split: if_splits\<close>)

lemma own_owner:
  assumes "own_inv T v h n p" "c \<in> T" "owns (p c)"
  shows "owner T v h n p c"
proof -
  from assms obtain x where x: "x \<in> T" "owner T v h n p x" by (auto simp: own_inv_def)
  with assms(2,3) have "x = c" unfolding owner_def by metis
  with x show ?thesis by simp
qed

lemma ownerI: "owner T v h n p c \<Longrightarrow> c \<in> T \<Longrightarrow> own_inv T v h n p"
  by (auto simp: own_inv_def)

lemma own_value: "own_inv T v h n p \<Longrightarrow> v = 0 \<or> v = 1"
  by (auto simp: own_inv_def owner_def)

lemma own_free: "own_inv T 1 h n p \<Longrightarrow> h = NULL \<and> n = 0 \<and> (\<forall>t\<in>T. \<not> owns (p t))"
  by (auto simp: own_inv_def owner_def)

lemma own_got:
  "own_inv T 1 h n p \<Longrightarrow> c \<in> T \<Longrightarrow> own_inv T 0 h n (p(c := Got))"
  by (rule ownerI [of _ _ _ _ _ c]) (simp_all add: own_free owner_def)

lemma own_try:
  assumes "own_inv T v h n p" "\<not> owns (p c)"
  shows "own_inv T v h n (p(c := Try))"
proof (cases "\<exists>x\<in>T. owner T v h n p x")
  case True
  then obtain x where x: "x \<in> T" "owner T v h n p x" by blast
  then have "x \<noteq> c" using assms(2) by (auto simp: owner_def)
  with x show ?thesis by (intro ownerI [of _ _ _ _ _ x]) (simp_all add: owner_def)
next
  case False
  with assms(1) show ?thesis by (simp add: own_inv_def)
qed

lemma own_take:
  "own_inv T v h n p \<Longrightarrow> c \<in> T \<Longrightarrow> p c = Got \<Longrightarrow> own_inv T v c n (p(c := Owned))"
  using own_owner [of T v h n p c] ownerI [of T v c n "p(c := Owned)" c] by (simp add: owner_def)

lemma own_take_count:
  "own_inv T v h n p \<Longrightarrow> c \<in> T \<Longrightarrow> p c = Owned \<Longrightarrow> n = 0 \<and> own_inv T v h 1 (p(c := Crit))"
  using own_owner [of T v h n p c] ownerI [of T v h 1 "p(c := Crit)" c] by (simp add: owner_def)

lemma own_crit:
  "own_inv T v h n p \<Longrightarrow> c \<in> T \<Longrightarrow> p c = Crit \<Longrightarrow> h = c \<and> n \<noteq> 0"
  using own_owner [of T v h n p c] by (simp add: owner_def)

lemma own_holder:
  "own_inv T v h n p \<Longrightarrow> c \<in> T \<Longrightarrow> NULL \<notin> T \<Longrightarrow> h = c \<Longrightarrow> p c = Owned \<or> p c = Crit"
  by (auto simp: own_inv_def owner_def split: if_splits)

lemma own_count:
  "own_inv T v h n p \<Longrightarrow> c \<in> T \<Longrightarrow> p c = Crit \<Longrightarrow> m \<noteq> 0 \<Longrightarrow> own_inv T v h m p"
  using own_owner [of T v h n p c] ownerI [of T v h m p c] by (simp add: owner_def)

lemma own_drop:
  "own_inv T v h n p \<Longrightarrow> c \<in> T \<Longrightarrow> p c = Crit \<Longrightarrow> own_inv T v NULL n (p(c := Leaving))"
  using own_owner [of T v h n p c] ownerI [of T v NULL n "p(c := Leaving)" c] by (simp add: owner_def)

lemma own_drop_count:
  "own_inv T v h n p \<Longrightarrow> c \<in> T \<Longrightarrow> p c = Leaving \<Longrightarrow> own_inv T v h 0 (p(c := Rel))"
  using own_owner [of T v h n p c] ownerI [of T v h 0 "p(c := Rel)" c] by (simp add: owner_def)

lemma own_up:
  "own_inv T v h n p \<Longrightarrow> c \<in> T \<Longrightarrow> p c = Rel \<Longrightarrow> v = 0 \<and> own_inv T 1 h n (p(c := Out))"
  using own_owner [of T v h n p c] by (simp add: owner_def own_inv_def)

text \<open>The thread the scheduler picks is not waiting.\<close>

lemma pick_not_waiting:
  assumes "sched_inv T k" "wait_inv T (idle_thread k) c (statuses k) w p ct"
  shows "fst (pick k) \<notin> set w"
proof (cases "thread_ready_list k")
  case Nil
  with wait_facts(3) [OF assms(2)] show ?thesis by (simp add: pick_def)
next
  case (Cons x xs)
  with assms(1) have "x \<in> T" "statuses k x = TASK_READY" by (auto simp: sched_inv_def queue_inv_def)
  with wait_facts(5) [OF assms(2), of x] Cons show ?thesis by (auto simp: pick_def thread_ok_def)
qed

lemma running_not_waiting:
  assumes "sched_inv T k" "wait_inv T i c (statuses k) w p ct"
  shows "running_thread k \<in> T" "running_thread k \<notin> set w"
proof -
  have "running_thread k \<in> T" "statuses k (running_thread k) = TASK_RUNNING"
    using assms(1) by (auto simp: sched_inv_def queue_inv_def)
  with wait_facts(5) [OF assms(2), of "running_thread k"] show "running_thread k \<in> T" "running_thread k \<notin> set w"
    by (auto simp: thread_ok_def)
qed

section \<open>Every action keeps the invariant\<close>

lemmas lock_inv_simps = lock_inv_def Let_def

lemma lock_inv_start:
  assumes "lock_start T l s"
  shows "lock_inv T l s"
proof -
  have T: "running_thread (kern s) \<in> T" using assms by (auto simp: lock_start_def sched_inv_def queue_inv_def)
  have "thread_ok (idle_thread (kern s)) (running_thread (kern s)) t False (statuses (kern s) t) Out (ctl s t)"
    if "t \<in> T" for t
    using that assms by (auto simp: lock_start_def thread_ok_def)
  then show ?thesis
    using assms by (auto simp: lock_inv_simps lock_start_def free_lock_def wait_inv_def own_inv_def wake_inv_def)
qed

text \<open>\<open>sema_down_from\<close>, entered for the first time or after a wakeup.\<close>

lemma sema_down_from_free:
  assumes "value (sema_at k p) = 1"
  shows "sema_down_from k p old = Inr (k_intr_set_status (upd_sema k p (\<lambda>s. s\<lparr>value := 0\<rparr>)) old)"
proof -
  have "upd_sema k p (\<lambda>s. s\<lparr>value := value s - 1\<rparr>) = upd_sema k p (\<lambda>s. s\<lparr>value := 0\<rparr>)"
    using assms by (auto simp: upd_sema_def sema_at_def split: semap.splits)
  with assms show ?thesis by (simp add: sema_down_from_def sema_down_loop_free)
qed

lemma sched_inv_status [simp]:
  "sched_inv T (k_intr_set_status k st) = sched_inv T k"
  "running_thread (k_intr_set_status k st) = running_thread k"
  "statuses (k_intr_set_status k st) = statuses k" "locks (k_intr_set_status k st) = locks k"
  "tasks (k_intr_set_status k st) = tasks k" "idle_thread (k_intr_set_status k st) = idle_thread k"
  by (simp_all add: k_intr_set_status_def)

lemma wait_state_simps [simp]:
  "idle_thread (wait_state k p) = idle_thread k"
  "stack_magic (tasks (wait_state k p) t) = stack_magic (tasks k t)"
  "locks (wait_state k (Sema_of l)) = (locks k)(l := (locks k l)\<lparr>semaphore :=
     (semaphore (locks k l))\<lparr>waiters := waiters (semaphore (locks k l)) @ [running_thread k]\<rparr>\<rparr>)"
  by (simp_all add: wait_state_def)

lemma down_inv:
  assumes inv: "lock_inv T l s" and k: "kern s = k0" "k = k0\<lparr>flags := e\<rparr>" "intr_off k"
    and c: "c = running_thread k" "pc s c = Try" "c \<noteq> idle_thread k"
  shows "\<exists>s'. outcome (sema_down_from k (Sema_of l) old)
            (\<lambda>k. s\<lparr>kern := k, pc := (pc s)(c := Got), ctl := (ctl s)(c := On_cpu)\<rparr>)
            (\<lambda>k. s\<lparr>kern := k, ctl := (ctl s)(c := In_down old)\<rparr>) = Inr s' \<and> lock_inv T l s'"
proof -
  let ?L = "locks k l"
  have sched: "sched_inv T k" and magic: "\<forall>t\<in>T. stack_magic (tasks k t) = 0x20000509"
    and wait: "wait_inv T (idle_thread k) c (statuses k) (waiters (semaphore ?L)) (pc s) (ctl s)"
    and own: "own_inv T (value (semaphore ?L)) (holder ?L) (holder_repeat_nr ?L) (pc s)"
    using inv by (simp_all add: lock_inv_simps k c)
  note r = running_not_waiting [OF sched wait] and p = pick_not_waiting [OF sched wait]
  show ?thesis
  proof (cases "value (semaphore ?L) = 0")
    case False
    then have v: "value (sema_at k (Sema_of l)) = 1" using own_value [OF own] by simp
    have "wait_inv T (idle_thread k) c (statuses k) (waiters (semaphore ?L)) ((pc s)(c := Got)) ((ctl s)(c := On_cpu))"
      using wait r(2) c by (intro wait_got) simp_all
    moreover have "own_inv T 0 (holder ?L) (holder_repeat_nr ?L) ((pc s)(c := Got))"
      using own v r(1) c(1) by (intro own_got) simp_all
    ultimately show ?thesis
      using sched magic by (simp add: sema_down_from_free [OF v] lock_inv_simps wake_inv_def c(1))
  next
    case True
    have v: "value (sema_at k (Sema_of l)) = 0" using True by simp
    have w: "running_thread k \<notin> set (waiters (sema_at k (Sema_of l)))" using r(2) by simp
    have ci: "running_thread k \<noteq> idle_thread k" using c by simp
    note d = sema_down_from_taken [OF sched ci k(3) v w]
    have "wait_inv T (idle_thread k) (fst (pick k)) ((statuses k)(c := TASK_BLOCKED, fst (pick k) := TASK_RUNNING))
       (waiters (semaphore ?L) @ [c]) (pc s) ((ctl s)(c := In_down old))"
      using wait r p c d(4) by (intro wait_block) simp_all
    with own magic d show ?thesis
      by (simp add: lock_inv_simps wake_inv_def True c(1))
  qed
qed

lemma sema_up_waiter:
  assumes sched: "sched_inv T k" and sem: "semaphore (locks k l) = \<lparr>value = 0, waiters = x # w\<rparr>"
    and x: "x \<in> T" "blocked_status (statuses k x)"
  shows "\<exists>k'. sema_up k (Sema_of l) = Inr k' \<and> sched_inv T k' \<and> running_thread k' = running_thread k \<and>
           idle_thread k' = idle_thread k \<and> statuses k' = (statuses k)(x := TASK_READY) \<and>
           (\<forall>u. stack_magic (tasks k' u) = stack_magic (tasks k u)) \<and> flags k' = flags k \<and>
           locks k' = (locks k)(l := (locks k l)\<lparr>semaphore := \<lparr>value = 1, waiters = w\<rparr>\<rparr>)"
proof -
  let ?k0 = "upd_sema (k\<lparr>flags := snd (intr_disable (flags k))\<rparr>) (Sema_of l) (\<lambda>s. s\<lparr>waiters := w\<rparr>)"
  have "sched_inv T ?k0" "blocked_status (statuses ?k0 x)" using sched x by simp_all
  from thread_unblock_step [OF this(1) x(1) this(2)] obtain k1 where
    k1: "thread_unblock ?k0 x = Inr k1" "sched_inv T k1" "flags k1 = snd (intr_disable (flags k))"
      "running_thread k1 = running_thread k" "statuses k1 = (statuses k)(x := TASK_READY)"
      "locks k1 = locks ?k0" "idle_thread k1 = idle_thread k"
      "\<forall>u. stack_magic (tasks k1 u) = stack_magic (tasks k u)" by auto
  let ?k2 = "upd_sema k1 (Sema_of l) (\<lambda>s. s\<lparr>value := value s + 1\<rparr>)"
  let ?k' = "k_intr_set_status ?k2 (intr_get_status (flags k))"
  have v: "value (semaphore (locks k1 l)) = 0" using k1(6) sem by simp
  have "sema_up k (Sema_of l) = Inr ?k'"
    using sem k1(1) v by (simp add: sema_up_def kl_defs split_beta Let_def)
  moreover have "flags ?k' = flags k" using k1(3) by (simp add: k_intr_set_status_def)
  moreover have "locks ?k' = (locks k)(l := (locks k l)\<lparr>semaphore := \<lparr>value = 1, waiters = w\<rparr>\<rparr>)"
    using k1(6) sem by simp
  ultimately show ?thesis using k1 by (intro exI [of _ ?k']) simp
qed

lemma up_inv:
  assumes inv: "lock_inv T l s" and c: "c = running_thread (kern s)" "ctl s c = On_cpu" "pc s c = Rel"
  shows "\<exists>k'. sema_up (kern s) (Sema_of l) = Inr k' \<and> lock_inv T l (s\<lparr>kern := k', pc := (pc s)(c := Out)\<rparr>)"
proof -
  let ?k = "kern s" and ?L = "locks (kern s) l"
  have sched: "sched_inv T ?k" and magic: "\<forall>t\<in>T. stack_magic (tasks ?k t) = 0x20000509"
    and wait: "wait_inv T (idle_thread ?k) c (statuses ?k) (waiters (semaphore ?L)) (pc s) (ctl s)"
    and own: "own_inv T (value (semaphore ?L)) (holder ?L) (holder_repeat_nr ?L) (pc s)"
    using inv by (simp_all add: lock_inv_simps c(1))
  have cT: "c \<in> T" using running_not_waiting(1) [OF sched wait] c(1) by simp
  have ci: "c \<noteq> idle_thread ?k" using wait_facts(4) [OF wait] c(3) by auto
  have v: "value (semaphore ?L) = 0" and own': "own_inv T 1 (holder ?L) (holder_repeat_nr ?L) ((pc s)(c := Out))"
    using own_up [OF own cT c(3)] by simp_all
  show ?thesis
  proof (cases "waiters (semaphore ?L)")
    case Nil
    have "value (sema_at ?k (Sema_of l)) = 0" "waiters (sema_at ?k (Sema_of l)) = []" using v Nil by simp_all
    from sema_up_no_waiters [OF this] show ?thesis
      using sched magic own' wait_pc [OF wait c(2) ci, of Out] c Nil
      by (simp add: lock_inv_simps wake_inv_def)
  next
    case (Cons x w)
    have x: "x \<in> T" "blocked_status (statuses ?k x)" "in_down (ctl s x)" "x \<notin> set w"
      using wait_facts [OF wait] wait_facts(5) [OF wait, of x] Cons by (auto simp: thread_ok_def)
    have "semaphore ?L = \<lparr>value = 0, waiters = x # w\<rparr>"
      using v Cons by (intro semaphore.equality) simp_all
    from sema_up_waiter [OF sched this x(1,2)] obtain k' where
      k': "sema_up ?k (Sema_of l) = Inr k'" "sched_inv T k'" "running_thread k' = c"
        "idle_thread k' = idle_thread ?k" "statuses k' = (statuses ?k)(x := TASK_READY)"
        "\<forall>u. stack_magic (tasks k' u) = stack_magic (tasks ?k u)"
        "locks k' = (locks ?k)(l := (locks ?k l)\<lparr>semaphore := \<lparr>value = 1, waiters = w\<rparr>\<rparr>)"
      using c(1) by blast
    have "wait_inv T (idle_thread ?k) c ((statuses ?k)(x := TASK_READY)) w ((pc s)(c := Out)) (ctl s)"
      using wait Cons c(2) ci by (intro wait_wake) simp_all
    moreover have "wake_inv T w 1 (ctl s)" using x by (auto simp: wake_inv_def)
    ultimately show ?thesis using k' magic own' c(2) by (simp add: lock_inv_simps)
  qed
qed

lemma timer_inv:
  assumes inv: "lock_inv T l s" and c: "c = running_thread (kern s)" "ctl s c = On_cpu"
  shows "\<exists>s'. outcome (intr_timer_handler ((kern s)\<lparr>flags := cli e\<rparr>))
            (\<lambda>k. s\<lparr>kern := k\<lparr>flags := e\<rparr>\<rparr>)
            (\<lambda>k. s\<lparr>kern := k, ctl := (ctl s)(c := Interrupted e)\<rparr>) = Inr s' \<and> lock_inv T l s'"
proof -
  let ?k = "(kern s)\<lparr>flags := cli e\<rparr>" and ?L = "locks (kern s) l"
  have sched: "sched_inv T (kern s)" and magic: "\<forall>t\<in>T. stack_magic (tasks (kern s) t) = 0x20000509"
    and wait: "wait_inv T (idle_thread (kern s)) c (statuses (kern s)) (waiters (semaphore ?L)) (pc s) (ctl s)"
    and own: "own_inv T (value (semaphore ?L)) (holder ?L) (holder_repeat_nr ?L) (pc s)"
    and wake: "wake_inv T (waiters (semaphore ?L)) (value (semaphore ?L)) (ctl s)"
    using inv by (simp_all add: lock_inv_simps c(1))
  have "running_thread ?k \<in> T" using running_not_waiting(1) [OF sched wait] by simp
  then obtain k' where
    k': "intr_timer_handler ?k = Inr k' \<and> running_thread k' = running_thread ?k \<or> intr_timer_handler ?k = Inl (Yield k')"
      "sched_inv T k'" "intr_off k'" "same_blocked ?k k'"
    using timer_step [of T ?k] sched magic by (auto simp: intr_off_def)
  have sb: "\<And>t. blocked_status (statuses k' t) = blocked_status (statuses (kern s) t)"
    and same: "locks k' = locks (kern s)" "idle_thread k' = idle_thread (kern s)"
      "\<And>t. stack_magic (tasks k' t) = stack_magic (tasks (kern s) t)"
    using k'(4) by (simp_all add: same_blocked_def)
  from k'(1) show ?thesis
  proof
    assume h: "intr_timer_handler ?k = Inr k' \<and> running_thread k' = running_thread ?k"
    then show ?thesis
      using k'(2) magic own wake wait_same [OF wait sb] c by (simp add: lock_inv_simps same)
  next
    assume h: "intr_timer_handler ?k = Inl (Yield k')"
    have "wake_inv T (waiters (semaphore ?L)) (value (semaphore ?L)) ((ctl s)(c := Interrupted e))"
      using wake c(2) by (intro wake_upd) simp_all
    with h show ?thesis
      using k'(2,3) magic own wait_preempted [OF wait sb c(2), of _ e] by (simp add: lock_inv_simps same)
  qed
qed

lemma idle_inv:
  assumes inv: "lock_inv T l s" and c: "c = running_thread (kern s)" "ctl s c = On_cpu" "c = idle_thread (kern s)"
  shows "\<exists>s'. outcome (thread_block (kern s) TASK_BLOCKED)
            (\<lambda>k. s\<lparr>kern := k\<lparr>flags := sti (flags k)\<rparr>\<rparr>)
            (\<lambda>k. s\<lparr>kern := k, ctl := (ctl s)(c := In_idle)\<rparr>) = Inr s' \<and> lock_inv T l s'"
proof -
  let ?k = "kern s" and ?L = "locks (kern s) l" and ?b = "block_state (kern s) TASK_BLOCKED"
  have sched: "sched_inv T ?k" and magic: "\<forall>t\<in>T. stack_magic (tasks ?k t) = 0x20000509"
    and wait: "wait_inv T c c (statuses ?k) (waiters (semaphore ?L)) (pc s) (ctl s)"
    and own: "own_inv T (value (semaphore ?L)) (holder ?L) (holder_repeat_nr ?L) (pc s)"
    and wake: "wake_inv T (waiters (semaphore ?L)) (value (semaphore ?L)) (ctl s)"
    using inv c by (simp_all add: lock_inv_simps)
  note b = block_state_inv [OF sched blocked_status_simps(1), simplified]
  have st: "statuses ?k c = TASK_RUNNING" using sched c(1) by (auto simp: sched_inv_def queue_inv_def)
  show ?thesis
  proof (cases "fst (pick ?k) = c")
    case True
    have "statuses ?b = statuses ?k" using True c(1) st by (simp add: fun_upd_idem)
    with True b show ?thesis
      using magic own wait wake c by (simp add: lock_inv_simps)
  next
    case False
    have "fst (pick ?k) \<notin> set (waiters (semaphore ?L))"
      using pick_not_waiting [OF sched] wait c(3) by simp
    then have "wait_inv T c (fst (pick ?k)) ((statuses ?k)(c := TASK_BLOCKED, fst (pick ?k) := TASK_RUNNING))
        (waiters (semaphore ?L)) (pc s) ((ctl s)(c := In_idle))"
      using wait c(2) False by (intro wait_idle) simp_all
    moreover have "wake_inv T (waiters (semaphore ?L)) (value (semaphore ?L)) ((ctl s)(c := In_idle))"
      using wake c(2) by (intro wake_upd) simp_all
    moreover have "intr_off ?b" by (simp add: intr_off_def)
    ultimately show ?thesis
      using False b magic own c by (simp add: lock_inv_simps)
  qed
qed

text \<open>The remaining actions change only the flags, a program counter or the fields of the lock.\<close>

lemma on_inv:
  assumes "lock_inv T l s" "\<not> in_down (ctl s (running_thread (kern s)))"
  shows "lock_inv T l (s\<lparr>kern := (kern s)\<lparr>flags := e\<rparr>, ctl := (ctl s)(running_thread (kern s) := On_cpu)\<rparr>)"
  using assms wait_on wake_upd by (simp add: lock_inv_simps)

lemma lock_fields_inv:
  assumes inv: "lock_inv T l s" and c: "c = running_thread (kern s)" "ctl s c = On_cpu"
    and p: "c \<noteq> idle_thread (kern s)"
    and sem: "semaphore (f (locks (kern s) l)) = semaphore (locks (kern s) l)"
    and own: "own_inv T (value (semaphore (locks (kern s) l))) (holder (f (locks (kern s) l)))
                (holder_repeat_nr (f (locks (kern s) l))) ((pc s)(c := x))"
  shows "lock_inv T l (s\<lparr>kern := upd_lock (kern s) l f, pc := (pc s)(c := x)\<rparr>)"
proof -
  have "sched_inv T (upd_lock k l f) = sched_inv T k" for k by (simp add: upd_lock_def)
  then show ?thesis
    using inv wait_pc [of T _ c _ _ "pc s" "ctl s" x] c p sem own by (simp add: lock_inv_simps)
qed

lemma lock_inv_facts:
  assumes "lock_inv T l s"
  defines "k \<equiv> kern s" and "c \<equiv> running_thread (kern s)" and "L \<equiv> locks (kern s) l"
  shows "wait_inv T (idle_thread k) c (statuses k) (waiters (semaphore L)) (pc s) (ctl s)"
    and "own_inv T (value (semaphore L)) (holder L) (holder_repeat_nr L) (pc s)"
    and "ctl s c \<noteq> On_cpu \<Longrightarrow> intr_off k"
    and "c \<in> T" and "NULL \<notin> T"
    and "pc s c \<noteq> Out \<Longrightarrow> c \<noteq> idle_thread k"
    and "in_down (ctl s c) \<Longrightarrow> pc s c = Try"
proof -
  have sched: "sched_inv T k" using assms by (simp add: lock_inv_simps)
  show wait: "wait_inv T (idle_thread k) c (statuses k) (waiters (semaphore L)) (pc s) (ctl s)"
    and "own_inv T (value (semaphore L)) (holder L) (holder_repeat_nr L) (pc s)"
    and "ctl s c \<noteq> On_cpu \<Longrightarrow> intr_off k"
    using assms by (simp_all add: lock_inv_simps)
  show cT: "c \<in> T" and "NULL \<notin> T"
    using running_not_waiting(1) [OF sched wait] sched assms by (simp_all add: sched_inv_def stacks_ok_def)
  show "c \<noteq> idle_thread k" if "pc s c \<noteq> Out" using wait_facts(4) [OF wait] that by metis
  show "pc s c = Try" if "in_down (ctl s c)"
    using wait_facts(5) [OF wait cT] that by (simp add: thread_ok_def)
qed

lemma resume_down_inv:
  assumes inv: "lock_inv T l s" and act: "act l Resume_down s = Some r"
  shows "\<exists>s'. r = Inr s' \<and> lock_inv T l s'"
proof -
  let ?k = "kern s" and ?c = "running_thread (kern s)"
  note f = lock_inv_facts [OF inv]
  from act obtain old where old: "ctl s ?c = In_down old"
    and r: "r = outcome (sema_down_from ?k (Sema_of l) old)
             (\<lambda>k. s\<lparr>kern := k, pc := (pc s)(?c := Got), ctl := (ctl s)(?c := On_cpu)\<rparr>) (\<lambda>k. s\<lparr>kern := k\<rparr>)"
    by (auto simp: Let_def split: lctl.splits)
  have "intr_off ?k" "pc s ?c = Try" using f(3,7) old by simp_all
  moreover have "s\<lparr>kern := k, ctl := (ctl s)(?c := In_down old)\<rparr> = s\<lparr>kern := k\<rparr>" for k
    using old by (simp add: fun_upd_idem)
  ultimately show ?thesis
    using down_inv [OF inv refl, of ?k "flags ?k" ?c old] f(6) r by simp
qed

lemma down_act_inv:
  assumes inv: "lock_inv T l s" and act: "act l Down s = Some r"
  shows "\<exists>s'. r = Inr s' \<and> lock_inv T l s'"
proof -
  let ?k = "kern s" and ?c = "running_thread (kern s)"
  let ?k1 = "?k\<lparr>flags := snd (intr_disable (flags ?k))\<rparr>"
  note f = lock_inv_facts [OF inv]
  from act have on: "ctl s ?c = On_cpu" "pc s ?c = Try"
    and r: "r = outcome (sema_down ?k (Sema_of l)) (\<lambda>k. s\<lparr>kern := k, pc := (pc s)(?c := Got)\<rparr>)
             (\<lambda>k. s\<lparr>kern := k, ctl := (ctl s)(?c := In_down (intr_get_status (flags ?k)))\<rparr>)"
    by (auto simp: Let_def split: if_splits)
  have "sema_down ?k (Sema_of l) = sema_down_from ?k1 (Sema_of l) (intr_get_status (flags ?k))"
    by (simp add: sema_down_def split_beta)
  moreover have "s\<lparr>kern := k, pc := p, ctl := (ctl s)(?c := On_cpu)\<rparr> = s\<lparr>kern := k, pc := p\<rparr>" for k p
    using on by (simp add: fun_upd_idem)
  moreover have "intr_off ?k1" by (simp add: intr_off_def)
  ultimately show ?thesis
    using down_inv [OF inv refl, of ?k1 "flags ?k1" ?c "intr_get_status (flags ?k)"] f(6) r on by simp
qed

lemma test_inv:
  assumes inv: "lock_inv T l s" and act: "act l Test s = Some r"
  shows "\<exists>s'. r = Inr s' \<and> lock_inv T l s'"
proof -
  let ?k = "kern s" and ?c = "running_thread (kern s)" and ?L = "locks (kern s) l"
  note f = lock_inv_facts [OF inv]
  from act have on: "ctl s ?c = On_cpu" "?c \<noteq> idle_thread ?k" "pc s ?c = Out \<or> pc s ?c = Crit" "holder ?L \<noteq> ?c"
    and r: "r = Inr (s\<lparr>pc := (pc s)(?c := Try)\<rparr>)" by (auto simp: Let_def split: if_splits)
  have out: "pc s ?c = Out" using own_crit [OF f(2,4)] on(3,4) by blast
  have "own_inv T (value (semaphore ?L)) (holder ?L) (holder_repeat_nr ?L) ((pc s)(?c := Try))"
    using f(2) out by (intro own_try) simp_all
  with r inv on(1) wait_pc [OF f(1) on(1,2), of Try] show ?thesis by (simp add: lock_inv_simps)
qed

lemma take_inv:
  assumes inv: "lock_inv T l s" and act: "act l Take s = Some r"
  shows "\<exists>s'. r = Inr s' \<and> lock_inv T l s'"
proof -
  let ?k = "kern s" and ?c = "running_thread (kern s)" and ?L = "locks (kern s) l"
  note f = lock_inv_facts [OF inv]
  from act have on: "ctl s ?c = On_cpu" "pc s ?c = Got"
    and r: "r = Inr (s\<lparr>kern := lock_take_holder ?k l, pc := (pc s)(?c := Owned)\<rparr>)"
    by (auto simp: Let_def split: if_splits)
  show ?thesis
    using lock_fields_inv [OF inv refl on(1), of "\<lambda>x. x\<lparr>holder := ?c\<rparr>" Owned] own_take [OF f(2) f(4) on(2)] on f(6) r
    by (simp add: lock_take_holder_def)
qed

lemma take_count_inv:
  assumes inv: "lock_inv T l s" and act: "act l Take_count s = Some r"
  shows "\<exists>s'. r = Inr s' \<and> lock_inv T l s'"
proof -
  let ?k = "kern s" and ?c = "running_thread (kern s)" and ?L = "locks (kern s) l"
  note f = lock_inv_facts [OF inv]
  from act have on: "ctl s ?c = On_cpu" "pc s ?c = Owned"
    and r: "r = bnd (lock_take_count ?k l) (\<lambda>k. Inr (s\<lparr>kern := k, pc := (pc s)(?c := Crit)\<rparr>))"
    by (auto simp: Let_def split: if_splits)
  note o = own_take_count [OF f(2) f(4) on(2)]
  show ?thesis
    using lock_fields_inv [OF inv refl on(1), of "\<lambda>x. x\<lparr>holder_repeat_nr := 1\<rparr>" Crit] o on f(6) r
    by (simp add: lock_take_count_def)
qed

lemma again_inv:
  assumes inv: "lock_inv T l s" and act: "act l Again s = Some r"
  shows "\<exists>s'. r = Inr s' \<and> lock_inv T l s'"
proof -
  let ?k = "kern s" and ?c = "running_thread (kern s)" and ?L = "locks (kern s) l"
  note f = lock_inv_facts [OF inv]
  from act have on: "ctl s ?c = On_cpu" "holder ?L = ?c" "holder_repeat_nr ?L < -1" "pc s ?c = Out \<or> pc s ?c = Crit"
    and r: "r = Inr (s\<lparr>kern := lock_again ?k l\<rparr>)" by (auto simp: Let_def split: if_splits)
  have crit: "pc s ?c = Crit" using own_holder [OF f(2) f(4) f(5) on(2)] on(4) by auto
  have "holder_repeat_nr ?L + 1 \<noteq> 0"
    using on(3) by (metis add.inverse_unique add.commute order_less_irrefl)
  then have "own_inv T (value (semaphore ?L)) (holder ?L) (holder_repeat_nr ?L + 1) ((pc s)(?c := Crit))"
    using own_count [OF f(2) f(4) crit] crit by (simp add: fun_upd_idem)
  then show ?thesis
    using lock_fields_inv [OF inv refl on(1), of "\<lambda>x. x\<lparr>holder_repeat_nr := holder_repeat_nr x + 1\<rparr>" Crit]
      r crit f(6) by (simp add: lock_again_def fun_upd_idem)
qed

lemma u32_eq_1: "\<not> 1 < n \<Longrightarrow> n \<noteq> 0 \<Longrightarrow> n = (1::u32)"
  by (simp add: word_less_nat_alt word_unat_eq_iff)

lemma drop_inv:
  assumes inv: "lock_inv T l s" and act: "act l Drop s = Some r"
  shows "\<exists>s'. r = Inr s' \<and> lock_inv T l s'"
proof -
  let ?k = "kern s" and ?c = "running_thread (kern s)" and ?L = "locks (kern s) l"
  note f = lock_inv_facts [OF inv]
  from act have on: "ctl s ?c = On_cpu" "pc s ?c = Crit"
    and r: "r = bnd (lock_drop_holder ?k l) (\<lambda>r. Inr (case r of
         Inl k \<Rightarrow> s\<lparr>kern := k\<rparr> | Inr k \<Rightarrow> s\<lparr>kern := k, pc := (pc s)(?c := Leaving)\<rparr>))"
    by (auto simp: Let_def split: if_splits)
  have h: "holder ?L = ?c" "holder_repeat_nr ?L \<noteq> 0" using own_crit [OF f(2) f(4) on(2)] by simp_all
  show ?thesis
  proof (cases "holder_repeat_nr ?L > 1")
    case True
    then have "holder_repeat_nr ?L - 1 \<noteq> 0" by auto
    then have "own_inv T (value (semaphore ?L)) (holder ?L) (holder_repeat_nr ?L - 1) ((pc s)(?c := Crit))"
      using own_count [OF f(2) f(4) on(2)] on(2) by (simp add: fun_upd_idem)
    then show ?thesis
      using lock_fields_inv [OF inv refl on(1), of "\<lambda>x. x\<lparr>holder_repeat_nr := holder_repeat_nr x - 1\<rparr>" Crit]
        r h True on f(6) by (simp add: lock_drop_holder_def fun_upd_idem)
  next
    case False
    then have "holder_repeat_nr ?L = 1" using h(2) by (rule u32_eq_1)
    then show ?thesis
      using lock_fields_inv [OF inv refl on(1), of "\<lambda>x. x\<lparr>holder := NULL\<rparr>" Leaving]
        own_drop [OF f(2) f(4) on(2)] r h on f(6) by (simp add: lock_drop_holder_def)
  qed
qed

lemma drop_count_inv:
  assumes inv: "lock_inv T l s" and act: "act l Drop_count s = Some r"
  shows "\<exists>s'. r = Inr s' \<and> lock_inv T l s'"
proof -
  let ?k = "kern s" and ?c = "running_thread (kern s)" and ?L = "locks (kern s) l"
  note f = lock_inv_facts [OF inv]
  from act have on: "ctl s ?c = On_cpu" "pc s ?c = Leaving"
    and r: "r = Inr (s\<lparr>kern := lock_drop_count ?k l, pc := (pc s)(?c := Rel)\<rparr>)"
    by (auto simp: Let_def split: if_splits)
  show ?thesis
    using lock_fields_inv [OF inv refl on(1), of "\<lambda>x. x\<lparr>holder_repeat_nr := 0\<rparr>" Rel] own_drop_count [OF f(2) f(4) on(2)] on f(6) r
    by (simp add: lock_drop_count_def)
qed

lemma act_inv:
  assumes inv: "lock_inv T l s" and act: "act l a s = Some r"
  shows "\<exists>s'. r = Inr s' \<and> lock_inv T l s'"
proof (cases a)
  case Start
  then show ?thesis using act inv by (auto simp: Let_def intro!: on_inv split: if_splits)
next
  case Iret
  then show ?thesis using act inv by (auto simp: Let_def intro!: on_inv split: lctl.splits)
next
  case Resume_idle
  then show ?thesis using act inv by (auto simp: Let_def intro!: on_inv split: if_splits)
next
  case Timer
  then show ?thesis using act timer_inv [OF inv refl] by (auto simp: Let_def split: if_splits)
next
  case Up
  then show ?thesis using act up_inv [OF inv refl] by (auto simp: Let_def split: if_splits)
next
  case Idle_block
  then show ?thesis using act idle_inv [OF inv refl] by (auto simp: Let_def split: if_splits)
next
  case Resume_down
  then show ?thesis using act resume_down_inv [OF inv] by blast
next
  case Down
  then show ?thesis using act down_act_inv [OF inv] by blast
next
  case Test
  then show ?thesis using act test_inv [OF inv] by blast
next
  case Take
  then show ?thesis using act take_inv [OF inv] by blast
next
  case Again
  then show ?thesis using act again_inv [OF inv] by blast
next
  case Drop
  then show ?thesis using act drop_inv [OF inv] by blast
next
  case Take_count
  then show ?thesis using act take_count_inv [OF inv] by blast
next
  case Drop_count
  then show ?thesis using act drop_count_inv [OF inv] by blast
qed

lemma lock_reach_inv: "lock_reach T l s \<Longrightarrow> lock_inv T l s"
proof (induction rule: lock_reach.induct)
  case (start s)
  then show ?case by (rule lock_inv_start)
next
  case (step s a s')
  then show ?case using act_inv by fastforce
qed

section \<open>Safety\<close>

text \<open>
  C1: Mutual exclusion: in every reachable state at most one thread is between the return of
  \<open>sema_down\<close> in \<open>lock_acquire\<close> and the \<open>sema_up\<close> of its \<open>lock_release\<close>.
\<close>

theorem lock_mutual_exclusion:
  assumes "lock_reach T l s" "t \<in> T" "u \<in> T" "owns (pc s t)" "owns (pc s u)"
  shows "t = u"
proof -
  have "own_inv T (value (semaphore (locks (kern s) l))) (holder (locks (kern s) l))
      (holder_repeat_nr (locks (kern s) l)) (pc s)"
    using lock_reach_inv [OF assms(1)] by (simp add: lock_inv_simps)
  from own_owner [OF this assms(2,4)] assms(3,5) show ?thesis by (auto simp: owner_def)
qed

text \<open>
  C3: No assertion of \<open>sema_down\<close>, \<open>sema_up\<close>, \<open>lock_acquire\<close>, \<open>lock_release\<close>,
  \<open>thread_block\<close>, \<open>thread_unblock\<close>, \<open>schedule\<close> or the timer interrupt fails in a
  reachable state, whatever the interleaving: every enabled action succeeds.
\<close>

theorem lock_never_panics:
  assumes "lock_reach T l s" "act l a s = Some r"
  shows "\<exists>s'. r = Inr s' \<and> lock_reach T l s'"
proof -
  from act_inv [OF lock_reach_inv [OF assms(1)] assms(2)] obtain s' where "r = Inr s'" by blast
  with lock_reach.step [OF assms(1)] assms(2) show ?thesis by blast
qed

text \<open>
  C2: No wakeup is lost: when the semaphore is free and threads wait for it, a thread that was
  woken is about to test it again, and the waiting threads are exactly the blocked ones.
\<close>

theorem lock_no_lost_wakeup:
  assumes "lock_reach T l s"
  shows "let w = waiters (semaphore (locks (kern s) l))
         in (value (semaphore (locks (kern s) l)) = 1 \<and> w \<noteq> [] \<longrightarrow>
               (\<exists>t\<in>T. in_down (ctl s t) \<and> t \<notin> set w \<and> pc s t = Try)) \<and>
            (\<forall>t\<in>T. t \<noteq> idle_thread (kern s) \<longrightarrow> (t \<in> set w \<longleftrightarrow> blocked_status (statuses (kern s) t)))"
proof -
  let ?w = "waiters (semaphore (locks (kern s) l))"
  have wait: "wait_inv T (idle_thread (kern s)) (running_thread (kern s)) (statuses (kern s)) ?w (pc s) (ctl s)"
    and wake: "wake_inv T ?w (value (semaphore (locks (kern s) l))) (ctl s)"
    using lock_reach_inv [OF assms] by (simp_all add: lock_inv_simps)
  have ok: "thread_ok (idle_thread (kern s)) (running_thread (kern s)) t (t \<in> set ?w)
      (statuses (kern s) t) (pc s t) (ctl s t)" if "t \<in> T" for t by (rule wait_facts(5) [OF wait that])
  have "\<exists>t\<in>T. in_down (ctl s t) \<and> t \<notin> set ?w \<and> pc s t = Try"
    if "value (semaphore (locks (kern s) l)) = 1" "?w \<noteq> []"
    using wake that ok unfolding wake_inv_def thread_ok_def by blast
  moreover have "t \<in> set ?w \<longleftrightarrow> blocked_status (statuses (kern s) t)"
    if "t \<in> T" "t \<noteq> idle_thread (kern s)" for t
    using ok [OF that(1)] that(2) unfolding thread_ok_def by blast
  ultimately show ?thesis by (simp add: Let_def)
qed

section \<open>A run of the system\<close>

definition demo_lsys :: lsys where
  "demo_lsys = \<lparr>kern = demo_kernel\<lparr>flags := 0x202\<rparr>, pc = (\<lambda>_. Out),
     ctl = (\<lambda>_. New)(0xc009e000 := On_cpu)\<rparr>"

lemma demo_start: "lock_start demo_threads Console_lock demo_lsys"
  using demo_inv(1)
  by (auto simp: lock_start_def demo_lsys_def free_lock_def boot_kernel_def demo_threads_def
      demo_task_def statuses_def)

lemma demo_reach: "lock_reach demo_threads Console_lock demo_lsys"
  by (rule lock_reach.start [OF demo_start])

lemma demo_got:
  "\<exists>s. lock_reach demo_threads Console_lock s \<and> pc s 0xc009e000 = Got"
proof -
  let ?s1 = "demo_lsys\<lparr>pc := (pc demo_lsys)(0xc009e000 := Try)\<rparr>"
  have "act Console_lock Test demo_lsys = Some (Inr ?s1)"
    by (simp add: demo_lsys_def boot_kernel_def Let_def)
  then have r1: "lock_reach demo_threads Console_lock ?s1" by (rule lock_reach.step [OF demo_reach])
  let ?k = "demo_kernel\<lparr>flags := 0x202\<rparr>"
  have "value (sema_at ?k (Sema_of Console_lock)) = 1" by (simp add: boot_kernel_def)
  from sema_down_free [OF this] have
    "act Console_lock Down ?s1 = Some (Inr (?s1\<lparr>kern := upd_sema ?k (Sema_of Console_lock) (\<lambda>s. s\<lparr>value := 0\<rparr>),
       pc := (pc ?s1)(0xc009e000 := Got)\<rparr>))"
    by (simp add: demo_lsys_def Let_def)
  from lock_reach.step [OF r1 this] show ?thesis by (intro exI conjI) (assumption, simp)
qed

theorem lock_mutual_exclusion_witness:
  "\<exists>s. lock_reach demo_threads Console_lock s \<and> pc s 0xc009e000 = Got \<and>
     \<not> owns (pc s 0xc0101000) \<and> \<not> owns (pc s 0xc0102000)"
proof -
  obtain s where s: "lock_reach demo_threads Console_lock s" "pc s 0xc009e000 = Got" using demo_got by blast
  have "\<not> owns (pc s u)" if "u \<in> demo_threads" "u \<noteq> 0xc009e000" for u
    using lock_mutual_exclusion [OF s(1) that(1), of "0xc009e000"] that s(2) by (auto simp: demo_threads_def)
  with s show ?thesis by (auto simp: demo_threads_def)
qed

theorem lock_never_panics_witness:
  "\<exists>s'. act Console_lock Timer demo_lsys = Some (Inr s') \<and> lock_reach demo_threads Console_lock s'"
proof -
  have "\<exists>r. act Console_lock Timer demo_lsys = Some r"
    by (simp add: demo_lsys_def Let_def intr_get_status_iff bit_numeral_rec)
  then obtain r where r: "act Console_lock Timer demo_lsys = Some r" by blast
  from lock_never_panics [OF demo_reach r] r show ?thesis by auto
qed

subsection \<open>A run with contention\<close>

text \<open>A reachable state with thread \<open>c\<close> on the CPU, ready list \<open>r\<close>, idle thread \<open>i\<close> and lock \<open>L\<close>.\<close>

definition snap :: "u32 set \<Rightarrow> lockp \<Rightarrow> u32 \<Rightarrow> lsys \<Rightarrow> u32 \<Rightarrow> u32 list \<Rightarrow> lock \<Rightarrow> (u32 \<Rightarrow> lpc) \<Rightarrow> (u32 \<Rightarrow> lctl) \<Rightarrow> bool" where
  "snap T l i s c r L p x \<longleftrightarrow> lock_reach T l s \<and> running_thread (kern s) = c \<and> thread_ready_list (kern s) = r \<and>
     idle_thread (kern s) = i \<and> locks (kern s) l = L \<and> pc s = p \<and> ctl s = x"

lemma ready_block_state [simp]: "thread_ready_list (wait_state k p) = snd (pick k)"
  by (simp add: wait_state_def)

text \<open>A thread that has not run yet comes to wait for the lock.\<close>

lemma snap_new_waiter:
  assumes s: "snap T l i s c (n # r) L p x" and c: "x c = New" "p c = Out" "c \<noteq> i"
    and L: "holder L \<noteq> c" "value (semaphore L) = 0"
  shows "\<exists>s' old. snap T l i s' n r (L\<lparr>semaphore := (semaphore L)\<lparr>waiters := waiters (semaphore L) @ [c]\<rparr>\<rparr>) (p(c := Try))
    (x(c := In_down old))"
proof -
  let ?k = "(kern s)\<lparr>flags := snd (intr_enable (flags (kern s)))\<rparr>"
  let ?s1 = "s\<lparr>kern := ?k, ctl := x(c := On_cpu)\<rparr>" and ?s2 = "s\<lparr>kern := ?k, ctl := x(c := On_cpu), pc := p(c := Try)\<rparr>"
  let ?k3 = "?k\<lparr>flags := snd (intr_disable (flags ?k))\<rparr>"
  note f = s [unfolded snap_def]
  have "lock_reach T l ?s1" by (rule lock_reach.step [where a = Start]) (use f c in \<open>auto simp: Let_def\<close>)
  then have r2: "lock_reach T l ?s2" by (rule lock_reach.step [where a = Test]) (use f c L in \<open>simp add: Let_def\<close>)
  have inv: "lock_inv T l ?s1" by (rule lock_reach_inv) fact
  then have "sched_inv T ?k3" "c \<notin> set (waiters (semaphore L))"
    using running_not_waiting [of T ?k] f by (auto simp: lock_inv_simps)
  moreover have "sema_at ?k3 (Sema_of l) = semaphore L" using f by simp
  moreover have "pick ?k3 = (n, r)" using f by (simp add: pick_def)
  ultimately have d: "sema_down_from ?k3 (Sema_of l) old = Inl (Yield (wait_state ?k3 (Sema_of l)))"
      "running_thread (wait_state ?k3 (Sema_of l)) = n" for old
    using sema_down_from_taken [of T ?k3 "Sema_of l"] f c(3) L(2) by (auto simp: intr_off_def)
  let ?s3 = "?s2\<lparr>kern := wait_state ?k3 (Sema_of l), ctl := x(c := In_down (intr_get_status (flags ?k)))\<rparr>"
  have "sema_down ?k (Sema_of l) = Inl (Yield (wait_state ?k3 (Sema_of l)))" using d(1) by (simp add: sema_down_def split_beta)
  then have "lock_reach T l ?s3"
    by (intro lock_reach.step [where a = Down, OF r2]) (use f in \<open>simp add: Let_def\<close>)
  then show ?thesis using f d(2) by (intro exI [of _ ?s3] exI) (auto simp: snap_def pick_def)
qed

lemma snap_idle:
  assumes s: "snap T l i s i (n # r) L p x" and x: "x i = New"
  shows "\<exists>s'. snap T l i s' n r L p (x(i := In_idle))"
proof -
  let ?k = "(kern s)\<lparr>flags := snd (intr_enable (flags (kern s)))\<rparr>" and ?s1 = "s\<lparr>kern := (kern s)\<lparr>flags := snd (intr_enable (flags (kern s)))\<rparr>, ctl := x(i := On_cpu)\<rparr>"
  note f = s [unfolded snap_def]
  have r1: "lock_reach T l ?s1" by (rule lock_reach.step [where a = Start]) (use f x in \<open>auto simp: Let_def\<close>)
  then have sched: "sched_inv T ?k" using lock_reach_inv [OF r1] by (simp add: lock_inv_simps)
  then have "n \<noteq> i" using f by (auto simp: sched_inv_def queue_inv_def)
  moreover note b = block_state_inv [OF sched blocked_status_simps(1)]
  moreover have "pick ?k = (n, r)" using f by (simp add: pick_def)
  ultimately have "thread_block ?k TASK_BLOCKED = Inl (Yield (block_state ?k TASK_BLOCKED))" "running_thread (block_state ?k TASK_BLOCKED) = n"
    using f by auto
  moreover from this have "lock_reach T l (?s1\<lparr>kern := block_state ?k TASK_BLOCKED, ctl := x(i := In_idle)\<rparr>)"
    by (intro lock_reach.step [where a = Idle_block, OF r1]) (use f in \<open>simp add: Let_def\<close>)
  ultimately show ?thesis
    using f by (intro exI [of _ "?s1\<lparr>kern := block_state ?k TASK_BLOCKED, ctl := x(i := In_idle)\<rparr>"]) (simp add: snap_def pick_def)
qed

text \<open>The holder returns from an interrupt and gives the lock back.\<close>

lemma snap_release:
  assumes s: "snap T l i s c r \<lparr>holder = c, semaphore = \<lparr>value = 0, waiters = y # w\<rparr>, holder_repeat_nr = 1\<rparr> p x"
    and c: "x c = Interrupted e" "p c = Crit"
  shows "\<exists>s' r'. snap T l i s' c r' \<lparr>holder = NULL, semaphore = \<lparr>value = 1, waiters = w\<rparr>, holder_repeat_nr = 0\<rparr> (p(c := Out)) (x(c := On_cpu))"
proof -
  let ?k = "(kern s)\<lparr>flags := e\<rparr>" and ?x = "x(c := On_cpu)"
  let ?k1 = "upd_lock ?k l (\<lambda>L. L\<lparr>holder := NULL\<rparr>)" let ?k2 = "upd_lock ?k1 l (\<lambda>L. L\<lparr>holder_repeat_nr := 0\<rparr>)"
  note f = s [unfolded snap_def]
  have r1: "lock_reach T l (s\<lparr>kern := ?k, ctl := ?x\<rparr>)" by (rule lock_reach.step [where a = Iret]) (use f c in \<open>auto simp: Let_def\<close>)
  have r2: "lock_reach T l (s\<lparr>kern := ?k1, ctl := ?x, pc := p(c := Leaving)\<rparr>)"
    by (rule lock_reach.step [where a = Drop, OF r1]) (use f c in \<open>simp add: Let_def lock_drop_holder_def\<close>)
  have r3: "lock_reach T l (s\<lparr>kern := ?k2, ctl := ?x, pc := p(c := Rel)\<rparr>)"
    by (rule lock_reach.step [where a = Drop_count, OF r2]) (use f c in \<open>simp add: Let_def lock_drop_count_def\<close>)
  have inv: "lock_inv T l (s\<lparr>kern := ?k2, ctl := ?x, pc := p(c := Rel)\<rparr>)" by (rule lock_reach_inv [OF r3])
  have sem: "semaphore (locks ?k2 l) = \<lparr>value = 0, waiters = y # w\<rparr>" using f by simp
  have sched: "sched_inv T ?k2" using inv by (simp add: lock_inv_simps)
  have y: "y \<in> T" "blocked_status (statuses ?k2 y)"
    using wait_facts(2,5) [OF lock_inv_facts(1) [OF inv]] f by (auto simp: thread_ok_def)
  from sema_up_waiter [OF sched sem y] obtain k' where k': "sema_up ?k2 (Sema_of l) = Inr k'" "running_thread k' = c" "idle_thread k' = i"
      "locks k' l = (locks ?k2 l)\<lparr>semaphore := \<lparr>value = 1, waiters = w\<rparr>\<rparr>"
    using f by auto
  have "lock_reach T l (s\<lparr>kern := k', ctl := ?x, pc := p(c := Out)\<rparr>)"
    by (rule lock_reach.step [where a = Up, OF r3]) (use f k' in \<open>simp add: Let_def\<close>)
  then show ?thesis
    using f k' by (intro exI [of _ "s\<lparr>kern := k', ctl := ?x, pc := p(c := Out)\<rparr>"] exI) (simp add: snap_def)
qed

text \<open>
  The main thread takes the lock and is preempted, two others come to wait for it, the idle thread runs and blocks, and
  the main thread gives the lock back: the semaphore is free, the first waiter is woken and the second one still waits.
\<close>

definition contended_threads :: "u32 set" where
  "contended_threads = {0xc009e000, 0xc0101000, 0xc0102000, 0xc0103000}"

definition contended_start :: lsys where
  "contended_start = demo_lsys\<lparr>kern := demo_kernel\<lparr>flags := 0x202, thread_ready_list := [0xc0101000, 0xc0103000, 0xc0102000]\<rparr>\<rparr>"

lemma contended_reach: "lock_reach contended_threads Console_lock contended_start"
  by (rule lock_reach.start)
    (auto simp: lock_start_def contended_start_def contended_threads_def demo_lsys_def sched_inv_def stacks_ok_def queue_inv_def
      demo_task_def zero_task_def statuses_def free_lock_def boot_kernel_def running_thread_def demo_kernel_def)

definition contended_held :: lsys where
  "contended_held = contended_start\<lparr>kern := (kern contended_start)\<lparr>locks := (locks (kern contended_start))(Console_lock := held_lock 0xc009e000)\<rparr>,
     pc := (\<lambda>_. Out)(0xc009e000 := Crit)\<rparr>"

lemma contended_takes: "lock_reach contended_threads Console_lock contended_held"
proof -
  let ?M = "0xc009e000" let ?k = "kern contended_start" let ?s = "\<lambda>k q. contended_start\<lparr>kern := k, pc := (\<lambda>_. Out)(?M := q)\<rparr>"
  have f: "running_thread ?k = ?M" "locks ?k Console_lock = free_lock" "pc contended_start = (\<lambda>_. Out)" "ctl contended_start ?M = On_cpu"
      "idle_thread ?k = 0xc0102000"
    by (simp_all add: contended_start_def demo_lsys_def boot_kernel_def free_lock_def)
  have 1: "lock_reach contended_threads Console_lock (?s ?k Try)"
    by (rule lock_reach.step [where a = Test, OF contended_reach]) (simp add: Let_def f free_lock_def)
  have "value (sema_at ?k (Sema_of Console_lock)) = 1" by (simp add: f free_lock_def)
  then have 2: "lock_reach contended_threads Console_lock (?s (upd_sema ?k (Sema_of Console_lock) (\<lambda>s. s\<lparr>value := 0\<rparr>)) Got)"
    by (intro lock_reach.step [where a = Down, OF 1]) (simp add: Let_def f sema_down_free)
  have 3: "lock_reach contended_threads Console_lock
      (?s (upd_lock (upd_sema ?k (Sema_of Console_lock) (\<lambda>s. s\<lparr>value := 0\<rparr>)) Console_lock (\<lambda>L. L\<lparr>holder := ?M\<rparr>)) Owned)"
    by (rule lock_reach.step [where a = Take, OF 2]) (simp add: Let_def f lock_take_holder_def)
  show ?thesis
    by (rule lock_reach.step [where a = Take_count, OF 3])
      (simp add: Let_def f lock_take_count_def contended_held_def free_lock_def held_lock_def upd_lock_def upd_sema_lock)
qed

lemma contended_preempted:
  "\<exists>s. snap contended_threads Console_lock 0xc0102000 s 0xc0101000 [0xc0103000, 0xc0102000, 0xc009e000] (held_lock 0xc009e000)
     ((\<lambda>_. Out)(0xc009e000 := Crit)) ((\<lambda>_. New)(0xc009e000 := Interrupted 0x202))"
proof -
  let ?k = "(kern contended_held)\<lparr>flags := cli 0x202\<rparr>"
  let ?k1 = "(upd_task ?k 0xc009e000 (\<lambda>t. t\<lparr>elapsed_ticks := elapsed_ticks t + 1\<rparr>))\<lparr>kticks := kticks ?k + 1\<rparr>"
  have f: "running_thread (kern contended_held) = 0xc009e000" "flags (kern contended_held) = 0x202" "tasks (kern contended_held) = demo_task"
      "thread_ready_list (kern contended_held) = [0xc0101000, 0xc0103000, 0xc0102000]" "idle_thread (kern contended_held) = 0xc0102000"
      "locks (kern contended_held) Console_lock = held_lock 0xc009e000" "pc contended_held = (\<lambda>_. Out)(0xc009e000 := Crit)"
      "ctl contended_held = (\<lambda>_. New)(0xc009e000 := On_cpu)"
    by (simp_all add: contended_held_def contended_start_def demo_lsys_def)
  have "sched_inv contended_threads ?k1"
    using lock_reach_inv [OF contended_takes] by (simp add: lock_inv_simps sched_inv_upd)
  moreover have "intr_off ?k1" by (simp add: intr_off_def)
  ultimately obtain k' where k': "schedule ?k1 = Inl (Yield k')" "running_thread k' = 0xc0101000"
      "thread_ready_list k' = [0xc0103000, 0xc0102000, 0xc009e000]" "locks k' = locks ?k1" "idle_thread k' = 0xc0102000"
    using schedule_preempt_step [of contended_threads ?k1] f by auto
  have "intr_timer_handler ?k = Inl (Yield k')"
    using k'(1) f by (simp add: intr_timer_handler_def Let_def demo_task_def zero_task_def)
  then have "lock_reach contended_threads Console_lock (contended_held\<lparr>kern := k', ctl := (\<lambda>_. New)(0xc009e000 := Interrupted 0x202)\<rparr>)"
    by (intro lock_reach.step [where a = Timer, OF contended_takes]) (simp add: Let_def f intr_get_status_iff bit_numeral_rec)
  with k' f show ?thesis
    by (intro exI [of _ "contended_held\<lparr>kern := k', ctl := (\<lambda>_. New)(0xc009e000 := Interrupted 0x202)\<rparr>"]) (simp add: snap_def)
qed

theorem lock_no_lost_wakeup_witness:
  "\<exists>s. lock_reach contended_threads Console_lock s \<and>
     semaphore (locks (kern s) Console_lock) = \<lparr>value = 1, waiters = [0xc0103000]\<rparr> \<and>
     (\<exists>t\<in>contended_threads. in_down (ctl s t) \<and> t \<noteq> 0xc0103000 \<and> pc s t = Try) \<and> blocked_status (statuses (kern s) 0xc0103000)"
proof -
  obtain s1 where "snap contended_threads Console_lock 0xc0102000 s1 0xc0101000 [0xc0103000, 0xc0102000, 0xc009e000] (held_lock 0xc009e000)
     ((\<lambda>_. Out)(0xc009e000 := Crit)) ((\<lambda>_. New)(0xc009e000 := Interrupted 0x202))" using contended_preempted by blast
  from snap_new_waiter [OF this] obtain s2 o1 where
    "snap contended_threads Console_lock 0xc0102000 s2 0xc0103000 [0xc0102000, 0xc009e000]
       \<lparr>holder = 0xc009e000, semaphore = \<lparr>value = 0, waiters = [0xc0101000]\<rparr>, holder_repeat_nr = 1\<rparr>
       ((\<lambda>_. Out)(0xc009e000 := Crit, 0xc0101000 := Try)) ((\<lambda>_. New)(0xc009e000 := Interrupted 0x202, 0xc0101000 := In_down o1))"
    by (auto simp: held_lock_def)
  from snap_new_waiter [OF this] obtain s3 o2 where
    "snap contended_threads Console_lock 0xc0102000 s3 0xc0102000 [0xc009e000]
       \<lparr>holder = 0xc009e000, semaphore = \<lparr>value = 0, waiters = [0xc0101000, 0xc0103000]\<rparr>, holder_repeat_nr = 1\<rparr>
       ((\<lambda>_. Out)(0xc009e000 := Crit, 0xc0101000 := Try, 0xc0103000 := Try))
       ((\<lambda>_. New)(0xc009e000 := Interrupted 0x202, 0xc0101000 := In_down o1, 0xc0103000 := In_down o2))" by auto
  from snap_idle [OF this] obtain s4 where "snap contended_threads Console_lock 0xc0102000 s4 0xc009e000 []
       \<lparr>holder = 0xc009e000, semaphore = \<lparr>value = 0, waiters = [0xc0101000, 0xc0103000]\<rparr>, holder_repeat_nr = 1\<rparr>
       ((\<lambda>_. Out)(0xc009e000 := Crit, 0xc0101000 := Try, 0xc0103000 := Try))
       ((\<lambda>_. New)(0xc009e000 := Interrupted 0x202, 0xc0101000 := In_down o1, 0xc0103000 := In_down o2, 0xc0102000 := In_idle))" by auto
  from snap_release [OF this] obtain s where s: "lock_reach contended_threads Console_lock s"
      "semaphore (locks (kern s) Console_lock) = \<lparr>value = 1, waiters = [0xc0103000]\<rparr>" "idle_thread (kern s) = 0xc0102000"
    by (auto simp: snap_def)
  have "(0xc0103000 :: u32) \<in> contended_threads" by (simp add: contended_threads_def)
  with lock_no_lost_wakeup [OF s(1)] s show ?thesis by (intro exI [of _ s]) (auto simp: Let_def)
qed

end
