(* ===== verification/Keyboard.thy ===== *)
theory Keyboard
  imports Ioqueue
begin

unbundle bit_operations_syntax

text \<open>
  \<^verbatim>\<open>device/keyboard.c\<close>: the interrupt handler that turns scan codes into characters of the ring
  \<open>kbd_buf\<close>. The five static flags are the record \<open>kbd\<close>; the byte read from the controller is an
  argument. The lemmas compare the handler with a small specification of a keyboard with the
  modifiers shift, caps lock and control.
\<close>

section \<open>Definitions\<close>

record kbd =
  ctrl_status :: bool
  shift_status :: bool
  alt_status :: bool
  caps_lock_status :: bool
  ext_scancode :: bool

definition shift_l_make :: u16 where "shift_l_make = 0x2a"
definition shift_r_make :: u16 where "shift_r_make = 0x36"
definition alt_l_make :: u16 where "alt_l_make = 0x38"
definition alt_r_make :: u16 where "alt_r_make = 0xe038"
definition ctrl_l_make :: u16 where "ctrl_l_make = 0x1d"
definition ctrl_r_make :: u16 where "ctrl_r_make = 0xe01d"
definition caps_lock_make :: u16 where "caps_lock_make = 0x3a"

definition keymap :: "(char \<times> char) list" where
  "keymap =
     [(CHR 0x00, CHR 0x00), (CHR 0x1B, CHR 0x1B), (CHR ''1'', CHR ''!''), (CHR ''2'', CHR ''@''),
      (CHR ''3'', CHR ''#''), (CHR ''4'', CHR ''$''), (CHR ''5'', CHR ''%''),
      (CHR ''6'', CHR ''^''), (CHR ''7'', CHR ''&''), (CHR ''8'', CHR ''*''),
      (CHR ''9'', CHR ''(''), (CHR ''0'', CHR '')''), (CHR ''-'', CHR ''_''),
      (CHR ''='', CHR ''+''), (CHR 0x08, CHR 0x08), (CHR 0x09, CHR 0x09), (CHR ''q'', CHR ''Q''),
      (CHR ''w'', CHR ''W''), (CHR ''e'', CHR ''E''), (CHR ''r'', CHR ''R''),
      (CHR ''t'', CHR ''T''), (CHR ''y'', CHR ''Y''), (CHR ''u'', CHR ''U''),
      (CHR ''i'', CHR ''I''), (CHR ''o'', CHR ''O''), (CHR ''p'', CHR ''P''),
      (CHR ''['', CHR ''{''), (CHR '']'', CHR ''}''), (CHR 0x0D, CHR 0x0D), (CHR 0x00, CHR 0x00),
      (CHR ''a'', CHR ''A''), (CHR ''s'', CHR ''S''), (CHR ''d'', CHR ''D''),
      (CHR ''f'', CHR ''F''), (CHR ''g'', CHR ''G''), (CHR ''h'', CHR ''H''),
      (CHR ''j'', CHR ''J''), (CHR ''k'', CHR ''K''), (CHR ''l'', CHR ''L''),
      (CHR '';'', CHR '':''), (CHR 0x27, CHR 0x22), (CHR 0x60, CHR ''~''), (CHR 0x00, CHR 0x00),
      (CHR 0x5C, CHR ''|''), (CHR ''z'', CHR ''Z''), (CHR ''x'', CHR ''X''),
      (CHR ''c'', CHR ''C''), (CHR ''v'', CHR ''V''), (CHR ''b'', CHR ''B''),
      (CHR ''n'', CHR ''N''), (CHR ''m'', CHR ''M''), (CHR '','', CHR ''<''),
      (CHR ''.'', CHR ''>''), (CHR ''/'', CHR ''?''), (CHR 0x00, CHR 0x00), (CHR ''*'', CHR ''*''),
      (CHR 0x00, CHR 0x00), (CHR 0x20, CHR 0x20), (CHR 0x00, CHR 0x00)]"

text \<open>The keys with two characters that caps lock does not change.\<close>

definition double_key :: "u16 \<Rightarrow> bool" where
  "double_key scancode \<longleftrightarrow> scancode < 0x0e \<or> scancode = 0x29 \<or> scancode = 0x1a \<or> scancode = 0x1b \<or>
     scancode = 0x2b \<or> scancode = 0x27 \<or> scancode = 0x28 \<or> scancode = 0x33 \<or> scancode = 0x34 \<or>
     scancode = 0x35"

definition key_released :: "kbd \<Rightarrow> u16 \<Rightarrow> kbd" where
  "key_released s make_code =
     (if make_code = ctrl_l_make \<or> make_code = ctrl_r_make then s\<lparr>ctrl_status := False\<rparr>
      else if make_code = shift_l_make \<or> make_code = shift_r_make then s\<lparr>shift_status := False\<rparr>
      else if make_code = alt_l_make \<or> make_code = alt_r_make then s\<lparr>alt_status := False\<rparr>
      else s)"

definition modifier_pressed :: "kbd \<Rightarrow> u16 \<Rightarrow> kbd" where
  "modifier_pressed s scancode =
     (if scancode = ctrl_l_make \<or> scancode = ctrl_r_make then s\<lparr>ctrl_status := True\<rparr>
      else if scancode = shift_l_make \<or> scancode = shift_r_make then s\<lparr>shift_status := True\<rparr>
      else if scancode = alt_l_make \<or> scancode = alt_r_make then s\<lparr>alt_status := True\<rparr>
      else if scancode = caps_lock_make then s\<lparr>caps_lock_status := \<not> caps_lock_status s\<rparr>
      else s)"

definition key_shift :: "kbd \<Rightarrow> u16 \<Rightarrow> bool" where
  "key_shift s scancode =
     (if double_key scancode then shift_status s
      else if shift_status s \<and> caps_lock_status s then False
      else shift_status s \<or> caps_lock_status s)"

definition key_pressed :: "kernel \<Rightarrow> kbd \<Rightarrow> u16 \<Rightarrow> (kbd \<times> kernel) kres" where
  "key_pressed k s scancode =
     (let shift = key_shift s scancode; scancode = scancode AND 0x00ff
      in if \<not> unat scancode < length keymap then Inl (Fault ''keymap[index]'')
         else let (lo, up) = keymap ! unat scancode;
                  cur_ch = of_char (if shift then up else lo) :: u8
              in if cur_ch \<noteq> 0 then
                   let cur_ch = if (ctrl_status s \<and> cur_ch = of_char CHR ''l'') \<or>
                                   (ctrl_status s \<and> cur_ch = of_char CHR ''u'')
                                then cur_ch - of_char CHR ''a'' else cur_ch
                   in bnd (ioq_full k Kbd_buf) (\<lambda>full.
                      if \<not> full then bnd (ioq_put_char k Kbd_buf cur_ch) (\<lambda>k. Inr (s, k)) else Inr (s, k))
                 else Inr (modifier_pressed s scancode, k))"

definition intr_keyboard_handler :: "u8 \<Rightarrow> kernel \<Rightarrow> kbd \<Rightarrow> (kbd \<times> kernel) kres" where
  "intr_keyboard_handler inb k s =
     (let scancode = ucast inb :: u16
      in if scancode = 0xe0 then Inr (s\<lparr>ext_scancode := True\<rparr>, k)
         else let (scancode, s) = (if ext_scancode s then (0xe000 OR scancode, s\<lparr>ext_scancode := False\<rparr>)
                                   else (scancode, s))
              in if scancode AND 0x0080 \<noteq> 0 then Inr (key_released s (scancode AND 0xff7f), k)
                 else if (scancode > 0x00 \<and> scancode < 0x3b) \<or> scancode = alt_r_make \<or> scancode = ctrl_r_make
                 then key_pressed k s scancode
                 else Inr (s, k))"

definition keyboard_init :: "u32 \<Rightarrow> kernel \<times> idt_state \<Rightarrow> (kernel \<times> idt_state) kres" where
  "keyboard_init handler ki =
     (case ki of (k, i) \<Rightarrow>
        bnd (register_handler 0x21 handler i) (\<lambda>i. Inr (ioqueue_init k Kbd_buf, i)))"

section \<open>Pressing a key\<close>

lemma unat_ucast_scan [simp]: "unat (ucast (x :: u8) :: u16) = unat x"
proof -
  have "unat x < 2 ^ 16" by (rule less_le_trans [OF unsigned_less]) simp
  then show ?thesis by (simp add: unsigned_ucast_eq take_bit_nat_eq_self)
qed

lemma scan_break: "(ucast (x :: u8) :: u16) AND 0x0080 \<noteq> 0 \<longleftrightarrow> bit x 7"
proof -
  have "(0x0080 :: u16) = 2 ^ 7" by simp
  then show ?thesis by (simp only: mask_simps) (simp add: bit_simps)
qed

lemma scan_low: "(ucast (x :: u8) :: u16) AND 0x00ff = ucast x"
proof -
  have m: "(0x00ff :: u16) = mask 8" by (simp add: mask_eq_exp_minus_1)
  show ?thesis unfolding m by (rule bit_eqI) (auto simp: bit_simps dest: bit_imp_le_length)
qed

lemma length_keymap [simp]: "length keymap = 59"
  by (simp add: keymap_def)

text \<open>The character a key gives: the right column of the table with shift or caps lock.\<close>

definition put_if_room :: "kernel \<Rightarrow> kbd \<Rightarrow> u8 \<Rightarrow> (kbd \<times> kernel) kres" where
  "put_if_room k s ch =
     bnd (ioq_full k Kbd_buf) (\<lambda>full.
       if \<not> full then bnd (ioq_put_char k Kbd_buf ch) (\<lambda>k. Inr (s, k)) else Inr (s, k))"

definition key_char :: "kbd \<Rightarrow> u16 \<Rightarrow> u8" where
  "key_char s scancode =
     (let (lo, up) = keymap ! unat (scancode AND 0x00ff)
      in of_char (if key_shift s scancode then up else lo))"

lemma key_pressed_eq:
  "unat (scancode AND 0x00ff) < 59 \<Longrightarrow>
   key_pressed k s scancode =
     (if key_char s scancode = 0 then Inr (modifier_pressed s (scancode AND 0x00ff), k)
      else put_if_room k s
        (if ctrl_status s \<and> (key_char s scancode = 108 \<or> key_char s scancode = 117)
         then key_char s scancode - 97 else key_char s scancode))"
proof -
  assume i: "unat (scancode AND 0x00ff) < 59"
  obtain lo up where e: "keymap ! unat (scancode AND 0x00ff) = (lo, up)" by fastforce
  have a: "of_char CHR ''a'' = (97 :: u8)" by simp
  have c: "key_char s scancode = of_char (if key_shift s scancode then up else lo)"
    by (simp add: key_char_def e)
  show ?thesis
    using i unfolding key_pressed_def Let_def length_keymap e prod.case c [symmetric] a put_if_room_def
    by (cases "ctrl_status s") simp_all
qed

lemma put_if_room_rep:
  assumes "ioq_rep Kbd_buf k xs"
  shows "\<exists>k'. put_if_room k s ch = Inr (s, k') \<and>
           ioq_rep Kbd_buf k' (if length xs < 2047 then xs @ [ch] else xs)"
proof -
  have r: "intr_off k" "ioq_wf (ioqs k Kbd_buf)" "ioq_list (ioqs k Kbd_buf) = xs"
    using assms by (simp_all add: ioq_rep_def)
  then have full: "ioq_full k Kbd_buf = Inr (length xs = 2047)" by (simp add: ioq_full_iff)
  have le: "length xs \<le> 2047" using ioq_list_cap [OF r(2)] r(3) by simp
  show ?thesis
  proof (cases "length xs < 2047")
    case True
    with rq.app_rep [OF assms] obtain k' where "ioq_put_char k Kbd_buf ch = Inr k'" "ioq_rep Kbd_buf k' (xs @ [ch])"
      by blast
    with True full show ?thesis by (simp add: put_if_room_def)
  next
    case False
    with le full assms show ?thesis by (simp add: put_if_room_def)
  qed
qed

lemma put_if_room_safe:
  assumes inv: "sched_inv T k" "intr_off k" "ioq_wf (ioqs k Kbd_buf)"
    and cons: "consumer (ioqs k Kbd_buf) = NULL \<or>
      consumer (ioqs k Kbd_buf) \<in> T \<and> blocked_status (statuses k (consumer (ioqs k Kbd_buf)))"
  shows "\<exists>k'. put_if_room k s ch = Inr (s, k') \<and> sched_inv T k' \<and> intr_off k' \<and> ioq_wf (ioqs k' Kbd_buf) \<and>
           (if length (ioq_list (ioqs k Kbd_buf)) < 2047
            then ioq_list (ioqs k' Kbd_buf) = ioq_list (ioqs k Kbd_buf) @ [ch] \<and> consumer (ioqs k' Kbd_buf) = NULL
            else k' = k)"
proof (cases "length (ioq_list (ioqs k Kbd_buf)) < 2047")
  case True
  have full: "ioq_full k Kbd_buf = Inr False" using inv True by (simp add: ioq_full_iff)
  note r = put_ring_list [OF inv(3) True, of ch]
  show ?thesis
  proof (cases "consumer (ioqs k Kbd_buf) = NULL")
    case none: True
    with ioq_put_step [OF inv(2,3) True, of ch] full r inv True show ?thesis
      by (simp add: put_if_room_def Let_def intr_off_def)
  next
    case False
    with cons ioq_put_char_wakes [OF inv True refl, of ch] full True show ?thesis
      by (fastforce simp: put_if_room_def)
  qed
next
  case False
  then have "ioq_full k Kbd_buf = Inr True"
    using ioq_list_cap [OF inv(3)] inv by (simp add: ioq_full_iff)
  with False inv show ?thesis by (simp add: put_if_room_def)
qed

lemma handler_make:
  assumes "\<not> ext_scancode s" "0 < unat x" "unat x < 59"
  shows "intr_keyboard_handler x k s = key_pressed k s (ucast x)"
proof -
  have "x div 128 = 0" using assms(3) by (simp add: word_unat_eq_iff unat_div)
  then have "\<not> bit x 7" by (simp add: bit_iff_odd)
  then have "\<not> (ucast x :: u16) AND 0x0080 \<noteq> 0" using scan_break [of x] by simp
  moreover have "(ucast x :: u16) \<noteq> 0xe0" "(ucast x :: u16) > 0" "(ucast x :: u16) < 0x3b"
    using assms(2,3) by (auto simp: word_less_nat_alt word_unat_eq_iff)
  ultimately show ?thesis using assms(1) by (simp add: intr_keyboard_handler_def Let_def)
qed

lemma handler_break:
  assumes "\<not> ext_scancode s" "bit x 7" "x \<noteq> 0xe0"
  shows "intr_keyboard_handler x k s = Inr (key_released s (ucast x AND 0xff7f), k)"
proof -
  have "(ucast x :: u16) \<noteq> 0xe0" using assms(3) by (auto simp: word_unat_eq_iff)
  moreover have "(ucast x :: u16) AND 0x0080 \<noteq> 0" using scan_break assms(2) by blast
  ultimately show ?thesis using assms(1) by (simp add: intr_keyboard_handler_def Let_def)
qed

section \<open>The handler never sleeps\<close>

lemma key_pressed_safe:
  assumes inv: "sched_inv T k" "intr_off k" "ioq_wf (ioqs k Kbd_buf)"
    and cons: "consumer (ioqs k Kbd_buf) = NULL \<or>
      consumer (ioqs k Kbd_buf) \<in> T \<and> blocked_status (statuses k (consumer (ioqs k Kbd_buf)))"
    and sc: "unat (sc AND 0x00ff) < 59"
  shows "\<exists>s' k'. key_pressed k s sc = Inr (s', k') \<and> sched_inv T k' \<and> intr_off k' \<and>
           ioq_wf (ioqs k' Kbd_buf) \<and>
           (k' = k \<or> (\<exists>ch. ioq_list (ioqs k' Kbd_buf) = ioq_list (ioqs k Kbd_buf) @ [ch] \<and>
              consumer (ioqs k' Kbd_buf) = NULL))"
proof (cases "key_char s sc = 0")
  case True
  with inv show ?thesis by (simp add: key_pressed_eq [OF sc])
next
  case False
  with put_if_room_safe [OF inv cons, of s] show ?thesis
    unfolding key_pressed_eq [OF sc] by (fastforce split: if_splits)
qed

text \<open>
  C15: Whatever byte arrives, the handler returns to the interrupted thread: it neither reads past the key
  table nor fails an assertion nor sleeps. It adds at most one character to the ring and wakes the thread that
  waits for it; with the ring full it leaves the kernel as it is.
\<close>

theorem keyboard_never_blocks:
  assumes inv: "sched_inv T k" "intr_off k" "ioq_wf (ioqs k Kbd_buf)"
    and cons: "consumer (ioqs k Kbd_buf) = NULL \<or>
      consumer (ioqs k Kbd_buf) \<in> T \<and> blocked_status (statuses k (consumer (ioqs k Kbd_buf)))"
  shows "\<exists>s' k'. intr_keyboard_handler x k s = Inr (s', k') \<and> sched_inv T k' \<and> intr_off k' \<and>
           ioq_wf (ioqs k' Kbd_buf) \<and>
           (k' = k \<or> (\<exists>ch. ioq_list (ioqs k' Kbd_buf) = ioq_list (ioqs k Kbd_buf) @ [ch] \<and>
              consumer (ioqs k' Kbd_buf) = NULL))"
proof -
  have "unat (sc AND 0x00ff) < 59" if "sc > 0x00 \<and> sc < 0x3b \<or> sc = alt_r_make \<or> sc = ctrl_r_make" for sc :: u16
  proof (cases "sc < 0x3b")
    case True
    have "unat (sc AND 0x00ff) \<le> unat sc" by (simp add: word_and_le2 flip: word_le_nat_alt)
    with True show ?thesis by (simp add: word_less_nat_alt)
  next
    case False
    with that show ?thesis by (auto simp: alt_r_make_def ctrl_r_make_def)
  qed
  note pressed = key_pressed_safe [OF inv cons this]
  obtain sc s1 where d: "(if ext_scancode s then (0xe000 OR ucast x, s\<lparr>ext_scancode := False\<rparr>)
      else (ucast x, s)) = (sc :: u16, s1)" by fastforce
  have h: "intr_keyboard_handler x k s =
      (if ucast x = (0xe0 :: u16) then Inr (s\<lparr>ext_scancode := True\<rparr>, k)
       else if sc AND 0x0080 \<noteq> 0 then Inr (key_released s1 (sc AND 0xff7f), k)
       else if sc > 0x00 \<and> sc < 0x3b \<or> sc = alt_r_make \<or> sc = ctrl_r_make then key_pressed k s1 sc
       else Inr (s1, k))"
    unfolding intr_keyboard_handler_def Let_def d prod.case by (rule refl)
  show ?thesis
    using inv pressed [of sc s1] unfolding h
    by (cases "sc > 0x00 \<and> sc < 0x3b \<or> sc = alt_r_make \<or> sc = ctrl_r_make") (simp, auto)
qed

section \<open>Typing a text\<close>

primrec kbd_run :: "u8 list \<Rightarrow> kernel \<Rightarrow> kbd \<Rightarrow> (kbd \<times> kernel) kres" where
  "kbd_run [] k s = Inr (s, k)"
| "kbd_run (x # xs) k s = bnd (intr_keyboard_handler x k s) (\<lambda>(s, k). kbd_run xs k s)"

text \<open>
  The scan codes of a typist: press and release the key of a character, with the left shift
  key held for a character of the right column.
\<close>

definition key_of :: "(char \<times> char \<Rightarrow> char) \<Rightarrow> char \<Rightarrow> nat option" where
  "key_of col c = find (\<lambda>i. col (keymap ! i) = c) [0..<length keymap]"

definition strokes :: "char \<Rightarrow> u8 list" where
  "strokes c =
     (case key_of fst c of
        Some i \<Rightarrow> [of_nat i, of_nat i OR 0x80]
      | None \<Rightarrow>
          (case key_of snd c of
             Some i \<Rightarrow> [0x2a, of_nat i, of_nat i OR 0x80, 0xaa]
           | None \<Rightarrow> []))"

definition typeable :: "char \<Rightarrow> bool" where
  "typeable c \<longleftrightarrow> c \<noteq> CHR 0x00 \<and> (key_of fst c \<noteq> None \<or> key_of snd c \<noteq> None)"

definition released :: "kbd \<Rightarrow> bool" where
  "released s \<longleftrightarrow> \<not> ctrl_status s \<and> \<not> shift_status s \<and> \<not> caps_lock_status s \<and> \<not> ext_scancode s"

lemma key_of_SomeD: "key_of col c = Some i \<Longrightarrow> i < 59 \<and> col (keymap ! i) = c"
  by (auto simp: key_of_def find_Some_iff)

lemma kbd_run_append: "kbd_run (xs @ ys) k s = bnd (kbd_run xs k s) (\<lambda>(s, k). kbd_run ys k s)"
  by (induction xs arbitrary: k s) (simp_all add: bnd_assoc case_prod_unfold)

lemma of_char_0: "of_char c = (0 :: u8) \<longleftrightarrow> c = CHR 0x00"
  by (cases c) (auto simp: of_char_def)

lemma stroke_press:
  assumes s: "\<not> ctrl_status s" "\<not> caps_lock_status s" "\<not> ext_scancode s" and i: "i < 59"
    and c: "c = (if shift_status s then snd (keymap ! i) else fst (keymap ! i))" "c \<noteq> CHR 0x00"
    and k: "ioq_rep Kbd_buf k xs" "length xs < 2047"
  shows "\<exists>k'. intr_keyboard_handler (of_nat i) k s = Inr (s, k') \<and> ioq_rep Kbd_buf k' (xs @ [of_char c])"
proof -
  let ?x = "of_nat i :: u8"
  have x: "unat ?x = i" using i by (simp add: unat_of_nat)
  have "i \<noteq> 0"
  proof
    assume "i = 0"
    then have "keymap ! i = (CHR 0x00, CHR 0x00)" by (simp add: keymap_def)
    with c show False by (simp split: if_splits)
  qed
  with s(3) i x have h: "intr_keyboard_handler ?x k s = key_pressed k s (ucast ?x)" by (intro handler_make) simp_all
  have low: "unat ((ucast ?x :: u16) AND 0x00ff) = i" by (simp only: scan_low unat_ucast_scan x)
  have "key_char s (ucast ?x) = of_char c"
    using s(2) c(1) unfolding key_char_def low by (simp add: key_shift_def split_beta)
  with s(1) c(2) i low have "key_pressed k s (ucast ?x) = put_if_room k s (of_char c)"
    by (subst key_pressed_eq) (simp_all add: of_char_0)
  with h put_if_room_rep [OF k(1), of s "of_char c"] k(2) show ?thesis by simp
qed

lemma scan_release:
  assumes "i < 59"
  shows "(ucast (of_nat i OR 0x80 :: u8) :: u16) AND 0xff7f = of_nat i" "bit (of_nat i OR 0x80 :: u8) 7"
    "(of_nat i OR 0x80 :: u8) \<noteq> 0xe0"
proof -
  have all: "list_all (\<lambda>i. (ucast (of_nat i OR 0x80 :: u8) :: u16) AND 0xff7f = of_nat i \<and>
      bit (of_nat i OR 0x80 :: u8) 7 \<and> (of_nat i OR 0x80 :: u8) \<noteq> 0xe0) [0..<59]"
    by code_simp
  show "(ucast (of_nat i OR 0x80 :: u8) :: u16) AND 0xff7f = of_nat i" "bit (of_nat i OR 0x80 :: u8) 7"
    "(of_nat i OR 0x80 :: u8) \<noteq> 0xe0"
    using all assms by (simp_all add: list_all_iff)
qed

lemma not_modifier:
  assumes "i < 59" "fst (keymap ! i) \<noteq> CHR 0x00 \<or> snd (keymap ! i) \<noteq> CHR 0x00"
  shows "key_released s (of_nat i) = s"
proof -
  have "list_all (\<lambda>i. (fst (keymap ! i) \<noteq> CHR 0x00 \<or> snd (keymap ! i) \<noteq> CHR 0x00) \<longrightarrow>
      (of_nat i :: u16) \<notin> {0x1d, 0xe01d, 0x2a, 0x36, 0x38, 0xe038}) [0..<59]"
    by code_simp
  with assms have "(of_nat i :: u16) \<notin> {0x1d, 0xe01d, 0x2a, 0x36, 0x38, 0xe038}" by (simp add: list_all_iff)
  then show ?thesis
    by (simp add: key_released_def ctrl_l_make_def ctrl_r_make_def shift_l_make_def shift_r_make_def
        alt_l_make_def alt_r_make_def)
qed

lemma stroke_key:
  assumes s: "\<not> ctrl_status s" "\<not> caps_lock_status s" "\<not> ext_scancode s" and i: "i < 59"
    and c: "c = (if shift_status s then snd (keymap ! i) else fst (keymap ! i))" "c \<noteq> CHR 0x00"
    and k: "ioq_rep Kbd_buf k xs" "length xs < 2047"
  shows "\<exists>k'. kbd_run [of_nat i, of_nat i OR 0x80] k s = Inr (s, k') \<and> ioq_rep Kbd_buf k' (xs @ [of_char c])"
proof -
  from stroke_press [OF assms] obtain k' where
    k': "intr_keyboard_handler (of_nat i) k s = Inr (s, k')" "ioq_rep Kbd_buf k' (xs @ [of_char c])" by blast
  have "intr_keyboard_handler (of_nat i OR 0x80) k' s = Inr (s, k')"
    using handler_break [OF s(3) scan_release(2,3) [OF i]] scan_release(1) [OF i] not_modifier [OF i, of s] c
    by (simp split: if_splits)
  with k' show ?thesis by simp
qed

lemma shift_key:
  assumes "\<not> ext_scancode s" "\<not> ctrl_status s"
  shows "intr_keyboard_handler 0x2a k s = Inr (s\<lparr>shift_status := True\<rparr>, k)"
    "intr_keyboard_handler 0xaa k s = Inr (s\<lparr>shift_status := False\<rparr>, k)"
proof -
  have "keymap ! 42 = (CHR 0x00, CHR 0x00)" by (simp add: keymap_def)
  then have "key_pressed k s 0x2a = Inr (s\<lparr>shift_status := True\<rparr>, k)"
    by (simp add: key_pressed_def modifier_pressed_def ctrl_l_make_def ctrl_r_make_def shift_l_make_def)
  with assms show "intr_keyboard_handler 0x2a k s = Inr (s\<lparr>shift_status := True\<rparr>, k)"
    using handler_make [of s "0x2a" k] by simp
  show "intr_keyboard_handler 0xaa k s = Inr (s\<lparr>shift_status := False\<rparr>, k)"
    using assms handler_break [of s "0xaa" k]
    by (simp add: key_released_def ctrl_l_make_def ctrl_r_make_def shift_l_make_def bit_numeral_rec)
qed

lemma strokes_type:
  assumes s: "released s" and c: "typeable c" and k: "ioq_rep Kbd_buf k xs" "length xs < 2047"
  shows "\<exists>k'. kbd_run (strokes c) k s = Inr (s, k') \<and> ioq_rep Kbd_buf k' (xs @ [of_char c])"
proof (cases "key_of fst c")
  case (Some i)
  with key_of_SomeD [OF Some] s c k stroke_key [of s i c k xs] show ?thesis
    by (simp add: strokes_def released_def typeable_def)
next
  case None
  then obtain i where i: "key_of snd c = Some i" "i < 59" "snd (keymap ! i) = c"
    using c key_of_SomeD [of snd c] by (auto simp: typeable_def)
  let ?s = "s\<lparr>shift_status := True\<rparr>"
  have "\<exists>k'. kbd_run [of_nat i, of_nat i OR 0x80] k ?s = Inr (?s, k') \<and> ioq_rep Kbd_buf k' (xs @ [of_char c])"
    using s c i k by (intro stroke_key) (simp_all add: released_def typeable_def)
  then obtain k' where k': "kbd_run [of_nat i, of_nat i OR 0x80] k ?s = Inr (?s, k')"
    "ioq_rep Kbd_buf k' (xs @ [of_char c])" by blast
  have "strokes c = [0x2a] @ [of_nat i, of_nat i OR 0x80] @ [0xaa]" using None i by (simp add: strokes_def)
  then have "kbd_run (strokes c) k s = bnd (kbd_run [0x2a] k s) (\<lambda>(s, k).
      bnd (kbd_run [of_nat i, of_nat i OR 0x80] k s) (\<lambda>(s, k). kbd_run [0xaa] k s))"
    by (simp only: kbd_run_append)
  moreover have "kbd_run [0x2a] k s = Inr (?s, k)" "kbd_run [0xaa] k' ?s = Inr (s\<lparr>shift_status := False\<rparr>, k')"
    using s shift_key(1) [of s k] shift_key(2) [of ?s k'] by (simp_all add: released_def)
  moreover have "s\<lparr>shift_status := False\<rparr> = s" using s by (simp add: released_def)
  ultimately show ?thesis using k' by (simp only: bnd.simps prod.case) blast
qed

text \<open>
  Every text over the characters of the key table can be typed: the scan codes of a typist, one
  interrupt each, put exactly that text into the ring, after what it held, and leave no modifier pressed.
\<close>

theorem keyboard_types:
  assumes "released s" "list_all typeable cs" "ioq_rep Kbd_buf k xs" "length xs + length cs \<le> 2047"
  shows "\<exists>k'. kbd_run (concat (map strokes cs)) k s = Inr (s, k') \<and>
           ioq_rep Kbd_buf k' (xs @ map of_char cs)"
  using assms(2,3,4)
proof (induction cs arbitrary: k xs)
  case (Cons c cs)
  from strokes_type [OF assms(1), of c k xs] Cons.prems obtain k1 where
    k1: "kbd_run (strokes c) k s = Inr (s, k1)" "ioq_rep Kbd_buf k1 (xs @ [of_char c])" by auto
  from Cons.IH [OF _ k1(2)] Cons.prems k1(1) show ?case by (auto simp: kbd_run_append)
qed simp

definition no_keys :: kbd where
  "no_keys = \<lparr>ctrl_status = False, shift_status = False, alt_status = False, caps_lock_status = False,
     ext_scancode = False\<rparr>"

theorem keyboard_types_witness:
  "\<exists>k'. kbd_run [0x26, 0xa6, 0x1f, 0x9f, 0x2a, 0x35, 0xb5, 0xaa] demo_kernel no_keys = Inr (no_keys, k') \<and>
     ioq_list (ioqs k' Kbd_buf) = map of_char ''ls?''"
proof -
  have "concat (map strokes ''ls?'') = [0x26, 0xa6, 0x1f, 0x9f, 0x2a, 0x35, 0xb5, 0xaa]" by code_simp
  moreover have "list_all typeable ''ls?''" by code_simp
  ultimately show ?thesis
    using keyboard_types [OF _ _ demo_kbd_rep, of no_keys "''ls?''"]
    by (auto simp: released_def no_keys_def ioq_rep_def)
qed

theorem keyboard_never_blocks_witness:
  "\<exists>s' k'. intr_keyboard_handler 0x26 demo_kernel no_keys = Inr (s', k') \<and> sched_inv demo_threads k'"
proof -
  have "intr_off demo_kernel \<and> ioq_wf (ioqs demo_kernel Kbd_buf) \<and> consumer (ioqs demo_kernel Kbd_buf) = NULL"
    using demo_kbd_rep by (simp add: ioq_rep_def)
  with keyboard_never_blocks [OF demo_inv(1), of "0x26" no_keys] show ?thesis by blast
qed

end
