(* ===== verification/Stdio.thy ===== *)
theory Stdio
  imports Kstring
begin

unbundle bit_operations_syntax

text \<open>
  The formatted output of \<^verbatim>\<open>lib/stdio.c\<close>: \<open>itoa\<close>, \<open>vsprintf\<close> and \<open>sprintf\<close> on byte memory.
  Arguments are read from the stack through a pointer, as \<open>va_arg\<close> does. The reference is the list
  \<open>pieces\<close> of a format: literal characters and conversions with their values. \<open>vsprintf\<close> writes
  no terminating zero after its last character; it relies on a cleared buffer.
\<close>

section \<open>Definitions\<close>

text \<open>A 32-bit little-endian read.\<close>

definition read32 :: "bytes \<Rightarrow> u32 \<Rightarrow> u32" where
  "read32 m a = ucast (m a) OR push_bit 8 (ucast (m (a + 1))) OR push_bit 16 (ucast (m (a + 2))) OR
     push_bit 24 (ucast (m (a + 3)))"

text \<open>\<open>None\<close> is a call that does not return: a base of 0 divides by zero, a base of 1 recurses for ever.\<close>

definition itoa_digit :: "u32 \<Rightarrow> u8" where
  "itoa_digit m = (if m < 10 then ucast m + 48 else ucast m - 10 + 65)"

partial_function (option) itoa :: "u32 \<Rightarrow> bytes \<Rightarrow> u32 \<Rightarrow> u8 \<Rightarrow> (bytes \<times> u32) option" where
  "itoa val m buf_ptr base =
     (if base = 0 then None
      else Option.bind
        (if val div ucast base \<noteq> 0 then itoa (val div ucast base) m buf_ptr base else Some (m, buf_ptr))
        (\<lambda>(m, buf_ptr). Some (m(buf_ptr := itoa_digit (val mod ucast base)), buf_ptr + 1)))"

partial_function (option) vsprintf_loop ::
  "bytes \<Rightarrow> u32 \<Rightarrow> u32 \<Rightarrow> u8 \<Rightarrow> u32 \<Rightarrow> ('s, bytes) res option" where
  "vsprintf_loop m buf_ptr index_ptr index_char ap =
     (if index_char = 0 then Some (Inr m)
      else if index_char \<noteq> 37 then
        (let m = m(buf_ptr := index_char)
         in vsprintf_loop m (buf_ptr + 1) (index_ptr + 1) (m (index_ptr + 1)) ap)
      else
        (let index_ptr = index_ptr + 1; index_char = m index_ptr; arg = read32 m (ap + 4)
         in if index_char = 120 then
              Option.bind (itoa arg m buf_ptr 16) (\<lambda>r.
                vsprintf_loop (fst r) (snd r) (index_ptr + 1) (fst r (index_ptr + 1)) (ap + 4))
            else if index_char = 115 then
              (case strcpy m buf_ptr arg of
                 Inl e \<Rightarrow> Some (Inl e)
               | Inr c \<Rightarrow>
                   (case strlen (snd c) arg of
                      Inl e \<Rightarrow> Some (Inl e)
                    | Inr n \<Rightarrow> vsprintf_loop (snd c) (buf_ptr + n) (index_ptr + 1) (snd c (index_ptr + 1)) (ap + 4)))
            else if index_char = 99 then
              (let m = m(buf_ptr := m (ap + 4))
               in vsprintf_loop m (buf_ptr + 1) (index_ptr + 1) (m (index_ptr + 1)) (ap + 4))
            else if index_char = 100 then
              (let neg = arg <s 0; m = (if neg then m(buf_ptr := 45) else m);
                   arg = (if neg then 0 - arg else arg); buf_ptr = (if neg then buf_ptr + 1 else buf_ptr)
               in Option.bind (itoa arg m buf_ptr 10) (\<lambda>r.
                  vsprintf_loop (fst r) (snd r) (index_ptr + 1) (fst r (index_ptr + 1)) (ap + 4)))
            else vsprintf_loop m buf_ptr index_ptr index_char ap))"

declare itoa.simps [code] vsprintf_loop.simps [code]

definition vsprintf :: "bytes \<Rightarrow> u32 \<Rightarrow> u32 \<Rightarrow> u32 \<Rightarrow> ('s, u32 \<times> bytes) res" where
  "vsprintf m str fmt ap =
     bnd (case vsprintf_loop m str fmt (m fmt) ap of None \<Rightarrow> Inl Spin | Some r \<Rightarrow> r) (\<lambda>m.
     bnd (strlen m str) (\<lambda>n. Inr (n, m)))"

text \<open>
  The caller pushes the arguments right to left, so the words behind the slot of \<open>format\<close> are the variable
  arguments; \<open>args\<close> is the address of that slot.
\<close>

definition sprintf :: "bytes \<Rightarrow> u32 \<Rightarrow> u32 \<Rightarrow> ('s, u32 \<times> bytes) res" where
  "sprintf m buf args = vsprintf m buf (read32 m args) args"

section \<open>Writing bytes\<close>

primrec put_bytes :: "bytes \<Rightarrow> u32 \<Rightarrow> u8 list \<Rightarrow> bytes" where
  "put_bytes m a [] = m"
| "put_bytes m a (x # xs) = put_bytes (m(a := x)) (a + 1) xs"

lemma put_bytes_append:
  "put_bytes m a (xs @ ys) = put_bytes (put_bytes m a xs) (a + of_nat (length xs)) ys"
  by (induction xs arbitrary: m a) (simp_all add: add.assoc)

lemma put_bytes_out: "x \<notin> region a (length xs) \<Longrightarrow> put_bytes m a xs x = m x"
  by (induction xs arbitrary: m a) (auto simp: region_Suc)

lemma put_bytes_same:
  assumes "x \<notin> region a (Suc (length xs))" "y = [] \<or> y = [0]"
  shows "put_bytes m a (xs @ y) x = m x"
proof (rule put_bytes_out)
  have "region a (length (xs @ y)) \<subseteq> region a (Suc (length xs))" using assms(2) by (intro region_mono) auto
  with assms(1) show "x \<notin> region a (length (xs @ y))" by blast
qed

lemma put_bytes_nth:
  "i < length xs \<Longrightarrow> length xs \<le> 2 ^ 32 \<Longrightarrow> put_bytes m a xs (a + of_nat i) = xs ! i"
proof (induction xs arbitrary: m a i)
  case (Cons x xs)
  show ?case
  proof (cases i)
    case 0
    have "a \<notin> region (a + 1) (length xs)" using Cons.prems(2) by (intro notin_region_next) simp
    with 0 show ?thesis by (simp add: put_bytes_out)
  next
    case (Suc j)
    have e: "a + of_nat i = a + 1 + of_nat j" using Suc by simp
    have "j < length xs" "length xs \<le> 2 ^ 32" using Suc Cons.prems by simp_all
    then show ?thesis unfolding e using Suc by (simp only: put_bytes.simps Cons.IH nth_Cons_Suc)
  qed
qed simp

text \<open>A terminating zero that is overwritten by what follows.\<close>

lemma put_bytes_nul:
  assumes "y = [] \<or> y = [0]" "ys \<noteq> []"
  shows "put_bytes (put_bytes m a (xs @ y)) (a + of_nat (length xs)) ys = put_bytes m a (xs @ ys)"
  using assms by (cases ys) (auto simp: put_bytes_append)

lemma cstr_put_bytes:
  assumes "0 \<notin> set xs" "length xs < 2 ^ 32" "z = [0] \<or> z = [] \<and> m (a + of_nat (length xs)) = 0"
  shows "cstr (put_bytes m a (xs @ z)) a xs"
proof -
  let ?m = "put_bytes m a (xs @ z)"
  have "?m (a + of_nat i) = xs ! i" if "i < length xs" for i
    using that assms(2,3) put_bytes_nth [of i "xs @ z" m a] by (auto simp: nth_append)
  moreover have "?m (a + of_nat (length xs)) = 0"
  proof (cases "z = []")
    case True
    have "a + of_nat (length xs) \<notin> region a (length xs)"
      using region_disjoint [of "length xs" 1 a] assms(2) by (auto simp: region_Suc)
    with True assms(3) show ?thesis by (simp add: put_bytes_out)
  next
    case False
    with assms show ?thesis using put_bytes_nth [of "length xs" "xs @ z" m a] by auto
  qed
  ultimately have "cstr ?m a (xs @ [])" using assms(1) unfolding cstr_append by simp
  then show ?thesis by simp
qed

lemma strcpy_loop_put:
  "cstr m src s \<Longrightarrow> length s < 2 ^ 32 \<Longrightarrow>
     region dst (Suc (length s)) \<inter> region src (Suc (length s)) = {} \<Longrightarrow>
     strcpy_loop m dst src = Some (put_bytes m dst (s @ [0]))"
proof (induction s arbitrary: m dst src)
  case Nil
  then show ?case by (subst strcpy_loop.simps) simp
next
  case (Cons c s)
  let ?n = "Suc (length s)"
  have disj: "region (dst + 1) ?n \<inter> region (src + 1) ?n = {}" "dst \<notin> region (src + 1) ?n"
    using Cons.prems(3) by (auto simp: region_Suc)
  have src: "cstr m (src + 1) s" "length s < 2 ^ 32" using Cons.prems(1,2) by auto
  have "cstr (m(dst := c)) (src + 1) s"
    using src(1) by (rule cstr_cong) (use disj(2) in auto)
  from Cons.IH [OF this src(2) disj(1)]
  have "strcpy_loop (m(dst := c)) (dst + 1) (src + 1) = Some (put_bytes (m(dst := c)) (dst + 1) (s @ [0]))" .
  moreover have "m src = c" "c \<noteq> 0" using Cons.prems(1) by simp_all
  ultimately show ?case by (subst strcpy_loop.simps) simp
qed

section \<open>Numbers\<close>

function digits :: "nat \<Rightarrow> nat \<Rightarrow> nat list" where
  "digits b n = (if b < 2 \<or> n < b then [n] else digits b (n div b) @ [n mod b])"
  by pat_completeness auto
termination by (relation "measure snd") auto

declare digits.simps [simp del]

primrec digits_value :: "nat \<Rightarrow> nat \<Rightarrow> nat list \<Rightarrow> nat" where
  "digits_value b acc [] = acc"
| "digits_value b acc (d # ds) = digits_value b (acc * b + d) ds"

definition digit_char :: "nat \<Rightarrow> u8" where
  "digit_char d = (if d < 10 then 48 + of_nat d else 55 + of_nat d)"

lemma digits_value_append: "digits_value b acc (xs @ ys) = digits_value b (digits_value b acc xs) ys"
  by (induction xs arbitrary: acc) simp_all

lemma digits_value: "digits_value b 0 (digits b n) = n"
  by (induction b n rule: digits.induct) (subst digits.simps, simp add: digits_value_append)

lemma digits_less: "2 \<le> b \<Longrightarrow> d \<in> set (digits b n) \<Longrightarrow> d < b"
proof (induction b n rule: digits.induct)
  case (1 b n)
  from 1(3) show ?case
    using 1(1,2) by (subst (asm) digits.simps) (auto split: if_splits)
qed

lemma digits_hd: "2 \<le> b \<Longrightarrow> 0 < n \<Longrightarrow> hd (digits b n) \<noteq> 0"
proof (induction b n rule: digits.induct)
  case (1 b n)
  show ?case
  proof (cases "n < b")
    case True
    with 1(3) show ?thesis by (subst digits.simps) simp
  next
    case False
    then have "0 < n div b" using 1(2) by (simp add: div_greater_zero_iff)
    moreover have "digits b (n div b) \<noteq> []" by (subst digits.simps) simp
    ultimately show ?thesis using 1 False by (subst digits.simps) (simp add: hd_append)
  qed
qed

lemma itoa_digit_char: "d < 36 \<Longrightarrow> itoa_digit (of_nat d) = digit_char d"
proof -
  assume "d < 36"
  moreover have "ucast (of_nat d :: u32) = (of_nat d :: u8)"
    by (rule bit_eqI) (simp add: bit_simps)
  ultimately show ?thesis by (simp add: itoa_digit_def digit_char_def word_less_nat_alt)
qed

definition decimal :: "nat \<Rightarrow> u8 list" where
  "decimal n = map digit_char (digits 10 n)"

definition hexadecimal :: "nat \<Rightarrow> u8 list" where
  "hexadecimal n = map digit_char (digits 16 n)"

lemma u32_div_mod:
  "unat (ucast (base :: u8) :: u32) = unat base"
  "unat (val div ucast base :: u32) = unat val div unat base"
  "val mod ucast base = (of_nat (unat val mod unat base) :: u32)"
proof -
  have "unat base < 2 ^ 32" by (rule less_le_trans [OF unsigned_less]) simp
  then show b: "unat (ucast (base :: u8) :: u32) = unat base"
    by (simp add: unsigned_ucast_eq take_bit_nat_eq_self)
  show "unat (val div ucast base :: u32) = unat val div unat base" by (simp add: unat_div b)
  show "val mod ucast base = (of_nat (unat val mod unat base) :: u32)"
    unfolding b [symmetric] by (simp add: word_arith_nat_mod)
qed

lemma itoa_put:
  assumes "2 \<le> unat base" "unat base \<le> 36" "unat val = n"
  shows "itoa val m p base =
    Some (put_bytes m p (map digit_char (digits (unat base) n)), p + of_nat (length (digits (unat base) n)))"
  using assms
proof (induction "unat base" n arbitrary: val rule: digits.induct)
  case (1 n)
  let ?b = "unat base"
  have b: "base \<noteq> 0" using 1(2) by auto
  have md: "itoa_digit (val mod ucast base) = digit_char (n mod ?b)"
    using 1(2,3,4) unfolding u32_div_mod(3) by (subst itoa_digit_char) (auto intro: less_le_trans [of _ ?b])
  show ?case
  proof (cases "n < ?b")
    case True
    then have "\<not> val div ucast base \<noteq> 0" using 1(4) by (simp add: word_unat_eq_iff u32_div_mod)
    with True md b show ?thesis by (subst itoa.simps, subst (1 2) digits.simps) simp
  next
    case False
    have "n div ?b \<noteq> 0" using False 1(2) by (simp add: div_eq_0_iff)
    then have nz: "val div ucast base \<noteq> 0" using 1(4) by (simp add: word_unat_eq_iff u32_div_mod)
    from False 1 u32_div_mod(2) [of val base] have
      ih: "itoa (val div ucast base) m p base = Some (put_bytes m p (map digit_char (digits ?b (n div ?b))),
        p + of_nat (length (digits ?b (n div ?b))))" by auto
    have d: "digits ?b n = digits ?b (n div ?b) @ [n mod ?b]" using False 1(2) by (subst digits.simps) simp
    show ?thesis
      unfolding d using ih nz b md by (subst itoa.simps) (simp add: put_bytes_append)
  qed
qed

text \<open>
  \<open>itoa\<close> returns for every value and the bases up to 36: it writes a numeral of the value
  without leading zeros, one character per digit, and nothing else, and leaves the pointer behind it.
\<close>

theorem itoa_correct:
  assumes "2 \<le> unat base" "unat base \<le> 36"
  shows "\<exists>ds. itoa val m p base = Some (put_bytes m p (map digit_char ds), p + of_nat (length ds)) \<and>
           digits_value (unat base) 0 ds = unat val \<and> list_all (\<lambda>d. d < unat base) ds \<and>
           (val \<noteq> 0 \<longrightarrow> hd ds \<noteq> 0)"
  using itoa_put [OF assms refl, of val m p] digits_value [of "unat base" "unat val"]
    digits_less [OF assms(1), of _ "unat val"] digits_hd [OF assms(1), of "unat val"]
  by (intro exI [of _ "digits (unat base) (unat val)"]) (auto simp: list_all_iff word_unat_eq_iff)

theorem itoa_correct_witness:
  "\<exists>ds. itoa 0xbeef (\<lambda>_. 0) 100 16 = Some (put_bytes (\<lambda>_. 0) 100 (map digit_char ds), 100 + of_nat (length ds)) \<and>
     digits_value 16 0 ds = 0xbeef"
  using itoa_correct [of 16 "0xbeef" "\<lambda>_. 0" 100] by auto

section \<open>Formats\<close>

datatype piece = Lit u8 | Hex u32 | Dec u32 | Chr u8 | Str u32 "u8 list"

primrec fmt_of :: "piece \<Rightarrow> u8 list" where
  "fmt_of (Lit c) = [c]"
| "fmt_of (Hex v) = [37, 120]"
| "fmt_of (Dec v) = [37, 100]"
| "fmt_of (Chr c) = [37, 99]"
| "fmt_of (Str a s) = [37, 115]"

primrec out_of :: "piece \<Rightarrow> u8 list" where
  "out_of (Lit c) = [c]"
| "out_of (Hex v) = hexadecimal (unat v)"
| "out_of (Dec v) = (if sint v < 0 then 45 # decimal (nat (- sint v)) else decimal (nat (sint v)))"
| "out_of (Chr c) = [c]"
| "out_of (Str a s) = s"

text \<open>The argument words after \<open>ap\<close> hold the values of the conversions.\<close>

definition next_ap :: "piece \<Rightarrow> u32 \<Rightarrow> u32" where
  "next_ap p ap = (case p of Lit c \<Rightarrow> ap | _ \<Rightarrow> ap + 4)"

definition arg_ok :: "bytes \<Rightarrow> u32 \<Rightarrow> piece \<Rightarrow> bool" where
  "arg_ok m ap p =
     (case p of
        Lit c \<Rightarrow> c \<noteq> 0 \<and> c \<noteq> 37
      | Hex v \<Rightarrow> read32 m (ap + 4) = v
      | Dec v \<Rightarrow> read32 m (ap + 4) = v
      | Chr c \<Rightarrow> m (ap + 4) = c \<and> c \<noteq> 0
      | Str a s \<Rightarrow> read32 m (ap + 4) = a \<and> a \<noteq> NULL \<and> cstr m a s)"

definition arg_reads :: "u32 \<Rightarrow> piece \<Rightarrow> u32 set" where
  "arg_reads ap p =
     (case p of Lit c \<Rightarrow> {} | Str a s \<Rightarrow> region (ap + 4) 4 \<union> region a (Suc (length s)) | _ \<Rightarrow> region (ap + 4) 4)"

primrec args_ok :: "bytes \<Rightarrow> u32 \<Rightarrow> piece list \<Rightarrow> bool" where
  "args_ok m ap [] = True"
| "args_ok m ap (p # ps) \<longleftrightarrow> arg_ok m ap p \<and> args_ok m (next_ap p ap) ps"

primrec args_reads :: "u32 \<Rightarrow> piece list \<Rightarrow> u32 set" where
  "args_reads ap [] = {}"
| "args_reads ap (p # ps) = arg_reads ap p \<union> args_reads (next_ap p ap) ps"

abbreviation fmts :: "piece list \<Rightarrow> u8 list" where
  "fmts ps \<equiv> concat (map fmt_of ps)"

abbreviation outs :: "piece list \<Rightarrow> u8 list" where
  "outs ps \<equiv> concat (map out_of ps)"

lemma region_4: "region a 4 = {a, a + 1, a + 2, a + 3}"
  by (simp add: eval_nat_numeral region_Suc insert_commute) (simp add: add.commute)

lemma read32_cong: "(\<And>x. x \<in> region a 4 \<Longrightarrow> m' x = m x) \<Longrightarrow> read32 m' a = read32 m a"
  by (simp add: read32_def region_4)

lemma arg_ok_cong:
  assumes "arg_ok m ap p" "\<And>x. x \<in> arg_reads ap p \<Longrightarrow> m' x = m x"
  shows "arg_ok m' ap p"
proof -
  have e: "ap + 4 \<in> region (ap + 4) 4" using regionI [of 0 4 "ap + 4"] by simp
  show ?thesis
  proof (cases p)
    case (Str a s)
    then have "\<And>x. x \<in> region (ap + 4) 4 \<Longrightarrow> m' x = m x" "\<And>x. x \<in> region a (Suc (length s)) \<Longrightarrow> m' x = m x"
      using assms(2) by (simp_all add: arg_reads_def)
    with assms(1) Str show ?thesis by (auto simp: arg_ok_def read32_cong [of _ m' m] intro: cstr_cong)
  qed (use assms e in \<open>auto simp: arg_ok_def arg_reads_def read32_cong [of _ m' m]\<close>)
qed

lemma args_ok_cong:
  "args_ok m ap ps \<Longrightarrow> (\<And>x. x \<in> args_reads ap ps \<Longrightarrow> m' x = m x) \<Longrightarrow> args_ok m' ap ps"
  by (induction ps arbitrary: ap) (auto intro: arg_ok_cong)

lemma unat_of_int_u32: "0 \<le> x \<Longrightarrow> x < 2 ^ 32 \<Longrightarrow> unat (word_of_int x :: u32) = nat x"
  by (simp add: unsigned_of_int take_bit_int_eq_self)

lemma unat_sint:
  "sint (v :: u32) < 0 \<Longrightarrow> unat (- v) = nat (- sint v)"
  "0 \<le> sint (v :: u32) \<Longrightarrow> unat v = nat (sint v)"
proof -
  have b: "- (2 ^ 31) \<le> sint v" "sint v < 2 ^ 31"
    using sint_greater_eq [of v] sint_less [of v] by simp_all
  show "unat (- v) = nat (- sint v)" if "sint v < 0"
  proof -
    have "- v = word_of_int (- sint v)" by simp
    moreover have "unat (word_of_int (- sint v) :: u32) = nat (- sint v)"
      using that b by (intro unat_of_int_u32) simp_all
    ultimately show ?thesis by metis
  qed
  show "unat v = nat (sint v)" if "0 \<le> sint v"
  proof -
    have "v = word_of_int (sint v)" by simp
    moreover have "unat (word_of_int (sint v) :: u32) = nat (sint v)"
      using that b by (intro unat_of_int_u32) simp_all
    ultimately show ?thesis by metis
  qed
qed

lemma itoa_dec: "unat v = n \<Longrightarrow> itoa v m p 10 = Some (put_bytes m p (decimal n), p + of_nat (length (decimal n)))"
  using itoa_put [of 10 v n m p] by (simp add: decimal_def)

lemma itoa_hex: "itoa v m p 16 = Some (put_bytes m p (hexadecimal (unat v)), p + of_nat (length (hexadecimal (unat v))))"
  using itoa_put [of 16 v "unat v" m p] by (simp add: hexadecimal_def)

text \<open>The zero that \<open>strcpy\<close> leaves behind the text when the format ends in \<open>%s\<close>; no other conversion writes one.\<close>

definition nul_of :: "piece \<Rightarrow> u8 list" where
  "nul_of p = (case p of Str a s \<Rightarrow> [0] | _ \<Rightarrow> [])"

fun nul_after :: "piece list \<Rightarrow> u8 list" where
  "nul_after [] = []"
| "nul_after [p] = nul_of p"
| "nul_after (p # q # ps) = nul_after (q # ps)"

lemma nul_after_cases: "nul_after ps = [] \<or> nul_after ps = [0]"
  by (induction ps rule: nul_after.induct) (simp_all add: nul_of_def split: piece.splits)

lemma outs_nul_after: "ps \<noteq> [] \<Longrightarrow> outs ps @ nul_after ps \<noteq> []"
proof (induction ps rule: nul_after.induct)
  case (2 p)
  have "decimal n \<noteq> []" "hexadecimal n \<noteq> []" for n by (simp_all add: decimal_def hexadecimal_def digits.simps [of _ n])
  then show ?case by (cases p) (simp_all add: nul_of_def)
qed auto

text \<open>One piece of the format: what the loop does until the next one.\<close>

lemma vsprintf_piece:
  assumes fmt: "cstr m idx (fmt_of p @ rest)" and arg: "arg_ok m ap p"
    and buf: "NULL \<notin> region b (Suc (length (out_of p)))" "length (out_of p) < 2 ^ 32"
      "region b (Suc (length (out_of p))) \<inter> arg_reads ap p = {}"
      "region b (Suc (length (out_of p))) \<inter> region idx (Suc (length (fmt_of p @ rest))) = {}"
  shows "\<exists>y m1. y = nul_of p \<and> m1 = put_bytes m b (out_of p @ y) \<and>
    (vsprintf_loop m b idx (m idx) ap :: ('s, bytes) res option) =
      vsprintf_loop m1 (b + of_nat (length (out_of p))) (idx + of_nat (length (fmt_of p)))
        (m1 (idx + of_nat (length (fmt_of p)))) (next_ap p ap)"
proof (cases p)
  case (Lit c)
  with fmt arg show ?thesis
    by (intro exI [of _ "[]"]) (subst vsprintf_loop.simps, simp add: nul_of_def arg_ok_def next_ap_def)
next
  case (Hex v)
  with fmt arg show ?thesis
    by (intro exI [of _ "[]"]) (subst vsprintf_loop.simps, simp add: nul_of_def arg_ok_def next_ap_def itoa_hex Let_def add.assoc)
next
  case (Chr c)
  with fmt arg show ?thesis
    by (intro exI [of _ "[]"]) (subst vsprintf_loop.simps, simp add: nul_of_def arg_ok_def next_ap_def Let_def add.assoc)
next
  case (Dec v)
  with fmt arg show ?thesis
    by (intro exI [of _ "[]"]) (subst vsprintf_loop.simps,
      simp add: nul_of_def arg_ok_def next_ap_def Let_def add.assoc word_sless_alt unat_sint itoa_dec [OF refl] not_less)
next
  case (Str a s)
  have r: "b \<noteq> NULL" using buf(1) regionI [of 0 "Suc (length (out_of p))" b] by auto
  have disj: "region b (Suc (length s)) \<inter> region a (Suc (length s)) = {}"
    using buf(3) Str by (auto simp: arg_reads_def)
  have a: "a \<noteq> NULL" "cstr m a s" using arg Str by (simp_all add: arg_ok_def)
  have cp: "strcpy m b a = (Inr (b, put_bytes m b (s @ [0])) :: ('s, u32 \<times> bytes) res)"
  proof -
    have "length s < 2 ^ 32" using buf(2) Str by simp
    from strcpy_loop_put [OF a(2) this disj] r a show ?thesis by (simp add: strcpy_def)
  qed
  have "put_bytes m b (s @ [0]) x = m x" if "x \<in> region a (Suc (length s))" for x
    using that disj by (intro put_bytes_out) auto
  with a(2) have "cstr (put_bytes m b (s @ [0])) a s" by (rule cstr_cong)
  then have "strlen (put_bytes m b (s @ [0])) a = (Inr (of_nat (length s)) :: ('s, u32) res)"
    using a(1) by (intro strlen_cstr)
  with cp fmt arg Str show ?thesis
    by (intro exI [of _ "[0]"]) (subst vsprintf_loop.simps, simp add: nul_of_def arg_ok_def next_ap_def Let_def add.assoc)
qed

lemma region_tail: "Suc n \<le> k \<Longrightarrow> region (a + of_nat (k - Suc n)) (Suc n) \<subseteq> region a k"
  using region_split [of a "k - Suc n" "Suc n"] by auto

lemma region_after: "region (a + of_nat (length xs)) (Suc (length ys)) \<subseteq> region a (Suc (length (xs @ ys)))"
  using region_split [of a "length xs" "Suc (length ys)"] by auto

lemma vsprintf_loop_pieces:
  assumes "cstr m idx (fmts ps)" "args_ok m ap ps"
    and "NULL \<notin> region b (Suc (length (outs ps)))" "length (outs ps) < 2 ^ 32"
    and "region b (Suc (length (outs ps))) \<inter>
      (args_reads ap ps \<union> region idx (Suc (length (fmts ps)))) = {}"
  shows "(vsprintf_loop m b idx (m idx) ap :: ('s, bytes) res option) = Some (Inr (put_bytes m b (outs ps @ nul_after ps)))"
  using assms
proof (induction ps arbitrary: m b idx ap)
  case Nil
  then show ?case by (subst vsprintf_loop.simps) simp
next
  case (Cons p ps)
  let ?o = "out_of p" and ?f = "fmt_of p" and ?ap = "next_ap p ap"
  let ?b = "b + of_nat (length ?o)" and ?i = "idx + of_nat (length ?f)"
  have sub: "region b (Suc (length ?o)) \<subseteq> region b (Suc (length (outs (p # ps))))"
    "region ?b (Suc (length (outs ps))) \<subseteq> region b (Suc (length (outs (p # ps))))"
    "region ?i (Suc (length (fmts ps))) \<subseteq> region idx (Suc (length (fmts (p # ps))))"
    using region_mono [of "Suc (length ?o)" "Suc (length (outs (p # ps)))" b] region_after [of b ?o "outs ps"]
      region_after [of idx ?f "fmts ps"] by simp_all
  have arg: "arg_ok m ap p" "args_ok m ?ap ps" using Cons.prems(2) by simp_all
  have fmt: "cstr m idx (?f @ fmts ps)" using Cons.prems(1) by simp
  have dis: "region b (Suc (length ?o)) \<inter> arg_reads ap p = {}"
    "region b (Suc (length ?o)) \<inter> region idx (Suc (length (?f @ fmts ps))) = {}"
    using Cons.prems(5) sub(1) by auto
  from vsprintf_piece [OF fmt arg(1) _ _ dis, where 's = 's] Cons.prems(3,4) sub(1) obtain y m1 where
    m1: "y = nul_of p" "m1 = put_bytes m b (?o @ y)"
      "(vsprintf_loop m b idx (m idx) ap :: ('s, bytes) res option) = vsprintf_loop m1 ?b ?i (m1 ?i) ?ap"
    by fastforce
  have same: "m1 x = m x" if "x \<notin> region b (Suc (length ?o))" for x
    using that m1(1,2) nul_after_cases [of "[p]"] by (simp add: put_bytes_same)
  have "cstr m1 ?i (fmts ps)"
  proof (rule cstr_cong)
    show "cstr m ?i (fmts ps)" using fmt unfolding cstr_append by blast
    show "m1 x = m x" if "x \<in> region ?i (Suc (length (fmts ps)))" for x
      using that sub(1,3) Cons.prems(5) by (intro same) blast
  qed
  moreover have "args_ok m1 ?ap ps"
    using arg(2) by (rule args_ok_cong) (use Cons.prems(5) sub(1) in \<open>auto intro!: same\<close>)
  moreover have "region ?b (Suc (length (outs ps))) \<inter> (args_reads ?ap ps \<union> region ?i (Suc (length (fmts ps)))) = {}"
    using Cons.prems(5) sub(2,3) by auto
  ultimately have z: "(vsprintf_loop m1 ?b ?i (m1 ?i) ?ap :: ('s, bytes) res option) =
      Some (Inr (put_bytes m1 ?b (outs ps @ nul_after ps)))"
    using Cons.IH [of m1 ?i ?ap ?b] Cons.prems(3,4) sub(2) by auto
  have "put_bytes m1 ?b (outs ps @ nul_after ps) = put_bytes m b (outs (p # ps) @ nul_after (p # ps))"
  proof (cases ps)
    case Nil
    then show ?thesis using m1 by simp
  next
    case (Cons q qs)
    then have "nul_after (p # ps) = nul_after ps" "outs ps @ nul_after ps \<noteq> []" using outs_nul_after [of ps] by simp_all
    then show ?thesis
      using put_bytes_nul [of y "outs ps @ nul_after ps" m b ?o] nul_after_cases [of "[p]"] m1(1,2) by simp
  qed
  then show ?case using z m1(3) by simp
qed

lemma digit_char_nz: "d < 36 \<Longrightarrow> digit_char d \<noteq> 0"
proof -
  assume "d < 36"
  then have "unat (digit_char d) \<noteq> 0" by (simp add: digit_char_def unat_word_ariths unat_of_nat)
  then show ?thesis by auto
qed

lemma outs_no_zero: "args_ok m ap ps \<Longrightarrow> 0 \<notin> set (outs ps)"
proof (induction ps arbitrary: ap)
  case (Cons p ps)
  have "0 \<notin> set (decimal n)" "0 \<notin> set (hexadecimal n)" for n
    using digits_less [of 10 _ n] digits_less [of 16 _ n] digit_char_nz
    by (fastforce simp: decimal_def hexadecimal_def)+
  with Cons.prems have "0 \<notin> set (out_of p)"
    by (cases p) (auto simp: arg_ok_def dest: cstr_no_zero)
  with Cons show ?case by auto
qed simp


definition demo_stack :: bytes where
  "demo_stack = put_bytes (put_bytes (\<lambda>_. 0) 0x1000 [112, 105, 100, 61, 37, 100]) 0x2004 [0xfe, 0xff, 0xff, 0xff]"


end
