(* ===== verification/Idepart.thy ===== *)
theory Idepart
  imports Pipe Stdio
begin

unbundle bit_operations_syntax

text \<open>
  \<open>partition_scan\<close> of \<^verbatim>\<open>device/ide.c\<close>: the partitions of a disk, from the table in the master boot record and the chain of
  tables in the extended partition. The disk and the allocator are those of the file system; what \<open>ide_read\<close> does to reach the disk
  is in theory \<open>Ide\<close>.
\<close>

section \<open>Definitions\<close>

record partition_table_entry =
  fs_type :: u8
  pe_start :: u32
  pe_count :: u32

text \<open>The table of four entries of 16 bytes behind the 446 bytes of boot code.\<close>

definition table_entry_at :: "u8 list \<Rightarrow> nat \<Rightarrow> partition_table_entry" where
  "table_entry_at b i = \<lparr>fs_type = b ! (446 + 16 * i + 4), pe_start = word_at b (446 + 16 * i + 8), pe_count = word_at b (446 + 16 * i + 12)\<rparr>"

definition partition_table :: "u8 list \<Rightarrow> partition_table_entry list" where
  "partition_table b = map (table_entry_at b) [0..<4]"

record part_info =
  pi_start :: u32
  pi_count :: u32
  pi_name :: "u8 list"

record disk =
  disk_name :: "u8 list"
  my_channel :: nat
  dev_no :: u8
  prim_parts :: "part_info list"
  logic_parts :: "part_info list"

text \<open>An element of \<open>partition_list\<close>: the channel and device number of the disk and the index in one of its two arrays.\<close>

datatype part_ref = Prim nat u8 nat | Logic nat u8 nat

text \<open>The disk that is scanned and the variables of the file; \<open>psys\<close> has the sectors of the disk and the allocator.\<close>

record pscan =
  hd_of :: disk
  ext_lba_base :: u32
  p_no :: u8
  l_no :: u8
  partition_list :: "part_ref list"
  psys :: fsys

type_synonym 'a pres = "(pscan, 'a) res"

definition in_psys :: "(fsys \<Rightarrow> 'a fres) \<Rightarrow> pscan \<Rightarrow> 'a pres" where
  "in_psys f s = relift (\<lambda>fs. s\<lparr>psys := fs\<rparr>) (f (psys s))"

text \<open>The primary and the logical partition of an entry.\<close>

definition add_primary :: "pscan \<Rightarrow> u32 \<Rightarrow> partition_table_entry \<Rightarrow> pscan pres" where
  "add_primary s ext_lba p =
     (let i = unat (p_no s); h = hd_of s
      in if length (prim_parts h) \<le> i then Inl (Fault ''prim_parts[p_no]'')
         else let new = \<lparr>pi_start = ext_lba + pe_start p, pi_count = pe_count p, pi_name = disk_name h @ decimal (i + 1)\<rparr>;
                  s = s\<lparr>hd_of := h\<lparr>prim_parts := (prim_parts h)[i := new]\<rparr>, p_no := p_no s + 1,
                        partition_list := partition_list s @ [Prim (my_channel h) (dev_no h) i]\<rparr>
              in bnd (assert_that (p_no s < 4) ''p_no < 4'') (\<lambda>_. Inr s))"

text \<open>The flag says that the scan of this table stops, without freeing the buffer.\<close>

definition add_logical :: "pscan \<Rightarrow> u32 \<Rightarrow> partition_table_entry \<Rightarrow> (bool \<times> pscan) pres" where
  "add_logical s ext_lba p =
     (let i = unat (l_no s); h = hd_of s
      in if length (logic_parts h) \<le> i then Inl (Fault ''logic_parts[l_no]'')
         else let new = \<lparr>pi_start = ext_lba + pe_start p, pi_count = pe_count p, pi_name = disk_name h @ decimal (i + 5)\<rparr>;
                  s = s\<lparr>hd_of := h\<lparr>logic_parts := (logic_parts h)[i := new]\<rparr>, l_no := l_no s + 1,
                        partition_list := partition_list s @ [Logic (my_channel h) (dev_no h) i]\<rparr>
              in Inr (8 \<le> l_no s, s))"

text \<open>The buffer, and the table that is read into it. A buffer at the null pointer is a fault.\<close>

definition scan_open :: "pscan \<Rightarrow> u32 \<Rightarrow> (u32 \<times> partition_table_entry list \<times> pscan) pres" where
  "scan_open s ext_lba =
     (let (bs, f) = fs_malloc (psys s) 512; s = s\<lparr>psys := f\<rparr>
      in if bs = NULL then Inl (Fault ''bs'')
         else bnd (in_psys (\<lambda>f. disk_read f ext_lba 1) s) (\<lambda>b. Inr (bs, partition_table b, s)))"

definition scan_next :: "pscan \<Rightarrow> partition_table_entry \<Rightarrow> u32 \<times> pscan" where
  "scan_next s p =
     (if ext_lba_base s \<noteq> 0 then (pe_start p + ext_lba_base s, s) else (pe_start p, s\<lparr>ext_lba_base := pe_start p\<rparr>))"

text \<open>
  The loop over the entries of one table. Nothing bounds the recursion: a chain of tables that leads back into itself never ends.
\<close>

partial_function (option) scan_table :: "pscan \<Rightarrow> u32 \<Rightarrow> u32 \<Rightarrow> partition_table_entry list \<Rightarrow> pscan pres option" where
  "scan_table s ext_lba bs tab =
     (if tab = [] then Some (bnd (in_psys (\<lambda>f. fs_free f bs) s) (\<lambda>f. Inr (s\<lparr>psys := f\<rparr>)))
      else if fs_type (hd tab) = 5 then
        (case scan_open (snd (scan_next s (hd tab))) (fst (scan_next s (hd tab))) of Inl x \<Rightarrow> Some (Inl x)
         | Inr r \<Rightarrow>
           Option.bind (scan_table (snd (snd r)) (fst (scan_next s (hd tab))) (fst r) (fst (snd r))) (\<lambda>r.
             case r of Inl x \<Rightarrow> Some (Inl x) | Inr s \<Rightarrow> scan_table s ext_lba bs (tl tab)))
      else if fs_type (hd tab) \<noteq> 0 then
        (if ext_lba = 0 then
           (case add_primary s ext_lba (hd tab) of Inl x \<Rightarrow> Some (Inl x) | Inr s \<Rightarrow> scan_table s ext_lba bs (tl tab))
         else
           (case add_logical s ext_lba (hd tab) of Inl x \<Rightarrow> Some (Inl x)
            | Inr r \<Rightarrow> if fst r then Some (Inr (snd r)) else scan_table (snd r) ext_lba bs (tl tab)))
      else scan_table s ext_lba bs (tl tab))"

definition partition_scan :: "pscan \<Rightarrow> u32 \<Rightarrow> pscan pres option" where
  "partition_scan s ext_lba =
     (case scan_open s ext_lba of Inl x \<Rightarrow> Some (Inl x) | Inr (b, t, s) \<Rightarrow> scan_table s ext_lba b t)"

section \<open>The loop over a table\<close>

lemma scan_table_Nil: "scan_table s ext_lba bs [] = Some (bnd (in_psys (\<lambda>f. fs_free f bs) s) (\<lambda>f. Inr (s\<lparr>psys := f\<rparr>)))"
  by (subst scan_table.simps) simp

lemma scan_table_none: "fs_type p = 0 \<Longrightarrow> scan_table s ext_lba bs (p # tab) = scan_table s ext_lba bs tab"
  by (subst scan_table.simps) simp

lemma scan_table_extended:
  "fs_type p = 5 \<Longrightarrow> scan_table s ext_lba bs (p # tab) =
     Option.bind (partition_scan (snd (scan_next s p)) (fst (scan_next s p))) (\<lambda>r.
       case r of Inl x \<Rightarrow> Some (Inl x) | Inr s \<Rightarrow> scan_table s ext_lba bs tab)"
  by (subst scan_table.simps) (auto simp: partition_scan_def split_beta split: sum.splits)

lemma scan_table_primary:
  "fs_type p \<noteq> 0 \<Longrightarrow> fs_type p \<noteq> 5 \<Longrightarrow> scan_table s 0 bs (p # tab) =
     (case add_primary s 0 p of Inl x \<Rightarrow> Some (Inl x) | Inr s \<Rightarrow> scan_table s 0 bs tab)"
  by (subst scan_table.simps) (simp cong: sum.case_cong)

lemma scan_table_logical:
  "fs_type p \<noteq> 0 \<Longrightarrow> fs_type p \<noteq> 5 \<Longrightarrow> ext_lba \<noteq> 0 \<Longrightarrow> scan_table s ext_lba bs (p # tab) =
     (case add_logical s ext_lba p of Inl x \<Rightarrow> Some (Inl x)
      | Inr r \<Rightarrow> if fst r then Some (Inr (snd r)) else scan_table (snd r) ext_lba bs tab)"
  by (subst scan_table.simps) (simp cong: sum.case_cong if_cong)

lemma scan_open_eq:
  assumes "answers (psys s) = a # as" "a \<noteq> NULL" "lba \<le> max_lba"
  shows "scan_open s lba = Inr (a, partition_table (sectors (psys s) lba),
     s\<lparr>psys := (psys s)\<lparr>answers := as, live := a # live (psys s)\<rparr>\<rparr>)"
proof -
  have "disk_read f lba 1 = Inr (sectors f lba)" for f using assms(3) by (rule disk_one)
  then show ?thesis using assms(1,2) by (simp add: scan_open_def fs_malloc_def in_psys_def del: One_nat_def)
qed

lemma scan_close:
  assumes "a \<noteq> NULL" "live (psys s) = a # l"
  shows "scan_table s ext_lba a [] = Some (Inr (s\<lparr>psys := (psys s)\<lparr>live := l\<rparr>\<rparr>))"
  using assms by (simp add: scan_table_Nil in_psys_def fs_free_def)

section \<open>What a scan finds\<close>

text \<open>The partition of a reference: its first sector and its length, its name and its number in the name.\<close>

definition part_at :: "disk \<Rightarrow> part_ref \<Rightarrow> part_info" where
  "part_at h r = (case r of Prim c d i \<Rightarrow> prim_parts h ! i | Logic c d i \<Rightarrow> logic_parts h ! i)"

definition part_extent :: "disk \<Rightarrow> part_ref \<Rightarrow> u32 \<times> u32" where
  "part_extent h r = (pi_start (part_at h r), pi_count (part_at h r))"

definition part_number :: "part_ref \<Rightarrow> nat" where
  "part_number r = (case r of Prim c d i \<Rightarrow> i + 1 | Logic c d i \<Rightarrow> i + 5)"

definition ref_ok :: "pscan \<Rightarrow> part_ref \<Rightarrow> bool" where
  "ref_ok s r = (case r of
     Prim c d i \<Rightarrow> c = my_channel (hd_of s) \<and> d = dev_no (hd_of s) \<and> i < unat (p_no s)
   | Logic c d i \<Rightarrow> c = my_channel (hd_of s) \<and> d = dev_no (hd_of s) \<and> i < unat (l_no s))"

text \<open>Since \<open>s0\<close> the scan has listed the partitions \<open>xs\<close> in this order; \<open>p\<close> of them are primary and \<open>l\<close> logical.\<close>

definition listed :: "pscan \<Rightarrow> (u32 \<times> u32) list \<Rightarrow> nat \<Rightarrow> nat \<Rightarrow> pscan \<Rightarrow> bool" where
  "listed s0 xs p l s \<longleftrightarrow> unat (p_no s) = p \<and> unat (l_no s) = l \<and>
     length (prim_parts (hd_of s)) = 4 \<and> length (logic_parts (hd_of s)) = 8 \<and>
     disk_name (hd_of s) = disk_name (hd_of s0) \<and> my_channel (hd_of s) = my_channel (hd_of s0) \<and> dev_no (hd_of s) = dev_no (hd_of s0) \<and>
     (\<exists>refs. partition_list s = partition_list s0 @ refs \<and> distinct refs \<and> map (part_extent (hd_of s)) refs = xs \<and>
        (\<forall>r \<in> set refs. ref_ok s r \<and> pi_name (part_at (hd_of s) r) = disk_name (hd_of s0) @ decimal (part_number r)))"

lemma listed_psys [simp]:
  "listed s0 xs p l (s\<lparr>psys := f\<rparr>) = listed s0 xs p l s" "listed s0 xs p l (s\<lparr>ext_lba_base := b\<rparr>) = listed s0 xs p l s"
  by (simp_all add: listed_def ref_ok_def cong: part_ref.case_cong)

lemma add_primary_listed:
  assumes "listed s0 xs p l s" "p < 3"
  shows "\<exists>s'. add_primary s 0 e = Inr s' \<and> listed s0 (xs @ [(pe_start e, pe_count e)]) (Suc p) l s' \<and>
    psys s' = psys s \<and> ext_lba_base s' = ext_lba_base s"
proof -
  let ?h = "hd_of s" and ?i = "unat (p_no s)"
  let ?new = "\<lparr>pi_start = 0 + pe_start e, pi_count = pe_count e, pi_name = disk_name ?h @ decimal (?i + 1)\<rparr>"
  let ?h' = "?h\<lparr>prim_parts := (prim_parts ?h)[?i := ?new]\<rparr>"
  let ?r = "Prim (my_channel ?h) (dev_no ?h) ?i"
  let ?s = "s\<lparr>hd_of := ?h', p_no := p_no s + 1, partition_list := partition_list s @ [?r]\<rparr>"
  have p: "?i = p" "length (prim_parts ?h) = 4" using assms(1) by (simp_all add: listed_def)
  have u: "unat (p_no s + 1) = Suc p" using p(1) assms(2) by (simp add: unat_word_ariths)
  have "p_no s + 1 < 4" using u assms(2) by (simp add: word_less_nat_alt)
  then have "add_primary s 0 e = Inr ?s" using p assms(2) by (simp add: add_primary_def Let_def)
  moreover obtain refs where r: "partition_list s = partition_list s0 @ refs" "distinct refs" "map (part_extent ?h) refs = xs"
    "\<forall>r \<in> set refs. ref_ok s r \<and> pi_name (part_at ?h r) = disk_name (hd_of s0) @ decimal (part_number r)"
    using assms(1) by (auto simp: listed_def)
  have same: "part_at ?h' r = part_at ?h r" "ref_ok ?s r" if "r \<in> set refs" for r
    using r(4) that u p(1) by (auto simp: part_at_def ref_ok_def nth_list_update split: part_ref.splits)
  then have "map (part_extent ?h') refs = xs" using r(3) by (auto simp: part_extent_def)
  moreover have "part_at ?h' ?r = ?new" using p assms(2) by (simp add: part_at_def)
  moreover have "?r \<notin> set refs" using r(4) by (auto simp: ref_ok_def)
  moreover have "ref_ok ?s ?r" using u p(1) by (simp add: ref_ok_def)
  ultimately show ?thesis
    using assms(1) r same u p by (intro exI [of _ ?s]) (auto simp: listed_def part_extent_def part_number_def)
qed

lemma add_logical_listed:
  assumes "listed s0 xs p l s" "l < 7"
  shows "\<exists>s'. add_logical s ext_lba e = Inr (False, s') \<and> listed s0 (xs @ [(ext_lba + pe_start e, pe_count e)]) p (Suc l) s' \<and>
    psys s' = psys s \<and> ext_lba_base s' = ext_lba_base s"
proof -
  let ?h = "hd_of s" and ?i = "unat (l_no s)"
  let ?new = "\<lparr>pi_start = ext_lba + pe_start e, pi_count = pe_count e, pi_name = disk_name ?h @ decimal (?i + 5)\<rparr>"
  let ?h' = "?h\<lparr>logic_parts := (logic_parts ?h)[?i := ?new]\<rparr>"
  let ?r = "Logic (my_channel ?h) (dev_no ?h) ?i"
  let ?s = "s\<lparr>hd_of := ?h', l_no := l_no s + 1, partition_list := partition_list s @ [?r]\<rparr>"
  have p: "?i = l" "length (logic_parts ?h) = 8" using assms(1) by (simp_all add: listed_def)
  have u: "unat (l_no s + 1) = Suc l" using p(1) assms(2) by (simp add: unat_word_ariths)
  have "\<not> 8 \<le> l_no s + 1" using u assms(2) by (simp add: word_le_nat_alt)
  then have "add_logical s ext_lba e = Inr (False, ?s)" using p assms(2) by (simp add: add_logical_def Let_def)
  moreover obtain refs where r: "partition_list s = partition_list s0 @ refs" "distinct refs" "map (part_extent ?h) refs = xs"
    "\<forall>r \<in> set refs. ref_ok s r \<and> pi_name (part_at ?h r) = disk_name (hd_of s0) @ decimal (part_number r)"
    using assms(1) by (auto simp: listed_def)
  have same: "part_at ?h' r = part_at ?h r" "ref_ok ?s r" if "r \<in> set refs" for r
    using r(4) that u p(1) by (auto simp: part_at_def ref_ok_def nth_list_update split: part_ref.splits)
  then have "map (part_extent ?h') refs = xs" using r(3) by (auto simp: part_extent_def)
  moreover have "part_at ?h' ?r = ?new" using p assms(2) by (simp add: part_at_def)
  moreover have "?r \<notin> set refs" using r(4) by (auto simp: ref_ok_def)
  moreover have "ref_ok ?s ?r" using u p(1) by (simp add: ref_ok_def)
  ultimately show ?thesis
    using assms(1) r same u p by (intro exI [of _ ?s]) (auto simp: listed_def part_extent_def part_number_def)
qed

text \<open>
  The chain of tables in the extended partition at \<open>base\<close>: each table has a logical partition, and all but the last an entry for the next
  table, relative to the start of the whole extended partition.
\<close>

inductive logicals :: "(u32 \<Rightarrow> u8 list) \<Rightarrow> u32 \<Rightarrow> u32 \<Rightarrow> (u32 \<times> u32) list \<Rightarrow> bool" for f base where
  last: "partition_table (f lba) = [e, n, z, z'] \<Longrightarrow> lba \<noteq> 0 \<Longrightarrow> lba \<le> max_lba \<Longrightarrow> fs_type e \<noteq> 0 \<Longrightarrow> fs_type e \<noteq> 5 \<Longrightarrow>
     fs_type n = 0 \<Longrightarrow> fs_type z = 0 \<Longrightarrow> fs_type z' = 0 \<Longrightarrow> logicals f base lba [(lba + pe_start e, pe_count e)]"
| link: "partition_table (f lba) = [e, n, z, z'] \<Longrightarrow> lba \<noteq> 0 \<Longrightarrow> lba \<le> max_lba \<Longrightarrow> fs_type e \<noteq> 0 \<Longrightarrow> fs_type e \<noteq> 5 \<Longrightarrow>
     fs_type n = 5 \<Longrightarrow> fs_type z = 0 \<Longrightarrow> fs_type z' = 0 \<Longrightarrow> logicals f base (pe_start n + base) ps \<Longrightarrow>
     logicals f base lba ((lba + pe_start e, pe_count e) # ps)"

lemma scan_logicals:
  assumes "logicals f base lba ps" "base \<noteq> 0" "sectors (psys s) = f" "ext_lba_base s = base"
    "answers (psys s) = as @ rest" "length as = length ps" "NULL \<notin> set as" "listed s0 xs p l s" "l + length ps \<le> 7"
  shows "\<exists>s'. partition_scan s lba = Some (Inr s') \<and> listed s0 (xs @ ps) p (l + length ps) s' \<and>
    psys s' = (psys s)\<lparr>answers := rest\<rparr> \<and> ext_lba_base s' = base"
  using assms
proof (induction arbitrary: s as xs l rule: logicals.induct)
  case (last lba e n z z')
  then obtain a where a: "as = [a]" "a \<noteq> NULL" by (cases as) auto
  let ?s = "s\<lparr>psys := (psys s)\<lparr>answers := rest, live := a # live (psys s)\<rparr>\<rparr>"
  have o: "scan_open s lba = Inr (a, [e, n, z, z'], ?s)" using scan_open_eq [of s a rest lba] last a by simp
  have "listed s0 xs p l ?s" "l < 7" using last by simp_all
  from add_logical_listed [OF this, of lba e] obtain s1 where
    s1: "add_logical ?s lba e = Inr (False, s1)" "listed s0 (xs @ [(lba + pe_start e, pe_count e)]) p (Suc l) s1"
      "psys s1 = psys ?s" "ext_lba_base s1 = base" using last by auto
  then show ?case
    using last a o scan_close [of a s1 "live (psys s)" lba]
    by (simp add: partition_scan_def scan_table_logical scan_table_none)
next
  case (link lba e n z z' ps)
  then obtain a as' where a: "as = a # as'" "a \<noteq> NULL" "NULL \<notin> set as'" "length as' = length ps" by (cases as) auto
  let ?s = "s\<lparr>psys := (psys s)\<lparr>answers := as' @ rest, live := a # live (psys s)\<rparr>\<rparr>"
  have o: "scan_open s lba = Inr (a, [e, n, z, z'], ?s)" using scan_open_eq [of s a "as' @ rest" lba] link a by simp
  have "listed s0 xs p l ?s" "l < 7" using link by simp_all
  from add_logical_listed [OF this, of lba e] obtain s1 where
    s1: "add_logical ?s lba e = Inr (False, s1)" "listed s0 (xs @ [(lba + pe_start e, pe_count e)]) p (Suc l) s1"
      "psys s1 = psys ?s" "ext_lba_base s1 = base" using link by auto
  have "\<exists>s'. partition_scan s1 (pe_start n + base) = Some (Inr s') \<and>
    listed s0 ((xs @ [(lba + pe_start e, pe_count e)]) @ ps) p (Suc l + length ps) s' \<and>
    psys s' = (psys s1)\<lparr>answers := rest\<rparr> \<and> ext_lba_base s' = base"
    by (rule link.IH) (use link.prems a s1 in simp_all)
  then obtain s2 where s2: "partition_scan s1 (pe_start n + base) = Some (Inr s2)"
    "listed s0 ((xs @ [(lba + pe_start e, pe_count e)]) @ ps) p (Suc l + length ps) s2"
    "psys s2 = (psys s1)\<lparr>answers := rest\<rparr>" "ext_lba_base s2 = base" by blast
  have "scan_next s1 n = (pe_start n + base, s1)" using s1(4) link.prems by (simp add: scan_next_def)
  then show ?case
    using link a o s1 s2 scan_close [of a s2 "live (psys s)" lba]
    by (simp add: partition_scan_def scan_table_logical scan_table_none scan_table_extended)
qed

section \<open>The master boot record\<close>

definition is_primary :: "partition_table_entry \<Rightarrow> bool" where
  "is_primary e \<longleftrightarrow> fs_type e \<noteq> 0 \<and> fs_type e \<noteq> 5"

definition is_extended :: "partition_table_entry \<Rightarrow> bool" where
  "is_extended e \<longleftrightarrow> fs_type e = 5"

text \<open>The partitions of a table in order, with the logical ones \<open>ls\<close> in the place of the extended partition.\<close>

definition expand :: "(u32 \<times> u32) list \<Rightarrow> partition_table_entry list \<Rightarrow> (u32 \<times> u32) list" where
  "expand ls tab = concat (map (\<lambda>e. if is_extended e then ls else if is_primary e then [(pe_start e, pe_count e)] else []) tab)"

lemma expand_simps [simp]:
  "expand ls [] = []"
  "expand ls (e # tab) = (if is_extended e then ls else if is_primary e then [(pe_start e, pe_count e)] else []) @ expand ls tab"
  by (simp_all add: expand_def)

text \<open>At most one entry is extended, and its chain of tables has the logical partitions \<open>ls\<close>.\<close>

definition extended_ok :: "(u32 \<Rightarrow> u8 list) \<Rightarrow> (u32 \<times> u32) list \<Rightarrow> partition_table_entry list \<Rightarrow> bool" where
  "extended_ok f ls tab = (case filter is_extended tab of
     [] \<Rightarrow> ls = []
   | [x] \<Rightarrow> pe_start x \<noteq> 0 \<and> logicals f (pe_start x) (pe_start x) ls
   | _ \<Rightarrow> False)"

lemma scan_primaries:
  assumes "filter is_extended tab = []" "listed s0 xs p l s" "p + length (filter is_primary tab) \<le> 3"
    "live (psys s) = b # lv" "b \<noteq> NULL"
  shows "\<exists>s'. scan_table s 0 b tab = Some (Inr s') \<and> listed s0 (xs @ expand ls tab) (p + length (filter is_primary tab)) l s' \<and>
    psys s' = (psys s)\<lparr>live := lv\<rparr>"
  using assms
proof (induction tab arbitrary: s xs p)
  case Nil
  then show ?case by (simp add: scan_close)
next
  case (Cons e tab)
  have x: "fs_type e \<noteq> 5" "filter is_extended tab = []" using Cons.prems(1) by (auto simp: is_extended_def [of e] split: if_splits)
  show ?case
  proof (cases "fs_type e = 0")
    case True
    have "\<exists>s'. scan_table s 0 b tab = Some (Inr s') \<and> listed s0 (xs @ expand ls tab) (p + length (filter is_primary tab)) l s' \<and>
      psys s' = (psys s)\<lparr>live := lv\<rparr>"
      by (rule Cons.IH [OF x(2)]) (use Cons.prems True in \<open>simp_all add: is_primary_def [of e]\<close>)
    then show ?thesis using True x by (simp add: scan_table_none is_primary_def [of e] is_extended_def [of e])
  next
    case False
    then have "p < 3" using Cons.prems(3) x by (simp add: is_primary_def [of e])
    from add_primary_listed [OF Cons.prems(2) this] obtain s1 where s1: "add_primary s 0 e = Inr s1"
      "listed s0 (xs @ [(pe_start e, pe_count e)]) (Suc p) l s1" "psys s1 = psys s" by blast
    have "\<exists>s'. scan_table s1 0 b tab = Some (Inr s') \<and>
      listed s0 ((xs @ [(pe_start e, pe_count e)]) @ expand ls tab) (Suc p + length (filter is_primary tab)) l s' \<and>
      psys s' = (psys s1)\<lparr>live := lv\<rparr>"
      by (rule Cons.IH [OF x(2) s1(2)]) (use Cons.prems False x s1(3) in \<open>simp_all add: is_primary_def [of e]\<close>)
    then show ?thesis using False x s1 by (simp add: scan_table_primary is_primary_def [of e] is_extended_def [of e])
  qed
qed

lemma scan_mbr:
  assumes "extended_ok f ls tab" "sectors (psys s) = f" "ext_lba_base s = 0" "listed s0 xs p 0 s"
    "p + length (filter is_primary tab) \<le> 3" "length ls \<le> 7"
    "answers (psys s) = as @ rest" "length as = length ls" "NULL \<notin> set as" "live (psys s) = b # lv" "b \<noteq> NULL"
  shows "\<exists>s'. scan_table s 0 b tab = Some (Inr s') \<and> listed s0 (xs @ expand ls tab) (p + length (filter is_primary tab)) (length ls) s' \<and>
    psys s' = (psys s)\<lparr>answers := rest, live := lv\<rparr>"
  using assms
proof (induction tab arbitrary: s xs p)
  case Nil
  then have "psys s\<lparr>answers := rest\<rparr> = psys s" by (simp add: extended_ok_def)
  with Nil show ?case by (simp add: scan_close extended_ok_def)
next
  case (Cons e tab)
  note pr = Cons.prems
  consider "fs_type e = 0" | "fs_type e = 5" | "fs_type e \<noteq> 0" "fs_type e \<noteq> 5" by blast
  then show ?case
  proof cases
    case 1
    have "\<exists>s'. scan_table s 0 b tab = Some (Inr s') \<and> listed s0 (xs @ expand ls tab) (p + length (filter is_primary tab)) (length ls) s' \<and>
      psys s' = (psys s)\<lparr>answers := rest, live := lv\<rparr>"
      by (rule Cons.IH) (use pr 1 in \<open>simp_all add: is_primary_def [of e] is_extended_def [of e] extended_ok_def\<close>)
    then show ?thesis using 1 by (simp add: scan_table_none is_primary_def [of e] is_extended_def [of e])
  next
    case 2
    then have x: "filter is_extended tab = []" "pe_start e \<noteq> 0" "logicals f (pe_start e) (pe_start e) ls"
      using pr(1) by (auto simp: extended_ok_def is_extended_def [of e] split: list.splits)
    let ?s = "s\<lparr>ext_lba_base := pe_start e\<rparr>"
    have n: "scan_next s e = (pe_start e, ?s)" using pr(3) by (simp add: scan_next_def)
    have "\<exists>s'. partition_scan ?s (pe_start e) = Some (Inr s') \<and> listed s0 (xs @ ls) p (0 + length ls) s' \<and>
      psys s' = (psys ?s)\<lparr>answers := rest\<rparr> \<and> ext_lba_base s' = pe_start e"
      by (rule scan_logicals [OF x(3,2)]) (use pr in simp_all)
    then obtain s1 where s1: "partition_scan ?s (pe_start e) = Some (Inr s1)" "listed s0 (xs @ ls) p (length ls) s1"
      "psys s1 = (psys s)\<lparr>answers := rest\<rparr>" by auto
    have "\<exists>s'. scan_table s1 0 b tab = Some (Inr s') \<and>
      listed s0 ((xs @ ls) @ expand ls tab) (p + length (filter is_primary tab)) (length ls) s' \<and> psys s' = (psys s1)\<lparr>live := lv\<rparr>"
      by (rule scan_primaries [OF x(1) s1(2)]) (use pr 2 s1(3) in \<open>simp_all add: is_primary_def [of e]\<close>)
    then show ?thesis using 2 n s1 by (simp add: scan_table_extended is_primary_def [of e] is_extended_def [of e])
  next
    case 3
    then have "p < 3" using pr(5) by (simp add: is_primary_def [of e])
    from add_primary_listed [OF pr(4) this] obtain s1 where s1: "add_primary s 0 e = Inr s1"
      "listed s0 (xs @ [(pe_start e, pe_count e)]) (Suc p) 0 s1" "psys s1 = psys s" "ext_lba_base s1 = ext_lba_base s" by blast
    have "\<exists>s'. scan_table s1 0 b tab = Some (Inr s') \<and>
      listed s0 ((xs @ [(pe_start e, pe_count e)]) @ expand ls tab) (Suc p + length (filter is_primary tab)) (length ls) s' \<and>
      psys s' = (psys s1)\<lparr>answers := rest, live := lv\<rparr>"
      by (rule Cons.IH) (use pr 3 s1 in \<open>simp_all add: is_primary_def [of e] is_extended_def [of e] extended_ok_def\<close>)
    then show ?thesis using 3 s1 by (simp add: scan_table_primary is_primary_def [of e] is_extended_def [of e])
  qed
qed

text \<open>
  C40: In the first scan after the start (no extended partition seen yet), on a disk with up to three primary partitions and one extended partition, anywhere in the table, whose chain of tables has
  up to seven logical partitions, the scan returns and appends exactly these to the list of partitions: the entries of the
  table in order, with the logical partitions, at their absolute addresses, in the place of the extended one. The names are that of
  the disk with the numbers from 1 for the primary and from 5 for the logical partitions. All buffers are free again.
\<close>

theorem partition_scan_lists:
  assumes "partition_table (sectors (psys s) 0) = tab" "extended_ok (sectors (psys s)) ls tab"
    "length (filter is_primary tab) \<le> 3" "length ls \<le> 7" "ext_lba_base s = 0" "p_no s = 0" "l_no s = 0"
    "length (prim_parts (hd_of s)) = 4" "length (logic_parts (hd_of s)) = 8"
    "answers (psys s) = as @ rest" "length as = Suc (length ls)" "NULL \<notin> set as"
  shows "\<exists>s'. partition_scan s 0 = Some (Inr s') \<and> listed s (expand ls tab) (length (filter is_primary tab)) (length ls) s' \<and>
    psys s' = (psys s)\<lparr>answers := rest\<rparr>"
proof -
  obtain a as' where a: "as = a # as'" "a \<noteq> NULL" "NULL \<notin> set as'" "length as' = length ls" using assms(11,12) by (cases as) auto
  let ?s = "s\<lparr>psys := (psys s)\<lparr>answers := as' @ rest, live := a # live (psys s)\<rparr>\<rparr>"
  have o: "scan_open s 0 = Inr (a, tab, ?s)" using scan_open_eq [of s a "as' @ rest" 0] assms(1,10) a by (simp add: max_lba_def)
  have "\<exists>s'. scan_table ?s 0 a tab = Some (Inr s') \<and>
    listed s ([] @ expand ls tab) (0 + length (filter is_primary tab)) (length ls) s' \<and>
    psys s' = (psys ?s)\<lparr>answers := rest, live := live (psys s)\<rparr>"
    by (rule scan_mbr) (use assms a in \<open>simp_all add: listed_def\<close>)
  then show ?thesis using o by (simp add: partition_scan_def)
qed

text \<open>A full table of primary partitions, which is a legal one, stops the kernel: the fourth one runs into the assertion.\<close>

theorem partition_scan_four_primaries:
  assumes "partition_table (sectors (psys s) 0) = [e1, e2, e3, e4]" "list_all is_primary [e1, e2, e3, e4]"
    "p_no s = 0" "l_no s = 0" "length (prim_parts (hd_of s)) = 4" "length (logic_parts (hd_of s)) = 8"
    "answers (psys s) = a # as" "a \<noteq> NULL"
  shows "partition_scan s 0 = Some (Inl (Panic ''p_no < 4''))"
proof -
  let ?s = "s\<lparr>psys := (psys s)\<lparr>answers := as, live := a # live (psys s)\<rparr>\<rparr>"
  have o: "scan_open s 0 = Inr (a, [e1, e2, e3, e4], ?s)" using scan_open_eq [of s a as 0] assms by (simp add: max_lba_def)
  have "listed s [] 0 0 ?s" using assms by (simp add: listed_def)
  from add_primary_listed [OF this, of e1] obtain s1 where s1: "add_primary ?s 0 e1 = Inr s1" "listed s [(pe_start e1, pe_count e1)] 1 0 s1"
    by auto
  from add_primary_listed [OF s1(2), of e2] obtain s2 where s2: "add_primary s1 0 e2 = Inr s2"
    "listed s [(pe_start e1, pe_count e1), (pe_start e2, pe_count e2)] 2 0 s2" by (auto simp: numeral_2_eq_2)
  from add_primary_listed [OF s2(2), of e3] obtain s3 where s3: "add_primary s2 0 e3 = Inr s3"
    "listed s [(pe_start e1, pe_count e1), (pe_start e2, pe_count e2), (pe_start e3, pe_count e3)] 3 0 s3" by (auto simp: numeral_3_eq_3)
  have "unat (p_no s3) = 3" "length (prim_parts (hd_of s3)) = 4" using s3(2) by (simp_all add: listed_def)
  moreover from this have "p_no s3 = 3" by (simp add: word_unat_eq_iff)
  ultimately have "add_primary s3 0 e4 = Inl (Panic ''p_no < 4'')" by (simp add: add_primary_def)
  then show ?thesis
    using assms(2) o s1 s2 s3 by (simp add: partition_scan_def scan_table_primary is_primary_def)
qed

section \<open>Examples\<close>

definition entry_raw :: "partition_table_entry \<Rightarrow> u8 list" where
  "entry_raw e = [0, 0, 0, 0, fs_type e, 0, 0, 0] @ le32 (pe_start e) @ le32 (pe_count e)"

definition table_sector :: "partition_table_entry list \<Rightarrow> u8 list" where
  "table_sector es = replicate 446 0 @ concat (map entry_raw es) @ [0x55, 0xaa]"

lemma table_entry_at_raw:
  assumes "length pre = 446 + 16 * i"
  shows "table_entry_at (pre @ entry_raw e @ post) i = e"
proof -
  let ?h = "pre @ [0, 0, 0, 0, fs_type e, 0, 0, 0]"
  have "pre @ entry_raw e @ post = ?h @ le32 (pe_start e) @ (le32 (pe_count e) @ post)" by (simp add: entry_raw_def)
  then have s: "word_at (pre @ entry_raw e @ post) (446 + 16 * i + 8) = pe_start e"
    using word_at_le32 [of ?h "pe_start e"] assms by (simp add: ac_simps)
  have "pre @ entry_raw e @ post = (?h @ le32 (pe_start e)) @ le32 (pe_count e) @ post" by (simp add: entry_raw_def)
  then have c: "word_at (pre @ entry_raw e @ post) (446 + 16 * i + 12) = pe_count e"
    using word_at_le32 [of "?h @ le32 (pe_start e)" "pe_count e"] assms by (simp add: ac_simps)
  have "(pre @ entry_raw e @ post) ! (446 + 16 * i + 4) = fs_type e" using assms by (simp add: nth_append entry_raw_def)
  with s c show ?thesis by (simp add: table_entry_at_def)
qed

lemma table_sector_entries: "partition_table (table_sector [e1, e2, e3, e4]) = [e1, e2, e3, e4]"
proof -
  let ?z = "replicate 446 0 :: u8 list" and ?m = "[0x55, 0xaa] :: u8 list"
  have l: "length (entry_raw e) = 16" for e by (simp add: entry_raw_def)
  have "table_entry_at (table_sector [e1, e2, e3, e4]) 0 = e1"
    using table_entry_at_raw [of ?z 0 e1 "entry_raw e2 @ entry_raw e3 @ entry_raw e4 @ ?m"] by (simp add: table_sector_def)
  moreover have "table_entry_at (table_sector [e1, e2, e3, e4]) 1 = e2"
    using table_entry_at_raw [of "?z @ entry_raw e1" 1 e2 "entry_raw e3 @ entry_raw e4 @ ?m"] by (simp add: table_sector_def l)
  moreover have "table_entry_at (table_sector [e1, e2, e3, e4]) 2 = e3"
    using table_entry_at_raw [of "?z @ entry_raw e1 @ entry_raw e2" 2 e3 "entry_raw e4 @ ?m"] by (simp add: table_sector_def l)
  moreover have "table_entry_at (table_sector [e1, e2, e3, e4]) 3 = e4"
    using table_entry_at_raw [of "?z @ entry_raw e1 @ entry_raw e2 @ entry_raw e3" 3 e4 ?m] by (simp add: table_sector_def l)
  moreover have "[0..<4] = [0, 1, 2, 3]" by (simp add: upt_rec)
  ultimately show ?thesis by (simp add: partition_table_def)
qed

abbreviation no_entry :: partition_table_entry where
  "no_entry \<equiv> \<lparr>fs_type = 0, pe_start = 0, pe_count = 0\<rparr>"

text \<open>A primary partition, and an extended one with two logical partitions.\<close>

definition scan_disk :: "u32 \<Rightarrow> u8 list" where
  "scan_disk = (\<lambda>_. [])(
     0 := table_sector [\<lparr>fs_type = 0x83, pe_start = 2048, pe_count = 1000\<rparr>, \<lparr>fs_type = 5, pe_start = 4000, pe_count = 3000\<rparr>, no_entry, no_entry],
     4000 := table_sector [\<lparr>fs_type = 0x66, pe_start = 63, pe_count = 500\<rparr>, \<lparr>fs_type = 5, pe_start = 1000, pe_count = 800\<rparr>, no_entry, no_entry],
     5000 := table_sector [\<lparr>fs_type = 0x66, pe_start = 63, pe_count = 200\<rparr>, no_entry, no_entry, no_entry])"

definition scan_start :: "(u32 \<Rightarrow> u8 list) \<Rightarrow> u32 list \<Rightarrow> pscan" where
  "scan_start f as = \<lparr>hd_of = \<lparr>disk_name = [115, 100, 98], my_channel = 0, dev_no = 1,
       prim_parts = replicate 4 \<lparr>pi_start = 0, pi_count = 0, pi_name = []\<rparr>,
       logic_parts = replicate 8 \<lparr>pi_start = 0, pi_count = 0, pi_name = []\<rparr>\<rparr>,
     ext_lba_base = 0, p_no = 0, l_no = 0, partition_list = [], psys = demo_tree\<lparr>sectors := f, answers := as\<rparr>\<rparr>"

theorem partition_scan_lists_witness:
  "\<exists>s'. partition_scan (scan_start scan_disk [0xc0110000, 0xc0111000, 0xc0112000]) 0 = Some (Inr s') \<and>
     listed (scan_start scan_disk [0xc0110000, 0xc0111000, 0xc0112000]) [(2048, 1000), (4063, 500), (5063, 200)] 1 2 s'"
proof -
  let ?s = "scan_start scan_disk [0xc0110000, 0xc0111000, 0xc0112000]"
  let ?x = "\<lparr>fs_type = 5, pe_start = 4000, pe_count = 3000\<rparr>" and ?ls = "[(4063, 500), (5063, 200)] :: (u32 \<times> u32) list"
  let ?p = "\<lparr>fs_type = 0x83, pe_start = 2048, pe_count = 1000\<rparr>"
  have "logicals scan_disk 4000 5000 [(5000 + pe_start \<lparr>fs_type = 0x66, pe_start = 63, pe_count = 200\<rparr>,
      pe_count \<lparr>fs_type = 0x66, pe_start = 63, pe_count = 200\<rparr>)]"
    by (rule logicals.last, simp add: scan_disk_def table_sector_entries, simp_all add: max_lba_def)
  then have l2: "logicals scan_disk 4000 (pe_start \<lparr>fs_type = 5, pe_start = 1000, pe_count = 800\<rparr> + 4000) [(5063, 200)]" by simp
  have "logicals scan_disk 4000 4000 ((4000 + pe_start \<lparr>fs_type = 0x66, pe_start = 63, pe_count = 500\<rparr>,
      pe_count \<lparr>fs_type = 0x66, pe_start = 63, pe_count = 500\<rparr>) # [(5063, 200)])"
    by (rule logicals.link [OF _ _ _ _ _ _ _ _ l2], simp add: scan_disk_def table_sector_entries, simp_all add: max_lba_def)
  then have x: "extended_ok scan_disk ?ls [?p, ?x, no_entry, no_entry]" by (simp add: extended_ok_def is_extended_def)
  have t: "partition_table (scan_disk 0) = [?p, ?x, no_entry, no_entry]" by (simp add: scan_disk_def table_sector_entries)
  have e: "filter is_primary [?p, ?x, no_entry, no_entry] = [?p]" "expand ?ls [?p, ?x, no_entry, no_entry] = (2048, 1000) # ?ls"
    by (simp_all add: is_primary_def is_extended_def)
  have "\<exists>s'. partition_scan ?s 0 = Some (Inr s') \<and> listed ?s (expand ?ls [?p, ?x, no_entry, no_entry])
      (length (filter is_primary [?p, ?x, no_entry, no_entry])) (length ?ls) s' \<and> psys s' = (psys ?s)\<lparr>answers := []\<rparr>"
    by (rule partition_scan_lists [where as = "[0xc0110000, 0xc0111000, 0xc0112000]"], unfold e)
      (use x t in \<open>simp_all add: scan_start_def\<close>)
  moreover have "length [?p] = 1" "length ?ls = 2" by simp_all
  ultimately show ?thesis unfolding e by metis
qed

theorem partition_scan_four_primaries_witness:
  "partition_scan (scan_start (\<lambda>_. table_sector (replicate 4 \<lparr>fs_type = 0x83, pe_start = 2048, pe_count = 1000\<rparr>)) [0xc0110000]) 0 =
     Some (Inl (Panic ''p_no < 4''))"
proof -
  have "replicate 4 e = [e, e, e, e]" for e :: partition_table_entry by (simp add: numeral_eq_Suc)
  then show ?thesis
    by (intro partition_scan_four_primaries [where a = "0xc0110000" and as = "[]"], simp add: scan_start_def table_sector_entries)
      (simp_all add: scan_start_def is_primary_def)
qed

end
