(* ===== verification/Timer.thy ===== *)
theory Timer
  imports Sched Malloc
begin

unbundle bit_operations_syntax

text \<open>
  The rest of \<^verbatim>\<open>device/timer.c\<close>: programming the counter and sleeping. The timer interrupt
  itself is in theory \<open>Sched\<close>. A sleeping thread gives up the CPU again and again; between two turns of the
  loop interrupts are on and other threads run, so a turn that does not end the sleep is a
  \<open>Yield\<close>, and \<open>ticks_to_sleep_from\<close> is the rest of the call.
\<close>

section \<open>Definitions\<close>

definition COUNTER0_VALUE :: u16 where "COUNTER0_VALUE = 1193180 div 100"
definition mil_seconds_per_intr :: u32 where "mil_seconds_per_intr = 1000 div 100"

definition frequency_set :: "u8 \<Rightarrow> u8 \<Rightarrow> u8 \<Rightarrow> u8 \<Rightarrow> u16 \<Rightarrow> idt_state \<Rightarrow> idt_state" where
  "frequency_set counter_port counter_no rwl counter_mode counter_value s =
     (let s = outb 0x43 (push_bit 6 counter_no OR push_bit 4 rwl OR push_bit 1 counter_mode) s;
          s = outb (ucast counter_port) (ucast counter_value) s
      in outb (ucast counter_port) (ucast (drop_bit 8 counter_value)) s)"

definition timer_init :: "u32 \<Rightarrow> kernel \<times> idt_state \<Rightarrow> (kernel \<times> idt_state) kres" where
  "timer_init handler ki =
     (case ki of (k, i) \<Rightarrow>
        let k = k\<lparr>kticks := 0\<rparr>; i = frequency_set 0x40 0 3 3 COUNTER0_VALUE i
        in bnd (register_handler 0x20 handler i) (\<lambda>i. Inr (k, i)))"

definition ticks_to_sleep_from :: "kernel \<Rightarrow> u32 \<Rightarrow> u32 \<Rightarrow> kernel kres" where
  "ticks_to_sleep_from k start_tick sleep_ticks =
     (if kticks k - start_tick < sleep_ticks
      then bnd (thread_yield k) (\<lambda>k. Inl (Yield k)) else Inr k)"

definition ticks_to_sleep :: "kernel \<Rightarrow> u32 \<Rightarrow> kernel kres" where
  "ticks_to_sleep k sleep_ticks = ticks_to_sleep_from k (kticks k) sleep_ticks"

definition sleep_ticks :: "u32 \<Rightarrow> u32" where
  "sleep_ticks m_seconds = DIV_ROUND_UP m_seconds mil_seconds_per_intr"

definition mtime_sleep :: "kernel \<Rightarrow> u32 \<Rightarrow> kernel kres" where
  "mtime_sleep k m_seconds =
     bnd (ASSERT (sleep_ticks m_seconds > 0) ''sleep_ticks > 0'') (\<lambda>_.
       ticks_to_sleep k (sleep_ticks m_seconds))"

section \<open>The length of a sleep\<close>

lemma sleep_ticks_unat:
  assumes "unat m \<le> 2 ^ 32 - 10"
  shows "unat (sleep_ticks m) = (unat m + 9) div 10"
proof -
  have "unat (m + 10 - 1) = unat m + 9"
  proof -
    have e: "m + 10 - 1 = m + 9" by simp
    show ?thesis unfolding e using assms by (simp add: unat_word_ariths)
  qed
  then show ?thesis by (simp add: sleep_ticks_def DIV_ROUND_UP_def mil_seconds_per_intr_def unat_div)
qed

text \<open>
  A sleep of \<open>m\<close> milliseconds that started at any value of the tick counter, even shortly before
  the counter wraps, goes on while fewer than \<open>m\<close> milliseconds of 10 ms ticks have passed, and
  ends at the first tick at which they have. A sleep of 0 ms stops the kernel.
\<close>

theorem mtime_sleep_duration:
  assumes "unat m \<le> 2 ^ 32 - 10" "t < 2 ^ 32" "kticks k = start + of_nat t"
  shows "(ticks_to_sleep_from k start (sleep_ticks m) = Inr k \<longleftrightarrow> unat m \<le> 10 * t) \<and>
         (m = 0 \<longrightarrow> mtime_sleep k m = Inl (Panic ''sleep_ticks > 0''))"
proof -
  have e: "kticks k - start = of_nat t" using assms(3) by simp
  have "(unat m + 9) div 10 \<le> t \<longleftrightarrow> unat m \<le> 10 * t" by linarith
  then have "\<not> of_nat t < sleep_ticks m \<longleftrightarrow> unat m \<le> 10 * t"
    using sleep_ticks_unat [OF assms(1)] assms(2) by (auto simp: word_less_nat_alt)
  moreover have "bnd (thread_yield k) (\<lambda>k. Inl (Yield k)) \<noteq> Inr k" by (cases "thread_yield k") simp_all
  ultimately show ?thesis
    unfolding ticks_to_sleep_from_def e
    by (auto simp: mtime_sleep_def sleep_ticks_def DIV_ROUND_UP_def mil_seconds_per_intr_def)
qed

theorem mtime_sleep_duration_witness:
  "let k = boot_kernel\<lparr>kticks := 1\<rparr>
   in ticks_to_sleep_from k 0xfffffffe (sleep_ticks 25) = Inr k \<and>
      ticks_to_sleep_from k 0xfffffffe (sleep_ticks 35) \<noteq> Inr k"
  using mtime_sleep_duration [of 25 3 "boot_kernel\<lparr>kticks := 1\<rparr>" "0xfffffffe"]
    mtime_sleep_duration [of 35 3 "boot_kernel\<lparr>kticks := 1\<rparr>" "0xfffffffe"]
  by (simp add: Let_def)

end
