(* ===== verification/Ide.thy ===== *)
theory Ide
  imports Idepart Timer
begin

unbundle bit_operations_syntax

text \<open>
  The disk driver of \<^verbatim>\<open>device/ide.c\<close>: commands to the controller, the interrupt that reports their end, and reading and writing
  of sectors in groups of up to 256. The controller is hardware: its ports are an argument (\<open>ports\<close>), and the theorems assume of it what
  the ATA standard says about commands for one sector.
\<close>

section \<open>The hardware and the state of the driver\<close>

record 'd ports =
  pout :: "u16 \<Rightarrow> u8 \<Rightarrow> 'd \<Rightarrow> 'd"
  pin :: "u16 \<Rightarrow> 'd \<Rightarrow> u8 \<times> 'd"
  pinsw :: "u16 \<Rightarrow> nat \<Rightarrow> 'd \<Rightarrow> u8 list \<times> 'd"
  poutsw :: "u16 \<Rightarrow> u8 list \<Rightarrow> 'd \<Rightarrow> 'd"

text \<open>A channel; its lock and its semaphore \<open>disk_done\<close> are those of the kernel state with the number of the channel.\<close>

record ide_channel =
  chan_name :: "u8 list"
  port_base :: u16
  irq_no :: u8
  expecting_intr :: bool

record 'd ide =
  kst :: kernel
  hw :: 'd
  channels :: "ide_channel list"
  idts :: idt_state

type_synonym ('d, 'a) ires = "('d ide, 'a) res"

definition do_kst :: "(kernel \<Rightarrow> kernel kres) \<Rightarrow> 'd ide \<Rightarrow> ('d, 'd ide) ires" where
  "do_kst f w = bnd (relift (\<lambda>k. w\<lparr>kst := k\<rparr>) (f (kst w))) (\<lambda>k. Inr (w\<lparr>kst := k\<rparr>))"

definition upd_channel :: "'d ide \<Rightarrow> nat \<Rightarrow> (ide_channel \<Rightarrow> ide_channel) \<Rightarrow> 'd ide" where
  "upd_channel w c f = w\<lparr>channels := (channels w)[c := f (channels w ! c)]\<rparr>"

definition reg_data :: "ide_channel \<Rightarrow> u16" where "reg_data channel = port_base channel + 0"
definition reg_sect_cnt :: "ide_channel \<Rightarrow> u16" where "reg_sect_cnt channel = port_base channel + 2"
definition reg_lba_l :: "ide_channel \<Rightarrow> u16" where "reg_lba_l channel = port_base channel + 3"
definition reg_lba_m :: "ide_channel \<Rightarrow> u16" where "reg_lba_m channel = port_base channel + 4"
definition reg_lba_h :: "ide_channel \<Rightarrow> u16" where "reg_lba_h channel = port_base channel + 5"
definition reg_dev :: "ide_channel \<Rightarrow> u16" where "reg_dev channel = port_base channel + 6"
definition reg_status :: "ide_channel \<Rightarrow> u16" where "reg_status channel = port_base channel + 7"
definition reg_cmd :: "ide_channel \<Rightarrow> u16" where "reg_cmd channel = reg_status channel"

definition BIT_STAT_BSY :: u8 where "BIT_STAT_BSY = 0x80"
definition BIT_STAT_DRQ :: u8 where "BIT_STAT_DRQ = 0x8"
definition BIT_DEV_MBS :: u8 where "BIT_DEV_MBS = 0xa0"
definition BIT_DEV_LBA :: u8 where "BIT_DEV_LBA = 0x40"
definition BIT_DEV_DEV :: u8 where "BIT_DEV_DEV = 0x10"
definition CMD_IDENTIFY :: u8 where "CMD_IDENTIFY = 0xec"
definition CMD_READ_SECTOR :: u8 where "CMD_READ_SECTOR = 0x20"
definition CMD_WRITE_SECTOR :: u8 where "CMD_WRITE_SECTOR = 0x30"

section \<open>Commands\<close>

definition out_port :: "'d ports \<Rightarrow> u16 \<Rightarrow> u8 \<Rightarrow> 'd ide \<Rightarrow> 'd ide" where
  "out_port a port v w = w\<lparr>hw := pout a port v (hw w)\<rparr>"

definition chan :: "'d ide \<Rightarrow> disk \<Rightarrow> ide_channel" where
  "chan w dk = channels w ! my_channel dk"

definition select_disk :: "'d ports \<Rightarrow> disk \<Rightarrow> 'd ide \<Rightarrow> 'd ide" where
  "select_disk a dk w =
     (let reg_device = BIT_DEV_MBS OR BIT_DEV_LBA;
          reg_device = (if dev_no dk = 1 then reg_device OR BIT_DEV_DEV else reg_device)
      in out_port a (reg_dev (chan w dk)) reg_device w)"

definition select_sector :: "'d ports \<Rightarrow> disk \<Rightarrow> u32 \<Rightarrow> u8 \<Rightarrow> 'd ide \<Rightarrow> ('d, 'd ide) ires" where
  "select_sector a dk lba cnt_secs w =
     bnd (assert_that (lba \<le> max_lba) ''lba <= max_lba'') (\<lambda>_.
     let channel = chan w dk;
         w = out_port a (reg_sect_cnt channel) cnt_secs w;
         w = out_port a (reg_lba_l channel) (ucast lba) w;
         w = out_port a (reg_lba_m channel) (ucast (drop_bit 8 lba)) w;
         w = out_port a (reg_lba_h channel) (ucast (drop_bit 16 lba)) w
     in Inr (out_port a (reg_dev channel)
          (ucast (ucast (BIT_DEV_MBS OR BIT_DEV_LBA OR (if dev_no dk = 1 then BIT_DEV_DEV else 0)) OR drop_bit 24 lba)) w))"

definition cmd_out :: "'d ports \<Rightarrow> disk \<Rightarrow> u8 \<Rightarrow> 'd ide \<Rightarrow> 'd ide" where
  "cmd_out a dk cmd w =
     (let w = upd_channel w (my_channel dk) (\<lambda>c. c\<lparr>expecting_intr := True\<rparr>)
      in out_port a (reg_cmd (chan w dk)) cmd w)"

definition size_in_byte :: "u8 \<Rightarrow> nat" where
  "size_in_byte sector_cnt = (if sector_cnt = 0 then 256 * 512 else unat sector_cnt * 512)"

definition read_from_sector :: "'d ports \<Rightarrow> disk \<Rightarrow> u8 \<Rightarrow> 'd ide \<Rightarrow> u8 list \<times> 'd ide" where
  "read_from_sector a dk sector_cnt w =
     (case pinsw a (reg_data (chan w dk)) (size_in_byte sector_cnt div 2) (hw w) of (bs, d) \<Rightarrow> (bs, w\<lparr>hw := d\<rparr>))"

definition write_to_sector :: "'d ports \<Rightarrow> disk \<Rightarrow> u8 list \<Rightarrow> u8 \<Rightarrow> 'd ide \<Rightarrow> 'd ide" where
  "write_to_sector a dk bs sector_cnt w =
     w\<lparr>hw := poutsw a (reg_data (chan w dk)) (take (size_in_byte sector_cnt) bs) (hw w)\<rparr>"

text \<open>
  \<open>time_limit -= 10 >= 0\<close> subtracts the value of a comparison, 1: \<open>n\<close> counts the turns that are left of the 29999. In a turn in which the
  controller is busy the thread sleeps, which is a \<open>Yield\<close>.
\<close>

definition read_status :: "'d ports \<Rightarrow> disk \<Rightarrow> 'd ide \<Rightarrow> u8 \<times> 'd ide" where
  "read_status a dk w = (case pin a (reg_status (chan w dk)) (hw w) of (s, d) \<Rightarrow> (s, w\<lparr>hw := d\<rparr>))"

primrec busy_wait_turns :: "'d ports \<Rightarrow> disk \<Rightarrow> nat \<Rightarrow> 'd ide \<Rightarrow> ('d, bool \<times> 'd ide) ires" where
  "busy_wait_turns a dk 0 w = Inr (False, w)"
| "busy_wait_turns a dk (Suc n) w =
     (case read_status a dk w of (s, w) \<Rightarrow>
      if s AND BIT_STAT_BSY = 0
      then (case read_status a dk w of (s, w) \<Rightarrow> Inr (s AND BIT_STAT_DRQ \<noteq> 0, w))
      else bnd (do_kst (\<lambda>k. mtime_sleep k 10) w) (busy_wait_turns a dk n))"

definition busy_wait :: "'d ports \<Rightarrow> disk \<Rightarrow> 'd ide \<Rightarrow> ('d, bool \<times> 'd ide) ires" where
  "busy_wait a dk w = (let time_limit = 30 * 1000 :: u16 in busy_wait_turns a dk (unat (time_limit - 1)) w)"

section \<open>The interrupt\<close>

definition intr_hd_handler :: "'d ports \<Rightarrow> u8 \<Rightarrow> 'd ide \<Rightarrow> ('d, 'd ide) ires" where
  "intr_hd_handler a irq w =
     bnd (assert_that (irq = 0x2e \<or> irq = 0x2f) ''irq_no == 0x2e || irq_no == 0x2f'') (\<lambda>_.
     let ch_no = unat (irq - 0x2e)
     in bnd (assert_that (irq_no (channels w ! ch_no) = irq) ''channel->irq_no == irq_no'') (\<lambda>_.
        if expecting_intr (channels w ! ch_no)
        then bnd (do_kst (\<lambda>k. sema_up k (Disk_done ch_no)) (upd_channel w ch_no (\<lambda>c. c\<lparr>expecting_intr := False\<rparr>))) (\<lambda>w.
             Inr (w\<lparr>hw := snd (pin a (reg_status (channels w ! ch_no)) (hw w))\<rparr>))
        else Inr w))"

text \<open>The processor masks interrupts on entry and \<open>iret\<close> restores the flags.\<close>

definition hd_interrupt :: "'d ports \<Rightarrow> u8 \<Rightarrow> 'd ide \<Rightarrow> ('d, 'd ide) ires" where
  "hd_interrupt a irq w =
     (let old = flags (kst w)
      in bnd (intr_hd_handler a irq (w\<lparr>kst := (kst w)\<lparr>flags := cli old\<rparr>\<rparr>)) (\<lambda>w. Inr (w\<lparr>kst := (kst w)\<lparr>flags := old\<rparr>\<rparr>)))"

section \<open>Reading and writing\<close>

text \<open>
  \<open>env\<close> is what happens between the end of the command and \<open>sema_down\<close>: the interrupt, when interrupts are on, or nothing. The rest of a
  group after \<open>sema_down\<close> is \<open>read_collect\<close>. Numbers of sectors are truncated to the 8 bits of the register.
\<close>

definition secs_op :: "u32 \<Rightarrow> u32 \<Rightarrow> u32" where
  "secs_op secs_done cnt_secs = (if secs_done + 256 \<le> cnt_secs then 256 else cnt_secs - secs_done)"

definition read_collect :: "'d ports \<Rightarrow> disk \<Rightarrow> u32 \<Rightarrow> 'd ide \<Rightarrow> ('d, u8 list \<times> 'd ide) ires" where
  "read_collect a dk op w =
     bnd (busy_wait a dk w) (\<lambda>(ok, w).
     if \<not> ok then Inl (Panic ''read sector failed'') else Inr (read_from_sector a dk (ucast op) w))"

definition read_group ::
  "'d ports \<Rightarrow> ('d ide \<Rightarrow> ('d, 'd ide) ires) \<Rightarrow> disk \<Rightarrow> u32 \<Rightarrow> u32 \<Rightarrow> 'd ide \<Rightarrow> ('d, u8 list \<times> 'd ide) ires" where
  "read_group a env dk lba op w =
     bnd (select_sector a dk lba (ucast op) w) (\<lambda>w.
     bnd (env (cmd_out a dk CMD_READ_SECTOR w)) (\<lambda>w.
     bnd (do_kst (\<lambda>k. sema_down k (Disk_done (my_channel dk))) w) (\<lambda>w.
     read_collect a dk op w)))"

partial_function (option) ide_read_loop ::
  "'d ports \<Rightarrow> ('d ide \<Rightarrow> ('d, 'd ide) ires) \<Rightarrow> disk \<Rightarrow> u32 \<Rightarrow> u32 \<Rightarrow> u32 \<Rightarrow> u8 list \<Rightarrow> 'd ide \<Rightarrow> ('d, u8 list \<times> 'd ide) ires option" where
  "ide_read_loop a env dk lba cnt_secs secs_done acc w =
     (if secs_done < cnt_secs then
        (case read_group a env dk (lba + secs_done) (secs_op secs_done cnt_secs) w of Inl x \<Rightarrow> Some (Inl x)
         | Inr r \<Rightarrow> ide_read_loop a env dk lba cnt_secs (secs_done + secs_op secs_done cnt_secs) (acc @ fst r) (snd r))
      else Some (Inr (acc, w)))"

definition ide_read ::
  "'d ports \<Rightarrow> ('d ide \<Rightarrow> ('d, 'd ide) ires) \<Rightarrow> disk \<Rightarrow> u32 \<Rightarrow> u32 \<Rightarrow> 'd ide \<Rightarrow> ('d, u8 list \<times> 'd ide) ires" where
  "ide_read a env dk lba cnt_secs w =
     bnd (assert_that (lba \<le> max_lba) ''lba <= max_lba'') (\<lambda>_.
     bnd (assert_that (0 < cnt_secs) ''sec_cnt > 0'') (\<lambda>_.
     bnd (do_kst (\<lambda>k. lock_acquire k (Channel_lock (my_channel dk))) w) (\<lambda>w.
     bnd (case ide_read_loop a env dk lba cnt_secs 0 [] (select_disk a dk w) of None \<Rightarrow> Inl Spin | Some r \<Rightarrow> r) (\<lambda>(bs, w).
     bnd (do_kst (\<lambda>k. lock_release k (Channel_lock (my_channel dk))) w) (\<lambda>w.
     Inr (bs, w))))))"

definition write_group ::
  "'d ports \<Rightarrow> ('d ide \<Rightarrow> ('d, 'd ide) ires) \<Rightarrow> disk \<Rightarrow> u32 \<Rightarrow> u32 \<Rightarrow> u8 list \<Rightarrow> 'd ide \<Rightarrow> ('d, 'd ide) ires" where
  "write_group a env dk lba op bs w =
     bnd (select_sector a dk lba (ucast op) w) (\<lambda>w.
     bnd (busy_wait a dk (cmd_out a dk CMD_WRITE_SECTOR w)) (\<lambda>(ok, w).
     if \<not> ok then Inl (Panic ''write sector failed'')
     else bnd (env (write_to_sector a dk bs (ucast op) w)) (\<lambda>w.
          do_kst (\<lambda>k. sema_down k (Disk_done (my_channel dk))) w)))"

partial_function (option) ide_write_loop ::
  "'d ports \<Rightarrow> ('d ide \<Rightarrow> ('d, 'd ide) ires) \<Rightarrow> disk \<Rightarrow> u32 \<Rightarrow> u8 list \<Rightarrow> u32 \<Rightarrow> u32 \<Rightarrow> 'd ide \<Rightarrow> ('d, 'd ide) ires option" where
  "ide_write_loop a env dk lba bs0 cnt_secs secs_done w =
     (if secs_done < cnt_secs then
        (case write_group a env dk (lba + secs_done) (secs_op secs_done cnt_secs) (drop (unat (secs_done * 512)) bs0) w of Inl x \<Rightarrow> Some (Inl x)
         | Inr w \<Rightarrow> ide_write_loop a env dk lba bs0 cnt_secs (secs_done + secs_op secs_done cnt_secs) w)
      else Some (Inr w))"

definition ide_write ::
  "'d ports \<Rightarrow> ('d ide \<Rightarrow> ('d, 'd ide) ires) \<Rightarrow> disk \<Rightarrow> u32 \<Rightarrow> u8 list \<Rightarrow> u32 \<Rightarrow> 'd ide \<Rightarrow> ('d, 'd ide) ires" where
  "ide_write a env dk lba bs0 cnt_secs w =
     bnd (assert_that (lba \<le> max_lba) ''lba <= max_lba'') (\<lambda>_.
     bnd (assert_that (0 < cnt_secs) ''sec_cnt > 0'') (\<lambda>_.
     bnd (do_kst (\<lambda>k. lock_acquire k (Channel_lock (my_channel dk))) w) (\<lambda>w.
     bnd (case ide_write_loop a env dk lba bs0 cnt_secs 0 (select_disk a dk w) of None \<Rightarrow> Inl Spin | Some r \<Rightarrow> r) (\<lambda>w.
     do_kst (\<lambda>k. lock_release k (Channel_lock (my_channel dk))) w))))"

section \<open>Identification and start\<close>

text \<open>\<open>idx\<close> is a \<open>uint8_t\<close>; \<open>n\<close> counts the pairs that are left.\<close>

primrec swap_pairs_loop :: "u8 list \<Rightarrow> u8 list \<Rightarrow> u8 \<Rightarrow> nat \<Rightarrow> u8 list" where
  "swap_pairs_loop dst bs0 idx 0 = bs0[unat idx := 0]"
| "swap_pairs_loop dst bs0 idx (Suc n) =
     swap_pairs_loop (drop 2 dst) (bs0[unat (idx + 1) := dst ! 0, unat idx := dst ! 1]) (idx + 2) n"

definition swap_pairs_bytes :: "u8 list \<Rightarrow> u8 list \<Rightarrow> u32 \<Rightarrow> u8 list" where
  "swap_pairs_bytes dst bs0 len = swap_pairs_loop dst bs0 0 ((unat len + 1) div 2)"

text \<open>The result is what is printed: the serial number, the model and the number of sectors. \<open>garbage\<close> is what the buffer holds before.\<close>

definition identify_disk ::
  "'d ports \<Rightarrow> ('d ide \<Rightarrow> ('d, 'd ide) ires) \<Rightarrow> disk \<Rightarrow> u8 list \<Rightarrow> 'd ide \<Rightarrow> ('d, (u8 list \<times> u8 list \<times> u32) \<times> 'd ide) ires" where
  "identify_disk a env dk garbage w =
     bnd (env (cmd_out a dk CMD_IDENTIFY (select_disk a dk w))) (\<lambda>w.
     bnd (do_kst (\<lambda>k. sema_down k (Disk_done (my_channel dk))) w) (\<lambda>w.
     bnd (busy_wait a dk w) (\<lambda>(ok, w).
     if \<not> ok then Inl (Panic ''identify failed'')
     else (case read_from_sector a dk 1 w of (id_info, w) \<Rightarrow>
        let sn = swap_pairs_bytes (drop (10 * 2) id_info) garbage 20;
            md = swap_pairs_bytes (drop (27 * 2) id_info) (replicate 64 0) 40
        in Inr ((takeWhile (\<lambda>c. c \<noteq> 0) sn, takeWhile (\<lambda>c. c \<noteq> 0) md, word_at id_info (60 * 2)), w)))))"

text \<open>
  \<open>ide_init\<close>: \<open>scan\<close> is the call of \<open>partition_scan\<close>, which only the second disk of a channel gets. \<open>n\<close> counts the disks
  and channels that are left; \<open>text\<close> collects what \<open>identify_disk\<close> prints.
\<close>

definition new_disk :: "nat \<Rightarrow> u8 \<Rightarrow> disk \<Rightarrow> disk" where
  "new_disk channel_no dev dk =
     dk\<lparr>disk_name := [115, 100, 97 + of_nat channel_no * 2 + dev], my_channel := channel_no, dev_no := dev\<rparr>"

primrec init_devices ::
  "'d ports \<Rightarrow> ('d ide \<Rightarrow> ('d, 'd ide) ires) \<Rightarrow> (disk \<Rightarrow> 'd ide \<Rightarrow> ('d, 'd ide) ires) \<Rightarrow> u8 list \<Rightarrow> disk \<Rightarrow> nat \<Rightarrow> u8 \<Rightarrow> nat \<Rightarrow> 'd ide \<Rightarrow>
   ('d, 'd ide) ires" where
  "init_devices a env scan garbage blank channel_no dev 0 w = Inr w"
| "init_devices a env scan garbage blank channel_no dev (Suc n) w =
     (let dk = new_disk channel_no dev blank
      in bnd (identify_disk a env dk garbage w) (\<lambda>(_, w).
         bnd (if dev \<noteq> 0 then scan dk w else Inr w) (\<lambda>w.
         init_devices a env scan garbage blank channel_no (dev + 1) n w)))"

definition init_channel :: "u32 \<Rightarrow> nat \<Rightarrow> 'd ide \<Rightarrow> ('d, 'd ide) ires" where
  "init_channel handler channel_no w =
     (if length (channels w) \<le> channel_no then Inl (Fault ''channels[channel_no]'')
      else let w = upd_channel w channel_no (\<lambda>c. c\<lparr>chan_name := [105, 100, 101] @ decimal channel_no\<rparr>);
               w = upd_channel w channel_no (\<lambda>c.
                 if channel_no = 0 then c\<lparr>port_base := 0x1f0, irq_no := 0x20 + 14\<rparr>
                 else if channel_no = 1 then c\<lparr>port_base := 0x170, irq_no := 0x20 + 15\<rparr> else c);
               w = upd_channel w channel_no (\<lambda>c. c\<lparr>expecting_intr := False\<rparr>);
               w = w\<lparr>kst := lock_init (kst w) (Channel_lock channel_no)\<rparr>;
               w = w\<lparr>kst := sema_init (kst w) (Disk_done channel_no) 0\<rparr>
           in bnd (register_handler (irq_no (channels w ! channel_no)) handler (idts w)) (\<lambda>i. Inr (w\<lparr>idts := i\<rparr>)))"

primrec init_channels ::
  "'d ports \<Rightarrow> ('d ide \<Rightarrow> ('d, 'd ide) ires) \<Rightarrow> (disk \<Rightarrow> 'd ide \<Rightarrow> ('d, 'd ide) ires) \<Rightarrow> u8 list \<Rightarrow> disk \<Rightarrow> u32 \<Rightarrow> nat \<Rightarrow> nat \<Rightarrow> 'd ide \<Rightarrow>
   ('d, 'd ide) ires" where
  "init_channels a env scan garbage blank handler channel_no 0 w = Inr w"
| "init_channels a env scan garbage blank handler channel_no (Suc n) w =
     bnd (init_channel handler channel_no w) (\<lambda>w.
     bnd (init_devices a env scan garbage blank channel_no 0 2 w) (\<lambda>w.
     init_channels a env scan garbage blank handler (channel_no + 1) n w))"

text \<open>The number of disks is a byte that the BIOS leaves at \<open>0x475\<close>. The partitions that are printed at the end are left out.\<close>

definition ide_init ::
  "'d ports \<Rightarrow> ('d ide \<Rightarrow> ('d, 'd ide) ires) \<Rightarrow> (disk \<Rightarrow> 'd ide \<Rightarrow> ('d, 'd ide) ires) \<Rightarrow> u8 list \<Rightarrow> disk \<Rightarrow> u32 \<Rightarrow> 'd ide \<Rightarrow> ('d, 'd ide) ires" where
  "ide_init a env scan garbage blank handler w =
     (let hd_cnt = vmem (kst w) 0x475
      in bnd (assert_that (0 < hd_cnt) ''hd_cnt > 0'') (\<lambda>_.
         init_channels a env scan garbage blank handler 0 (unat (ucast (DIV_ROUND_UP (ucast hd_cnt) 2) :: u8)) w))"

section \<open>What the standard says about the controller\<close>

text \<open>The outputs of one command: the registers of the count and the address, and then the command.\<close>

definition ata_cmd :: "'d ports \<Rightarrow> u16 \<Rightarrow> u8 \<Rightarrow> u32 \<Rightarrow> u8 \<Rightarrow> u8 \<Rightarrow> 'd \<Rightarrow> 'd" where
  "ata_cmd a base drv lba n cmd d =
     pout a (base + 7) cmd
       (pout a (base + 6) (drv OR ucast (drop_bit 24 lba))
          (pout a (base + 5) (ucast (drop_bit 16 lba))
             (pout a (base + 4) (ucast (drop_bit 8 lba))
                (pout a (base + 3) (ucast lba) (pout a (base + 2) n d)))))"

text \<open>
  A drive that makes no errors goes through these phases in a command for one sector. After \<open>READ SECTOR(S)\<close> it is busy until it has fetched
  the sector; then it raises the interrupt and offers the data. After \<open>WRITE SECTOR(S)\<close> it may be busy for a while, then asks for the data, without an
  interrupt; when it has them it is busy until they are stored, and raises the interrupt. The standard has such a cycle for every single
  sector of a longer command, while the driver transfers all sectors of a command in one go: a command for more than one sector is
  outside what the standard allows, and outside the theorems.
\<close>

datatype ata_phase = Idle | Fetching u32 | Sending "u8 list" | Accepting u32 | Taking u32 | Storing u32 "u8 list"

text \<open>
  \<open>img\<close> are the sectors of the drive, \<open>phase\<close> is its phase and \<open>fin\<close> the end of its work, which raises the interrupt. The data are there (\<open>DRQ\<close>) when
  the drive is not busy (\<open>BSY\<close>) and offers data or asks for them.
\<close>

primrec status_ok :: "ata_phase \<Rightarrow> u8 \<Rightarrow> ata_phase \<Rightarrow> bool" where
  "status_ok Idle s p \<longleftrightarrow> p = Idle"
| "status_ok (Fetching l) s p \<longleftrightarrow> s AND 0x80 \<noteq> 0 \<and> p = Fetching l"
| "status_ok (Sending bs) s p \<longleftrightarrow> s AND 0x80 = 0 \<and> s AND 8 \<noteq> 0 \<and> p = Sending bs"
| "status_ok (Accepting l) s p \<longleftrightarrow> (if s AND 0x80 \<noteq> 0 then p = Accepting l else p = Taking l)"
| "status_ok (Taking l) s p \<longleftrightarrow> s AND 0x80 = 0 \<and> s AND 8 \<noteq> 0 \<and> p = Taking l"
| "status_ok (Storing l bs) s p \<longleftrightarrow> s AND 0x80 \<noteq> 0 \<and> p = Storing l bs"

definition ata_drive :: "'d ports \<Rightarrow> u16 \<Rightarrow> u8 \<Rightarrow> ('d \<Rightarrow> u32 \<Rightarrow> u8 list) \<Rightarrow> ('d \<Rightarrow> ata_phase) \<Rightarrow> ('d \<Rightarrow> 'd) \<Rightarrow> bool" where
  "ata_drive a base drv img phase fin \<longleftrightarrow>
     (\<forall>d l. length (img d l) = 512) \<and>
     (\<forall>d v. phase d = Idle \<longrightarrow> phase (pout a (base + 6) v d) = Idle \<and> img (pout a (base + 6) v d) = img d) \<and>
     (\<forall>d lba. phase d = Idle \<and> lba \<le> max_lba \<longrightarrow>
        phase (ata_cmd a base drv lba 1 0x20 d) = Fetching lba \<and> img (ata_cmd a base drv lba 1 0x20 d) = img d) \<and>
     (\<forall>d lba. phase d = Idle \<and> lba \<le> max_lba \<longrightarrow>
        phase (ata_cmd a base drv lba 1 0x30 d) = Accepting lba \<and> img (ata_cmd a base drv lba 1 0x30 d) = img d) \<and>
     (\<forall>d. case pin a (base + 7) d of (s, d') \<Rightarrow> status_ok (phase d) s (phase d') \<and> img d' = img d) \<and>
     (\<forall>d l. phase d = Fetching l \<longrightarrow> phase (fin d) = Sending (img d l) \<and> img (fin d) = img d) \<and>
     (\<forall>d bs. phase d = Sending bs \<longrightarrow> (case pinsw a base 256 d of (bs', d') \<Rightarrow> bs' = bs \<and> phase d' = Idle \<and> img d' = img d)) \<and>
     (\<forall>d l bs. phase d = Taking l \<and> length bs = 512 \<longrightarrow>
        phase (poutsw a base bs d) = Storing l bs \<and> img (poutsw a base bs d) = img d) \<and>
     (\<forall>d l bs. phase d = Storing l bs \<longrightarrow> phase (fin d) = Idle \<and> img (fin d) = (img d)(l := bs))"

section \<open>One sector\<close>

definition drv_bits :: "disk \<Rightarrow> u8" where
  "drv_bits dk = BIT_DEV_MBS OR BIT_DEV_LBA OR (if dev_no dk = 1 then BIT_DEV_DEV else 0)"

text \<open>What happens while the driver is on its way to \<open>sema_down\<close>: the drive ends its work, and the interrupt comes.\<close>

abbreviation disk_intr :: "'d ports \<Rightarrow> ('d \<Rightarrow> 'd) \<Rightarrow> disk \<Rightarrow> 'd ide \<Rightarrow> ('d, 'd ide) ires" where
  "disk_intr a fin dk \<equiv> \<lambda>w. hd_interrupt a (0x2e + of_nat (my_channel dk)) (w\<lparr>hw := fin (hw w)\<rparr>)"

text \<open>The driver between two commands, on a drive as the standard describes it.\<close>

definition driver_ok :: "'d ports \<Rightarrow> disk \<Rightarrow> ('d \<Rightarrow> u32 \<Rightarrow> u8 list) \<Rightarrow> ('d \<Rightarrow> ata_phase) \<Rightarrow> ('d \<Rightarrow> 'd) \<Rightarrow> 'd ide \<Rightarrow> bool" where
  "driver_ok a dk img phase fin w \<longleftrightarrow>
     my_channel dk < 2 \<and> length (channels w) = 2 \<and> irq_no (chan w dk) = 0x2e + of_nat (my_channel dk) \<and>
     ata_drive a (port_base (chan w dk)) (drv_bits dk) img phase fin \<and> phase (hw w) = Idle \<and>
     disk_done (kst w) (my_channel dk) = \<lparr>value = 0, waiters = []\<rparr>"

lemma do_kst_eq: "f (kst w) = Inr k \<Longrightarrow> do_kst f w = Inr (w\<lparr>kst := k\<rparr>)"
  by (simp add: do_kst_def)

lemma issue:
  assumes "lba \<le> max_lba" "my_channel dk < length (channels w)"
  shows "\<exists>w1. select_sector a dk lba n w = Inr w1 \<and>
    cmd_out a dk cmd w1 = (upd_channel w (my_channel dk) (\<lambda>c. c\<lparr>expecting_intr := True\<rparr>))
      \<lparr>hw := ata_cmd a (port_base (chan w dk)) (drv_bits dk) lba n cmd (hw w)\<rparr>"
proof -
  have u: "ucast (ucast (drv_bits dk) OR drop_bit 24 lba) = drv_bits dk OR ucast (drop_bit 24 lba)"
    by (rule bit_eqI) (auto simp: bit_simps)
  show ?thesis
    using assms
    by (simp add: select_sector_def cmd_out_def out_port_def chan_def upd_channel_def ata_cmd_def reg_sect_cnt_def reg_lba_l_def
        reg_lba_m_def reg_lba_h_def reg_dev_def reg_cmd_def reg_status_def Let_def u [unfolded drv_bits_def] drv_bits_def)
qed

lemma two_cases: "c < (2 :: nat) \<Longrightarrow> c = 0 \<or> c = 1"
  by auto

lemma irq_channel:
  assumes "c < 2"
  shows "unat (0x2e + of_nat c - 0x2e :: u8) = c" "(0x2e + of_nat c :: u8) = 0x2e \<or> (0x2e + of_nat c :: u8) = 0x2f"
  using two_cases [OF assms] by auto

text \<open>The interrupt comes before \<open>sema_down\<close>, which then takes the semaphore at once.\<close>

lemma interrupt_first:
  assumes c: "c < 2" "length (channels w) = 2" "irq_no (channels w ! c) = 0x2e + of_nat c" "expecting_intr (channels w ! c)"
    and d: "disk_done (kst w) c = \<lparr>value = 0, waiters = []\<rparr>"
  shows "bnd (hd_interrupt a (0x2e + of_nat c) w) (do_kst (\<lambda>k. sema_down k (Disk_done c))) =
    Inr ((upd_channel w c (\<lambda>c. c\<lparr>expecting_intr := False\<rparr>))\<lparr>hw := snd (pin a (port_base (channels w ! c) + 7) (hw w))\<rparr>)"
proof -
  let ?k = "(kst w)\<lparr>flags := cli (flags (kst w))\<rparr>" and ?w1 = "upd_channel w c (\<lambda>c. c\<lparr>expecting_intr := False\<rparr>)"
  let ?done = "(disk_done (kst w))(c := \<lparr>value = 1, waiters = []\<rparr>)"
  have up: "sema_up ?k (Disk_done c) = Inr (?k\<lparr>disk_done := ?done\<rparr>)"
    using d by (subst sema_up_no_waiters) (simp_all add: sema_at_def upd_sema_def)
  have "hd_interrupt a (0x2e + of_nat c) w =
      Inr (?w1\<lparr>kst := (kst w)\<lparr>disk_done := ?done\<rparr>, hw := snd (pin a (port_base (channels w ! c) + 7) (hw w))\<rparr>)"
    using c up irq_channel [OF c(1)]
    by (simp add: hd_interrupt_def intr_hd_handler_def do_kst_def upd_channel_def reg_status_def Let_def)
  moreover have "sema_down ((kst w)\<lparr>disk_done := ?done\<rparr>) (Disk_done c) = Inr (kst w)"
    using d by (subst sema_down_free) (simp_all add: sema_at_def upd_sema_def fun_upd_idem)
  ultimately show ?thesis by (simp add: do_kst_def upd_channel_def)
qed

lemma busy_wait_two:
  assumes "pin a (port_base (chan w dk) + 7) (hw w) = (s, d)" "s AND 0x80 = 0" "pin a (port_base (chan w dk) + 7) d = (s', d')" "s' AND 8 \<noteq> 0"
  shows "busy_wait a dk w = Inr (True, w\<lparr>hw := d'\<rparr>)"
proof -
  have "busy_wait a dk w = busy_wait_turns a dk (Suc 29998) w" by (simp add: busy_wait_def)
  then show ?thesis
    unfolding busy_wait_turns.simps using assms
    by (simp add: read_status_def reg_status_def BIT_STAT_BSY_def BIT_STAT_DRQ_def chan_def)
qed

lemma ata_driveD:
  assumes "ata_drive a base drv img phase fin"
  shows "phase d = Idle \<Longrightarrow> phase (pout a (base + 6) v d) = Idle" "phase d = Idle \<Longrightarrow> img (pout a (base + 6) v d) = img d"
    "phase d = Idle \<Longrightarrow> lba \<le> max_lba \<Longrightarrow> phase (ata_cmd a base drv lba 1 0x20 d) = Fetching lba \<and> img (ata_cmd a base drv lba 1 0x20 d) = img d"
    "phase d = Idle \<Longrightarrow> lba \<le> max_lba \<Longrightarrow> phase (ata_cmd a base drv lba 1 0x30 d) = Accepting lba \<and> img (ata_cmd a base drv lba 1 0x30 d) = img d"
    "phase d = Fetching l \<Longrightarrow> phase (fin d) = Sending (img d l) \<and> img (fin d) = img d"
    "phase d = Taking l \<Longrightarrow> length bs = 512 \<Longrightarrow> phase (poutsw a base bs d) = Storing l bs \<and> img (poutsw a base bs d) = img d"
    "phase d = Storing l bs \<Longrightarrow> phase (fin d) = Idle \<and> img (fin d) = (img d)(l := bs)"
  using assms by (simp_all add: ata_drive_def)

lemma ata_drive_ports:
  assumes "ata_drive a base drv img phase fin"
  shows "pin a (base + 7) d = (s, d') \<Longrightarrow> status_ok (phase d) s (phase d') \<and> img d' = img d"
    "phase d = Sending bs \<Longrightarrow> pinsw a base 256 d = (bs', d') \<Longrightarrow> bs' = bs \<and> phase d' = Idle \<and> img d' = img d"
proof -
  have p: "\<forall>d. case pin a (base + 7) d of (s, d') \<Rightarrow> status_ok (phase d) s (phase d') \<and> img d' = img d"
    using assms unfolding ata_drive_def by (elim conjE)
  have q: "\<forall>d bs. phase d = Sending bs \<longrightarrow> (case pinsw a base 256 d of (bs', d') \<Rightarrow> bs' = bs \<and> phase d' = Idle \<and> img d' = img d)"
    using assms unfolding ata_drive_def by (elim conjE)
  from p [rule_format, of d] q [rule_format, of d bs]
  show "pin a (base + 7) d = (s, d') \<Longrightarrow> status_ok (phase d) s (phase d') \<and> img d' = img d"
    "phase d = Sending bs \<Longrightarrow> pinsw a base 256 d = (bs', d') \<Longrightarrow> bs' = bs \<and> phase d' = Idle \<and> img d' = img d"
    by simp_all
qed

lemma driver_ok_view:
  assumes ok: "driver_ok a dk img phase fin w" and s: "kst w' = kst w" "phase (hw w') = Idle"
    "channels w' = (channels w)[my_channel dk := (chan w dk)\<lparr>expecting_intr := b\<rparr>]"
  shows "driver_ok a dk img phase fin w'"
  using assms by (auto simp: driver_ok_def chan_def)

lemma read_group_ok:
  assumes ok: "driver_ok a dk img phase fin w" and lba: "lba \<le> max_lba"
  shows "\<exists>w'. read_group a (disk_intr a fin dk) dk lba 1 w = Inr (img (hw w) lba, w') \<and>
    driver_ok a dk img phase fin w' \<and> kst w' = kst w \<and> img (hw w') = img (hw w)"
proof -
  let ?c = "my_channel dk" and ?b = "port_base (chan w dk)" and ?bs = "img (hw w) lba"
  have c: "?c < 2" "length (channels w) = 2" "irq_no (channels w ! ?c) = 0x2e + of_nat ?c" "disk_done (kst w) ?c = \<lparr>value = 0, waiters = []\<rparr>"
    and at: "ata_drive a ?b (drv_bits dk) img phase fin" and idle: "phase (hw w) = Idle"
    using ok by (auto simp: driver_ok_def chan_def)
  note A = ata_driveD [OF at] and S = ata_drive_ports [OF at]
  define d1 where "d1 = ata_cmd a ?b (drv_bits dk) lba 1 0x20 (hw w)"
  have p1: "phase (fin d1) = Sending ?bs" "img (fin d1) = img (hw w)"
    using A(3) [OF idle lba] A(5) [of d1 lba] by (simp_all add: d1_def)
  let ?w1 = "(upd_channel w ?c (\<lambda>c. c\<lparr>expecting_intr := True\<rparr>))\<lparr>hw := d1\<rparr>"
  obtain w0 where w0: "select_sector a dk lba 1 w = Inr w0" "cmd_out a dk CMD_READ_SECTOR w0 = ?w1"
    using issue [OF lba, where dk = dk and w = w and n = 1 and a = a and cmd = CMD_READ_SECTOR] c by (auto simp: CMD_READ_SECTOR_def d1_def)
  obtain s2 d2 where d2: "pin a (?b + 7) (fin d1) = (s2, d2)" by (cases "pin a (?b + 7) (fin d1)")
  obtain s3 d3 where d3: "pin a (?b + 7) d2 = (s3, d3)" by (cases "pin a (?b + 7) d2")
  obtain s4 d4 where d4: "pin a (?b + 7) d3 = (s4, d4)" by (cases "pin a (?b + 7) d3")
  obtain bs d5 where d5: "pinsw a ?b 256 d4 = (bs, d5)" by (cases "pinsw a ?b 256 d4")
  have q2: "phase d2 = Sending ?bs" "img d2 = img (hw w)" using S(1) [OF d2] p1 by simp_all
  have q3: "phase d3 = Sending ?bs" "img d3 = img (hw w)" "s3 AND 0x80 = 0" using S(1) [OF d3] q2 by simp_all
  have q4: "phase d4 = Sending ?bs" "img d4 = img (hw w)" "s4 AND 8 \<noteq> 0" using S(1) [OF d4] q3 by simp_all
  have q5: "bs = ?bs" "phase d5 = Idle" "img d5 = img (hw w)" using S(2) [OF q4(1) d5] q4(2) by simp_all
  define w2 where "w2 = (upd_channel ?w1 ?c (\<lambda>c. c\<lparr>expecting_intr := False\<rparr>))\<lparr>hw := d2\<rparr>"
  have v2: "chan w2 dk = (chan w dk)\<lparr>expecting_intr := False\<rparr>" "kst w2 = kst w"
      "channels w2 = (channels w)[?c := (chan w dk)\<lparr>expecting_intr := False\<rparr>]" "hw w2 = d2"
    using c(1,2) by (simp_all add: w2_def upd_channel_def chan_def)
  have "bnd (disk_intr a fin dk ?w1) (do_kst (\<lambda>k. sema_down k (Disk_done ?c))) = Inr w2"
    using interrupt_first [OF c(1), where w = "?w1\<lparr>hw := fin d1\<rparr>" and a = a] c d2 by (simp add: upd_channel_def chan_def w2_def)
  moreover have "busy_wait a dk w2 = Inr (True, w2\<lparr>hw := d4\<rparr>)"
    using busy_wait_two [of a w2 dk s3 d3 s4 d4] d3 d4 q3(3) q4(3) by (simp add: v2)
  ultimately have "read_group a (disk_intr a fin dk) dk lba 1 w = Inr (?bs, w2\<lparr>hw := d5\<rparr>)"
    using w0 d5 q5(1) v2(1)
    by (simp add: read_group_def read_collect_def read_from_sector_def size_in_byte_def reg_data_def chan_def flip: bnd_assoc)
  moreover have "driver_ok a dk img phase fin (w2\<lparr>hw := d5\<rparr>)" by (rule driver_ok_view [OF ok]) (simp_all add: v2 q5)
  ultimately show ?thesis using q5(3) v2(2) by auto
qed

text \<open>The drive asks for the data of a write command before the driver looks for the first time; otherwise the driver sleeps in \<open>busy_wait\<close>.\<close>

definition asks_at_once :: "'d ports \<Rightarrow> disk \<Rightarrow> u32 \<Rightarrow> 'd ide \<Rightarrow> bool" where
  "asks_at_once a dk lba w \<longleftrightarrow>
     (let base = port_base (chan w dk); d = ata_cmd a base (drv_bits dk) lba 1 0x30 (pout a (base + 6) (drv_bits dk) (hw w))
      in fst (pin a (base + 7) d) AND 0x80 = 0)"

lemma write_group_ok:
  assumes ok: "driver_ok a dk img phase fin w" and lba: "lba \<le> max_lba" and bs: "length bs = 512"
    and ask: "fst (pin a (port_base (chan w dk) + 7) (ata_cmd a (port_base (chan w dk)) (drv_bits dk) lba 1 0x30 (hw w))) AND 0x80 = 0"
  shows "\<exists>w'. write_group a (disk_intr a fin dk) dk lba 1 bs w = Inr w' \<and> driver_ok a dk img phase fin w' \<and> kst w' = kst w \<and>
    img (hw w') = (img (hw w))(lba := bs) \<and> chan w' dk = (chan w dk)\<lparr>expecting_intr := False\<rparr>"
proof -
  let ?c = "my_channel dk" and ?b = "port_base (chan w dk)"
  have c: "?c < 2" "length (channels w) = 2" "irq_no (channels w ! ?c) = 0x2e + of_nat ?c" "disk_done (kst w) ?c = \<lparr>value = 0, waiters = []\<rparr>"
    and at: "ata_drive a ?b (drv_bits dk) img phase fin" and idle: "phase (hw w) = Idle"
    using ok by (auto simp: driver_ok_def chan_def)
  note A = ata_driveD [OF at] and S = ata_drive_ports [OF at]
  define d1 where "d1 = ata_cmd a ?b (drv_bits dk) lba 1 0x30 (hw w)"
  have p1: "phase d1 = Accepting lba" "img d1 = img (hw w)" using A(4) [OF idle lba] by (simp_all add: d1_def)
  let ?w1 = "(upd_channel w ?c (\<lambda>c. c\<lparr>expecting_intr := True\<rparr>))\<lparr>hw := d1\<rparr>"
  obtain w0 where w0: "select_sector a dk lba 1 w = Inr w0" "cmd_out a dk CMD_WRITE_SECTOR w0 = ?w1"
    using issue [OF lba, where dk = dk and w = w and n = 1 and a = a and cmd = CMD_WRITE_SECTOR] c by (auto simp: CMD_WRITE_SECTOR_def d1_def)
  obtain s2 d2 where d2: "pin a (?b + 7) d1 = (s2, d2)" by (cases "pin a (?b + 7) d1")
  obtain s3 d3 where d3: "pin a (?b + 7) d2 = (s3, d3)" by (cases "pin a (?b + 7) d2")
  have s2: "s2 AND 0x80 = 0" using ask d2 by (simp add: d1_def)
  have q2: "phase d2 = Taking lba" "img d2 = img (hw w)" using S(1) [OF d2] p1 s2 by simp_all
  have q3: "phase d3 = Taking lba" "img d3 = img (hw w)" "s3 AND 8 \<noteq> 0" using S(1) [OF d3] q2 by simp_all
  define d4 where "d4 = poutsw a ?b bs d3"
  have q4: "phase (fin d4) = Idle" "img (fin d4) = (img (hw w))(lba := bs)"
    using A(6) [OF q3(1) bs] A(7) [of d4 lba bs] q3(2) by (simp_all add: d4_def)
  obtain s5 d5 where d5: "pin a (?b + 7) (fin d4) = (s5, d5)" by (cases "pin a (?b + 7) (fin d4)")
  have q5: "phase d5 = Idle" "img d5 = (img (hw w))(lba := bs)" using S(1) [OF d5] q4 by simp_all
  define w2 where "w2 = (upd_channel ?w1 ?c (\<lambda>c. c\<lparr>expecting_intr := False\<rparr>))\<lparr>hw := d5\<rparr>"
  have v1: "chan ?w1 dk = (chan w dk)\<lparr>expecting_intr := True\<rparr>" using c(1,2) by (simp add: upd_channel_def chan_def)
  have v2: "chan w2 dk = (chan w dk)\<lparr>expecting_intr := False\<rparr>" "kst w2 = kst w"
      "channels w2 = (channels w)[?c := (chan w dk)\<lparr>expecting_intr := False\<rparr>]" "hw w2 = d5"
    using c(1,2) by (simp_all add: w2_def upd_channel_def chan_def)
  have "busy_wait a dk ?w1 = Inr (True, ?w1\<lparr>hw := d3\<rparr>)"
    using busy_wait_two [of a ?w1 dk s2 d2 s3 d3] d2 d3 s2 q3(3) by (simp add: v1)
  moreover have "write_to_sector a dk bs 1 (?w1\<lparr>hw := d3\<rparr>) = ?w1\<lparr>hw := d4\<rparr>"
    using v1 bs by (simp add: write_to_sector_def size_in_byte_def reg_data_def chan_def d4_def)
  moreover have "bnd (disk_intr a fin dk (?w1\<lparr>hw := d4\<rparr>)) (do_kst (\<lambda>k. sema_down k (Disk_done ?c))) = Inr w2"
    using interrupt_first [OF c(1), where w = "?w1\<lparr>hw := fin d4\<rparr>" and a = a] c d5 by (simp add: upd_channel_def chan_def w2_def)
  ultimately have "write_group a (disk_intr a fin dk) dk lba 1 bs w = Inr w2" using w0 by (simp add: write_group_def)
  moreover have "driver_ok a dk img phase fin w2" by (rule driver_ok_view [OF ok]) (simp_all add: v2 q5)
  ultimately show ?thesis using q5(2) v2 by auto
qed

section \<open>The calls\<close>

text \<open>The driver with the lock of the channel free.\<close>

definition driver_idle :: "'d ports \<Rightarrow> disk \<Rightarrow> ('d \<Rightarrow> u32 \<Rightarrow> u8 list) \<Rightarrow> ('d \<Rightarrow> ata_phase) \<Rightarrow> ('d \<Rightarrow> 'd) \<Rightarrow> 'd ide \<Rightarrow> bool" where
  "driver_idle a dk img phase fin w \<longleftrightarrow> driver_ok a dk img phase fin w \<and>
     locks (kst w) (Channel_lock (my_channel dk)) = free_lock \<and> running_thread (kst w) \<noteq> NULL"

lemma driver_start:
  assumes "driver_idle a dk img phase fin w"
  defines "k1 \<equiv> (kst w)\<lparr>locks := (locks (kst w))(Channel_lock (my_channel dk) := held_lock (running_thread (kst w)))\<rparr>"
  shows "do_kst (\<lambda>k. lock_acquire k (Channel_lock (my_channel dk))) w = Inr (w\<lparr>kst := k1\<rparr>)"
    "driver_ok a dk img phase fin (select_disk a dk (w\<lparr>kst := k1\<rparr>))" "kst (select_disk a dk (w\<lparr>kst := k1\<rparr>)) = k1"
    "img (hw (select_disk a dk (w\<lparr>kst := k1\<rparr>))) = img (hw w)"
    "hw (select_disk a dk (w\<lparr>kst := k1\<rparr>)) = pout a (port_base (chan w dk) + 6) (drv_bits dk) (hw w)"
    "chan (select_disk a dk (w\<lparr>kst := k1\<rparr>)) dk = chan w dk"
    "kst w' = k1 \<Longrightarrow> do_kst (\<lambda>k. lock_release k (Channel_lock (my_channel dk))) w' = Inr (w'\<lparr>kst := kst w\<rparr>)"
proof -
  let ?l = "Channel_lock (my_channel dk)"
  have l: "locks (kst w) ?l = free_lock" "running_thread (kst w) \<noteq> NULL" and ok: "driver_ok a dk img phase fin w"
    using assms(1) by (simp_all add: driver_idle_def)
  show "do_kst (\<lambda>k. lock_acquire k ?l) w = Inr (w\<lparr>kst := k1\<rparr>)" using lock_acquire_free [OF l] by (simp add: do_kst_def k1_def)
  have at: "ata_drive a (port_base (chan w dk)) (drv_bits dk) img phase fin" and idle: "phase (hw w) = Idle"
    using ok by (simp_all add: driver_ok_def)
  have s: "select_disk a dk (w\<lparr>kst := k1\<rparr>) = w\<lparr>kst := k1, hw := pout a (port_base (chan w dk) + 6) (drv_bits dk) (hw w)\<rparr>"
    by (simp add: select_disk_def out_port_def reg_dev_def chan_def drv_bits_def Let_def or.assoc)
  note i = ata_driveD(1,2) [OF at idle, where v = "drv_bits dk"]
  show "img (hw (select_disk a dk (w\<lparr>kst := k1\<rparr>))) = img (hw w)" "kst (select_disk a dk (w\<lparr>kst := k1\<rparr>)) = k1"
    "hw (select_disk a dk (w\<lparr>kst := k1\<rparr>)) = pout a (port_base (chan w dk) + 6) (drv_bits dk) (hw w)"
    "chan (select_disk a dk (w\<lparr>kst := k1\<rparr>)) dk = chan w dk" unfolding s using i by (simp_all add: chan_def)
  show "driver_ok a dk img phase fin (select_disk a dk (w\<lparr>kst := k1\<rparr>))"
    unfolding s using ok i by (simp add: driver_ok_def chan_def k1_def)
  have "lock_release k1 ?l = Inr (kst w)"
    using lock_release_held [of k1 ?l] l(1) by (simp add: k1_def running_thread_def fun_upd_idem)
  then show "kst w' = k1 \<Longrightarrow> do_kst (\<lambda>k. lock_release k ?l) w' = Inr (w'\<lparr>kst := kst w\<rparr>)" by (simp add: do_kst_def)
qed

lemma driver_idle_end:
  assumes "driver_idle a dk img phase fin w" "driver_ok a dk img phase fin w'"
  shows "driver_idle a dk img phase fin (w'\<lparr>kst := kst w\<rparr>)"
  using assms by (simp add: driver_idle_def driver_ok_def chan_def)

lemma one_group: "secs_op 0 1 = 1"
  by (simp add: secs_op_def word_le_nat_alt)

lemma ide_read_image:
  assumes id: "driver_idle a dk img phase fin w" and lba: "lba \<le> max_lba"
  shows "\<exists>w'. ide_read a (disk_intr a fin dk) dk lba 1 w = Inr (img (hw w) lba, w') \<and>
    driver_idle a dk img phase fin w' \<and> kst w' = kst w \<and> img (hw w') = img (hw w)"
proof -
  define w0 where "w0 = select_disk a dk (w\<lparr>kst := (kst w)\<lparr>locks := (locks (kst w))(Channel_lock (my_channel dk) := held_lock (running_thread (kst w)))\<rparr>\<rparr>)"
  note st = driver_start [OF id, folded w0_def]
  obtain w' where w': "read_group a (disk_intr a fin dk) dk lba 1 w0 = Inr (img (hw w) lba, w')"
      "driver_ok a dk img phase fin w'" "kst w' = kst w0" "img (hw w') = img (hw w)"
    using read_group_ok [OF st(2) lba] unfolding st(4) by blast
  have "ide_read_loop a (disk_intr a fin dk) dk lba 1 0 [] w0 = Some (Inr (img (hw w) lba, w'))"
    using w'(1) by (simp add: ide_read_loop.simps [of _ _ _ _ 1 0] ide_read_loop.simps [of _ _ _ _ 1 1] one_group)
  then have "ide_read a (disk_intr a fin dk) dk lba 1 w = Inr (img (hw w) lba, w'\<lparr>kst := kst w\<rparr>)"
    using lba st(7) [OF w'(3) [unfolded st(3)]] by (simp only: ide_read_def assert_that_simps bnd.simps st(1) w0_def [symmetric]) simp
  then show ?thesis using driver_idle_end [OF id w'(2)] w'(4) by auto
qed

lemma ide_write_image:
  assumes id: "driver_idle a dk img phase fin w" and lba: "lba \<le> max_lba" and data: "length data = 512" and ask: "asks_at_once a dk lba w"
  shows "\<exists>w'. ide_write a (disk_intr a fin dk) dk lba data 1 w = Inr w' \<and>
    driver_idle a dk img phase fin w' \<and> kst w' = kst w \<and> img (hw w') = (img (hw w))(lba := data)"
proof -
  define w0 where "w0 = select_disk a dk (w\<lparr>kst := (kst w)\<lparr>locks := (locks (kst w))(Channel_lock (my_channel dk) := held_lock (running_thread (kst w)))\<rparr>\<rparr>)"
  note st = driver_start [OF id, folded w0_def]
  have ask0: "fst (pin a (port_base (chan w0 dk) + 7) (ata_cmd a (port_base (chan w0 dk)) (drv_bits dk) lba 1 0x30 (hw w0))) AND 0x80 = 0"
    using ask unfolding st(5,6) asks_at_once_def Let_def .
  obtain w' where w': "write_group a (disk_intr a fin dk) dk lba 1 data w0 = Inr w'"
      "driver_ok a dk img phase fin w'" "kst w' = kst w0" "img (hw w') = (img (hw w))(lba := data)"
    using write_group_ok [OF st(2) lba data ask0] unfolding st(4) by blast
  have "ide_write_loop a (disk_intr a fin dk) dk lba data 1 0 w0 = Some (Inr w')"
    using w'(1) by (simp add: ide_write_loop.simps [of _ _ _ _ _ 1 0] ide_write_loop.simps [of _ _ _ _ _ 1 1] one_group)
  then have "ide_write a (disk_intr a fin dk) dk lba data 1 w = Inr (w'\<lparr>kst := kst w\<rparr>)"
    using lba st(7) [OF w'(3) [unfolded st(3)]] by (simp only: ide_write_def assert_that_simps bnd.simps st(1) w0_def [symmetric]) simp
  then show ?thesis using driver_idle_end [OF id w'(2)] w'(4) by auto
qed

text \<open>
  C38: On a drive as the standard describes it, \<open>ide_read\<close> of one sector, when the drive is done while the driver is not yet waiting, returns what \<open>disk_read\<close> of the file
  system returns on the sectors of the drive: the command reaches the drive with the address of the sector, the interrupt with its read of the status and the semaphore leave the data where they are, and
  after the call the sectors are unchanged, the drive is idle, the lock is free and the semaphore down again.
\<close>

theorem ide_read_refines:
  assumes "driver_idle a dk img phase fin w" "lba \<le> max_lba" "sectors s = img (hw w)"
  shows "\<exists>bs w'. disk_read s lba 1 = Inr bs \<and> ide_read a (disk_intr a fin dk) dk lba 1 w = Inr (bs, w') \<and>
    driver_idle a dk img phase fin w' \<and> kst w' = kst w \<and> img (hw w') = img (hw w)"
  using ide_read_image [OF assms(1,2)] assms(2,3) by (simp add: disk_read_def groups_ok_def)

text \<open>
  C39: On such a drive, which asks for the data before the driver looks for the first time, \<open>ide_write\<close> of one sector puts the data on the drive, as \<open>disk_write\<close> of the file
  system does, and \<open>ide_read\<close> of the same sector then returns them.
\<close>

theorem ide_write_read:
  assumes id: "driver_idle a dk img phase fin w" and lba: "lba \<le> max_lba" and s: "sectors s = img (hw w)"
    and data: "length data = 512" and ask: "asks_at_once a dk lba w"
  shows "\<exists>w1 w2. ide_write a (disk_intr a fin dk) dk lba data 1 w = Inr w1 \<and>
    disk_write s lba data 1 = Inr (s\<lparr>sectors := img (hw w1)\<rparr>) \<and>
    ide_read a (disk_intr a fin dk) dk lba 1 w1 = Inr (data, w2) \<and>
    driver_idle a dk img phase fin w2 \<and> kst w2 = kst w \<and> img (hw w2) = img (hw w1)"
proof -
  from ide_write_image [OF id lba data ask] obtain w1 where w1: "ide_write a (disk_intr a fin dk) dk lba data 1 w = Inr w1"
    "driver_idle a dk img phase fin w1" "kst w1 = kst w" "img (hw w1) = (img (hw w))(lba := data)" by blast
  from ide_read_image [OF w1(2) lba] obtain w2 where
    w2: "ide_read a (disk_intr a fin dk) dk lba 1 w1 = Inr (data, w2)" "driver_idle a dk img phase fin w2"
      "kst w2 = kst w1" "img (hw w2) = img (hw w1)" unfolding w1(4) by auto
  have "(\<lambda>x. if unat (x - lba) < 1 then sub data (512 * unat (x - lba)) 512 else img (hw w) x) = (img (hw w))(lba := data)"
    using data by (auto simp: fun_eq_iff sub_def unat_eq_0)
  then have "disk_write s lba data 1 = Inr (s\<lparr>sectors := img (hw w1)\<rparr>)"
    unfolding w1(4) disk_write_def s using lba by (simp only: groups_ok_def) simp
  then show ?thesis using w1 w2 by auto
qed

section \<open>A drive\<close>

text \<open>A controller with its registers and the sectors of one drive.\<close>

record ata_dev =
  r_cnt :: u8
  r_low :: u8
  r_mid :: u8
  r_high :: u8
  r_dev :: u8
  r_phase :: ata_phase
  r_img :: "u32 \<Rightarrow> u8 list"

definition dev_lba :: "ata_dev \<Rightarrow> u32" where
  "dev_lba d = ucast (r_low d) OR push_bit 8 (ucast (r_mid d)) OR push_bit 16 (ucast (r_high d)) OR push_bit 24 (ucast (r_dev d AND 0xf))"

definition padded :: "(u32 \<Rightarrow> u8 list) \<Rightarrow> u32 \<Rightarrow> u8 list" where
  "padded f = (\<lambda>l. take 512 (f l @ replicate 512 0))"

primrec phase_status :: "ata_phase \<Rightarrow> u8" where
  "phase_status Idle = 0x40"
| "phase_status (Fetching l) = 0xc0"
| "phase_status (Sending bs) = 0x48"
| "phase_status (Accepting l) = 0x48"
| "phase_status (Taking l) = 0x48"
| "phase_status (Storing l bs) = 0xc0"

definition demo_ports :: "ata_dev ports" where
  "demo_ports = \<lparr>
     pout = (\<lambda>p v d.
       if p = 0x1f2 then d\<lparr>r_cnt := v\<rparr> else if p = 0x1f3 then d\<lparr>r_low := v\<rparr> else if p = 0x1f4 then d\<lparr>r_mid := v\<rparr>
       else if p = 0x1f5 then d\<lparr>r_high := v\<rparr> else if p = 0x1f6 then d\<lparr>r_dev := v\<rparr>
       else if p = 0x1f7 \<and> v = 0x20 \<and> r_cnt d = 1 then d\<lparr>r_phase := Fetching (dev_lba d)\<rparr>
       else if p = 0x1f7 \<and> v = 0x30 \<and> r_cnt d = 1 then d\<lparr>r_phase := Accepting (dev_lba d)\<rparr> else d),
     pin = (\<lambda>p d. (phase_status (r_phase d), case r_phase d of Accepting l \<Rightarrow> d\<lparr>r_phase := Taking l\<rparr> | _ \<Rightarrow> d)),
     pinsw = (\<lambda>p n d. case r_phase d of Sending bs \<Rightarrow> (take (2 * n) bs, d\<lparr>r_phase := Idle\<rparr>) | _ \<Rightarrow> ([], d)),
     poutsw = (\<lambda>p bs d. case r_phase d of Taking l \<Rightarrow> d\<lparr>r_phase := Storing l bs\<rparr> | _ \<Rightarrow> d)\<rparr>"

definition demo_fin :: "ata_dev \<Rightarrow> ata_dev" where
  "demo_fin d = (case r_phase d of Fetching l \<Rightarrow> d\<lparr>r_phase := Sending (padded (r_img d) l)\<rparr>
     | Storing l bs \<Rightarrow> d\<lparr>r_phase := Idle, r_img := (r_img d)(l := bs)\<rparr> | _ \<Rightarrow> d)"

lemma lba_bits:
  assumes "lba \<le> max_lba"
  shows "ucast (ucast lba :: u8) OR push_bit 8 (ucast (ucast (drop_bit 8 lba) :: u8)) OR push_bit 16 (ucast (ucast (drop_bit 16 lba) :: u8)) OR
    push_bit 24 (ucast ((0xe0 OR ucast (drop_bit 24 lba)) AND 0xf :: u8)) = lba"
proof -
  have m: "unat lba < 2 ^ 24" using assms by (simp add: word_le_nat_alt max_lba_def)
  then have "drop_bit 24 lba = 0" by (simp add: word_unat_eq_iff drop_bit_eq_div unat_div)
  moreover have "take_bit 24 lba = lba" using m by (simp add: word_unat_eq_iff take_bit_eq_mod unat_mod)
  then have b: "bit lba n \<Longrightarrow> n < 24" for n by (metis bit_take_bit_iff)
  have "ucast (ucast lba :: u8) OR push_bit 8 (ucast (ucast (drop_bit 8 lba) :: u8)) OR push_bit 16 (ucast (ucast (drop_bit 16 lba) :: u8)) = lba"
  proof (rule bit_eqI)
    fix n assume "possible_bit TYPE(u32) n"
    then show "bit (ucast (ucast lba :: u8) OR push_bit 8 (ucast (ucast (drop_bit 8 lba) :: u8)) OR
        push_bit 16 (ucast (ucast (drop_bit 16 lba) :: u8)) :: u32) n = bit lba n"
      by (cases "n < 16") (auto simp: bit_simps dest: b)
  qed
  ultimately show ?thesis by (simp add: or.assoc)
qed

lemma demo_cmd:
  assumes "lba \<le> max_lba"
  shows "r_phase (ata_cmd demo_ports 0x1f0 0xe0 lba 1 0x20 d) = Fetching lba"
    "r_phase (ata_cmd demo_ports 0x1f0 0xe0 lba 1 0x30 d) = Accepting lba"
    "r_img (ata_cmd demo_ports 0x1f0 0xe0 lba n c d) = r_img d"
  using lba_bits [OF assms] by (simp_all add: ata_cmd_def demo_ports_def dev_lba_def)

lemma padded_length [simp]: "length (padded f l) = 512"
  by (simp add: padded_def)

lemma padded_upd: "length bs = 512 \<Longrightarrow> padded (f(l := bs)) = (padded f)(l := bs)"
  by (auto simp: padded_def fun_eq_iff)

text \<open>What the demonstration drive has in its buffer is a sector.\<close>

definition demo_phase :: "ata_dev \<Rightarrow> ata_phase" where
  "demo_phase d = (case r_phase d of Sending bs \<Rightarrow> Sending (take 512 bs)
     | Storing l bs \<Rightarrow> Storing l (take 512 (bs @ replicate 512 0)) | p \<Rightarrow> p)"

lemma demo_drive: "ata_drive demo_ports 0x1f0 0xe0 (\<lambda>d. padded (r_img d)) demo_phase demo_fin"
proof -
  have "padded (f(l := bs)) = (padded f)(l := take 512 (bs @ replicate 512 0))" for f l bs by (auto simp: padded_def fun_eq_iff)
  then show ?thesis
    unfolding ata_drive_def
    using demo_cmd
    by (auto simp: demo_phase_def demo_fin_def split: ata_phase.splits) (auto simp: demo_ports_def split: ata_phase.splits)
qed

definition demo_ide :: "ata_dev ide" where
  "demo_ide = \<lparr>kst = demo_kernel,
     hw = \<lparr>r_cnt = 0, r_low = 0, r_mid = 0, r_high = 0, r_dev = 0, r_phase = Idle, r_img = (\<lambda>l. [ucast l])\<rparr>,
     channels = replicate 2 \<lparr>chan_name = [], port_base = 0x1f0, irq_no = 0x2e, expecting_intr = False\<rparr>,
     idts = \<lparr>idt = [], idt_table = [], intr_name = [], port_log = []\<rparr>\<rparr>"

definition demo_disk :: disk where
  "demo_disk = \<lparr>disk_name = [115, 100, 97], my_channel = 0, dev_no = 0, prim_parts = [], logic_parts = []\<rparr>"

lemma demo_ide_view: "drv_bits demo_disk = 0xe0" "port_base (chan demo_ide demo_disk) = 0x1f0"
  by (simp_all add: drv_bits_def demo_disk_def BIT_DEV_MBS_def BIT_DEV_LBA_def chan_def demo_ide_def)

lemma demo_ide_idle: "driver_idle demo_ports demo_disk (\<lambda>d. padded (r_img d)) demo_phase demo_fin demo_ide"
  using demo_drive demo_ide_view unfolding driver_idle_def driver_ok_def
  by simp (simp add: demo_ide_def demo_disk_def demo_phase_def chan_def demo_kernel_def boot_kernel_def free_lock_def running_thread_def)

lemma demo_asks: "lba \<le> max_lba \<Longrightarrow> asks_at_once demo_ports demo_disk lba demo_ide"
proof -
  assume "lba \<le> max_lba"
  moreover have "fst (pin demo_ports p d) = phase_status (r_phase d)" for p d by (simp add: demo_ports_def)
  ultimately show ?thesis by (simp add: asks_at_once_def demo_ide_view demo_cmd)
qed

theorem ide_read_refines_witness:
  "\<exists>bs w'. disk_read (demo_tree\<lparr>sectors := padded (r_img (hw demo_ide))\<rparr>) 1000 1 = Inr bs \<and>
     ide_read demo_ports (disk_intr demo_ports demo_fin demo_disk) demo_disk 1000 1 demo_ide = Inr (bs, w') \<and> hd bs = 0xe8"
proof -
  have "(1000 :: u32) \<le> max_lba" by (simp add: max_lba_def)
  moreover from this have "disk_read (demo_tree\<lparr>sectors := padded (r_img (hw demo_ide))\<rparr>) 1000 1 = Inr bs \<Longrightarrow> hd bs = 0xe8" for bs
    by (auto simp: disk_read_def groups_ok_def padded_def demo_ide_def)
  ultimately show ?thesis
    using ide_read_refines [OF demo_ide_idle, of 1000 "demo_tree\<lparr>sectors := padded (r_img (hw demo_ide))\<rparr>"] by auto
qed

theorem ide_write_read_witness:
  "\<exists>w1 w2. ide_write demo_ports (disk_intr demo_ports demo_fin demo_disk) demo_disk 1000 (replicate 512 7) 1 demo_ide = Inr w1 \<and>
     ide_read demo_ports (disk_intr demo_ports demo_fin demo_disk) demo_disk 1000 1 w1 = Inr (replicate 512 7, w2)"
proof -
  have "(1000 :: u32) \<le> max_lba" by (simp add: max_lba_def)
  with ide_write_read [OF demo_ide_idle this, of "demo_tree\<lparr>sectors := padded (r_img (hw demo_ide))\<rparr>" "replicate 512 7"] demo_asks
  show ?thesis by auto
qed

end
