(* ===== verification/Format.thy ===== *)
theory Format
  imports Fscalls
begin

unbundle bit_operations_syntax

text \<open>
  \<open>partition_format\<close>, \<open>partition_mount\<close> and \<open>filesys_init\<close> of \<^verbatim>\<open>fs/fs.c\<close>: laying out a partition, reading
  its super block and bitmaps into memory, and the start of the file system. The disk is the
  one that carries the default partition.
\<close>

section \<open>The super block\<close>

text \<open>The number of bits that \<open>partition_format\<close> gives the bitmap of the blocks.\<close>

definition block_bitmap_bit_len :: "u32 \<Rightarrow> u32" where
  "block_bitmap_bit_len secs =
     (let used_secs = 1 + 1 + DIV_ROUND_UP MAX_FILES_PER_PART BITS_PER_SECTOR +
            DIV_ROUND_UP (sizeof_inode * MAX_FILES_PER_PART) SECTOR_SIZE;
          free_secs = secs - used_secs
      in free_secs - DIV_ROUND_UP free_secs BITS_PER_SECTOR)"

definition make_super :: "partition \<Rightarrow> super_block" where
  "make_super p =
     (let bitmap_lba = start_lba p + 2; bitmap_secs = DIV_ROUND_UP (block_bitmap_bit_len (sec_cnt p)) BITS_PER_SECTOR;
          inode_lba = bitmap_lba + bitmap_secs; inode_secs = DIV_ROUND_UP MAX_FILES_PER_PART BITS_PER_SECTOR;
          table_lba = inode_lba + inode_secs; table_secs = DIV_ROUND_UP (sizeof_inode * MAX_FILES_PER_PART) SECTOR_SIZE
      in \<lparr>sb_magic = 0x19590318, sb_sec_cnt = sec_cnt p, inode_cnt = MAX_FILES_PER_PART, part_lba_base = start_lba p,
          block_bitmap_lba = bitmap_lba, block_bitmap_secs = bitmap_secs, inode_bitmap_lba = inode_lba,
          inode_bitmap_secs = inode_secs, inode_table_lba = table_lba, inode_table_secs = table_secs,
          data_start_lba = table_lba + table_secs, root_inode_no = 0, dir_entry_size = of_nat sizeof_dir_entry\<rparr>)"

text \<open>The structure in memory; \<open>pad\<close> are its last 460 bytes, which nothing initialises.\<close>

definition super_words :: "super_block \<Rightarrow> u32 list" where
  "super_words b = [sb_magic b, sb_sec_cnt b, inode_cnt b, part_lba_base b, block_bitmap_lba b, block_bitmap_secs b,
     inode_bitmap_lba b, inode_bitmap_secs b, inode_table_lba b, inode_table_secs b, data_start_lba b, root_inode_no b,
     dir_entry_size b]"

definition super_bytes :: "super_block \<Rightarrow> u8 list \<Rightarrow> u8 list" where
  "super_bytes b pad = concat (map le32 (super_words b)) @ pad"

definition super_of_bytes :: "u8 list \<Rightarrow> super_block" where
  "super_of_bytes b =
     \<lparr>sb_magic = word_at b 0, sb_sec_cnt = word_at b 4, inode_cnt = word_at b 8, part_lba_base = word_at b 12,
      block_bitmap_lba = word_at b 16, block_bitmap_secs = word_at b 20, inode_bitmap_lba = word_at b 24,
      inode_bitmap_secs = word_at b 28, inode_table_lba = word_at b 32, inode_table_secs = word_at b 36,
      data_start_lba = word_at b 40, root_inode_no = word_at b 44, dir_entry_size = word_at b 48\<rparr>"

section \<open>Formatting\<close>

text \<open>
  The bitmap of the blocks in a cleared buffer: block 0 is taken, and so is everything from the byte that
  holds the last bits to the end of its sector, except the bits of that byte that the loop clears. The
  loop runs up to \<open>block_bitmap_last_bit\<close> itself.
\<close>

definition block_bits :: "nat \<Rightarrow> u8 list \<Rightarrow> u8 list fres" where
  "block_bits bit_len buf =
     (let buf = buf[0 := buf ! 0 OR 1]; last_byte = bit_len div 8; last_bit = bit_len mod 8; last_size = 512 - last_byte mod 512
      in if length buf < last_byte + last_size then Inl (Fault ''buf[block_bitmap_last_byte]'')
         else let buf = overlay buf last_byte (replicate last_size 0xff)
              in Inr (buf[last_byte := foldl (\<lambda>b i. b AND NOT (push_bit i 1)) (buf ! last_byte) [0..<Suc last_bit]]))"

definition partition_format :: "fsys \<Rightarrow> partition \<Rightarrow> u8 list \<Rightarrow> fsys fres" where
  "partition_format s p pad =
     (let b = make_super p
      in bnd (disk_write s (start_lba p + 1) (super_bytes b pad) 1) (\<lambda>s.
         let secs = max (max (block_bitmap_secs b) (inode_bitmap_secs b)) (inode_table_secs b);
             (buf, s) = fs_malloc s (secs * SECTOR_SIZE); zeros = replicate (unat (secs * SECTOR_SIZE)) 0
         in if buf = NULL then Inl (Fault ''buf'')
            else bnd (block_bits (unat (block_bitmap_bit_len (sec_cnt p))) zeros) (\<lambda>bm.
              bnd (disk_write s (block_bitmap_lba b) bm (unat (block_bitmap_secs b))) (\<lambda>s.
              bnd (disk_write s (inode_bitmap_lba b) (zeros[0 := zeros ! 0 OR 1]) (unat (inode_bitmap_secs b))) (\<lambda>s.
              bnd (disk_write s (inode_table_lba b)
                     (overlay zeros 0 (inode_bytes \<lparr>i_no = 0, i_size = dir_entry_size b * 2, i_open_cnt = 0, write_deny = False,
                        i_sectors = data_start_lba b # replicate 12 0\<rparr>)) (unat (inode_table_secs b))) (\<lambda>s.
              bnd (disk_write s (data_start_lba b)
                     (overlay (overlay zeros 0 (entry_bytes (raw_entry [dot] 0 FT_DIR)))
                        sizeof_dir_entry (entry_bytes (raw_entry [dot, dot] 0 FT_DIR))) 1) (\<lambda>s.
              fs_free s buf)))))))"

section \<open>Mounting\<close>

text \<open>\<open>ide_read\<close> into memory that outlives the call.\<close>

definition load_mem :: "bytes \<Rightarrow> u32 \<Rightarrow> u8 list \<Rightarrow> bytes" where
  "load_mem m a bs = (\<lambda>x. if unat (x - a) < length bs then bs ! unat (x - a) else m x)"

text \<open>
  \<open>partition_mount\<close> on the partition it looks for. Nothing frees \<open>sb_buf\<close>.
\<close>

definition partition_mount :: "fsys \<Rightarrow> partition \<Rightarrow> fsys fres" where
  "partition_mount s p =
     (let (sb_buf, s) = fs_malloc s SECTOR_SIZE; (sbp, s) = fs_malloc s 512
      in if sbp = NULL then Inl (Panic ''memory allocation failed'')
         else if sb_buf = NULL then Inl (Panic ''dst_ != NULL'')
         else bnd (disk_read s (start_lba p + 1) 1) (\<lambda>b.
           let sb = super_of_bytes b; n = block_bitmap_secs sb * SECTOR_SIZE; (bits1, s) = fs_malloc s n
           in if bits1 = NULL then Inl (Panic ''memory allocation failed'')
              else bnd (disk_read s (block_bitmap_lba sb) (unat (block_bitmap_secs sb))) (\<lambda>bs.
                let s = s\<lparr>fmem := load_mem (fmem s) bits1 bs\<rparr>;
                    k = inode_bitmap_secs sb * SECTOR_SIZE; (bits2, s) = fs_malloc s k
                in if bits2 = NULL then Inl (Panic ''memory allocation failed'')
                   else bnd (disk_read s (inode_bitmap_lba sb) (unat (inode_bitmap_secs sb))) (\<lambda>bs.
                     Inr (s\<lparr>fmem := load_mem (fmem s) bits2 bs,
                       part := \<lparr>start_lba = start_lba p, sec_cnt = sec_cnt p, sb = sb,
                         block_bitmap = \<lparr>btmp_bytes_len = n, bits = bits1\<rparr>,
                         inode_map = \<lparr>btmp_bytes_len = k, bits = bits2\<rparr>, open_inodes = []\<rparr>\<rparr>)))))"

section \<open>The start of the file system\<close>

text \<open>
  The scan of the twelve slots for partitions of the disk, formatting each that has no file system yet.
\<close>

primrec scan_parts :: "fsys \<Rightarrow> u8 list \<Rightarrow> partition list \<Rightarrow> fsys fres" where
  "scan_parts s pad [] = Inr s"
| "scan_parts s pad (p # ps) =
     bnd (if sec_cnt p \<noteq> 0 then
            bnd (disk_read s (start_lba p + 1) 1) (\<lambda>b.
            if sb_magic (super_of_bytes b) = 0x19590318 then Inr s else partition_format s p pad)
          else Inr s) (\<lambda>s. scan_parts s pad ps)"

text \<open>
  \<open>sdb1\<close> is the partition of that name in the list of partitions. The last loop clears the entries from 1 on; its last turn
  stores into \<open>file_table[32]\<close>, the word behind the table that \<open>past_table\<close> holds.
\<close>

definition filesys_init :: "fsys \<Rightarrow> u8 list \<Rightarrow> partition list \<Rightarrow> partition option \<Rightarrow> fsys fres" where
  "filesys_init s pad slots sdb1 =
     (let (sb_buf, s) = fs_malloc s SECTOR_SIZE
      in if sb_buf = NULL then Inl (Panic ''memory allocation failed'')
         else bnd (scan_parts s pad slots) (\<lambda>s.
              bnd (fs_free s sb_buf) (\<lambda>s.
              case sdb1 of
                None \<Rightarrow> Inl (Fault ''cur_part'')
              | Some p \<Rightarrow>
                  bnd (partition_mount s p) (\<lambda>s.
                  bnd (open_root_dir s) (\<lambda>s.
                  Inr (s\<lparr>file_table := take 1 (file_table s) @ map (\<lambda>f. f\<lparr>fd_inode := NULL\<rparr>) (drop 1 (file_table s)), past_table := NULL\<rparr>))))))"

section \<open>Writing regions\<close>

lemma outside:
  assumes "unat a + n < 2 ^ 32" "unat x < unat a \<or> unat a + n \<le> unat (x :: u32)"
  shows "\<not> unat (x - a) < n"
proof -
  have "unat x < 2 ^ 32" by (rule unat_less_u32)
  then show ?thesis using assms by (auto simp: unat_sub_if')
qed

lemma written_outside:
  "unat a + n < 2 ^ 32 \<Longrightarrow> unat x < unat a \<or> unat a + n \<le> unat x \<Longrightarrow> written f a d n x = f x"
  using outside by (simp add: written_def)

lemma written_take: "written f a (take (512 * n) d) n = written f a d n"
  by (auto simp: written_def sub_def fun_eq_iff drop_take min_def)

lemma length_written':
  "(\<And>a. length (f a) = 512) \<Longrightarrow> 512 * n \<le> length d \<Longrightarrow> length (written f a d n x) = 512"
  using length_written [of f "take (512 * n) d" n a x] by (simp add: written_take)

lemma image_written_same:
  assumes "\<And>a. length (f a) = 512" "512 * n \<le> length d" "n < 2 ^ 32"
  shows "disk_image (written f a d n) a n = take (512 * n) d"
proof -
  have "disk_image (written f (a + of_nat 0) (take (512 * n) d) n) a n = overlay (disk_image f a n) (512 * 0) (take (512 * n) d)"
    by (rule image_written [of f, OF assms(1)]) (use assms in simp_all)
  then show ?thesis using assms by (simp add: written_take overlay_def)
qed

lemma image_cong: "(\<And>i. i < n \<Longrightarrow> f (a + of_nat i) = g (a + of_nat i)) \<Longrightarrow> disk_image f a n = disk_image g a n"
  unfolding disk_image_def by (intro arg_cong [of _ _ concat] map_cong) simp_all

lemma image_outside:
  assumes "unat a + n < 2 ^ 32" "unat l + m < 2 ^ 32" "unat l + m \<le> unat a \<or> unat a + n \<le> unat l"
  shows "disk_image (written f a d n) l m = disk_image f l m"
proof (rule image_cong)
  fix i assume "i < m"
  then have "unat (l + of_nat i) = unat l + i" using assms(2) by (simp add: unat_word_ariths)
  then show "written f a d n (l + of_nat i) = f (l + of_nat i)"
    using assms \<open>i < m\<close> by (intro written_outside) auto
qed

lemma groups_ok_fit:
  assumes "0 < n" "unat lba + n \<le> unat max_lba + 1"
  shows "groups_ok lba n"
  unfolding groups_ok_def list_all_iff
proof
  fix c assume "c \<in> set [0..<(n + 255) div 256]"
  then have "c + 1 \<le> (n + 255) div 256" by simp
  then have "(c + 1) * 256 \<le> n + 255" by (simp add: less_eq_div_iff_mult_less_eq)
  then have "256 * c < n" by simp
  then have "unat (lba + of_nat (256 * c)) = unat lba + 256 * c" "unat lba + 256 * c \<le> unat max_lba"
    using assms(2) by (simp_all add: unat_word_ariths max_lba_unat)
  then show "lba + of_nat (256 * c) \<le> max_lba" by (simp only: word_le_nat_alt)
qed

lemma disk_many:
  assumes "0 < n" "unat lba + n \<le> unat max_lba + 1"
  shows "disk_read s lba n = Inr (disk_image (sectors s) lba n)"
    "disk_write s lba d n = Inr (s\<lparr>sectors := written (sectors s) lba d n\<rparr>)"
  using assms groups_ok_fit [OF assms] by (simp_all add: disk_read_def disk_write_def disk_image_def written_def)

section \<open>The layout\<close>

text \<open>In terms of the number \<open>n\<close> of sectors of the partition.\<close>

definition fmt_blocks :: "nat \<Rightarrow> nat" where
  "fmt_blocks n = n - 611 - (n - 611 + 4095) div 4096"

definition fmt_secs :: "nat \<Rightarrow> nat" where
  "fmt_secs n = (fmt_blocks n + 4095) div 4096"

definition fmt_fits :: "partition \<Rightarrow> bool" where
  "fmt_fits p \<longleftrightarrow> 700 \<le> unat (sec_cnt p) \<and> unat (start_lba p) + unat (sec_cnt p) + 4096 \<le> unat max_lba"

lemma unat_round_up:
  assumes "unat x + 4095 < 2 ^ 32"
  shows "unat (DIV_ROUND_UP x BITS_PER_SECTOR) = (unat x + 4095) div 4096"
proof -
  have "x + BITS_PER_SECTOR - 1 = x + 4095" by (simp add: BITS_PER_SECTOR_def)
  then have "unat (DIV_ROUND_UP x BITS_PER_SECTOR) = unat (x + 4095) div 4096"
    by (simp only: DIV_ROUND_UP_def unat_div) (simp add: BITS_PER_SECTOR_def)
  moreover have "unat (x + 4095) = unat x + 4095" using assms by (simp add: unat_word_ariths)
  ultimately show ?thesis by simp
qed

lemma fmt_bounds:
  assumes "700 \<le> n" "n \<le> 163839"
  shows "88 \<le> fmt_blocks n" "fmt_blocks n \<le> n - 612" "0 < fmt_secs n" "fmt_secs n \<le> 40" "fmt_secs n + 611 \<le> n"
    "fmt_blocks n \<le> 4096 * fmt_secs n" "4096 * fmt_secs n < fmt_blocks n + 4096"
    "fmt_blocks n + fmt_secs n \<le> n - 611"
  using assms unfolding fmt_secs_def fmt_blocks_def by linarith+

lemma fmt_bit_len:
  assumes "700 \<le> unat n" "unat n \<le> 163839"
  shows "unat (block_bitmap_bit_len n) = fmt_blocks (unat n)"
proof -
  have c: "DIV_ROUND_UP MAX_FILES_PER_PART BITS_PER_SECTOR = 1" "DIV_ROUND_UP (sizeof_inode * MAX_FILES_PER_PART) SECTOR_SIZE = 608"
    by (simp_all add: DIV_ROUND_UP_def MAX_FILES_PER_PART_def BITS_PER_SECTOR_def sizeof_inode_def SECTOR_SIZE_def)
  have f: "unat (n - 611) = unat n - 611" using assms by (simp add: unat_sub word_le_nat_alt)
  then have r: "unat (DIV_ROUND_UP (n - 611) BITS_PER_SECTOR) = (unat n - 611 + 4095) div 4096"
    using assms by (subst unat_round_up) simp_all
  have "unat (n - 611 - DIV_ROUND_UP (n - 611) BITS_PER_SECTOR) = fmt_blocks (unat n)"
    using assms by (subst unat_sub) (simp_all add: word_le_nat_alt r f fmt_blocks_def)
  then show ?thesis by (simp add: block_bitmap_bit_len_def c Let_def)
qed

lemma fmt_super:
  assumes "fmt_fits p"
  defines "b \<equiv> make_super p" and "k \<equiv> fmt_secs (unat (sec_cnt p))" and "a \<equiv> unat (start_lba p)"
  shows "block_bitmap_lba b = start_lba p + 2" "unat (block_bitmap_lba b) = a + 2" "unat (block_bitmap_secs b) = k"
    "unat (inode_bitmap_lba b) = a + 2 + k" "inode_bitmap_secs b = 1" "unat (inode_table_lba b) = a + 3 + k"
    "inode_table_secs b = 608" "unat (data_start_lba b) = a + 611 + k" "dir_entry_size b = 24" "root_inode_no b = 0"
    "sb_magic b = 0x19590318" "block_bitmap_secs b = of_nat k"
proof -
  have n: "700 \<le> unat (sec_cnt p)" "unat (sec_cnt p) \<le> 163839" "a + unat (sec_cnt p) \<le> 159743"
    using assms(1) by (simp_all add: fmt_fits_def max_lba_unat a_def)
  note bd = fmt_bounds [OF n(1,2)]
  have c: "DIV_ROUND_UP MAX_FILES_PER_PART BITS_PER_SECTOR = 1" "DIV_ROUND_UP (sizeof_inode * MAX_FILES_PER_PART) SECTOR_SIZE = 608"
    by (simp_all add: DIV_ROUND_UP_def MAX_FILES_PER_PART_def BITS_PER_SECTOR_def sizeof_inode_def SECTOR_SIZE_def)
  have k: "unat (DIV_ROUND_UP (block_bitmap_bit_len (sec_cnt p)) BITS_PER_SECTOR) = k"
    using bd n by (subst unat_round_up) (simp_all add: fmt_bit_len k_def fmt_secs_def)
  show "unat (block_bitmap_secs b) = k" using k by (simp add: b_def make_super_def Let_def)
  then show "block_bitmap_secs b = of_nat k" by (metis word_unat_eq_iff unat_of_nat_u32 unat_less_u32)
  show "block_bitmap_lba b = start_lba p + 2" "inode_bitmap_secs b = 1" "inode_table_secs b = 608" "dir_entry_size b = 24"
    "root_inode_no b = 0" "sb_magic b = 0x19590318"
    by (simp_all add: b_def make_super_def Let_def c sizeof_dir_entry_def)
  show "unat (block_bitmap_lba b) = a + 2" "unat (inode_bitmap_lba b) = a + 2 + k" "unat (inode_table_lba b) = a + 3 + k"
    "unat (data_start_lba b) = a + 611 + k"
    using n bd by (simp_all add: b_def make_super_def Let_def c unat_word_ariths k a_def k_def)
qed

lemma super_roundtrip: "super_of_bytes (super_bytes b pad) = b"
proof -
  have "word_at (super_bytes b pad) (4 * j) = super_words b ! j" if "j < 13" for j
    using concat_le32_nth [of j "super_words b" "[]" pad] that by (simp add: super_bytes_def super_words_def)
  from this [of 0] this [of 1] this [of 2] this [of 3] this [of 4] this [of 5] this [of 6] this [of 7] this [of 8] this [of 9]
    this [of 10] this [of 11] this [of 12]
  show ?thesis by (simp add: super_of_bytes_def super_words_def)
qed

lemma length_super_bytes: "length pad = 460 \<Longrightarrow> length (super_bytes b pad) = 512"
  by (simp add: super_bytes_def super_words_def)

lemma clear_bits: "bit (foldl (\<lambda>b i. b AND NOT (push_bit i 1)) w [0..<n]) j \<longleftrightarrow> bit (w :: u8) j \<and> n \<le> j"
  by (induction n) (auto simp: bit_simps not_less_eq_eq dest: bit_imp_le_length)

text \<open>The bitmap that is written: of the bits in its sectors, 0 is taken and all beyond \<open>len\<close>, but \<open>len\<close> itself is not.\<close>

lemma block_bits_eq:
  assumes len: "88 \<le> len" "len < 2 ^ 28" and k: "k = (len + 4095) div 4096" and n: "512 * k + 512 \<le> n"
  shows "\<exists>bm. block_bits len (replicate n 0) = Inr bm \<and> length bm = n \<and>
    (\<forall>j < 4096 * k. bit (bm ! (j div 8)) (j mod 8) \<longleftrightarrow> j = 0 \<or> len < j)"
proof -
  define l where "l = 512 - len div 8 mod 512"
  then have l: "0 < l" by simp
  let ?m = "len div 8" and ?b0 = "(replicate n 0)[0 := 1] :: u8 list"
  let ?b1 = "overlay ?b0 ?m (replicate l 0xff)"
  define bm where "bm = ?b1[?m := foldl (\<lambda>b i. b AND NOT (push_bit i 1)) (?b1 ! ?m) [0..<Suc (len mod 8)]]"
  have m: "x + (512 - x mod 512) = 512 * (x div 512 + 1)" for x :: nat
  proof -
    have "x + w = 512 * (q + 1)" if "r + w = 512" "x = 512 * q + r" for q r w :: nat using that by simp
    from this [of "x mod 512" "512 - x mod 512" "x div 512"] show ?thesis by (simp add: less_imp_le)
  qed
  have "?m div 512 = len div 4096" by (simp add: div_mult2_eq [symmetric])
  moreover have "len div 4096 \<le> k" using k by linarith
  ultimately have fit: "?m + l \<le> n" using m [of ?m] n by (simp add: l_def)
  have nn: "0 < n" "0 < ?m" using n len by simp_all
  have run: "block_bits len (replicate n 0) = Inr bm"
    using fit nn by (simp add: block_bits_def Let_def bm_def not_less l_def)
  have length: "length bm = n" "length ?b1 = n" using fit by (simp_all add: bm_def)
  have byte: "bm ! i = (if i = 0 then 1 else if i < ?m then 0
      else if i = ?m then foldl (\<lambda>b i. b AND NOT (push_bit i 1)) 0xff [0..<Suc (len mod 8)] else 0xff)"
    if "i < 512 * k" for i
  proof -
    have i: "i < n" using that n by simp
    have cov: "i < ?m + l" if "?m < i"
    proof -
      have q: "len = 4096 * (len div 4096) + len mod 4096" "len mod 4096 < 4096" by simp_all
      show ?thesis
      proof (cases "len mod 4096 = 0")
        case True
        then have "k = len div 4096" using q k by linarith
        then have "?m = 512 * k" using True q by linarith
        then show ?thesis using \<open>?m < i\<close> \<open>i < 512 * k\<close> by simp
      next
        case False
        then have "k = len div 4096 + 1" using q k by linarith
        then show ?thesis using m [of ?m] \<open>i < 512 * k\<close> \<open>?m div 512 = len div 4096\<close> by (simp add: l_def)
      qed
    qed
    have b1: "?b1 ! i = (if ?m \<le> i then 0xff else if i = 0 then 1 else 0)"
      using i fit nn l cov by (cases i ?m rule: linorder_cases) (auto simp: nth_overlay nth_list_update)
    show ?thesis
      using b1 i length(2) nn by (auto simp: bm_def nth_list_update simp del: upt_Suc)
  qed
  have "bit (bm ! (j div 8)) (j mod 8) \<longleftrightarrow> j = 0 \<or> len < j" if "j < 4096 * k" for j
  proof -
    have d: "j div 8 < 512 * k" using that by linarith
    have ff: "bit (0xff :: u8) i" if "i < 8" for i
    proof -
      have "(0xff :: u8) = - 1" by simp
      then show ?thesis using that by (simp only: bit_minus_1_iff) simp
    qed
    consider "j div 8 = 0" | "0 < j div 8" "j div 8 < ?m" | "j div 8 = ?m" | "?m < j div 8" by linarith
    then show ?thesis
    proof cases
      case 1
      then have "j < 8" "j mod 8 = j" by simp_all
      then show ?thesis using byte [OF d] 1 len by (auto simp: bit_1_iff)
    next
      case 2
      then have "j < len" "0 < j" by (auto simp: div_greater_zero_iff dest: div_le_mono [of len j 8])
      then show ?thesis using byte [OF d] 2 by simp
    next
      case 3
      have "len < j \<longleftrightarrow> Suc r \<le> w" if "len = 8 * q + r" "j = 8 * q + w" for q r w using that by auto
      from this [of ?m "len mod 8" "j mod 8"] have "len < j \<longleftrightarrow> Suc (len mod 8) \<le> j mod 8"
        using 3 by (metis mult_div_mod_eq)
      then show ?thesis
        using byte [OF d] 3 nn clear_bits [of "0xff" "Suc (len mod 8)" "j mod 8"] ff [of "j mod 8"] by (auto simp del: upt_Suc)
    next
      case 4
      then have "len < j" by linarith
      then show ?thesis using byte [OF d] 4 ff [of "j mod 8"] by simp
    qed
  qed
  then show ?thesis using run length(1) by blast
qed

section \<open>What formatting writes\<close>

definition fresh_root :: "super_block \<Rightarrow> inode" where
  "fresh_root b = \<lparr>i_no = 0, i_size = 48, i_open_cnt = 0, write_deny = False, i_sectors = data_start_lba b # replicate 12 0\<rparr>"

definition root_dots :: "dir_entry list" where
  "root_dots = [raw_entry [dot] 0 FT_DIR, raw_entry [dot, dot] 0 FT_DIR]"

text \<open>The disk \<open>F\<close> carries a new file system on the partition \<open>p\<close>.\<close>

definition formatted :: "partition \<Rightarrow> u8 list \<Rightarrow> (u32 \<Rightarrow> u8 list) \<Rightarrow> bool" where
  "formatted p pad F \<longleftrightarrow>
     (let b = make_super p; k = fmt_secs (unat (sec_cnt p))
      in (\<forall>a. length (F a) = 512) \<and> F (start_lba p + 1) = super_bytes b pad \<and>
         (\<forall>j < 4096 * k. bit (disk_image F (block_bitmap_lba b) k ! (j div 8)) (j mod 8) \<longleftrightarrow> j = 0 \<or> fmt_blocks (unat (sec_cnt p)) < j) \<and>
         F (inode_bitmap_lba b) = 1 # replicate 511 0 \<and>
         disk_image F (inode_table_lba b) 608 = overlay (replicate (512 * 608) 0) 0 (inode_bytes (fresh_root b)) \<and>
         F (data_start_lba b) = sector_of root_dots)"

lemma overlay_take: "off + length ys \<le> m \<Longrightarrow> m \<le> length xs \<Longrightarrow> take m (overlay xs off ys) = overlay (take m xs) off ys"
  by (rule nth_equalityI) (simp_all add: nth_overlay)

lemma root_dots_sector:
  assumes "512 \<le> n"
  shows "take 512 (overlay (overlay (replicate n 0) 0 (entry_bytes (raw_entry [dot] 0 FT_DIR)))
    sizeof_dir_entry (entry_bytes (raw_entry [dot, dot] 0 FT_DIR))) = sector_of root_dots"
proof -
  let ?e = "entry_bytes (raw_entry [dot] 0 FT_DIR)" and ?f = "entry_bytes (raw_entry [dot, dot] 0 FT_DIR)"
  have l: "length ?e = 24" "length ?f = 24"
    by (simp_all add: raw_entry_def entry_bytes_def name_len_def)
  have o1: "overlay (replicate 512 0) 0 ?e = ?e @ replicate 488 0" by (simp add: overlay_def l)
  have "overlay (?e @ replicate 488 0) 24 ?f = ?e @ ?f @ replicate 464 0" by (simp add: overlay_def l)
  then show ?thesis
    using assms o1 l by (simp add: overlay_take sizeof_dir_entry_def sector_of_def root_dots_def min_def)
qed

lemma written_one': "512 \<le> length d \<Longrightarrow> written f l d 1 = f(l := take 512 d)"
  using written_take [of f l 1 d] written_one [of "take 512 d" f l] by simp

lemma partition_format_disk:
  assumes ok: "disk_ok s" and fits: "fmt_fits p" and pad: "length pad = 460" and mem: "answers s = x # as" "x \<noteq> NULL"
  shows "\<exists>F. partition_format s p pad = Inr (s\<lparr>answers := as, sectors := F\<rparr>) \<and> formatted p pad F"
proof -
  define b where "b = make_super p"
  define k where "k = fmt_secs (unat (sec_cnt p))"
  define a where "a = unat (start_lba p)"
  have n: "700 \<le> unat (sec_cnt p)" "unat (sec_cnt p) \<le> 163839" "a + unat (sec_cnt p) \<le> 159743"
    using fits by (simp_all add: fmt_fits_def max_lba_unat a_def)
  note bd = fmt_bounds [OF n(1,2), folded k_def]
  note sb = fmt_super [OF fits, folded b_def k_def a_def]
  define N :: nat where "N = 311296"
  define d1 where "d1 = super_bytes b pad"
  define d3 where "d3 = (replicate N (0 :: u8))[0 := 1]"
  define d4 where "d4 = overlay (replicate N 0) 0 (inode_bytes (fresh_root b))"
  define d5 where "d5 = overlay (overlay (replicate N 0) 0 (entry_bytes (raw_entry [dot] 0 FT_DIR)))
    sizeof_dir_entry (entry_bytes (raw_entry [dot, dot] 0 FT_DIR))"
  have "512 * k + 512 \<le> N" using bd(4) by (simp add: N_def)
  moreover have "fmt_blocks (unat (sec_cnt p)) < 2 ^ 28" by (rule le_less_trans [OF bd(2)]) (use n in simp)
  ultimately obtain bm where
    bm: "block_bits (fmt_blocks (unat (sec_cnt p))) (replicate N 0) = Inr bm" "length bm = N"
      "\<forall>j < 4096 * k. bit (bm ! (j div 8)) (j mod 8) \<longleftrightarrow> j = 0 \<or> fmt_blocks (unat (sec_cnt p)) < j"
    using block_bits_eq [OF bd(1) _ k_def [unfolded fmt_secs_def]] by blast
  have len: "length d1 = 512" "length d3 = N" "length d4 = N" "length d5 = N"
    by (simp_all add: d1_def d3_def d4_def d5_def length_super_bytes pad N_def length_inode_bytes fresh_root_def raw_entry_def
      sizeof_dir_entry_def entry_bytes_def name_len_def)
  let ?A1 = "start_lba p + 1" and ?A2 = "block_bitmap_lba b" and ?A3 = "inode_bitmap_lba b" and ?A4 = "inode_table_lba b"
    and ?A5 = "data_start_lba b"
  define F1 where "F1 = written (sectors s) ?A1 d1 (Suc 0)"
  define F2 where "F2 = written F1 ?A2 bm k"
  define F3 where "F3 = written F2 ?A3 d3 (Suc 0)"
  define F4 where "F4 = written F3 ?A4 d4 608"
  define F5 where "F5 = written F4 ?A5 d5 (Suc 0)"
  have A1: "unat ?A1 = a + 1" using n by (simp add: unat_word_ariths a_def)
  have "max (max (block_bitmap_secs b) 1) 608 = (608 :: u32)"
    using bd(3,4) by (simp add: sb(12) max_def word_le_nat_alt)
  then have size: "unat (max (max (block_bitmap_secs b) (inode_bitmap_secs b)) (inode_table_secs b) * SECTOR_SIZE) = N"
    by (simp add: sb(5,7) SECTOR_SIZE_def N_def)
  have size0: "unat (dir_entry_size b * 2) = 48" "dir_entry_size b * 2 = 48" by (simp_all add: sb(9))
  have "(replicate N 0)[0 := replicate N 0 ! 0 OR 1] = d3" by (simp add: d3_def N_def)
  note eqs = this
  have "partition_format s p pad = Inr (s\<lparr>answers := as, sectors := F5\<rparr>)"
    using mem bm(1) disk_many(2) [of 1 ?A1] disk_many(2) [of k ?A2] disk_many(2) [of 1 ?A3] disk_many(2) [of 608 ?A4]
      disk_many(2) [of 1 ?A5] A1 sb n bd(3,4,5) size eqs fmt_bit_len [OF n(1,2)]
    by (simp add: partition_format_def b_def [symmetric] Let_def fs_malloc_def fs_free_def max_lba_unat size0(2) sb(5,7)
      fresh_root_def [symmetric] d1_def [symmetric] d4_def [symmetric] d5_def [symmetric]
      F1_def F2_def F3_def F4_def F5_def)
  moreover have "formatted p pad F5"
  proof -
    have f: "\<And>c. length (sectors s c) = 512" using ok by (simp add: disk_ok_def)
    have f1: "\<And>c. length (F1 c) = 512" unfolding F1_def by (rule length_written' [OF f]) (simp add: len)
    have f2: "\<And>c. length (F2 c) = 512" unfolding F2_def by (rule length_written' [OF f1]) (use bm(2) bd(4) in \<open>simp add: N_def\<close>)
    have f3: "\<And>c. length (F3 c) = 512" unfolding F3_def by (rule length_written' [OF f2]) (simp add: len N_def)
    have f4: "\<And>c. length (F4 c) = 512" unfolding F4_def by (rule length_written' [OF f3]) (simp add: len N_def)
    have f5: "\<And>c. length (F5 c) = 512" unfolding F5_def by (rule length_written' [OF f4]) (simp add: len N_def)
    have g: "a + 612 + k < 2 ^ 32" using n bd(5) by simp
    have e5: "F5 = F4(?A5 := sector_of root_dots)"
      unfolding F5_def using written_one' [of d5 F4 ?A5] len(4) root_dots_sector [of N] by (simp add: N_def d5_def)
    have e3: "F3 = F2(?A3 := 1 # replicate 511 0)"
    proof -
      have "take 512 d3 = 1 # replicate 511 0"
        by (rule nth_equalityI) (auto simp: d3_def N_def nth_list_update nth_Cons')
      then show ?thesis unfolding F3_def using written_one' [of d3 F2 ?A3] len(2) by (simp add: N_def)
    qed
    have e1: "F1 = (sectors s)(?A1 := d1)"
      unfolding F1_def using written_one' [of d1 "sectors s" ?A1] len(1) by simp
    have ne: "?A1 \<noteq> ?A5" "?A3 \<noteq> ?A5" "?A1 \<noteq> ?A3" using A1 sb(4,8) by (auto simp: word_unat_eq_iff)
    have "F4 ?A1 = F3 ?A1" "F4 ?A3 = F3 ?A3" "F2 ?A1 = F1 ?A1"
      unfolding F4_def F2_def by (rule written_outside; use A1 sb g in simp)+
    then have "F5 ?A1 = d1" "F5 ?A3 = 1 # replicate 511 0" using ne by (simp_all add: e5 e3 e1)
    moreover have "disk_image F5 ?A2 k = take (512 * k) bm"
    proof -
      have "disk_image F5 ?A2 k = disk_image F4 ?A2 k" unfolding F5_def by (rule image_outside) (use sb g in simp_all)
      also have "\<dots> = disk_image F3 ?A2 k" unfolding F4_def by (rule image_outside) (use sb g in simp_all)
      also have "\<dots> = disk_image F2 ?A2 k" unfolding F3_def by (rule image_outside) (use sb g in simp_all)
      also have "\<dots> = take (512 * k) bm"
        unfolding F2_def by (rule image_written_same [OF f1]) (use bm(2) bd(4) in \<open>simp_all add: N_def\<close>)
      finally show ?thesis .
    qed
    moreover have "disk_image F5 ?A4 608 = d4"
    proof -
      have "disk_image F5 ?A4 608 = disk_image F4 ?A4 608" unfolding F5_def by (rule image_outside) (use sb g in simp_all)
      also have "\<dots> = take (512 * 608) d4"
        unfolding F4_def by (rule image_written_same [OF f3]) (simp_all add: len N_def)
      finally show ?thesis by (simp add: len N_def)
    qed
    moreover have "F5 ?A5 = sector_of root_dots" by (simp add: e5)
    ultimately show ?thesis
      using f5 bm(3) by (auto simp: formatted_def Let_def b_def [symmetric] k_def [symmetric] d1_def d4_def N_def less_mult_imp_div_less)
  qed
  ultimately show ?thesis by blast
qed

section \<open>Scanning and mounting\<close>

lemma formatted_magic: "fmt_fits p \<Longrightarrow> formatted p pad F \<Longrightarrow> sb_magic (super_of_bytes (F (start_lba p + 1))) = 0x19590318"
  by (simp add: formatted_def Let_def super_roundtrip fmt_super)

lemma super_sector: "fmt_fits p \<Longrightarrow> start_lba p + 1 \<le> max_lba"
  by (simp add: fmt_fits_def max_lba_unat word_le_nat_alt unat_word_ariths)

lemma scan_formatted:
  assumes "fmt_fits p" "formatted p pad (sectors s)" "\<forall>q \<in> set slots. q = p \<or> sec_cnt q = 0"
  shows "scan_parts s pad slots = Inr s"
  using assms(3)
proof (induction slots)
  case (Cons q slots)
  show ?case
  proof (cases "sec_cnt q = 0")
    case False
    then have "q = p" using Cons.prems by simp
    then show ?thesis
      using Cons formatted_magic [OF assms(1,2)] disk_one(1) [OF super_sector [OF assms(1)]] by simp
  qed (use Cons in simp)
qed simp

lemma scan_formats:
  assumes "disk_ok s" "fmt_fits p" "length pad = 460" "answers s = x # as" "x \<noteq> NULL"
    "sb_magic (super_of_bytes (sectors s (start_lba p + 1))) \<noteq> 0x19590318"
    "p \<in> set slots" "\<forall>q \<in> set slots. q = p \<or> sec_cnt q = 0"
  shows "\<exists>F. scan_parts s pad slots = Inr (s\<lparr>answers := as, sectors := F\<rparr>) \<and> formatted p pad F"
  using assms(7,8)
proof (induction slots)
  case (Cons q slots)
  show ?case
  proof (cases "q = p")
    case True
    obtain F where F: "partition_format s p pad = Inr (s\<lparr>answers := as, sectors := F\<rparr>)" "formatted p pad F"
      using partition_format_disk [OF assms(1-5)] by blast
    have "sec_cnt p \<noteq> 0" using assms(2) by (auto simp: fmt_fits_def)
    then show ?thesis
      using True F assms(6) disk_one(1) [OF super_sector [OF assms(2)]] Cons.prems
        scan_formatted [of p pad "s\<lparr>answers := as, sectors := F\<rparr>" slots] assms(2) by (intro exI [of _ F]) simp
  next
    case False
    then have "sec_cnt q = 0" "p \<in> set slots" using Cons.prems by auto
    then show ?thesis using Cons by simp
  qed
qed simp

text \<open>The memory after the bitmaps were loaded.\<close>

definition mounted :: "fsys \<Rightarrow> partition \<Rightarrow> u32 \<Rightarrow> u32 \<Rightarrow> bytes" where
  "mounted s p b c = load_mem (load_mem (fmem s) b (disk_image (sectors s) (block_bitmap_lba (make_super p)) (fmt_secs (unat (sec_cnt p)))))
     c (sectors s (inode_bitmap_lba (make_super p)))"

definition mount_part :: "partition \<Rightarrow> u32 \<Rightarrow> u32 \<Rightarrow> partition" where
  "mount_part p b c = \<lparr>start_lba = start_lba p, sec_cnt = sec_cnt p, sb = make_super p,
     block_bitmap = \<lparr>btmp_bytes_len = of_nat (512 * fmt_secs (unat (sec_cnt p))), bits = b\<rparr>,
     inode_map = \<lparr>btmp_bytes_len = 512, bits = c\<rparr>, open_inodes = []\<rparr>"

lemma partition_mount_formatted:
  assumes fits: "fmt_fits p" and fmt: "formatted p pad (sectors s)"
    and mem: "answers s = a # b # c # d # as" "a \<noteq> NULL" "b \<noteq> NULL" "c \<noteq> NULL" "d \<noteq> NULL"
  shows "partition_mount s p =
    Inr (s\<lparr>answers := as, live := d # c # b # a # live s, fmem := mounted s p c d, part := mount_part p c d\<rparr>)"
proof -
  have n: "700 \<le> unat (sec_cnt p)" "unat (sec_cnt p) \<le> 163839" "unat (start_lba p) + unat (sec_cnt p) \<le> 159743"
    using fits by (simp_all add: fmt_fits_def max_lba_unat)
  note bd = fmt_bounds [OF n(1,2)]
  note sup = fmt_super [OF fits]
  have sb: "super_of_bytes (sectors s (start_lba p + 1)) = make_super p"
    using fmt by (simp add: formatted_def Let_def super_roundtrip)
  have "unat (start_lba p + 1) = unat (start_lba p) + 1" using n by (simp add: unat_word_ariths)
  then have r1: "disk_read t (start_lba p + 1) 1 = Inr (sectors t (start_lba p + 1))" for t
    using disk_one(1) super_sector [OF fits] by blast
  have r2: "disk_read t (block_bitmap_lba (make_super p)) (fmt_secs (unat (sec_cnt p))) =
      Inr (disk_image (sectors t) (block_bitmap_lba (make_super p)) (fmt_secs (unat (sec_cnt p))))" for t
    by (rule disk_many(1)) (use bd sup(2) n in \<open>simp_all add: max_lba_unat\<close>)
  have "inode_bitmap_lba (make_super p) \<le> max_lba" using sup(4) n bd by (simp add: word_le_nat_alt max_lba_unat)
  then have r3: "disk_read t (inode_bitmap_lba (make_super p)) 1 = Inr (sectors t (inode_bitmap_lba (make_super p)))" for t
    by (rule disk_one(1))
  show ?thesis
    using mem r1 r2 r3 sup(3,5) sb
    by (simp add: partition_mount_def Let_def fs_malloc_def mounted_def mount_part_def sup(12) SECTOR_SIZE_def mult.commute)
qed

section \<open>The new file system\<close>

text \<open>The state after the partition was mounted and the root directory was opened, with its i-node at the address \<open>r\<close>.\<close>

definition started :: "fsys \<Rightarrow> partition \<Rightarrow> (u32 \<Rightarrow> u8 list) \<Rightarrow> u32 \<Rightarrow> u32 \<Rightarrow> u32 \<Rightarrow> fsys \<Rightarrow> bool" where
  "started s p F b c r s' \<longleftrightarrow> sectors s' = F \<and> fmem s' = mounted (s\<lparr>sectors := F\<rparr>) p b c \<and>
     part s' = (mount_part p b c)\<lparr>open_inodes := [r]\<rparr> \<and> inodes s' r = (fresh_root (make_super p))\<lparr>i_open_cnt := 1\<rparr> \<and>
     dir_inode (dirs s' root_dir) = r \<and> dir_pose (dirs s' root_dir) = 0"

lemma started_layout:
  assumes fits: "fmt_fits p" and fmt: "formatted p pad F" and st: "started s p F b c r s'"
  shows "fs_ok s'" "blocks_fit (part s')" "disk_inode s' 0 = fresh_root (make_super p)"
proof -
  have n: "700 \<le> unat (sec_cnt p)" "unat (sec_cnt p) \<le> 163839" "unat (start_lba p) + unat (sec_cnt p) + 4096 \<le> 163839"
    using fits by (simp_all add: fmt_fits_def max_lba_unat)
  note bd = fmt_bounds [OF n(1,2)]
  note sup = fmt_super [OF fits]
  have p: "sectors s' = F" "part s' = (mount_part p b c)\<lparr>open_inodes := [r]\<rparr>" using st by (simp_all add: started_def)
  show ok: "fs_ok s'"
    using fmt sup bd n by (simp add: fs_ok_def disk_ok_def p formatted_def Let_def layout_ok_def mount_part_def max_lba_unat)
  have "unat (of_nat (512 * fmt_secs (unat (sec_cnt p))) :: u32) = 512 * fmt_secs (unat (sec_cnt p))"
    by (rule unat_of_nat_u32) (use bd in simp)
  then show "blocks_fit (part s')"
    using sup bd n by (simp add: blocks_fit_def p mount_part_def bm_wf_def bm_len_def max_lba_unat)
  have t: "itable s' = overlay (replicate (512 * 608) 0) 0 (inode_bytes (fresh_root (make_super p)))"
    using fmt by (simp add: itable_def p formatted_def Let_def mount_part_def)
  have "slot s' 0 = inode_bytes (fresh_root (make_super p))"
    using sub_overlay_same [of 0 "inode_bytes (fresh_root (make_super p))" "replicate (512 * 608) 0"]
    by (simp add: slot_def t length_inode_bytes fresh_root_def)
  then show "disk_inode s' 0 = fresh_root (make_super p)"
    by (simp add: disk_inode_def inode_bytes_roundtrip fresh_root_def)
qed

lemma started_free:
  assumes fits: "fmt_fits p" and fmt: "formatted p pad F" and st: "started s p F b c r s'"
    and apart: "unat b + 512 * fmt_secs (unat (sec_cnt p)) < 2 ^ 32" "unat c + 512 < 2 ^ 32"
      "unat b + 512 * fmt_secs (unat (sec_cnt p)) \<le> unat c \<or> unat c + 512 \<le> unat b"
  shows "free_blocks_of s' = {j. j < 4096 * fmt_secs (unat (sec_cnt p)) \<and> 0 < j \<and> j \<le> fmt_blocks (unat (sec_cnt p))}"
    "bm_len (block_bitmap (part s')) = 4096 * fmt_secs (unat (sec_cnt p))"
proof -
  define k where "k = fmt_secs (unat (sec_cnt p))"
  let ?img = "disk_image F (block_bitmap_lba (make_super p)) k"
  have n: "700 \<le> unat (sec_cnt p)" "unat (sec_cnt p) \<le> 163839" using fits by (simp_all add: fmt_fits_def max_lba_unat)
  note bd = fmt_bounds [OF n, folded k_def]
  have F: "\<And>a. length (F a) = 512" using fmt by (simp add: formatted_def Let_def)
  have "unat (of_nat (512 * k) :: u32) = 512 * k" by (rule unat_of_nat_u32) (use bd in simp)
  then show len: "bm_len (block_bitmap (part s')) = 4096 * fmt_secs (unat (sec_cnt p))"
    using st by (simp add: started_def mount_part_def bm_len_def k_def)
  have byte: "fmem s' (b + of_nat i) = ?img ! i" if "i < 512 * k" for i
  proof -
    have u: "unat (b + of_nat i) = unat b + i" "unat (of_nat i :: u32) = i"
      using that apart(1) by (simp_all add: unat_word_ariths k_def)
    have "\<not> unat (b + of_nat i - c) < 512"
      by (rule outside) (use apart u that in \<open>auto simp: k_def\<close>)
    then show ?thesis
      using st that u F by (simp add: started_def mounted_def load_mem_def k_def)
  qed
  have "bm_bit (fmem s') (block_bitmap (part s')) j \<longleftrightarrow> j = 0 \<or> fmt_blocks (unat (sec_cnt p)) < j" if "j < 4096 * k" for j
  proof -
    have "j div 8 < 512 * k" using that by linarith
    then show ?thesis
      using fmt st that byte [of "j div 8"] by (simp add: formatted_def Let_def k_def started_def mount_part_def bm_bit_def)
  qed
  then show "free_blocks_of s' = {j. j < 4096 * fmt_secs (unat (sec_cnt p)) \<and> 0 < j \<and> j \<le> fmt_blocks (unat (sec_cnt p))}"
    using len by (auto simp: free_blocks_of_def k_def not_less)
qed

lemma root_dots_ok: "\<forall>e \<in> set root_dots. entry_ok e" "length root_dots \<le> 21"
  by (simp_all add: root_dots_def entry_ok_def raw_entry_def name_len_def FT_UNKOWN_def FT_DIR_def)

lemma started_root:
  assumes fits: "fmt_fits p" and fmt: "formatted p pad F" and st: "started s p F b c r s'"
    and apart: "unat b + 512 * fmt_secs (unat (sec_cnt p)) < 2 ^ 32" "unat c + 512 < 2 ^ 32"
      "unat b + 512 * fmt_secs (unat (sec_cnt p)) \<le> unat c \<or> unat c + 512 \<le> unat b"
    and r: "r \<noteq> NULL"
  shows "entries_of s' 0 = root_dots" "tree_ok s'" "coherent s'"
proof -
  let ?d = "data_start_lba (make_super p)"
  note sup = fmt_super [OF fits]
  note lay = started_layout [OF fits fmt st]
  note free = started_free [OF fits fmt st apart]
  have p: "sectors s' = F" "part s' = (mount_part p b c)\<lparr>open_inodes := [r]\<rparr>" "F ?d = sector_of root_dots"
    using st fmt by (simp_all add: started_def formatted_def Let_def)
  have "unat ?d \<noteq> 0" using sup(8) by simp
  then have "?d \<noteq> 0" by (auto simp: unsigned_eq_0_iff)
  then have bs: "ino_blocks s' 0 = [?d]" by (simp add: ino_blocks_def lay fresh_root_def)
  show es: "entries_of s' 0 = root_dots" using sector_entries_of(1) [OF root_dots_ok] by (simp add: entries_of_def bs p)
  have "0 < bm_len (block_bitmap (part s'))"
    using fmt_bounds(3) [of "unat (sec_cnt p)"] fits by (simp only: free(2)) (simp add: fmt_fits_def max_lba_unat)
  moreover have "0 \<notin> free_blocks_of s'" "?d = block_addr s' 0" by (simp_all add: free(1) block_addr_def p mount_part_def)
  ultimately have u: "used_block s' ?d" unfolding used_block_def by blast
  have "disk_dir_ok s' 0"
    using sector_entries_of(2) [OF root_dots_ok]
    by (simp add: disk_dir_ok_def lay(3) es bs p u blocks_ok_def dsize_def mount_part_def sup(9))
      (simp add: fresh_root_def root_dots_def raw_entry_def)
  moreover have "i = 0" if "reach s' i" for i
    using that by induction (auto simp: es root_dots_def raw_entry_def)
  ultimately show "tree_ok s'" by (auto simp: tree_ok_def)
  show "coherent s'"
    using st r by (simp add: coherent_def p mount_part_def agrees_def started_def lay fresh_root_def)
qed

lemma filesys_init_run:
  assumes ok: "disk_ok s" and fits: "fmt_fits p" and pad: "length pad = 460"
    and slots: "p \<in> set slots" "\<forall>q \<in> set slots. q = p \<or> sec_cnt q = 0"
    and new: "sb_magic (super_of_bytes (sectors s (start_lba p + 1))) \<noteq> 0x19590318"
    and mem: "answers s = x # y # m # n # b # c # r # i # as" "NULL \<notin> {x, y, m, n, b, c, r, i}"
  shows "\<exists>F s'. filesys_init s pad slots (Some p) = Inr s' \<and> formatted p pad F \<and> started s p F b c r s' \<and>
    answers s' = as \<and> live s' = r # c # b # n # m # live s \<and>
    file_table s' = take 1 (file_table s) @ map (\<lambda>f. f\<lparr>fd_inode := NULL\<rparr>) (drop 1 (file_table s)) \<and> past_table s' = NULL"
proof -
  define s1 where "s1 = s\<lparr>answers := y # m # n # b # c # r # i # as, live := x # live s\<rparr>"
  obtain F where F: "scan_parts s1 pad slots = Inr (s1\<lparr>answers := m # n # b # c # r # i # as, sectors := F\<rparr>)" "formatted p pad F"
    using scan_formats [of s1 p pad y "m # n # b # c # r # i # as" slots] assms by (auto simp: s1_def disk_ok_def)
  define s2 where "s2 = s\<lparr>sectors := F, answers := m # n # b # c # r # i # as\<rparr>"
  define s3 where "s3 = s2\<lparr>answers := r # i # as, live := c # b # n # m # live s2, fmem := mounted s2 p b c, part := mount_part p b c\<rparr>"
  have two: "fs_free (s1\<lparr>answers := m # n # b # c # r # i # as, sectors := F\<rparr>) x = Inr s2"
    using mem(2) by (simp add: fs_free_def s1_def s2_def)
  have three: "partition_mount s2 p = Inr s3"
    using partition_mount_formatted [OF fits, of pad s2 m n b c "r # i # as"] F(2) mem(2) by (simp add: s2_def s3_def)
  have "started s p F b c r (s3\<lparr>part := (mount_part p b c)\<lparr>open_inodes := [r]\<rparr>,
      inodes := (inodes s3)(r := (fresh_root (make_super p))\<lparr>i_open_cnt := 1\<rparr>), dirs := (dirs s3)(root_dir := \<lparr>dir_inode = r, dir_pose = 0, dir_buf = []\<rparr>)\<rparr>)"
    by (simp add: started_def s3_def s2_def mounted_def)
  note st = started_layout [OF fits F(2) this]
  have slot: "inode_of_bytes (slot s3 0) = fresh_root (make_super p)"
    using st(3) by (simp add: disk_inode_def slot_def itable_def s3_def s2_def)
  have ok3: "fs_ok s3" using st(1) by (simp add: fs_ok_def disk_ok_def layout_ok_def s3_def)
  have root: "root_inode_no (sb (part s3)) = 0" by (simp add: s3_def mount_part_def fmt_super(10) [OF fits])
  have io: "inode_open s3 0 = Inr (r, s3\<lparr>inodes := (inodes s3)(r := (fresh_root (make_super p))\<lparr>i_open_cnt := 1\<rparr>),
      part := (part s3)\<lparr>open_inodes := r # open_inodes (part s3)\<rparr>, answers := as, live := r # live s3\<rparr>)"
    using inode_open_disk [OF ok3, of 0 r i as] mem(2) slot by (simp add: s3_def mount_part_def)
  define s4 where "s4 = s3\<lparr>inodes := (inodes s3)(r := (fresh_root (make_super p))\<lparr>i_open_cnt := 1\<rparr>),
      part := (part s3)\<lparr>open_inodes := r # open_inodes (part s3)\<rparr>, answers := as, live := r # live s3\<rparr>"
  define s5 where "s5 = s4\<lparr>dirs := (dirs s4)(root_dir := (dirs s4 root_dir)\<lparr>dir_inode := r, dir_pose := 0\<rparr>)\<rparr>"
  have five: "open_root_dir s3 = Inr s5" by (simp add: open_root_dir_def root io s4_def s5_def)
  have "filesys_init s pad slots (Some p) =
      Inr (s5\<lparr>file_table := take 1 (file_table s5) @ map (\<lambda>f. f\<lparr>fd_inode := NULL\<rparr>) (drop 1 (file_table s5)), past_table := NULL\<rparr>)"
    using mem F(1) two three five by (simp add: filesys_init_def fs_malloc_def s1_def)
  moreover have "started s p F b c r (s5\<lparr>file_table := take 1 (file_table s5) @ map (\<lambda>f. f\<lparr>fd_inode := NULL\<rparr>) (drop 1 (file_table s5)), past_table := NULL\<rparr>)"
    by (simp add: started_def s5_def s4_def s3_def s2_def mounted_def mount_part_def)
  ultimately show ?thesis using F(2) by (fastforce simp: s5_def s4_def s3_def s2_def)
qed

section \<open>Properties\<close>

text \<open>
  C28: On a disk with one partition \<open>p\<close>, without a file system yet, \<open>filesys_init\<close> formats it, mounts it and opens the
  root: every invariant of the file system that the other operations rely on holds, the root directory contains exactly
  \<^verbatim>\<open>.\<close> and \<^verbatim>\<open>..\<close>, and every entry of the table of files from 1 on is unused. Entry 0 is left as it was, and the word behind
  the table is overwritten with null instead.
\<close>

theorem filesys_init_establishes:
  assumes "disk_ok s" "fmt_fits p" "length pad = 460" "p \<in> set slots" "\<forall>q \<in> set slots. q = p \<or> sec_cnt q = 0"
    "sb_magic (super_of_bytes (sectors s (start_lba p + 1))) \<noteq> 0x19590318"
    "answers s = x # y # m # n # b # c # r # i # as" "NULL \<notin> {x, y, m, n, b, c, r, i}"
    "unat b + 512 * fmt_secs (unat (sec_cnt p)) < 2 ^ 32" "unat c + 512 < 2 ^ 32"
    "unat b + 512 * fmt_secs (unat (sec_cnt p)) \<le> unat c \<or> unat c + 512 \<le> unat b"
  shows "\<exists>s'. filesys_init s pad slots (Some p) = Inr s' \<and> fs_ok s' \<and> blocks_fit (part s') \<and> coherent s' \<and> tree_ok s' \<and>
    entries_of s' 0 = root_dots \<and> answers s' = as \<and> live s' = r # c # b # n # m # live s \<and>
    (\<forall>f \<in> set (drop 1 (file_table s')). fd_inode f = NULL) \<and> take 1 (file_table s') = take 1 (file_table s) \<and> past_table s' = NULL"
proof -
  obtain F s' where run: "filesys_init s pad slots (Some p) = Inr s'" "formatted p pad F" "started s p F b c r s'"
    "answers s' = as" "live s' = r # c # b # n # m # live s"
    "file_table s' = take 1 (file_table s) @ map (\<lambda>f. f\<lparr>fd_inode := NULL\<rparr>) (drop 1 (file_table s))" "past_table s' = NULL"
    using filesys_init_run [OF assms(1-8)] by blast
  have "r \<noteq> NULL" using assms(8) by auto
  then show ?thesis
    using run started_layout [OF assms(2) run(2,3)] started_root [OF assms(2) run(2,3) assms(9-11)]
    by (intro exI [of _ s']) (auto dest!: in_set_dropD)
qed

text \<open>
  C29: Formatting clears one bit too many at the end of the bitmap of the blocks. For a size of the partition in which the blocks and their bitmap fill it (the
  division for the sectors of the bitmap did not round up once too often) and in which the bitmap has room for one more bit in its last sector,
  block number \<open>fmt_blocks n\<close> is free in the new file system although its address is that of the first sector behind the partition.
\<close>

theorem partition_format_overruns:
  assumes "disk_ok s" "fmt_fits p" "length pad = 460" "p \<in> set slots" "\<forall>q \<in> set slots. q = p \<or> sec_cnt q = 0"
    "sb_magic (super_of_bytes (sectors s (start_lba p + 1))) \<noteq> 0x19590318"
    "answers s = x # y # m # n # b # c # r # i # as" "NULL \<notin> {x, y, m, n, b, c, r, i}"
    "unat b + 512 * fmt_secs (unat (sec_cnt p)) < 2 ^ 32" "unat c + 512 < 2 ^ 32"
    "unat b + 512 * fmt_secs (unat (sec_cnt p)) \<le> unat c \<or> unat c + 512 \<le> unat b"
    and odd: "fmt_blocks (unat (sec_cnt p)) + fmt_secs (unat (sec_cnt p)) = unat (sec_cnt p) - 611"
      "fmt_blocks (unat (sec_cnt p)) mod 4096 \<noteq> 0"
  shows "\<exists>s' j. filesys_init s pad slots (Some p) = Inr s' \<and> j \<in> free_blocks_of s' \<and>
    block_addr s' j = start_lba (part s') + sec_cnt (part s')"
proof -
  obtain F s' where run: "filesys_init s pad slots (Some p) = Inr s'" "formatted p pad F" "started s p F b c r s'"
    using filesys_init_run [OF assms(1-8)] by blast
  define k where "k = fmt_blocks (unat (sec_cnt p))"
  have n: "700 \<le> unat (sec_cnt p)" "unat (sec_cnt p) \<le> 163839" "unat (start_lba p) + unat (sec_cnt p) + 4096 \<le> 163839"
    using assms(2) by (simp_all add: fmt_fits_def max_lba_unat)
  note bd = fmt_bounds [OF n(1,2), folded k_def]
  have "k < 4096 * fmt_secs (unat (sec_cnt p))" using bd(6) odd(2) by (cases "k = 4096 * fmt_secs (unat (sec_cnt p))") (auto simp: k_def)
  then have "k \<in> free_blocks_of s'" using bd(1) started_free(1) [OF assms(2) run(2,3) assms(9-11)] by (simp add: k_def)
  moreover have "block_addr s' k = start_lba (part s') + sec_cnt (part s')"
  proof -
    have "unat (data_start_lba (make_super p) + of_nat k) = unat (start_lba p + sec_cnt p)"
      using fmt_super(8) [OF assms(2)] n bd odd(1) by (simp add: unat_word_ariths k_def)
    then show ?thesis using run(3) by (simp add: block_addr_def started_def mount_part_def word_unat_eq_iff)
  qed
  ultimately show ?thesis using run(1) by blast
qed

section \<open>Examples\<close>

text \<open>A blank disk with a partition of 1000 sectors.\<close>

definition blank_part :: partition where
  "blank_part = (mount_part demo_part 0 0)\<lparr>start_lba := 2048, sec_cnt := 1000\<rparr>"

definition blank_disk :: fsys where
  "blank_disk = demo_tree\<lparr>sectors := (\<lambda>_. replicate 512 0), answers := [0x1000, 0x2000, 0x3000, 0x4000, 0x5000, 0x6000, 0x7000, 0x8000]\<rparr>"

lemma blank_facts:
  "disk_ok blank_disk" "fmt_fits blank_part" "sec_cnt blank_part = 1000" "sectors blank_disk a = replicate 512 0"
  "answers blank_disk = [0x1000, 0x2000, 0x3000, 0x4000, 0x5000, 0x6000, 0x7000, 0x8000]"
  "fmt_secs 1000 = 1" "fmt_blocks 1000 = 388" "sb_magic (super_of_bytes (replicate 512 0)) = 0"
  by (simp_all add: blank_disk_def disk_ok_def fmt_fits_def blank_part_def max_lba_unat fmt_secs_def fmt_blocks_def super_of_bytes_def
    word_at_def)

theorem filesys_init_establishes_witness:
  "\<exists>s'. filesys_init blank_disk (replicate 460 0) [blank_part] (Some blank_part) = Inr s' \<and> fs_ok s' \<and> blocks_fit (part s') \<and>
     coherent s' \<and> tree_ok s' \<and> entries_of s' 0 = root_dots \<and> answers s' = [] \<and>
     live s' = 0x7000 # 0x6000 # 0x5000 # 0x4000 # 0x3000 # live blank_disk \<and> (\<forall>f \<in> set (drop 1 (file_table s')). fd_inode f = NULL) \<and>
     take 1 (file_table s') = take 1 (file_table blank_disk) \<and> past_table s' = NULL"
  using blank_facts filesys_init_establishes [of blank_disk blank_part "replicate 460 0" "[blank_part]" "0x1000" "0x2000" "0x3000" "0x4000"
    "0x5000" "0x6000" "0x7000" "0x8000" "[]"] by simp

theorem partition_format_overruns_witness:
  "\<exists>s' j. filesys_init blank_disk (replicate 460 0) [blank_part] (Some blank_part) = Inr s' \<and> j \<in> free_blocks_of s' \<and>
    block_addr s' j = start_lba (part s') + sec_cnt (part s')"
  using blank_facts partition_format_overruns [of blank_disk blank_part "replicate 460 0" "[blank_part]" "0x1000" "0x2000" "0x3000" "0x4000"
    "0x5000" "0x6000" "0x7000" "0x8000" "[]"] by simp

end
