(* ===== verification/Shell.thy ===== *)
theory Shell
  imports Paths
begin

text \<open>
  The command line of \<^verbatim>\<open>user/shell.c\<close>: \<open>readline\<close> with its editing keys, and \<open>cmd_parse\<close>. A
  \<open>char\<close> array is a list of its length and a pointer into it an index. The lemmas relate
  \<open>readline\<close> to a line editor on character lists and \<open>cmd_parse\<close> to the words of the line.
\<close>

section \<open>Definitions\<close>

definition cmd_len :: nat where "cmd_len = 128"
definition MAX_ARG_NR :: nat where "MAX_ARG_NR = 16"

text \<open>
  \<open>inp\<close> are the characters that the keyboard delivers; \<open>read\<close> stores each at \<open>*pos\<close> before any
  test. The result is the array and the characters left over, or \<open>None\<close> when \<open>read\<close> waits for more.
  What is echoed on the screen is left out.
\<close>

primrec readline_loop :: "u8 list \<Rightarrow> nat \<Rightarrow> nat \<Rightarrow> u8 list \<Rightarrow> ('s, (u8 list \<times> u8 list) option) res" where
  "readline_loop buf pos cnt [] = Inr None"
| "readline_loop buf pos cnt (c # inp) =
     (if length buf \<le> pos then Inl (Fault ''*pos'')
      else let buf = buf[pos := c]
           in if \<not> pos < cnt then Inr (Some (buf, inp))
              else if c = 10 \<or> c = 13 then Inr (Some (buf[pos := 0], inp))
              else if c = 8 then readline_loop buf (if buf ! 0 \<noteq> 8 then pos - 1 else pos) cnt inp
              else if c = 0x6C - 0x61 then readline_loop (buf[pos := 0]) pos cnt inp
              else if c = 0x75 - 0x61 then readline_loop (take 1 buf @ replicate pos 0 @ drop (Suc pos) buf) 0 cnt inp
              else readline_loop buf (Suc pos) cnt inp)"

definition readline :: "u8 list \<Rightarrow> nat \<Rightarrow> u8 list \<Rightarrow> ('s, (u8 list \<times> u8 list) option) res" where
  "readline buf cnt inp = bnd (assert_that (cnt > 0) ''buf != NULL && cnt > 0'') (\<lambda>_. readline_loop buf 0 cnt inp)"

lemma drop_nth_word:
  assumes "n < length b"
  shows "takeWhile P (drop n b) = (if P (b ! n) then b ! n # takeWhile P (drop (Suc n) b) else [])"
  using assms by (simp add: Cons_nth_drop_Suc [symmetric])

text \<open>Behind the separators stands another character, so a turn of the loop consumes at least one.\<close>

lemma after_separators:
  assumes "n + length (takeWhile (\<lambda>c. c = t) (drop n b)) < length b"
  shows "b ! (n + length (takeWhile (\<lambda>c. c = t) (drop n b))) \<noteq> t"
proof -
  let ?k = "length (takeWhile (\<lambda>c. c = t) (drop n b))"
  have "?k < length (drop n b)" using assms by simp
  from nth_length_takeWhile [OF this] show ?thesis using assms by simp
qed

text \<open>
  \<open>argv\<close> has \<open>MAX_ARG_NR\<close> entries, and the loop stores before it compares \<open>argc\<close> with that number.
  Reading behind the end of the array or storing behind the end of \<open>argv\<close> is a fault.
\<close>

function parse_words ::
  "u8 list \<Rightarrow> nat option list \<Rightarrow> nat \<Rightarrow> nat \<Rightarrow> u8 \<Rightarrow> ('s, int \<times> nat option list \<times> u8 list) res" where
  "parse_words b argv argc nxt token =
     (if length b \<le> nxt then Inl (Fault ''*next'')
      else if b ! nxt = 0 then Inr (int argc, argv, b)
      else let nxt = nxt + length (takeWhile (\<lambda>c. c = token) (drop nxt b))
           in if length b \<le> nxt then Inl (Fault ''*next'')
              else if b ! nxt = 0 then Inr (int argc, argv, b)
              else if length argv \<le> argc then Inl (Fault ''argv[argc]'')
              else let argv = argv[argc := Some nxt];
                       nxt = nxt + length (takeWhile (\<lambda>c. c \<noteq> 0 \<and> c \<noteq> token) (drop nxt b))
                   in if length b \<le> nxt then Inl (Fault ''*next'')
                      else let (b, nxt) = (if b ! nxt \<noteq> 0 then (b[nxt := 0], Suc nxt) else (b, nxt))
                           in if argc > MAX_ARG_NR then Inr (- 1, argv, b)
                              else parse_words b argv (Suc argc) nxt token)"
  by pat_completeness auto
termination
proof (relation "measure (\<lambda>(b, argv, argc, nxt, t). length b - nxt)", goal_cases)
  case (2 b argv argc nxt token n1 argv' n2 z b' n3)
  have n1: "n1 = nxt + length (takeWhile (\<lambda>c. c = token) (drop nxt b))" "n1 < length b" "b ! n1 \<noteq> 0"
    and n2: "n2 = n1 + length (takeWhile (\<lambda>c. c \<noteq> 0 \<and> c \<noteq> token) (drop n1 b))" "n2 < length b"
    using 2 by simp_all
  have "b ! n1 \<noteq> token" using after_separators [of nxt token b] n1(2) unfolding n1(1) by blast
  then have "n1 < n2" using n1(2,3) n2(1) by (simp add: drop_nth_word)
  then have "nxt < n2" using n1(1) by simp
  moreover have "length b' = length b" "n2 \<le> n3" using 2(9-) by (auto split: if_splits)
  ultimately show ?case using n2(2) by simp
qed simp

definition cmd_parse :: "u8 list \<Rightarrow> u8 \<Rightarrow> ('s, int \<times> nat option list \<times> u8 list) res" where
  "cmd_parse cmd_str token = parse_words cmd_str (replicate MAX_ARG_NR None) 0 0 token"

declare parse_words.simps [simp del]

section \<open>The line editor\<close>

text \<open>
  A key changes the text typed so far: backspace takes the last character away, control-u all
  of them, control-l none, and every other key adds itself.
\<close>

definition edit :: "u8 list \<Rightarrow> u8 \<Rightarrow> u8 list" where
  "edit st c = (if c = 8 then butlast st else if c = 11 then st else if c = 20 then [] else st @ [c])"

definition fits :: "u8 list \<Rightarrow> u8 list \<Rightarrow> nat \<Rightarrow> bool" where
  "fits st cs n \<longleftrightarrow> (\<forall>k \<le> length cs. length (foldl edit st (take k cs)) < n)"

lemma fits_Cons: "fits st (c # cs) n \<longleftrightarrow> length st < n \<and> fits (edit st c) cs n"
proof
  assume a: "fits st (c # cs) n"
  then have "length (foldl edit st (take 0 (c # cs))) < n" unfolding fits_def by blast
  moreover have "length (foldl edit st (take (Suc k) (c # cs))) < n" if "k \<le> length cs" for k
    using a that unfolding fits_def by (metis Suc_le_mono length_Cons)
  ultimately show "length st < n \<and> fits (edit st c) cs n" by (simp add: fits_def)
next
  assume "length st < n \<and> fits (edit st c) cs n"
  then show "fits st (c # cs) n" unfolding fits_def by (auto simp: take_Cons split: nat.splits)
qed

lemma edit_shape:
  "8 \<notin> set st \<Longrightarrow> 0 \<notin> set st \<Longrightarrow> c \<noteq> 0 \<Longrightarrow> 8 \<notin> set (edit st c) \<and> 0 \<notin> set (edit st c)"
  by (auto simp: edit_def dest: in_set_butlastD)

lemma readline_loop_step:
  assumes "length buf = n" "pos < n" "pos < cnt" "take pos buf = st" "8 \<notin> set st" "c \<noteq> 10" "c \<noteq> 13"
  shows "\<exists>buf'. readline_loop buf pos cnt (c # inp) = readline_loop buf' (length (edit st c)) cnt inp \<and>
    length buf' = n \<and> take (length (edit st c)) buf' = edit st c"
proof -
  have st: "length st = pos" using assms(1,2,4) by auto
  have hd: "buf[pos := c] ! 0 = (if pos = 0 then c else hd st)"
    using assms(1,2,4) by (cases buf; cases pos) auto
  have nz: "hd st \<noteq> 8" if "0 < pos" using assms(5) st that by (cases st) auto
  consider "c = 8" | "c = 11" | "c = 20" | "c \<noteq> 8" "c \<noteq> 11" "c \<noteq> 20" by blast
  then show ?thesis
  proof cases
    case 1
    then have "readline_loop buf pos cnt (c # inp) = readline_loop (buf[pos := c]) (pos - 1) cnt inp"
      using assms hd nz by (cases "pos = 0") simp_all
    moreover have "take (pos - 1) (buf[pos := c]) = butlast st"
      using assms(1,2,4) by (auto simp: butlast_take)
    ultimately show ?thesis using 1 assms(1) st by (intro exI [of _ "buf[pos := c]"]) (simp add: edit_def)
  next
    case 2
    then show ?thesis
      using assms st by (intro exI [of _ "buf[pos := c, pos := 0]"]) (simp add: edit_def)
  next
    case 3
    then show ?thesis
      using assms st by (intro exI [of _ "take 1 (buf[pos := c]) @ replicate pos 0 @ drop (Suc pos) (buf[pos := c])"])
        (simp add: edit_def)
  next
    case 4
    then have "readline_loop buf pos cnt (c # inp) = readline_loop (buf[pos := c]) (Suc pos) cnt inp"
      using assms by simp
    moreover have "take (Suc pos) (buf[pos := c]) = st @ [c]"
      using assms(1,2,4) by (simp add: take_Suc_conv_app_nth)
    ultimately show ?thesis using 4 assms(1) st by (intro exI [of _ "buf[pos := c]"]) (simp add: edit_def)
  qed
qed

lemma readline_loop_edits:
  assumes "length buf = cnt" "take (length st) buf = st" "8 \<notin> set st" "0 \<notin> set st" "fits st cs cnt"
    and "10 \<notin> set cs" "13 \<notin> set cs" "0 \<notin> set cs" "e = 10 \<or> e = 13"
  shows "\<exists>buf'. (readline_loop buf (length st) cnt (cs @ e # inp) :: ('s, _) res) = Inr (Some (buf', inp)) \<and>
    length buf' = cnt \<and> (cstring buf' :: ('s, _) res) = Inr (foldl edit st cs)"
  using assms
proof (induction cs arbitrary: buf st)
  case Nil
  then have len: "length st < cnt" by (simp add: fits_def)
  then have "buf[length st := e, length st := 0] = st @ 0 # drop (Suc (length st)) buf"
    using Nil.prems(1,2) by (simp add: upd_conv_take_nth_drop)
  then have "(cstring (buf[length st := e, length st := 0]) :: ('s, _) res) = Inr st"
    using Nil.prems(4) by (simp add: cstring_def takeWhile_stop)
  with Nil.prems(1,9) len show ?case by auto
next
  case (Cons c cs)
  have len: "length st < cnt" and fit: "fits (edit st c) cs cnt" using Cons.prems(5) by (simp_all add: fits_Cons)
  have "c \<noteq> 10" "c \<noteq> 13" "c \<noteq> 0" using Cons.prems(6,7,8) by auto
  obtain buf' where b: "(readline_loop buf (length st) cnt (c # cs @ e # inp) :: ('s, _) res) =
      readline_loop buf' (length (edit st c)) cnt (cs @ e # inp)"
    "length buf' = cnt" "take (length (edit st c)) buf' = edit st c"
    using readline_loop_step [OF Cons.prems(1) len len Cons.prems(2,3) \<open>c \<noteq> 10\<close> \<open>c \<noteq> 13\<close>] by blast
  have "8 \<notin> set (edit st c)" "0 \<notin> set (edit st c)"
    using edit_shape [OF Cons.prems(3,4) \<open>c \<noteq> 0\<close>] by simp_all
  from Cons.IH [OF b(2,3) this fit _ _ _ Cons.prems(9)] b(1) Cons.prems(6,7,8) show ?case by auto
qed

text \<open>
  C24: As long as the text stays below the size of the array, \<open>readline\<close> leaves in the array the text that
  the editing keys make of the typed characters, and stops at the first line feed or return.
\<close>

theorem readline_edits:
  assumes "length buf = cnt" "fits [] cs cnt" "10 \<notin> set cs" "13 \<notin> set cs" "0 \<notin> set cs" "e = 10 \<or> e = 13"
  shows "\<exists>buf'. (readline buf cnt (cs @ e # inp) :: ('s, _) res) = Inr (Some (buf', inp)) \<and>
    length buf' = cnt \<and> (cstring buf' :: ('s, _) res) = Inr (foldl edit [] cs)"
proof -
  have "0 < cnt" using assms(2) by (auto simp: fits_def dest: spec [of _ 0])
  then show ?thesis
    using readline_loop_edits [of buf cnt "[]" cs e inp] assms by (simp add: readline_def)
qed

lemma readline_loop_plain:
  assumes "length buf = cnt" "pos + length cs \<le> cnt" "\<forall>c \<in> set cs. c \<notin> {8, 10, 11, 13, 20}"
  shows "\<exists>buf'. length buf' = cnt \<and> readline_loop buf pos cnt (cs @ inp) = readline_loop buf' (pos + length cs) cnt inp"
  using assms
proof (induction cs arbitrary: buf pos)
  case (Cons c cs)
  then show ?case using Cons.IH [of "buf[pos := c]" "Suc pos"] by simp
qed auto

text \<open>
  A line that fills the array is not refused: the next character, whatever it is, is stored behind the
  end of the array before the count is looked at.
\<close>

theorem readline_overruns:
  assumes "length buf = cnt" "0 < cnt" "length cs = cnt" "\<forall>c \<in> set cs. c \<notin> {8, 10, 11, 13, 20}"
  shows "readline buf cnt (cs @ c # inp) = Inl (Fault ''*pos'')"
proof -
  from readline_loop_plain [OF assms(1) _ assms(4), of 0 "c # inp"] assms(2,3) show ?thesis
    by (auto simp: readline_def)
qed

section \<open>The words of a command line\<close>

type_synonym 's parsed = "('s, int \<times> nat option list \<times> u8 list) res"

lemma tokens_cases:
  obtains "tokens t s = []" "\<forall>c \<in> set s. c = t"
  | seps w r where "s = seps @ w @ r" "\<forall>c \<in> set seps. c = t" "w \<noteq> []" "t \<notin> set w" "r = [] \<or> hd r = t"
    "tokens t s = w # tokens t r"
proof -
  define q where "q = dropWhile (\<lambda>c. c = t) s"
  define w where "w = takeWhile (\<lambda>c. c \<noteq> t) q"
  define r where "r = dropWhile (\<lambda>c. c \<noteq> t) q"
  have seps: "\<forall>c \<in> set (takeWhile (\<lambda>c. c = t) s). c = t" by (auto dest: set_takeWhileD)
  have s: "s = takeWhile (\<lambda>c. c = t) s @ w @ r" by (simp add: q_def w_def r_def)
  have tok: "tokens t s = (if q = [] then [] else w # tokens t r)"
    by (simp add: tokens.simps [of t s] q_def w_def r_def Let_def)
  show thesis
  proof (cases "q = []")
    case True
    then have "\<forall>c \<in> set s. c = t" by (simp add: q_def dropWhile_eq_Nil_conv)
    then show thesis using tok True that(1) by simp
  next
    case False
    have "hd q \<noteq> t" using hd_dropWhile [of "\<lambda>c. c = t" s] False by (simp add: q_def)
    then have "w \<noteq> []" unfolding w_def using False by (cases q) simp_all
    moreover have "t \<notin> set w" unfolding w_def using set_takeWhileD [of t "\<lambda>c. c \<noteq> t" q] by blast
    moreover have "r = [] \<or> hd r = t" unfolding r_def using hd_dropWhile [of "\<lambda>c. c \<noteq> t" q] by auto
    ultimately show thesis using that(2) [OF s seps] tok False by simp
  qed
qed

lemma takeWhile_run: "\<forall>c \<in> set xs. P c \<Longrightarrow> ys = [] \<or> \<not> P (hd ys) \<Longrightarrow> takeWhile P (xs @ ys) = xs"
  by (induction xs) (cases ys, simp_all)

lemma nth_at_drop: "drop n b = xs @ c # ys \<Longrightarrow> n + length xs < length b \<and> b ! (n + length xs) = c"
proof -
  assume a: "drop n b = xs @ c # ys"
  then have "length b - n = length xs + Suc (length ys)" by (metis length_append length_drop list.size(4) One_nat_def add_Suc_right add.right_neutral)
  moreover from this have "drop n b ! length xs = b ! (n + length xs)" by simp
  ultimately show ?thesis using a by simp
qed

lemma parse_words_done:
  assumes "drop nxt b = s @ 0 # pad" "\<forall>c \<in> set s. c = t" "t \<noteq> 0"
  shows "parse_words b argv argc nxt t = Inr (int argc, argv, b)"
proof (cases "s = []")
  case True
  then show ?thesis using nth_at_drop [of nxt b "[]"] assms by (simp add: parse_words.simps [of b])
next
  case False
  then obtain s' where "drop nxt b = [] @ t # s' @ 0 # pad" using assms by (cases s) auto
  from nth_at_drop [OF this] nth_at_drop [OF assms(1)] takeWhile_run [of s "\<lambda>c. c = t" "0 # pad"] assms
  show ?thesis by (simp add: parse_words.simps [of b] Let_def)
qed

lemma parse_words_step:
  assumes b: "drop nxt b = (seps @ w @ r) @ 0 # pad" and t: "t \<noteq> 0" and seps: "\<forall>c \<in> set seps. c = t"
    and w: "w \<noteq> []" "t \<notin> set w" "0 \<notin> set w" and r: "r = [] \<or> hd r = t" and argc: "argc \<le> MAX_ARG_NR"
  shows "parse_words b argv argc nxt t =
    (if length argv \<le> argc then Inl (Fault ''argv[argc]'')
     else let p = nxt + length seps; e = p + length w; b' = (if r = [] then b else b[e := 0]);
              e' = (if r = [] then e else Suc e)
          in parse_words b' (argv[argc := Some p]) (Suc argc) e' t)"
proof -
  let ?p = "nxt + length seps" and ?e = "nxt + length seps + length w"
  obtain c w' where cw: "w = c # w'" "c \<noteq> t" "c \<noteq> 0" using w by (cases w) auto
  have p: "?p < length b" "b ! ?p = c" using nth_at_drop [of nxt b seps c "w' @ r @ 0 # pad"] b cw(1) by simp_all
  have n: "nxt < length b" "b ! nxt \<noteq> 0"
    using nth_at_drop [of nxt b "[]"] b seps cw t by (cases seps; auto)+
  obtain d r' where d: "r @ 0 # pad = d # r'" "d = (if r = [] then 0 else t)" using r by (cases r) auto
  have e: "?e < length b" "b ! ?e = d"
    using nth_at_drop [of nxt b "seps @ w" d r'] b d(1) by (simp_all add: add.assoc)
  have allw: "\<forall>c \<in> set w. c \<noteq> 0 \<and> c \<noteq> t" using w by auto
  have tw1: "takeWhile (\<lambda>c. c = t) (drop nxt b) = seps"
    using takeWhile_run [OF seps, of "w @ r @ 0 # pad"] cw b by simp
  have "drop ?p b = w @ d # r'"
    using arg_cong [OF b, of "drop (length seps)"] d(1) by (simp add: add.commute)
  then have tw2: "takeWhile (\<lambda>c. c \<noteq> 0 \<and> c \<noteq> t) (drop ?p b) = w"
    using takeWhile_run [OF allw, of "d # r'"] d(2) by (simp split: if_splits)
  show ?thesis
    using n p e tw1 tw2 cw(3) argc d(2) t by (subst parse_words.simps) (simp add: Let_def)
qed

text \<open>
  \<open>words_stored\<close>: the entries of \<open>argv\<close> from \<open>argc\<close> on point at C strings with the given words.
\<close>

definition words_stored :: "u8 list \<Rightarrow> nat option list \<Rightarrow> nat \<Rightarrow> u8 list list \<Rightarrow> bool" where
  "words_stored b argv argc ws \<longleftrightarrow>
     (\<forall>i < length ws. \<exists>p. argv ! (argc + i) = Some p \<and> (cstring (drop p b) :: (unit, _) res) = Inr (ws ! i))"

lemma parse_words_turn:
  assumes b: "drop nxt b = s @ 0 # pad" "nxt \<le> length b" "0 \<notin> set s" "t \<noteq> 0" "tokens t s = w # ws"
    and argc: "argc < length argv" "length argv \<le> MAX_ARG_NR"
  obtains p e b' r x where
    "(parse_words b argv argc nxt t :: 's parsed) = parse_words b' (argv[argc := Some p]) (Suc argc) e t"
    "drop e b' = r @ 0 # pad" "e \<le> length b'" "0 \<notin> set r" "tokens t r = ws" "take nxt b' = take nxt b" "nxt \<le> e"
    "drop p b' = w @ 0 # x" "0 \<notin> set w" "p + length w < e \<or> ws = []"
proof -
  from b(5) obtain seps r where s: "s = seps @ w @ r" "\<forall>c \<in> set seps. c = t" "w \<noteq> []" "t \<notin> set w"
    "r = [] \<or> hd r = t" "tokens t r = ws" by (cases s rule: tokens_cases [of t]) auto
  let ?p = "nxt + length seps" and ?e = "nxt + length seps + length w"
  define b1 where "b1 = (if r = [] then b else b[?e := 0])"
  define e1 where "e1 = (if r = [] then ?e else Suc ?e)"
  have w0: "0 \<notin> set w" "0 \<notin> set (tl r)" using b(3) s(1) by (simp, cases r, simp_all)
  have "argc \<le> MAX_ARG_NR" using argc by simp
  from parse_words_step [OF b(1)[unfolded s(1)] b(4) s(2,3,4) w0(1) s(5) this, of argv] argc(1)
  have step: "(parse_words b argv argc nxt t :: 's parsed) = parse_words b1 (argv[argc := Some ?p]) (Suc argc) e1 t"
    by (simp only: b1_def e1_def Let_def if_False not_le [symmetric])
  have split: "b = take nxt b @ seps @ w @ r @ 0 # pad"
    using b(1) s(1) by (metis append_assoc append_take_drop_id)
  have ln: "length (take nxt b) = nxt" using b(2) by simp
  have b1: "b1 = take nxt b @ seps @ w @ 0 # (if r = [] then pad else tl r @ 0 # pad)"
  proof (cases r)
    case (Cons c r')
    have "(take nxt b @ seps @ w @ r @ 0 # pad)[?e := 0] = take nxt b @ seps @ w @ 0 # r' @ 0 # pad"
      using ln Cons by (simp add: list_update_append add.assoc)
    then show ?thesis using split Cons by (simp add: b1_def)
  qed (use split in \<open>simp add: b1_def\<close>)
  show thesis
  proof (rule that [OF step])
    show "drop e1 b1 = tl r @ 0 # pad" "e1 \<le> length b1" "take nxt b1 = take nxt b" "nxt \<le> e1"
      "drop ?p b1 = w @ 0 # (if r = [] then pad else tl r @ 0 # pad)"
      unfolding b1 e1_def using ln by (simp_all add: add.assoc)
    show "tokens t (tl r) = ws" using s(5,6) by (cases r) auto
    show "?p + length w < e1 \<or> ws = []" using s(6) by (auto simp: e1_def)
  qed (use w0 in simp_all)
qed

lemma parse_words_ok:
  assumes "drop nxt b = s @ 0 # pad" "nxt \<le> length b" "0 \<notin> set s" "t \<noteq> 0" "tokens t s = ws"
    and "argc + length ws \<le> length argv" "length argv \<le> MAX_ARG_NR"
  shows "\<exists>argv' b'. (parse_words b argv argc nxt t :: 's parsed) = Inr (int (argc + length ws), argv', b') \<and>
    length argv' = length argv \<and> take nxt b' = take nxt b \<and> (ws = [] \<longrightarrow> b' = b) \<and>
    (\<forall>i. i < argc \<or> argc + length ws \<le> i \<longrightarrow> argv' ! i = argv ! i) \<and> words_stored b' argv' argc ws"
  using assms
proof (induction ws arbitrary: nxt b s argc argv)
  case Nil
  then have "\<forall>c \<in> set s. c = t" by (cases s rule: tokens_cases [of t]) auto
  with parse_words_done [OF Nil(1) this Nil(4)] show ?case by (auto simp: words_stored_def)
next
  case (Cons w ws)
  have argc: "argc < length argv" using Cons.prems(6) by simp
  obtain p e b1 r x where
    turn: "(parse_words b argv argc nxt t :: 's parsed) = parse_words b1 (argv[argc := Some p]) (Suc argc) e t"
    "drop e b1 = r @ 0 # pad" "e \<le> length b1" "0 \<notin> set r" "tokens t r = ws" "take nxt b1 = take nxt b" "nxt \<le> e"
    "drop p b1 = w @ 0 # x" "0 \<notin> set w" "p + length w < e \<or> ws = []"
    using parse_words_turn [OF Cons.prems(1-5) argc Cons.prems(7)] by metis
  have len: "Suc argc + length ws \<le> length (argv[argc := Some p])" "length (argv[argc := Some p]) \<le> MAX_ARG_NR"
    using Cons.prems(6,7) by simp_all
  obtain argv' b' where ih: "(parse_words b1 (argv[argc := Some p]) (Suc argc) e t :: 's parsed) = Inr (int (Suc argc + length ws), argv', b')"
    "length argv' = length (argv[argc := Some p])" "take e b' = take e b1" "ws = [] \<longrightarrow> b' = b1"
    "\<forall>i. i < Suc argc \<or> Suc argc + length ws \<le> i \<longrightarrow> argv' ! i = argv[argc := Some p] ! i"
    "words_stored b' argv' (Suc argc) ws"
    using Cons.IH [OF turn(2,3,4) Cons.prems(4) turn(5) len] by metis
  have "take (Suc (length w)) (drop p b') = w @ [0]"
  proof (cases "ws = []")
    case True
    then show ?thesis using ih(4) turn(8) by simp
  next
    case False
    then have "p + Suc (length w) \<le> e" using turn(10) by simp
    then have "take (p + Suc (length w)) b' = take (p + Suc (length w)) b1"
      using ih(3) by (metis min.absorb1 take_take)
    then have "take (Suc (length w)) (drop p b') = take (Suc (length w)) (drop p b1)"
      by (metis add.commute take_drop)
    then show ?thesis using turn(8) by simp
  qed
  then have "drop p b' = w @ 0 # drop (Suc (length w)) (drop p b')"
    by (metis append_Cons append_Nil append_assoc append_take_drop_id)
  moreover have "(cstring (w @ 0 # y) :: (unit, _) res) = Inr w" for y
    using turn(9) by (simp add: cstring_def takeWhile_stop)
  ultimately have "(cstring (drop p b') :: (unit, _) res) = Inr w" by metis
  moreover have "argv' ! argc = Some p" using ih(5) argc by simp
  ultimately have "words_stored b' argv' argc (w # ws)"
    using ih(6) by (auto simp: words_stored_def less_Suc_eq_0_disj)
  moreover have "take nxt b' = take nxt b" using ih(3) turn(6,7) by (metis min.absorb1 take_take)
  moreover have "argv' ! i = argv ! i" if "i < argc \<or> argc + length (w # ws) \<le> i" for i
    using ih(5) that by auto
  ultimately show ?case using turn(1) ih(1,2) by auto
qed

lemma parse_words_many:
  assumes "drop nxt b = s @ 0 # pad" "nxt \<le> length b" "0 \<notin> set s" "t \<noteq> 0" "tokens t s = ws"
    and "length argv < argc + length ws" "argc \<le> length argv" "length argv \<le> MAX_ARG_NR"
  shows "(parse_words b argv argc nxt t :: 's parsed) = Inl (Fault ''argv[argc]'')"
  using assms
proof (induction ws arbitrary: nxt b s argc argv)
  case (Cons w ws)
  show ?case
  proof (cases "argc < length argv")
    case True
    then show ?thesis
      using parse_words_turn [OF Cons.prems(1-5) True Cons.prems(8)] Cons.IH Cons.prems(4,6,8)
      by (smt (verit) Suc_leI add_Suc_shift length_Cons length_list_update)
  next
    case False
    from Cons.prems(5) obtain seps r where s: "s = seps @ w @ r" "\<forall>c \<in> set seps. c = t" "w \<noteq> []" "t \<notin> set w"
      "r = [] \<or> hd r = t" "tokens t r = ws" by (cases s rule: tokens_cases [of t]) auto
    have "0 \<notin> set w" "argc \<le> MAX_ARG_NR" using Cons.prems(3,7,8) s(1) by auto
    from parse_words_step [OF Cons.prems(1)[unfolded s(1)] Cons.prems(4) s(2,3,4) this(1) s(5) this(2), of argv] False
    show ?thesis by simp
  qed
qed simp

text \<open>
  A line of at most 16 words: \<open>cmd_parse\<close> returns their number and leaves in the first entries of
  \<open>argv\<close> pointers to the words, each ended by a zero, in their order; the other entries are null.
\<close>

theorem cmd_parse_words:
  assumes "0 \<notin> set s" "t \<noteq> 0" "length (tokens t s) \<le> MAX_ARG_NR"
  shows "\<exists>argv b. (cmd_parse (s @ 0 # pad) t :: 's parsed) = Inr (int (length (tokens t s)), argv, b) \<and>
    length argv = MAX_ARG_NR \<and> words_stored b argv 0 (tokens t s) \<and>
    (\<forall>i. length (tokens t s) \<le> i \<and> i < MAX_ARG_NR \<longrightarrow> argv ! i = None)"
  using parse_words_ok [of 0 "s @ 0 # pad" s pad t "tokens t s" 0 "replicate MAX_ARG_NR None"] assms
  unfolding cmd_parse_def by fastforce

text \<open>
  With more than 16 words the loop stores behind the end of \<open>argv\<close>; the test that would return -1 comes
  after the store and is never reached.
\<close>

theorem cmd_parse_overruns:
  assumes "0 \<notin> set s" "t \<noteq> 0" "MAX_ARG_NR < length (tokens t s)"
  shows "(cmd_parse (s @ 0 # pad) t :: 's parsed) = Inl (Fault ''argv[argc]'')"
  using parse_words_many [of 0 "s @ 0 # pad" s pad t "tokens t s" "replicate MAX_ARG_NR None" 0] assms
  by (auto simp: cmd_parse_def)

section \<open>Examples\<close>

text \<open>The keys \<^verbatim>\<open>l\<close>, \<^verbatim>\<open>x\<close>, backspace, \<^verbatim>\<open>s\<close> and the line \<^verbatim>\<open>ls  -l\<close>.\<close>

lemma readline_edits_witness:
  "\<exists>buf'. (readline (replicate 128 0) 128 [0x6C, 0x78, 8, 0x73, 13] :: (unit, _) res) = Inr (Some (buf', [])) \<and>
    length buf' = 128 \<and> (cstring buf' :: (unit, _) res) = Inr [0x6C, 0x73]"
proof -
  have "fits [] [0x6C, 0x78, 8, 0x73] 128" by (simp add: fits_Cons edit_def) (simp add: fits_def)
  then show ?thesis
    using readline_edits [where 's = unit, of "replicate 128 0" 128 "[0x6C, 0x78, 8, 0x73]" 13 "[]"]
    by (simp add: edit_def)
qed

lemma readline_overruns_witness:
  "(readline (replicate 128 0) 128 (replicate 128 0x61 @ [8]) :: (unit, _) res) = Inl (Fault ''*pos'')"
  using readline_overruns [of "replicate 128 0" 128 "replicate 128 0x61" 8 "[]"] by simp

lemma demo_words: "tokens 0x20 [0x6C, 0x73, 0x20, 0x20, 0x2D, 0x6C] = [[0x6C, 0x73], [0x2D, 0x6C]]"
  by code_simp

lemma cmd_parse_words_witness:
  "\<exists>argv b. (cmd_parse [0x6C, 0x73, 0x20, 0x20, 0x2D, 0x6C, 0] 0x20 :: (unit, _) res) = Inr (2, argv, b) \<and>
    length argv = 16 \<and> words_stored b argv 0 [[0x6C, 0x73], [0x2D, 0x6C]] \<and>
    (\<forall>i. Suc (Suc 0) \<le> i \<and> i < 16 \<longrightarrow> argv ! i = None)"
  using cmd_parse_words [where 's = unit and s = "[0x6C, 0x73, 0x20, 0x20, 0x2D, 0x6C]" and t = "0x20" and pad = "[]"]
  by (simp add: demo_words MAX_ARG_NR_def)

lemma many_words: "length (tokens 0x20 (concat (replicate 17 [0x61, 0x20]))) = 17"
  by code_simp

lemma cmd_parse_overruns_witness:
  "(cmd_parse (concat (replicate 17 [0x61, 0x20]) @ [0]) 0x20 :: (unit, _) res) = Inl (Fault ''argv[argc]'')"
proof -
  have "0 \<notin> set (concat (replicate 17 [0x61, 0x20 :: u8]))" by simp
  from cmd_parse_overruns [where 's = unit and t = "0x20" and pad = "[]", OF this] show ?thesis
    unfolding many_words by (simp add: MAX_ARG_NR_def)
qed

end
