(* ===== verification/Spec2Isabelle.thy ===== *)
theory Spec2Isabelle
  imports Syscall Forkcopy Mutex Keyboard Segments Ide Stdio Format Shell
begin

text \<open>
  A verification of \<^verbatim>\<open>zxy_os\<close>, a 32-bit x86 teaching operating system in C with threads, paging, user processes, a file
  system on an IDE disk, pipes and a shell. All paths below are relative to \<^verbatim>\<open>src/src/\<close>.

  \<^bold>\<open>The program.\<close> The kernel is one address space in the upper gigabyte, shared by all processes; every process has a page
  directory of its own for the lower three. \<^verbatim>\<open>kernel/memory.c\<close> hands out page frames from two pools (kernel and user), virtual
  pages from a bitmap per address space, and blocks of 16 to 1024 bytes from arenas. \<^verbatim>\<open>kernel/thread.c\<close> keeps a PCB and kernel stack
  in one page per thread and runs the threads round robin; the timer interrupt takes the CPU away when the time slice is over.
  Semaphores and locks (\<^verbatim>\<open>kernel/sync.c\<close>) block on the scheduler; ring buffers (\<^verbatim>\<open>device/ioqueue.c\<close>) connect the keyboard interrupt
  with its readers and the two ends of a pipe. \<^verbatim>\<open>fs/\<close> is an i-node file system over the sectors of a partition. Programs enter the kernel by
  \<^verbatim>\<open>int 0x80\<close> through a table of functions; \<^verbatim>\<open>user/fork.c\<close> copies a process, \<^verbatim>\<open>user/wait_exit.c\<close> ends it.

  \<^bold>\<open>How the code is modelled.\<close> A function of the code is a HOL function on an explicit state. Integers keep their width
  (\<open>u8\<close>, \<open>u16\<close>, \<open>u32\<close> are words, so that all arithmetic wraps). Every assertion, \<open>PANIC\<close>, page fault and access outside an array is a value:
  a call returns \<open>Inr\<close> its result, or \<open>Inl\<close> of an error (\<open>Panic\<close>, \<open>Fault\<close>), or \<open>Inl (Yield s)\<close> when the CPU goes to another thread in
  state \<open>s\<close>, in which case the rest of the call is a function of its own that starts when the thread runs again (for example
  \<open>sema_down_from\<close>, \<open>lock_again\<close>). A loop that need not end is a \<open>partial_function (option)\<close>, whose value \<open>None\<close> is divergence,
  and its theorems say that it returns.

  \<^bold>\<open>The theories\<close>, each with the functions of the files it names.
  \<^item> \<open>Kprelude\<close>: words, results and their rules, byte memory (\<open>u32 \<Rightarrow> u8\<close>). \<open>Kstring\<close>: \<^verbatim>\<open>kernel/string.c\<close>. \<open>Bitmap\<close>: \<^verbatim>\<open>lib/kernel/bitmap.c\<close>.
    \<open>Klist\<close>: \<^verbatim>\<open>lib/kernel/list.c\<close>, on a heap of linked elements and as the plain lists that the other theories use.
  \<^item> \<open>Kstate\<close>: the record \<open>kernel\<close>, the globals of the kernel with the PCBs, stacks, locks, rings and the memory as maps from addresses.
    \<open>Interrupt\<close>: \<^verbatim>\<open>kernel/interrupt.c\<close>. \<open>Segments\<close>: \<^verbatim>\<open>kernel/tss.c\<close>. \<open>Timer\<close>: \<^verbatim>\<open>device/timer.c\<close>.
  \<^item> \<open>Paging\<close>, \<open>Memory\<close>, \<open>Ptmap\<close>, \<open>Kpages\<close>, \<open>Kfree\<close>, \<open>Malloc\<close>: \<^verbatim>\<open>kernel/memory.c\<close>. Page tables are words of physical memory (\<open>pmem\<close>),
    and \<open>mmu_walk\<close> is the translation of the processor, against which the pointers \<open>pte_ptr\<close> and \<open>pde_ptr\<close> into the self-mapped
    directory are verified. \<open>kmem_ok\<close> is the invariant of the kernel heap: a page is in use exactly when it is mapped, to frames that are in use.
  \<^item> \<open>Sched\<close>, \<open>Sync\<close>, \<open>Mutex\<close>, \<open>Ioqueue\<close>, \<open>Thread\<close>, \<open>Process\<close>: \<^verbatim>\<open>kernel/thread.c\<close>, \<^verbatim>\<open>kernel/switch.s\<close>, \<^verbatim>\<open>kernel/sync.c\<close>,
    \<^verbatim>\<open>device/ioqueue.c\<close>, \<^verbatim>\<open>user/process.c\<close>. \<open>sched_inv\<close> is the invariant of the queues, states and stacks of a set of kernel
    threads, that is threads without a page directory (\<open>pgdir\<close> is \<open>NULL\<close>): what rests on it holds while no user process is ready or runs. \<open>Mutex\<close> is a step
    relation on systems of such threads that compete for one lock; every access to the semaphore, which the code makes with interrupts off, is a step, and so is every store to
    the lock outside of that, and the timer may take the CPU between any two steps; its reachable states keep an invariant from which mutual exclusion, the absence of lost wakeups and of failing assertions follow.
  \<^item> \<open>Idepart\<close>, \<open>Ide\<close>: \<^verbatim>\<open>device/ide.c\<close>. The registers of the controller are functions on the state of the hardware (\<open>ports\<close>), an argument of
    the driver; what the ATA standard says about commands for one sector is the hypothesis \<open>ata_drive\<close>. The argument \<open>env\<close> is what happens between a
    command and \<open>sema_down\<close>; in the theorems the drive ends its work there and raises the interrupt, so that \<open>sema_down\<close> does not wait. They connect
    the driver with the array of sectors of \<open>fsys\<close>. With more than one sector in a command the driver leaves the protocol of the standard, which has an interrupt for every
    sector; the file system model takes such transfers as the source means them.
  \<^item> \<open>Keyboard\<close>: \<^verbatim>\<open>device/keyboard.c\<close>. \<open>Stdio\<close>: \<^verbatim>\<open>lib/stdio.c\<close>.
  \<^item> \<open>Fsstate\<close>, \<open>Inode\<close>, \<open>File\<close>, \<open>Dir\<close>, \<open>Paths\<close>, \<open>Fs\<close>, \<open>Fscalls\<close>, \<open>Format\<close>: \<^verbatim>\<open>fs/inode.c\<close>, \<^verbatim>\<open>fs/file.c\<close>, \<^verbatim>\<open>fs/dir.c\<close>, \<^verbatim>\<open>fs/fs.c\<close>. The record
    \<open>fsys\<close> has the disk as an array of sectors; its last field is the word behind the table of files, which
    \<open>filesys_init\<close> clears. The abstract views are the bytes of a file (\<open>File\<close>), the list of entries of a directory
    (\<open>Dir\<close>), the walk along a path (\<open>Fs\<close>), and what formatting establishes (\<open>Format\<close>).
  \<^item> \<open>Pipe\<close>: \<^verbatim>\<open>user/pipe.c\<close>, \<^verbatim>\<open>device/console.c\<close> and the calls on descriptors, on the record \<open>os\<close> of kernel, file system and screen. \<open>Syscall\<close>:
    \<^verbatim>\<open>user/syscall.c\<close>, \<^verbatim>\<open>user/syscall-init.c\<close> and the handler in \<^verbatim>\<open>kernel/kernel.S\<close>. \<open>Waitexit\<close>: \<^verbatim>\<open>user/wait_exit.c\<close>. \<open>Fork\<close>, \<open>Forkcopy\<close>: \<^verbatim>\<open>user/fork.c\<close>.
  \<^item> \<open>Shell\<close>: the command line of \<^verbatim>\<open>user/shell.c\<close>.

  \<^bold>\<open>Interfaces.\<close> \<open>slot_allocator\<close> (\<open>Bitmap\<close>): finding and taking one of a set of numbered slots; its interpretation \<open>bm\<close> carries the frames, the
  virtual pages and the process identifiers. \<open>fifo_queue\<close> and its extension \<open>kernel_list\<close> (\<open>Klist\<close>): a queue that represents a list; interpreted by
  the linked structure (\<open>hl\<close>), the plain lists (\<open>pl\<close>), the ring (\<open>rq\<close>, \<open>Ioqueue\<close>) and the ring inside the kernel state of a pipe
  (\<open>iq\<close>, \<open>Pipe\<close>).

  \<^bold>\<open>What is shown.\<close> Invariants and that the operations keep them (scheduler, memory manager, identifiers, open i-nodes, directory trees,
  locks); refinements of abstract views (lists, queues, contents of files, entries of directories, walks along paths, formatted text);
  equivalences (path cleaning, system calls through the table, page directory pointers); round trips (allocate and free of pages
  and blocks, i-nodes to disk and back, change of directory and its name, writing and reading a pipe); the hand-over of the CPU
  between exiting child and waiting parent; error behaviour where the code has defects. Theorems with hypotheses have a
  witness on a concrete small machine: 16 frames in each pool, a bitmap or two, a directory of a few entries.

  \<^bold>\<open>Fuel and bounds.\<close> No definition takes fuel that the code does not have: counters of bounded loops (\<open>n\<close> in \<open>free_ptes\<close>, \<open>copy_bits\<close>
  and others) are the number of iterations that are left. \<open>sema_down_loop\<close>, \<open>wait_loop\<close>, \<open>cwd_loop\<close>, \<open>ioq_loop\<close>, the list and string
  loops and \<open>itoa\<close> are partial functions.

  \<^bold>\<open>Not modelled\<close>, and why. The boot sector, loader and \<^verbatim>\<open>kernel/print.s\<close> are assembly that runs before or beside the C code; messages on
  the screen have no effect on the state, so \<open>printk\<close> is left out where only it is called. \<open>invlpg\<close> has no effect on the translation, which is that of the page tables; the one place where
  the code reads a page that it has just unmapped, \<open>thread_exit\<close>, takes the set of pages whose old translation the TLB still holds as an argument (\<open>tlb\<close>), and
  faults for other pages. User memory that a system call reads or
  writes enters as a list of bytes, in \<open>Forkcopy\<close> and \<open>Waitexit\<close> as words behind page tables. Addresses that the linker assigns (\<open>intr_exit\<close>,
  \<open>idle\<close>, \<open>init\<close>) are arguments. The sample programs of \<^verbatim>\<open>user/\<close> and \<^verbatim>\<open>main.c\<close> are test drivers.
\<close>

end
